(* ===== verification/Prelude.thy ===== *)
theory Prelude
  imports Main "HOL-Library.Word"
begin

text \<open>
  Shared vocabulary of the development: fixed-width types, the error numbers of
  \<^verbatim>\<open>sys/errno.h\<close> that the modelled code stores in \<^verbatim>\<open>u.u_error\<close>, chains of nodes linked by a
  \<^verbatim>\<open>next\<close> pointer (pointers are indices into the kernel's static tables, \<open>None\<close> is
  \<^verbatim>\<open>NULL\<close>), and the generic list and word lemmas the component theories use.
\<close>

unbundle bit_operations_syntax

type_synonym u8 = "8 word"
type_synonym u16 = "16 word"
type_synonym u32 = "32 word"
type_synonym ptr = "nat option"

named_theorems chain_simps \<open>facts about linked chains in a store\<close>

section \<open>Error numbers\<close>

datatype errno =
  EPERM | ENOENT | EINTR | EIO | E2BIG | EBADF | EAGAIN | EACCES | EFAULT | EEXIST | EINVAL
  | ENFILE | EMFILE | EFBIG | ENOSPC | ERANGE | ENOMSG | EIDRM | EDEADLK | ENOLCK | EBUSY

section \<open>C integer conversions\<close>

text \<open>The value of an \<^verbatim>\<open>int\<close> (or \<^verbatim>\<open>long\<close>) expression, and of a \<^verbatim>\<open>short\<close>, after wrap-around.\<close>

definition s32 :: "int \<Rightarrow> int" where
  "s32 i = (i + 2147483648) mod 4294967296 - 2147483648"

definition s16 :: "int \<Rightarrow> int" where
  "s16 i = (i + 32768) mod 65536 - 32768"

definition s8 :: "int \<Rightarrow> int" where
  "s8 i = (i + 128) mod 256 - 128"

definition us16 :: "int \<Rightarrow> int" where
  "us16 i = i mod 65536"

lemma s32_id [simp]: "- 2147483648 \<le> i \<Longrightarrow> i < 2147483648 \<Longrightarrow> s32 i = i"
  by (simp add: s32_def)

lemma s16_id [simp]: "- 32768 \<le> i \<Longrightarrow> i < 32768 \<Longrightarrow> s16 i = i"
  by (simp add: s16_def)

lemma s8_id [simp]: "- 128 \<le> i \<Longrightarrow> i < 128 \<Longrightarrow> s8 i = i"
  by (simp add: s8_def)

lemma us16_id [simp]: "0 \<le> i \<Longrightarrow> i < 65536 \<Longrightarrow> us16 i = i"
  by (simp add: us16_def)

lemma s32_range: "- 2147483648 \<le> s32 i \<and> s32 i < 2147483648"
  by (simp add: s32_def)

lemma us16_range: "0 \<le> us16 i \<and> us16 i < 65536"
  by (simp add: us16_def)

section \<open>Words through their values\<close>

lemma unat_add_exact:
  fixes a b :: u32
  shows "unat a + unat b < 4294967296 \<Longrightarrow> unat (a + b) = unat a + unat b"
  by (subst unat_add_lem[symmetric]) simp

lemma unat_u32_less: "unat (x :: u32) < 4294967296"
  using unsigned_less[of x] by simp

lemma unat_of_nat_u32: "n < 4294967296 \<Longrightarrow> unat (of_nat n :: u32) = n"
  by (simp add: unsigned_of_nat take_bit_nat_eq_self_iff)

lemma unat_sub_exact:
  fixes a b :: u32
  shows "b \<le> a \<Longrightarrow> unat (a - b) = unat a - unat b"
  by (rule unat_sub)

section \<open>Chains of nodes in a store\<close>

primrec lseg :: "('a \<Rightarrow> 'a option) \<Rightarrow> 'a option \<Rightarrow> 'a list \<Rightarrow> 'a option \<Rightarrow> bool" where
  "lseg nx p [] q \<longleftrightarrow> p = q"
| "lseg nx p (x # xs) q \<longleftrightarrow> p = Some x \<and> lseg nx (nx x) xs q"

abbreviation chain :: "('a \<Rightarrow> 'a option) \<Rightarrow> 'a option \<Rightarrow> 'a list \<Rightarrow> bool" where
  "chain nx p xs \<equiv> lseg nx p xs None"

lemma lseg_append [chain_simps]:
  "lseg nx p (xs @ ys) q \<longleftrightarrow> (\<exists>r. lseg nx p xs r \<and> lseg nx r ys q)"
  by (induction xs arbitrary: p) auto

lemma chain_None [simp]: "chain nx None xs \<longleftrightarrow> xs = []"
  by (cases xs) auto

lemma chain_Some [chain_simps]:
  "chain nx (Some x) xs \<longleftrightarrow> (\<exists>ys. xs = x # ys \<and> chain nx (nx x) ys)"
  by (cases xs) auto

lemma lseg_frame [chain_simps]:
  "x \<notin> set xs \<Longrightarrow> lseg (nx(x := v)) p xs q = lseg nx p xs q"
  by (induction xs arbitrary: p) auto

lemma lseg_cong:
  "(\<And>x. x \<in> set xs \<Longrightarrow> nx x = ny x) \<Longrightarrow> lseg nx p xs q = lseg ny p xs q"
  by (induction xs arbitrary: p) auto

lemma chain_unique: "chain nx p xs \<Longrightarrow> chain nx p ys \<Longrightarrow> xs = ys"
proof (induction xs arbitrary: p ys)
  case (Cons x xs)
  then obtain zs where "ys = x # zs" "chain nx (nx x) zs"
    by (auto simp: chain_simps)
  with Cons show ?case by auto
qed auto

lemma chain_distinct: "chain nx p xs \<Longrightarrow> distinct xs"
proof (induction xs arbitrary: p)
  case (Cons x xs)
  then have rest: "chain nx (nx x) xs" by simp
  have "x \<notin> set xs"
  proof
    assume "x \<in> set xs"
    then obtain us vs where "xs = us @ x # vs" by (auto simp: in_set_conv_decomp)
    with rest have "chain nx (nx x) vs" by (auto simp: chain_simps)
    with rest have "xs = vs" by (rule chain_unique)
    with \<open>xs = us @ x # vs\<close> have "length vs = length us + Suc (length vs)"
      by (metis length_Cons length_append)
    then show False by simp
  qed
  with Cons.IH[OF rest] show ?case by simp
qed auto

lemma chain_empty_iff: "chain nx p xs \<Longrightarrow> p = None \<longleftrightarrow> xs = []"
  by (cases xs) auto

lemma chain_lastD: "lseg nx p (xs @ [x]) q \<Longrightarrow> nx x = q"
  by (auto simp: chain_simps)

lemma chain_remove:
  assumes c: "chain nx p (as @ m # bs)" and "as \<noteq> []"
  shows "chain (nx(last as := nx m)) p (as @ bs)"
proof -
  obtain cs l where as: "as = cs @ [l]" using \<open>as \<noteq> []\<close> by (cases as rule: rev_cases) auto
  have "distinct (as @ m # bs)" using chain_distinct[OF c] .
  with c show ?thesis by (auto simp: as chain_simps)
qed

lemma chain_snoc:
  assumes c: "chain nx p xs" and "xs \<noteq> []" "m \<notin> set xs"
  shows "chain (nx(m := None, last xs := Some m)) p (xs @ [m])"
proof -
  obtain cs l where xs: "xs = cs @ [l]" using \<open>xs \<noteq> []\<close> by (cases xs rule: rev_cases) auto
  have "distinct xs" using chain_distinct[OF c] .
  with c \<open>m \<notin> set xs\<close> show ?thesis by (auto simp: xs chain_simps)
qed

lemma upto_chain:
  "i < n \<Longrightarrow> lseg (\<lambda>m. if Suc m < n then Some (Suc m) else None) (Some i) [i..<n] None"
proof (induction "n - i" arbitrary: i)
  case (Suc k)
  then show ?case by (cases "Suc i < n") (simp_all add: upt_conv_Cons)
qed simp

section \<open>Lists\<close>

lemma takeWhile_append_stop:
  "(\<And>z. z \<in> set zs \<Longrightarrow> \<not> P z) \<Longrightarrow> takeWhile P (xs @ zs) = takeWhile P xs"
  by (induction xs) (auto simp: takeWhile_eq_Nil_iff neq_Nil_conv)

lemma dropWhile_append_stop:
  "(\<And>z. z \<in> set zs \<Longrightarrow> \<not> P z) \<Longrightarrow> dropWhile P (xs @ zs) = dropWhile P xs @ zs"
proof (induction xs)
  case Nil
  then show ?case by (cases zs) auto
qed auto

lemma nth_Cons_offset: "Suc i \<le> j \<Longrightarrow> (x # xs) ! (j - i) = xs ! (j - Suc i)"
proof -
  assume "Suc i \<le> j"
  then have "j - i = Suc (j - Suc i)" by simp
  then show ?thesis by simp
qed

lemma replicate_snoc_Cons: "x # replicate n x = replicate n x @ [x]"
  by (simp add: replicate_append_same)

end
