(* ===== verification/Ipc.thy ===== *)
theory Ipc
  imports Prelude
begin

text \<open>
  The common System V IPC routines of \<^verbatim>\<open>uts/m68k/io/ipc.c\<close> with the structures of
  \<^verbatim>\<open>sys/ipc.h\<close>: permission checks and the key table shared by messages and semaphores.
  A facility's structure array is the list of its \<^verbatim>\<open>ipc_perm\<close> heads; a routine that
  returns \<^verbatim>\<open>NULL\<close> with \<^verbatim>\<open>u.u_error\<close> set returns \<open>Inl\<close> of that error.
\<close>

section \<open>The code\<close>

record ipc_perm =
  ip_uid :: u16
  ip_gid :: u16
  ip_cuid :: u16
  ip_cgid :: u16
  ip_mode :: u16
  ip_seq :: u16
  ip_key :: u32

text \<open>The caller: the fields of the user area the IPC code reads.\<close>

record ucred =
  u_uid :: u16
  u_gid :: u16
  u_pid :: int

abbreviation (input) IPC_ALLOC :: u16 where "IPC_ALLOC \<equiv> 0x8000"
abbreviation (input) IPC_CREAT :: u32 where "IPC_CREAT \<equiv> 0x200"
abbreviation (input) IPC_EXCL :: u32 where "IPC_EXCL \<equiv> 0x400"
abbreviation (input) IPC_NOWAIT :: u32 where "IPC_NOWAIT \<equiv> 0x800"
abbreviation (input) IPC_PRIVATE :: u32 where "IPC_PRIVATE \<equiv> 0"

definition ipcaccess :: "ucred \<Rightarrow> ipc_perm \<Rightarrow> u16 \<Rightarrow> errno option" where
  "ipcaccess u p mode =
     (if u_uid u = 0 then None
      else
        let mode1 = (if u_uid u \<noteq> ip_uid p \<and> u_uid u \<noteq> ip_cuid p then
                       (let m = drop_bit 3 mode
                        in if u_gid u \<noteq> ip_gid p \<and> u_gid u \<noteq> ip_cgid p
                           then drop_bit 3 m else m)
                     else mode)
        in if mode1 AND ip_mode p \<noteq> 0 then None else Some EACCES)"

fun ipc_free_slot :: "ipc_perm list \<Rightarrow> nat \<Rightarrow> nat option" where
  "ipc_free_slot [] i = None"
| "ipc_free_slot (b # bs) i =
     (if ip_mode b AND IPC_ALLOC \<noteq> 0 then ipc_free_slot bs (Suc i) else Some i)"

text \<open>The search by key: \<open>a\<close> is the first available slot seen so far; the result tells
  the slot and whether it is new.\<close>

fun ipc_key_slot ::
    "u32 \<Rightarrow> u32 \<Rightarrow> ipc_perm list \<Rightarrow> nat \<Rightarrow> nat option \<Rightarrow> errno + (nat \<times> bool)" where
  "ipc_key_slot key flag [] i a =
     (if flag AND IPC_CREAT = 0 then Inl ENOENT
      else case a of None \<Rightarrow> Inl ENOSPC | Some j \<Rightarrow> Inr (j, True))"
| "ipc_key_slot key flag (b # bs) i a =
     (if ip_mode b AND IPC_ALLOC \<noteq> 0 then
        (if ip_key b = key then
           (if flag AND (IPC_CREAT OR IPC_EXCL) = (IPC_CREAT OR IPC_EXCL) then Inl EEXIST
            else if (flag AND 0x1FF) AND NOT (ucast (ip_mode b)) \<noteq> 0 then Inl EACCES
            else Inr (i, False))
         else ipc_key_slot key flag bs (Suc i) a)
      else ipc_key_slot key flag bs (Suc i) (if a = None then Some i else a))"

definition ipc_init_perm :: "ucred \<Rightarrow> u32 \<Rightarrow> u32 \<Rightarrow> ipc_perm \<Rightarrow> ipc_perm" where
  "ipc_init_perm u key flag b =
     b\<lparr>ip_mode := IPC_ALLOC OR ucast (flag AND 0x1FF), ip_key := key,
       ip_cuid := u_uid u, ip_uid := u_uid u, ip_cgid := u_gid u, ip_gid := u_gid u\<rparr>"

definition ipcget ::
    "ucred \<Rightarrow> u32 \<Rightarrow> u32 \<Rightarrow> ipc_perm list \<Rightarrow> errno + (nat \<times> bool \<times> ipc_perm)" where
  "ipcget u key flag base =
     (case (if key = IPC_PRIVATE
            then (case ipc_free_slot base 0 of None \<Rightarrow> Inl ENOSPC | Some i \<Rightarrow> Inr (i, True))
            else ipc_key_slot key flag base 0 None) of
        Inl e \<Rightarrow> Inl e
      | Inr (i, new) \<Rightarrow>
          Inr (i, new, if new then ipc_init_perm u key flag (base ! i) else base ! i))"

section \<open>The key table\<close>

abbreviation allocated :: "ipc_perm \<Rightarrow> bool" where
  "allocated p \<equiv> ip_mode p AND IPC_ALLOC \<noteq> 0"

lemma ipc_free_slotD:
  "ipc_free_slot bs i = Some j \<Longrightarrow> i \<le> j \<and> j < i + length bs \<and> \<not> allocated (bs ! (j - i))"
proof (induction bs arbitrary: i)
  case (Cons b bs)
  show ?case
  proof (cases "allocated b")
    case True
    with Cons.prems Cons.IH[of "Suc i"]
    have "Suc i \<le> j \<and> j < Suc i + length bs \<and> \<not> allocated (bs ! (j - Suc i))" by simp
    then show ?thesis by (auto simp: nth_Cons_offset)
  qed (use Cons in auto)
qed simp

lemma ipc_key_slot_new:
  "ipc_key_slot key flag bs i a = Inr (j, True) \<Longrightarrow>
   (\<forall>b\<in>set bs. allocated b \<longrightarrow> ip_key b \<noteq> key) \<and> flag AND IPC_CREAT \<noteq> 0 \<and>
   (a = Some j \<or> (a = None \<and> i \<le> j \<and> j < i + length bs \<and> \<not> allocated (bs ! (j - i))))"
proof (induction bs arbitrary: i a)
  case Nil
  then show ?case by (auto split: if_splits option.splits)
next
  case (Cons b bs)
  let ?a = "if allocated b then a else if a = None then Some i else a"
  have "ipc_key_slot key flag bs (Suc i) ?a = Inr (j, True)" "allocated b \<longrightarrow> ip_key b \<noteq> key"
    using Cons.prems by (auto split: if_splits)
  with Cons.IH[of "Suc i" ?a] show ?case
    by (cases "allocated b"; cases a) (auto simp: nth_Cons_offset)
qed

lemma ipc_key_slot_old:
  "ipc_key_slot key flag bs i a = Inr (j, False) \<Longrightarrow>
   i \<le> j \<and> j < i + length bs \<and> allocated (bs ! (j - i)) \<and> ip_key (bs ! (j - i)) = key \<and>
   (flag AND 0x1FF) AND NOT (ucast (ip_mode (bs ! (j - i)))) = 0"
proof (induction bs arbitrary: i a)
  case Nil
  then show ?case by (auto split: if_splits option.splits)
next
  case (Cons b bs)
  show ?case
  proof (cases "allocated b \<and> ip_key b = key")
    case True
    with Cons.prems show ?thesis by (auto split: if_splits)
  next
    case False
    then have "\<exists>a'. ipc_key_slot key flag bs (Suc i) a' = Inr (j, False)"
      using Cons.prems by (auto split: if_splits)
    then obtain a' where "ipc_key_slot key flag bs (Suc i) a' = Inr (j, False)" by blast
    from Cons.IH[OF this] show ?thesis by (auto simp: nth_Cons_offset)
  qed
qed

text \<open>No key is served by two structures.\<close>

definition keys_unique :: "ipc_perm list \<Rightarrow> bool" where
  "keys_unique bs \<longleftrightarrow>
     (\<forall>i<length bs. \<forall>j<length bs. allocated (bs ! i) \<longrightarrow> allocated (bs ! j) \<longrightarrow>
        ip_key (bs ! i) = ip_key (bs ! j) \<longrightarrow> ip_key (bs ! i) \<noteq> IPC_PRIVATE \<longrightarrow> i = j)"

lemma alloc_bit: "x AND IPC_ALLOC \<noteq> 0 \<longleftrightarrow> bit x 15"
  using and_exp_eq_0_iff_not_bit[of x 15] by simp

lemma allocated_init [simp]: "allocated (ipc_init_perm u key flag b)"
  by (simp add: ipc_init_perm_def alloc_bit bit_simps)

section \<open>Identifiers\<close>

text \<open>The identifier a facility hands out for slot \<open>i\<close> whose sequence number is \<open>q\<close>, and the
  slot and sequence number the conversion routines recover from it.\<close>

definition ipc_id :: "nat \<Rightarrow> u16 \<Rightarrow> nat \<Rightarrow> int" where
  "ipc_id mni q i = int (unat q) * int mni + int i"

definition ipc_slot :: "nat \<Rightarrow> int \<Rightarrow> nat" where
  "ipc_slot mni ident = nat (ident mod int mni)"

definition ipc_seq_ok :: "nat \<Rightarrow> int \<Rightarrow> ipc_perm \<Rightarrow> bool" where
  "ipc_seq_ok mni ident p \<longleftrightarrow>
     ip_mode p AND IPC_ALLOC \<noteq> 0 \<and> ident div int mni = int (unat (ip_seq p))"

lemma ipc_id_nonneg [simp]: "0 \<le> ipc_id mni q i"
  by (simp add: ipc_id_def)

lemma ipc_slot_id [simp]: "i < mni \<Longrightarrow> ipc_slot mni (ipc_id mni q i) = i"
  by (simp add: ipc_slot_def ipc_id_def)

lemma ipc_slot_less: "0 < mni \<Longrightarrow> ipc_slot mni ident < mni"
  by (simp add: ipc_slot_def nat_less_iff)

lemma ipc_seq_ok_id:
  "i < mni \<Longrightarrow> ipc_seq_ok mni (ipc_id mni q i) p \<longleftrightarrow> allocated p \<and> q = ip_seq p"
  by (simp add: ipc_seq_ok_def ipc_id_def word_uint_eq_iff[of q])

section \<open>What ipcget returns\<close>

lemma ipcget_cases:
  assumes "ipcget u key flag bs = Inr (i, new, p)"
  obtains (new) "new" "i < length bs" "\<not> allocated (bs ! i)" "p = ipc_init_perm u key flag (bs ! i)"
      "key \<noteq> IPC_PRIVATE \<longrightarrow> flag AND IPC_CREAT \<noteq> 0 \<and> (\<forall>b\<in>set bs. allocated b \<longrightarrow> ip_key b \<noteq> key)"
  | (old) "\<not> new" "i < length bs" "allocated (bs ! i)" "p = bs ! i" "ip_key p = key"
      "key \<noteq> IPC_PRIVATE" "(flag AND 0x1FF) AND NOT (ucast (ip_mode p)) = 0"
proof (cases "key = IPC_PRIVATE")
  case True
  then have "new" "ipc_free_slot bs 0 = Some i" "p = ipc_init_perm u key flag (bs ! i)"
    using assms by (auto simp: ipcget_def split: option.splits)
  then show ?thesis using ipc_free_slotD[of bs 0 i] that(1) True by auto
next
  case False
  then have s: "ipc_key_slot key flag bs 0 None = Inr (i, new)"
    "p = (if new then ipc_init_perm u key flag (bs ! i) else bs ! i)"
    using assms by (auto simp: ipcget_def split: sum.splits)
  show ?thesis
  proof (cases new)
    case True
    then show ?thesis using s ipc_key_slot_new[of key flag bs 0 None i] that(1) False by auto
  next
    case old: False
    then show ?thesis using s ipc_key_slot_old[of key flag bs 0 None i] that(2) False by auto
  qed
qed

lemma ipc_key_slot_error:
  "ipc_key_slot key flag bs i a = Inl e \<Longrightarrow>
   (\<exists>b\<in>set bs. allocated b \<and> ip_key b = key \<and>
       (e = EEXIST \<and> flag AND (IPC_CREAT OR IPC_EXCL) = (IPC_CREAT OR IPC_EXCL) \<or>
        e = EACCES \<and> (flag AND 0x1FF) AND NOT (ucast (ip_mode b)) \<noteq> 0)) \<or>
   (\<forall>b\<in>set bs. allocated b \<longrightarrow> ip_key b \<noteq> key) \<and>
      (e = ENOENT \<and> flag AND IPC_CREAT = 0 \<or>
       e = ENOSPC \<and> flag AND IPC_CREAT \<noteq> 0 \<and> a = None \<and> (\<forall>b\<in>set bs. allocated b))"
proof (induction bs arbitrary: i a)
  case Nil
  then show ?case by (auto split: if_splits option.splits)
next
  case (Cons b bs)
  show ?case
  proof (cases "allocated b \<and> ip_key b = key")
    case True
    with Cons.prems show ?thesis by (auto split: if_splits)
  next
    case False
    let ?a = "if allocated b then a else if a = None then Some i else a"
    have "ipc_key_slot key flag bs (Suc i) ?a = Inl e"
      using False Cons.prems by (auto split: if_splits)
    from Cons.IH[OF this] False show ?thesis by (auto split: if_splits)
  qed
qed

section \<open>Properties\<close>

text \<open>\<^verbatim>\<open>ipcget\<close> never makes two structures answer to one key. What it returns is an
  allocated structure for the requested key: either a free slot, now owned by the caller with
  the requested permission bits and its old sequence number, or the existing structure,
  unchanged and granting every permission bit asked for.\<close>

theorem ipcget_keys_unique:
  assumes "keys_unique bs" and "ipcget u key flag bs = Inr (i, new, p)"
  shows "keys_unique (bs[i := p]) \<and> i < length bs \<and> allocated p \<and> ip_key p = key \<and>
    ip_seq p = ip_seq (bs ! i) \<and>
    (if new then \<not> allocated (bs ! i) \<and> ip_uid p = u_uid u \<and> ip_cuid p = u_uid u \<and>
        ip_mode p AND 0x1FF = ucast flag AND 0x1FF
     else p = bs ! i \<and> (flag AND 0x1FF) AND NOT (ucast (ip_mode p)) = 0)"
  using assms(2)
proof (cases rule: ipcget_cases)
  case new
  have "ip_mode p AND 0x1FF = ucast flag AND 0x1FF"
  proof -
    have "\<not> (bit (0x8000 :: u16) n \<and> bit (0x1FF :: u16) n)" for n
    proof -
      have "bit ((0x8000 :: u16) AND 0x1FF) n = False" by simp
      then show ?thesis by (simp only: bit_and_iff simp_thms)
    qed
    then show ?thesis using new(4) by (auto simp: ipc_init_perm_def bit_eq_iff bit_simps)
  qed
  moreover have "key \<noteq> 0 \<longrightarrow> (\<forall>j<length bs. allocated (bs ! j) \<longrightarrow> ip_key (bs ! j) \<noteq> key)"
    using new(5) by auto
  ultimately show ?thesis using new(1-4) assms(1)
    unfolding keys_unique_def
    by (auto simp: nth_list_update ipc_init_perm_def alloc_bit bit_simps)
next
  case old
  with assms(1) show ?thesis by (simp add: list_update_id)
qed

theorem ipcget_keys_unique_witness:
  "\<exists>bs u. keys_unique bs \<and> ipcget u 7 (0x200 OR 0x180) bs =
      Inr (1, True, ipc_init_perm u 7 (0x200 OR 0x180) (bs ! 1)) \<and>
      keys_unique (bs[1 := ipc_init_perm u 7 (0x200 OR 0x180) (bs ! 1)])"
proof -
  let ?p = "\<lparr>ip_uid = 5, ip_gid = 1, ip_cuid = 5, ip_cgid = 1, ip_mode = 0x8180, ip_seq = 0, ip_key = 3\<rparr>"
  let ?q = "\<lparr>ip_uid = 0, ip_gid = 0, ip_cuid = 0, ip_cgid = 0, ip_mode = 0, ip_seq = 4, ip_key = 0\<rparr>"
  let ?u = "\<lparr>u_uid = 9, u_gid = 1, u_pid = 20\<rparr>"
  have u: "keys_unique [?p, ?q]" by (auto simp: keys_unique_def less_Suc_eq)
  have g: "ipcget ?u 7 (0x200 OR 0x180) [?p, ?q] = Inr (1, True, ipc_init_perm ?u 7 (0x200 OR 0x180) ([?p, ?q] ! 1))"
    by (simp add: ipcget_def)
  from ipcget_keys_unique[OF u g] u g show ?thesis by blast
qed

text \<open>C39: every error of \<^verbatim>\<open>ipcget\<close> has its documented cause: \<open>EEXIST\<close> only under both
  create and exclusive on an existing key, \<open>EACCES\<close> only when an existing structure denies a
  requested bit, \<open>ENOENT\<close> only for an unknown key without create, \<open>ENOSPC\<close> only when every
  slot is allocated.\<close>

theorem ipcget_error_causes:
  assumes "ipcget u key flag bs = Inl e"
  shows "e = ENOSPC \<and> (\<forall>b\<in>set bs. allocated b) \<or>
    key \<noteq> IPC_PRIVATE \<and> e = ENOENT \<and> flag AND IPC_CREAT = 0 \<and>
      (\<forall>b\<in>set bs. allocated b \<longrightarrow> ip_key b \<noteq> key) \<or>
    key \<noteq> IPC_PRIVATE \<and> (\<exists>b\<in>set bs. allocated b \<and> ip_key b = key \<and>
       (e = EEXIST \<and> flag AND (IPC_CREAT OR IPC_EXCL) = (IPC_CREAT OR IPC_EXCL) \<or>
        e = EACCES \<and> (flag AND 0x1FF) AND NOT (ucast (ip_mode b)) \<noteq> 0))"
proof (cases "key = IPC_PRIVATE")
  case True
  have "ipc_free_slot bs i = None \<Longrightarrow> \<forall>b\<in>set bs. allocated b" for i
    by (induction bs arbitrary: i) (auto split: if_splits)
  with True assms show ?thesis by (auto simp: ipcget_def split: option.splits)
next
  case False
  then have "ipc_key_slot key flag bs 0 None = Inl e"
    using assms by (auto simp: ipcget_def split: sum.splits)
  from ipc_key_slot_error[OF this] False show ?thesis by blast
qed

theorem ipcget_error_causes_witness:
  "\<exists>u. ipcget u 7 0 [] = Inl ENOENT \<and>
     (\<forall>b\<in>set ([] :: ipc_perm list). allocated b \<longrightarrow> ip_key b \<noteq> 7)"
proof -
  let ?u = "\<lparr>u_uid = 9, u_gid = 1, u_pid = 20\<rparr>"
  have g: "ipcget ?u 7 0 [] = Inl ENOENT" by (simp add: ipcget_def)
  from ipcget_error_causes[OF g] g show ?thesis by blast
qed

end
