(* ===== verification/Resource_Map.thy ===== *)
theory Resource_Map
  imports Prelude "HOL-Library.Disjoint_Sets"
begin

text \<open>
  The resource map allocator of \<^verbatim>\<open>uts/m68k/os/malloc.c\<close> and \<^verbatim>\<open>sys/map.h\<close>: a table of
  free runs, first fit, kept sorted and coalesced. The table is the list of slots
  \<^verbatim>\<open>X[1]..\<close>; \<^verbatim>\<open>X[0]\<close> is the pair of fields \<open>map_free\<close> (\<^verbatim>\<open>mapsize\<close>) and \<open>map_want\<close>
  (\<^verbatim>\<open>mapwant\<close>). A pointer \<^verbatim>\<open>bp\<close> into the table is the suffix that starts there; running off
  the table is \<open>None\<close>. The locale \<open>space_map\<close> is the contract the clients (messages,
  semaphores) use; it is interpreted on the model at the end of the theory.
\<close>

section \<open>The code\<close>

record mapent =
  m_size :: u32
  m_addr :: u32

record rmap =
  map_free :: u32
  map_want :: u32
  map_ent :: "mapent list"

datatype map_event = WakeupMap | MapOverflow u32 u32

definition zero_ent :: mapent where
  "zero_ent = \<lparr>m_size = 0, m_addr = 0\<rparr>"

definition mapinit :: "u32 \<Rightarrow> rmap \<Rightarrow> rmap" where
  "mapinit y m = m\<lparr>map_free := y - 2\<rparr>"

text \<open>\<^verbatim>\<open>do { bp++; *(bp-1) = *bp } while ((bp-1)->m_size)\<close>\<close>

fun malloc_shift :: "mapent list \<Rightarrow> mapent list option" where
  "malloc_shift (e # e' # es) =
     (if m_size e' = 0 then Some (e' # e' # es)
      else map_option (Cons e') (malloc_shift (e' # es)))"
| "malloc_shift _ = None"

fun malloc_scan :: "u32 \<Rightarrow> mapent list \<Rightarrow> (u32 \<times> bool \<times> mapent list) option" where
  "malloc_scan sz [] = None"
| "malloc_scan sz (e # es) =
     (if m_size e = 0 then Some (0, False, e # es)
      else if m_size e \<ge> sz then
        (let a = m_addr e;
             e' = e\<lparr>m_addr := m_addr e + sz, m_size := m_size e - sz\<rparr>
         in if m_size e' = 0
            then map_option (\<lambda>es'. (a, True, es')) (malloc_shift (e' # es))
            else Some (a, False, e' # es))
      else map_option (\<lambda>(a, x, es'). (a, x, e # es')) (malloc_scan sz es))"

definition malloc :: "rmap \<Rightarrow> u32 \<Rightarrow> (u32 \<times> rmap) option" where
  "malloc mp sz =
     (if sz = 0 then Some (0, mp)
      else map_option (\<lambda>(a, exact, es).
             (a, mp\<lparr>map_ent := es, map_free := map_free mp + (if exact then 1 else 0)\<rparr>))
           (malloc_scan sz (map_ent mp)))"

text \<open>\<^verbatim>\<open>while (bp->m_size) { bp++; *(bp-1) = *bp }\<close>\<close>

fun mfree_shift :: "mapent list \<Rightarrow> mapent list option" where
  "mfree_shift [] = None"
| "mfree_shift (e # es) =
     (if m_size e = 0 then Some (e # es)
      else case es of [] \<Rightarrow> None
           | e' # es' \<Rightarrow> map_option (Cons e') (mfree_shift (e' # es')))"

text \<open>\<^verbatim>\<open>do { swap (a, size) with *bp; bp++ } while (size)\<close>\<close>

fun mfree_insert :: "u32 \<Rightarrow> u32 \<Rightarrow> mapent list \<Rightarrow> mapent list option" where
  "mfree_insert sz a [] = None"
| "mfree_insert sz a (e # es) =
     (let e' = \<lparr>m_size = sz, m_addr = a\<rparr>
      in if m_size e = 0 then Some (e' # es)
         else map_option (Cons e') (mfree_insert (m_size e) (m_addr e) es))"

definition mfree_wake :: "rmap \<Rightarrow> rmap \<times> map_event list" where
  "mfree_wake mp =
     (if map_want mp \<noteq> 0 then (mp\<lparr>map_want := 0\<rparr>, [WakeupMap]) else (mp, []))"

definition mfree :: "rmap \<Rightarrow> u32 \<Rightarrow> u32 \<Rightarrow> (rmap \<times> map_event list) option" where
  "mfree mp sz a =
     (if sz = 0 then Some (mp, [])
      else
        let here = (\<lambda>e. m_addr e \<le> a \<and> m_size e \<noteq> 0);
            pre = takeWhile here (map_ent mp);
            suf = dropWhile here (map_ent mp)
        in case suf of [] \<Rightarrow> None
           | bp # rest \<Rightarrow>
             (if pre \<noteq> [] \<and> m_addr (last pre) + m_size (last pre) = a then
                (let pv = (last pre)\<lparr>m_size := m_size (last pre) + sz\<rparr>
                 in if m_addr bp \<noteq> 0 \<and> a + sz = m_addr bp then
                      (let pv' = pv\<lparr>m_size := m_size pv + m_size bp\<rparr>
                       in map_option (\<lambda>suf'. mfree_wake
                            (mp\<lparr>map_ent := butlast pre @ pv' # suf',
                                map_free := map_free mp + 1\<rparr>))
                          (mfree_shift suf))
                    else Some (mfree_wake (mp\<lparr>map_ent := butlast pre @ pv # suf\<rparr>)))
              else if a + sz = m_addr bp \<and> m_size bp \<noteq> 0 then
                Some (mfree_wake (mp\<lparr>map_ent :=
                  pre @ bp\<lparr>m_addr := m_addr bp - sz, m_size := m_size bp + sz\<rparr> # rest\<rparr>))
              else if map_free mp = 0 then Some (mp, [MapOverflow sz a])
              else map_option (\<lambda>suf'. mfree_wake
                     (mp\<lparr>map_ent := pre @ suf', map_free := map_free mp - 1\<rparr>))
                   (mfree_insert sz a suf)))"

section \<open>The contract\<close>

definition blk :: "u32 \<Rightarrow> u32 \<Rightarrow> nat set" where
  "blk a s = {unat a ..< unat a + unat s}"

definition map_units :: "rmap \<Rightarrow> nat set" where
  "map_units mp = (\<Union>e\<in>set (map_ent mp). blk (m_addr e) (m_size e))"

text \<open>The live runs: increasing, positive, with a gap between neighbours, below \<open>2 ^ 32\<close>.\<close>

fun map_runs :: "nat \<Rightarrow> mapent list \<Rightarrow> bool" where
  "map_runs lo [] = True"
| "map_runs lo (e # es) =
     (m_size e \<noteq> 0 \<and> lo < unat (m_addr e) \<and>
      unat (m_addr e) + unat (m_size e) < 4294967296 \<and>
      map_runs (unat (m_addr e) + unat (m_size e)) es)"

definition map_live :: "rmap \<Rightarrow> mapent list" where
  "map_live mp = takeWhile (\<lambda>e. m_size e \<noteq> 0) (map_ent mp)"

definition map_wf :: "rmap \<Rightarrow> bool" where
  "map_wf mp \<longleftrightarrow>
     map_runs 0 (map_live mp) \<and> length (map_ent mp) < 4294967296 \<and>
     map_ent mp = map_live mp @ replicate (Suc (unat (map_free mp))) zero_ent"

section \<open>The array loops on a well-formed table\<close>

lemma zero_ent_simps [simp]: "m_size zero_ent = 0" "m_addr zero_ent = 0"
  by (simp_all add: zero_ent_def)

lemma blk_zero [simp]: "blk a 0 = {}"
  by (simp add: blk_def)

lemma map_runs_nonzero: "map_runs lo es \<Longrightarrow> e \<in> set es \<Longrightarrow> m_size e \<noteq> 0"
  by (induction lo es rule: map_runs.induct) auto

lemma map_runs_weaken: "map_runs lo es \<Longrightarrow> lo' \<le> lo \<Longrightarrow> map_runs lo' es"
  by (cases es) auto

lemma malloc_shift_live:
  "\<forall>x\<in>set es. m_size x \<noteq> 0 \<Longrightarrow>
   malloc_shift (e # es @ replicate (Suc k) zero_ent) = Some (es @ replicate (Suc (Suc k)) zero_ent)"
  by (induction es arbitrary: e) auto

lemma mfree_shift_live:
  "m_size e \<noteq> 0 \<Longrightarrow> \<forall>x\<in>set es. m_size x \<noteq> 0 \<Longrightarrow>
   mfree_shift (e # es @ replicate (Suc k) zero_ent) = Some (es @ replicate (Suc (Suc k)) zero_ent)"
  by (induction es arbitrary: e) auto

lemma mfree_insert_live:
  "\<forall>x\<in>set es. m_size x \<noteq> 0 \<Longrightarrow>
   mfree_insert sz a (es @ replicate (Suc (Suc k)) zero_ent)
   = Some (\<lparr>m_size = sz, m_addr = a\<rparr> # es @ replicate (Suc k) zero_ent)"
  by (induction es arbitrary: sz a) (auto simp: Let_def)

text \<open>First fit on the live runs alone.\<close>

fun fit :: "u32 \<Rightarrow> mapent list \<Rightarrow> (u32 \<times> mapent list) option" where
  "fit sz [] = None"
| "fit sz (e # es) =
     (if m_size e = sz then Some (m_addr e, es)
      else if m_size e > sz then
        Some (m_addr e, e\<lparr>m_addr := m_addr e + sz, m_size := m_size e - sz\<rparr> # es)
      else map_option (\<lambda>(a, es'). (a, e # es')) (fit sz es))"

lemma fit_length: "fit sz es = Some (a, es') \<Longrightarrow> length es' = length es \<or> Suc (length es') = length es"
  by (induction es arbitrary: es') (auto split: if_splits)

lemma malloc_scan_live:
  "map_runs lo es \<Longrightarrow> sz \<noteq> 0 \<Longrightarrow>
   malloc_scan sz (es @ replicate (Suc k) zero_ent) =
     Some (case fit sz es of
             None \<Rightarrow> (0, False, es @ replicate (Suc k) zero_ent)
           | Some (a, es') \<Rightarrow> (a, length es' < length es,
                es' @ replicate (Suc (k + (length es - length es'))) zero_ent))"
proof (induction es arbitrary: lo)
  case (Cons e es)
  have nz: "\<forall>x\<in>set es. m_size x \<noteq> 0" "m_size e \<noteq> 0"
    using Cons.prems map_runs_nonzero by auto
  consider "m_size e = sz" | "m_size e > sz" | "m_size e < sz" by fastforce
  then show ?case
  proof cases
    case 1
    then show ?thesis using nz malloc_shift_live[OF nz(1), of _ k]
      by (simp add: Let_def)
  next
    case 2
    then have "m_size e - sz \<noteq> 0" by auto
    with 2 nz show ?thesis by (auto simp: Let_def)
  next
    case 3
    with nz Cons show ?thesis
      by (auto simp: Let_def not_le split: option.splits)
  qed
qed simp

section \<open>What first fit takes\<close>

abbreviation ent_end :: "mapent \<Rightarrow> nat" where
  "ent_end e \<equiv> unat (m_addr e) + unat (m_size e)"

abbreviation span :: "mapent list \<Rightarrow> nat set" where
  "span es \<equiv> \<Union>e\<in>set es. blk (m_addr e) (m_size e)"

lemma map_runs_above: "map_runs lo es \<Longrightarrow> x \<in> span es \<Longrightarrow> lo < x"
proof (induction lo es rule: map_runs.induct)
  case (2 lo e es)
  then have "x \<in> blk (m_addr e) (m_size e) \<or> unat (m_addr e) + unat (m_size e) < x" by auto
  with 2 show ?case by (auto simp: blk_def)
qed simp

lemma fit_ok:
  assumes "map_runs lo es" "sz \<noteq> 0" "fit sz es = Some (a, es')"
  shows "lo < unat a \<and> unat a + unat sz < 4294967296 \<and> blk a sz \<subseteq> span es \<and>
         span es' = span es - blk a sz \<and> map_runs lo es'"
  using assms
proof (induction es arbitrary: lo es')
  case (Cons e es)
  let ?fin = "unat (m_addr e) + unat (m_size e)"
  have e: "m_size e \<noteq> 0" "lo < unat (m_addr e)" "?fin < 4294967296" "map_runs ?fin es"
    using Cons.prems by auto
  have above: "x \<in> span es \<Longrightarrow> ?fin < x" for x
    using map_runs_above[OF e(4)] by blast
  consider (eq) "m_size e = sz" | (gt) "m_size e > sz" | (lt) "m_size e < sz" by fastforce
  then show ?case
  proof cases
    case eq
    then have r: "a = m_addr e" "es' = es" using Cons.prems by auto
    have "map_runs lo es" using e by (intro map_runs_weaken[OF e(4)]) auto
    with r eq e above show ?thesis by (fastforce simp: blk_def)
  next
    case gt
    let ?e = "e\<lparr>m_addr := m_addr e + sz, m_size := m_size e - sz\<rparr>"
    have r: "a = m_addr e" "es' = ?e # es" using gt Cons.prems by (auto split: if_splits)
    have szlt: "unat sz < unat (m_size e)" using gt by (simp add: word_less_nat_alt)
    have u: "unat (m_addr e + sz) = unat (m_addr e) + unat sz"
      using szlt e by (intro unat_add_exact) linarith
    have v: "unat (m_size e - sz) = unat (m_size e) - unat sz"
      using gt by (intro unat_sub_exact) simp
    have "m_size e - sz \<noteq> 0" using gt by auto
    with e u v szlt have runs: "map_runs lo es'" by (simp add: r)
    have "blk a sz \<inter> span es = {}" using above szlt r by (fastforce simp: blk_def)
    moreover have "blk (m_addr e + sz) (m_size e - sz) = blk (m_addr e) (m_size e) - blk a sz"
      using szlt by (auto simp: blk_def u v r)
    ultimately show ?thesis using runs e szlt r by (auto simp: blk_def)
  next
    case lt
    then obtain es'' where r: "fit sz es = Some (a, es'')" "es' = e # es''"
      using Cons.prems by (auto split: if_splits option.splits)
    from Cons.IH[OF e(4) \<open>sz \<noteq> 0\<close> r(1)] have ih:
      "?fin < unat a" "unat a + unat sz < 4294967296" "blk a sz \<subseteq> span es"
      "span es'' = span es - blk a sz" "map_runs ?fin es''" by auto
    have "blk a sz \<inter> blk (m_addr e) (m_size e) = {}" using ih(1) by (auto simp: blk_def)
    with ih e r show ?thesis by auto
  qed
qed simp

lemma fit_skip:
  assumes runs: "map_runs lo (e # es)" and small: "m_size e < sz"
    and sub: "{b ..< b + unat sz} \<subseteq> span (e # es)"
  shows "{b ..< b + unat sz} \<subseteq> span es"
proof -
  let ?fin = "unat (m_addr e) + unat (m_size e)"
  have above: "\<And>x. x \<in> span es \<Longrightarrow> ?fin < x" using runs map_runs_above by force
  have lt: "unat (m_size e) < unat sz" using small by (simp add: word_less_nat_alt)
  have "?fin \<notin> span (e # es)" using above by (auto simp: blk_def)
  then have "?fin \<notin> {b ..< b + unat sz}" using sub by blast
  then consider "?fin < b" | "b + unat sz \<le> ?fin" by (auto simp: not_le not_less)
  then show ?thesis
  proof cases
    case 1
    then have "{b ..< b + unat sz} \<inter> blk (m_addr e) (m_size e) = {}" by (auto simp: blk_def)
    with sub show ?thesis by auto
  next
    case 2
    have "b \<in> span (e # es)" using sub lt by (auto simp: subset_iff)
    moreover have "b \<notin> span es" using above 2 lt by force
    ultimately have "unat (m_addr e) \<le> b" by (auto simp: blk_def)
    with 2 lt show ?thesis by simp
  qed
qed

lemma fit_none:
  assumes "map_runs lo es" "sz \<noteq> 0" "fit sz es = None"
  shows "\<not> {b ..< b + unat sz} \<subseteq> span es"
  using assms
proof (induction es arbitrary: lo)
  case Nil
  then show ?case by (auto simp: unat_gt_0)
next
  case (Cons e es)
  then have e: "m_size e < sz" "fit sz es = None" by (auto split: if_splits)
  have "\<not> {b ..< b + unat sz} \<subseteq> span es"
    using Cons.prems by (intro Cons.IH[OF _ _ e(2)]) auto
  then show ?case using fit_skip[OF Cons.prems(1) e(1)] by blast
qed

lemma fit_lowest:
  assumes "map_runs lo es" "sz \<noteq> 0" "fit sz es = Some (a, es')" "{b ..< b + unat sz} \<subseteq> span es"
  shows "unat a \<le> b"
  using assms
proof (induction es arbitrary: lo es')
  case Nil
  then show ?case by simp
next
  case (Cons e es)
  show ?case
  proof (cases "m_size e < sz")
    case True
    then obtain es'' where "fit sz es = Some (a, es'')"
      using Cons.prems(3) by (auto split: if_splits option.splits)
    then show ?thesis using Cons.IH[OF _ Cons.prems(2) _ fit_skip[OF Cons.prems(1) True Cons.prems(4)]]
      Cons.prems(1) by auto
  next
    case False
    then have a: "a = m_addr e" using Cons.prems(3) by (auto split: if_splits simp: not_less)
    have "b \<in> span (e # es)" using Cons.prems(2,4) by (auto simp: unat_gt_0 subset_iff)
    then have "b \<in> blk (m_addr e) (m_size e) \<or> b \<in> span es" by auto
    then have "b \<in> blk (m_addr e) (m_size e) \<or> ent_end e < b"
      using map_runs_above[of "ent_end e" es b] Cons.prems(1) by auto
    then show ?thesis using a by (auto simp: blk_def)
  qed
qed

section \<open>malloc on a well-formed map\<close>

lemma map_wfE:
  assumes "map_wf mp"
  obtains es k where "map_ent mp = es @ replicate (Suc k) zero_ent" "map_runs 0 es"
    "unat (map_free mp) = k" "length es + Suc k < 4294967296" "map_live mp = es"
proof -
  let ?k = "unat (map_free mp)"
  from assms have "map_ent mp = map_live mp @ replicate (Suc ?k) zero_ent"
    "length (map_ent mp) < 4294967296" "map_runs 0 (map_live mp)"
    by (auto simp: map_wf_def simp del: replicate_Suc)
  moreover then have "length (map_live mp) + Suc ?k < 4294967296"
    by (metis length_append length_replicate)
  ultimately show ?thesis using that by blast
qed

lemma map_wfI:
  assumes "map_ent mp = es @ replicate (Suc (unat (map_free mp))) zero_ent" "map_runs 0 es"
    "length es + Suc (unat (map_free mp)) < 4294967296"
  shows "map_wf mp"
proof -
  have "map_live mp = es"
    using assms(1) map_runs_nonzero[OF assms(2)]
    by (auto simp: map_live_def takeWhile_append)
  with assms show ?thesis by (simp add: map_wf_def)
qed

lemma map_units_ent: "map_ent mp = es @ replicate k zero_ent \<Longrightarrow> map_units mp = span es"
  by (auto simp: map_units_def)

lemma malloc_spec:
  assumes "map_wf mp" "sz \<noteq> 0"
  obtains a mp' where "malloc mp sz = Some (a, mp')"
    "a \<noteq> 0 \<longrightarrow> map_wf mp' \<and> unat a + unat sz < 4294967296 \<and>
       blk a sz \<subseteq> map_units mp \<and> map_units mp' = map_units mp - blk a sz \<and>
       (\<forall>b. {b ..< b + unat sz} \<subseteq> map_units mp \<longrightarrow> unat a \<le> b)"
    "a = 0 \<longrightarrow> mp' = mp \<and> (\<forall>b. \<not> {b ..< b + unat sz} \<subseteq> map_units mp)"
    "map_want mp' = map_want mp" "map_free mp' \<ge> map_free mp"
proof -
  obtain es k where es: "map_ent mp = es @ replicate (Suc k) zero_ent" "map_runs 0 es"
    "unat (map_free mp) = k" "length es + Suc k < 4294967296"
    using map_wfE[OF assms(1)] by metis
  show ?thesis
  proof (cases "fit sz es")
    case None
    then have "malloc mp sz = Some (0, mp)"
      using es assms(2) malloc_scan_live[OF es(2) assms(2), of k] by (simp add: malloc_def)
    moreover have "\<forall>b. \<not> {b ..< b + unat sz} \<subseteq> map_units mp"
      using fit_none[OF es(2) assms(2) None] map_units_ent[OF es(1)] by blast
    ultimately show ?thesis using that by blast
  next
    case (Some p)
    then obtain a es' where fit: "fit sz es = Some (a, es')" by (cases p) auto
    let ?d = "length es - length es'"
    define mp' where "mp' = mp\<lparr>map_ent := es' @ replicate (Suc (k + ?d)) zero_ent,
        map_free := map_free mp + (if length es' < length es then 1 else 0)\<rparr>"
    have res: "malloc mp sz = Some (a, mp')"
      using es assms(2) malloc_scan_live[OF es(2) assms(2), of k] fit
      by (simp add: malloc_def mp'_def)
    have ok: "0 < unat a" "unat a + unat sz < 4294967296" "blk a sz \<subseteq> span es"
       "span es' = span es - blk a sz" "map_runs 0 es'"
      using fit_ok[OF es(2) assms(2) fit] by auto
    have d: "?d = (if length es' < length es then 1 else 0)" "length es' \<le> length es"
      using fit_length[OF fit] by auto
    have free: "unat (map_free mp') = k + ?d"
      using es d by (auto simp: mp'_def unat_add_exact)
    have "map_wf mp'"
      using free es d ok by (intro map_wfI[of _ es']) (auto simp: mp'_def)
    moreover have "map_units mp' = span es'"
      by (rule map_units_ent[where k = "Suc (k + ?d)"]) (simp add: mp'_def)
    moreover have "map_units mp = span es" by (rule map_units_ent[OF es(1)])
    moreover have "map_free mp \<le> map_free mp'"
      using free es by (simp add: word_le_nat_alt)
    moreover have "a \<noteq> 0" using ok(1) by auto
    moreover have "\<forall>b. {b ..< b + unat sz} \<subseteq> map_units mp \<longrightarrow> unat a \<le> b"
      using fit_lowest[OF es(2) assms(2) fit] map_units_ent[OF es(1)] by simp
    moreover have "map_want mp' = map_want mp" by (simp add: mp'_def)
    ultimately show ?thesis using that[OF res] ok by simp
  qed
qed


section \<open>mfree on a well-formed map\<close>

fun run_end :: "nat \<Rightarrow> mapent list \<Rightarrow> nat" where
  "run_end lo [] = lo"
| "run_end lo (e # es) = run_end (ent_end e) es"

lemma run_end_snoc [simp]: "run_end lo (es @ [e]) = ent_end e"
  by (induction es arbitrary: lo) auto

lemma map_runs_append:
  "map_runs lo (xs @ ys) \<longleftrightarrow> map_runs lo xs \<and> map_runs (run_end lo xs) ys"
  by (induction xs arbitrary: lo) auto

lemma ent_end_word:
  "ent_end e < 4294967296 \<Longrightarrow> m_addr e + m_size e = a \<longleftrightarrow> ent_end e = unat a"
  by (metis unat_add_exact word_unat_eq_iff)

lemma mfree_wake_ent [simp]: "map_ent (fst (mfree_wake mp)) = map_ent mp"
  "map_free (fst (mfree_wake mp)) = map_free mp" "map_want (fst (mfree_wake mp)) = 0"
  "snd (mfree_wake mp) = (if map_want mp \<noteq> 0 then [WakeupMap] else [])"
  by (simp_all add: mfree_wake_def)

lemma mfree_wake_wf [simp]: "map_wf (fst (mfree_wake mp)) = map_wf mp"
  "map_units (fst (mfree_wake mp)) = map_units mp"
  by (simp_all add: map_wf_def map_live_def map_units_def)

text \<open>The three shapes of a successful release, on the live runs.\<close>

definition coalesce :: "u32 \<Rightarrow> u32 \<Rightarrow> mapent list \<Rightarrow> mapent list \<Rightarrow> mapent list" where
  "coalesce sz a pre post =
     (let joinl = pre \<noteq> [] \<and> ent_end (last pre) = unat a;
          joinr = post \<noteq> [] \<and> unat a + unat sz = unat (m_addr (hd post))
      in if joinl then
           butlast pre @ (last pre)\<lparr>m_size := m_size (last pre) + sz
              + (if joinr then m_size (hd post) else 0)\<rparr> # (if joinr then tl post else post)
         else if joinr then
           pre @ (hd post)\<lparr>m_addr := m_addr (hd post) - sz, m_size := m_size (hd post) + sz\<rparr> # tl post
         else pre @ \<lparr>m_size = sz, m_addr = a\<rparr> # post)"

lemma map_runs_hd_above:
  assumes "map_runs lo es" "x \<in> set es" shows "lo < unat (m_addr x)"
  using assms by (induction lo es rule: map_runs.induct) auto

lemma map_runs_end: "map_runs lo es \<Longrightarrow> x \<in> set es \<Longrightarrow> ent_end x \<le> run_end lo es"
proof (induction es arbitrary: lo)
  case (Cons e es)
  have "lo' \<le> run_end lo' ys" if "map_runs lo' ys" for lo' ys
    using that by (induction lo' ys rule: map_runs.induct) auto
  with Cons show ?case by auto
qed simp

lemma coalesce_runs:
  assumes runs: "map_runs 0 (pre @ post)" and sz: "sz \<noteq> 0" and a: "0 < unat a"
    and bound: "unat a + unat sz < 4294967296"
    and pre: "\<forall>e\<in>set pre. ent_end e \<le> unat a"
    and post: "\<forall>e\<in>set post. unat a + unat sz \<le> unat (m_addr e)"
  shows "map_runs 0 (coalesce sz a pre post) \<and>
         span (coalesce sz a pre post) = span (pre @ post) \<union> blk a sz"
proof -
  have szp: "0 < unat sz" using sz by (simp add: unat_gt_0)
  have endpre: "run_end 0 pre \<le> unat a"
    using pre a by (cases pre rule: rev_cases) auto
  have rp: "map_runs 0 pre" "map_runs (run_end 0 pre) post" using runs by (auto simp: map_runs_append)
  show ?thesis
  proof (cases "pre \<noteq> [] \<and> ent_end (last pre) = unat a")
    case True
    then obtain qs q where q: "pre = qs @ [q]" "ent_end q = unat a" by (cases pre rule: rev_cases) auto
    have qr: "map_runs 0 qs" "run_end 0 qs < unat (m_addr q)" "m_size q \<noteq> 0"
      using rp(1) q by (auto simp: map_runs_append)
    have u: "unat (m_size q + sz) = unat (m_size q) + unat sz"
      using q bound by (intro unat_add_exact) linarith
    show ?thesis
    proof (cases "post \<noteq> [] \<and> unat a + unat sz = unat (m_addr (hd post))")
      case True
      then obtain p ps where p: "post = p # ps" "unat a + unat sz = unat (m_addr p)" by (cases post) auto
      have pr: "ent_end p < 4294967296" "m_size p \<noteq> 0" "map_runs (ent_end p) ps" using rp p q by auto
      have v: "unat (m_size q + sz + m_size p) = unat (m_size q) + unat sz + unat (m_size p)"
        using p q pr u by (subst unat_add_exact) auto
      have "m_size q + sz + m_size p \<noteq> 0" using v szp by (metis add_is_0 less_nat_zero_code unat_0)
      moreover have "unat (m_addr q) + unat (m_size q + sz + m_size p) = ent_end p"
        using v q(2) p(2) by simp
      ultimately have "map_runs 0 (qs @ q\<lparr>m_size := m_size q + sz + m_size p\<rparr> # ps)"
        using qr pr by (simp add: map_runs_append)
      moreover have "blk (m_addr q) (m_size q + sz + m_size p)
          = blk (m_addr q) (m_size q) \<union> blk a sz \<union> blk (m_addr p) (m_size p)"
        using p(2) q(2) by (auto simp: blk_def v)
      ultimately show ?thesis using True p q by (auto simp: coalesce_def)
    next
      case False
      have "m_size q + sz \<noteq> 0" using u szp by (metis add_is_0 less_nat_zero_code unat_0)
      moreover have "map_runs (unat a + unat sz) post"
        using False post rp(2) by (cases post) (auto simp: order_less_le)
      ultimately have "map_runs 0 (qs @ q\<lparr>m_size := m_size q + sz\<rparr> # post)"
        using qr u q bound by (simp add: map_runs_append add.assoc[symmetric])
      moreover have "blk (m_addr q) (m_size q + sz) = blk (m_addr q) (m_size q) \<union> blk a sz"
        using q(2) by (auto simp: blk_def u)
      ultimately show ?thesis using False q by (auto simp: coalesce_def)
    qed
  next
    case nol: False
    have lt: "run_end 0 pre < unat a"
    proof (cases pre rule: rev_cases)
      case (snoc qs q)
      with nol endpre show ?thesis by simp
    qed (use a in simp)
    show ?thesis
    proof (cases "post \<noteq> [] \<and> unat a + unat sz = unat (m_addr (hd post))")
      case True
      then obtain p ps where p: "post = p # ps" "unat a + unat sz = unat (m_addr p)" by (cases post) auto
      have pr: "ent_end p < 4294967296" "m_size p \<noteq> 0" "map_runs (ent_end p) ps" using rp p by auto
      have "m_addr p = a + sz" using p(2) bound by (simp add: word_unat_eq_iff unat_add_exact)
      then have w: "m_addr p - sz = a" by simp
      have v: "unat (m_size p + sz) = unat (m_size p) + unat sz"
        using p pr by (intro unat_add_exact) linarith
      have "m_size p + sz \<noteq> 0" using v szp by (metis add_is_0 less_nat_zero_code unat_0)
      moreover have "unat a + unat (m_size p + sz) = ent_end p" using v p(2) by simp
      ultimately have "map_runs 0 (pre @ p\<lparr>m_addr := m_addr p - sz, m_size := m_size p + sz\<rparr> # ps)"
        using rp w pr lt by (simp add: map_runs_append)
      moreover have "blk a (m_size p + sz) = blk a sz \<union> blk (m_addr p) (m_size p)"
        using p(2) by (auto simp: blk_def v)
      ultimately show ?thesis using nol True p w by (auto simp: coalesce_def)
    next
      case False
      have "map_runs (unat a + unat sz) post"
        using False post rp(2) by (cases post) (auto simp: order_less_le)
      then have "map_runs 0 (pre @ \<lparr>m_size = sz, m_addr = a\<rparr> # post)"
        using rp lt sz bound by (simp add: map_runs_append)
      then show ?thesis using nol False by (auto simp: coalesce_def)
    qed
  qed
qed


text \<open>Where the scan of \<^verbatim>\<open>mfree\<close> stops, on a well-formed table.\<close>

lemma mfree_split:
  assumes runs: "map_runs 0 es" and disj: "blk a sz \<inter> span es = {}" and sz: "sz \<noteq> 0"
  defines "pre \<equiv> takeWhile (\<lambda>e. m_addr e \<le> a) es" and "post \<equiv> dropWhile (\<lambda>e. m_addr e \<le> a) es"
  shows "takeWhile (\<lambda>e. m_addr e \<le> a \<and> m_size e \<noteq> 0) (es @ replicate n zero_ent) = pre"
    "dropWhile (\<lambda>e. m_addr e \<le> a \<and> m_size e \<noteq> 0) (es @ replicate n zero_ent) = post @ replicate n zero_ent"
    "es = pre @ post" "\<forall>e\<in>set pre. ent_end e \<le> unat a"
    "\<forall>e\<in>set post. unat a + unat sz \<le> unat (m_addr e)"
proof -
  have nz: "m_size e \<noteq> 0" if "e \<in> set es" for e using runs that map_runs_nonzero by blast
  have tw: "takeWhile (\<lambda>e. m_addr e \<le> a \<and> m_size e \<noteq> 0) es = pre"
    unfolding pre_def using nz by (intro takeWhile_cong) auto
  have dw: "dropWhile (\<lambda>e. m_addr e \<le> a \<and> m_size e \<noteq> 0) es = post"
    unfolding post_def using nz by (intro dropWhile_cong) auto
  show "takeWhile (\<lambda>e. m_addr e \<le> a \<and> m_size e \<noteq> 0) (es @ replicate n zero_ent) = pre"
    using tw by (subst takeWhile_append_stop) auto
  show "dropWhile (\<lambda>e. m_addr e \<le> a \<and> m_size e \<noteq> 0) (es @ replicate n zero_ent) = post @ replicate n zero_ent"
    using dw by (subst dropWhile_append_stop) auto
  show split: "es = pre @ post" by (simp add: pre_def post_def)
  have in_a: "unat a \<in> blk a sz" using sz by (simp add: blk_def unat_gt_0)
  show "\<forall>e\<in>set pre. ent_end e \<le> unat a"
  proof
    fix e assume e: "e \<in> set pre"
    then have "m_addr e \<le> a" unfolding pre_def by (auto dest: set_takeWhileD)
    moreover have "unat a \<notin> blk (m_addr e) (m_size e)" using disj in_a e split by auto
    ultimately show "ent_end e \<le> unat a" by (simp add: blk_def word_le_nat_alt)
  qed
  have first: "unat a + unat sz \<le> unat (m_addr p)" if "post = p # ps" for p ps
  proof -
    have "\<not> m_addr p \<le> a" using that unfolding post_def by (metis dropWhile_eq_Cons_conv)
    then have gt: "unat a < unat (m_addr p)" by (simp add: word_le_nat_alt)
    have "p \<in> set es" using split that by auto
    then have "unat (m_addr p) \<in> span es" using nz by (force simp: blk_def unat_gt_0)
    then have "unat (m_addr p) \<notin> blk a sz" using disj by auto
    with gt show ?thesis by (simp add: blk_def)
  qed
  show "\<forall>e\<in>set post. unat a + unat sz \<le> unat (m_addr e)"
  proof (cases post)
    case (Cons p ps)
    have "map_runs (run_end 0 pre) post" using runs split by (simp add: map_runs_append)
    then have "map_runs (ent_end p) ps" using Cons by simp
    then have "unat (m_addr p) \<le> unat (m_addr e)" if "e \<in> set ps" for e
      using map_runs_hd_above that by fastforce
    then show ?thesis using first[OF Cons] Cons by fastforce
  qed simp
qed

lemma mfree_unfold:
  assumes "sz \<noteq> 0" "takeWhile (\<lambda>e. m_addr e \<le> a \<and> m_size e \<noteq> 0) (map_ent mp) = pre"
    "dropWhile (\<lambda>e. m_addr e \<le> a \<and> m_size e \<noteq> 0) (map_ent mp) = bp # rest"
  shows "mfree mp sz a =
    (if pre \<noteq> [] \<and> m_addr (last pre) + m_size (last pre) = a then
       (if m_addr bp \<noteq> 0 \<and> a + sz = m_addr bp then
          map_option (\<lambda>suf'. mfree_wake (mp\<lparr>map_ent := butlast pre @
             (last pre)\<lparr>m_size := m_size (last pre) + sz + m_size bp\<rparr> # suf',
             map_free := map_free mp + 1\<rparr>)) (mfree_shift (bp # rest))
        else Some (mfree_wake (mp\<lparr>map_ent := butlast pre @
             (last pre)\<lparr>m_size := m_size (last pre) + sz\<rparr> # bp # rest\<rparr>)))
     else if a + sz = m_addr bp \<and> m_size bp \<noteq> 0 then
       Some (mfree_wake (mp\<lparr>map_ent :=
         pre @ bp\<lparr>m_addr := m_addr bp - sz, m_size := m_size bp + sz\<rparr> # rest\<rparr>))
     else if map_free mp = 0 then Some (mp, [MapOverflow sz a])
     else map_option (\<lambda>suf'. mfree_wake (mp\<lparr>map_ent := pre @ suf', map_free := map_free mp - 1\<rparr>))
            (mfree_insert sz a (bp # rest)))"
  using assms by (simp add: mfree_def Let_def)

lemma mfree_live:
  fixes mp :: rmap
  assumes ent: "map_ent mp = es @ replicate (Suc k) zero_ent" and runs: "map_runs 0 es"
    and k: "unat (map_free mp) = k" and len: "length es + Suc k < 4294967296"
    and sz: "sz \<noteq> 0" and a: "0 < unat a" and bound: "unat a + unat sz < 4294967296"
    and disj: "blk a sz \<inter> span es = {}"
  shows "\<exists>pre post. es = pre @ post \<and> (\<forall>e\<in>set pre. ent_end e \<le> unat a) \<and>
     (\<forall>e\<in>set post. unat a + unat sz \<le> unat (m_addr e)) \<and>
     (k = 0 \<and> mfree mp sz a = Some (mp, [MapOverflow sz a]) \<or>
      (\<exists>f. unat f + length (coalesce sz a pre post) = k + length es \<and>
        mfree mp sz a = Some (mfree_wake (mp\<lparr>
          map_ent := coalesce sz a pre post @ replicate (Suc (unat f)) zero_ent, map_free := f\<rparr>))))"
proof -
  define pre post where "pre = takeWhile (\<lambda>e. m_addr e \<le> a) es"
    and "post = dropWhile (\<lambda>e. m_addr e \<le> a) es"
  note sp = mfree_split[OF runs disj sz, folded pre_def post_def]
  have rs: "map_runs 0 (pre @ post)" using runs sp(3) by simp
  have nzpost: "\<forall>x\<in>set post. m_size x \<noteq> 0" using map_runs_nonzero[OF rs] by auto
  have lenes: "length es = length pre + length post" using sp(3) by (metis length_append)
  note unf = mfree_unfold[OF sz, of a mp, unfolded ent, OF sp(1)]
  have left: "pre \<noteq> [] \<and> m_addr (last pre) + m_size (last pre) = a \<longleftrightarrow>
     pre \<noteq> [] \<and> ent_end (last pre) = unat a"
  proof (cases "pre = []")
    case False
    then have "ent_end (last pre) \<le> unat a" using sp(4) last_in_set by blast
    then have "ent_end (last pre) < 4294967296" using bound by linarith
    then show ?thesis using ent_end_word by simp
  qed simp
  have free0: "map_free mp = 0 \<longleftrightarrow> k = 0" using k by (simp add: unat_eq_0[symmetric])
  have up: "unat (map_free mp + 1) = Suc k" using k len by (subst unat_add_exact) auto
  have down: "unat (map_free mp - 1) = k'" if "k = Suc k'" for k'
    using k that by (subst unat_sub_exact) (auto simp: word_le_nat_alt)
  let ?r = "coalesce sz a pre post"
  have goal: "k = 0 \<and> mfree mp sz a = Some (mp, [MapOverflow sz a]) \<or>
      (\<exists>f. unat f + length ?r = k + length es \<and> mfree mp sz a =
        Some (mfree_wake (mp\<lparr>map_ent := ?r @ replicate (Suc (unat f)) zero_ent, map_free := f\<rparr>)))"
  proof (cases post)
    case Nil
    then have dw: "post @ replicate (Suc k) zero_ent = zero_ent # replicate k zero_ent" by simp
    note u = unf[OF sp(2)[of "Suc k", unfolded dw]]
    show ?thesis
    proof (cases "pre \<noteq> [] \<and> ent_end (last pre) = unat a")
      case True
      then have "length ?r = length es" using Nil lenes by (auto simp: coalesce_def Let_def)
      moreover have "mfree mp sz a = Some (mfree_wake (mp\<lparr>map_ent :=
          ?r @ replicate (Suc (unat (map_free mp))) zero_ent, map_free := map_free mp\<rparr>))"
        unfolding u left using True Nil k by (auto simp: coalesce_def Let_def)
      ultimately show ?thesis using k by (intro disjI2 exI[of _ "map_free mp"]) simp
    next
      case nol: False
      show ?thesis
      proof (cases k)
        case 0
        then show ?thesis unfolding u left using nol free0 by auto
      next
        case (Suc k')
        have "unat (map_free mp - 1) + length ?r = k + length es"
          using nol Nil lenes Suc down by (auto simp: coalesce_def Let_def)
        moreover have "mfree mp sz a = Some (mfree_wake (mp\<lparr>map_ent :=
            ?r @ replicate (Suc (unat (map_free mp - 1))) zero_ent, map_free := map_free mp - 1\<rparr>))"
          unfolding u left using nol Nil free0 Suc down by (auto simp: coalesce_def Let_def)
        ultimately show ?thesis by blast
      qed
    qed
  next
    case (Cons p ps)
    have p: "m_addr p \<noteq> 0" "m_size p \<noteq> 0"
      using map_runs_hd_above[OF rs, of p] nzpost Cons by auto
    have pw: "a + sz = m_addr p \<longleftrightarrow> unat a + unat sz = unat (m_addr p)"
      using bound by (simp add: word_unat_eq_iff unat_add_exact)
    have dw: "post @ replicate (Suc k) zero_ent = p # ps @ replicate (Suc k) zero_ent"
      using Cons by simp
    note u = unf[OF sp(2)[of "Suc k", unfolded dw]]
    have sh: "mfree_shift (p # ps @ replicate (Suc k) zero_ent)
        = Some (ps @ replicate (Suc (Suc k)) zero_ent)"
      using p nzpost Cons by (intro mfree_shift_live) auto
    let ?joinl = "pre \<noteq> [] \<and> ent_end (last pre) = unat a"
    let ?joinr = "unat a + unat sz = unat (m_addr p)"
    consider (both) ?joinl ?joinr | (one) "?joinl \<noteq> ?joinr" | (none) "\<not> ?joinl" "\<not> ?joinr" by blast
    then show ?thesis
    proof cases
      case both
      then have "unat (map_free mp + 1) + length ?r = k + length es"
        using Cons lenes up by (auto simp: coalesce_def Let_def)
      moreover have "mfree mp sz a = Some (mfree_wake (mp\<lparr>map_ent :=
          ?r @ replicate (Suc (unat (map_free mp + 1))) zero_ent, map_free := map_free mp + 1\<rparr>))"
        unfolding u left sh pw using both Cons p up by (auto simp: coalesce_def Let_def)
      ultimately show ?thesis by blast
    next
      case one
      then have "length ?r = length es" using Cons lenes by (auto simp: coalesce_def Let_def)
      moreover have "mfree mp sz a = Some (mfree_wake (mp\<lparr>map_ent :=
          ?r @ replicate (Suc (unat (map_free mp))) zero_ent, map_free := map_free mp\<rparr>))"
        unfolding u left pw using one Cons k p by (auto simp: coalesce_def Let_def)
      ultimately show ?thesis using k by (intro disjI2 exI[of _ "map_free mp"]) simp
    next
      case none
      show ?thesis
      proof (cases k)
        case 0
        then show ?thesis unfolding u left pw using none free0 p by auto
      next
        case (Suc k')
        have ins: "mfree_insert sz a (p # ps @ replicate (Suc k) zero_ent)
             = Some (\<lparr>m_size = sz, m_addr = a\<rparr> # p # ps @ replicate k zero_ent)"
          using mfree_insert_live[OF nzpost, of sz a k'] Cons Suc by simp
        have "unat (map_free mp - 1) + length ?r = k + length es"
          using none Cons lenes Suc down by (auto simp: coalesce_def Let_def)
        moreover have "mfree mp sz a = Some (mfree_wake (mp\<lparr>map_ent :=
            ?r @ replicate (Suc (unat (map_free mp - 1))) zero_ent, map_free := map_free mp - 1\<rparr>))"
          unfolding u left pw ins using none Cons free0 Suc down p by (auto simp: coalesce_def Let_def)
        ultimately show ?thesis by blast
      qed
    qed
  qed
  show ?thesis by (intro exI[of _ pre] exI[of _ post] conjI sp goal)
qed

lemma mfree_spec:
  assumes wf: "map_wf mp" and sz: "sz \<noteq> 0" and a: "a \<noteq> 0"
    and bound: "unat a + unat sz < 4294967296" and disj: "blk a sz \<inter> map_units mp = {}"
  obtains mp' ev where "mfree mp sz a = Some (mp', ev)" "map_wf mp'"
    "(map_units mp' = map_units mp \<union> blk a sz \<and> map_want mp' = 0 \<and>
        ev = (if map_want mp \<noteq> 0 then [WakeupMap] else []))
     \<or> (map_free mp = 0 \<and> mp' = mp \<and> ev = [MapOverflow sz a])"
proof -
  obtain es k where es: "map_ent mp = es @ replicate (Suc k) zero_ent" "map_runs 0 es"
    "unat (map_free mp) = k" "length es + Suc k < 4294967296"
    using map_wfE[OF wf] by metis
  have units: "map_units mp = span es" by (rule map_units_ent[OF es(1)])
  have a0: "0 < unat a" using a by (simp add: unat_gt_0)
  obtain pre post where pp: "es = pre @ post" "\<forall>e\<in>set pre. ent_end e \<le> unat a"
    "\<forall>e\<in>set post. unat a + unat sz \<le> unat (m_addr e)"
    and res: "k = 0 \<and> mfree mp sz a = Some (mp, [MapOverflow sz a]) \<or>
      (\<exists>f. unat f + length (coalesce sz a pre post) = k + length es \<and>
        mfree mp sz a = Some (mfree_wake (mp\<lparr>
          map_ent := coalesce sz a pre post @ replicate (Suc (unat f)) zero_ent, map_free := f\<rparr>)))"
    using mfree_live[OF es sz a0 bound disj[unfolded units]] by blast
  let ?r = "coalesce sz a pre post"
  from res show ?thesis
  proof (elim disjE conjE exE)
    assume "k = 0" "mfree mp sz a = Some (mp, [MapOverflow sz a])"
    then show ?thesis using that[of mp "[MapOverflow sz a]"] wf es(3)
      by (simp add: unat_eq_0[symmetric])
  next
    fix f :: u32
    assume f: "unat f + length ?r = k + length es"
    define mq where "mq = mp\<lparr>map_ent := ?r @ replicate (Suc (unat f)) zero_ent, map_free := f\<rparr>"
    assume r: "mfree mp sz a = Some (mfree_wake (mp\<lparr>
        map_ent := ?r @ replicate (Suc (unat f)) zero_ent, map_free := f\<rparr>))"
    have rr: "map_runs 0 ?r" "span ?r = span es \<union> blk a sz"
      using coalesce_runs[OF es(2)[unfolded pp(1)] sz a0 bound pp(2,3)] pp(1) by auto
    have "map_wf mq" using rr(1) f es(4) by (intro map_wfI[of _ ?r]) (simp_all add: mq_def)
    moreover have "map_units mq = map_units mp \<union> blk a sz"
      using map_units_ent[of mq ?r "Suc (unat f)"] rr(2) units by (simp add: mq_def)
    moreover have "mfree mp sz a = Some (mfree_wake mq)" using r mq_def by simp
    moreover have "map_want mq = map_want mp" by (simp add: mq_def)
    ultimately show ?thesis using that[of "fst (mfree_wake mq)" "snd (mfree_wake mq)"]
      by (simp add: prod_eq_iff)
  qed
qed

text \<open>The freshly initialised map of \<^verbatim>\<open>mapinit(X, Y); mfree(X, n, 1)\<close>.\<close>

lemma map_wf_empty:
  "2 \<le> y \<Longrightarrow> map_wf (mapinit y \<lparr>map_free = f, map_want = w, map_ent = replicate (unat y - 1) zero_ent\<rparr>)"
  "map_units (mapinit y \<lparr>map_free = f, map_want = w, map_ent = replicate n zero_ent\<rparr>) = {}"
proof -
  assume y: "2 \<le> y"
  then have "2 \<le> unat y" by (simp add: word_le_nat_alt)
  moreover have "unat (y - 2) = unat y - 2" using y by (simp add: unat_sub_exact)
  moreover have "unat y < 4294967296" using unat_u32_less[of y] by simp
  ultimately show "map_wf (mapinit y \<lparr>map_free = f, map_want = w, map_ent = replicate (unat y - 1) zero_ent\<rparr>)"
    by (intro map_wfI[of _ "[]"]) (auto simp: mapinit_def Suc_diff_le numeral_2_eq_2 simp flip: replicate_Suc)
qed (auto simp: map_units_def mapinit_def)

section \<open>The interface\<close>

locale space_map =
  fixes wf :: "'m \<Rightarrow> bool" and units :: "'m \<Rightarrow> nat set"
    and alloc :: "'m \<Rightarrow> u32 \<Rightarrow> (u32 \<times> 'm) option"
    and release :: "'m \<Rightarrow> u32 \<Rightarrow> u32 \<Rightarrow> ('m \<times> 'e) option"
  assumes alloc_total: "wf m \<Longrightarrow> s \<noteq> 0 \<Longrightarrow> alloc m s \<noteq> None"
    and alloc_wf: "wf m \<Longrightarrow> s \<noteq> 0 \<Longrightarrow> alloc m s = Some (a, m') \<Longrightarrow> wf m'"
    and alloc_blk: "wf m \<Longrightarrow> s \<noteq> 0 \<Longrightarrow> alloc m s = Some (a, m') \<Longrightarrow> a \<noteq> 0 \<Longrightarrow>
      unat a + unat s < 4294967296 \<and> blk a s \<subseteq> units m \<and> units m' = units m - blk a s"
    and alloc_none: "wf m \<Longrightarrow> s \<noteq> 0 \<Longrightarrow> alloc m s = Some (0, m') \<Longrightarrow> m' = m"
    and release_total: "wf m \<Longrightarrow> s \<noteq> 0 \<Longrightarrow> a \<noteq> 0 \<Longrightarrow> unat a + unat s < 4294967296 \<Longrightarrow>
      blk a s \<inter> units m = {} \<Longrightarrow> release m s a \<noteq> None"
    and release_wf: "wf m \<Longrightarrow> s \<noteq> 0 \<Longrightarrow> a \<noteq> 0 \<Longrightarrow> unat a + unat s < 4294967296 \<Longrightarrow>
      blk a s \<inter> units m = {} \<Longrightarrow> release m s a = Some (m', e) \<Longrightarrow> wf m'"
    and release_units: "wf m \<Longrightarrow> s \<noteq> 0 \<Longrightarrow> a \<noteq> 0 \<Longrightarrow> unat a + unat s < 4294967296 \<Longrightarrow>
      blk a s \<inter> units m = {} \<Longrightarrow> release m s a = Some (m', e) \<Longrightarrow>
      units m' = units m \<or> units m' = units m \<union> blk a s"
begin

text \<open>The owners \<open>I\<close> hold the pairwise disjoint blocks \<open>B\<close>, none of them free.\<close>

definition held :: "'m \<Rightarrow> 'o set \<Rightarrow> ('o \<Rightarrow> nat set) \<Rightarrow> bool" where
  "held m I B \<longleftrightarrow> wf m \<and> disjoint_family_on B I \<and> (\<forall>i\<in>I. B i \<inter> units m = {})"

lemma held_wf: "held m I B \<Longrightarrow> wf m"
  by (simp add: held_def)

lemma held_disjoint: "held m I B \<Longrightarrow> i \<in> I \<Longrightarrow> j \<in> I \<Longrightarrow> i \<noteq> j \<Longrightarrow> B i \<inter> B j = {}"
  by (simp add: held_def disjoint_family_on_def)

lemma held_cong: "(\<And>i. i \<in> I \<Longrightarrow> B i = C i) \<Longrightarrow> held m I B = held m I C"
  by (auto simp: held_def disjoint_family_on_def)

lemma held_alloc:
  assumes "held m I B" "s \<noteq> 0" "alloc m s = Some (a, m')" "a \<noteq> 0" "i \<notin> I"
  shows "held m' (insert i I) (B(i := blk a s))"
proof -
  have b: "blk a s \<subseteq> units m" "units m' = units m - blk a s"
    using alloc_blk[OF held_wf[OF assms(1)] assms(2-4)] by auto
  have "wf m'" using alloc_wf[OF held_wf[OF assms(1)] assms(2,3)] .
  moreover have "B j \<inter> units m = {}" if "j \<in> I" for j using assms(1) that by (simp add: held_def)
  ultimately show ?thesis using assms(1,5) b
    by (fastforce simp: held_def disjoint_family_on_def)
qed

lemma held_release:
  assumes "held m I B" "s \<noteq> 0" "a \<noteq> 0" "unat a + unat s < 4294967296" "i \<in> I" "B i = blk a s"
    and "release m s a = Some (m', e)"
  shows "held m' (I - {i}) B"
proof -
  have "B i \<inter> units m = {}" using assms(1,5) by (simp add: held_def)
  then have d: "blk a s \<inter> units m = {}" using assms(6) by simp
  have "wf m'" using release_wf[OF held_wf[OF assms(1)] assms(2-4) d assms(7)] .
  moreover have "units m' \<subseteq> units m \<union> blk a s"
    using release_units[OF held_wf[OF assms(1)] assms(2-4) d assms(7)] by auto
  moreover have "B j \<inter> blk a s = {}" if "j \<in> I - {i}" for j
    using held_disjoint[OF assms(1), of j i] that assms(5,6) by auto
  ultimately show ?thesis using assms(1) unfolding held_def disjoint_family_on_def by blast
qed

lemma held_release_total:
  assumes "held m I B" "s \<noteq> 0" "a \<noteq> 0" "unat a + unat s < 4294967296" "i \<in> I" "B i = blk a s"
  shows "\<exists>m' e. release m s a = Some (m', e)"
proof -
  have "B i \<inter> units m = {}" using assms(1,5) by (simp add: held_def)
  then show ?thesis using release_total[OF held_wf[OF assms(1)] assms(2-4)] assms(6) by auto
qed

end

interpretation rm: space_map map_wf map_units malloc mfree
proof
  fix m :: rmap and s a :: u32
  assume m: "map_wf m" and s: "s \<noteq> 0"
  note alloc = malloc_spec[OF m s]
  show "malloc m s \<noteq> None" by (rule alloc) simp
  show "map_wf m'" if "malloc m s = Some (a, m')" for m' :: rmap
    by (rule alloc) (use that m in \<open>cases "a = 0", simp_all\<close>)
  show "unat a + unat s < 4294967296 \<and> blk a s \<subseteq> map_units m \<and> map_units m' = map_units m - blk a s"
    if "malloc m s = Some (a, m')" "a \<noteq> 0" for m' :: rmap
    by (rule alloc) (use that in simp)
  show "m' = m" if "malloc m s = Some (0, m')" for m' :: rmap
    by (rule alloc) (use that in simp)
next
  fix m m' :: rmap and s a :: u32 and e :: "map_event list"
  assume h: "map_wf m" "s \<noteq> 0" "a \<noteq> 0" "unat a + unat s < 4294967296" "blk a s \<inter> map_units m = {}"
  note free = mfree_spec[OF h]
  show "mfree m s a \<noteq> None" by (rule free) simp
  show "map_wf m'" if "mfree m s a = Some (m', e)" by (rule free) (use that in simp)
  show "map_units m' = map_units m \<or> map_units m' = map_units m \<union> blk a s"
    if "mfree m s a = Some (m', e)" by (rule free) (use that in auto)
qed


text \<open>\<^verbatim>\<open>mapinit(X, Y); mfree(X, n, 1)\<close> on a zeroed table.\<close>

lemma map_boot:
  assumes "2 \<le> y" "map_ent m = replicate (unat y - 1) zero_ent" "n < 32768"
  obtains mp ev where "mfree (mapinit y m) (of_nat n) 1 = Some (mp, ev)" "map_wf mp" "map_units mp \<subseteq> {1..n}"
proof -
  have me: "mapinit y m = mapinit y \<lparr>map_free = map_free m, map_want = map_want m, map_ent = replicate (unat y - 1) zero_ent\<rparr>"
    using assms(2) by (simp add: mapinit_def)
  have wf: "map_wf (mapinit y m)" "map_units (mapinit y m) = {}"
    using map_wf_empty assms(1) unfolding me by auto
  show ?thesis
  proof (cases "n = 0")
    case True
    then show ?thesis using that[of "mapinit y m" "[]"] wf by (simp add: mfree_def)
  next
    case False
    have u: "unat (of_nat n :: u32) = n" using assms(3) by (simp add: unat_of_nat_u32)
    have nz: "(of_nat n :: u32) \<noteq> 0" using u False by auto
    have b: "unat (1::u32) + unat (of_nat n :: u32) < 4294967296" using u assms(3) by simp
    have d: "blk 1 (of_nat n) \<inter> map_units (mapinit y m) = {}" by (simp add: wf)
    have e: "blk 1 (of_nat n) = {1..n}" using u by (auto simp: blk_def)
    obtain mp ev where f: "mfree (mapinit y m) (of_nat n) 1 = Some (mp, ev)"
      using rm.release_total[OF wf(1) nz _ b d] by auto
    then show ?thesis
      using that[OF f rm.release_wf[OF wf(1) nz _ b d f]] rm.release_units[OF wf(1) nz _ b d f] wf(2) e by auto
  qed
qed

section \<open>Properties\<close>

text \<open>C13: on a well-formed map \<^verbatim>\<open>malloc\<close> always returns. It returns 0, leaving the map
  alone, only when no run of \<^verbatim>\<open>size\<close> free units exists; otherwise it returns the lowest
  address at which such a run starts, exactly those units leave the free set, and the table
  stays sorted, coalesced and terminated.\<close>

theorem malloc_first_fit:
  assumes "map_wf mp" "sz \<noteq> 0"
  shows "\<exists>a mp'. malloc mp sz = Some (a, mp') \<and> map_wf mp' \<and>
    (if a = 0 then mp' = mp \<and> (\<forall>b. \<not> {b ..< b + unat sz} \<subseteq> map_units mp)
     else blk a sz \<subseteq> map_units mp \<and> map_units mp' = map_units mp - blk a sz \<and>
          (\<forall>b. {b ..< b + unat sz} \<subseteq> map_units mp \<longrightarrow> unat a \<le> b))"
proof (rule malloc_spec[OF assms])
  fix a mp'
  assume "malloc mp sz = Some (a, mp')"
    "a \<noteq> 0 \<longrightarrow> map_wf mp' \<and> unat a + unat sz < 4294967296 \<and>
       blk a sz \<subseteq> map_units mp \<and> map_units mp' = map_units mp - blk a sz \<and>
       (\<forall>b. {b ..< b + unat sz} \<subseteq> map_units mp \<longrightarrow> unat a \<le> b)"
    "a = 0 \<longrightarrow> mp' = mp \<and> (\<forall>b. \<not> {b ..< b + unat sz} \<subseteq> map_units mp)"
  then show ?thesis using assms by (intro exI[of _ a] exI[of _ mp']) (cases "a = 0"; simp)
qed

definition sample_map :: rmap where
  "sample_map = \<lparr>map_free = 2, map_want = 1, map_ent =
     [\<lparr>m_size = 2, m_addr = 1\<rparr>, \<lparr>m_size = 5, m_addr = 10\<rparr>, zero_ent, zero_ent, zero_ent]\<rparr>"

lemma sample_map_wf: "map_wf sample_map"
proof -
  have "replicate (Suc 2) zero_ent = [zero_ent, zero_ent, zero_ent]" by (simp add: eval_nat_numeral)
  then show ?thesis
    by (intro map_wfI[of _ "[\<lparr>m_size = 2, m_addr = 1\<rparr>, \<lparr>m_size = 5, m_addr = 10\<rparr>]"])
      (simp_all add: sample_map_def)
qed

theorem malloc_first_fit_witness:
  "map_wf sample_map \<and> (\<exists>mp'. malloc sample_map 3 = Some (10, mp') \<and> map_wf mp' \<and>
     map_units mp' = map_units sample_map - blk 10 3)"
proof -
  have "malloc sample_map 3 = Some (10, \<lparr>map_free = 2, map_want = 1, map_ent =
     [\<lparr>m_size = 2, m_addr = 1\<rparr>, \<lparr>m_size = 2, m_addr = 13\<rparr>, zero_ent, zero_ent, zero_ent]\<rparr>)"
    by (simp add: malloc_def sample_map_def Let_def)
  with malloc_first_fit[OF sample_map_wf, of 3] sample_map_wf show ?thesis by simp
qed

text \<open>C14: releasing a block that is not free always returns and keeps the map well formed.
  Either its units join the free set and sleepers on \<^verbatim>\<open>mapwant\<close> are woken, or (only when no
  slot is left) the map is untouched and the overflow is reported.\<close>

theorem mfree_adds_units:
  assumes "map_wf mp" "sz \<noteq> 0" "a \<noteq> 0" "unat a + unat sz < 4294967296"
    and "blk a sz \<inter> map_units mp = {}"
  shows "\<exists>mp' ev. mfree mp sz a = Some (mp', ev) \<and> map_wf mp' \<and>
    ((map_units mp' = map_units mp \<union> blk a sz \<and> map_want mp' = 0 \<and>
        ev = (if map_want mp \<noteq> 0 then [WakeupMap] else []))
     \<or> (map_free mp = 0 \<and> mp' = mp \<and> ev = [MapOverflow sz a]))"
  by (rule mfree_spec[OF assms]) blast

theorem mfree_adds_units_witness:
  "\<exists>mp' ev. mfree sample_map 4 6 = Some (mp', ev) \<and> ev = [WakeupMap] \<and>
     map_units mp' = map_units sample_map \<union> blk 6 4"
proof -
  have "blk 6 4 \<inter> map_units sample_map = {}"
    by (auto simp: blk_def map_units_def sample_map_def)
  from mfree_adds_units[OF sample_map_wf _ _ _ this] show ?thesis
    by (auto simp: sample_map_def)
qed

text \<open>What \<^verbatim>\<open>malloc\<close> hands out, \<^verbatim>\<open>mfree\<close> puts back: after the pair the free units are
  those before it.\<close>

theorem malloc_mfree_roundtrip:
  assumes wf: "map_wf mp" and sz: "sz \<noteq> 0" and m: "malloc mp sz = Some (a, mp1)" and a: "a \<noteq> 0"
    and f: "mfree mp1 sz a = Some (mp2, ev)" and room: "map_free mp1 \<noteq> 0"
  shows "map_wf mp2 \<and> map_units mp2 = map_units mp"
proof -
  have b: "unat a + unat sz < 4294967296" "blk a sz \<subseteq> map_units mp"
    "map_units mp1 = map_units mp - blk a sz" and wf1: "map_wf mp1"
    using rm.alloc_blk[OF wf sz m a] rm.alloc_wf[OF wf sz m] by auto
  then have d: "blk a sz \<inter> map_units mp1 = {}" by auto
  show ?thesis
    by (rule mfree_spec[OF wf1 sz a b(1) d]) (use f room b in auto)
qed

theorem malloc_mfree_roundtrip_witness:
  "\<exists>mp1 mp2 ev. malloc sample_map 3 = Some (10, mp1) \<and> mfree mp1 3 10 = Some (mp2, ev) \<and>
     map_units mp2 = map_units sample_map"
proof -
  let ?m1 = "\<lparr>map_free = 2, map_want = 1, map_ent =
     [\<lparr>m_size = 2, m_addr = 1\<rparr>, \<lparr>m_size = 2, m_addr = 13\<rparr>, zero_ent, zero_ent, zero_ent]\<rparr>"
  have m: "malloc sample_map 3 = Some (10, ?m1)"
    by (simp add: malloc_def sample_map_def Let_def)
  have "\<exists>mp2 ev. mfree ?m1 3 10 = Some (mp2, ev)" by (simp add: mfree_def Let_def)
  then obtain mp2 ev where f: "mfree ?m1 3 10 = Some (mp2, ev)" by blast
  from malloc_mfree_roundtrip[OF sample_map_wf _ m _ f] m f show ?thesis by auto
qed

end
