(* ===== verification/Msg.thy ===== *)
theory Msg
  imports Ipc Resource_Map
begin

text \<open>
  System V messages: \<^verbatim>\<open>uts/m68k/io/msg.c\<close> and \<^verbatim>\<open>sys/msg.h\<close>. The tables \<^verbatim>\<open>msgque[]\<close>, \<^verbatim>\<open>msgh[]\<close>
  and \<^verbatim>\<open>msglock[]\<close> are functions of the index, a \<^verbatim>\<open>struct msg *\<close> is an index into \<^verbatim>\<open>msgh\<close>, the
  text pool at \<^verbatim>\<open>msg\<close> is a function from byte offsets. A call that sleeps ends with
  \<open>MSleep label chan\<close>; when the sleep ends, the code goes on at the label, so every piece
  between two sleeps is one definition. User memory enters as arguments: \<open>None\<close> or too short
  a buffer is a fault. \<open>None\<close> as the result of a call is a wild pointer or an endless loop.
\<close>

section \<open>State\<close>

record msginfo =
  mi_msgmap :: u32
  mi_msgmax :: int
  mi_msgmnb :: int
  mi_msgmni :: nat
  mi_msgssz :: nat
  mi_msgtql :: nat
  mi_msgseg :: nat

record msqid_ds =
  msg_perm :: ipc_perm
  msg_first :: ptr
  msg_last :: ptr
  msg_cbytes :: int
  msg_qnum :: int
  msg_qbytes :: int
  msg_lspid :: int
  msg_lrpid :: int
  msg_stime :: int
  msg_rtime :: int
  msg_ctime :: int

record msghdr =
  msg_next :: ptr
  msg_type :: int
  msg_ts :: int
  msg_spot :: int

datatype mchan = ChLock nat | ChQp nat | ChQnum nat | ChHdr | ChMap

text \<open>Where a sleeping call goes on: the first \<^verbatim>\<open>msgconv\<close> of a call, the labels \<^verbatim>\<open>findmsg\<close> and
  \<^verbatim>\<open>getres\<close> (with the queue and the message type held in locals), and the \<^verbatim>\<open>msgconv\<close> that
  follows an interrupted sleep of \<^verbatim>\<open>msgsnd\<close> on a channel.\<close>

datatype mlabel = CtlStart | RcvStart | RcvFind nat | SndStart | SndRes nat int | SndIntr nat mchan

datatype mres =
    MRet int
  | MStat msqid_ds
  | MRcv int "u8 list"
  | MErr errno
  | MSleep mlabel mchan

record mstate =
  msgque :: "nat \<Rightarrow> msqid_ds"
  msgh :: "nat \<Rightarrow> msghdr"
  msgfp :: ptr
  msgmap :: rmap
  msgbuf :: "nat \<Rightarrow> u8"
  msglock :: "nat \<Rightarrow> bool"
  woken :: "mchan list"
  curpri :: int
  sysinfo_msg :: int

abbreviation (input) MSG_R :: u16 where "MSG_R \<equiv> 0x100"
abbreviation (input) MSG_W :: u16 where "MSG_W \<equiv> 0x80"
abbreviation (input) MSG_RWAIT :: u16 where "MSG_RWAIT \<equiv> 0x200"
abbreviation (input) MSG_WWAIT :: u16 where "MSG_WWAIT \<equiv> 0x400"
abbreviation (input) MSG_NOERROR :: u32 where "MSG_NOERROR \<equiv> 0x1000"
abbreviation (input) PMSG :: int where "PMSG \<equiv> 27"

definition btoq :: "msginfo \<Rightarrow> int \<Rightarrow> int" where
  "btoq mi x = (x + int (mi_msgssz mi) - 1) div int (mi_msgssz mi)"

definition set_mode :: "(u16 \<Rightarrow> u16) \<Rightarrow> msqid_ds \<Rightarrow> msqid_ds" where
  "set_mode f q = q\<lparr>msg_perm := (msg_perm q)\<lparr>ip_mode := f (ip_mode (msg_perm q))\<rparr>\<rparr>"

definition set_queue :: "nat \<Rightarrow> msqid_ds \<Rightarrow> mstate \<Rightarrow> mstate" where
  "set_queue i q s = s\<lparr>msgque := (msgque s)(i := q)\<rparr>"

definition set_hdr :: "nat \<Rightarrow> msghdr \<Rightarrow> mstate \<Rightarrow> mstate" where
  "set_hdr m h s = s\<lparr>msgh := (msgh s)(m := h)\<rparr>"

definition mwakeup :: "mchan \<Rightarrow> mstate \<Rightarrow> mstate" where
  "mwakeup c s = s\<lparr>woken := woken s @ [c]\<rparr>"

text \<open>\<^verbatim>\<open>*lockp = 0; wakeup(lockp)\<close>\<close>

definition msg_unlock :: "nat \<Rightarrow> mstate \<Rightarrow> mstate" where
  "msg_unlock i s = mwakeup (ChLock i) (s\<lparr>msglock := (msglock s)(i := False)\<rparr>)"

section \<open>msgconv, msgfree\<close>

datatype mconv = ConvErr errno | ConvSleep nat | ConvOk nat

definition msgconv :: "msginfo \<Rightarrow> int \<Rightarrow> mstate \<Rightarrow> mconv \<times> mstate" where
  "msgconv mi ident s =
     (if ident < 0 then (ConvErr EINVAL, s)
      else
        let i = ipc_slot (mi_msgmni mi) ident
        in if msglock s i then (ConvSleep i, s)
           else
             let s1 = s\<lparr>msglock := (msglock s)(i := True)\<rparr>
             in if ipc_seq_ok (mi_msgmni mi) ident (msg_perm (msgque s i)) then (ConvOk i, s1)
                else (ConvErr EINVAL, msg_unlock i s1))"

text \<open>Return a header to the free list: the tail of \<^verbatim>\<open>msgfree\<close>, and the label \<^verbatim>\<open>msgsnd_out1\<close>.\<close>

definition msg_freehdr :: "nat \<Rightarrow> mstate \<Rightarrow> mstate" where
  "msg_freehdr m s =
     (let s1 = set_hdr m ((msgh s m)\<lparr>msg_next := msgfp s\<rparr>) s;
          s2 = (if msgfp s = None then mwakeup ChHdr s1 else s1)
      in s2\<lparr>msgfp := Some m\<rparr>)"

definition msg_freemap :: "int \<Rightarrow> int \<Rightarrow> mstate \<Rightarrow> mstate option" where
  "msg_freemap segs a s =
     map_option (\<lambda>(mp, ev). (if WakeupMap \<in> set ev then mwakeup ChMap else id) (s\<lparr>msgmap := mp\<rparr>))
       (mfree (msgmap s) (of_int segs) (of_int a))"

definition msg_unlink :: "nat \<Rightarrow> ptr \<Rightarrow> nat \<Rightarrow> mstate \<Rightarrow> mstate" where
  "msg_unlink i pmp m s =
     (let h = msgh s m;
          s1 = (case pmp of
                  None \<Rightarrow> set_queue i ((msgque s i)\<lparr>msg_first := msg_next h\<rparr>) s
                | Some p \<Rightarrow> set_hdr p ((msgh s p)\<lparr>msg_next := msg_next h\<rparr>) s);
          q1 = msgque s1 i;
          q2 = (if msg_next (msgh s1 m) = None then q1\<lparr>msg_last := pmp\<rparr> else q1);
          q3 = q2\<lparr>msg_qnum := us16 (msg_qnum q2 - 1)\<rparr>
      in if ip_mode (msg_perm q3) AND MSG_WWAIT \<noteq> 0
         then mwakeup (ChQp i) (set_queue i (set_mode (\<lambda>md. md AND NOT MSG_WWAIT) q3) s1)
         else set_queue i q3 s1)"

definition msgfree :: "msginfo \<Rightarrow> nat \<Rightarrow> ptr \<Rightarrow> nat \<Rightarrow> mstate \<Rightarrow> mstate option" where
  "msgfree mi i pmp m s =
     (let s2 = msg_unlink i pmp m s; h = msgh s2 m
      in map_option (msg_freehdr m)
           (if msg_ts h \<noteq> 0 then msg_freemap (btoq mi (msg_ts h)) (msg_spot h + 1) s2
            else Some s2))"

text \<open>\<^verbatim>\<open>while (qp->msg_first) msgfree(qp, NULL, qp->msg_first)\<close>\<close>

partial_function (option) msg_purge :: "msginfo \<Rightarrow> nat \<Rightarrow> mstate \<Rightarrow> mstate option" where
  "msg_purge mi i s =
     (case msg_first (msgque s i) of
        None \<Rightarrow> Some s
      | Some m \<Rightarrow> Option.bind (msgfree mi i None m s) (msg_purge mi i))"

section \<open>msgctl, msgget, msginit\<close>

text \<open>\<^verbatim>\<open>suser()\<close> for a caller that is neither the owner nor the creator.\<close>

definition msg_owner :: "ucred \<Rightarrow> msqid_ds \<Rightarrow> bool" where
  "msg_owner u q \<longleftrightarrow>
     u_uid u = ip_uid (msg_perm q) \<or> u_uid u = ip_cuid (msg_perm q) \<or> u_uid u = 0"

definition msg_rmid :: "msginfo \<Rightarrow> int \<Rightarrow> nat \<Rightarrow> mstate \<Rightarrow> mstate option" where
  "msg_rmid mi ident i s =
     map_option (\<lambda>s1.
       let q = msgque s1 i;
           seq' = (if s32 (ident + int (mi_msgmni mi)) < 0 then 0 else ip_seq (msg_perm q) + 1);
           s2 = (if ip_mode (msg_perm q) AND MSG_RWAIT \<noteq> 0 then mwakeup (ChQnum i) s1 else s1);
           s3 = (if ip_mode (msg_perm q) AND MSG_WWAIT \<noteq> 0 then mwakeup (ChQp i) s2 else s2)
       in set_queue i (q\<lparr>msg_cbytes := 0,
            msg_perm := (msg_perm q)\<lparr>ip_seq := seq', ip_mode := 0\<rparr>\<rparr>) s3)
     (msg_purge mi i s)"

definition msg_ipcset :: "ucred \<Rightarrow> int \<Rightarrow> msqid_ds \<Rightarrow> msqid_ds \<Rightarrow> errno + msqid_ds" where
  "msg_ipcset u now ds q =
     (if msg_qbytes ds > msg_qbytes q \<and> u_uid u \<noteq> 0 then Inl EPERM
      else
        let p = msg_perm q
        in Inr (q\<lparr>msg_perm := p\<lparr>ip_uid := ip_uid (msg_perm ds), ip_gid := ip_gid (msg_perm ds),
                   ip_mode := (ip_mode p AND NOT 0x1FF) OR (ip_mode (msg_perm ds) AND 0x1FF)\<rparr>,
                 msg_qbytes := msg_qbytes ds, msg_ctime := now\<rparr>))"

text \<open>\<open>ds\<close> is the structure read from the user (\<open>None\<close>: fault), \<open>outok\<close> whether the copy out
  succeeds. First the \<^verbatim>\<open>switch\<close> on the command, with the queue locked.\<close>

definition msgctl_cmd ::
    "msginfo \<Rightarrow> ucred \<Rightarrow> int \<Rightarrow> int \<Rightarrow> int \<Rightarrow> msqid_ds option \<Rightarrow> bool \<Rightarrow> nat \<Rightarrow> mstate \<Rightarrow> (mres \<times> mstate) option"
  where
  "msgctl_cmd mi u now ident cmd ds outok i s =
     (let q = msgque s i
      in if cmd = 0 then
           (if \<not> msg_owner u q then Some (MErr EPERM, s)
            else map_option (Pair (MRet 0)) (msg_rmid mi ident i s))
         else if cmd = 1 then
           (if \<not> msg_owner u q then Some (MErr EPERM, s)
            else case ds of None \<Rightarrow> Some (MErr EFAULT, s)
            | Some d \<Rightarrow> (case msg_ipcset u now d q of
                 Inl e \<Rightarrow> Some (MErr e, s)
               | Inr q' \<Rightarrow> Some (MRet 0, set_queue i q' s)))
         else if cmd = 2 then
           (case ipcaccess u (msg_perm q) MSG_R of Some e \<Rightarrow> Some (MErr e, s)
            | None \<Rightarrow> Some (if outok then MStat q else MErr EFAULT, s))
         else Some (MErr EINVAL, s))"

definition msgctl ::
    "msginfo \<Rightarrow> ucred \<Rightarrow> int \<Rightarrow> int \<Rightarrow> int \<Rightarrow> msqid_ds option \<Rightarrow> bool \<Rightarrow> mstate \<Rightarrow> (mres \<times> mstate) option"
  where
  "msgctl mi u now ident cmd ds outok s0 =
     (case msgconv mi ident s0 of
        (ConvErr e, s) \<Rightarrow> Some (MErr e, s)
      | (ConvSleep i, s) \<Rightarrow> Some (MSleep CtlStart (ChLock i), s)
      | (ConvOk i, s) \<Rightarrow> map_option (\<lambda>(r, s'). (r, msg_unlock i s'))
                         (msgctl_cmd mi u now ident cmd ds outok i s))"

definition msgget ::
    "msginfo \<Rightarrow> ucred \<Rightarrow> int \<Rightarrow> u32 \<Rightarrow> u32 \<Rightarrow> mstate \<Rightarrow> mres \<times> mstate" where
  "msgget mi u now key flag s =
     (case ipcget u key flag (map (\<lambda>i. msg_perm (msgque s i)) [0..<mi_msgmni mi]) of
        Inl e \<Rightarrow> (MErr e, s)
      | Inr (i, new, p) \<Rightarrow>
          let q = (msgque s i)\<lparr>msg_perm := p\<rparr>;
              q' = (if new then
                      q\<lparr>msg_first := None, msg_last := None, msg_qnum := 0,
                        msg_qbytes := us16 (mi_msgmnb mi), msg_lspid := 0, msg_lrpid := 0,
                        msg_stime := 0, msg_rtime := 0, msg_ctime := now\<rparr>
                    else q)
          in (MRet (ipc_id (mi_msgmni mi) (ip_seq p) i), set_queue i q' s))"

text \<open>\<open>got\<close>: whether \<^verbatim>\<open>sptalloc\<close> found memory for the pool; \<open>s0\<close> is the zeroed boot state.\<close>

definition msginit :: "msginfo \<Rightarrow> bool \<Rightarrow> mstate \<Rightarrow> (msginfo \<times> mstate) option" where
  "msginit mi got s0 =
     (let mi' = (if got then mi else mi\<lparr>mi_msgseg := 0\<rparr>);
          mp = mapinit (mi_msgmap mi) (msgmap s0)
      in map_option (\<lambda>(mp', _).
           (mi', s0\<lparr>msgmap := mp', msgfp := Some 0,
              msgh := (\<lambda>m. if Suc m < mi_msgtql mi then (msgh s0 m)\<lparr>msg_next := Some (Suc m)\<rparr>
                            else msgh s0 m)\<rparr>))
         (mfree mp (of_nat (mi_msgseg mi')) 1))"

section \<open>User memory and iomove\<close>

definition get_bytes :: "(nat \<Rightarrow> u8) \<Rightarrow> nat \<Rightarrow> nat \<Rightarrow> u8 list" where
  "get_bytes f a n = map f [a..<a + n]"

definition put_bytes :: "nat \<Rightarrow> u8 list \<Rightarrow> (nat \<Rightarrow> u8) \<Rightarrow> nat \<Rightarrow> u8" where
  "put_bytes a bs f = (\<lambda>x. if a \<le> x \<and> x < a + length bs then bs ! (x - a) else f x)"

text \<open>\<^verbatim>\<open>iomove(cp, n, B_WRITE)\<close>: \<open>mem\<close> are the readable bytes from \<^verbatim>\<open>u.u_base\<close> on; a fault comes
  after the readable ones are copied.\<close>

definition iomove_in :: "nat \<Rightarrow> nat \<Rightarrow> u8 list \<Rightarrow> (nat \<Rightarrow> u8) \<Rightarrow> bool \<times> (nat \<Rightarrow> u8)" where
  "iomove_in cp n mem f =
     (if n = 0 then (True, f) else (n \<le> length mem, put_bytes cp (take n mem) f))"

section \<open>msgrcv\<close>

record rcvargs =
  ra_msqid :: int
  ra_msgsz :: int
  ra_msgtyp :: int
  ra_msgflg :: u32
  ra_typeok :: bool
  ra_room :: nat

text \<open>\<open>ra_typeok\<close>: the type word of the user's buffer is writable; \<open>ra_room\<close>: so many bytes
  after it are.\<close>

partial_function (option) rcv_scan ::
    "(nat \<Rightarrow> msghdr) \<Rightarrow> int \<Rightarrow> ptr \<Rightarrow> ptr \<Rightarrow> ptr \<Rightarrow> ptr \<Rightarrow> (ptr \<times> ptr) option" where
  "rcv_scan H typ pmp mp smp spmp =
     (case mp of
        None \<Rightarrow> Some (smp, spmp)
      | Some m \<Rightarrow>
          (if typ > 0 then
             (if typ \<noteq> msg_type (H m) then rcv_scan H typ mp (msg_next (H m)) smp spmp
              else Some (mp, pmp))
           else if msg_type (H m) \<le> s32 (- typ) then
             (if (case smp of None \<Rightarrow> False | Some b \<Rightarrow> msg_type (H b) \<le> msg_type (H m))
              then rcv_scan H typ mp (msg_next (H m)) smp spmp
              else rcv_scan H typ mp (msg_next (H m)) mp pmp)
           else rcv_scan H typ mp (msg_next (H m)) smp spmp))"

text \<open>The message \<open>m\<close> after \<open>spmp\<close> is taken off queue \<open>i\<close>.\<close>

definition msgrcv_take ::
    "msginfo \<Rightarrow> ucred \<Rightarrow> int \<Rightarrow> rcvargs \<Rightarrow> nat \<Rightarrow> nat \<Rightarrow> ptr \<Rightarrow> mstate \<Rightarrow> (mres \<times> mstate) option" where
  "msgrcv_take mi u now a i m spmp s =
     (let h = msgh s m
      in if ra_msgsz a < msg_ts h \<and> ra_msgflg a AND MSG_NOERROR = 0 then Some (MErr E2BIG, s)
         else
           let sz = (if ra_msgsz a < msg_ts h then ra_msgsz a else msg_ts h)
           in if \<not> ra_typeok a then Some (MErr EFAULT, s)
              else if sz \<noteq> 0 \<and> ra_room a < nat sz then Some (MErr EFAULT, s)
              else
                let q = msgque s i;
                    q' = q\<lparr>msg_cbytes := us16 (msg_cbytes q - msg_ts h),
                           msg_lrpid := us16 (u_pid u), msg_rtime := now\<rparr>
                in map_option
                     (Pair (MRcv (msg_type h)
                        (get_bytes (msgbuf s) (nat (int (mi_msgssz mi) * msg_spot h)) (nat sz))))
                     (msgfree mi i spmp m (set_queue i q' (s\<lparr>curpri := PMSG\<rparr>))))"

definition msgrcv_findmsg ::
    "msginfo \<Rightarrow> ucred \<Rightarrow> int \<Rightarrow> rcvargs \<Rightarrow> nat \<Rightarrow> mstate \<Rightarrow> (mres \<times> mstate) option" where
  "msgrcv_findmsg mi u now a i s0 =
     (case msgconv mi (ra_msqid a) s0 of
        (ConvErr e, s) \<Rightarrow> Some (MErr EIDRM, s)
      | (ConvSleep j, s) \<Rightarrow> Some (MSleep (RcvFind i) (ChLock j), s)
      | (ConvOk j, s) \<Rightarrow>
          if j \<noteq> i then Some (MErr EIDRM, msg_unlock j s)
          else
            let mp = msg_first (msgque s i)
            in Option.bind (if ra_msgtyp a = 0 then Some (mp, None)
                            else rcv_scan (msgh s) (ra_msgtyp a) None mp None None)
                 (\<lambda>(smp, spmp).
                    case smp of
                      Some m \<Rightarrow> map_option (\<lambda>(r, s'). (r, msg_unlock i s'))
                                  (msgrcv_take mi u now a i m spmp s)
                    | None \<Rightarrow>
                        if ra_msgflg a AND IPC_NOWAIT \<noteq> 0 then Some (MErr ENOMSG, msg_unlock i s)
                        else Some (MSleep (RcvFind i) (ChQnum i),
                               msg_unlock i (set_queue i
                                 (set_mode (\<lambda>md. md OR MSG_RWAIT) (msgque s i)) s))))"

definition msgrcv_start ::
    "msginfo \<Rightarrow> ucred \<Rightarrow> int \<Rightarrow> rcvargs \<Rightarrow> mstate \<Rightarrow> (mres \<times> mstate) option" where
  "msgrcv_start mi u now a s0 =
     (case msgconv mi (ra_msqid a) s0 of
        (ConvErr e, s) \<Rightarrow> Some (MErr e, s)
      | (ConvSleep i, s) \<Rightarrow> Some (MSleep RcvStart (ChLock i), s)
      | (ConvOk i, s) \<Rightarrow>
          (case ipcaccess u (msg_perm (msgque s i)) MSG_R of
             Some e \<Rightarrow> Some (MErr e, msg_unlock i s)
           | None \<Rightarrow>
               if ra_msgsz a < 0 then Some (MErr EINVAL, msg_unlock i s)
               else msgrcv_findmsg mi u now a i (msg_unlock i s)))"

definition msgrcv ::
    "msginfo \<Rightarrow> ucred \<Rightarrow> int \<Rightarrow> rcvargs \<Rightarrow> mstate \<Rightarrow> (mres \<times> mstate) option" where
  "msgrcv mi u now a s = msgrcv_start mi u now a (s\<lparr>sysinfo_msg := sysinfo_msg s + 1\<rparr>)"

section \<open>msgsnd\<close>

record sndargs =
  sa_msqid :: int
  sa_msgsz :: int
  sa_msgflg :: u32
  sa_type :: "int option"
  sa_text :: "u8 list"

text \<open>\<open>sa_type\<close>: the type word in the user's buffer, unless it faults; \<open>sa_text\<close>: the readable
  bytes after it. The label \<^verbatim>\<open>msgsnd_out1\<close> is \<open>msg_freehdr\<close>.\<close>

definition msgsnd_put ::
    "ucred \<Rightarrow> int \<Rightarrow> nat \<Rightarrow> nat \<Rightarrow> int \<Rightarrow> int \<Rightarrow> int \<Rightarrow> mstate \<Rightarrow> mstate" where
  "msgsnd_put u now i m typ cnt spot s =
     (let q = msgque s i;
          q1 = q\<lparr>msg_qnum := us16 (msg_qnum q + 1), msg_cbytes := us16 (msg_cbytes q + cnt),
                 msg_lspid := us16 (u_pid u), msg_stime := now\<rparr>;
          s1 = set_hdr m ((msgh s m)\<lparr>msg_next := None, msg_type := typ, msg_ts := s16 cnt,
                 msg_spot := (if cnt \<noteq> 0 then s16 spot else -1)\<rparr>) s;
          (q2, s2) = (case msg_last q1 of
             None \<Rightarrow> (q1\<lparr>msg_first := Some m, msg_last := Some m\<rparr>, s1)
           | Some l \<Rightarrow> (q1\<lparr>msg_last := Some m\<rparr>, set_hdr l ((msgh s1 l)\<lparr>msg_next := Some m\<rparr>) s1))
      in if ip_mode (msg_perm q2) AND MSG_RWAIT \<noteq> 0
         then mwakeup (ChQnum i)
                (set_queue i (set_mode (\<lambda>md. md AND NOT MSG_RWAIT) q2) (s2\<lparr>curpri := PMSG\<rparr>))
         else set_queue i q2 s2)"

text \<open>From \<^verbatim>\<open>mp = msgfp\<close> on: header \<open>m\<close> is taken, then space and text.\<close>

definition msgsnd_alloc ::
    "msginfo \<Rightarrow> ucred \<Rightarrow> int \<Rightarrow> sndargs \<Rightarrow> nat \<Rightarrow> int \<Rightarrow> nat \<Rightarrow> mstate \<Rightarrow> (mres \<times> mstate) option" where
  "msgsnd_alloc mi u now a i typ m s =
     (let cnt = sa_msgsz a; s1 = s\<lparr>msgfp := msg_next (msgh s m)\<rparr>
      in if cnt = 0 then Some (MRet 0, msgsnd_put u now i m typ 0 0 s1)
         else Option.bind (malloc (msgmap s1) (of_int (btoq mi cnt))) (\<lambda>(spot, mp).
           let s2 = s1\<lparr>msgmap := mp\<rparr>
           in if spot = 0 then
                (if sa_msgflg a AND IPC_NOWAIT \<noteq> 0 then Some (MErr EAGAIN, msg_freehdr m s2)
                 else Some (MSleep (SndRes i typ) ChMap,
                        msg_freehdr m (s2\<lparr>msgmap := mp\<lparr>map_want := map_want mp + 1\<rparr>\<rparr>)))
              else
                let sp = s32 (uint spot) - 1;
                    (ok, f) = iomove_in (nat (int (mi_msgssz mi) * sp)) (nat cnt)
                                (sa_text a) (msgbuf s2);
                    s3 = s2\<lparr>msgbuf := f\<rparr>
                in if ok then Some (MRet 0, msgsnd_put u now i m typ cnt sp s3)
                   else map_option (\<lambda>s4. (MErr EFAULT, msg_freehdr m s4))
                          (msg_freemap (btoq mi cnt) (sp + 1) s3)))"

definition msgsnd_getres ::
    "msginfo \<Rightarrow> ucred \<Rightarrow> int \<Rightarrow> sndargs \<Rightarrow> nat \<Rightarrow> int \<Rightarrow> mstate \<Rightarrow> (mres \<times> mstate) option" where
  "msgsnd_getres mi u now a i typ s0 =
     (case msgconv mi (sa_msqid a) s0 of
        (ConvErr e, s) \<Rightarrow> Some (MErr EIDRM, s)
      | (ConvSleep j, s) \<Rightarrow> Some (MSleep (SndRes i typ) (ChLock j), s)
      | (ConvOk j, s) \<Rightarrow>
          let q = msgque s i; nowait = (sa_msgflg a AND IPC_NOWAIT \<noteq> 0)
          in if j \<noteq> i then Some (MErr EIDRM, msg_unlock j s)
             else if sa_msgsz a + msg_cbytes q > msg_qbytes q then
               (if nowait then Some (MErr EAGAIN, msg_unlock i s)
                else Some (MSleep (SndRes i typ) (ChQp i),
                       msg_unlock i (set_queue i (set_mode (\<lambda>md. md OR MSG_WWAIT) q) s)))
             else (case msgfp s of
               None \<Rightarrow>
                 if nowait then Some (MErr EAGAIN, msg_unlock i s)
                 else Some (MSleep (SndRes i typ) ChHdr, msg_unlock i s)
             | Some m \<Rightarrow> map_option (\<lambda>(r, s'). (r, msg_unlock i s'))
                           (msgsnd_alloc mi u now a i typ m s)))"

text \<open>A signal ends the sleep on \<open>c\<close>: the queue is looked up again, if only to leave it.\<close>

definition msgsnd_intr ::
    "msginfo \<Rightarrow> sndargs \<Rightarrow> nat \<Rightarrow> mchan \<Rightarrow> mstate \<Rightarrow> mres \<times> mstate" where
  "msgsnd_intr mi a i c s0 =
     (case msgconv mi (sa_msqid a) s0 of
        (ConvErr e, s) \<Rightarrow> (MErr e, s)
      | (ConvSleep j, s) \<Rightarrow> (MSleep (SndIntr i c) (ChLock j), s)
      | (ConvOk j, s) \<Rightarrow>
          if j \<noteq> i then (MErr EINTR, msg_unlock j s)
          else if c = ChQp i then
            (MErr EINTR, msg_unlock i (mwakeup (ChQp i)
               (set_queue i (set_mode (\<lambda>md. md AND NOT MSG_WWAIT) (msgque s i)) s)))
          else (MErr EINTR, msg_unlock i s))"

definition msgsnd_start ::
    "msginfo \<Rightarrow> ucred \<Rightarrow> int \<Rightarrow> sndargs \<Rightarrow> mstate \<Rightarrow> (mres \<times> mstate) option" where
  "msgsnd_start mi u now a s0 =
     (case msgconv mi (sa_msqid a) s0 of
        (ConvErr e, s) \<Rightarrow> Some (MErr e, s)
      | (ConvSleep i, s) \<Rightarrow> Some (MSleep SndStart (ChLock i), s)
      | (ConvOk i, s) \<Rightarrow>
          (case ipcaccess u (msg_perm (msgque s i)) MSG_W of
             Some e \<Rightarrow> Some (MErr e, msg_unlock i s)
           | None \<Rightarrow>
               if sa_msgsz a < 0 \<or> sa_msgsz a > mi_msgmax mi then Some (MErr EINVAL, msg_unlock i s)
               else case sa_type a of
                 None \<Rightarrow> Some (MErr EFAULT, msg_unlock i s)
               | Some typ \<Rightarrow>
                   if typ < 1 then Some (MErr EINVAL, msg_unlock i s)
                   else msgsnd_getres mi u now a i typ (msg_unlock i s)))"

definition msgsnd ::
    "msginfo \<Rightarrow> ucred \<Rightarrow> int \<Rightarrow> sndargs \<Rightarrow> mstate \<Rightarrow> (mres \<times> mstate) option" where
  "msgsnd mi u now a s = msgsnd_start mi u now a (s\<lparr>sysinfo_msg := sysinfo_msg s + 1\<rparr>)"

end
