(* ===== verification/Msg_Ok.thy ===== *)
theory Msg_Ok
  imports Msg
begin

text \<open>
  Correctness of the message facility of \<^verbatim>\<open>Msg\<close>. The invariant \<open>msg_inv\<close> says that every
  header is on the free list or on exactly one queue, that counts agree with the chains, and
  that the texts lie in pairwise disjoint allocated blocks of the pool (through the locale
  \<open>space_map\<close> of \<^verbatim>\<open>Resource_Map\<close>). \<open>queue_msgs\<close> is the abstract queue, a list of typed texts;
  sending appends to it, receiving removes the selected message. Each call is total on states
  with the invariant: no wild pointer is followed and no loop runs forever.
\<close>

section \<open>The invariant\<close>

text \<open>The configuration the code documents: segments of positive size, fewer than 32768 of
  them, sizes that fit the \<^verbatim>\<open>short\<close> and \<^verbatim>\<open>ushort\<close> fields.\<close>

definition msginfo_ok :: "msginfo \<Rightarrow> bool" where
  "msginfo_ok mi \<longleftrightarrow> 0 < mi_msgmni mi \<and> 0 < mi_msgssz mi \<and> mi_msgssz mi < 65536 \<and>
     mi_msgmax mi \<le> 32767 \<and> mi_msgseg mi < 32768"

definition nxt :: "mstate \<Rightarrow> nat \<Rightarrow> ptr" where
  "nxt s m = msg_next (msgh s m)"

definition text_blk :: "msginfo \<Rightarrow> msghdr \<Rightarrow> nat set" where
  "text_blk mi h = blk (of_int (msg_spot h + 1)) (of_int (btoq mi (msg_ts h)))"

definition hdr_ok :: "msginfo \<Rightarrow> msghdr \<Rightarrow> bool" where
  "hdr_ok mi h \<longleftrightarrow> 0 \<le> msg_ts h \<and> msg_ts h \<le> 32767 \<and>
     (msg_ts h \<noteq> 0 \<longrightarrow> 0 \<le> msg_spot h \<and> msg_spot h < 32767 \<and>
        msg_spot h + btoq mi (msg_ts h) \<le> int (mi_msgseg mi))"

definition queued :: "msginfo \<Rightarrow> (nat \<Rightarrow> nat list) \<Rightarrow> nat set" where
  "queued mi qs = (\<Union>i<mi_msgmni mi. set (qs i))"

definition with_text :: "mstate \<Rightarrow> nat set \<Rightarrow> nat set" where
  "with_text s M = {m \<in> M. msg_ts (msgh s m) \<noteq> 0}"

text \<open>Queue \<open>i\<close> holds the chain \<open>xs\<close>; the byte count is apart because the code updates it
  at other moments than the links.\<close>

definition queue_ok :: "mstate \<Rightarrow> nat \<Rightarrow> nat list \<Rightarrow> bool" where
  "queue_ok s i xs \<longleftrightarrow>
     chain (nxt s) (msg_first (msgque s i)) xs \<and>
     msg_last (msgque s i) = (if xs = [] then None else Some (last xs)) \<and>
     msg_qnum (msgque s i) = us16 (int (length xs)) \<and>
     0 \<le> msg_qbytes (msgque s i) \<and> msg_qbytes (msgque s i) < 65536 \<and>
     (\<not> allocated (msg_perm (msgque s i)) \<longrightarrow> xs = [])"

definition bytes_ok :: "msginfo \<Rightarrow> mstate \<Rightarrow> (nat \<Rightarrow> nat list) \<Rightarrow> bool" where
  "bytes_ok mi s qs \<longleftrightarrow> (\<forall>i<mi_msgmni mi.
     msg_cbytes (msgque s i) = (\<Sum>m\<leftarrow>qs i. msg_ts (msgh s m)) \<and> msg_cbytes (msgque s i) < 65536)"

definition hdrs_split :: "msginfo \<Rightarrow> nat list \<Rightarrow> (nat \<Rightarrow> nat list) \<Rightarrow> bool" where
  "hdrs_split mi fl qs \<longleftrightarrow>
     (\<forall>i<mi_msgmni mi. set fl \<inter> set (qs i) = {}) \<and>
     (\<forall>i<mi_msgmni mi. \<forall>j<mi_msgmni mi. i \<noteq> j \<longrightarrow> set (qs i) \<inter> set (qs j) = {}) \<and>
     set fl \<union> queued mi qs = {..<mi_msgtql mi}"

definition msg_struct :: "msginfo \<Rightarrow> mstate \<Rightarrow> nat list \<Rightarrow> (nat \<Rightarrow> nat list) \<Rightarrow> bool" where
  "msg_struct mi s fl qs \<longleftrightarrow>
     chain (nxt s) (msgfp s) fl \<and>
     (\<forall>i<mi_msgmni mi. queue_ok s i (qs i)) \<and>
     hdrs_split mi fl qs \<and>
     (\<forall>m\<in>queued mi qs. hdr_ok mi (msgh s m)) \<and>
     rm.held (msgmap s) (with_text s (queued mi qs)) (\<lambda>m. text_blk mi (msgh s m)) \<and>
     map_units (msgmap s) \<subseteq> {1..mi_msgseg mi}"

definition msg_inv :: "msginfo \<Rightarrow> mstate \<Rightarrow> bool" where
  "msg_inv mi s \<longleftrightarrow> (\<exists>fl qs. msg_struct mi s fl qs \<and> bytes_ok mi s qs)"

lemmas msg_inv_defs = msg_struct_def queue_ok_def bytes_ok_def

lemma nxt_set_hdr [simp]: "nxt (set_hdr m h s) = (nxt s)(m := msg_next h)"
  by (auto simp: nxt_def set_hdr_def)

lemma nxt_set_queue [simp]: "nxt (set_queue i q s) = nxt s"
  by (auto simp: nxt_def set_queue_def)

lemma set_queue_simps [simp]:
  "msgque (set_queue i q s) = (msgque s)(i := q)" "msgh (set_queue i q s) = msgh s"
  "msgfp (set_queue i q s) = msgfp s" "msgmap (set_queue i q s) = msgmap s"
  "msgbuf (set_queue i q s) = msgbuf s" "msglock (set_queue i q s) = msglock s"
  by (simp_all add: set_queue_def)

lemma set_hdr_simps [simp]:
  "msgque (set_hdr m h s) = msgque s" "msgh (set_hdr m h s) = (msgh s)(m := h)"
  "msgfp (set_hdr m h s) = msgfp s" "msgmap (set_hdr m h s) = msgmap s"
  "msgbuf (set_hdr m h s) = msgbuf s" "msglock (set_hdr m h s) = msglock s"
  by (simp_all add: set_hdr_def)

lemma mwakeup_simps [simp]:
  "msgque (mwakeup c s) = msgque s" "msgh (mwakeup c s) = msgh s"
  "msgfp (mwakeup c s) = msgfp s" "msgmap (mwakeup c s) = msgmap s"
  "msgbuf (mwakeup c s) = msgbuf s" "msglock (mwakeup c s) = msglock s" "nxt (mwakeup c s) = nxt s"
  by (simp_all add: mwakeup_def nxt_def fun_eq_iff)

lemma msg_unlock_simps [simp]:
  "msgque (msg_unlock i s) = msgque s" "msgh (msg_unlock i s) = msgh s"
  "msgfp (msg_unlock i s) = msgfp s" "msgmap (msg_unlock i s) = msgmap s"
  "msgbuf (msg_unlock i s) = msgbuf s" "nxt (msg_unlock i s) = nxt s"
  "msglock (msg_unlock i s) = (msglock s)(i := False)"
  by (simp_all add: msg_unlock_def nxt_def fun_eq_iff)

lemma set_mode_simps [simp]:
  "msg_first (set_mode f q) = msg_first q" "msg_last (set_mode f q) = msg_last q"
  "msg_cbytes (set_mode f q) = msg_cbytes q" "msg_qnum (set_mode f q) = msg_qnum q"
  "msg_qbytes (set_mode f q) = msg_qbytes q" "ip_mode (msg_perm (set_mode f q)) = f (ip_mode (msg_perm q))"
  "ip_seq (msg_perm (set_mode f q)) = ip_seq (msg_perm q)"
  by (simp_all add: set_mode_def)

text \<open>What the invariant reads of a state.\<close>

lemma msg_struct_cong:
  assumes "msgh s' = msgh s" "msgfp s' = msgfp s" "rm.held (msgmap s') I B = rm.held (msgmap s) I B"
    and "I = with_text s (queued mi qs)" "B = (\<lambda>m. text_blk mi (msgh s m))"
    and "map_units (msgmap s') \<subseteq> map_units (msgmap s)"
    and "\<And>i. i < mi_msgmni mi \<Longrightarrow> queue_ok s' i (qs i)"
  shows "msg_struct mi s fl qs \<Longrightarrow> msg_struct mi s' fl qs"
proof -
  have "nxt s' = nxt s" using assms(1) by (simp add: nxt_def fun_eq_iff)
  moreover have "with_text s' = with_text s" using assms(1) by (simp add: with_text_def fun_eq_iff)
  ultimately show "msg_struct mi s fl qs \<Longrightarrow> msg_struct mi s' fl qs"
    using assms by (auto simp: msg_struct_def)
qed

definition same_queue :: "msqid_ds \<Rightarrow> msqid_ds \<Rightarrow> bool" where
  "same_queue q q' \<longleftrightarrow> msg_first q' = msg_first q \<and> msg_last q' = msg_last q \<and>
     msg_cbytes q' = msg_cbytes q \<and> msg_qnum q' = msg_qnum q \<and>
     (allocated (msg_perm q) \<longrightarrow> allocated (msg_perm q')) \<and> 
     (0 \<le> msg_qbytes q \<and> msg_qbytes q < 65536 \<longrightarrow> 0 \<le> msg_qbytes q' \<and> msg_qbytes q' < 65536)"

lemma same_queue_refl [simp]: "same_queue q q"
  by (simp add: same_queue_def)

lemma same_queue_mode [simp]:
  "same_queue q (set_mode (\<lambda>md. md AND NOT MSG_WWAIT) q)"
  "same_queue q (set_mode (\<lambda>md. md AND NOT MSG_RWAIT) q)"
  "same_queue q (set_mode (\<lambda>md. md OR MSG_WWAIT) q)"
  "same_queue q (set_mode (\<lambda>md. md OR MSG_RWAIT) q)"
  by (simp_all add: same_queue_def alloc_bit bit_simps)

definition same_core :: "mstate \<Rightarrow> mstate \<Rightarrow> bool" where
  "same_core s s' \<longleftrightarrow> msgh s' = msgh s \<and> msgfp s' = msgfp s \<and>
     map_ent (msgmap s') = map_ent (msgmap s) \<and> map_free (msgmap s') = map_free (msgmap s) \<and> 
     (\<forall>i. same_queue (msgque s i) (msgque s' i))"

lemma same_coreI: 
  "msgh s' = msgh s \<Longrightarrow> msgfp s' = msgfp s \<Longrightarrow> msgmap s' = msgmap s \<Longrightarrow>
   (\<And>i. same_queue (msgque s i) (msgque s' i)) \<Longrightarrow> same_core s s'"
  by (simp add: same_core_def)

lemma held_same_ent:
  "map_ent m' = map_ent m \<Longrightarrow> map_free m' = map_free m \<Longrightarrow> rm.held m' I B = rm.held m I B"
  by (simp add: rm.held_def map_wf_def map_live_def map_units_def)

lemma msg_struct_same:
  assumes c: "same_core s s'" and i: "msg_struct mi s fl qs"
  shows "msg_struct mi s' fl qs"
proof (rule msg_struct_cong[OF _ _ _ refl refl _ _ i])
  note c' = c[unfolded same_core_def]
  show "msgh s' = msgh s" "msgfp s' = msgfp s" using c' by auto
  have n: "nxt s' = nxt s" using c' by (simp add: nxt_def fun_eq_iff)
  show "rm.held (msgmap s') (with_text s (queued mi qs)) (\<lambda>m. text_blk mi (msgh s m)) =
        rm.held (msgmap s) (with_text s (queued mi qs)) (\<lambda>m. text_blk mi (msgh s m))"
    using c' by (intro held_same_ent) auto
  show "map_units (msgmap s') \<subseteq> map_units (msgmap s)" using c' by (simp add: map_units_def)
  fix j assume "j < mi_msgmni mi"
  then have "queue_ok s j (qs j)" using i by (simp add: msg_struct_def)
  moreover have "same_queue (msgque s j) (msgque s' j)" using c' by simp
  ultimately show "queue_ok s' j (qs j)" by (auto simp: queue_ok_def n same_queue_def)
qed

lemma bytes_ok_same: "same_core s s' \<Longrightarrow> bytes_ok mi s qs \<Longrightarrow> bytes_ok mi s' qs"
  by (auto simp: bytes_ok_def same_core_def same_queue_def)

lemma msg_inv_same: "same_core s s' \<Longrightarrow> msg_inv mi s \<Longrightarrow> msg_inv mi s'"
  unfolding msg_inv_def using msg_struct_same bytes_ok_same by blast

lemma nxt_updates [simp]:
  "nxt (s\<lparr>msgmap := mp\<rparr>) = nxt s" "nxt (s\<lparr>msgbuf := f\<rparr>) = nxt s" "nxt (s\<lparr>msgfp := p\<rparr>) = nxt s"
  "nxt (s\<lparr>curpri := c\<rparr>) = nxt s" "nxt (s\<lparr>msglock := l\<rparr>) = nxt s" "nxt (s\<lparr>sysinfo_msg := n\<rparr>) = nxt s"
  by (simp_all add: nxt_def fun_eq_iff)

section \<open>Freeing a message\<close>

text \<open>All a header says of its message, the link apart.\<close>

definition same_msgs :: "mstate \<Rightarrow> mstate \<Rightarrow> bool" where
  "same_msgs s s' \<longleftrightarrow> (\<forall>m. msg_type (msgh s' m) = msg_type (msgh s m) \<and>
     msg_ts (msgh s' m) = msg_ts (msgh s m) \<and> msg_spot (msgh s' m) = msg_spot (msgh s m))"

lemma same_msgs_hdr_ok [simp]: "same_msgs s s' \<Longrightarrow> hdr_ok mi (msgh s' m) = hdr_ok mi (msgh s m)"
  by (simp add: same_msgs_def hdr_ok_def)

lemma same_msgs_blk [simp]: "same_msgs s s' \<Longrightarrow> text_blk mi (msgh s' m) = text_blk mi (msgh s m)"
  by (simp add: same_msgs_def text_blk_def)

lemma same_msgs_with_text [simp]: "same_msgs s s' \<Longrightarrow> with_text s' M = with_text s M"
  by (simp add: same_msgs_def with_text_def)

lemma btoq_bounds:
  assumes "msginfo_ok mi" "0 < x" "x \<le> 32767"
  shows "1 \<le> btoq mi x \<and> btoq mi x \<le> 32767 \<and> x \<le> int (mi_msgssz mi) * btoq mi x"
proof -
  define z where "z = int (mi_msgssz mi)"
  have z: "1 \<le> z" using assms(1) by (simp add: z_def msginfo_ok_def)
  have b: "btoq mi x = (x + z - 1) div z" by (simp add: btoq_def z_def)
  have lo: "1 \<le> (x + z - 1) div z" using z assms(2) by (simp add: pos_imp_zdiv_pos_iff int_one_le_iff_zero_less)
  have "(x + z - 1) div z = (x - 1) div z + 1" using z
    by (metis add.commute add_diff_eq div_add_self2 group_cancel.sub1 not_one_le_zero)
  moreover have "(x - 1) div z \<le> x - 1" using z assms(2) by (smt (verit) div_by_1 zdiv_mono2)
  moreover have "x \<le> z * ((x + z - 1) div z)"
  proof -
    have "z * ((x + z - 1) div z) + (x + z - 1) mod z = x + z - 1" by simp
    moreover have "(x + z - 1) mod z < z" using z by simp
    ultimately show ?thesis by linarith
  qed
  ultimately show ?thesis using lo assms(3) b z_def by auto
qed

lemma hdr_ok_mfree_args:
  assumes mi: "msginfo_ok mi" and h: "hdr_ok mi h" and ts: "msg_ts h \<noteq> 0"
  defines "sz \<equiv> of_int (btoq mi (msg_ts h)) :: u32" and "a \<equiv> of_int (msg_spot h + 1) :: u32"
  shows "sz \<noteq> 0" "a \<noteq> 0" "unat a + unat sz < 4294967296" "text_blk mi h = blk a sz"
    "int (unat a) = msg_spot h + 1" "int (unat sz) = btoq mi (msg_ts h)"
    "text_blk mi h \<subseteq> {1..mi_msgseg mi}"
proof -
  have b: "1 \<le> btoq mi (msg_ts h)" "btoq mi (msg_ts h) \<le> 32767"
    using btoq_bounds[OF mi, of "msg_ts h"] h ts by (auto simp: hdr_ok_def)
  have s: "0 \<le> msg_spot h" "msg_spot h < 32767" using h ts by (auto simp: hdr_ok_def)
  show u: "int (unat sz) = btoq mi (msg_ts h)" using b 
    by (simp add: sz_def unsigned_of_int take_bit_int_eq_self_iff)
  show v: "int (unat a) = msg_spot h + 1" using s
    by (simp add: a_def unsigned_of_int take_bit_int_eq_self_iff del: of_int_add)
  show "sz \<noteq> 0" using u b by auto
  show "a \<noteq> 0" using v s by auto
  show "unat a + unat sz < 4294967296" using u v b s by linarith
  show e: "text_blk mi h = blk a sz" by (simp add: text_blk_def sz_def a_def)
  have "unat a + unat sz \<le> Suc (mi_msgseg mi)" "1 \<le> unat a"
    using u v s h ts unfolding hdr_ok_def by linarith+
  then show "text_blk mi h \<subseteq> {1..mi_msgseg mi}" unfolding e blk_def by auto
qed

lemma msg_freemap_ok:
  assumes mi: "msginfo_ok mi" and h: "hdr_ok mi (msgh s m)" and ts: "msg_ts (msgh s m) \<noteq> 0"
    and held: "rm.held (msgmap s) (with_text s M) (\<lambda>m. text_blk mi (msgh s m))" and m: "m \<in> M"
    and units: "map_units (msgmap s) \<subseteq> {1..mi_msgseg mi}"
  obtains s' mp where "msg_freemap (btoq mi (msg_ts (msgh s m))) (msg_spot (msgh s m) + 1) s = Some s'"
    "s' = s\<lparr>msgmap := mp\<rparr> \<or> s' = mwakeup ChMap (s\<lparr>msgmap := mp\<rparr>)"
    "rm.held mp (with_text s (M - {m})) (\<lambda>m. text_blk mi (msgh s m))"
    "map_units mp \<subseteq> {1..mi_msgseg mi}"
proof -
  note args = hdr_ok_mfree_args[OF mi h ts]
  have mt: "m \<in> with_text s M" using m ts by (simp add: with_text_def)
  obtain mp e where f: "mfree (msgmap s) (of_int (btoq mi (msg_ts (msgh s m))))
      (of_int (msg_spot (msgh s m) + 1)) = Some (mp, e)"
    using rm.held_release_total[OF held args(1-3) mt args(4)] by blast
  have held': "rm.held mp (with_text s M - {m}) (\<lambda>m. text_blk mi (msgh s m))"
    by (rule rm.held_release[OF held args(1-3) mt args(4) f])
  have eq: "with_text s M - {m} = with_text s (M - {m})" by (auto simp: with_text_def)
  have d: "blk (of_int (msg_spot (msgh s m) + 1)) (of_int (btoq mi (msg_ts (msgh s m)))) \<inter> map_units (msgmap s) = {}"
    using held mt unfolding rm.held_def args(4)[symmetric] by blast
  have "map_units mp \<subseteq> map_units (msgmap s) \<union> text_blk mi (msgh s m)"
    using rm.release_units[OF rm.held_wf[OF held] args(1-3) d f] args(4) by auto
  then have units': "map_units mp \<subseteq> {1..mi_msgseg mi}" using units args(7) by blast
  show ?thesis
    by (rule that[OF _ _ held'[unfolded eq] units'])
      (use f in \<open>auto simp: msg_freemap_def\<close>)
qed

text \<open>The split of the headers when the message between \<open>as\<close> and \<open>bs\<close> leaves queue \<open>i\<close>.\<close>

lemma queued_remove:
  assumes "hdrs_split mi fl qs" "i < mi_msgmni mi" "qs i = as @ m # bs" "distinct (qs i)"
  shows "queued mi (qs(i := as @ bs)) = queued mi qs - {m}"
    "hdrs_split mi (m # fl) (qs(i := as @ bs))" "m \<in> queued mi qs"
proof -
  have other: "m \<notin> set (qs j)" if "j < mi_msgmni mi" "j \<noteq> i" for j
    using assms(1-3) that by (auto simp: hdrs_split_def)
  show m: "m \<in> queued mi qs" using assms(2,3) by (auto simp: queued_def intro!: bexI[of _ i])
  have mi: "set (as @ bs) = set (qs i) - {m}" using assms(3,4) by auto
  show q: "queued mi (qs(i := as @ bs)) = queued mi qs - {m}"
  proof (rule set_eqI)
    fix x
    have "x \<in> queued mi (qs(i := as @ bs)) \<longleftrightarrow>
        x \<in> set (as @ bs) \<or> (\<exists>j<mi_msgmni mi. j \<noteq> i \<and> x \<in> set (qs j))"
      using assms(2) by (auto simp: queued_def split: if_splits)
    also have "\<dots> \<longleftrightarrow> x \<in> queued mi qs - {m}"
      unfolding mi using assms(2) other by (auto simp: queued_def)
    finally show "x \<in> queued mi (qs(i := as @ bs)) \<longleftrightarrow> x \<in> queued mi qs - {m}" .
  qed
  have sub: "set ((qs(i := as @ bs)) j) \<subseteq> set (qs j)" for j using assms(3) by auto
  have "set (m # fl) \<inter> set ((qs(i := as @ bs)) j) = {}" if "j < mi_msgmni mi" for j
  proof -
    have "set fl \<inter> set (qs j) = {}" using assms(1) that by (simp add: hdrs_split_def)
    moreover have "m \<notin> set ((qs(i := as @ bs)) j)"
      using other[OF that] assms(3,4) by (cases "j = i") auto
    ultimately show ?thesis using sub[of j] by auto
  qed
  moreover have "set (m # fl) \<union> queued mi (qs(i := as @ bs)) = {..<mi_msgtql mi}"
    using assms(1) m unfolding q by (auto simp: hdrs_split_def)
  moreover have "set ((qs(i := as @ bs)) j) \<inter> set ((qs(i := as @ bs)) k) = {}"
    if "j < mi_msgmni mi" "k < mi_msgmni mi" "j \<noteq> k" for j k
    using sub[of j] sub[of k] assms(1) that unfolding hdrs_split_def by blast
  ultimately show "hdrs_split mi (m # fl) (qs(i := as @ bs))"
    unfolding hdrs_split_def by blast
qed



lemma us16_dec: "us16 (us16 x - 1) = us16 (x - 1)"
  by (simp add: us16_def mod_simps)

lemma us16_inc: "us16 (us16 x + 1) = us16 (1 + x)"
  by (simp add: us16_def mod_simps add.commute)

lemma allocated_set_mode_simps [simp]:
  "allocated (msg_perm (set_mode (\<lambda>md. md AND NOT MSG_WWAIT) q)) = allocated (msg_perm q)"
  "allocated (msg_perm (set_mode (\<lambda>md. md AND NOT MSG_RWAIT) q)) = allocated (msg_perm q)"
  "allocated (msg_perm (set_mode (\<lambda>md. md OR MSG_WWAIT) q)) = allocated (msg_perm q)"
  "allocated (msg_perm (set_mode (\<lambda>md. md OR MSG_RWAIT) q)) = allocated (msg_perm q)"
  by (simp_all add: alloc_bit bit_simps)

lemma mode_keeps_alloc [simp]:
  fixes x :: u16
  shows "(x AND - 1025) AND 32768 = x AND 32768" "(x AND - 513) AND 32768 = x AND 32768"
    "(x OR 1024) AND 32768 = x AND 32768" "(x OR 512) AND 32768 = x AND 32768"
  by (simp_all add: and.assoc bit.conj_disj_distrib2)

lemma msg_unlink_frame:
  "same_msgs s (msg_unlink i pmp m s)" "msgfp (msg_unlink i pmp m s) = msgfp s"
  "msgmap (msg_unlink i pmp m s) = msgmap s" "msgbuf (msg_unlink i pmp m s) = msgbuf s"
  "msglock (msg_unlink i pmp m s) = msglock s"
  "msg_cbytes (msgque (msg_unlink i pmp m s) j) = msg_cbytes (msgque s j)"
  "msg_qbytes (msgque (msg_unlink i pmp m s) j) = msg_qbytes (msgque s j)"
  "j \<noteq> i \<Longrightarrow> msgque (msg_unlink i pmp m s) j = msgque s j"
  "allocated (msg_perm (msgque (msg_unlink i pmp m s) j)) = allocated (msg_perm (msgque s j))"
  "ip_seq (msg_perm (msgque (msg_unlink i pmp m s) j)) = ip_seq (msg_perm (msgque s j))"
  "msg_qnum (msgque (msg_unlink i pmp m s) i) = us16 (msg_qnum (msgque s i) - 1)"
  "msg_first (msgque (msg_unlink i pmp m s) i) = (if pmp = None then nxt s m else msg_first (msgque s i))"
  "pmp \<noteq> Some m \<Longrightarrow> msg_last (msgque (msg_unlink i pmp m s) i) =
     (if nxt s m = None then pmp else msg_last (msgque s i))"
  "nxt (msg_unlink i pmp m s) = (case pmp of None \<Rightarrow> nxt s | Some p \<Rightarrow> (nxt s)(p := nxt s m))"
  by (auto simp: msg_unlink_def Let_def same_msgs_def nxt_def fun_eq_iff split: option.splits)

lemma msg_unlink_queues:
  assumes inv: "msg_struct mi s fl qs" and i: "i < mi_msgmni mi"
    and q: "qs i = as @ m # bs" and pmp: "pmp = (if as = [] then None else Some (last as))"
    and j: "j < mi_msgmni mi"
  shows "queue_ok (msg_unlink i pmp m s) j ((qs(i := as @ bs)) j)"
    "chain (nxt (msg_unlink i pmp m s)) (msgfp s) fl" 
proof -
  have qi: "queue_ok s i (as @ m # bs)" and sp: "hdrs_split mi fl qs"
    using inv i by (auto simp: msg_struct_def simp flip: q)
  have ch: "chain (nxt s) (msg_first (msgque s i)) (as @ m # bs)" using qi by (simp add: queue_ok_def)
  have dist: "distinct (as @ m # bs)" using chain_distinct[OF ch] .
  have nm: "nxt s m = (if bs = [] then None else Some (hd bs))"
    using ch by (auto simp: chain_simps neq_Nil_conv)
  have pm: "pmp \<noteq> Some m" using dist pmp by auto
  have frame: "chain (nxt (msg_unlink i pmp m s)) p xs = chain (nxt s) p xs"
    if "set xs \<inter> set (qs i) = {}" for p xs
    
  proof (cases "as = []")
    case False
    then have "last as \<notin> set xs" using that q by auto
    with False show ?thesis using pmp by (simp add: msg_unlink_frame lseg_frame)
  qed (use pmp in \<open>simp add: msg_unlink_frame\<close>)
  show "chain (nxt (msg_unlink i pmp m s)) (msgfp s) fl"
    using frame[of fl] sp i inv by (simp add: msg_struct_def hdrs_split_def)
  show "queue_ok (msg_unlink i pmp m s) j ((qs(i := as @ bs)) j)"
  proof (cases "j = i")
    case False
    then have "set (qs j) \<inter> set (qs i) = {}" using sp i j by (simp add: hdrs_split_def)
    with False frame inv j show ?thesis by (simp add: queue_ok_def msg_unlink_frame msg_struct_def)
  next
    case True
    have "chain (nxt (msg_unlink i pmp m s)) (msg_first (msgque (msg_unlink i pmp m s) i)) (as @ bs)"
      using ch chain_remove[OF ch] pmp by (auto simp: msg_unlink_frame)
    moreover have "msg_last (msgque (msg_unlink i pmp m s) i) = (if nxt s m = None then pmp else msg_last (msgque s i))"
      using pm by (rule msg_unlink_frame)
    ultimately show ?thesis using True qi
      by (simp add: queue_ok_def msg_unlink_frame us16_dec nm) (auto simp: pmp)
  qed
qed

lemma msg_freehdr_simps [simp]:
  "msgque (msg_freehdr m s) = msgque s" "msgfp (msg_freehdr m s) = Some m"
  "msgmap (msg_freehdr m s) = msgmap s" "msgbuf (msg_freehdr m s) = msgbuf s"
  "msglock (msg_freehdr m s) = msglock s" "same_msgs s (msg_freehdr m s)"
  "nxt (msg_freehdr m s) = (nxt s)(m := msgfp s)"
  by (auto simp: msg_freehdr_def Let_def same_msgs_def nxt_def fun_eq_iff)

lemma same_msgs_trans: "same_msgs s s' \<Longrightarrow> same_msgs s' s'' \<Longrightarrow> same_msgs s s''"
  by (simp add: same_msgs_def)

text \<open>Once message \<open>m\<close> is unlinked and its text released, the header joins the free list.\<close>

lemma msg_freehdr_struct:
  assumes ch: "chain (nxt s) (msgfp s) fl" and q: "\<And>j. j < mi_msgmni mi \<Longrightarrow> queue_ok s j (qs j)"
    and sp: "hdrs_split mi (m # fl) qs" and m: "m \<notin> set fl"
    and h: "\<forall>m\<in>queued mi qs. hdr_ok mi (msgh s m)"
    and held: "rm.held (msgmap s) (with_text s (queued mi qs)) (\<lambda>m. text_blk mi (msgh s m))"
    and units: "map_units (msgmap s) \<subseteq> {1..mi_msgseg mi}"
  shows "msg_struct mi (msg_freehdr m s) (m # fl) qs"
proof -
  have "queue_ok (msg_freehdr m s) j (qs j)" if "j < mi_msgmni mi" for j
    using q[OF that] sp that by (auto simp: queue_ok_def hdrs_split_def lseg_frame)
  moreover have fr: "same_msgs s (msg_freehdr m s)" by simp
  note fr' = same_msgs_hdr_ok[OF fr] same_msgs_blk[OF fr] same_msgs_with_text[OF fr]
  ultimately show ?thesis using assms by (simp add: msg_struct_def lseg_frame fr')
qed

lemma msgfree_ok:
  assumes mi: "msginfo_ok mi" and inv: "msg_struct mi s fl qs" and i: "i < mi_msgmni mi"
    and q: "qs i = as @ m # bs" and pmp: "pmp = (if as = [] then None else Some (last as))"
  obtains s' where "msgfree mi i pmp m s = Some s'"
    "msg_struct mi s' (m # fl) (qs(i := as @ bs))" "same_msgs s s'" "msgbuf s' = msgbuf s"
    "\<And>j. msg_cbytes (msgque s' j) = msg_cbytes (msgque s j)"
    "\<And>j. j \<noteq> i \<Longrightarrow> msgque s' j = msgque s j"
    "\<And>j. allocated (msg_perm (msgque s' j)) = allocated (msg_perm (msgque s j))"
    "\<And>j. ip_seq (msg_perm (msgque s' j)) = ip_seq (msg_perm (msgque s j))" "msglock s' = msglock s"
proof -
  let ?s2 = "msg_unlink i pmp m s" and ?qs = "qs(i := as @ bs)"
  note un = msg_unlink_queues[OF inv i q pmp]
  have qi: "queue_ok s i (as @ m # bs)" and sp: "hdrs_split mi fl qs"
    using inv i by (auto simp: msg_struct_def simp flip: q)
  then have dist: "distinct (qs i)" using chain_distinct q by (metis queue_ok_def)
  note rem = queued_remove[OF sp i q dist]
  have mfl: "m \<notin> set fl" using sp i q by (auto simp: hdrs_split_def)
  have h: "\<forall>m\<in>queued mi qs. hdr_ok mi (msgh s m)" and
    held: "rm.held (msgmap s) (with_text s (queued mi qs)) (\<lambda>m. text_blk mi (msgh s m))" and
    units: "map_units (msgmap s) \<subseteq> {1..mi_msgseg mi}"
    using inv by (auto simp: msg_struct_def)
  have core: "same_msgs s s3 \<Longrightarrow> msgque s3 = msgque ?s2 \<Longrightarrow> nxt s3 = nxt ?s2 \<Longrightarrow> msgfp s3 = msgfp s \<Longrightarrow>
      rm.held (msgmap s3) (with_text s (queued mi ?qs)) (\<lambda>m. text_blk mi (msgh s m)) \<Longrightarrow>
      map_units (msgmap s3) \<subseteq> {1..mi_msgseg mi} \<Longrightarrow>
      msg_struct mi (msg_freehdr m s3) (m # fl) ?qs" for s3
    using un h rem i mfl
    by (intro msg_freehdr_struct) (auto simp: queue_ok_def)
  have fr: "same_msgs s ?s2" by (rule msg_unlink_frame)
  note fr' = same_msgs_hdr_ok[OF fr] same_msgs_blk[OF fr] same_msgs_with_text[OF fr]
  show ?thesis
  proof (cases "msg_ts (msgh ?s2 m) = 0")
    case True
    then have "msg_ts (msgh s m) = 0" using fr by (simp add: same_msgs_def)
    then have "with_text s (queued mi ?qs) = with_text s (queued mi qs)"
      unfolding rem(1) by (auto simp: with_text_def)
    then have "msg_struct mi (msg_freehdr m ?s2) (m # fl) ?qs"
      using core[of ?s2] held units fr by (simp add: msg_unlink_frame)
    moreover have "same_msgs s (msg_freehdr m ?s2)" by (rule same_msgs_trans[OF fr]) simp
    ultimately show ?thesis using True
      by (intro that[of "msg_freehdr m ?s2"]) (simp_all add: msgfree_def Let_def msg_unlink_frame)
  next
    case False
    then have ts: "msg_ts (msgh s m) \<noteq> 0" and e: "msg_ts (msgh ?s2 m) = msg_ts (msgh s m)"
      using fr by (simp_all add: same_msgs_def)
    have hm: "hdr_ok mi (msgh ?s2 m)" using h rem(3) by (simp add: fr')
    have held2: "rm.held (msgmap ?s2) (with_text ?s2 (queued mi qs)) (\<lambda>m. text_blk mi (msgh ?s2 m))"
      "map_units (msgmap ?s2) \<subseteq> {1..mi_msgseg mi}"
      using held units by (simp_all add: msg_unlink_frame fr')
    obtain s3 mp where s3: "msg_freemap (btoq mi (msg_ts (msgh ?s2 m))) (msg_spot (msgh ?s2 m) + 1) ?s2 = Some s3"
      "s3 = ?s2\<lparr>msgmap := mp\<rparr> \<or> s3 = mwakeup ChMap (?s2\<lparr>msgmap := mp\<rparr>)"
      "rm.held mp (with_text ?s2 (queued mi qs - {m})) (\<lambda>m. text_blk mi (msgh ?s2 m))"
      "map_units mp \<subseteq> {1..mi_msgseg mi}"
      using msg_freemap_ok[OF mi hm False held2(1) rem(3) held2(2)] by blast
    have fr3: "same_msgs s s3" "msgque s3 = msgque ?s2" "nxt s3 = nxt ?s2" "msgfp s3 = msgfp s"
      "msgmap s3 = mp" "msgbuf s3 = msgbuf s" "msglock s3 = msglock s"
      using s3(2) fr by (auto simp: same_msgs_def msg_unlink_frame)
    have "msg_struct mi (msg_freehdr m s3) (m # fl) ?qs"
      using s3(3,4) by (intro core fr3(1-4)) (simp_all add: fr3(5) rem(1) fr')
    moreover have "same_msgs s (msg_freehdr m s3)" by (rule same_msgs_trans[OF fr3(1)]) simp
    ultimately show ?thesis using False s3(1) fr3
      by (intro that[of "msg_freehdr m s3"])
        (simp_all add: msgfree_def Let_def msg_unlink_frame)
  qed
qed

section \<open>Removing a queue\<close>

text \<open>What a change of queue \<open>i\<close> leaves alone.\<close>

definition only_queue :: "nat \<Rightarrow> mstate \<Rightarrow> mstate \<Rightarrow> bool" where
  "only_queue i s s' \<longleftrightarrow> same_msgs s s' \<and> msgbuf s' = msgbuf s \<and> msglock s' = msglock s \<and>
     (\<forall>j. j \<noteq> i \<longrightarrow> msgque s' j = msgque s j) \<and>
     allocated (msg_perm (msgque s' i)) = allocated (msg_perm (msgque s i)) \<and>
     ip_seq (msg_perm (msgque s' i)) = ip_seq (msg_perm (msgque s i))"

lemma only_queue_refl: "only_queue i s s"
  by (simp add: only_queue_def same_msgs_def)

lemma only_queue_trans: "only_queue i s s' \<Longrightarrow> only_queue i s' s'' \<Longrightarrow> only_queue i s s''"
  by (simp add: only_queue_def same_msgs_def)

lemma msgfree_only_queue:
  assumes "msginfo_ok mi" "msg_struct mi s fl qs" "i < mi_msgmni mi"
    and "qs i = as @ m # bs" "pmp = (if as = [] then None else Some (last as))"
  obtains s' where "msgfree mi i pmp m s = Some s'" "msg_struct mi s' (m # fl) (qs(i := as @ bs))"
    "only_queue i s s'" "msg_cbytes (msgque s' i) = msg_cbytes (msgque s i)"
  by (rule msgfree_ok[OF assms]) (use that in \<open>simp add: only_queue_def\<close>)

lemma msg_purge_ok:
  assumes mi: "msginfo_ok mi" and i: "i < mi_msgmni mi"
  shows "msg_struct mi s fl qs \<Longrightarrow> qs i = xs \<Longrightarrow>
    \<exists>s' fl'. msg_purge mi i s = Some s' \<and> msg_struct mi s' fl' (qs(i := [])) \<and> only_queue i s s'"
proof (induction xs arbitrary: s fl qs)
  case Nil
  then have "queue_ok s i []" using i by (metis msg_struct_def)
  then have "chain (nxt s) (msg_first (msgque s i)) []" unfolding queue_ok_def by blast
  then have "msg_purge mi i s = Some s" by (subst msg_purge.simps) simp
  moreover have "qs(i := []) = qs" using Nil.prems(2) by auto
  ultimately show ?case using Nil.prems only_queue_refl by auto
next
  case (Cons m xs)
  then have "queue_ok s i (m # xs)" using i by (metis msg_struct_def)
  then have "chain (nxt s) (msg_first (msgque s i)) (m # xs)" unfolding queue_ok_def by blast
  then have f: "msg_first (msgque s i) = Some m" by simp
  obtain s1 where s1: "msgfree mi i None m s = Some s1" "msg_struct mi s1 (m # fl) (qs(i := [] @ xs))"
    "only_queue i s s1"
    using msgfree_only_queue[OF mi Cons.prems(1) i, of "[]" m xs] Cons.prems(2) by auto
  have "(qs(i := [] @ xs)) i = xs" by simp
  from Cons.IH[OF s1(2) this] obtain s2 fl' where s2: "msg_purge mi i s1 = Some s2"
    "msg_struct mi s2 fl' (qs(i := []))" "only_queue i s1 s2" by (auto simp del: fun_upd_apply)
  have "msg_purge mi i s = Some s2" by (subst msg_purge.simps) (simp add: f s1(1) s2(1))
  with s2 s1(3) show ?case using only_queue_trans by blast
qed

lemma sum_ts_same: "same_msgs s s' \<Longrightarrow> (\<Sum>m\<leftarrow>xs. msg_ts (msgh s' m)) = (\<Sum>m\<leftarrow>xs. msg_ts (msgh s m))"
  by (simp add: same_msgs_def)

text \<open>A change of one queue's structure that keeps its chain.\<close>

lemma msg_struct_set_queue:
  assumes "msg_struct mi s fl qs" "i < mi_msgmni mi" "queue_ok (set_queue i q s) i (qs i)"
  shows "msg_struct mi (set_queue i q s) fl qs"
proof (rule msg_struct_cong[OF _ _ _ refl refl _ _ assms(1)])
  show "queue_ok (set_queue i q s) j (qs j)" if "j < mi_msgmni mi" for j
    using assms that by (cases "j = i") (auto simp: msg_struct_def queue_ok_def)
qed auto

lemma msg_rmid_ok:
  assumes mi: "msginfo_ok mi" and i: "i < mi_msgmni mi" and inv: "msg_inv mi s"
  obtains s' where "msg_rmid mi ident i s = Some s'" "msg_inv mi s'"
    "ip_mode (msg_perm (msgque s' i)) = 0" "msg_first (msgque s' i) = None"
    "ip_seq (msg_perm (msgque s' i)) =
       (if s32 (ident + int (mi_msgmni mi)) < 0 then 0 else ip_seq (msg_perm (msgque s i)) + 1)"
    "same_msgs s s'" "msgbuf s' = msgbuf s" "msglock s' = msglock s"
    "\<exists>fl qs fl'. msg_struct mi s fl qs \<and> msg_struct mi s' fl' (qs(i := []))"
proof -
  obtain fl qs where st: "msg_struct mi s fl qs" and bt: "bytes_ok mi s qs"
    using inv by (auto simp: msg_inv_def)
  from msg_purge_ok[OF mi i st refl] obtain s1 fl' where s1: "msg_purge mi i s = Some s1"
    "msg_struct mi s1 fl' (qs(i := []))" "only_queue i s s1" by blast
  define s2 where "s2 = (if ip_mode (msg_perm (msgque s1 i)) AND MSG_RWAIT \<noteq> 0 then mwakeup (ChQnum i) s1 else s1)"
  define s3 where "s3 = (if ip_mode (msg_perm (msgque s1 i)) AND MSG_WWAIT \<noteq> 0 then mwakeup (ChQp i) s2 else s2)"
  have core: "same_core s1 s3" by (rule same_coreI) (simp_all add: s3_def s2_def)
  have e: "msgque s3 = msgque s1" "msgbuf s3 = msgbuf s1" "msgh s3 = msgh s1" "msglock s3 = msglock s1"
    by (simp_all add: s3_def s2_def)
  let ?q = "(msgque s1 i)\<lparr>msg_cbytes := 0, msg_perm := (msg_perm (msgque s1 i))
     \<lparr>ip_seq := (if s32 (ident + int (mi_msgmni mi)) < 0 then 0 else ip_seq (msg_perm (msgque s1 i)) + 1),
      ip_mode := 0\<rparr>\<rparr>"
  have r: "msg_rmid mi ident i s = Some (set_queue i ?q s3)"
    by (simp add: msg_rmid_def s1(1) s3_def s2_def Let_def)
  have st3: "msg_struct mi s3 fl' (qs(i := []))" by (rule msg_struct_same[OF core s1(2)])
  then have q3: "queue_ok s3 i []" using i by (auto simp: msg_struct_def)
  then have "queue_ok (set_queue i ?q s3) i ((qs(i := [])) i)"
    by (simp add: queue_ok_def e(1))
  with st3 i have "msg_struct mi (set_queue i ?q s3) fl' (qs(i := []))"
    by (intro msg_struct_set_queue)
  moreover have "bytes_ok mi (set_queue i ?q s3) (qs(i := []))"
    using bt s1(3) sum_ts_same by (auto simp: bytes_ok_def only_queue_def e)
  ultimately have "msg_inv mi (set_queue i ?q s3)" unfolding msg_inv_def by blast
  moreover have "\<exists>fl qs fl'. msg_struct mi s fl qs \<and> msg_struct mi (set_queue i ?q s3) fl' (qs(i := []))"
    using st \<open>msg_struct mi (set_queue i ?q s3) fl' (qs(i := []))\<close> by blast
  ultimately show ?thesis using r q3 s1(3)
    by (intro that[of "set_queue i ?q s3"]) (auto simp: only_queue_def e queue_ok_def same_msgs_def)
qed

section \<open>Locks, msgctl, msgget\<close>

lemma msgconv_cases:
  assumes "0 < mi_msgmni mi" "msgconv mi ident s = (r, s')"
  obtains (err) "r = ConvErr EINVAL" "same_core s s'" "msgbuf s' = msgbuf s" "msgque s' = msgque s"
      "ident < 0 \<or> \<not> ipc_seq_ok (mi_msgmni mi) ident (msg_perm (msgque s (ipc_slot (mi_msgmni mi) ident)))"
  | (sleep) i where "r = ConvSleep i" "s' = s" "msglock s i" "i = ipc_slot (mi_msgmni mi) ident" 
  | (ok) i where "r = ConvOk i" "i < mi_msgmni mi" "s' = s\<lparr>msglock := (msglock s)(i := True)\<rparr>"
      "\<not> msglock s i" "same_core s s'" "i = ipc_slot (mi_msgmni mi) ident" "0 \<le> ident"
      "ipc_seq_ok (mi_msgmni mi) ident (msg_perm (msgque s i))"
proof -
  have "same_core s (msg_unlock i (s\<lparr>msglock := l\<rparr>))" "same_core s (s\<lparr>msglock := l\<rparr>)" for i l
    by (rule same_coreI; simp)+
  moreover have "same_core s s" by (rule same_coreI) simp_all
  ultimately show ?thesis using assms ipc_slot_less[OF assms(1), of ident]
    by (auto simp: msgconv_def Let_def split: if_splits intro: err sleep ok)
qed

lemma same_core_unlock: "same_core s (msg_unlock i s)"
  by (rule same_coreI) simp_all

lemma msg_inv_unlock [simp]: "msg_inv mi s \<Longrightarrow> msg_inv mi (msg_unlock i s)"
  by (rule msg_inv_same[OF same_core_unlock])

lemma msg_inv_set_queue:
  assumes "msg_inv mi s" "same_queue (msgque s i) q"
  shows "msg_inv mi (set_queue i q s)"
  by (rule msg_inv_same[OF _ assms(1)], rule same_coreI) (use assms(2) in auto)

definition ds_ok :: "msqid_ds option \<Rightarrow> bool" where
  "ds_ok ds \<longleftrightarrow> (\<forall>d. ds = Some d \<longrightarrow> 0 \<le> msg_qbytes d \<and> msg_qbytes d < 65536)"

lemma msg_ipcset_same:
  assumes "msg_ipcset u now d q = Inr q'" "ds_ok (Some d)"
  shows "same_queue q q'"
proof -
  have "bit (x AND NOT 0x1FF OR (y AND 0x1FF)) 15 = bit (x :: u16) 15" for x y
    by (simp add: bit_simps)
  then show ?thesis using assms
    by (auto simp: msg_ipcset_def Let_def same_queue_def ds_ok_def alloc_bit split: if_splits)
qed

lemma msgctl_cmd_ok:
  assumes mi: "msginfo_ok mi" and inv: "msg_inv mi s" and ds: "ds_ok ds" and i: "i < mi_msgmni mi"
  obtains r s' where "msgctl_cmd mi u now ident cmd ds outok i s = Some (r, s')" "msg_inv mi s'"
proof -
  obtain s2 where "msg_rmid mi ident i s = Some s2" "msg_inv mi s2"
    using msg_rmid_ok[OF mi i inv] by blast
  moreover have "msg_inv mi (set_queue i q' s)" if "ds = Some d" "msg_ipcset u now d (msgque s i) = Inr q'" for d q'
    using msg_ipcset_same[OF that(2)] ds that(1) inv by (intro msg_inv_set_queue) simp_all
  ultimately have "\<exists>r s'. msgctl_cmd mi u now ident cmd ds outok i s = Some (r, s') \<and> msg_inv mi s'"
    using inv by (simp add: msgctl_cmd_def Let_def split: option.splits sum.splits)
  with that show ?thesis by blast
qed

lemma msgctl_ok:
  assumes mi: "msginfo_ok mi" and inv: "msg_inv mi s" and ds: "ds_ok ds"
  obtains r s' where "msgctl mi u now ident cmd ds outok s = Some (r, s')" "msg_inv mi s'"
proof (cases "msgconv mi ident s")
  case (Pair c s1)
  have mni: "0 < mi_msgmni mi" using mi by (simp add: msginfo_ok_def)
  from mni Pair show ?thesis
  proof (cases rule: msgconv_cases)
    case err
    then show ?thesis using that msg_inv_same[OF err(2) inv] Pair by (simp add: msgctl_def)
  next
    case (sleep i)
    then show ?thesis using that inv Pair by (simp add: msgctl_def)
  next
    case (ok i)
    have inv1: "msg_inv mi s1" using msg_inv_same ok(5) inv by blast
    obtain r s2 where "msgctl_cmd mi u now ident cmd ds outok i s1 = Some (r, s2)" "msg_inv mi s2"
      using msgctl_cmd_ok[OF mi inv1 ds ok(2)] by blast
    with ok(1) Pair that show ?thesis by (simp add: msgctl_def)
  qed
qed

lemma msgget_ok:
  assumes mi: "msginfo_ok mi" and inv: "msg_inv mi s" and g: "msgget mi u now key flag s = (r, s')"
  shows "msg_inv mi s'"
proof -
  let ?ps = "map (\<lambda>i. msg_perm (msgque s i)) [0..<mi_msgmni mi]"
  show ?thesis
  proof (cases "ipcget u key flag ?ps")
    case (Inl e)
    then show ?thesis using g inv by (simp add: msgget_def)
  next
    case (Inr z)
    then obtain i new p where z: "ipcget u key flag ?ps = Inr (i, new, p)" by (cases z) auto
    then show ?thesis
    proof (cases rule: ipcget_cases)
      case old
      then have "s' = set_queue i ((msgque s i)\<lparr>msg_perm := p\<rparr>) s" "p = msg_perm (msgque s i)"
        using g z by (auto simp: msgget_def Let_def)
      then have "s' = set_queue i (msgque s i) s" by simp
      then show ?thesis using msg_inv_set_queue[OF inv, of i "msgque s i"] by simp
    next
      case new
      let ?q = "(msgque s i)\<lparr>msg_perm := p, msg_first := None, msg_last := None, msg_qnum := 0,
          msg_qbytes := us16 (mi_msgmnb mi), msg_lspid := 0, msg_lrpid := 0,
          msg_stime := 0, msg_rtime := 0, msg_ctime := now\<rparr>"
      have s': "s' = set_queue i ?q s" using g z new(1) by (simp add: msgget_def Let_def)
      obtain fl qs where st: "msg_struct mi s fl qs" and bt: "bytes_ok mi s qs"
        using inv by (auto simp: msg_inv_def)
      have i: "i < mi_msgmni mi" using new(2) by simp
      then have "queue_ok s i (qs i)" using st by (simp add: msg_struct_def)
      then have "qs i = []" using new(3) i by (simp add: queue_ok_def)
      then have "queue_ok (set_queue i ?q s) i (qs i)" 
        using us16_range[of "mi_msgmnb mi"] by (simp add: queue_ok_def)
      from msg_struct_set_queue[OF st i this] have "msg_struct mi s' fl qs" by (simp add: s')
      moreover have "bytes_ok mi s' qs" using bt by (simp add: bytes_ok_def s') metis
      ultimately show ?thesis unfolding msg_inv_def by blast
    qed
  qed
qed

section \<open>Selecting a message\<close>

text \<open>The position \<^verbatim>\<open>msgrcv\<close> takes: the first message, the first of the type, or for a
  negative type the first among those of the least type not above its magnitude.\<close>

fun least_type :: "int \<Rightarrow> nat \<Rightarrow> (nat \<times> int) option \<Rightarrow> int list \<Rightarrow> (nat \<times> int) option" where
  "least_type lim n best [] = best"
| "least_type lim n best (t # ts) =
     least_type lim (Suc n)
       (if t \<le> lim \<and> (case best of None \<Rightarrow> True | Some (_, b) \<Rightarrow> t < b) then Some (n, t) else best) ts"

fun first_type :: "int \<Rightarrow> nat \<Rightarrow> int list \<Rightarrow> nat option" where
  "first_type t n [] = None"
| "first_type t n (x # xs) = (if x = t then Some n else first_type t (Suc n) xs)"

definition pick :: "int \<Rightarrow> int list \<Rightarrow> nat option" where
  "pick typ ts =
     (if typ = 0 then (if ts = [] then None else Some 0)
      else if typ > 0 then first_type typ 0 ts
      else map_option fst (least_type (s32 (- typ)) 0 None ts))"

abbreviation prev_ptr :: "nat list \<Rightarrow> nat \<Rightarrow> ptr" where
  "prev_ptr xs n \<equiv> (if n = 0 then None else Some (xs ! (n - 1)))"

lemma rcv_scan_first:
  assumes "chain nx p ys" "\<And>m. msg_next (H m) = nx m" "0 < typ" "xs = zs @ ys"
  shows "rcv_scan H typ (prev_ptr xs (length zs)) p None None =
    Some (case first_type typ (length zs) (map (\<lambda>m. msg_type (H m)) ys) of
            None \<Rightarrow> (None, None) | Some k \<Rightarrow> (Some (xs ! k), prev_ptr xs k))"
  using assms(1,4)
proof (induction ys arbitrary: p zs)
  case Nil
  then show ?case by (subst rcv_scan.simps) simp
next
  case (Cons y ys)
  have p: "p = Some y" "chain nx (nx y) ys" using Cons.prems by auto
  have e: "xs = (zs @ [y]) @ ys" using Cons.prems(2) by simp
  have n: "prev_ptr xs (length (zs @ [y])) = Some y" by (simp add: e nth_append)
  have y: "xs ! length zs = y" by (simp add: e nth_append)
  show ?case using Cons.IH[OF p(2) e] assms(2,3) unfolding n
    by (subst rcv_scan.simps) (simp add: p(1) y)
qed

lemma rcv_scan_least:
  assumes "chain nx p ys" "\<And>m. msg_next (H m) = nx m" "typ < 0" "xs = zs @ ys"
    and "\<And>k t. best = Some (k, t) \<Longrightarrow> k < length zs \<and> t = msg_type (H (xs ! k))"
  shows "rcv_scan H typ (prev_ptr xs (length zs)) p
      (map_option (\<lambda>(k, t). xs ! k) best) (case best of None \<Rightarrow> None | Some (k, t) \<Rightarrow> prev_ptr xs k) =
    Some (case least_type (s32 (- typ)) (length zs) best (map (\<lambda>m. msg_type (H m)) ys) of
            None \<Rightarrow> (None, None) | Some (k, t) \<Rightarrow> (Some (xs ! k), prev_ptr xs k))"
  using assms(1,4,5)
proof (induction ys arbitrary: p zs best)
  case Nil
  then show ?case by (subst rcv_scan.simps) (auto split: option.splits)
next
  case (Cons y ys)
  have p: "p = Some y" "chain nx (nx y) ys" using Cons.prems by auto
  have e: "xs = (zs @ [y]) @ ys" using Cons.prems(2) by simp
  have n: "prev_ptr xs (length (zs @ [y])) = Some y" by (simp add: e nth_append)
  have y: "xs ! length zs = y" by (simp add: e nth_append)
  let ?take = "msg_type (H y) \<le> s32 (- typ) \<and> (case best of None \<Rightarrow> True | Some (_, b) \<Rightarrow> msg_type (H y) < b)"
  let ?b = "if ?take then Some (length zs, msg_type (H y)) else best"
  have b: "?b = Some (k, t) \<Longrightarrow> k < length (zs @ [y]) \<and> t = msg_type (H (xs ! k))" for k t
    using Cons.prems(3)[of k t] y by (auto split: if_splits)
  have ih: "rcv_scan H typ (Some y) (nx y)
      (map_option (\<lambda>(k, t). xs ! k) ?b) (case ?b of None \<Rightarrow> None | Some (k, t) \<Rightarrow> prev_ptr xs k) =
    Some (case least_type (s32 (- typ)) (Suc (length zs)) ?b (map (\<lambda>m. msg_type (H m)) ys) of
            None \<Rightarrow> (None, None) | Some (k, t) \<Rightarrow> (Some (xs ! k), prev_ptr xs k))"
    using Cons.IH[OF p(2) e, of ?b, unfolded n] b by simp
  show ?case
  proof (cases ?take)
    case True
    with ih have r: "rcv_scan H typ (Some y) (nx y) (Some y) (prev_ptr xs (length zs)) =
      Some (case least_type (s32 (- typ)) (Suc (length zs)) ?b (map (\<lambda>m. msg_type (H m)) ys) of
            None \<Rightarrow> (None, None) | Some (k, t) \<Rightarrow> (Some (xs ! k), prev_ptr xs k))" by (simp add: y)
    have "\<not> (case map_option (\<lambda>(k, t). xs ! k) best of None \<Rightarrow> False | Some b \<Rightarrow> msg_type (H b) \<le> msg_type (H y))"
      using True Cons.prems(3) by (auto split: option.splits)
    with True r assms(2,3) show ?thesis by (subst rcv_scan.simps) (simp add: p(1))
  next
    case False
    then have "\<not> msg_type (H y) \<le> s32 (- typ) \<or>
      (case map_option (\<lambda>(k, t). xs ! k) best of None \<Rightarrow> False | Some b \<Rightarrow> msg_type (H b) \<le> msg_type (H y))"
      using Cons.prems(3) by (auto split: option.splits)
    with False ih assms(2,3) show ?thesis by (subst rcv_scan.simps) (auto simp: p(1))
  qed
qed

lemma pick_scan:
  assumes "chain nx p xs" "\<And>m. msg_next (H m) = nx m"
  shows "(if typ = 0 then Some (p, None) else rcv_scan H typ None p None None) =
    Some (case pick typ (map (\<lambda>m. msg_type (H m)) xs) of
            None \<Rightarrow> (None, None) | Some k \<Rightarrow> (Some (xs ! k), prev_ptr xs k))"
proof -
  consider "typ = 0" | "typ > 0" | "typ < 0" by linarith
  then show ?thesis
  proof cases
    case 1
    then show ?thesis using assms(1) by (cases xs) (auto simp: pick_def)
  next
    case 2
    then show ?thesis using rcv_scan_first[OF assms(1,2) 2, of xs "[]"] by (simp add: pick_def)
  next
    case 3
    then show ?thesis using rcv_scan_least[OF assms(1,2) 3, of xs "[]" None]
      by (auto simp: pick_def split: option.splits)
  qed
qed

section \<open>The queues as lists of messages\<close>

fun walk :: "nat \<Rightarrow> (nat \<Rightarrow> ptr) \<Rightarrow> ptr \<Rightarrow> nat list" where
  "walk 0 nx p = []"
| "walk (Suc n) nx None = []"
| "walk (Suc n) nx (Some m) = m # walk n nx (nx m)"

lemma walk_chain: "chain nx p xs \<Longrightarrow> length xs \<le> n \<Longrightarrow> walk n nx p = xs"
proof (induction n arbitrary: p xs)
  case (Suc n)
  then show ?case by (cases xs) auto
qed simp

definition msg_of :: "msginfo \<Rightarrow> mstate \<Rightarrow> nat \<Rightarrow> int \<times> u8 list" where
  "msg_of mi s m = (msg_type (msgh s m),
     get_bytes (msgbuf s) (nat (int (mi_msgssz mi) * msg_spot (msgh s m))) (nat (msg_ts (msgh s m))))"

definition queue_msgs :: "msginfo \<Rightarrow> mstate \<Rightarrow> nat \<Rightarrow> (int \<times> u8 list) list" where
  "queue_msgs mi s i = map (msg_of mi s) (walk (mi_msgtql mi) (nxt s) (msg_first (msgque s i)))"

lemma queue_msgs_struct:
  assumes st: "msg_struct mi s fl qs" and i: "i < mi_msgmni mi"
  shows "queue_msgs mi s i = map (msg_of mi s) (qs i)"
proof -
  have ch: "chain (nxt s) (msg_first (msgque s i)) (qs i)"
    using st i by (auto simp: msg_struct_def queue_ok_def)
  have "set (qs i) \<subseteq> {..<mi_msgtql mi}"
    using st i by (auto simp: msg_struct_def hdrs_split_def queued_def)
  then have "card (set (qs i)) \<le> mi_msgtql mi" using card_mono[of "{..<mi_msgtql mi}"] by simp
  then have "length (qs i) \<le> mi_msgtql mi" using distinct_card[OF chain_distinct[OF ch]] by simp
  with walk_chain[OF ch] show ?thesis by (simp add: queue_msgs_def)
qed

lemma same_msgs_msg_of: "same_msgs s s' \<Longrightarrow> msgbuf s' = msgbuf s \<Longrightarrow> msg_of mi s' = msg_of mi s"
  by (rule ext) (simp add: msg_of_def same_msgs_def)

lemma only_queue_msg_of: "only_queue i s s' \<Longrightarrow> msg_of mi s' = msg_of mi s"
  by (simp add: only_queue_def same_msgs_msg_of)

lemma length_get_bytes [simp]: "length (get_bytes f a n) = n"
  by (simp add: get_bytes_def)

lemma take_get_bytes: "n \<le> m \<Longrightarrow> take n (get_bytes f a m) = get_bytes f a n"
  by (simp add: get_bytes_def take_map)

lemma queue_msgs_same:
  assumes "same_core s s'" "msgbuf s' = msgbuf s"
  shows "queue_msgs mi s' i = queue_msgs mi s i"
proof -
  have "nxt s' = nxt s" "msg_first (msgque s' i) = msg_first (msgque s i)" "msg_of mi s' = msg_of mi s"
    using assms by (auto simp: same_core_def same_queue_def nxt_def[abs_def] msg_of_def[abs_def])
  then show ?thesis by (simp add: queue_msgs_def)
qed

section \<open>msgrcv\<close>

lemma nth_split: "k < length xs \<Longrightarrow> xs = take k xs @ xs ! k # drop (Suc k) xs"
  by (rule id_take_nth_drop)

lemma prev_ptr_take: "k < length xs \<Longrightarrow> prev_ptr xs k = (if take k xs = [] then None else Some (last (take k xs)))"
  by (cases k) (auto simp: take_Suc_conv_app_nth)

lemma msgrcv_take_ok:
  assumes mi: "msginfo_ok mi" and st: "msg_struct mi s fl qs" and bt: "bytes_ok mi s qs"
    and i: "i < mi_msgmni mi" and k: "k < length (qs i)"
  defines "m \<equiv> qs i ! k"
  obtains (err) e where "msgrcv_take mi u now a i m (prev_ptr (qs i) k) s = Some (MErr e, s)"
  | (taken) s' sz fl' where
      "msgrcv_take mi u now a i m (prev_ptr (qs i) k) s =
         Some (MRcv (fst (msg_of mi s m)) (take (nat sz) (snd (msg_of mi s m))), s')"
      "msg_struct mi s' fl' (qs(i := take k (qs i) @ drop (Suc k) (qs i)))"
      "bytes_ok mi s' (qs(i := take k (qs i) @ drop (Suc k) (qs i)))" "only_queue i s s'"
      "sz = (if ra_msgsz a < msg_ts (msgh s m) then ra_msgsz a else msg_ts (msgh s m))"
      "ra_msgsz a < msg_ts (msgh s m) \<longrightarrow> ra_msgflg a AND MSG_NOERROR \<noteq> 0"
proof -
  let ?h = "msgh s m"
  define sz where "sz = (if ra_msgsz a < msg_ts ?h then ra_msgsz a else msg_ts ?h)"
  let ?fail = "(ra_msgsz a < msg_ts ?h \<and> ra_msgflg a AND MSG_NOERROR = 0) \<or> \<not> ra_typeok a \<or>
      (sz \<noteq> 0 \<and> ra_room a < nat sz)"
  show ?thesis
  proof (cases ?fail)
    case True
    then have "msgrcv_take mi u now a i m (prev_ptr (qs i) k) s =
       Some (MErr (if ra_msgsz a < msg_ts ?h \<and> ra_msgflg a AND MSG_NOERROR = 0 then E2BIG else EFAULT), s)"
      by (auto simp: msgrcv_take_def Let_def sz_def)
    then show ?thesis by (rule err)
  next
    case False
    let ?q = "(msgque s i)\<lparr>msg_cbytes := us16 (msg_cbytes (msgque s i) - msg_ts ?h),
                           msg_lrpid := us16 (u_pid u), msg_rtime := now\<rparr>"
    let ?s1 = "set_queue i ?q (s\<lparr>curpri := PMSG\<rparr>)" and ?xs = "take k (qs i) @ drop (Suc k) (qs i)"
    have "msg_struct mi (s\<lparr>curpri := PMSG\<rparr>) fl qs"
      by (rule msg_struct_same[OF _ st], rule same_coreI) simp_all
    moreover have "queue_ok ?s1 i (qs i)" using st i by (simp add: msg_struct_def queue_ok_def)
    ultimately have st1: "msg_struct mi ?s1 fl qs" using i by (intro msg_struct_set_queue) simp_all
    have oq1: "only_queue i s ?s1" by (simp add: only_queue_def same_msgs_def)
    have spl: "qs i = take k (qs i) @ m # drop (Suc k) (qs i)"
      unfolding m_def by (rule nth_split[OF k])
    obtain s' where s': "msgfree mi i (prev_ptr (qs i) k) m ?s1 = Some s'"
      "msg_struct mi s' (m # fl) (qs(i := ?xs))" "only_queue i ?s1 s'"
      "msg_cbytes (msgque s' i) = msg_cbytes (msgque ?s1 i)"
      using msgfree_only_queue[OF mi st1 i spl prev_ptr_take[OF k]] by metis
    have oq: "only_queue i s s'" using oq1 s'(3) by (rule only_queue_trans)
    have nn: "0 \<le> msg_ts (msgh s x)" if "x \<in> set (qs i)" for x
      using st i that by (auto simp: msg_struct_def queued_def hdr_ok_def)
    have "0 \<le> (\<Sum>m\<leftarrow>?xs. msg_ts (msgh s m))" using nn
      by (intro sum_list_nonneg) (auto dest: in_set_takeD in_set_dropD)
    moreover have sum: "(\<Sum>m\<leftarrow>qs i. msg_ts (msgh s m)) = msg_ts ?h + (\<Sum>m\<leftarrow>?xs. msg_ts (msgh s m))"
      by (subst spl) simp
    moreover have "0 \<le> msg_ts ?h" using nn k by (simp add: m_def)
    moreover have cb: "msg_cbytes (msgque s i) = (\<Sum>m\<leftarrow>qs i. msg_ts (msgh s m))" "msg_cbytes (msgque s i) < 65536"
      using bt i by (auto simp: bytes_ok_def)
    ultimately have cb': "msg_cbytes (msgque s' i) = (\<Sum>m\<leftarrow>?xs. msg_ts (msgh s m))"
        "msg_cbytes (msgque s' i) < 65536"
      unfolding s'(4) by simp_all
    have "same_msgs s s'" "\<And>j. j \<noteq> i \<Longrightarrow> msgque s' j = msgque s j" using oq by (auto simp: only_queue_def)
    then have bt': "bytes_ok mi s' (qs(i := ?xs))"
      using bt cb' sum_ts_same[of s s'] by (auto simp: bytes_ok_def)
    have "nat sz \<le> nat (msg_ts ?h)" unfolding sz_def by (auto intro: nat_mono)
    then have "get_bytes (msgbuf s) (nat (int (mi_msgssz mi) * msg_spot ?h)) (nat sz) =
        take (nat sz) (snd (msg_of mi s m))"
      by (simp add: msg_of_def take_get_bytes)
    then have "msgrcv_take mi u now a i m (prev_ptr (qs i) k) s =
         Some (MRcv (fst (msg_of mi s m)) (take (nat sz) (snd (msg_of mi s m))), s')"
      using False s'(1) by (auto simp: msgrcv_take_def Let_def sz_def msg_of_def)
    from taken[OF this s'(2) bt' oq sz_def] False show ?thesis by auto
  qed
qed


text \<open>What a successful receive does to the queues.\<close>

definition received :: "msginfo \<Rightarrow> rcvargs \<Rightarrow> nat \<Rightarrow> int \<Rightarrow> u8 list \<Rightarrow> mstate \<Rightarrow> mstate \<Rightarrow> bool" where
  "received mi a i typ txt s s' \<longleftrightarrow> i < mi_msgmni mi \<and>
     (\<exists>k. let L = queue_msgs mi s i
          in pick (ra_msgtyp a) (map fst L) = Some k \<and> k < length L \<and> typ = fst (L ! k) \<and>
             txt = take (nat (ra_msgsz a)) (snd (L ! k)) \<and>
             (int (length (snd (L ! k))) \<le> ra_msgsz a \<or> ra_msgflg a AND MSG_NOERROR \<noteq> 0) \<and>
             queue_msgs mi s' i = take k L @ drop (Suc k) L) \<and>
     (\<forall>j<mi_msgmni mi. j \<noteq> i \<longrightarrow> queue_msgs mi s' j = queue_msgs mi s j)"

definition queues_kept :: "msginfo \<Rightarrow> mstate \<Rightarrow> mstate \<Rightarrow> bool" where
  "queues_kept mi s s' \<longleftrightarrow> (\<forall>j<mi_msgmni mi. queue_msgs mi s' j = queue_msgs mi s j)"

definition rcv_post :: "msginfo \<Rightarrow> rcvargs \<Rightarrow> nat \<Rightarrow> mstate \<Rightarrow> mres \<Rightarrow> mstate \<Rightarrow> bool" where
  "rcv_post mi a i s r s' \<longleftrightarrow> msg_inv mi s' \<and>
     (case r of MRcv typ txt \<Rightarrow> received mi a i typ txt s s' | _ \<Rightarrow> queues_kept mi s s')"

lemma queues_kept_same: "same_core s s' \<Longrightarrow> msgbuf s' = msgbuf s \<Longrightarrow> queues_kept mi s s'"
  by (simp add: queues_kept_def queue_msgs_same)

lemma queues_kept_trans: "queues_kept mi s s' \<Longrightarrow> queues_kept mi s' s'' \<Longrightarrow> queues_kept mi s s''"
  by (simp add: queues_kept_def)

lemma queues_kept_unlock: "queues_kept mi s (msg_unlock i s)"
  by (intro queues_kept_same same_core_unlock) simp

lemma same_core_trans: "same_core s s' \<Longrightarrow> same_core s' s'' \<Longrightarrow> same_core s s''"
  by (auto simp: same_core_def same_queue_def)

lemma rcv_post_pre: "queues_kept mi s s1 \<Longrightarrow> rcv_post mi a i s1 r s' \<Longrightarrow> rcv_post mi a i s r s'"
  by (auto simp: rcv_post_def received_def queues_kept_def split: mres.splits)

lemma rcv_post_unlock: "rcv_post mi a i s r s' \<Longrightarrow> rcv_post mi a i s r (msg_unlock j s')"
  using queues_kept_unlock[of mi s' j]
  by (auto simp: rcv_post_def received_def queues_kept_def split: mres.splits)

lemma rcv_post_same:
  "msg_inv mi s \<Longrightarrow> same_core s s' \<Longrightarrow> msgbuf s' = msgbuf s \<Longrightarrow> \<forall>t x. r \<noteq> MRcv t x \<Longrightarrow> rcv_post mi a i s r s'"
  by (cases r) (simp_all add: rcv_post_def queues_kept_same msg_inv_same)

lemma pick_less: "pick typ ts = Some k \<Longrightarrow> k < length ts"
proof -
  have "first_type t n ts = Some k \<Longrightarrow> n \<le> k \<and> k < n + length ts" for t n ts
    by (induction ts arbitrary: n) (fastforce split: if_splits)+
  moreover have "least_type lim n best ts = Some (k, t) \<Longrightarrow> (\<forall>k' t'. best = Some (k', t') \<longrightarrow> k' < n) \<Longrightarrow>
      k < n + length ts" for lim n best ts t
  proof (induction ts arbitrary: n best)
    case (Cons x ts)
    from Cons.prems(1) show ?case
      by (simp, intro Cons.IH[of "Suc n", simplified]) (use Cons.prems in \<open>auto split: if_splits intro: less_SucI\<close>)
  qed auto
  ultimately show "pick typ ts = Some k \<Longrightarrow> k < length ts"
    by (fastforce simp: pick_def split: if_splits)
qed

lemma msgrcv_take_post:
  assumes mi: "msginfo_ok mi" and st: "msg_struct mi s fl qs" and bt: "bytes_ok mi s qs"
    and i: "i < mi_msgmni mi" and p: "pick (ra_msgtyp a) (map (\<lambda>m. msg_type (msgh s m)) (qs i)) = Some k"
    and sz: "0 \<le> ra_msgsz a"
  shows "\<exists>r s'. msgrcv_take mi u now a i (qs i ! k) (prev_ptr (qs i) k) s = Some (r, s') \<and> rcv_post mi a i s r s'"
proof -
  have k: "k < length (qs i)" using pick_less[OF p] by simp
  let ?m = "qs i ! k" and ?xs = "take k (qs i) @ drop (Suc k) (qs i)"
  have inv: "msg_inv mi s" using st bt by (auto simp: msg_inv_def)
  show ?thesis
  proof (cases rule: msgrcv_take_ok[OF mi st bt i k, of u now a, case_names err taken])
    case err
    then show ?thesis using inv by (fastforce intro: rcv_post_same same_coreI)
  next
    case (taken s' z fl')
    have mo: "msg_of mi s' = msg_of mi s" by (rule only_queue_msg_of[OF taken(4)])
    have L: "queue_msgs mi s i = map (msg_of mi s) (qs i)" by (rule queue_msgs_struct[OF st i])
    have L': "queue_msgs mi s' i = map (msg_of mi s) ?xs"
      using queue_msgs_struct[OF taken(2) i] by (simp add: mo)
    have other: "queue_msgs mi s' j = queue_msgs mi s j" if "j < mi_msgmni mi" "j \<noteq> i" for j
      using queue_msgs_struct[OF taken(2) that(1)] queue_msgs_struct[OF st that(1)] that(2) by (simp add: mo)
    have "hdr_ok mi (msgh s ?m)" using st i k by (auto simp: msg_struct_def queued_def)
    then have len: "int (length (snd (msg_of mi s ?m))) = msg_ts (msgh s ?m)"
      by (simp add: msg_of_def hdr_ok_def)
    then have "take (nat z) (snd (msg_of mi s ?m)) = take (nat (ra_msgsz a)) (snd (msg_of mi s ?m))"
      unfolding taken(5) by (auto simp: nat_le_iff)
    moreover have ty: "map fst (queue_msgs mi s i) = map (\<lambda>m. msg_type (msgh s m)) (qs i)"
      by (simp add: L msg_of_def)
    have "received mi a i (fst (msg_of mi s ?m)) (take (nat z) (snd (msg_of mi s ?m))) s s'"
      unfolding received_def Let_def ty using i p k taken(6) other len calculation
      by (intro conjI exI[of _ k] allI impI) (simp_all add: L L' take_map drop_map, linarith)
    moreover have "msg_inv mi s'" using taken(2,3) by (auto simp: msg_inv_def)
    ultimately show ?thesis using taken(1) by (auto simp: rcv_post_def)
  qed
qed

lemma same_core_refl [simp]: "same_core s s"
  by (simp add: same_core_def)

lemma same_core_mode:
  assumes "same_queue (msgque s i) q"
  shows "same_core s (msg_unlock i (set_queue i q s))"
  by (rule same_coreI) (use assms in auto)

lemma msgrcv_findmsg_post:
  assumes mi: "msginfo_ok mi" and inv: "msg_inv mi s" and sz: "0 \<le> ra_msgsz a"
    and b: "b = ipc_slot (mi_msgmni mi) (ra_msqid a)"
  shows "\<exists>r s'. msgrcv_findmsg mi u now a i s = Some (r, s') \<and> rcv_post mi a b s r s'"
proof (cases "msgconv mi (ra_msqid a) s")
  case (Pair c s1)
  have mni: "0 < mi_msgmni mi" using mi by (simp add: msginfo_ok_def)
  from mni Pair show ?thesis
  proof (cases rule: msgconv_cases)
    case err
    then show ?thesis using inv Pair by (simp add: msgrcv_findmsg_def rcv_post_same)
  next
    case (sleep j)
    then show ?thesis using inv Pair by (simp add: msgrcv_findmsg_def rcv_post_same)
  next
    case (ok j)
    have inv1: "msg_inv mi s1" and qk: "queues_kept mi s s1"
      using msg_inv_same[OF ok(5) inv] queues_kept_same[OF ok(5)] ok(3) by auto
    show ?thesis
    proof (cases "j = i")
      case False
      have "rcv_post mi a b s1 (MErr EIDRM) (msg_unlock j s1)"
        by (rule rcv_post_same[OF inv1 same_core_unlock]) simp_all
      then show ?thesis using False ok(1) Pair rcv_post_pre[OF qk] by (simp add: msgrcv_findmsg_def)
    next
      case True
      obtain fl qs where st: "msg_struct mi s1 fl qs" and bt: "bytes_ok mi s1 qs"
        using inv1 by (auto simp: msg_inv_def)
      have i: "i < mi_msgmni mi" "b = i" using ok(2,6) True b by auto
      have ch: "chain (nxt s1) (msg_first (msgque s1 i)) (qs i)"
        using st i(1) by (simp add: msg_struct_def queue_ok_def)
      note scan = pick_scan[OF ch, of "msgh s1" "ra_msgtyp a", unfolded nxt_def, OF refl]
      show ?thesis
      proof (cases "pick (ra_msgtyp a) (map (\<lambda>m. msg_type (msgh s1 m)) (qs i))")
        case None
        let ?s2 = "msg_unlock i (set_queue i (set_mode (\<lambda>md. md OR MSG_RWAIT) (msgque s1 i)) s1)"
        have "rcv_post mi a b s1 (MSleep (RcvFind i) (ChQnum i)) ?s2"
          "rcv_post mi a b s1 (MErr ENOMSG) (msg_unlock i s1)"
          by (rule rcv_post_same[OF inv1 same_core_mode], simp_all)
            (rule rcv_post_same[OF inv1 same_core_unlock], simp_all)
        then show ?thesis using None scan True ok(1) Pair rcv_post_pre[OF qk]
          by (simp add: msgrcv_findmsg_def Let_def)
      next
        case (Some k)
        obtain r s' where r: "msgrcv_take mi u now a i (qs i ! k) (prev_ptr (qs i) k) s1 = Some (r, s')"
          "rcv_post mi a i s1 r s'"
          using msgrcv_take_post[OF mi st bt i(1) Some sz] by blast
        then show ?thesis using Some scan True ok(1) Pair i(2) rcv_post_pre[OF qk] rcv_post_unlock
          by (simp add: msgrcv_findmsg_def Let_def)
      qed
    qed
  qed
qed

lemma msgrcv_start_post:
  assumes mi: "msginfo_ok mi" and inv: "msg_inv mi s"
    and b: "b = ipc_slot (mi_msgmni mi) (ra_msqid a)"
  shows "\<exists>r s'. msgrcv_start mi u now a s = Some (r, s') \<and> rcv_post mi a b s r s'"
proof (cases "msgconv mi (ra_msqid a) s")
  case (Pair c s1)
  have mni: "0 < mi_msgmni mi" using mi by (simp add: msginfo_ok_def)
  from mni Pair show ?thesis
  proof (cases rule: msgconv_cases)
    case err
    then show ?thesis using inv Pair by (simp add: msgrcv_start_def rcv_post_same)
  next
    case (sleep j)
    then show ?thesis using inv Pair by (simp add: msgrcv_start_def rcv_post_same)
  next
    case (ok j)
    let ?s2 = "msg_unlock j s1"
    have c2: "same_core s ?s2" using ok(5) same_core_unlock by (rule same_core_trans)
    have inv2: "msg_inv mi ?s2" and qk: "queues_kept mi s ?s2"
      using msg_inv_same[OF c2 inv] queues_kept_same[OF c2] ok(3) by auto
    have e: "rcv_post mi a b s (MErr e) ?s2" for e
      by (rule rcv_post_pre[OF qk], rule rcv_post_same[OF inv2]) simp_all
    show ?thesis
    proof (cases "ra_msgsz a < 0")
      case True
      then show ?thesis using e ok(1) Pair by (simp add: msgrcv_start_def split: option.splits)
    next
      case False
      then obtain r s' where "msgrcv_findmsg mi u now a j ?s2 = Some (r, s')" "rcv_post mi a b ?s2 r s'"
        using msgrcv_findmsg_post[OF mi inv2 _ b, of u now j] by auto
      then show ?thesis using False e ok(1) Pair rcv_post_pre[OF qk]
        by (simp add: msgrcv_start_def split: option.splits)
    qed
  qed
qed

lemma msgrcv_post:
  assumes mi: "msginfo_ok mi" and inv: "msg_inv mi s"
    and b: "b = ipc_slot (mi_msgmni mi) (ra_msqid a)"
  shows "\<exists>r s'. msgrcv mi u now a s = Some (r, s') \<and> rcv_post mi a b s r s'"
proof -
  let ?s = "s\<lparr>sysinfo_msg := sysinfo_msg s + 1\<rparr>"
  have c: "same_core s ?s" by (rule same_coreI) simp_all
  have qk: "queues_kept mi s ?s" by (rule queues_kept_same[OF c]) simp
  show ?thesis using msgrcv_start_post[OF mi msg_inv_same[OF c inv] b, of u now] rcv_post_pre[OF qk]
    by (auto simp: msgrcv_def)
qed

section \<open>msgsnd\<close>

lemma msgsnd_put_frame:
  "msgfp (msgsnd_put u now i m typ cnt spot s) = msgfp s"
  "msgmap (msgsnd_put u now i m typ cnt spot s) = msgmap s"
  "msgbuf (msgsnd_put u now i m typ cnt spot s) = msgbuf s"
  "msglock (msgsnd_put u now i m typ cnt spot s) = msglock s"
  "j \<noteq> i \<Longrightarrow> msgque (msgsnd_put u now i m typ cnt spot s) j = msgque s j"
  "msg_cbytes (msgque (msgsnd_put u now i m typ cnt spot s) i) = us16 (msg_cbytes (msgque s i) + cnt)"
  "msg_qnum (msgque (msgsnd_put u now i m typ cnt spot s) i) = us16 (msg_qnum (msgque s i) + 1)"
  "msg_qbytes (msgque (msgsnd_put u now i m typ cnt spot s) i) = msg_qbytes (msgque s i)"
  "allocated (msg_perm (msgque (msgsnd_put u now i m typ cnt spot s) i)) = allocated (msg_perm (msgque s i))"
  "msg_last (msgque (msgsnd_put u now i m typ cnt spot s) i) = Some m"
  "msg_first (msgque (msgsnd_put u now i m typ cnt spot s) i) =
     (if msg_last (msgque s i) = None then Some m else msg_first (msgque s i))"
  "nxt (msgsnd_put u now i m typ cnt spot s) =
     (case msg_last (msgque s i) of None \<Rightarrow> (nxt s)(m := None) | Some l \<Rightarrow> (nxt s)(m := None, l := Some m))"
  "msg_type (msgh (msgsnd_put u now i m typ cnt spot s) x) = (if x = m then typ else msg_type (msgh s x))"
  "msg_ts (msgh (msgsnd_put u now i m typ cnt spot s) x) = (if x = m then s16 cnt else msg_ts (msgh s x))"
  "msg_spot (msgh (msgsnd_put u now i m typ cnt spot s) x) =
     (if x = m then (if cnt \<noteq> 0 then s16 spot else -1) else msg_spot (msgh s x))"
  by (auto simp: msgsnd_put_def Let_def nxt_def fun_eq_iff split: option.splits)

lemma get_put_same: "get_bytes (put_bytes a bs f) a (length bs) = bs"
  by (rule nth_equalityI) (simp_all add: get_bytes_def put_bytes_def)

lemma get_put_other:
  "{a..<a + length bs} \<inter> {b..<b + n} = {} \<Longrightarrow> get_bytes (put_bytes a bs f) b n = get_bytes f b n"
  by (fastforce simp: get_bytes_def put_bytes_def)

text \<open>Byte \<open>x\<close> of a message's text lies in one of the segments of its block.\<close>

lemma byte_in_blk:
  assumes mi: "msginfo_ok mi" and h: "hdr_ok mi h" and n: "n \<le> nat (msg_ts h)"
    and x: "nat (int (mi_msgssz mi) * msg_spot h) \<le> x" "x < nat (int (mi_msgssz mi) * msg_spot h) + n"
  shows "x div mi_msgssz mi + 1 \<in> text_blk mi h"
proof -
  have ts: "msg_ts h \<noteq> 0" using n x by auto
  note args = hdr_ok_mfree_args[OF mi h ts]
  define z sp q where "z = mi_msgssz mi" and "sp = nat (msg_spot h)" and "q = nat (btoq mi (msg_ts h))"
  have z: "0 < z" using mi by (simp add: msginfo_ok_def z_def)
  have sp: "msg_spot h = int sp" using h ts by (simp add: hdr_ok_def sp_def)
  have b: "1 \<le> btoq mi (msg_ts h)" "msg_ts h \<le> int (mi_msgssz mi) * btoq mi (msg_ts h)"
    using btoq_bounds[OF mi, of "msg_ts h"] h ts by (auto simp: hdr_ok_def)
  then have q: "btoq mi (msg_ts h) = int q" by (simp add: q_def)
  have "msg_ts h \<le> int (z * q)" using b(2) by (simp add: q z_def)
  then have "nat (msg_ts h) \<le> z * q" by linarith
  moreover have "nat (int (mi_msgssz mi) * msg_spot h) = z * sp" 
    unfolding sp z_def by (simp flip: of_nat_mult)
  ultimately have "z * sp \<le> x" "x < z * (sp + q)" using x n by (auto simp: distrib_left)
  then have "sp \<le> x div z" "x div z < sp + q"
    using z by (simp_all add: less_eq_div_iff_mult_less_eq div_less_iff_less_mult mult.commute)
  moreover have "unat (of_int (msg_spot h + 1) :: u32) = sp + 1" "unat (of_int (btoq mi (msg_ts h)) :: u32) = q"
    using args(5,6) sp q by linarith+
  ultimately show ?thesis unfolding args(4) blk_def by (simp add: z_def)
qed

lemma get_put_text:
  assumes mi: "msginfo_ok mi" and h: "hdr_ok mi h" and h': "hdr_ok mi h'"
    and d: "text_blk mi h \<inter> text_blk mi h' = {}" and n: "length bs \<le> nat (msg_ts h')"
  shows "get_bytes (put_bytes (nat (int (mi_msgssz mi) * msg_spot h')) bs f)
      (nat (int (mi_msgssz mi) * msg_spot h)) (nat (msg_ts h)) =
    get_bytes f (nat (int (mi_msgssz mi) * msg_spot h)) (nat (msg_ts h))"
proof (rule get_put_other, rule ccontr)
  let ?a = "nat (int (mi_msgssz mi) * msg_spot h')" and ?b = "nat (int (mi_msgssz mi) * msg_spot h)"
  assume "{?a..<?a + length bs} \<inter> {?b..<?b + nat (msg_ts h)} \<noteq> {}"
  then obtain x where "x \<in> {?a..<?a + length bs}" "x \<in> {?b..<?b + nat (msg_ts h)}" by blast
  then have x: "?a \<le> x" "x < ?a + length bs" "?b \<le> x" "x < ?b + nat (msg_ts h)" by simp_all
  with byte_in_blk[OF mi h' n x(1,2)] byte_in_blk[OF mi h order_refl x(3,4)] d show False by auto
qed

lemma queued_add:
  assumes sp: "hdrs_split mi (m # fl) qs" and i: "i < mi_msgmni mi" and m: "m \<notin> set fl"
  shows "queued mi (qs(i := qs i @ [m])) = insert m (queued mi qs)" "m \<notin> queued mi qs"
    "hdrs_split mi fl (qs(i := qs i @ [m]))"
proof -
  show nm: "m \<notin> queued mi qs" using sp by (auto simp: hdrs_split_def queued_def)
  show q: "queued mi (qs(i := qs i @ [m])) = insert m (queued mi qs)"
    using i by (auto simp: queued_def split: if_splits)
  have sub: "set ((qs(i := qs i @ [m])) j) = (if j = i then insert m (set (qs j)) else set (qs j))" for j
    by auto
  have out: "m \<notin> set (qs j)" if "j < mi_msgmni mi" for j using nm that by (auto simp: queued_def)
  have "set fl \<inter> set ((qs(i := qs i @ [m])) j) = {}" if "j < mi_msgmni mi" for j
    using sp that m unfolding sub by (simp add: hdrs_split_def)
  moreover have "set ((qs(i := qs i @ [m])) j) \<inter> set ((qs(i := qs i @ [m])) k) = {}"
    if "j < mi_msgmni mi" "k < mi_msgmni mi" "j \<noteq> k" for j k
    using sp that out[OF that(1)] out[OF that(2)] unfolding sub hdrs_split_def by auto
  moreover have "set fl \<union> queued mi (qs(i := qs i @ [m])) = {..<mi_msgtql mi}"
    using sp unfolding q hdrs_split_def by auto
  ultimately show "hdrs_split mi fl (qs(i := qs i @ [m]))" by (simp add: hdrs_split_def)
qed

lemma msgsnd_put_ok:
  assumes mi: "msginfo_ok mi" and i: "i < mi_msgmni mi"
    and ch: "chain (nxt s) (msgfp s) fl" and q: "\<And>j. j < mi_msgmni mi \<Longrightarrow> queue_ok s j (qs j)"
    and sp: "hdrs_split mi (m # fl) qs" and m: "m \<notin> set fl"
    and h: "\<forall>m\<in>queued mi qs. hdr_ok mi (msgh s m)" and bt: "bytes_ok mi s qs"
    and al: "allocated (msg_perm (msgque s i))"
    and cnt: "0 \<le> cnt" "cnt \<le> 32767" "cnt + msg_cbytes (msgque s i) \<le> msg_qbytes (msgque s i)"
    and h': "h' = \<lparr>msg_next = None, msg_type = typ, msg_ts = cnt, msg_spot = (if cnt \<noteq> 0 then spot else -1)\<rparr>"
    and hh': "hdr_ok mi h'" and spot: "spot < 32767" "-1 \<le> spot"
    and held: "rm.held (msgmap s) (if cnt \<noteq> 0 then insert m (with_text s (queued mi qs)) else with_text s (queued mi qs))
        ((\<lambda>m. text_blk mi (msgh s m))(m := text_blk mi h'))"
    and units: "map_units (msgmap s) \<subseteq> {1..mi_msgseg mi}"
  shows "msg_struct mi (msgsnd_put u now i m typ cnt spot s) fl (qs(i := qs i @ [m]))"
    "bytes_ok mi (msgsnd_put u now i m typ cnt spot s) (qs(i := qs i @ [m]))"
proof -
  let ?s = "msgsnd_put u now i m typ cnt spot s" and ?qs = "qs(i := qs i @ [m])"
  note add = queued_add[OF sp i m]
  note fr = msgsnd_put_frame
  have s16: "s16 cnt = cnt" "s16 spot = spot" using cnt spot by auto
  have hm: "hdr_ok mi (msgh ?s x) = (if x = m then hdr_ok mi h' else hdr_ok mi (msgh s x))"
    "text_blk mi (msgh ?s x) = (if x = m then text_blk mi h' else text_blk mi (msgh s x))" for x
    by (simp_all add: hdr_ok_def text_blk_def fr(13-15) s16 h')
  have out: "m \<notin> set (qs j)" if "j < mi_msgmni mi" for j using add(2) that by (auto simp: queued_def)
  have qi: "queue_ok s i (qs i)" using q i by simp
  have lst: "l \<in> set (qs i)" if "msg_last (msgque s i) = Some l" for l
    using qi that by (auto simp: queue_ok_def split: if_splits)
  have frame: "chain (nxt ?s) p xs = chain (nxt s) p xs" if "m \<notin> set xs" "set xs \<inter> set (qs i) = {}" for p xs
  proof (cases "msg_last (msgque s i)")
    case (Some l)
    then have "l \<notin> set xs" using lst[OF Some] that(2) by auto
    then show ?thesis using Some that(1) by (simp add: fr(12) lseg_frame)
  qed (use that(1) in \<open>simp add: fr(12) lseg_frame\<close>)
  have qok: "queue_ok ?s j (?qs j)" if j: "j < mi_msgmni mi" for j
  proof (cases "j = i")
    case False
    have "set (qs j) \<inter> set (qs i) = {}" using False sp i j by (simp add: hdrs_split_def)
    then show ?thesis using False q[OF j] frame[OF out[OF j]] fr(5)[OF False] by (simp add: queue_ok_def)
  next
    case True
    have c: "chain (nxt s) (msg_first (msgque s i)) (qs i)"
      "msg_last (msgque s i) = (if qs i = [] then None else Some (last (qs i)))"
      using qi by (simp_all add: queue_ok_def)
    have "chain (nxt ?s) (msg_first (msgque ?s i)) (qs i @ [m])"
      using chain_snoc[OF c(1) _ out[OF i]] c(2) unfolding fr(11,12) by simp
    then show ?thesis using True qi al
      by (simp add: queue_ok_def fr us16_inc del: lseg.simps)
  qed
  have wt: "with_text ?s (queued mi ?qs) =
      (if cnt \<noteq> 0 then insert m (with_text s (queued mi qs)) else with_text s (queued mi qs))"
    unfolding add(1) using add(2) s16 by (auto simp: with_text_def fr(14))
  have blks: "(\<lambda>x. text_blk mi (msgh ?s x)) = (\<lambda>m. text_blk mi (msgh s m))(m := text_blk mi h')"
    by (auto simp: hm)
  show "msg_struct mi ?s fl ?qs"
    unfolding msg_struct_def wt blks
    using ch frame[OF m] sp qok add(3) h held units hh' add(1) i
    by (simp add: hm fr hdrs_split_def)
  have ts: "(\<Sum>x\<leftarrow>xs. msg_ts (msgh ?s x)) = (\<Sum>x\<leftarrow>xs. msg_ts (msgh s x))" if "m \<notin> set xs" for xs
    using that by (induction xs) (auto simp: fr(14))
  have b: "msg_cbytes (msgque s i) = (\<Sum>m\<leftarrow>qs i. msg_ts (msgh s m))" "msg_qbytes (msgque s i) < 65536"
    using bt i qi by (auto simp: bytes_ok_def queue_ok_def)
  have "0 \<le> (\<Sum>m\<leftarrow>qs i. msg_ts (msgh s m))"
    using h i by (intro sum_list_nonneg) (auto simp: queued_def hdr_ok_def)
  then have "us16 (msg_cbytes (msgque s i) + cnt) = msg_cbytes (msgque s i) + cnt"
    "msg_cbytes (msgque s i) + cnt < 65536"
    using b cnt by simp_all
  then show "bytes_ok mi ?s ?qs"
    using bt b ts out s16 by (auto simp: bytes_ok_def fr)
qed

definition sent :: "msginfo \<Rightarrow> sndargs \<Rightarrow> nat \<Rightarrow> int \<Rightarrow> mstate \<Rightarrow> mstate \<Rightarrow> bool" where
  "sent mi a i typ s s' \<longleftrightarrow> i < mi_msgmni mi \<and> 1 \<le> typ \<and>
     0 \<le> sa_msgsz a \<and> nat (sa_msgsz a) \<le> length (sa_text a) \<and>
     queue_msgs mi s' i = queue_msgs mi s i @ [(typ, take (nat (sa_msgsz a)) (sa_text a))] \<and>
     (\<forall>j<mi_msgmni mi. j \<noteq> i \<longrightarrow> queue_msgs mi s' j = queue_msgs mi s j)"

definition snd_post :: "msginfo \<Rightarrow> sndargs \<Rightarrow> nat \<Rightarrow> int \<Rightarrow> mstate \<Rightarrow> mres \<Rightarrow> mstate \<Rightarrow> bool" where
  "snd_post mi a i typ s r s' \<longleftrightarrow> msg_inv mi s' \<and>
     (case r of MRet v \<Rightarrow> v = 0 \<and> sent mi a i typ s s' | _ \<Rightarrow> queues_kept mi s s')"

lemma snd_post_pre: "queues_kept mi s s1 \<Longrightarrow> snd_post mi a i typ s1 r s' \<Longrightarrow> snd_post mi a i typ s r s'"
  by (auto simp: snd_post_def sent_def queues_kept_def split: mres.splits)

lemma snd_post_unlock: "snd_post mi a i typ s r s' \<Longrightarrow> snd_post mi a i typ s r (msg_unlock j s')"
  using queues_kept_unlock[of mi s' j]
  by (auto simp: snd_post_def sent_def queues_kept_def split: mres.splits)

lemma snd_post_same:
  "msg_inv mi s \<Longrightarrow> same_core s s' \<Longrightarrow> msgbuf s' = msgbuf s \<Longrightarrow> \<forall>v. r \<noteq> MRet v \<Longrightarrow> snd_post mi a i typ s r s'"
  by (cases r) (simp_all add: snd_post_def queues_kept_same msg_inv_same)

text \<open>Two states with one ghost state agree on the queues when the texts agree.\<close>

lemma queues_kept_struct:
  assumes "msg_struct mi s fl qs" "msg_struct mi s' fl' qs"
    and "\<And>m. m \<in> queued mi qs \<Longrightarrow> msg_of mi s' m = msg_of mi s m"
  shows "queues_kept mi s s'"
  using assms queue_msgs_struct[OF assms(1)] queue_msgs_struct[OF assms(2)]
  by (auto simp: queues_kept_def queued_def)

text \<open>The state of \<^verbatim>\<open>msgsnd\<close> once it holds header \<open>m\<close>: the free list is \<open>fl\<close>, and \<open>m\<close> is
  nowhere.\<close>

definition snd_ready :: "msginfo \<Rightarrow> mstate \<Rightarrow> nat \<Rightarrow> nat list \<Rightarrow> (nat \<Rightarrow> nat list) \<Rightarrow> bool" where
  "snd_ready mi s m fl qs \<longleftrightarrow>
     chain (nxt s) (msgfp s) fl \<and> (\<forall>j<mi_msgmni mi. queue_ok s j (qs j)) \<and>
     hdrs_split mi (m # fl) qs \<and> m \<notin> set fl \<and> (\<forall>m\<in>queued mi qs. hdr_ok mi (msgh s m)) \<and>
     map_units (msgmap s) \<subseteq> {1..mi_msgseg mi}"

abbreviation (input) held_by :: "msginfo \<Rightarrow> mstate \<Rightarrow> (nat \<Rightarrow> nat list) \<Rightarrow> rmap \<Rightarrow> bool" where
  "held_by mi s qs mp \<equiv> rm.held mp (with_text s (queued mi qs)) (\<lambda>m. text_blk mi (msgh s m))"

lemma snd_ready_pop:
  assumes st: "msg_struct mi s fl0 qs" and m: "msgfp s = Some m"
  obtains fl where "fl0 = m # fl" "snd_ready mi (s\<lparr>msgfp := msg_next (msgh s m)\<rparr>) m fl qs"
    "held_by mi s qs (msgmap s)"
proof -
  have ch: "chain (nxt s) (Some m) fl0" using st m by (simp add: msg_struct_def)
  then obtain fl where fl: "fl0 = m # fl" "chain (nxt s) (nxt s m) fl" by (auto simp: chain_simps)
  have "distinct fl0" using chain_distinct[OF ch] .
  with fl st have "snd_ready mi (s\<lparr>msgfp := msg_next (msgh s m)\<rparr>) m fl qs"
    by (simp add: snd_ready_def msg_struct_def queue_ok_def) (simp add: nxt_def)
  with that fl(1) st show ?thesis by (simp add: msg_struct_def)
qed

text \<open>Giving the header back.\<close>

lemma snd_ready_freehdr:
  assumes rd: "snd_ready mi s m fl qs" and held: "held_by mi s qs (msgmap s)"
    and q: "msgque s' = msgque s" "msgh s' = msgh s" "msgfp s' = msgfp s"
    and mp: "map_ent mp = map_ent (msgmap s)" "map_free mp = map_free (msgmap s)" "msgmap s' = mp"
  shows "msg_struct mi (msg_freehdr m s') (m # fl) qs"
proof (rule msg_freehdr_struct)
  have n: "nxt s' = nxt s" using q(2) by (simp add: nxt_def fun_eq_iff)
  show "chain (nxt s') (msgfp s') fl" "hdrs_split mi (m # fl) qs" "m \<notin> set fl"
    "\<forall>m\<in>queued mi qs. hdr_ok mi (msgh s' m)" "\<And>j. j < mi_msgmni mi \<Longrightarrow> queue_ok s' j (qs j)"
    using rd by (simp_all add: snd_ready_def n q queue_ok_def)
  have "with_text s' = with_text s" using q(2) by (simp add: with_text_def fun_eq_iff)
  then show "rm.held (msgmap s') (with_text s' (queued mi qs)) (\<lambda>m. text_blk mi (msgh s' m))"
    using held by (simp add: mp(3) q(2) held_same_ent[OF mp(1,2)])
  show "map_units (msgmap s') \<subseteq> {1..mi_msgseg mi}"
    using rd mp by (simp add: snd_ready_def map_units_def)
qed

lemma msg_freehdr_same_msgs: "msgh s' = msgh s \<Longrightarrow> same_msgs s (msg_freehdr m s')"
  by (auto simp: msg_freehdr_def Let_def same_msgs_def)

lemma bytes_ok_msgs:
  assumes "bytes_ok mi s qs" "same_msgs s s'" "msgque s' = msgque s"
  shows "bytes_ok mi s' qs"
  using assms sum_ts_same[OF assms(2)] unfolding bytes_ok_def by metis

lemma snd_giveup:
  assumes mi: "msginfo_ok mi" and rd: "snd_ready mi s1 m fl qs" and held: "held_by mi s1 qs (msgmap s1)"
    and st: "msg_struct mi s fl0 qs" and bt: "bytes_ok mi s qs"
    and s1: "msgque s1 = msgque s" "msgh s1 = msgh s"
    and q: "msgque s' = msgque s1" "msgh s' = msgh s1" "msgfp s' = msgfp s1" "map_ent (msgmap s') = map_ent (msgmap s1)"
      "map_free (msgmap s') = map_free (msgmap s1)"
    and tx: "\<And>x. x \<in> queued mi qs \<Longrightarrow> msg_of mi s' x = msg_of mi s x"
  shows "msg_inv mi (msg_freehdr m s')" "queues_kept mi s (msg_freehdr m s')"
proof -
  have st': "msg_struct mi (msg_freehdr m s') (m # fl) qs"
    by (rule snd_ready_freehdr[OF rd held q(1-3) q(4,5) refl])
  have sm: "same_msgs s (msg_freehdr m s')" using q s1 by (intro msg_freehdr_same_msgs) simp
  have "bytes_ok mi (msg_freehdr m s') qs"
    by (rule bytes_ok_msgs[OF bt sm]) (simp add: q s1)
  with st' show "msg_inv mi (msg_freehdr m s')" by (auto simp: msg_inv_def)
  have "msg_of mi (msg_freehdr m s') x = msg_of mi s' x" for x
    by (simp add: msg_of_def msg_freehdr_def Let_def)
  with tx show "queues_kept mi s (msg_freehdr m s')"
    by (intro queues_kept_struct[OF st st']) simp
qed


text \<open>Putting the message on the queue.\<close>

lemma snd_finish:
  assumes mi: "msginfo_ok mi" and i: "i < mi_msgmni mi" and rd: "snd_ready mi s1 m fl qs"
    and st: "msg_struct mi s fl0 qs" and bt: "bytes_ok mi s qs"
    and s1: "msgque s1 = msgque s" "msgh s1 = msgh s"
    and al: "allocated (msg_perm (msgque s i))"
    and cnt: "0 \<le> cnt" "cnt \<le> 32767" "cnt + msg_cbytes (msgque s i) \<le> msg_qbytes (msgque s i)"
    and h': "h' = \<lparr>msg_next = None, msg_type = typ, msg_ts = cnt, msg_spot = (if cnt \<noteq> 0 then spot else -1)\<rparr>"
    and hh': "hdr_ok mi h'" and spot: "spot < 32767" "-1 \<le> spot"
    and held: "rm.held (msgmap s1) (if cnt \<noteq> 0 then insert m (with_text s1 (queued mi qs)) else with_text s1 (queued mi qs))
        ((\<lambda>m. text_blk mi (msgh s1 m))(m := text_blk mi h'))"
    and tx: "\<And>x. x \<in> queued mi qs \<Longrightarrow> msg_of mi s1 x = msg_of mi s x"
    and new: "get_bytes (msgbuf s1) (nat (int (mi_msgssz mi) * spot)) (nat cnt) = take (nat (sa_msgsz a)) (sa_text a)"
    and a: "cnt = sa_msgsz a" "nat cnt \<le> length (sa_text a)" "1 \<le> typ"
  shows "snd_post mi a i typ s (MRet 0) (msgsnd_put u now i m typ cnt spot s1)"
proof -
  let ?s = "msgsnd_put u now i m typ cnt spot s1" and ?qs = "qs(i := qs i @ [m])"
  have pre: "chain (nxt s1) (msgfp s1) fl" "hdrs_split mi (m # fl) qs" "m \<notin> set fl"
    "\<forall>m\<in>queued mi qs. hdr_ok mi (msgh s1 m)" "\<And>j. j < mi_msgmni mi \<Longrightarrow> queue_ok s1 j (qs j)"
    "map_units (msgmap s1) \<subseteq> {1..mi_msgseg mi}"
    using rd by (simp_all add: snd_ready_def)
  have bt1: "bytes_ok mi s1 qs" using s1 by (intro bytes_ok_msgs[OF bt]) (simp_all add: same_msgs_def)
  note put = msgsnd_put_ok[OF mi i pre(1,5,2,3,4) bt1 _ cnt(1,2) _ h' hh' spot held pre(6), of u now]
  have st': "msg_struct mi ?s fl ?qs" and bt': "bytes_ok mi ?s ?qs"
    using put al cnt(3) by (simp_all add: s1)
  have s16: "s16 cnt = cnt" "s16 spot = spot" using cnt spot by auto
  have nm: "m \<notin> queued mi qs" by (rule queued_add(2)[OF pre(2) i pre(3)])
  have old: "msg_of mi ?s x = msg_of mi s x" if "x \<in> queued mi qs" for x
  proof -
    have "x \<noteq> m" using that nm by auto
    then have "msg_of mi ?s x = msg_of mi s1 x" by (simp add: msg_of_def msgsnd_put_frame)
    with tx[OF that] show ?thesis by simp
  qed
  have "msg_of mi ?s m = (typ, take (nat (sa_msgsz a)) (sa_text a))"
    using new s16 a(1) by (cases "cnt = 0") (auto simp: msg_of_def msgsnd_put_frame get_bytes_def)
  moreover have L: "queue_msgs mi ?s j = map (msg_of mi ?s) (?qs j)" "queue_msgs mi s j = map (msg_of mi s) (qs j)"
    if "j < mi_msgmni mi" for j
    using queue_msgs_struct[OF st' that] queue_msgs_struct[OF st that] by auto
  moreover have "map (msg_of mi ?s) (qs j) = map (msg_of mi s) (qs j)" if "j < mi_msgmni mi" for j
    using old that by (auto simp: queued_def)
  ultimately have "sent mi a i typ s ?s"
    using i a cnt(1) unfolding sent_def by simp
  with st' bt' show ?thesis by (auto simp: snd_post_def msg_inv_def)
qed

text \<open>The block \<^verbatim>\<open>malloc\<close> finds for \<open>cnt\<close> bytes of text.\<close>

lemma snd_block:
  assumes mi: "msginfo_ok mi" and cnt: "0 < cnt" "cnt \<le> 32767"
    and wf: "map_wf mp" and units: "map_units mp \<subseteq> {1..mi_msgseg mi}"
    and al: "malloc mp (of_int (btoq mi cnt)) = Some (a, mp')" and a: "a \<noteq> 0"
    and h: "msg_ts h = cnt" "msg_spot h = s32 (uint a) - 1"
  shows "(of_int (btoq mi cnt) :: u32) \<noteq> 0" "hdr_ok mi h" "text_blk mi h = blk a (of_int (btoq mi cnt))"
    "0 \<le> s32 (uint a) - 1" "s32 (uint a) - 1 < 32767" "map_units mp' \<subseteq> {1..mi_msgseg mi}"
    "unat a + unat (of_int (btoq mi cnt) :: u32) < 4294967296" "of_int (s32 (uint a)) = a"
proof -
  let ?sz = "of_int (btoq mi cnt) :: u32"
  have b: "1 \<le> btoq mi cnt" "btoq mi cnt \<le> 32767" using btoq_bounds[OF mi cnt] by auto
  then have u: "uint ?sz = btoq mi cnt" by (simp add: unsigned_of_int take_bit_int_eq_self_iff)
  then show sz: "?sz \<noteq> 0" using b by auto
  have blk: "unat a + unat ?sz < 4294967296" "blk a ?sz \<subseteq> map_units mp" "map_units mp' = map_units mp - blk a ?sz"
    using rm.alloc_blk[OF wf sz al a] by auto
  then show "unat a + unat ?sz < 4294967296" "map_units mp' \<subseteq> {1..mi_msgseg mi}" using units by auto
  have "int (unat ?sz) = btoq mi cnt" using u by simp
  then have n: "1 \<le> unat ?sz" using b by linarith
  have "unat a \<in> blk a ?sz" "unat a + unat ?sz - 1 \<in> blk a ?sz" using n by (auto simp: blk_def)
  then have r: "1 \<le> unat a" "unat a + unat ?sz - 1 \<le> mi_msgseg mi" using blk(2) units by auto
  have seg: "mi_msgseg mi < 32768" using mi by (simp add: msginfo_ok_def)
  have ua: "uint a = int (unat a)" by simp
  have s: "s32 (uint a) = uint a" unfolding ua using r seg n by (intro s32_id) linarith+
  show "of_int (s32 (uint a)) = a" by (simp add: s)
  show "0 \<le> s32 (uint a) - 1" "s32 (uint a) - 1 < 32767"
    unfolding s using ua r seg n by linarith+
  have "uint a - 1 + btoq mi cnt \<le> int (mi_msgseg mi)"
    using ua r n \<open>int (unat ?sz) = btoq mi cnt\<close> by linarith
  moreover have "0 \<le> uint a - 1" "uint a - 1 < 32767" using ua r seg n by linarith+
  ultimately show "hdr_ok mi h" using cnt by (simp add: hdr_ok_def h s)
  show "text_blk mi h = blk a ?sz" by (simp add: text_blk_def h s)
qed

text \<open>Writing into a block apart from those of the queued messages leaves their texts.\<close>

lemma put_keeps_msgs:
  assumes mi: "msginfo_ok mi" and h: "\<forall>m\<in>M. hdr_ok mi (msgh s m)" and h': "hdr_ok mi h'"
    and d: "\<And>m. m \<in> with_text s M \<Longrightarrow> text_blk mi (msgh s m) \<inter> text_blk mi h' = {}"
    and n: "length bs \<le> nat (msg_ts h')" and x: "x \<in> M"
    and s': "msgh s' = msgh s" "msgbuf s' = put_bytes (nat (int (mi_msgssz mi) * msg_spot h')) bs (msgbuf s)"
  shows "msg_of mi s' x = msg_of mi s x"
proof (cases "msg_ts (msgh s x) = 0")
  case True
  then show ?thesis by (simp add: msg_of_def s' get_bytes_def)
next
  case False
  then have "x \<in> with_text s M" using x by (simp add: with_text_def)
  with get_put_text[OF mi _ h' d n] h x show ?thesis by (simp add: msg_of_def s')
qed


text \<open>With header \<open>m\<close> popped and \<open>cnt > 0\<close>: allocate, copy, and queue or give up.\<close>

lemma snd_with_text:
  assumes mi: "msginfo_ok mi" and i: "i < mi_msgmni mi" and st: "msg_struct mi s fl0 qs" and bt: "bytes_ok mi s qs"
    and m: "msgfp s = Some m" and al: "allocated (msg_perm (msgque s i))"
    and cnt: "cnt = sa_msgsz a" "0 < cnt" "cnt \<le> 32767" "cnt + msg_cbytes (msgque s i) \<le> msg_qbytes (msgque s i)"
    and ty: "1 \<le> ty"
  defines "s1 \<equiv> s\<lparr>msgfp := msg_next (msgh s m)\<rparr>"
  obtains (none) "malloc (msgmap s1) (of_int (btoq mi cnt)) = Some (0, msgmap s1)"
      "\<And>w mp. mp = (msgmap s1)\<lparr>map_want := w\<rparr> \<Longrightarrow>
         msg_inv mi (msg_freehdr m (s1\<lparr>msgmap := mp\<rparr>)) \<and>
         queues_kept mi s (msg_freehdr m (s1\<lparr>msgmap := mp\<rparr>))"
  | (some) spot mp sp ok f where "malloc (msgmap s1) (of_int (btoq mi cnt)) = Some (spot, mp)" "spot \<noteq> 0"
      "sp = s32 (uint spot) - 1"
      "iomove_in (nat (int (mi_msgssz mi) * sp)) (nat cnt) (sa_text a) (msgbuf s1) = (ok, f)"
      "ok \<Longrightarrow> snd_post mi a i ty s (MRet 0) (msgsnd_put u now i m ty cnt sp (s1\<lparr>msgmap := mp, msgbuf := f\<rparr>))"
      "\<not> ok \<Longrightarrow> \<exists>s4. msg_freemap (btoq mi cnt) (sp + 1) (s1\<lparr>msgmap := mp, msgbuf := f\<rparr>) = Some s4 \<and>
         msg_inv mi (msg_freehdr m s4) \<and> queues_kept mi s (msg_freehdr m s4)"
proof -
  let ?sz = "of_int (btoq mi cnt) :: u32"
  obtain fl where fl: "fl0 = m # fl" and rd: "snd_ready mi s1 m fl qs" and held: "held_by mi s qs (msgmap s)"
    using snd_ready_pop[OF st m] unfolding s1_def by blast
  have s1: "msgque s1 = msgque s" "msgh s1 = msgh s" "msgmap s1 = msgmap s" "msgbuf s1 = msgbuf s"
    by (simp_all add: s1_def)
  have wt: "with_text s1 = with_text s" by (simp add: with_text_def fun_eq_iff s1)
  have held1: "held_by mi s1 qs (msgmap s1)" using held by (simp add: s1 wt)
  have wf: "map_wf (msgmap s)" by (rule rm.held_wf[OF held])
  have units: "map_units (msgmap s) \<subseteq> {1..mi_msgseg mi}" using st by (simp add: msg_struct_def)
  have nm: "m \<notin> queued mi qs" using rd i queued_add(2) by (auto simp: snd_ready_def)
  have hq: "\<forall>m\<in>queued mi qs. hdr_ok mi (msgh s m)" using st by (simp add: msg_struct_def)
  have szn: "?sz \<noteq> 0"
  proof -
    have "uint ?sz = btoq mi cnt" "1 \<le> btoq mi cnt" using btoq_bounds[OF mi cnt(2,3)]
      by (simp_all add: unsigned_of_int take_bit_int_eq_self_iff)
    then show ?thesis by auto
  qed
  obtain spot mp where ma: "malloc (msgmap s) ?sz = Some (spot, mp)"
    using rm.alloc_total[OF wf szn] by (cases "malloc (msgmap s) ?sz") auto
  have giveup: "msg_inv mi (msg_freehdr m s') \<and> queues_kept mi s (msg_freehdr m s')"
    if "s' = s1\<lparr>msgmap := mq\<rparr>" "map_ent mq = map_ent (msgmap s)" "map_free mq = map_free (msgmap s)" for s' mq
    using snd_giveup[OF mi rd held1 st bt s1(1,2), of s'] that
    by (simp add: s1 msg_of_def)
  show ?thesis
  proof (cases "spot = 0")
    case True
    then have "mp = msgmap s" using rm.alloc_none[OF wf szn] ma by simp
    with True ma show ?thesis using giveup by (intro none) (auto simp: s1)
  next
    case False
    define sp where "sp = s32 (uint spot) - 1"
    define h' where "h' = \<lparr>msg_next = None, msg_type = ty, msg_ts = cnt, msg_spot = (if cnt \<noteq> 0 then sp else -1)\<rparr>"
    have h'e: "msg_ts h' = cnt" "msg_spot h' = s32 (uint spot) - 1"
      using cnt(2) by (simp_all add: h'_def sp_def)
    note blk = snd_block[OF mi cnt(2,3) wf units ma False h'e, folded sp_def]
    define ok f where "ok = (nat cnt \<le> length (sa_text a))" and
      "f = put_bytes (nat (int (mi_msgssz mi) * sp)) (take (nat cnt) (sa_text a)) (msgbuf s)"
    have io: "iomove_in (nat (int (mi_msgssz mi) * sp)) (nat cnt) (sa_text a) (msgbuf s1) = (ok, f)"
      using cnt(2) by (simp add: iomove_in_def ok_def f_def s1)
    have nmt: "m \<notin> with_text s (queued mi qs)" using nm by (simp add: with_text_def)
    have heldm: "rm.held mp (insert m (with_text s (queued mi qs)))
        ((\<lambda>m. text_blk mi (msgh s m))(m := text_blk mi h'))"
      using rm.held_alloc[OF held szn ma False nmt] by (simp add: blk(3))
    have d: "text_blk mi (msgh s x) \<inter> text_blk mi h' = {}" if "x \<in> with_text s (queued mi qs)" for x
      using rm.held_disjoint[OF heldm, of x m] that nmt by auto
    let ?s3 = "s1\<lparr>msgmap := mp, msgbuf := f\<rparr>"
    have tx: "msg_of mi s' x = msg_of mi s x" if "x \<in> queued mi qs" "msgh s' = msgh s" "msgbuf s' = f" for s' x
      using d that cnt(2) by (intro put_keeps_msgs[OF mi hq blk(2)]) (auto simp: f_def h'_def)
    have rd3: "snd_ready mi ?s3 m fl qs" using rd blk(6) by (simp add: snd_ready_def queue_ok_def)
    have wt3: "with_text ?s3 = with_text s" by (simp add: with_text_def fun_eq_iff s1)
    show ?thesis
    proof (rule some[OF _ False sp_def io])
      show "malloc (msgmap s1) ?sz = Some (spot, mp)" using ma by (simp add: s1)
      assume ok: ok
      have held3: "rm.held (msgmap ?s3)
          (if cnt \<noteq> 0 then insert m (with_text ?s3 (queued mi qs)) else with_text ?s3 (queued mi qs))
          ((\<lambda>m. text_blk mi (msgh ?s3 m))(m := text_blk mi h'))"
        using heldm cnt(2) unfolding wt3 by (simp add: s1)
      have new: "get_bytes f (nat (int (mi_msgssz mi) * sp)) (nat cnt) = take (nat (sa_msgsz a)) (sa_text a)"
        using get_put_same[of "nat (int (mi_msgssz mi) * sp)" "take (nat cnt) (sa_text a)" "msgbuf s"] ok cnt(1)
        by (simp add: f_def ok_def min_absorb2)
      have ct: "0 \<le> cnt" "- 1 \<le> sp" "nat cnt \<le> length (sa_text a)"
        using cnt(2) blk(4) ok by (simp_all add: ok_def)
      show "snd_post mi a i ty s (MRet 0) (msgsnd_put u now i m ty cnt sp ?s3)"
        by (rule snd_finish[OF mi i rd3 st bt _ _ al ct(1) cnt(3,4) h'_def blk(2,5) ct(2) held3 _ _ cnt(1) ct(3) ty])
          (simp_all add: s1 new tx)
    next
      assume "\<not> ok"
      have e: "(of_int (sp + 1) :: u32) = spot" using blk(8) by (simp add: sp_def)
      have hm: "((\<lambda>m. text_blk mi (msgh s m))(m := text_blk mi h')) m = blk spot ?sz" by (simp add: blk(3))
      obtain mq ev where mf: "mfree mp ?sz spot = Some (mq, ev)"
        using rm.held_release_total[OF heldm szn False blk(7) _ hm] by blast
      have "rm.held mq (insert m (with_text s (queued mi qs)) - {m})
          ((\<lambda>m. text_blk mi (msgh s m))(m := text_blk mi h'))"
        by (rule rm.held_release[OF heldm szn False blk(7) _ hm mf]) simp
      then have hq': "rm.held mq (with_text s (queued mi qs)) (\<lambda>m. text_blk mi (msgh s m))"
        using nmt by (subst rm.held_cong[of _ _ "(\<lambda>m. text_blk mi (msgh s m))(m := text_blk mi h')"]) auto
      show "\<exists>s4. msg_freemap (btoq mi cnt) (sp + 1) ?s3 = Some s4 \<and>
         msg_inv mi (msg_freehdr m s4) \<and> queues_kept mi s (msg_freehdr m s4)"
      proof -
        let ?s5 = "?s3\<lparr>msgmap := mq\<rparr>"
        define s4 where "s4 = (if WakeupMap \<in> set ev then mwakeup ChMap else id) ?s5"
        have fm: "msg_freemap (btoq mi cnt) (sp + 1) ?s3 = Some s4"
          by (simp add: msg_freemap_def s4_def e mf del: of_int_add)
        have "blk spot ?sz \<inter> map_units mp = {}"
          using heldm hm by (auto simp: rm.held_def)
        then have "map_units mq \<subseteq> map_units mp \<union> blk spot ?sz"
          using rm.release_units[OF rm.held_wf[OF heldm] szn False blk(7) _ mf] by blast
        moreover have "blk spot ?sz \<subseteq> {1..mi_msgseg mi}"
          using hdr_ok_mfree_args(7)[OF mi blk(2)] blk(3) cnt(2) by (simp add: h'_def)
        ultimately have rd5: "snd_ready mi ?s5 m fl qs"
          using rd3 blk(6) by (auto simp: snd_ready_def queue_ok_def)
        have wt5: "with_text ?s5 = with_text s" by (simp add: with_text_def fun_eq_iff s1)
        have held5: "held_by mi ?s5 qs (msgmap ?s5)" unfolding wt5 using hq' by (simp add: s1)
        have "msgque s4 = msgque ?s5" "msgh s4 = msgh ?s5" "msgfp s4 = msgfp ?s5" "msgmap s4 = msgmap ?s5" "msgbuf s4 = f"
          by (simp_all add: s4_def)
        then show ?thesis using snd_giveup[OF mi rd5 held5 st bt, of s4] fm tx by (simp add: s1)
      qed
    qed
  qed
qed

lemma snd_without_text:
  assumes mi: "msginfo_ok mi" and i: "i < mi_msgmni mi" and st: "msg_struct mi s fl0 qs" and bt: "bytes_ok mi s qs"
    and m: "msgfp s = Some m" and al: "allocated (msg_perm (msgque s i))"
    and sz: "sa_msgsz a = 0" and room: "msg_cbytes (msgque s i) \<le> msg_qbytes (msgque s i)" and ty: "1 \<le> ty"
  shows "snd_post mi a i ty s (MRet 0) (msgsnd_put u now i m ty 0 0 (s\<lparr>msgfp := msg_next (msgh s m)\<rparr>))"
proof -
  let ?s2 = "s\<lparr>msgfp := msg_next (msgh s m)\<rparr>"
  let ?h = "\<lparr>msg_next = None, msg_type = ty, msg_ts = 0, msg_spot = (if (0::int) \<noteq> 0 then 0 else -1)\<rparr>"
  obtain fl where rd: "snd_ready mi ?s2 m fl qs" and held: "held_by mi s qs (msgmap s)"
    using snd_ready_pop[OF st m] by blast
  have nm: "m \<notin> queued mi qs" using rd i queued_add(2) by (auto simp: snd_ready_def)
  have wt: "with_text ?s2 = with_text s" by (simp add: with_text_def fun_eq_iff)
  have "rm.held (msgmap ?s2) (with_text s (queued mi qs)) ((\<lambda>m. text_blk mi (msgh s m))(m := text_blk mi ?h))"
    using held nm by (subst rm.held_cong[of _ _ "\<lambda>m. text_blk mi (msgh s m)"]) (auto simp: with_text_def)
  then have held': "rm.held (msgmap ?s2) (if (0::int) \<noteq> 0 then insert m (with_text ?s2 (queued mi qs))
      else with_text ?s2 (queued mi qs)) ((\<lambda>m. text_blk mi (msgh ?s2 m))(m := text_blk mi ?h))"
    by (simp add: wt)
  show ?thesis
    by (rule snd_finish[OF mi i rd st bt _ _ al _ _ _ refl _ _ _ held' _ _ _ _ ty])
      (use sz room in \<open>simp_all add: hdr_ok_def msg_of_def get_bytes_def\<close>)
qed

lemma msgsnd_alloc_post:
  assumes mi: "msginfo_ok mi" and i: "i < mi_msgmni mi" and inv: "msg_inv mi s"
    and m: "msgfp s = Some m" and al: "allocated (msg_perm (msgque s i))"
    and sz: "0 \<le> sa_msgsz a" "sa_msgsz a \<le> mi_msgmax mi" and ty: "1 \<le> ty"
    and room: "sa_msgsz a + msg_cbytes (msgque s i) \<le> msg_qbytes (msgque s i)"
  shows "\<exists>r s'. msgsnd_alloc mi u now a i ty m s = Some (r, s') \<and> snd_post mi a i ty s r s'"
proof -
  obtain fl qs where st: "msg_struct mi s fl qs" and bt: "bytes_ok mi s qs"
    using inv by (auto simp: msg_inv_def)
  show ?thesis
  proof (cases "sa_msgsz a = 0")
    case True
    then show ?thesis using snd_without_text[OF mi i st bt m al True _ ty] room
      by (simp add: msgsnd_alloc_def Let_def)
  next
    case False
    then have cnt: "0 < sa_msgsz a" "sa_msgsz a \<le> 32767" using sz mi by (auto simp: msginfo_ok_def)
    show ?thesis
    proof (cases rule: snd_with_text[OF mi i st bt m al refl cnt room ty, where u = u and now = now, case_names none some])
      case none
      have "snd_post mi a i ty s r (msg_freehdr m (s\<lparr>msgfp := msg_next (msgh s m), msgmap := mp\<rparr>))"
        if "mp = (msgmap s)\<lparr>map_want := w\<rparr>" "\<forall>v. r \<noteq> MRet v" for r mp w
        using none(2)[of mp w] that by (auto simp: snd_post_def split: mres.splits)
      from this[of "msgmap s" "map_want (msgmap s)"] this[of "(msgmap s)\<lparr>map_want := map_want (msgmap s) + 1\<rparr>"]
      show ?thesis using False none(1) by (simp add: msgsnd_alloc_def Let_def)
    next
      case (some spot mp sp ok f)
      show ?thesis
      proof (cases ok)
        case True
        with False some show ?thesis by (simp add: msgsnd_alloc_def Let_def)
      next
        case bad: False
        then obtain s4 where s4: "msg_freemap (btoq mi (sa_msgsz a)) (sp + 1)
            (s\<lparr>msgfp := msg_next (msgh s m), msgmap := mp, msgbuf := f\<rparr>) = Some s4"
          "msg_inv mi (msg_freehdr m s4)" "queues_kept mi s (msg_freehdr m s4)"
          using some(6) by auto
        then have "snd_post mi a i ty s (MErr EFAULT) (msg_freehdr m s4)" by (simp add: snd_post_def)
        with False some bad s4(1) show ?thesis by (simp add: msgsnd_alloc_def Let_def)
      qed
    qed
  qed
qed

lemma msgsnd_getres_post:
  assumes mi: "msginfo_ok mi" and inv: "msg_inv mi s" and sz: "0 \<le> sa_msgsz a" "sa_msgsz a \<le> mi_msgmax mi"
    and ty: "1 \<le> ty" and b: "b = ipc_slot (mi_msgmni mi) (sa_msqid a)"
  shows "\<exists>r s'. msgsnd_getres mi u now a i ty s = Some (r, s') \<and> snd_post mi a b ty s r s'"
proof (cases "msgconv mi (sa_msqid a) s")
  case (Pair c s1)
  have mni: "0 < mi_msgmni mi" using mi by (simp add: msginfo_ok_def)
  from mni Pair show ?thesis
  proof (cases rule: msgconv_cases)
    case (ok j)
    have inv1: "msg_inv mi s1" and qk: "queues_kept mi s s1"
      using msg_inv_same[OF ok(5) inv] queues_kept_same[OF ok(5)] ok(3) by auto
    have er: "snd_post mi a b ty s1 r (msg_unlock k s1)" if "\<forall>v. r \<noteq> MRet v" for r k
      using that by (intro snd_post_same[OF inv1 same_core_unlock]) simp_all
    have ww: "snd_post mi a b ty s1 (MSleep (SndRes i ty) (ChQp i))
        (msg_unlock i (set_queue i (set_mode (\<lambda>md. md OR MSG_WWAIT) (msgque s1 i)) s1))"
      by (rule snd_post_same[OF inv1 same_core_mode]) simp_all
    show ?thesis
    proof (cases "j = i \<and> sa_msgsz a + msg_cbytes (msgque s1 i) \<le> msg_qbytes (msgque s1 i) \<and> msgfp s1 \<noteq> None")
      case False
      then show ?thesis using ok(1) Pair er ww snd_post_pre[OF qk]
        by (auto simp: msgsnd_getres_def Let_def)
    next
      case True
      then obtain m where m: "msgfp s1 = Some m" by auto
      have i: "i < mi_msgmni mi" "b = i" using ok(2,6) True b by auto
      have al: "allocated (msg_perm (msgque s1 i))" using ok(3,8) True by (simp add: ipc_seq_ok_def)
      obtain r s' where "msgsnd_alloc mi u now a i ty m s1 = Some (r, s')" "snd_post mi a b ty s1 r s'"
        using msgsnd_alloc_post[OF mi i(1) inv1 m al sz ty, of u now] True i(2) by auto
      then show ?thesis using True m ok(1) Pair snd_post_pre[OF qk] snd_post_unlock
        by (simp add: msgsnd_getres_def Let_def not_less)
    qed
  qed (use inv Pair in \<open>simp_all add: msgsnd_getres_def snd_post_same\<close>)
qed

lemma msgsnd_start_post:
  assumes mi: "msginfo_ok mi" and inv: "msg_inv mi s"
    and b: "b = ipc_slot (mi_msgmni mi) (sa_msqid a)"
  shows "\<exists>r s' ty. msgsnd_start mi u now a s = Some (r, s') \<and> snd_post mi a b ty s r s' \<and>
    (\<forall>v. r = MRet v \<longrightarrow> sa_type a = Some ty)"
proof (cases "msgconv mi (sa_msqid a) s")
  case (Pair c s1)
  have mni: "0 < mi_msgmni mi" using mi by (simp add: msginfo_ok_def)
  from mni Pair show ?thesis
  proof (cases rule: msgconv_cases)
    case (ok j)
    let ?s2 = "msg_unlock j s1"
    have c2: "same_core s ?s2" using ok(5) same_core_unlock by (rule same_core_trans)
    have inv2: "msg_inv mi ?s2" and qk: "queues_kept mi s ?s2"
      using msg_inv_same[OF c2 inv] queues_kept_same[OF c2] ok(3) by auto
    have e: "snd_post mi a b ty s (MErr e) ?s2" for e ty
      by (rule snd_post_pre[OF qk], rule snd_post_same[OF inv2]) simp_all
    show ?thesis
    proof (cases "0 \<le> sa_msgsz a \<and> sa_msgsz a \<le> mi_msgmax mi \<and> (\<exists>ty. sa_type a = Some ty \<and> 1 \<le> ty)")
      case False
      then show ?thesis using e ok(1) Pair by (auto simp: msgsnd_start_def split: option.splits)
    next
      case True
      then obtain ty where ty: "sa_type a = Some ty" "1 \<le> ty" by auto
      obtain r s' where r: "msgsnd_getres mi u now a j ty ?s2 = Some (r, s')" "snd_post mi a b ty ?s2 r s'"
        using msgsnd_getres_post[OF mi inv2 _ _ ty(2) b, of u now j] True by auto
      have r': "snd_post mi a b ty s r s'" by (rule snd_post_pre[OF qk r(2)])
      show ?thesis
      proof (cases "ipcaccess u (msg_perm (msgque s1 j)) 128")
        case None
        with True ty ok(1) Pair r(1) have "msgsnd_start mi u now a s = Some (r, s')"
          by (simp add: msgsnd_start_def)
        with r' ty(1) show ?thesis by blast
      next
        case (Some x)
        with ok(1) Pair have "msgsnd_start mi u now a s = Some (MErr x, ?s2)"
          by (simp add: msgsnd_start_def)
        with e show ?thesis by blast
      qed
    qed
  qed (use inv Pair in \<open>simp_all add: msgsnd_start_def snd_post_same\<close>)
qed

lemma msgsnd_post:
  assumes mi: "msginfo_ok mi" and inv: "msg_inv mi s"
    and b: "b = ipc_slot (mi_msgmni mi) (sa_msqid a)"
  shows "\<exists>r s' ty. msgsnd mi u now a s = Some (r, s') \<and> snd_post mi a b ty s r s' \<and>
    (\<forall>v. r = MRet v \<longrightarrow> sa_type a = Some ty)"
proof -
  let ?s = "s\<lparr>sysinfo_msg := sysinfo_msg s + 1\<rparr>"
  have c: "same_core s ?s" by (rule same_coreI) simp_all
  have qk: "queues_kept mi s ?s" by (rule queues_kept_same[OF c]) simp
  show ?thesis using msgsnd_start_post[OF mi msg_inv_same[OF c inv] b, of u now] snd_post_pre[OF qk]
    unfolding msgsnd_def by blast
qed

lemma msgsnd_intr_post:
  assumes mi: "msginfo_ok mi" and inv: "msg_inv mi s" and r: "msgsnd_intr mi a i c s = (r, s')"
  shows "msg_inv mi s' \<and> queues_kept mi s s'"
proof (cases "msgconv mi (sa_msqid a) s")
  case (Pair cv s1)
  have mni: "0 < mi_msgmni mi" using mi by (simp add: msginfo_ok_def)
  have fin: "same_core s s' \<Longrightarrow> msgbuf s' = msgbuf s \<Longrightarrow> ?thesis"
    using msg_inv_same[OF _ inv] queues_kept_same by blast
  from mni Pair show ?thesis
  proof (cases rule: msgconv_cases)
    case (ok j)
    let ?s2 = "msg_unlock i (mwakeup (ChQp i) (set_queue i (set_mode (\<lambda>md. md AND NOT MSG_WWAIT) (msgque s1 i)) s1))"
    have "same_core s1 ?s2" using same_queue_mode(1)[of "msgque s1 i"] by (intro same_coreI) auto
    then have "same_core s s'"
      using same_core_trans[OF ok(5)] same_core_unlock r ok(1) Pair
      by (auto simp: msgsnd_intr_def split: if_splits)
    moreover have "msgbuf s' = msgbuf s" using r ok(1,3) Pair by (auto simp: msgsnd_intr_def split: if_splits)
    ultimately show ?thesis by (rule fin)
  next
    case err
    then have "s' = s1" using r Pair by (simp add: msgsnd_intr_def)
    with err fin show ?thesis by simp
  next
    case (sleep j)
    then have "s' = s" using r Pair by (simp add: msgsnd_intr_def)
    then show ?thesis by (intro fin) simp_all
  qed
qed

section \<open>Boot\<close>

text \<open>The static data before \<^verbatim>\<open>msginit\<close>: all zero.\<close>

definition msg_boot :: "msginfo \<Rightarrow> mstate \<Rightarrow> bool" where
  "msg_boot mi s \<longleftrightarrow> 2 \<le> mi_msgmap mi \<and> 0 < mi_msgtql mi \<and>
     map_ent (msgmap s) = replicate (unat (mi_msgmap mi) - 1) zero_ent \<and>
     (\<forall>m. msg_next (msgh s m) = None) \<and>
     (\<forall>i. msg_first (msgque s i) = None \<and> msg_last (msgque s i) = None \<and> msg_qnum (msgque s i) = 0 \<and>
        msg_cbytes (msgque s i) = 0 \<and> msg_qbytes (msgque s i) = 0 \<and> ip_mode (msg_perm (msgque s i)) = 0)"

lemma msginit_ok:
  assumes mi: "msginfo_ok mi0" and boot: "msg_boot mi0 s0"
  obtains mi s where "msginit mi0 got s0 = Some (mi, s)" "msginfo_ok mi" "msg_inv mi s"
proof -
  define mi where "mi = (if got then mi0 else mi0\<lparr>mi_msgseg := 0\<rparr>)"
  have ok: "msginfo_ok mi" using mi by (simp add: mi_def msginfo_ok_def)
  have same: "mi_msgtql mi = mi_msgtql mi0" "mi_msgmni mi = mi_msgmni mi0" by (simp_all add: mi_def)
  define mp where "mp = mapinit (mi_msgmap mi0) (msgmap s0)"
  obtain mp' ev where mf: "mfree mp (of_nat (mi_msgseg mi)) 1 = Some (mp', ev)" "map_wf mp'"
    "map_units mp' \<subseteq> {1..mi_msgseg mi}"
    using boot ok map_boot[of "mi_msgmap mi0" "msgmap s0" "mi_msgseg mi" thesis]
    unfolding mp_def msg_boot_def msginfo_ok_def by blast
  define s where "s = s0\<lparr>msgmap := mp', msgfp := Some 0,
      msgh := (\<lambda>m. if Suc m < mi_msgtql mi0 then (msgh s0 m)\<lparr>msg_next := Some (Suc m)\<rparr> else msgh s0 m)\<rparr>"
  have init: "msginit mi0 got s0 = Some (mi, s)"
    using mf(1) by (simp add: msginit_def mi_def[symmetric] mp_def[symmetric] s_def Let_def)
  have nx: "nxt s = (\<lambda>m. if Suc m < mi_msgtql mi then Some (Suc m) else None)"
    using boot by (auto simp: nxt_def s_def same msg_boot_def)
  have "chain (nxt s) (msgfp s) [0..<mi_msgtql mi]"
    unfolding nx using upto_chain[of 0 "mi_msgtql mi"] boot by (simp add: s_def msg_boot_def same)
  moreover have "queued mi (\<lambda>_. []) = {}" by (simp add: queued_def)
  moreover have "with_text s {} = {}" by (simp add: with_text_def)
  ultimately have "msg_struct mi s [0..<mi_msgtql mi] (\<lambda>_. [])"
    using boot mf(2,3) by (auto simp: msg_struct_def queue_ok_def hdrs_split_def s_def msg_boot_def rm.held_def disjoint_family_on_def)
  moreover have "bytes_ok mi s (\<lambda>_. [])" using boot by (simp add: bytes_ok_def s_def msg_boot_def)
  ultimately have "msg_inv mi s" unfolding msg_inv_def by blast
  with that init ok show ?thesis by blast
qed

section \<open>Reachable states\<close>

text \<open>Every interleaving of calls: between two sleeps a call runs alone, and a call whose sleep
  ended goes on at its label with the locals it had, which were checked when it started.\<close>

inductive msg_reach :: "msginfo \<Rightarrow> mstate \<Rightarrow> bool" where
  Boot: "msginfo_ok mi0 \<Longrightarrow> msg_boot mi0 s0 \<Longrightarrow> msginit mi0 got s0 = Some (mi, s) \<Longrightarrow> msg_reach mi s"
| Get: "msg_reach mi s \<Longrightarrow> msgget mi u now key flag s = (r, s') \<Longrightarrow> msg_reach mi s'"
| Ctl: "msg_reach mi s \<Longrightarrow> ds_ok ds \<Longrightarrow> msgctl mi u now ident cmd ds outok s = Some (r, s') \<Longrightarrow> msg_reach mi s'"
| Rcv: "msg_reach mi s \<Longrightarrow> msgrcv mi u now a s = Some (r, s') \<Longrightarrow> msg_reach mi s'"
| RcvLock: "msg_reach mi s \<Longrightarrow> msgrcv_start mi u now a s = Some (r, s') \<Longrightarrow> msg_reach mi s'"
| RcvAgain: "msg_reach mi s \<Longrightarrow> 0 \<le> ra_msgsz a \<Longrightarrow> msgrcv_findmsg mi u now a i s = Some (r, s') \<Longrightarrow>
    msg_reach mi s'"
| Snd: "msg_reach mi s \<Longrightarrow> msgsnd mi u now b s = Some (r, s') \<Longrightarrow> msg_reach mi s'"
| SndLock: "msg_reach mi s \<Longrightarrow> msgsnd_start mi u now b s = Some (r, s') \<Longrightarrow> msg_reach mi s'"
| SndAgain: "msg_reach mi s \<Longrightarrow> 0 \<le> sa_msgsz b \<Longrightarrow> sa_msgsz b \<le> mi_msgmax mi \<Longrightarrow> 1 \<le> ty \<Longrightarrow>
    msgsnd_getres mi u now b i ty s = Some (r, s') \<Longrightarrow> msg_reach mi s'"
| SndIntr: "msg_reach mi s \<Longrightarrow> msgsnd_intr mi b i c s = (r, s') \<Longrightarrow> msg_reach mi s'"

inductive_cases msg_reachE: "msg_reach mi s"

lemma msg_reach_inv: "msg_reach mi s \<Longrightarrow> msginfo_ok mi \<and> msg_inv mi s"
proof (induction rule: msg_reach.induct)
  case (Boot mi0 s0 got mi s)
  then show ?case by (metis msginit_ok option.inject prod.inject)
next
  case (Get mi s u now key flag r s')
  then show ?case using msgget_ok by blast
next
  case (Ctl mi s ds u now ident cmd outok r s')
  then show ?case using msgctl_ok[of mi s ds u now ident cmd outok] by (metis option.inject prod.inject)
next
  case (Rcv mi s u now a r s')
  then show ?case using msgrcv_post[of mi s _ a u now, OF _ _ refl] by (auto simp: rcv_post_def)
next
  case (RcvLock mi s u now a r s')
  then show ?case using msgrcv_start_post[of mi s _ a u now, OF _ _ refl] by (auto simp: rcv_post_def)
next
  case (RcvAgain mi s a u now i r s')
  then show ?case using msgrcv_findmsg_post[of mi s a _ u now i, OF _ _ _ refl] by (auto simp: rcv_post_def)
next
  case (Snd mi s u now b r s')
  then show ?case using msgsnd_post[of mi s _ b u now, OF _ _ refl] by (auto simp: snd_post_def)
next
  case (SndLock mi s u now b r s')
  then show ?case using msgsnd_start_post[of mi s _ b u now, OF _ _ refl] by (auto simp: snd_post_def)
next
  case (SndAgain mi s b ty u now i r s')
  then show ?case using msgsnd_getres_post[of mi s b ty _ u now i, OF _ _ _ _ _ refl] by (auto simp: snd_post_def)
next
  case (SndIntr mi s b i c r s')
  then show ?case using msgsnd_intr_post by blast
qed

section \<open>Removal\<close>

lemma msgctl_rmid:
  assumes mi: "msginfo_ok mi" and inv: "msg_inv mi s"
    and r: "msgctl mi u now ident 0 ds outok s = Some (MRet v, s')"
  obtains i where "i = ipc_slot (mi_msgmni mi) ident" "i < mi_msgmni mi" "0 \<le> ident" "msg_inv mi s'"
    "ident = ipc_id (mi_msgmni mi) (ip_seq (msg_perm (msgque s i))) i" "\<not> msglock s' i"
    "ip_mode (msg_perm (msgque s' i)) = 0" "msg_owner u (msgque s i)"
    "ip_seq (msg_perm (msgque s' i)) =
       (if s32 (ident + int (mi_msgmni mi)) < 0 then 0 else ip_seq (msg_perm (msgque s i)) + 1)"
    "\<And>j. j < mi_msgmni mi \<Longrightarrow> j \<noteq> i \<Longrightarrow> queue_msgs mi s' j = queue_msgs mi s j" "queue_msgs mi s' i = []"
proof (cases "msgconv mi ident s")
  case (Pair c s1)
  have mni: "0 < mi_msgmni mi" using mi by (simp add: msginfo_ok_def)
  from mni Pair show ?thesis
  proof (cases rule: msgconv_cases)
    case (ok i)
    have inv1: "msg_inv mi s1" using msg_inv_same ok(5) inv by blast
    obtain s2 where s2: "msg_rmid mi ident i s1 = Some s2" "msg_inv mi s2" "ip_mode (msg_perm (msgque s2 i)) = 0"
      "msg_first (msgque s2 i) = None" "ip_seq (msg_perm (msgque s2 i)) =
       (if s32 (ident + int (mi_msgmni mi)) < 0 then 0 else ip_seq (msg_perm (msgque s1 i)) + 1)"
      "same_msgs s1 s2" "msgbuf s2 = msgbuf s1"
      "\<exists>fl qs fl'. msg_struct mi s1 fl qs \<and> msg_struct mi s2 fl' (qs(i := []))"
      using msg_rmid_ok[OF mi ok(2) inv1] by metis
    have own: "msg_owner u (msgque s i)" and s': "s' = msg_unlock i s2"
      using r Pair ok(1,3) s2(1) by (auto simp: msgctl_def msgctl_cmd_def Let_def split: if_splits)
    have idd: "ident = ipc_id (mi_msgmni mi) (ip_seq (msg_perm (msgque s i))) i"
    proof -
      have d: "ident div int (mi_msgmni mi) = int (unat (ip_seq (msg_perm (msgque s i))))"
        using ok(3,8) by (simp add: ipc_seq_ok_def)
      have m: "ident mod int (mi_msgmni mi) = int i" using ok(6) mni by (simp add: ipc_slot_def)
      show ?thesis using div_mult_mod_eq[of ident "int (mi_msgmni mi)"] by (simp only: ipc_id_def d m)
    qed
    obtain fl qs fl2 where st: "msg_struct mi s1 fl qs" "msg_struct mi s2 fl2 (qs(i := []))"
      using s2(8) by blast
    have mo: "msg_of mi s2 = msg_of mi s1" by (rule same_msgs_msg_of[OF s2(6,7)])
    have "queue_msgs mi s2 j = (if j = i then [] else queue_msgs mi s1 j)" if "j < mi_msgmni mi" for j
      using queue_msgs_struct[OF st(1) that] queue_msgs_struct[OF st(2) that] mo by simp
    moreover have "queue_msgs mi s1 j = queue_msgs mi s j" "queue_msgs mi s' j = queue_msgs mi s2 j" for j
      using queue_msgs_same[OF ok(5)] queue_msgs_same[OF same_core_unlock] ok(3) by (simp_all add: s')
    ultimately have vw: "queue_msgs mi s' j = (if j = i then [] else queue_msgs mi s j)" if "j < mi_msgmni mi" for j
      using that by simp
    have q1: "msgque s1 = msgque s" by (simp add: ok(3))
    show ?thesis
      by (rule that[OF ok(6,2,7) _ idd _ _ own])
        (simp_all add: s' s2(2,3,5) vw[unfolded s'] ok(2) q1)
  qed (use r Pair in \<open>simp_all add: msgctl_def\<close>)
qed

section \<open>A concrete system\<close>

definition demo_info :: msginfo where
  "demo_info = \<lparr>mi_msgmap = 4, mi_msgmax = 64, mi_msgmnb = 32, mi_msgmni = 2, mi_msgssz = 4,
     mi_msgtql = 2, mi_msgseg = 6\<rparr>"

definition zero_perm :: ipc_perm where
  "zero_perm = \<lparr>ip_uid = 0, ip_gid = 0, ip_cuid = 0, ip_cgid = 0, ip_mode = 0, ip_seq = 0, ip_key = 0\<rparr>"

definition zero_queue :: msqid_ds where
  "zero_queue = \<lparr>msg_perm = zero_perm, msg_first = None, msg_last = None, msg_cbytes = 0,
     msg_qnum = 0, msg_qbytes = 0, msg_lspid = 0, msg_lrpid = 0, msg_stime = 0, msg_rtime = 0,
     msg_ctime = 0\<rparr>"

definition demo_zero :: mstate where
  "demo_zero = \<lparr>msgque = (\<lambda>_. zero_queue),
     msgh = (\<lambda>_. \<lparr>msg_next = None, msg_type = 0, msg_ts = 0, msg_spot = 0\<rparr>), msgfp = None,
     msgmap = \<lparr>map_free = 0, map_want = 0, map_ent = [zero_ent, zero_ent, zero_ent]\<rparr>,
     msgbuf = (\<lambda>_. 0), msglock = (\<lambda>_. False), woken = [], curpri = 0, sysinfo_msg = 0\<rparr>"

definition demo_user :: ucred where
  "demo_user = \<lparr>u_uid = 7, u_gid = 1, u_pid = 30\<rparr>"

text \<open>Booted, with queue 0 created, and with one message on it.\<close>

definition demo_boot :: mstate where
  "demo_boot = snd (the (msginit demo_info True demo_zero))"

definition demo_queue :: mstate where
  "demo_queue = snd (msgget demo_info demo_user 5 0 0x180 demo_boot)"

definition demo_send :: sndargs where
  "demo_send = \<lparr>sa_msqid = 0, sa_msgsz = 5, sa_msgflg = 0, sa_type = Some 3,
     sa_text = [10, 20, 30, 40, 50, 60]\<rparr>"

definition demo_sent :: mstate where
  "demo_sent = snd (the (msgsnd demo_info demo_user 6 demo_send demo_queue))"

lemma demo_info_ok: "msginfo_ok demo_info"
  by (simp add: msginfo_ok_def demo_info_def)

lemma demo_zero_boot: "msg_boot demo_info demo_zero"
  by (simp add: msg_boot_def demo_info_def demo_zero_def zero_queue_def zero_perm_def)
    (simp add: numeral_3_eq_3)

lemma demo_boot_reach: "msg_reach demo_info demo_boot"
proof -
  obtain mi s where i: "msginit demo_info True demo_zero = Some (mi, s)"
    using msginit_ok[OF demo_info_ok demo_zero_boot] by blast
  then have "mi = demo_info" by (auto simp: msginit_def Let_def)
  with i demo_info_ok demo_zero_boot show ?thesis by (auto simp: demo_boot_def intro: msg_reach.Boot)
qed

lemma demo_boot_simps: "msgque demo_boot = (\<lambda>_. zero_queue)" "msglock demo_boot = (\<lambda>_. False)"
  "msgfp demo_boot = Some 0" 
  "msgmap demo_boot = \<lparr>map_free = 1, map_want = 0, map_ent = [\<lparr>m_size = 6, m_addr = 1\<rparr>, zero_ent, zero_ent]\<rparr>"
  by (simp_all add: demo_boot_def msginit_def demo_info_def demo_zero_def Let_def mapinit_def mfree_def mfree_wake_def zero_ent_def)


lemma demo_queue_reach: "msg_reach demo_info demo_queue"
  unfolding demo_queue_def
  by (rule msg_reach.Get[OF demo_boot_reach, of _ _ _ _ "fst (msgget demo_info demo_user 5 0 0x180 demo_boot)"]) simp

lemma demo_get: "msgget demo_info demo_user 5 0 0x180 demo_boot = (MRet 0, demo_queue)"
proof -
  have "[0..<2] = [0, 1::nat]" by (simp add: upt_rec)
  then have "fst (msgget demo_info demo_user 5 0 0x180 demo_boot) = MRet 0"
    by (simp add: msgget_def ipcget_def demo_boot_simps demo_info_def zero_queue_def zero_perm_def
        ipc_init_perm_def ipc_id_def Let_def)
  then show ?thesis by (simp add: demo_queue_def prod_eq_iff)
qed

lemma demo_queue_simps: "msgque demo_queue = (\<lambda>_. zero_queue)(0 := zero_queue\<lparr>msg_qbytes := 32, msg_ctime := 5,
    msg_perm := zero_perm\<lparr>ip_mode := 0x8180, ip_uid := 7, ip_cuid := 7, ip_gid := 1, ip_cgid := 1\<rparr>\<rparr>)"
  "msglock demo_queue = (\<lambda>_. False)" "msgfp demo_queue = Some 0"
  "msgmap demo_queue = msgmap demo_boot"
proof -
  have "[0..<2] = [0, 1::nat]" by (simp add: upt_rec)
  then show "msgque demo_queue = (\<lambda>_. zero_queue)(0 := zero_queue\<lparr>msg_qbytes := 32, msg_ctime := 5,
    msg_perm := zero_perm\<lparr>ip_mode := 0x8180, ip_uid := 7, ip_cuid := 7, ip_gid := 1, ip_cgid := 1\<rparr>\<rparr>)"
  "msglock demo_queue = (\<lambda>_. False)" "msgfp demo_queue = Some 0" "msgmap demo_queue = msgmap demo_boot"
    by (simp_all add: demo_queue_def msgget_def ipcget_def demo_boot_simps demo_info_def zero_queue_def zero_perm_def
        ipc_init_perm_def demo_user_def Let_def)
qed

lemma demo_snd: "msgsnd demo_info demo_user 6 demo_send demo_queue = Some (MRet 0, demo_sent)"
proof -
  have "\<exists>s. msgsnd demo_info demo_user 6 demo_send demo_queue = Some (MRet 0, s)"
    by (simp add: msgsnd_def msgsnd_start_def msgsnd_getres_def msgsnd_alloc_def msgconv_def demo_send_def demo_info_def
        demo_queue_simps demo_boot_simps ipc_slot_def ipc_seq_ok_def zero_queue_def zero_perm_def
        ipcaccess_def demo_user_def btoq_def malloc_def Let_def iomove_in_def)
  then show ?thesis by (auto simp: demo_sent_def)
qed

lemma demo_sent_reach: "msg_reach demo_info demo_sent"
  by (rule msg_reach.Snd[OF demo_queue_reach demo_snd])

lemma demo_queue_empty: "queue_msgs demo_info demo_queue 0 = []"
  by (simp add: queue_msgs_def demo_queue_simps zero_queue_def demo_info_def eval_nat_numeral)

lemma demo_sent_msgs: "queue_msgs demo_info demo_sent 0 = [(3, [10, 20, 30, 40, 50])]"
proof -
  have "msg_inv demo_info demo_queue" using msg_reach_inv[OF demo_queue_reach] by simp
  from msgsnd_post[OF demo_info_ok this refl, of demo_user 6 demo_send] demo_snd demo_queue_empty
  show ?thesis
    by (auto simp: snd_post_def sent_def demo_send_def ipc_slot_def)
qed

lemma demo_sent_simps:
  "msglock demo_sent 0 = False" "msg_first (msgque demo_sent 0) = Some 0"
  "msg_perm (msgque demo_sent 0) = msg_perm (msgque demo_queue 0)"
  "msgh demo_sent 0 = \<lparr>msg_next = None, msg_type = 3, msg_ts = 5, msg_spot = 0\<rparr>"
  by (simp_all add: demo_sent_def msgsnd_def msgsnd_start_def msgsnd_getres_def msgsnd_alloc_def msgconv_def
        demo_send_def demo_info_def demo_queue_simps demo_boot_simps ipc_slot_def ipc_seq_ok_def
        zero_queue_def zero_perm_def ipcaccess_def demo_user_def btoq_def malloc_def Let_def
        iomove_in_def msgsnd_put_def)

lemma demo_rcv:
  "\<exists>r s'. msgrcv demo_info demo_user 8 \<lparr>ra_msqid = 0, ra_msgsz = 64, ra_msgtyp = -9, ra_msgflg = 0,
      ra_typeok = True, ra_room = 64\<rparr> demo_sent = Some (r, s') \<and> r = MRcv 3 [10, 20, 30, 40, 50]"
proof -
  let ?a = "\<lparr>ra_msqid = 0, ra_msgsz = 64, ra_msgtyp = -9, ra_msgflg = 0, ra_typeok = True, ra_room = 64\<rparr>"
  have "msginfo_ok demo_info" "msg_inv demo_info demo_sent" using msg_reach_inv[OF demo_sent_reach] by auto
  then obtain r s' where r: "msgrcv demo_info demo_user 8 ?a demo_sent = Some (r, s')" "rcv_post demo_info ?a 0 demo_sent r s'"
    using msgrcv_post[of demo_info demo_sent 0 ?a demo_user 8] by (auto simp: ipc_slot_def)
  have scan: "rcv_scan (msgh demo_sent) (- 9) None (Some 0) None None = Some (Some 0, None)"
    by (subst rcv_scan.simps, simp add: demo_sent_simps) (subst rcv_scan.simps, simp)
  have "\<exists>t x. r = MRcv t x"
    using r(1) scan by (auto simp: msgrcv_def msgrcv_start_def msgconv_def msgrcv_findmsg_def msgrcv_take_def
        demo_sent_simps demo_info_def ipc_slot_def ipc_seq_ok_def demo_queue_simps zero_perm_def ipcaccess_def
        demo_user_def Let_def zero_queue_def)
  then obtain t x where "r = MRcv t x" by blast
  moreover from this have "t = 3" "x = [10, 20, 30, 40, 50]"
    using r(2) demo_sent_msgs by (auto simp: rcv_post_def received_def Let_def)
  ultimately show ?thesis using r(1) by blast
qed

lemma ipc_id_inj: "i < mni \<Longrightarrow> j < mni \<Longrightarrow> ipc_id mni q i = ipc_id mni q' j \<Longrightarrow> i = j \<and> q = q'"
proof -
  assume h: "i < mni" "j < mni" "ipc_id mni q i = ipc_id mni q' j"
  then have ij: "i = j" by (metis ipc_slot_id)
  then have "int (unat q) * int mni = int (unat q') * int mni" using h(3) by (simp add: ipc_id_def)
  then have "int (unat q) = int (unat q')" using h(1) by (metis less_nat_zero_code mult_right_cancel of_nat_eq_0_iff)
  then show ?thesis using ij by (metis of_nat_eq_iff word_unat_eq_iff)
qed

lemma msgget_new_id:
  assumes "ip_mode (msg_perm (msgque s i)) = 0" "i < mi_msgmni mi"
    and "fst (msgget mi u now key flag s) = MRet (ipc_id (mi_msgmni mi) q i)"
  shows "ip_seq (msg_perm (msgque s i)) = q"
proof -
  let ?ps = "map (\<lambda>i. msg_perm (msgque s i)) [0..<mi_msgmni mi]"
  obtain j new p where g: "ipcget u key flag ?ps = Inr (j, new, p)"
    "ipc_id (mi_msgmni mi) (ip_seq p) j = ipc_id (mi_msgmni mi) q i"
    using assms(3) by (auto simp: msgget_def Let_def split: sum.splits prod.splits if_splits)
  have j: "j < length ?ps" "ip_seq p = ip_seq (?ps ! j)"
    using g(1) by (auto elim!: ipcget_cases simp: ipc_init_perm_def)
  then have "j = i" "ip_seq p = q" using ipc_id_inj[OF _ assms(2) g(2)] by auto
  with j show ?thesis by simp
qed

lemma rmid_new_seq:
  assumes "i < mni" "mni < 65536" "ident = ipc_id mni q i"
  shows "(if s32 (ident + int mni) < 0 then 0 else q + 1) \<noteq> q"
proof (cases "s32 (ident + int mni) < 0")
  case True
  have "q \<noteq> 0"
  proof
    assume "q = 0"
    then have "ident = int i" using assms(3) by (simp add: ipc_id_def)
    then show False using True assms(1,2) by simp
  qed
  then show ?thesis using True by simp
qed simp

section \<open>Properties\<close>

text \<open>C3: in every state the system calls can reach, in any interleaving of their pieces, the
  message tables are consistent: each header is free or on exactly one queue, the counts agree
  with the chains, the texts occupy disjoint allocated blocks. From such a state no call
  follows a wild pointer or loops: each returns a result and a new state.\<close>

theorem msg_calls_consistent:
  assumes "msg_reach mi s"
  shows "msg_inv mi s \<and> (\<exists>r s'. msgrcv mi u now a s = Some (r, s')) \<and>
    (\<exists>r s'. msgsnd mi u now b s = Some (r, s')) \<and>
    (ds_ok ds \<longrightarrow> (\<exists>r s'. msgctl mi u now ident cmd ds outok s = Some (r, s')))"
proof -
  have i: "msginfo_ok mi" "msg_inv mi s" using msg_reach_inv[OF assms] by auto
  show ?thesis
    using i msgrcv_post[OF i refl, of u now a] msgsnd_post[OF i refl, of u now b]
      msgctl_ok[OF i, of ds u now ident cmd outok] by blast
qed

theorem msg_calls_consistent_witness:
  "msg_reach demo_info demo_sent \<and> msg_inv demo_info demo_sent \<and> ds_ok (Some zero_queue) \<and>
   (\<exists>r s'. msgctl demo_info demo_user 9 0 1 (Some zero_queue) True demo_sent = Some (r, s'))"
proof -
  have "ds_ok (Some zero_queue)" by (simp add: ds_ok_def zero_queue_def)
  then show ?thesis
    using msg_calls_consistent[OF demo_sent_reach, of demo_user 9 undefined demo_send "Some zero_queue" 0 1 True]
      demo_sent_reach by blast
qed

text \<open>C1: a successful \<^verbatim>\<open>msgsnd\<close> appends exactly one message to its queue, with the caller's
  type and the first \<^verbatim>\<open>msgsz\<close> bytes of the caller's text, and changes no message of any
  queue; a call that fails or sleeps changes no queue at all.\<close>

theorem msgsnd_appends:
  assumes "msg_reach mi s" and "msgsnd mi u now a s = Some (r, s')"
  shows "let i = ipc_slot (mi_msgmni mi) (sa_msqid a) in
    if r = MRet 0 then
      queue_msgs mi s' i = queue_msgs mi s i @ [(the (sa_type a), take (nat (sa_msgsz a)) (sa_text a))] \<and>
      (\<forall>j<mi_msgmni mi. j \<noteq> i \<longrightarrow> queue_msgs mi s' j = queue_msgs mi s j)
    else \<forall>j<mi_msgmni mi. queue_msgs mi s' j = queue_msgs mi s j"
proof -
  have i: "msginfo_ok mi" "msg_inv mi s" using msg_reach_inv[OF assms(1)] by auto
  obtain ty where "snd_post mi a (ipc_slot (mi_msgmni mi) (sa_msqid a)) ty s r s'"
    "\<forall>v. r = MRet v \<longrightarrow> sa_type a = Some ty"
    using msgsnd_post[OF i refl, of u now a] assms(2) by auto
  then show ?thesis by (cases r) (auto simp: snd_post_def sent_def queues_kept_def Let_def)
qed

theorem msgsnd_appends_witness:
  "msgsnd demo_info demo_user 6 demo_send demo_queue = Some (MRet 0, demo_sent) \<and>
   queue_msgs demo_info demo_sent 0 = queue_msgs demo_info demo_queue 0 @ [(3, [10, 20, 30, 40, 50])]"
  using msgsnd_appends[OF demo_queue_reach demo_snd] demo_snd
  by (simp add: Let_def demo_send_def ipc_slot_def)

text \<open>C2: a successful \<^verbatim>\<open>msgrcv\<close> removes exactly one message, the one its type argument
  selects, and hands over that message's type and its text, cut to \<^verbatim>\<open>msgsz\<close> only under
  \<^verbatim>\<open>MSG_NOERROR\<close>; a call that fails or sleeps changes no queue.\<close>

theorem msgrcv_takes_selected:
  assumes "msg_reach mi s" and "msgrcv mi u now a s = Some (r, s')"
  shows "let i = ipc_slot (mi_msgmni mi) (ra_msqid a); L = queue_msgs mi s i in
    case r of
      MRcv ty txt \<Rightarrow> \<exists>k<length L. pick (ra_msgtyp a) (map fst L) = Some k \<and>
        ty = fst (L ! k) \<and> txt = take (nat (ra_msgsz a)) (snd (L ! k)) \<and>
        (int (length (snd (L ! k))) \<le> ra_msgsz a \<or> ra_msgflg a AND MSG_NOERROR \<noteq> 0) \<and>
        queue_msgs mi s' i = take k L @ drop (Suc k) L \<and>
        (\<forall>j<mi_msgmni mi. j \<noteq> i \<longrightarrow> queue_msgs mi s' j = queue_msgs mi s j)
    | _ \<Rightarrow> \<forall>j<mi_msgmni mi. queue_msgs mi s' j = queue_msgs mi s j"
proof -
  have i: "msginfo_ok mi" "msg_inv mi s" using msg_reach_inv[OF assms(1)] by auto
  have "rcv_post mi a (ipc_slot (mi_msgmni mi) (ra_msqid a)) s r s'"
    using msgrcv_post[OF i refl, of u now a] assms(2) by auto
  then show ?thesis by (cases r) (auto simp: rcv_post_def received_def queues_kept_def Let_def)
qed

theorem msgrcv_takes_selected_witness:
  "\<exists>s'. msgrcv demo_info demo_user 8 \<lparr>ra_msqid = 0, ra_msgsz = 64, ra_msgtyp = -9, ra_msgflg = 0,
      ra_typeok = True, ra_room = 64\<rparr> demo_sent = Some (MRcv 3 [10, 20, 30, 40, 50], s') \<and>
    queue_msgs demo_info s' 0 = []"
proof -
  let ?a = "\<lparr>ra_msqid = 0, ra_msgsz = 64, ra_msgtyp = -9, ra_msgflg = 0, ra_typeok = True, ra_room = 64\<rparr>"
  obtain r s' where r: "msgrcv demo_info demo_user 8 ?a demo_sent = Some (r, s')" "r = MRcv 3 [10, 20, 30, 40, 50]"
    using demo_rcv by blast
  from msgrcv_takes_selected[OF demo_sent_reach r(1)] r show ?thesis
    by (auto simp: demo_sent_msgs Let_def ipc_slot_def)
qed

text \<open>C15: \<^verbatim>\<open>IPC_RMID\<close> needs the owner, the creator or the super-user, empties the queue and
  kills the identifier: afterwards it converts to \<^verbatim>\<open>EINVAL\<close>, and a queue created in the same
  slot gets another one.\<close>

theorem msgctl_rmid_kills_id:
  assumes "msg_reach mi s" and "msgctl mi u now ident 0 ds outok s = Some (MRet v, s')"
    and "mi_msgmni mi < 65536"
  shows "msg_owner u (msgque s (ipc_slot (mi_msgmni mi) ident)) \<and>
    queue_msgs mi s' (ipc_slot (mi_msgmni mi) ident) = [] \<and>
    fst (msgconv mi ident s') = ConvErr EINVAL \<and>
    fst (msgget mi w now' key flag s') \<noteq> MRet ident"
proof -
  have i: "msginfo_ok mi" "msg_inv mi s" using msg_reach_inv[OF assms(1)] by auto
  show ?thesis
  proof (rule msgctl_rmid[OF i assms(2)])
    fix k
    assume k: "k = ipc_slot (mi_msgmni mi) ident" "k < mi_msgmni mi" "0 \<le> ident"
      "ident = ipc_id (mi_msgmni mi) (ip_seq (msg_perm (msgque s k))) k" "\<not> msglock s' k"
      "ip_mode (msg_perm (msgque s' k)) = 0" "msg_owner u (msgque s k)" "queue_msgs mi s' k = []"
      "ip_seq (msg_perm (msgque s' k)) =
       (if s32 (ident + int (mi_msgmni mi)) < 0 then 0 else ip_seq (msg_perm (msgque s k)) + 1)"
    have "fst (msgconv mi ident s') = ConvErr EINVAL"
      using k(3,5,6) by (simp add: msgconv_def ipc_seq_ok_def Let_def flip: k(1))
    moreover have "fst (msgget mi w now' key flag s') \<noteq> MRet ident"
      using msgget_new_id[OF k(6,2)] rmid_new_seq[OF k(2) assms(3) k(4)] k(4,9) by metis
    ultimately show ?thesis using k(7,8) unfolding k(1)[symmetric] by blast
  qed
qed

theorem msgctl_rmid_kills_id_witness:
  "\<exists>s'. msgctl demo_info demo_user 9 0 0 None True demo_sent = Some (MRet 0, s') \<and>
     queue_msgs demo_info s' 0 = [] \<and> fst (msgconv demo_info 0 s') = ConvErr EINVAL"
proof -
  have "msginfo_ok demo_info" "msg_inv demo_info demo_sent" using msg_reach_inv[OF demo_sent_reach] by auto
  then obtain r s' where r: "msgctl demo_info demo_user 9 0 0 None True demo_sent = Some (r, s')"
    using msgctl_ok[of demo_info demo_sent None demo_user 9 0 0 True] unfolding ds_ok_def by blast
  moreover from this have "r = MRet 0"
    by (auto simp: msgctl_def msgconv_def msgctl_cmd_def Let_def demo_sent_simps demo_queue_simps demo_info_def
        ipc_slot_def ipc_seq_ok_def msg_owner_def demo_user_def zero_perm_def)
  moreover have "mi_msgmni demo_info < 65536" by (simp add: demo_info_def)
  ultimately show ?thesis using msgctl_rmid_kills_id[OF demo_sent_reach, of demo_user 9 0 None True 0 s']
    by (auto simp: ipc_slot_def)
qed

end
