(* ===== verification/Sem.thy ===== *)
theory Sem
  imports Ipc Resource_Map
begin

text \<open>
  System V semaphores: \<^verbatim>\<open>uts/m68k/io/sem.c\<close> and \<^verbatim>\<open>sys/sem.h\<close>. The tables \<^verbatim>\<open>sema[]\<close>, \<^verbatim>\<open>sem[]\<close>,
  \<^verbatim>\<open>sem_undo[]\<close> (indexed by process slot) and \<^verbatim>\<open>semu[]\<close> are functions of the index. The active
  entries \<^verbatim>\<open>un_ent[0..un_cnt-1]\<close> of an undo structure are a list. \<open>None\<close> as the result of a
  call is a wild pointer or an endless walk. A \<^verbatim>\<open>semop\<close> that sleeps ends with \<open>OSleep\<close> and goes
  on with \<open>semop_again\<close>, or with \<open>semop_intr\<close> after a signal.
\<close>

section \<open>State\<close>

record seminfo =
  si_semmap :: u32
  si_semmni :: nat
  si_semmns :: nat
  si_semmnu :: nat
  si_semmsl :: int
  si_semopm :: nat
  si_semume :: nat
  si_semvmx :: int
  si_semaem :: int

record semid_ds =
  sem_perm :: ipc_perm
  sem_base :: nat
  sem_nsems :: nat
  sem_otime :: int
  sem_ctime :: int

record sem =
  semval :: int
  sempid :: int
  semncnt :: int
  semzcnt :: int

record undo =
  un_aoe :: int
  un_num :: int
  un_id :: int

record sem_undo =
  un_np :: ptr
  un_ent :: "undo list"

record sembuf =
  sem_num :: nat
  sem_op :: int
  sem_flg :: u16

datatype schan = SemN nat | SemZ nat

record sstate =
  sema :: "nat \<Rightarrow> semid_ds"
  sems :: "nat \<Rightarrow> sem"
  semmap :: rmap
  undo_of :: "nat \<Rightarrow> ptr"
  semu :: "nat \<Rightarrow> sem_undo"
  semunp :: ptr
  semfup :: ptr
  swoken :: "schan list"
  sysinfo_sema :: int

abbreviation (input) SEM_A :: u16 where "SEM_A \<equiv> 0x80"
abbreviation (input) SEM_R :: u16 where "SEM_R \<equiv> 0x100"
abbreviation (input) SEM_UNDO :: u16 where "SEM_UNDO \<equiv> 0x1000"
abbreviation (input) SEM_NOWAIT :: u16 where "SEM_NOWAIT \<equiv> 0x800"

definition set_sem :: "nat \<Rightarrow> sem \<Rightarrow> sstate \<Rightarrow> sstate" where
  "set_sem i x s = s\<lparr>sems := (sems s)(i := x)\<rparr>"

definition set_semu :: "nat \<Rightarrow> sem_undo \<Rightarrow> sstate \<Rightarrow> sstate" where
  "set_semu u x s = s\<lparr>semu := (semu s)(u := x)\<rparr>"

definition set_sema :: "nat \<Rightarrow> semid_ds \<Rightarrow> sstate \<Rightarrow> sstate" where
  "set_sema i x s = s\<lparr>sema := (sema s)(i := x)\<rparr>"

definition swakeup :: "schan \<Rightarrow> sstate \<Rightarrow> sstate" where
  "swakeup c s = s\<lparr>swoken := swoken s @ [c]\<rparr>"

text \<open>\<^verbatim>\<open>if (semp->semncnt) { semp->semncnt = 0; wakeup(&semp->semncnt); }\<close>, and for \<^verbatim>\<open>semzcnt\<close>.\<close>

definition wake_n :: "nat \<Rightarrow> sstate \<Rightarrow> sstate" where
  "wake_n i s = (if semncnt (sems s i) \<noteq> 0
     then swakeup (SemN i) (set_sem i ((sems s i)\<lparr>semncnt := 0\<rparr>) s) else s)"

definition wake_z :: "nat \<Rightarrow> sstate \<Rightarrow> sstate" where
  "wake_z i s = (if semzcnt (sems s i) \<noteq> 0
     then swakeup (SemZ i) (set_sem i ((sems s i)\<lparr>semzcnt := 0\<rparr>) s) else s)"

section \<open>Adjust on exit\<close>

text \<open>The part of \<^verbatim>\<open>semaoe\<close> on the entries of one structure: they are ordered by id and
  number; a new adjustment is inserted, added to its entry, or cancels it.\<close>

definition before :: "int \<Rightarrow> int \<Rightarrow> undo \<Rightarrow> bool" where
  "before ident num e \<longleftrightarrow> un_id e < ident \<or> (un_id e = ident \<and> un_num e < num)"

definition aoe_entry :: "seminfo \<Rightarrow> int \<Rightarrow> int \<Rightarrow> int \<Rightarrow> undo list \<Rightarrow> errno + undo list" where
  "aoe_entry si val ident num es =
     (let lo = takeWhile (before ident num) es; hi = dropWhile (before ident num) es
      in if hi \<noteq> [] \<and> un_id (hd hi) = ident \<and> un_num (hd hi) = num then
           (let a = s16 (un_aoe (hd hi) - val)
            in if a > si_semaem si \<or> a < - si_semaem si then Inl ERANGE
               else if a = 0 then Inr (lo @ tl hi)
               else Inr (lo @ (hd hi)\<lparr>un_aoe := a\<rparr> # tl hi))
         else if length es \<ge> si_semume si then Inl EINVAL
         else Inr (lo @ \<lparr>un_aoe = s16 (- val), un_num = num, un_id = ident\<rparr> # hi))"

text \<open>\<^verbatim>\<open>for (up2 = semunp; up2 != NULL; up2 = up2->un_np) if (up2->un_np == up) ...\<close>\<close>

partial_function (option) undo_pred :: "(nat \<Rightarrow> sem_undo) \<Rightarrow> ptr \<Rightarrow> nat \<Rightarrow> ptr option" where
  "undo_pred U p u =
     (case p of
        None \<Rightarrow> Some None
      | Some x \<Rightarrow> if un_np (U x) = Some u then Some (Some x) else undo_pred U (un_np (U x)) u)"

definition undo_unlink :: "nat \<Rightarrow> sstate \<Rightarrow> sstate option" where
  "undo_unlink u s =
     (if semunp s = Some u then Some (s\<lparr>semunp := un_np (semu s u)\<rparr>)
      else map_option (\<lambda>pr. case pr of
                None \<Rightarrow> s
              | Some x \<Rightarrow> set_semu x ((semu s x)\<lparr>un_np := un_np (semu s u)\<rparr>) s)
             (undo_pred (semu s) (semunp s) u))"

definition undo_np_clear :: "nat \<Rightarrow> sstate \<Rightarrow> sstate" where
  "undo_np_clear u s = set_semu u ((semu s u)\<lparr>un_np := None\<rparr>) s"

text \<open>\<open>p\<close> is the slot of the calling process.\<close>

definition semaoe :: "seminfo \<Rightarrow> nat \<Rightarrow> int \<Rightarrow> int \<Rightarrow> int \<Rightarrow> sstate \<Rightarrow> (errno option \<times> sstate) option" where
  "semaoe si p val ident num s =
     (if val = 0 then Some (None, s)
      else if val > si_semaem si \<or> val < - si_semaem si then Some (Some ERANGE, s)
      else
        case (case undo_of s p of
                Some u \<Rightarrow> Some (u, s)
              | None \<Rightarrow> (case semfup s of
                   None \<Rightarrow> None
                 | Some u \<Rightarrow> Some (u, undo_np_clear u
                     (s\<lparr>semfup := un_np (semu s u), undo_of := (undo_of s)(p := Some u)\<rparr>)))) of
          None \<Rightarrow> Some (Some ENOSPC, s)
        | Some (u, s1) \<Rightarrow>
            let es = un_ent (semu s1 u)
            in (case aoe_entry si val ident num es of
                  Inl e \<Rightarrow> Some (Some e, s1)
                | Inr es' \<Rightarrow>
                    let s2 = set_semu u ((semu s1 u)\<lparr>un_ent := es'\<rparr>) s1
                    in if es = [] then
                         Some (None, set_semu u ((semu s2 u)\<lparr>un_np := semunp s2\<rparr>) (s2\<lparr>semunp := Some u\<rparr>))
                       else if es' = [] then
                         map_option (\<lambda>s3. (None, undo_np_clear u s3)) (undo_unlink u s2)
                       else Some (None, s2)))"

section \<open>semconv, semunrm, semundo, semexit\<close>

definition semconv :: "seminfo \<Rightarrow> int \<Rightarrow> sstate \<Rightarrow> nat option" where
  "semconv si ident s =
     (if ident < 0 then None
      else let i = ipc_slot (si_semmni si) ident
           in if ipc_seq_ok (si_semmni si) ident (sem_perm (sema s i)) then Some i else None)"

text \<open>The inner loop of \<^verbatim>\<open>semunrm\<close>: entries of \<open>ident\<close> from \<open>low\<close> to \<open>high\<close> go.\<close>

fun unrm_ents :: "int \<Rightarrow> int \<Rightarrow> int \<Rightarrow> undo list \<Rightarrow> undo list" where
  "unrm_ents ident low high [] = []"
| "unrm_ents ident low high (e # es) =
     (if ident < un_id e then e # es
      else if ident > un_id e \<or> low > un_num e then e # unrm_ents ident low high es
      else if high < un_num e then e # es
      else unrm_ents ident low high es)"

partial_function (option) unrm_walk ::
    "int \<Rightarrow> int \<Rightarrow> int \<Rightarrow> ptr \<Rightarrow> ptr \<Rightarrow> sstate \<Rightarrow> sstate option" where
  "unrm_walk ident low high pp p s =
     (case p of
        None \<Rightarrow> Some s
      | Some x \<Rightarrow>
          let es = unrm_ents ident low high (un_ent (semu s x));
              s1 = set_semu x ((semu s x)\<lparr>un_ent := es\<rparr>) s;
              nx = un_np (semu s1 x)
          in if es = [] then
               (case pp of
                  None \<Rightarrow> unrm_walk ident low high None nx (undo_np_clear x (s1\<lparr>semunp := nx\<rparr>))
                | Some q \<Rightarrow> unrm_walk ident low high pp nx
                    (undo_np_clear x (set_semu q ((semu s1 q)\<lparr>un_np := nx\<rparr>) s1)))
             else unrm_walk ident low high (Some x) nx s1)"

definition semunrm :: "int \<Rightarrow> int \<Rightarrow> int \<Rightarrow> sstate \<Rightarrow> sstate option" where
  "semunrm ident low high s = unrm_walk ident low high None (semunp s) s"

text \<open>\<open>ops\<close>: the operations done so far, the last one first.\<close>

fun semundo :: "seminfo \<Rightarrow> nat \<Rightarrow> int \<Rightarrow> nat \<Rightarrow> sembuf list \<Rightarrow> sstate \<Rightarrow> sstate option" where
  "semundo si p ident base [] s = Some s"
| "semundo si p ident base (op # ops) s =
     (if sem_op op = 0 then semundo si p ident base ops s
      else
        let i = base + sem_num op;
            s1 = set_sem i ((sems s i)\<lparr>semval := us16 (semval (sems s i) - sem_op op)\<rparr>) s
        in Option.bind (if sem_flg op AND SEM_UNDO \<noteq> 0
                        then map_option snd (semaoe si p (s16 (- sem_op op)) ident (int (sem_num op)) s1)
                        else Some s1)
             (semundo si p ident base ops))"

text \<open>The loop of \<^verbatim>\<open>semexit\<close> over the entries, the last one first.\<close>

fun semexit_ents :: "seminfo \<Rightarrow> undo list \<Rightarrow> sstate \<Rightarrow> sstate" where
  "semexit_ents si [] s = s"
| "semexit_ents si (e # es) s =
     semexit_ents si es
       (case semconv si (un_id e) s of
          None \<Rightarrow> s
        | Some k \<Rightarrow>
            let i = sem_base (sema s k) + nat (un_num e);
                v = semval (sems s i) + un_aoe e
            in if v < 0 \<or> v > si_semvmx si then s
               else
                 let s1 = set_sem i ((sems s i)\<lparr>semval := us16 v\<rparr>) s;
                     s2 = (if v = 0 then wake_z i s1 else s1)
                 in if un_aoe e > 0 then wake_n i s2 else s2)"

definition semexit :: "seminfo \<Rightarrow> nat \<Rightarrow> sstate \<Rightarrow> sstate option" where
  "semexit si p s =
     (case undo_of s p of
        None \<Rightarrow> Some s
      | Some u \<Rightarrow>
          map_option (\<lambda>s1. set_semu u ((semu s1 u)\<lparr>un_np := semfup s1\<rparr>)
                             (s1\<lparr>semfup := Some u, undo_of := (undo_of s1)(p := None)\<rparr>))
            (if un_ent (semu s u) = [] then Some s
             else
               let s1 = semexit_ents si (rev (un_ent (semu s u))) s;
                   s2 = set_semu u ((semu s1 u)\<lparr>un_ent := []\<rparr>) s1
               in undo_unlink u s2))"

section \<open>semop\<close>

datatype opres = ODone | OErr errno | OSleep schan

definition sem_adjust :: "seminfo \<Rightarrow> nat \<Rightarrow> int \<Rightarrow> sembuf \<Rightarrow> sstate \<Rightarrow> (errno option \<times> sstate) option" where
  "sem_adjust si p ident op s =
     (if sem_flg op AND SEM_UNDO \<noteq> 0
      then semaoe si p (sem_op op) ident (int (sem_num op)) s else Some (None, s))"

definition sem_bump :: "nat \<Rightarrow> int \<Rightarrow> sstate \<Rightarrow> sstate" where
  "sem_bump i d s = set_sem i ((sems s i)\<lparr>semval := us16 (semval (sems s i) + d)\<rparr>) s"

text \<open>The loop over the operations; \<open>dn\<close> are those done, the last one first.\<close>

fun sem_loop ::
    "seminfo \<Rightarrow> nat \<Rightarrow> int \<Rightarrow> nat \<Rightarrow> sembuf list \<Rightarrow> sembuf list \<Rightarrow> sstate \<Rightarrow> (opres \<times> sstate) option" where
  "sem_loop si p ident base dn [] s = Some (ODone, s)"
| "sem_loop si p ident base dn (op # ops) s =
     (let i = base + sem_num op;
          fail = (\<lambda>r s1. map_option (Pair r) (semundo si p ident base dn s1))
      in if sem_op op > 0 then
           (if sem_op op + semval (sems s i) > si_semvmx si then fail (OErr ERANGE) s
            else Option.bind (sem_adjust si p ident op s) (\<lambda>(e, s1). case e of
                Some err \<Rightarrow> fail (OErr err) s1
              | None \<Rightarrow>
                  let s2 = wake_n i (sem_bump i (sem_op op) s1)
                  in sem_loop si p ident base (op # dn) ops
                       (if semval (sems s2 i) = 0 then wake_z i s2 else s2)))
         else if sem_op op < 0 then
           (if semval (sems s i) \<ge> - sem_op op then
              Option.bind (sem_adjust si p ident op s) (\<lambda>(e, s1). case e of
                Some err \<Rightarrow> fail (OErr err) s1
              | None \<Rightarrow>
                  let s2 = sem_bump i (sem_op op) s1
                  in sem_loop si p ident base (op # dn) ops
                       (if semval (sems s2 i) = 0 then wake_z i s2 else s2))
            else if sem_flg op AND SEM_NOWAIT \<noteq> 0 then fail (OErr EAGAIN) s
            else map_option (\<lambda>(r, s1). (r, set_sem i ((sems s1 i)\<lparr>semncnt := us16 (semncnt (sems s1 i) + 1)\<rparr>) s1))
                   (fail (OSleep (SemN i)) s))
         else if semval (sems s i) \<noteq> 0 then
           (if sem_flg op AND SEM_NOWAIT \<noteq> 0 then fail (OErr EAGAIN) s
            else map_option (\<lambda>(r, s1). (r, set_sem i ((sems s1 i)\<lparr>semzcnt := us16 (semzcnt (sems s1 i) + 1)\<rparr>) s1))
                   (fail (OSleep (SemZ i)) s))
         else sem_loop si p ident base (op # dn) ops s)"

text \<open>All operations succeeded: the last part of \<^verbatim>\<open>semop\<close>.\<close>

definition sem_commit :: "ucred \<Rightarrow> int \<Rightarrow> nat \<Rightarrow> sembuf list \<Rightarrow> sstate \<Rightarrow> sstate" where
  "sem_commit u now k ops s =
     (let base = sem_base (sema s k);
          s1 = fold (\<lambda>op t. set_sem (base + sem_num op)
                      ((sems t (base + sem_num op))\<lparr>sempid := u_pid u\<rparr>) t) ops s
      in set_sema k ((sema s1 k)\<lparr>sem_otime := now\<rparr>) s1)"

definition semop_check ::
    "seminfo \<Rightarrow> ucred \<Rightarrow> nat \<Rightarrow> int \<Rightarrow> int \<Rightarrow> nat \<Rightarrow> sembuf list \<Rightarrow> sstate \<Rightarrow> (opres \<times> sstate) option" where
  "semop_check si u p now ident k ops s =
     map_option (\<lambda>(r, s1). (r, if r = ODone then sem_commit u now k ops s1 else s1))
       (sem_loop si p ident (sem_base (sema s k)) [] ops s)"

fun sem_verify :: "ucred \<Rightarrow> semid_ds \<Rightarrow> sembuf list \<Rightarrow> errno option" where
  "sem_verify u d [] = None"
| "sem_verify u d (op # ops) =
     (case ipcaccess u (sem_perm d) (if sem_op op \<noteq> 0 then SEM_A else SEM_R) of
        Some e \<Rightarrow> Some e
      | None \<Rightarrow> if sem_num op \<ge> sem_nsems d then Some EFBIG else sem_verify u d ops)"

text \<open>\<open>ops\<close>: the operations as copied in from the user, \<open>None\<close> on a fault.\<close>

definition semop ::
    "seminfo \<Rightarrow> ucred \<Rightarrow> nat \<Rightarrow> int \<Rightarrow> int \<Rightarrow> nat \<Rightarrow> sembuf list option \<Rightarrow> sstate \<Rightarrow> (opres \<times> sstate) option" where
  "semop si u p now ident nsops ops s0 =
     (let s = s0\<lparr>sysinfo_sema := sysinfo_sema s0 + 1\<rparr>
      in case semconv si ident s of
           None \<Rightarrow> Some (OErr EINVAL, s)
         | Some k \<Rightarrow>
             if nsops > si_semopm si then Some (OErr E2BIG, s)
             else (case ops of
                None \<Rightarrow> Some (OErr EFAULT, s)
              | Some os \<Rightarrow> (case sem_verify u (sema s k) os of
                   Some e \<Rightarrow> Some (OErr e, s)
                 | None \<Rightarrow> semop_check si u p now ident k os s)))"

text \<open>After a sleep: the set is looked up again and the operations are copied in again. The
  code does not verify them a second time.\<close>

definition semop_again ::
    "seminfo \<Rightarrow> ucred \<Rightarrow> nat \<Rightarrow> int \<Rightarrow> int \<Rightarrow> nat \<Rightarrow> sembuf list option \<Rightarrow> sstate \<Rightarrow> (opres \<times> sstate) option" where
  "semop_again si u p now ident k ops s =
     (case semconv si ident s of
        None \<Rightarrow> Some (OErr EIDRM, s)
      | Some _ \<Rightarrow> (case ops of
           None \<Rightarrow> Some (OErr EFAULT, s)
         | Some os \<Rightarrow> semop_check si u p now ident k os s))"

text \<open>A signal ends the sleep on \<open>c\<close>.\<close>

definition semop_intr :: "schan \<Rightarrow> sstate \<Rightarrow> opres \<times> sstate" where
  "semop_intr c s =
     (OErr EINTR,
      case c of
        SemN i \<Rightarrow>
          let n = semncnt (sems s i); s1 = set_sem i ((sems s i)\<lparr>semncnt := us16 (n - 1)\<rparr>) s
          in if n \<le> 1 then swakeup (SemN i) (set_sem i ((sems s1 i)\<lparr>semncnt := 0\<rparr>) s1) else s1
      | SemZ i \<Rightarrow>
          let n = semzcnt (sems s i); s1 = set_sem i ((sems s i)\<lparr>semzcnt := us16 (n - 1)\<rparr>) s
          in if n \<le> 1 then swakeup (SemZ i) (set_sem i ((sems s1 i)\<lparr>semzcnt := 0\<rparr>) s1) else s1)"

section \<open>semctl, semget, seminit\<close>

datatype sres = SRet int | SStat semid_ds | SVals "int list" | SErr errno

definition sem_owner :: "ucred \<Rightarrow> semid_ds \<Rightarrow> bool" where
  "sem_owner u d \<longleftrightarrow>
     u_uid u = ip_uid (sem_perm d) \<or> u_uid u = ip_cuid (sem_perm d) \<or> u_uid u = 0"

text \<open>The loop of \<^verbatim>\<open>IPC_RMID\<close> over the semaphores from \<open>i\<close> on.\<close>

fun sem_clear :: "nat \<Rightarrow> nat \<Rightarrow> sstate \<Rightarrow> sstate" where
  "sem_clear 0 i s = s"
| "sem_clear (Suc n) i s =
     sem_clear n (Suc i) (wake_z i (wake_n i (set_sem i ((sems s i)\<lparr>semval := 0, sempid := 0\<rparr>) s)))"

definition sem_rmid :: "seminfo \<Rightarrow> int \<Rightarrow> nat \<Rightarrow> sstate \<Rightarrow> sstate option" where
  "sem_rmid si ident k s =
     (let d = sema s k
      in Option.bind (semunrm ident 0 (int (sem_nsems d)) s) (\<lambda>s1.
           let s2 = sem_clear (sem_nsems d) (sem_base d) s1
           in map_option (\<lambda>(mp, _).
                let q = (if s32 (ident + int (si_semmni si)) < 0 then 0 else ip_seq (sem_perm d) + 1)
                in set_sema k (d\<lparr>sem_perm := (sem_perm d)\<lparr>ip_seq := q, ip_mode := 0\<rparr>\<rparr>) (s2\<lparr>semmap := mp\<rparr>))
              (mfree (semmap s2) (of_nat (sem_nsems d)) (of_nat (sem_base d + 1)))))"

definition sem_setval :: "ucred \<Rightarrow> nat \<Rightarrow> int \<Rightarrow> sstate \<Rightarrow> sstate" where
  "sem_setval u i v s =
     (let s1 = set_sem i ((sems s i)\<lparr>semval := v\<rparr>) s;
          s2 = (if v \<noteq> 0 then wake_n i s1 else wake_z i s1)
      in set_sem i ((sems s2 i)\<lparr>sempid := u_pid u\<rparr>) s2)"

fun sem_setall :: "ucred \<Rightarrow> nat \<Rightarrow> int list \<Rightarrow> sstate \<Rightarrow> sstate" where
  "sem_setall u i [] s = s"
| "sem_setall u i (v # vs) s = sem_setall u (Suc i) vs (sem_setval u i v s)"

text \<open>\<open>num\<close> and \<open>arg\<close> are the unsigned and the raw argument; \<open>ds\<close>, \<open>vals\<close> what is copied in from
  the user, \<open>outok\<close> whether copies to the user succeed.\<close>

definition semctl ::
    "seminfo \<Rightarrow> ucred \<Rightarrow> int \<Rightarrow> int \<Rightarrow> nat \<Rightarrow> int \<Rightarrow> u32 \<Rightarrow> semid_ds option \<Rightarrow> int list option \<Rightarrow> bool
      \<Rightarrow> sstate \<Rightarrow> (sres \<times> sstate) option" where
  "semctl si u now ident num cmd arg ds vals outok s =
     (case semconv si ident s of
        None \<Rightarrow> Some (SErr EINVAL, s)
      | Some k \<Rightarrow>
          let d = sema s k; i = sem_base d + num;
              need = (\<lambda>m. ipcaccess u (sem_perm d) m);
              get = (\<lambda>f. case need SEM_R of Some e \<Rightarrow> Some (SErr e, s)
                     | None \<Rightarrow> if num \<ge> sem_nsems d then Some (SErr EINVAL, s) else Some (SRet (f (sems s i)), s))
          in if cmd = 0 then
               (if \<not> sem_owner u d then Some (SErr EPERM, s)
                else map_option (Pair (SRet 0)) (sem_rmid si ident k s))
             else if cmd = 1 then
               (if \<not> sem_owner u d then Some (SErr EPERM, s)
                else case ds of None \<Rightarrow> Some (SErr EFAULT, s)
                | Some e \<Rightarrow> Some (SRet 0, set_sema k (d\<lparr>sem_perm := (sem_perm d)\<lparr>
                    ip_uid := ip_uid (sem_perm e), ip_gid := ip_gid (sem_perm e),
                    ip_mode := (ip_mode (sem_perm e) AND 0x1FF) OR IPC_ALLOC\<rparr>, sem_ctime := now\<rparr>) s))
             else if cmd = 2 then
               (case need SEM_R of Some e \<Rightarrow> Some (SErr e, s)
                | None \<Rightarrow> Some (if outok then SStat d else SErr EFAULT, s))
             else if cmd = 3 then get semncnt
             else if cmd = 4 then get sempid
             else if cmd = 5 then get semval
             else if cmd = 6 then
               (case need SEM_R of Some e \<Rightarrow> Some (SErr e, s)
                | None \<Rightarrow> Some (if outok \<or> sem_nsems d = 0
                    then SVals (map (\<lambda>j. semval (sems s (sem_base d + j))) [0..<sem_nsems d])
                    else SErr EFAULT, s))
             else if cmd = 7 then get semzcnt
             else if cmd = 8 then
               (case need SEM_A of Some e \<Rightarrow> Some (SErr e, s)
                | None \<Rightarrow>
                    if num \<ge> sem_nsems d then Some (SErr EINVAL, s)
                    else if int (unat arg) > si_semvmx si then Some (SErr ERANGE, s)
                    else map_option (Pair (SRet 0))
                           (semunrm ident (int num) (int num) (sem_setval u i (us16 (int (unat arg))) s)))
             else if cmd = 9 then
               (case need SEM_A of Some e \<Rightarrow> Some (SErr e, s)
                | None \<Rightarrow> (case vals of None \<Rightarrow> Some (SErr EFAULT, s)
                    | Some vs \<Rightarrow>
                        if \<exists>v\<in>set (take (sem_nsems d) vs). v > si_semvmx si then Some (SErr ERANGE, s)
                        else map_option (\<lambda>s1. (SRet 0, sem_setall u (sem_base d) (take (sem_nsems d) vs) s1))
                               (semunrm ident 0 (int (sem_nsems d)) s)))
             else Some (SErr EINVAL, s))"

definition semget ::
    "seminfo \<Rightarrow> ucred \<Rightarrow> int \<Rightarrow> u32 \<Rightarrow> int \<Rightarrow> u32 \<Rightarrow> sstate \<Rightarrow> (sres \<times> sstate) option" where
  "semget si u now key nsems flag s =
     (case ipcget u key flag (map (\<lambda>i. sem_perm (sema s i)) [0..<si_semmni si]) of
        Inl e \<Rightarrow> Some (SErr e, s)
      | Inr (i, new, p) \<Rightarrow>
          let d = (sema s i)\<lparr>sem_perm := p\<rparr>; s1 = set_sema i d s;
              undo = set_sema i (d\<lparr>sem_perm := p\<lparr>ip_mode := 0\<rparr>\<rparr>) s1;
              ret = SRet (ipc_id (si_semmni si) (ip_seq p) i)
          in if new then
               (if nsems \<le> 0 \<or> nsems > si_semmsl si then Some (SErr EINVAL, undo)
                else Option.bind (malloc (semmap s1) (of_int nsems)) (\<lambda>(a, mp).
                  if a = 0 then Some (SErr ENOSPC, undo\<lparr>semmap := mp\<rparr>)
                  else Some (ret, set_sema i (d\<lparr>sem_base := unat a - 1, sem_nsems := nat (us16 nsems),
                                   sem_ctime := now, sem_otime := 0\<rparr>) (s1\<lparr>semmap := mp\<rparr>))))
             else if nsems \<noteq> 0 \<and> int (sem_nsems d) < nsems then Some (SErr EINVAL, s1)
             else Some (ret, s1))"

definition seminit :: "seminfo \<Rightarrow> sstate \<Rightarrow> sstate option" where
  "seminit si s0 =
     map_option (\<lambda>(mp, _).
         s0\<lparr>semmap := mp, semfup := Some 0,
           semu := (\<lambda>u. if u + 1 < si_semmnu si then (semu s0 u)\<lparr>un_np := Some (Suc u)\<rparr>
                        else if u + 1 = max 1 (si_semmnu si) then (semu s0 u)\<lparr>un_np := None\<rparr> else semu s0 u)\<rparr>)
       (mfree (mapinit (si_semmap si) (semmap s0)) (of_nat (si_semmns si)) 1)"

end
