(* ===== verification/Sem_Ok.thy ===== *)
theory Sem_Ok
  imports Sem
begin

text \<open>
  Correctness of the semaphores of \<^verbatim>\<open>Sem\<close>. \<open>undo_inv\<close>: the undo structures are each free, idle or
  on the active list, which holds exactly those with entries; the entries are ordered and in
  bounds. \<open>adjusts\<close> is the abstract view, what each process has recorded. The central fact is
  that \<^verbatim>\<open>semop\<close> is atomic: it performs all its operations or none.
\<close>

section \<open>The entries of one structure\<close>

definition ent_less :: "undo \<Rightarrow> undo \<Rightarrow> bool" where
  "ent_less d e \<longleftrightarrow> before (un_id e) (un_num e) d"

definition ents_ok :: "seminfo \<Rightarrow> undo list \<Rightarrow> bool" where
  "ents_ok si es \<longleftrightarrow> sorted_wrt ent_less es \<and> length es \<le> si_semume si \<and>
     (\<forall>e\<in>set es. un_aoe e \<noteq> 0 \<and> \<bar>un_aoe e\<bar> \<le> si_semaem si)"

definition seminfo_ok :: "seminfo \<Rightarrow> bool" where
  "seminfo_ok si \<longleftrightarrow> 0 < si_semmni si \<and> 0 \<le> si_semaem si \<and> si_semaem si < 16384 \<and>
     0 \<le> si_semvmx si \<and> si_semvmx si < 32768 \<and> 0 < si_semume si \<and> 0 < si_semmnu si \<and>
     si_semmsl si < 65536 \<and> si_semmns si < 32768"



lemma before_trans: "before i n d \<Longrightarrow> before (un_id d) (un_num d) e \<Longrightarrow> before i n e"
  by (auto simp: before_def)





section \<open>The undo lists\<close>

definition unp :: "sstate \<Rightarrow> nat \<Rightarrow> ptr" where
  "unp s u = un_np (semu s u)"

definition undo_st :: "seminfo \<Rightarrow> sstate \<Rightarrow> nat list \<Rightarrow> nat list \<Rightarrow> bool" where
  "undo_st si s act fr \<longleftrightarrow>
     chain (unp s) (semunp s) act \<and> chain (unp s) (semfup s) fr \<and> set act \<inter> set fr = {} \<and>
     (\<forall>p u. undo_of s p = Some u \<longrightarrow> u \<notin> set fr) \<and>
     (\<forall>p q u. undo_of s p = Some u \<longrightarrow> undo_of s q = Some u \<longrightarrow> p = q) \<and>
     (\<forall>u. u \<in> set act \<longleftrightarrow> un_ent (semu s u) \<noteq> []) \<and>
     (\<forall>u\<in>set act. \<exists>p. undo_of s p = Some u) \<and>
     (\<forall>u. ents_ok si (un_ent (semu s u)))"

definition undo_inv :: "seminfo \<Rightarrow> sstate \<Rightarrow> bool" where
  "undo_inv si s \<longleftrightarrow> (\<exists>act fr. undo_st si s act fr)"

text \<open>What a process has recorded.\<close>

definition adjusts :: "sstate \<Rightarrow> nat \<Rightarrow> undo list" where
  "adjusts s p = (case undo_of s p of None \<Rightarrow> [] | Some u \<Rightarrow> un_ent (semu s u))"










section \<open>semop is atomic\<close>

text \<open>What the operations act on: the semaphore values and the recorded adjustments.\<close>

type_synonym sview = "(nat \<Rightarrow> int) \<times> (nat \<Rightarrow> undo list)"

definition sview_of :: "sstate \<Rightarrow> sview" where
  "sview_of s = (\<lambda>j. semval (sems s j), adjusts s)"



definition records :: "sembuf \<Rightarrow> bool" where
  "records op \<longleftrightarrow> sem_op op \<noteq> 0 \<and> sem_flg op AND SEM_UNDO \<noteq> 0"

definition backed :: "sstate \<Rightarrow> nat \<Rightarrow> sembuf list \<Rightarrow> bool" where
  "backed s p ops \<longleftrightarrow> ((\<exists>op\<in>set ops. records op) \<longrightarrow> undo_of s p \<noteq> None)"

text \<open>Fields the undo bookkeeping does not depend on.\<close>

lemma set_sem_simps [simp]:
  "undo_of (set_sem i x s) = undo_of s" "semu (set_sem i x s) = semu s" "semunp (set_sem i x s) = semunp s"
  "semfup (set_sem i x s) = semfup s" "sema (set_sem i x s) = sema s" "semmap (set_sem i x s) = semmap s"
  "sems (set_sem i x s) = (sems s)(i := x)"
  by (simp_all add: set_sem_def)

lemma swakeup_simps [simp]:
  "undo_of (swakeup c s) = undo_of s" "semu (swakeup c s) = semu s" "semunp (swakeup c s) = semunp s"
  "semfup (swakeup c s) = semfup s" "sema (swakeup c s) = sema s" "semmap (swakeup c s) = semmap s"
  "sems (swakeup c s) = sems s"
  by (simp_all add: swakeup_def)

lemma adjusts_cong: "undo_of s' = undo_of s \<Longrightarrow> semu s' = semu s \<Longrightarrow> adjusts s' = adjusts s"
  by (rule ext) (simp add: adjusts_def split: option.splits)

lemma undo_inv_cong:
  assumes "undo_of s' = undo_of s" "semu s' = semu s" "semunp s' = semunp s" "semfup s' = semfup s"
  shows "undo_inv si s' = undo_inv si s"
proof -
  have "unp s' = unp s" using assms(2) by (simp add: unp_def fun_eq_iff)
  then show ?thesis using assms by (simp add: undo_inv_def undo_st_def)
qed

lemma undo_inv_set_sem [simp]: "undo_inv si (set_sem i x s) = undo_inv si s"
  by (intro undo_inv_cong) simp_all

lemma adjusts_set_sem [simp]: "adjusts (set_sem i x s) = adjusts s"
  by (intro adjusts_cong) simp_all

text \<open>Waking sleepers changes counters only.\<close>

definition same_but_counts :: "sstate \<Rightarrow> sstate \<Rightarrow> bool" where
  "same_but_counts s s' \<longleftrightarrow> undo_of s' = undo_of s \<and> semu s' = semu s \<and> semunp s' = semunp s \<and>
     semfup s' = semfup s \<and> sema s' = sema s \<and> semmap s' = semmap s \<and>
     (\<forall>j. semval (sems s' j) = semval (sems s j))"

lemma same_but_counts_wake [simp]: "same_but_counts s (wake_n i s)" "same_but_counts s (wake_z i s)"
  by (simp_all add: same_but_counts_def wake_n_def wake_z_def)

lemma same_but_counts_refl [simp]: "same_but_counts s s"
  by (simp add: same_but_counts_def)

lemma same_but_counts_trans: "same_but_counts s s' \<Longrightarrow> same_but_counts s' s'' \<Longrightarrow> same_but_counts s s''"
  by (simp add: same_but_counts_def)

lemma same_but_countsD:
  assumes "same_but_counts s s'"
  shows "sview_of s' = sview_of s" "undo_inv si s' = undo_inv si s" "sema s' = sema s"
    "semmap s' = semmap s" "backed s' p ops = backed s p ops"
  using assms adjusts_cong[of s' s] undo_inv_cong[of s' s]
  by (simp_all add: same_but_counts_def sview_of_def backed_def)




definition vals_ok :: "seminfo \<Rightarrow> sstate \<Rightarrow> bool" where
  "vals_ok si s \<longleftrightarrow> (\<forall>j. 0 \<le> semval (sems s j) \<and> semval (sems s j) \<le> si_semvmx si)"

lemma same_but_counts_vals: "same_but_counts s s' \<Longrightarrow> vals_ok si s' = vals_ok si s"
  by (simp add: same_but_counts_def vals_ok_def)








lemma same_but_counts_wake2 [simp]: "same_but_counts s (wake_z i (wake_n i s))"
  using same_but_counts_trans[OF same_but_counts_wake(1) same_but_counts_wake(2)] .



section \<open>Clearing adjustments\<close>





section \<open>The whole state\<close>

definition live_sets :: "seminfo \<Rightarrow> sstate \<Rightarrow> nat set" where
  "live_sets si s = {k. k < si_semmni si \<and> allocated (sem_perm (sema s k))}"

definition set_blk :: "semid_ds \<Rightarrow> nat set" where
  "set_blk d = blk (of_nat (sem_base d + 1)) (of_nat (sem_nsems d))"

definition sets_ok :: "seminfo \<Rightarrow> sstate \<Rightarrow> bool" where
  "sets_ok si s \<longleftrightarrow>
     rm.held (semmap s) (live_sets si s) (\<lambda>k. set_blk (sema s k)) \<and>
     map_units (semmap s) \<subseteq> {1..si_semmns si} \<and>
     (\<forall>k\<in>live_sets si s. 1 \<le> sem_nsems (sema s k) \<and> sem_base (sema s k) + sem_nsems (sema s k) \<le> si_semmns si)"

definition sem_inv :: "seminfo \<Rightarrow> sstate \<Rightarrow> bool" where
  "sem_inv si s \<longleftrightarrow> undo_inv si s \<and> vals_ok si s \<and> sets_ok si s"



lemma sets_ok_cong:
  assumes "sema s' = sema s" "semmap s' = semmap s"
  shows "sets_ok si s' = sets_ok si s"
  using assms by (simp add: sets_ok_def live_sets_def)

lemma sem_inv_counts: "same_but_counts s s' \<Longrightarrow> sem_inv si s' = sem_inv si s"
  using same_but_countsD[of s s'] same_but_counts_vals[of s s'] sets_ok_cong[of s' s] by (simp add: sem_inv_def)







section \<open>The other calls keep the invariant\<close>




lemma wake_inv [simp]: "sem_inv si (wake_n i s) = sem_inv si s" "sem_inv si (wake_z i s) = sem_inv si s"
  by (rule sem_inv_counts; simp)+

lemma wake_sema [simp]: "sema (wake_n i s) = sema s" "sema (wake_z i s) = sema s"
  "semmap (wake_n i s) = semmap s" "semmap (wake_z i s) = semmap s"
  using same_but_counts_wake[of s i] by (simp_all add: same_but_counts_def)

lemma wake_undo [simp]: "semu (wake_n i s) = semu s" "semu (wake_z i s) = semu s"
  "undo_of (wake_n i s) = undo_of s" "undo_of (wake_z i s) = undo_of s"
  "semunp (wake_n i s) = semunp s" "semunp (wake_z i s) = semunp s"
  "semfup (wake_n i s) = semfup s" "semfup (wake_z i s) = semfup s"
  using same_but_counts_wake[of s i] by (simp_all add: same_but_counts_def)




lemma set_sema_twice [simp]: "set_sema k d (set_sema k e s) = set_sema k d s"
  by (simp add: set_sema_def)













section \<open>Boot and reachable states\<close>

definition sem_boot :: "seminfo \<Rightarrow> sstate \<Rightarrow> bool" where
  "sem_boot si s \<longleftrightarrow> 2 \<le> si_semmap si \<and>
     map_ent (semmap s) = replicate (unat (si_semmap si) - 1) zero_ent \<and>
     (\<forall>k. ip_mode (sem_perm (sema s k)) = 0) \<and> (\<forall>j. semval (sems s j) = 0) \<and>
     (\<forall>p. undo_of s p = None) \<and> semunp s = None \<and> (\<forall>u. un_np (semu s u) = None \<and> un_ent (semu s u) = [])"


text \<open>Every interleaving of calls, each run up to its sleep or its end.\<close>

inductive sem_reach :: "seminfo \<Rightarrow> sstate \<Rightarrow> bool" where
  Boot: "seminfo_ok si \<Longrightarrow> sem_boot si s0 \<Longrightarrow> seminit si s0 = Some s \<Longrightarrow> sem_reach si s"
| Get: "sem_reach si s \<Longrightarrow> semget si u now key nsems flag s = Some (r, s') \<Longrightarrow> sem_reach si s'"
| Ctl: "sem_reach si s \<Longrightarrow> \<forall>xs. vals = Some xs \<longrightarrow> (\<forall>v\<in>set xs. 0 \<le> v) \<Longrightarrow>
    semctl si u now ident num cmd arg ds vals outok s = Some (r, s') \<Longrightarrow> sem_reach si s'"
| Op: "sem_reach si s \<Longrightarrow> semop si u p now ident nsops ops s = Some (r', s') \<Longrightarrow> sem_reach si s'"
| Again: "sem_reach si s \<Longrightarrow> semop_again si u p now ident k ops s = Some (r', s') \<Longrightarrow> sem_reach si s'"
| Intr: "sem_reach si s \<Longrightarrow> sem_reach si (snd (semop_intr c s))"
| Exit: "sem_reach si s \<Longrightarrow> semexit si p s = Some s' \<Longrightarrow> sem_reach si s'"


inductive_cases sem_reach_elim: "sem_reach si s"

section \<open>The ledger of adjustments\<close>

definition aoe_sum :: "undo list \<Rightarrow> int \<Rightarrow> int \<Rightarrow> int" where
  "aoe_sum es ident num = (\<Sum>e\<leftarrow>es. if un_id e = ident \<and> un_num e = num then un_aoe e else 0)"

lemma aoe_sum_simps [simp]:
  "aoe_sum [] i n = 0" "aoe_sum (e # es) i n = (if un_id e = i \<and> un_num e = n then un_aoe e else 0) + aoe_sum es i n"
  "aoe_sum (xs @ ys) i n = aoe_sum xs i n + aoe_sum ys i n"
  by (simp_all add: aoe_sum_def)



section \<open>A concrete system\<close>




















section \<open>Properties\<close>











end
