(* ===== verification/Clist.thy ===== *)
theory Clist imports Prelude begin

text \<open>
  The character queues of the terminal drivers: \<^verbatim>\<open>uts/m68k/io/clist.c\<close>. A queue (\<^verbatim>\<open>struct clist\<close>)
  is a chain of blocks of at most \<^verbatim>\<open>CLSIZE\<close> characters taken from a free list. The blocks
  \<^verbatim>\<open>cfree[]\<close> and the queues are functions of an index. A \<open>None\<close> result is an access through a
  null pointer or outside \<^verbatim>\<open>c_data\<close>. \<^verbatim>\<open>splhi\<close>/\<^verbatim>\<open>splx\<close> make every routine atomic.
\<close>

section \<open>State\<close>

record cblock =
  c_next :: ptr
  c_first :: int
  c_last :: int
  c_data :: "int \<Rightarrow> u8"

record clist =
  c_cc :: int
  c_cf :: ptr
  c_cl :: ptr

record cstate =
  cblk :: "nat \<Rightarrow> cblock"
  clst :: "nat \<Rightarrow> clist"
  cfreelist :: ptr
  c_size :: int
  c_flag :: int
  cfreecnt :: int
  cwakes :: nat

abbreviation (input) CLSIZE :: int where "CLSIZE \<equiv> 64"

definition set_cblk :: "nat \<Rightarrow> cblock \<Rightarrow> cstate \<Rightarrow> cstate" where
  "set_cblk b x s = s\<lparr>cblk := (cblk s)(b := x)\<rparr>"

definition set_clist :: "nat \<Rightarrow> clist \<Rightarrow> cstate \<Rightarrow> cstate" where
  "set_clist p x s = s\<lparr>clst := (clst s)(p := x)\<rparr>"

section \<open>Operations\<close>

text \<open>A block goes back to the free list; a process waiting for one is woken.\<close>

definition putcf :: "nat \<Rightarrow> cstate \<Rightarrow> cstate" where
  "putcf b s =
     (let s1 = (set_cblk b ((cblk s b)\<lparr>c_next := cfreelist s\<rparr>) s)\<lparr>cfreelist := Some b\<rparr>
      in if c_flag s1 \<noteq> 0 then s1\<lparr>c_flag := 0, cwakes := cwakes s1 + 1\<rparr> else s1)"

definition getc :: "nat \<Rightarrow> cstate \<Rightarrow> (int \<times> cstate) option" where
  "getc p s =
     (let q = clst s p
      in if c_cc q > 0 then
           (case c_cf q of
              None \<Rightarrow> None
            | Some b \<Rightarrow>
                let x = cblk s b
                in if c_first x < 0 \<or> CLSIZE \<le> c_first x then None
                   else
                     let c = uint (c_data x (c_first x));
                         x1 = x\<lparr>c_first := s8 (c_first x + 1)\<rparr>;
                         s1 = set_cblk b x1 (set_clist p (q\<lparr>c_cc := c_cc q - 1\<rparr>) s)
                     in if c_first x1 = c_last x1 then
                          let q2 = (clst s1 p)\<lparr>c_cf := c_next x1\<rparr>;
                              q3 = (if c_cf q2 = None then q2\<lparr>c_cl := None\<rparr> else q2)
                          in Some (c, putcf b (set_clist p q3 s1))
                        else Some (c, s1))
         else Some (-1, s))"

text \<open>The character is stored in the last block of the queue.\<close>

definition putc_store :: "u8 \<Rightarrow> nat \<Rightarrow> nat \<Rightarrow> cstate \<Rightarrow> (int \<times> cstate) option" where
  "putc_store c p b s =
     (let x = cblk s b
      in if c_last x < 0 \<or> CLSIZE \<le> c_last x then None
         else Some (0, set_cblk b (x\<lparr>c_data := (c_data x)(c_last x := c), c_last := s8 (c_last x + 1)\<rparr>)
                         (set_clist p ((clst s p)\<lparr>c_cc := c_cc (clst s p) + 1\<rparr>) s)))"

definition putc :: "u8 \<Rightarrow> nat \<Rightarrow> cstate \<Rightarrow> (int \<times> cstate) option" where
  "putc c p s =
     (let q = clst s p
      in case c_cl q of
           Some b \<Rightarrow>
             if c_last (cblk s b) = c_size s then
               (case cfreelist s of
                  None \<Rightarrow> Some (-1, s)
                | Some n \<Rightarrow>
                    let s1 = set_cblk n ((cblk s n)\<lparr>c_next := None, c_first := 0, c_last := 0\<rparr>)
                               (s\<lparr>cfreelist := c_next (cblk s n)\<rparr>);
                        s2 = set_cblk b ((cblk s1 b)\<lparr>c_next := Some n\<rparr>) s1
                    in putc_store c p n (set_clist p (q\<lparr>c_cl := Some n\<rparr>) s2))
             else putc_store c p b s
         | None \<Rightarrow>
             (case cfreelist s of
                None \<Rightarrow> Some (-1, s)
              | Some n \<Rightarrow>
                  let s1 = set_cblk n ((cblk s n)\<lparr>c_next := None, c_first := 0, c_last := 0\<rparr>)
                             (s\<lparr>cfreelist := c_next (cblk s n)\<rparr>)
                  in putc_store c p n (set_clist p (q\<lparr>c_cf := Some n, c_cl := Some n\<rparr>) s1)))"

definition getcf :: "cstate \<Rightarrow> ptr \<times> cstate" where
  "getcf s =
     (case cfreelist s of
        None \<Rightarrow> (None, s)
      | Some b \<Rightarrow> (Some b, set_cblk b ((cblk s b)\<lparr>c_next := None, c_first := 0, c_last := s8 (c_size s)\<rparr>)
                             (s\<lparr>cfreelist := c_next (cblk s b)\<rparr>)))"

definition getcb :: "nat \<Rightarrow> cstate \<Rightarrow> ptr \<times> cstate" where
  "getcb p s =
     (let q = clst s p
      in case c_cf q of
           None \<Rightarrow> (None, s)
         | Some b \<Rightarrow>
             let q1 = q\<lparr>c_cc := c_cc q - (c_last (cblk s b) - c_first (cblk s b)), c_cf := c_next (cblk s b)\<rparr>
             in (Some b, set_clist p (if c_cf q1 = None then q1\<lparr>c_cl := None\<rparr> else q1) s))"

definition putcb :: "nat \<Rightarrow> nat \<Rightarrow> cstate \<Rightarrow> cstate" where
  "putcb b p s =
     (let q = clst s p;
          (q1, s1) = (case c_cl q of
             None \<Rightarrow> (q\<lparr>c_cf := Some b\<rparr>, s)
           | Some l \<Rightarrow> (q, set_cblk l ((cblk s l)\<lparr>c_next := Some b\<rparr>) s));
          s2 = set_cblk b ((cblk s1 b)\<lparr>c_next := None\<rparr>) s1
      in set_clist p (q1\<lparr>c_cl := Some b, c_cc := c_cc q + (c_last (cblk s2 b) - c_first (cblk s2 b))\<rparr>) s2)"

text \<open>The loop of \<^verbatim>\<open>cinit\<close>: the blocks from \<open>i\<close> on, \<open>n\<close> of them.\<close>

fun cinit_from :: "nat \<Rightarrow> nat \<Rightarrow> cstate \<Rightarrow> cstate" where
  "cinit_from 0 i s = s"
| "cinit_from (Suc n) i s =
     cinit_from n (Suc i)
       ((set_cblk i ((cblk s i)\<lparr>c_next := cfreelist s\<rparr>) s)\<lparr>cfreelist := Some i, cfreecnt := cfreecnt s + 1\<rparr>)"

definition cinit :: "nat \<Rightarrow> cstate \<Rightarrow> cstate" where
  "cinit v_clist s = (cinit_from v_clist 0 s)\<lparr>c_size := CLSIZE\<rparr>"

section \<open>The blocks of a queue\<close>

definition cnx :: "cstate \<Rightarrow> nat \<Rightarrow> ptr" where
  "cnx s b = c_next (cblk s b)"

definition blk_text :: "cblock \<Rightarrow> u8 list" where
  "blk_text x = map (c_data x) [c_first x .. c_last x - 1]"

definition blk_ok :: "cblock \<Rightarrow> bool" where
  "blk_ok x \<longleftrightarrow> 0 \<le> c_first x \<and> c_first x < c_last x \<and> c_last x \<le> CLSIZE"

definition text_of :: "cstate \<Rightarrow> nat list \<Rightarrow> u8 list" where
  "text_of s bs = concat (map (\<lambda>b. blk_text (cblk s b)) bs)"

definition lst_ok :: "cstate \<Rightarrow> nat \<Rightarrow> nat list \<Rightarrow> bool" where
  "lst_ok s p bs \<longleftrightarrow>
     chain (cnx s) (c_cf (clst s p)) bs \<and>
     c_cl (clst s p) = (if bs = [] then None else Some (last bs)) \<and>
     (\<forall>b\<in>set bs. blk_ok (cblk s b)) \<and>
     c_cc (clst s p) = int (length (text_of s bs))"

text \<open>\<open>n\<close> blocks in all; \<open>held\<close> are with the drivers.\<close>

definition cl_st :: "nat \<Rightarrow> cstate \<Rightarrow> nat set \<Rightarrow> (nat \<Rightarrow> nat list) \<Rightarrow> nat list \<Rightarrow> bool" where
  "cl_st n s held Q fr \<longleftrightarrow>
     (\<forall>p. lst_ok s p (Q p)) \<and> chain (cnx s) (cfreelist s) fr \<and>
     (\<forall>p q. p \<noteq> q \<longrightarrow> set (Q p) \<inter> set (Q q) = {}) \<and>
     (\<forall>p. set (Q p) \<inter> set fr = {} \<and> set (Q p) \<inter> held = {}) \<and> set fr \<inter> held = {} \<and>
     (\<Union>p. set (Q p)) \<union> set fr \<union> held = {..<n} \<and> c_size s = CLSIZE"

definition cl_inv :: "nat \<Rightarrow> cstate \<Rightarrow> nat set \<Rightarrow> bool" where
  "cl_inv n s held \<longleftrightarrow> (\<exists>Q fr. cl_st n s held Q fr)"

text \<open>The blocks and the characters of queue \<open>p\<close>.\<close>

partial_function (option) blocks_from :: "(nat \<Rightarrow> ptr) \<Rightarrow> ptr \<Rightarrow> nat list option" where
  "blocks_from nx p = (case p of None \<Rightarrow> Some [] | Some b \<Rightarrow> Option.bind (blocks_from nx (nx b)) (\<lambda>bs. Some (b # bs)))"

definition queue_text :: "cstate \<Rightarrow> nat \<Rightarrow> u8 list" where
  "queue_text s p = text_of s (the (blocks_from (cnx s) (c_cf (clst s p))))"

lemma blocks_from_chain: "chain nx p bs \<Longrightarrow> blocks_from nx p = Some bs"
proof (induction bs arbitrary: p)
  case (Cons b bs)
  then show ?case by (subst blocks_from.simps) simp
qed (simp add: blocks_from.simps)

lemma queue_text_eq: "lst_ok s p bs \<Longrightarrow> queue_text s p = text_of s bs"
  using blocks_from_chain[of "cnx s" "c_cf (clst s p)" bs] by (simp add: queue_text_def lst_ok_def)

lemma text_of_simps [simp]: "text_of s [] = []" "text_of s (b # bs) = blk_text (cblk s b) @ text_of s bs"
  "text_of s (as @ bs) = text_of s as @ text_of s bs"
  by (simp_all add: text_of_def)

lemma text_of_cong: "(\<And>b. b \<in> set bs \<Longrightarrow> blk_text (cblk s b) = blk_text (cblk t b)) \<Longrightarrow> text_of s bs = text_of t bs"
  by (simp add: text_of_def cong: map_cong)

lemma blk_text_ne: "blk_ok x \<Longrightarrow> blk_text x = c_data x (c_first x) # blk_text (x\<lparr>c_first := c_first x + 1\<rparr>)"
  by (simp add: blk_ok_def blk_text_def upto_rec1)

lemma blk_text_length: "blk_ok x \<Longrightarrow> int (length (blk_text x)) = c_last x - c_first x"
  by (simp add: blk_ok_def blk_text_def)

lemma blk_text_snoc:
  assumes "0 \<le> c_first x" "c_first x \<le> c_last x"
  shows "blk_text (x\<lparr>c_data := (c_data x)(c_last x := c), c_last := c_last x + 1\<rparr>) = blk_text x @ [c]"
  using assms by (simp add: blk_text_def upto_rec2[of "c_first x" "c_last x"])

lemma blk_text_next [simp]: "blk_text (x\<lparr>c_next := v\<rparr>) = blk_text x"
  by (simp add: blk_text_def)

lemma blk_ok_next [simp]: "blk_ok (x\<lparr>c_next := v\<rparr>) = blk_ok x"
  by (simp add: blk_ok_def)

text \<open>A queue does not depend on blocks outside it nor on the other queues.\<close>

lemma lst_ok_frame:
  assumes "\<And>b. b \<in> set bs \<Longrightarrow> cblk t b = cblk s b" "clst t p = clst s p"
  shows "lst_ok t p bs = lst_ok s p bs"
proof -
  have "text_of t bs = text_of s bs" using assms(1) by (intro text_of_cong) simp
  moreover have "lseg (cnx t) q bs None = lseg (cnx s) q bs None" for q
    using assms(1) by (intro lseg_cong) (simp add: cnx_def)
  ultimately show ?thesis using assms by (simp add: lst_ok_def)
qed

lemma free_frame:
  assumes "\<And>b. b \<in> set bs \<Longrightarrow> cblk t b = cblk s b"
  shows "chain (cnx t) q bs = chain (cnx s) q bs"
  using assms by (intro lseg_cong) (simp add: cnx_def)


section \<open>The operations on a well-formed system\<close>

lemma cl_stD:
  assumes "cl_st n s held Q fr"
  shows "lst_ok s p (Q p)" "chain (cnx s) (cfreelist s) fr" "p \<noteq> q \<Longrightarrow> set (Q p) \<inter> set (Q q) = {}"
    "set (Q p) \<inter> set fr = {}" "set (Q p) \<inter> held = {}" "set fr \<inter> held = {}"
    "(\<Union>p. set (Q p)) \<union> set fr \<union> held = {..<n}" "c_size s = CLSIZE" "distinct (Q p)" "distinct fr"
proof -
  show *: "lst_ok s p (Q p)" "chain (cnx s) (cfreelist s) fr" "p \<noteq> q \<Longrightarrow> set (Q p) \<inter> set (Q q) = {}"
    "set (Q p) \<inter> set fr = {}" "set (Q p) \<inter> held = {}" "set fr \<inter> held = {}"
    "(\<Union>p. set (Q p)) \<union> set fr \<union> held = {..<n}" "c_size s = CLSIZE"
    using assms by (auto simp: cl_st_def)
  show "distinct (Q p)" "distinct fr" using *(1,2) by (auto simp: lst_ok_def dest: chain_distinct)
qed

lemma cl_st_update:
  assumes "cl_st n s held Q fr" "cnx t = cnx s" "cfreelist t = cfreelist s" "c_size t = c_size s" "\<And>q. lst_ok t q (Q q)"
  shows "cl_st n t held Q fr"
  using assms by (simp add: cl_st_def)

lemma set_simps [simp]:
  "cblk (set_cblk b x s) = (cblk s)(b := x)" "clst (set_cblk b x s) = clst s" "cfreelist (set_cblk b x s) = cfreelist s"
  "c_size (set_cblk b x s) = c_size s" "c_flag (set_cblk b x s) = c_flag s"
  "clst (set_clist p q s) = (clst s)(p := q)" "cblk (set_clist p q s) = cblk s" "cfreelist (set_clist p q s) = cfreelist s"
  "c_size (set_clist p q s) = c_size s" "c_flag (set_clist p q s) = c_flag s"
  by (simp_all add: set_cblk_def set_clist_def)

lemma set_swap: "set_cblk b x (set_clist p q s) = set_clist p q (set_cblk b x s)"
  by (cases s) (simp add: set_cblk_def set_clist_def)

lemma set_lst_twice [simp]: "set_clist p q (set_clist p r s) = set_clist p q s"
  by (simp add: set_clist_def)

lemma putcf_simps [simp]:
  "cblk (putcf b s) = (cblk s)(b := (cblk s b)\<lparr>c_next := cfreelist s\<rparr>)" "clst (putcf b s) = clst s"
  "cfreelist (putcf b s) = Some b" "c_size (putcf b s) = c_size s"
  by (simp_all add: putcf_def Let_def)

text \<open>A block leaves the free list; a block comes back to it.\<close>

lemma free_pop:
  assumes "cl_st n s held Q fr" "cfreelist s = Some b"
  obtains fr' where "fr = b # fr'" "chain (cnx s) (c_next (cblk s b)) fr'" "b \<notin> held" "\<And>p. b \<notin> set (Q p)" "b < n"
proof -
  obtain fr' where fr: "fr = b # fr'" "chain (cnx s) (cnx s b) fr'"
    using cl_stD(2)[OF assms(1)] assms(2) by (auto simp: chain_simps)
  have "b < n" using cl_stD(7)[OF assms(1)] fr(1) by auto
  then show ?thesis using that[OF fr(1)] fr cl_stD(4,6)[OF assms(1)] by (auto simp: cnx_def)
qed

lemma getcf_ok:
  assumes st: "cl_st n s held Q fr"
  shows "case getcf s of (None, s') \<Rightarrow> fr = [] \<and> s' = s
    | (Some b, s') \<Rightarrow> b \<notin> held \<and> b < n \<and> (\<forall>p. b \<notin> set (Q p)) \<and> fr \<noteq> [] \<and> b = hd fr \<and>
        cl_st n s' (insert b held) Q (tl fr) \<and> (\<forall>p. text_of s' (Q p) = text_of s (Q p)) \<and> clst s' = clst s"
proof (cases "cfreelist s")
  case None
  then show ?thesis using cl_stD(2)[OF st] by (simp add: getcf_def)
next
  case (Some b)
  obtain fr' where fr: "fr = b # fr'" "chain (cnx s) (c_next (cblk s b)) fr'" "b \<notin> held" "\<And>p. b \<notin> set (Q p)" "b < n"
    by (rule free_pop[OF st Some]) blast
  let ?s = "set_cblk b ((cblk s b)\<lparr>c_next := None, c_first := 0, c_last := s8 (c_size s)\<rparr>) (s\<lparr>cfreelist := c_next (cblk s b)\<rparr>)"
  have d: "b \<notin> set fr'" using cl_stD(10)[OF st] fr(1) by simp
  have l: "lst_ok ?s p (Q p)" for p
    using cl_stD(1)[OF st, of p] fr(4)[of p] by (subst lst_ok_frame[of _ _ s]) auto
  have t: "text_of ?s (Q p) = text_of s (Q p)" for p using fr(4)[of p] by (intro text_of_cong) auto
  have c: "chain (cnx ?s) (c_next (cblk s b)) fr'" using fr(2) d by (subst free_frame[of _ _ s]) auto
  have "cl_st n ?s (insert b held) Q fr'"
    unfolding cl_st_def using l c cl_stD(3,4,5,6,7,8)[OF st] fr(1,4) d by auto
  then show ?thesis using Some fr t by (simp add: getcf_def)
qed

lemma putcf_ok:
  assumes st: "cl_st n s (insert b held) Q fr" and b: "b \<notin> held"
  shows "cl_st n (putcf b s) held Q (b # fr) \<and> (\<forall>p. text_of (putcf b s) (Q p) = text_of s (Q p))"
proof -
  have nb: "b \<notin> set (Q p)" "b \<notin> set fr" for p using cl_stD(5,6)[OF st] by auto
  have l: "lst_ok (putcf b s) p (Q p)" for p
    using cl_stD(1)[OF st, of p] nb(1)[of p] by (subst lst_ok_frame[of _ _ s]) auto
  have t: "text_of (putcf b s) (Q p) = text_of s (Q p)" for p using nb(1)[of p] by (intro text_of_cong) auto
  have "chain (cnx (putcf b s)) (cfreelist s) fr" using cl_stD(2)[OF st] nb(2) by (subst free_frame[of _ _ s]) auto
  then have "chain (cnx (putcf b s)) (cfreelist (putcf b s)) (b # fr)" by (simp add: cnx_def)
  moreover have "\<forall>p q. p \<noteq> q \<longrightarrow> set (Q p) \<inter> set (Q q) = {}" using cl_stD(3)[OF st] by blast
  moreover have "\<forall>p. set (Q p) \<inter> set (b # fr) = {} \<and> set (Q p) \<inter> held = {}" using cl_stD(4,5)[OF st] nb by auto
  moreover have "set (b # fr) \<inter> held = {}" using cl_stD(6)[OF st] b by auto
  moreover have "(\<Union>p. set (Q p)) \<union> set (b # fr) \<union> held = {..<n}" using cl_stD(7)[OF st] by auto
  ultimately show ?thesis using l t cl_stD(8)[OF st] by (simp add: cl_st_def)
qed

text \<open>The first block leaves queue \<open>p\<close>.\<close>

lemma getcb_ok:
  assumes st: "cl_st n s held Q fr"
  shows "case getcb p s of (None, s') \<Rightarrow> Q p = [] \<and> s' = s
    | (Some b, s') \<Rightarrow> Q p \<noteq> [] \<and> b = hd (Q p) \<and> b \<notin> held \<and> blk_ok (cblk s' b) \<and>
        cl_st n s' (insert b held) (Q(p := tl (Q p))) fr \<and> cblk s' = cblk s"
proof (cases "Q p")
  case Nil
  then show ?thesis using cl_stD(1)[OF st, of p] by (simp add: getcb_def Let_def lst_ok_def)
next
  case (Cons b bs)
  let ?Q = "Q(p := bs)"
  have l: "lst_ok s p (b # bs)" using cl_stD(1)[OF st, of p] Cons by simp
  then have h: "c_cf (clst s p) = Some b" "chain (cnx s) (c_next (cblk s b)) bs" "blk_ok (cblk s b)"
    by (auto simp: lst_ok_def cnx_def)
  obtain s' where s': "getcb p s = (Some b, s')" "s' = set_clist p (clst s' p) s"
    "c_cc (clst s' p) = c_cc (clst s p) - (c_last (cblk s b) - c_first (cblk s b))" "c_cf (clst s' p) = c_next (cblk s b)"
    "c_cl (clst s' p) = (if c_next (cblk s b) = None then None else c_cl (clst s p))"
    using h(1) by (simp add: getcb_def Let_def)
  have bl: "cblk s' = cblk s" "cfreelist s' = cfreelist s" "c_size s' = c_size s" "\<And>q. q \<noteq> p \<Longrightarrow> clst s' q = clst s q"
    by (subst s'(2), simp)+
  have nb: "b \<notin> held" "b \<notin> set fr" "b \<notin> set bs" "\<And>q. q \<noteq> p \<Longrightarrow> b \<notin> set (Q q)"
    using cl_stD(4,5,9)[OF st, of p] cl_stD(3)[OF st, of p] Cons by auto
  have "lst_ok s' p bs"
    using l h(2,3) s'(3-5) chain_empty_iff[OF h(2)] blk_text_length[OF h(3)]
    by (auto simp: lst_ok_def bl(1) cnx_def[abs_def] text_of_def)
  moreover have "lst_ok s' q (Q q)" if "q \<noteq> p" for q
    using cl_stD(1)[OF st, of q] that bl by (subst lst_ok_frame[of _ _ s]) auto
  ultimately have "\<forall>q. lst_ok s' q (?Q q)" by simp
  moreover have "chain (cnx s') (cfreelist s') fr" using cl_stD(2)[OF st] by (simp add: bl cnx_def[abs_def])
  moreover have "\<forall>q r. q \<noteq> r \<longrightarrow> set (?Q q) \<inter> set (?Q r) = {}"
    using cl_stD(3)[OF st] Cons by (auto split: if_splits) (metis disjoint_iff list.set_intros(2))+
  moreover have "\<forall>q. set (?Q q) \<inter> set fr = {} \<and> set (?Q q) \<inter> insert b held = {}"
    using cl_stD(4,5)[OF st] nb Cons by (auto split: if_splits) (metis disjoint_iff list.set_intros(2))+
  moreover have "set fr \<inter> insert b held = {}" using cl_stD(6)[OF st] nb by auto
  moreover have "(\<Union>q. set (?Q q)) \<union> set fr \<union> insert b held = {..<n}"
  proof -
    have "(\<Union>q. set (Q q)) = insert b (\<Union>q. set (?Q q))"
    proof (intro equalityI subsetI)
      fix x assume "x \<in> (\<Union>q. set (Q q))"
      then obtain q where "x \<in> set (Q q)" by blast
      then show "x \<in> insert b (\<Union>q. set (?Q q))" using Cons by (cases "q = p") auto
    next
      fix x assume "x \<in> insert b (\<Union>q. set (?Q q))"
      moreover have "b \<in> set (Q p)" using Cons by simp
      moreover have "x \<in> set (?Q q) \<Longrightarrow> x \<in> set (Q q)" for q using Cons by (cases "q = p") auto
      ultimately show "x \<in> (\<Union>q. set (Q q))" by blast
    qed
    with cl_stD(7)[OF st] show ?thesis by auto
  qed
  ultimately have "cl_st n s' (insert b held) ?Q fr" using cl_stD(8)[OF st] by (simp add: cl_st_def bl(3))
  then show ?thesis using Cons s'(1) nb(1) h(3) by (simp add: bl(1))
qed


text \<open>What a driver does to a block it holds does not matter.\<close>

lemma held_ok:
  assumes st: "cl_st n s held Q fr" and b: "b \<in> held"
  shows "cl_st n (set_cblk b x s) held Q fr \<and> (\<forall>p. text_of (set_cblk b x s) (Q p) = text_of s (Q p))"
proof -
  have nb: "b \<notin> set (Q p)" "b \<notin> set fr" for p using cl_stD(5,6)[OF st] b by auto
  have "lst_ok (set_cblk b x s) p (Q p)" for p
    using cl_stD(1)[OF st, of p] nb(1)[of p] by (subst lst_ok_frame[of _ _ s]) auto
  moreover have "text_of (set_cblk b x s) (Q p) = text_of s (Q p)" for p using nb(1)[of p] by (intro text_of_cong) auto
  moreover have "chain (cnx (set_cblk b x s)) (cfreelist s) fr"
    using cl_stD(2)[OF st] nb(2) by (subst free_frame[of _ _ s]) auto
  ultimately show ?thesis using st by (simp add: cl_st_def)
qed

text \<open>A block with characters goes to the end of queue \<open>p\<close>.\<close>

lemma putcb_ok:
  assumes st: "cl_st n s (insert b held) Q fr" and b: "b \<notin> held" and ok: "blk_ok (cblk s b)"
  shows "cl_st n (putcb b p s) held (Q(p := Q p @ [b])) fr \<and>
    text_of (putcb b p s) (Q p @ [b]) = text_of s (Q p) @ blk_text (cblk s b) \<and>
    (\<forall>q. q \<noteq> p \<longrightarrow> text_of (putcb b p s) (Q q) = text_of s (Q q))"
proof -
  let ?Q = "Q(p := Q p @ [b])" and ?t = "putcb b p s"
  have nb: "b \<notin> set (Q q)" "b \<notin> set fr" for q using cl_stD(5,6)[OF st] by auto
  have l: "lst_ok s p (Q p)" using cl_stD(1)[OF st] .
  have bt: "cblk ?t = (if Q p = [] then (cblk s)(b := (cblk s b)\<lparr>c_next := None\<rparr>)
      else (cblk s)(last (Q p) := (cblk s (last (Q p)))\<lparr>c_next := Some b\<rparr>, b := (cblk s b)\<lparr>c_next := None\<rparr>))"
    and ct: "clst ?t = (clst s)(p := \<lparr>c_cc = c_cc (clst s p) + (c_last (cblk s b) - c_first (cblk s b)),
      c_cf = (if Q p = [] then Some b else c_cf (clst s p)), c_cl = Some b\<rparr>)"
    and o: "cfreelist ?t = cfreelist s" "c_size ?t = c_size s"
    using l nb(1)[of p] by (auto simp: putcb_def Let_def lst_ok_def)
  have tx: "blk_text (cblk ?t x) = blk_text (cblk s x)" "blk_ok (cblk ?t x) = blk_ok (cblk s x)" for x
    by (auto simp: bt)
  have txe: "text_of ?t bs = text_of s bs" for bs by (simp add: text_of_def tx)
  have "chain (cnx ?t) (c_cf (clst ?t p)) (Q p @ [b])"
  proof (cases "Q p = []")
    case False
    have "chain ((cnx s)(b := None, last (Q p) := Some b)) (c_cf (clst s p)) (Q p @ [b])"
      using l False nb(1) by (intro chain_snoc) (auto simp: lst_ok_def)
    moreover have "cnx ?t = (cnx s)(b := None, last (Q p) := Some b)"
      using False nb(1)[of p] last_in_set[OF False] by (auto simp: bt cnx_def fun_eq_iff)
    ultimately show ?thesis using False by (simp add: ct)
  qed (simp add: bt ct cnx_def)
  then have "lst_ok ?t p (Q p @ [b])"
    using l ok blk_text_length[OF ok] by (auto simp: lst_ok_def tx txe ct)
  moreover have "lst_ok ?t q (Q q)" if "q \<noteq> p" for q
  proof -
    have "last (Q p) \<notin> set (Q q)" if "Q p \<noteq> []"
      using cl_stD(3)[OF st, of p q] \<open>q \<noteq> p\<close> last_in_set[OF that] by auto
    then show ?thesis using cl_stD(1)[OF st, of q] nb(1)[of q] \<open>q \<noteq> p\<close>
      by (subst lst_ok_frame[of _ _ s]) (auto simp: bt ct)
  qed
  ultimately have "\<forall>q. lst_ok ?t q (?Q q)" by simp
  moreover have "chain (cnx ?t) (cfreelist ?t) fr"
  proof -
    have "last (Q p) \<notin> set fr" if "Q p \<noteq> []" using cl_stD(4)[OF st, of p] last_in_set[OF that] by auto
    then show ?thesis using cl_stD(2)[OF st] nb(2) by (subst free_frame[of _ _ s]) (auto simp: bt o)
  qed
  moreover have "\<forall>q r. q \<noteq> r \<longrightarrow> set (?Q q) \<inter> set (?Q r) = {}" using cl_stD(3)[OF st] nb(1) by (auto split: if_splits)
  moreover have "\<forall>q. set (?Q q) \<inter> set fr = {} \<and> set (?Q q) \<inter> held = {}" using cl_stD(4,5)[OF st] nb b by auto
  moreover have "set fr \<inter> held = {}" using cl_stD(6)[OF st] by auto
  moreover have "(\<Union>q. set (?Q q)) \<union> set fr \<union> held = {..<n}"
  proof -
    have "(\<Union>q. set (?Q q)) = insert b (\<Union>q. set (Q q))" by (auto split: if_splits)
    with cl_stD(7)[OF st] show ?thesis by auto
  qed
  ultimately have "cl_st n ?t held ?Q fr" using cl_stD(8)[OF st] by (simp add: cl_st_def o)
  then show ?thesis by (simp add: txe tx)
qed

lemma getc_ok:
  assumes st: "cl_st n s held Q fr"
  obtains r s' Q' fr' where "getc p s = Some (r, s')" "cl_st n s' held Q' fr'"
    "case text_of s (Q p) of [] \<Rightarrow> r = -1 \<and> text_of s' (Q' p) = [] | c # cs \<Rightarrow> r = uint c \<and> text_of s' (Q' p) = cs"
    "\<And>q. q \<noteq> p \<Longrightarrow> text_of s' (Q' q) = text_of s (Q q)"
proof (cases "Q p")
  case Nil
  then have "c_cc (clst s p) = 0" using cl_stD(1)[OF st, of p] by (simp add: lst_ok_def)
  then have "getc p s = Some (-1, s)" by (simp add: getc_def)
  then show ?thesis using that[OF _ st] Nil by simp
next
  case (Cons b bs)
  have l: "lst_ok s p (b # bs)" using cl_stD(1)[OF st, of p] Cons by simp
  let ?x = "cblk s b"
  have h: "c_cf (clst s p) = Some b" "blk_ok ?x" "c_cc (clst s p) > 0"
    "\<not> (c_first ?x < 0 \<or> CLSIZE \<le> c_first ?x)" "s8 (c_first ?x + 1) = c_first ?x + 1"
    using l blk_text_length[of ?x] by (auto simp: lst_ok_def blk_ok_def)
  let ?x1 = "?x\<lparr>c_first := c_first ?x + 1\<rparr>"
  note tx = blk_text_ne[OF h(2)]
  show ?thesis
  proof (cases "c_first ?x + 1 = c_last ?x")
    case True
    obtain s1 where s1: "getcb p s = (Some b, s1)" "b \<notin> held" "cl_st n s1 (insert b held) (Q(p := bs)) fr" "cblk s1 = cblk s"
      using getcb_ok[OF st, of p] Cons by (auto split: prod.splits option.splits)
    note s2 = held_ok[OF s1(3), of b ?x1, simplified]
    note s3 = putcf_ok[OF conjunct1[OF s2] s1(2)]
    have "getc p s = Some (uint (c_data ?x (c_first ?x)), putcf b (set_cblk b ?x1 s1))"
    proof -
      show ?thesis using h(1,3-5) True[symmetric] s1(1)
        by (auto simp: getc_def getcb_def Let_def set_swap[of b] simp del: putcf_simps split: if_splits)
    qed
    moreover have "text_of s1 xs = text_of s xs" for xs by (simp add: text_of_def s1(4))
    moreover from this have "text_of (putcf b (set_cblk b ?x1 s1)) ((Q(p := bs)) q) = text_of s ((Q(p := bs)) q)" for q
      using conjunct2[OF s3] conjunct2[OF s2] by simp
    from this[of p] this have "text_of (putcf b (set_cblk b ?x1 s1)) bs = text_of s bs"
      "\<And>q. q \<noteq> p \<Longrightarrow> text_of (putcf b (set_cblk b ?x1 s1)) (Q q) = text_of s (Q q)"
      by (simp, metis fun_upd_other)
    ultimately show ?thesis using that[OF _ conjunct1[OF s3]] Cons tx True by (simp add: blk_text_def)
  next
    case False
    let ?t = "set_cblk b ?x1 (set_clist p ((clst s p)\<lparr>c_cc := c_cc (clst s p) - 1\<rparr>) s)"
    have nb: "b \<notin> set bs" "b \<notin> set fr" "\<And>q. q \<noteq> p \<Longrightarrow> b \<notin> set (Q q)"
      using cl_stD(4,9)[OF st, of p] cl_stD(3)[OF st, of p] Cons by auto
    have r: "getc p s = Some (uint (c_data ?x (c_first ?x)), ?t)"
      using h(1,3-5) False by (simp add: getc_def Let_def)
    have nx: "cnx ?t = cnx s" by (auto simp: cnx_def)
    have tb: "text_of ?t bs = text_of s bs" using nb(1) by (intro text_of_cong) auto
    have x1: "blk_ok ?x1" using h(2) False by (simp add: blk_ok_def)
    have "lst_ok ?t p (b # bs)" unfolding lst_ok_def nx
      using l x1 tb tx nb(1) by (auto simp: lst_ok_def)
    moreover have "lst_ok ?t q (Q q)" "text_of ?t (Q q) = text_of s (Q q)" if "q \<noteq> p" for q
    proof -
      show "lst_ok ?t q (Q q)" using cl_stD(1)[OF st, of q] that nb(3)[OF that] by (subst lst_ok_frame[of _ _ s]) auto
      show "text_of ?t (Q q) = text_of s (Q q)" using nb(3)[OF that] by (intro text_of_cong) auto
    qed
    ultimately have ll: "lst_ok ?t q (Q q)" and ot: "q \<noteq> p \<Longrightarrow> text_of ?t (Q q) = text_of s (Q q)" for q
      using Cons by (cases "q = p"; simp)+
    have "cl_st n ?t held Q fr" by (rule cl_st_update[OF st nx]) (use ll in simp_all)
    then show ?thesis using that[OF r _ _ ot] Cons tx tb by simp
  qed
qed


text \<open>Storing one more character in the last block.\<close>

lemma putc_store_ok:
  assumes st: "cl_st n s held Q fr" and b: "Q p = bs @ [b]" and room: "c_last (cblk s b) < CLSIZE"
  obtains s' where "putc_store c p b s = Some (0, s')" "cl_st n s' held Q fr"
    "text_of s' (Q p) = text_of s (Q p) @ [c]" "\<And>q. q \<noteq> p \<Longrightarrow> text_of s' (Q q) = text_of s (Q q)"
proof -
  let ?x = "cblk s b"
  let ?x1 = "?x\<lparr>c_data := (c_data ?x)(c_last ?x := c), c_last := c_last ?x + 1\<rparr>"
  let ?t = "set_cblk b ?x1 (set_clist p ((clst s p)\<lparr>c_cc := c_cc (clst s p) + 1\<rparr>) s)"
  have l: "lst_ok s p (bs @ [b])" using cl_stD(1)[OF st, of p] b by simp
  then have h: "blk_ok ?x" by (simp add: lst_ok_def)
  have r: "putc_store c p b s = Some (0, ?t)" using h room by (simp add: putc_store_def blk_ok_def Let_def)
  have nb: "b \<notin> set bs" "b \<notin> set fr" "\<And>q. q \<noteq> p \<Longrightarrow> b \<notin> set (Q q)"
    using cl_stD(4,9)[OF st, of p] cl_stD(3)[OF st, of p] b by auto
  have nx: "cnx ?t = cnx s" by (auto simp: cnx_def)
  have x1: "blk_ok ?x1" "blk_text ?x1 = blk_text ?x @ [c]"
    using h room by (auto simp: blk_ok_def intro: blk_text_snoc)
  have tb: "text_of ?t bs = text_of s bs" using nb(1) by (intro text_of_cong) auto
  have "lst_ok ?t p (bs @ [b])" unfolding lst_ok_def nx using l x1 tb nb(1) by (auto simp: lst_ok_def)
  moreover have "lst_ok ?t q (Q q)" "text_of ?t (Q q) = text_of s (Q q)" if "q \<noteq> p" for q
  proof -
    show "lst_ok ?t q (Q q)" using cl_stD(1)[OF st, of q] that nb(3)[OF that] by (subst lst_ok_frame[of _ _ s]) auto
    show "text_of ?t (Q q) = text_of s (Q q)" using nb(3)[OF that] by (intro text_of_cong) auto
  qed
  ultimately have ll: "lst_ok ?t q (Q q)" and ot: "q \<noteq> p \<Longrightarrow> text_of ?t (Q q) = text_of s (Q q)" for q
    using b by (cases "q = p"; simp)+
  have "cl_st n ?t held Q fr" by (rule cl_st_update[OF st nx]) (use ll in simp_all)
  then show ?thesis using that[OF r _ _ ot] b x1 tb by simp
qed

lemma putc_ok:
  assumes st: "cl_st n s held Q fr"
  obtains r s' Q' fr' where "putc c p s = Some (r, s')" "cl_st n s' held Q' fr'"
    "if r = 0 then text_of s' (Q' p) = text_of s (Q p) @ [c] else r = -1 \<and> s' = s \<and> fr = []"
    "\<And>q. q \<noteq> p \<Longrightarrow> text_of s' (Q' q) = text_of s (Q q)"
proof -
  have l: "lst_ok s p (Q p)" using cl_stD(1)[OF st] .
  have sz: "c_size s = CLSIZE" using cl_stD(8)[OF st] .
  show ?thesis
  proof (cases "Q p \<noteq> [] \<and> c_last (cblk s (last (Q p))) \<noteq> CLSIZE")
    case True
    then have "c_last (cblk s (last (Q p))) < CLSIZE" "Q p = butlast (Q p) @ [last (Q p)]"
      using l by (auto simp: lst_ok_def blk_ok_def) (metis last_in_set order_le_less)
    then obtain s' where "putc_store c p (last (Q p)) s = Some (0, s')" "cl_st n s' held Q fr"
      "text_of s' (Q p) = text_of s (Q p) @ [c]" "\<And>q. q \<noteq> p \<Longrightarrow> text_of s' (Q q) = text_of s (Q q)"
      using putc_store_ok[OF st, of p _ "last (Q p)" c] by metis
    moreover have "putc c p s = putc_store c p (last (Q p)) s"
      using True l sz by (simp add: putc_def Let_def lst_ok_def)
    ultimately show ?thesis using that[of 0 s' Q fr] by simp
  next
    case full: False
    show ?thesis
    proof (cases "cfreelist s")
      case None
      then have "putc c p s = Some (-1, s)" "fr = []"
        using full l sz cl_stD(2)[OF st] by (auto simp: putc_def Let_def lst_ok_def split: option.splits)
      then show ?thesis using that[OF _ st] by simp
    next
      case (Some b)
      let ?x = "(cblk s b)\<lparr>c_next := None, c_first := 0, c_last := 1, c_data := (c_data (cblk s b))(0 := c)\<rparr>"
      obtain s1 fr' where s1: "getcf s = (Some b, s1)" "b \<notin> held" "cl_st n s1 (insert b held) Q fr'"
        "\<And>p. text_of s1 (Q p) = text_of s (Q p)" "clst s1 = clst s" "\<And>p. b \<notin> set (Q p)"
        using getcf_ok[OF st] Some by (auto simp: getcf_def)
      note s2 = held_ok[OF s1(3), of b ?x, simplified]
      have ok: "blk_ok (cblk (set_cblk b ?x s1) b)" by (simp add: blk_ok_def)
      note s3 = putcb_ok[OF conjunct1[OF s2] s1(2) ok, of p]
      let ?t = "putcb b p (set_cblk b ?x s1)"
      have ne: "last (Q p) \<noteq> b" if "Q p \<noteq> []" using s1(6)[of p] last_in_set[OF that] by auto
      have "putc c p s = Some (0, ?t)"
        using s1(1) Some full l sz ne
        by (cases "Q p = []") (auto simp: putc_def getcf_def putcb_def putc_store_def Let_def lst_ok_def
            set_cblk_def set_clist_def fun_eq_iff intro!: cstate.equality cblock.equality clist.equality)
      moreover have "text_of ?t (Q p @ [b]) = text_of s (Q p) @ [c]"
        using s3 s2 s1(4) by (simp add: blk_text_def)
      moreover have "text_of ?t (Q q) = text_of s (Q q)" if "q \<noteq> p" for q
        using s3 s2 s1(4) that by simp
      ultimately show ?thesis using that[of 0 ?t "Q(p := Q p @ [b])" fr] that[OF _ conjunct1[OF s3], of 0] by simp
    qed
  qed
qed


section \<open>Boot and reachable states\<close>

definition clist_zero :: "cstate \<Rightarrow> bool" where
  "clist_zero s \<longleftrightarrow> cfreelist s = None \<and> (\<forall>p. clst s p = \<lparr>c_cc = 0, c_cf = None, c_cl = None\<rparr>)"

lemma cinit_from_ok:
  "chain (cnx s) (cfreelist s) (rev [0..<i]) \<Longrightarrow>
     chain (cnx (cinit_from n i s)) (cfreelist (cinit_from n i s)) (rev [0..<i + n]) \<and> clst (cinit_from n i s) = clst s \<and>
     cfreecnt (cinit_from n i s) = cfreecnt s + int n"
proof (induction n arbitrary: i s)
  case (Suc n)
  let ?s = "(set_cblk i ((cblk s i)\<lparr>c_next := cfreelist s\<rparr>) s)\<lparr>cfreelist := Some i, cfreecnt := cfreecnt s + 1\<rparr>"
  have "chain (cnx ?s) (cfreelist s) (rev [0..<i])" using Suc.prems by (subst free_frame[of _ _ s]) auto
  then have "chain (cnx ?s) (cfreelist ?s) (rev [0..<Suc i])" by (simp add: cnx_def)
  from Suc.IH[OF this] show ?case by simp
qed simp

lemma cinit_ok:
  assumes "clist_zero s"
  shows "cl_st n (cinit n s) {} (\<lambda>_. []) (rev [0..<n])"
proof -
  have "lst_ok (cinit n s) p []" for p
    using cinit_from_ok[of s 0 n] assms by (simp add: cinit_def lst_ok_def clist_zero_def)
  moreover have "cnx (cinit n s) = cnx (cinit_from n 0 s)" by (simp add: cnx_def[abs_def] cinit_def)
  ultimately show ?thesis using cinit_from_ok[of s 0 n] assms
    by (auto simp: cl_st_def clist_zero_def) (simp_all add: cinit_def)
qed

text \<open>All sequences of calls; a driver may do anything with the blocks it holds, but queues only
  blocks with characters in them.\<close>

inductive cl_reach :: "nat \<Rightarrow> cstate \<Rightarrow> nat set \<Rightarrow> bool" where
  Init: "clist_zero s \<Longrightarrow> cl_reach n (cinit n s) {}"
| Get: "cl_reach n s held \<Longrightarrow> getc p s = Some (r, s') \<Longrightarrow> cl_reach n s' held"
| Put: "cl_reach n s held \<Longrightarrow> putc c p s = Some (r, s') \<Longrightarrow> cl_reach n s' held"
| Getcf: "cl_reach n s held \<Longrightarrow> getcf s = (Some b, s') \<Longrightarrow> cl_reach n s' (insert b held)"
| Putcf: "cl_reach n s (insert b held) \<Longrightarrow> b \<notin> held \<Longrightarrow> cl_reach n (putcf b s) held"
| Getcb: "cl_reach n s held \<Longrightarrow> getcb p s = (Some b, s') \<Longrightarrow> cl_reach n s' (insert b held)"
| Putcb: "cl_reach n s (insert b held) \<Longrightarrow> b \<notin> held \<Longrightarrow> blk_ok (cblk s b) \<Longrightarrow> cl_reach n (putcb b p s) held"
| Fill: "cl_reach n s held \<Longrightarrow> b \<in> held \<Longrightarrow> cl_reach n (set_cblk b x s) held"

lemma cl_invI: "cl_st n s held Q fr \<Longrightarrow> cl_inv n s held"
  by (auto simp: cl_inv_def)

text \<open>The two calls on one queue, on the texts.\<close>

lemma getc_text:
  assumes "cl_inv n s held"
  obtains r s' where "getc p s = Some (r, s')" "cl_inv n s' held"
    "case queue_text s p of [] \<Rightarrow> r = -1 \<and> queue_text s' p = [] | c # cs \<Rightarrow> r = uint c \<and> queue_text s' p = cs"
    "\<And>q. q \<noteq> p \<Longrightarrow> queue_text s' q = queue_text s q"
proof -
  obtain Q fr where st: "cl_st n s held Q fr" using assms by (auto simp: cl_inv_def)
  obtain r s' Q' fr' where g: "getc p s = Some (r, s')" "cl_st n s' held Q' fr'"
    "case text_of s (Q p) of [] \<Rightarrow> r = -1 \<and> text_of s' (Q' p) = [] | c # cs \<Rightarrow> r = uint c \<and> text_of s' (Q' p) = cs"
    "\<And>q. q \<noteq> p \<Longrightarrow> text_of s' (Q' q) = text_of s (Q q)" by (rule getc_ok[OF st, of p]) blast
  have e: "queue_text s q = text_of s (Q q)" "queue_text s' q = text_of s' (Q' q)" for q
    by (rule queue_text_eq[OF cl_stD(1)[OF st]], rule queue_text_eq[OF cl_stD(1)[OF g(2)]])
  show ?thesis by (rule that[OF g(1) cl_invI[OF g(2)]]) (use g(3,4) in \<open>auto simp: e split: list.splits\<close>)
qed

lemma putc_text:
  assumes "cl_inv n s held"
  obtains r s' where "putc c p s = Some (r, s')" "cl_inv n s' held"
    "if r = 0 then queue_text s' p = queue_text s p @ [c] else r = -1 \<and> s' = s \<and> cfreelist s = None"
    "\<And>q. q \<noteq> p \<Longrightarrow> queue_text s' q = queue_text s q"
proof -
  obtain Q fr where st: "cl_st n s held Q fr" using assms by (auto simp: cl_inv_def)
  obtain r s' Q' fr' where g: "putc c p s = Some (r, s')" "cl_st n s' held Q' fr'"
    "if r = 0 then text_of s' (Q' p) = text_of s (Q p) @ [c] else r = -1 \<and> s' = s \<and> fr = []"
    "\<And>q. q \<noteq> p \<Longrightarrow> text_of s' (Q' q) = text_of s (Q q)" by (rule putc_ok[OF st, of c p]) blast
  have e: "queue_text s q = text_of s (Q q)" "queue_text s' q = text_of s' (Q' q)" for q
    by (rule queue_text_eq[OF cl_stD(1)[OF st]], rule queue_text_eq[OF cl_stD(1)[OF g(2)]])
  have "fr = [] \<Longrightarrow> cfreelist s = None" using cl_stD(2)[OF st] by simp
  then show ?thesis using that[OF g(1) cl_invI[OF g(2)]] g(3,4) by (simp add: e split: if_splits)
qed

lemma cl_reach_inv: "cl_reach n s held \<Longrightarrow> cl_inv n s held"
proof (induction rule: cl_reach.induct)
  case (Init s n)
  then show ?case by (rule cl_invI[OF cinit_ok])
next
  case (Get n s held p r s')
  then show ?case using getc_text[OF Get.IH, of p] by (metis option.inject prod.inject)
next
  case (Put n s held c p r s')
  then show ?case using putc_text[OF Put.IH, of c p] by (metis option.inject prod.inject)
next
  case (Getcf n s held b s')
  then obtain Q fr where st: "cl_st n s held Q fr" by (auto simp: cl_inv_def)
  then show ?case using getcf_ok[OF st] Getcf.hyps(2) by (auto intro: cl_invI)
next
  case (Putcf n s b held)
  then obtain Q fr where st: "cl_st n s (insert b held) Q fr" by (auto simp: cl_inv_def)
  then show ?case using putcf_ok[OF st] Putcf.hyps(2) by (auto intro: cl_invI)
next
  case (Getcb n s held p b s')
  then obtain Q fr where st: "cl_st n s held Q fr" by (auto simp: cl_inv_def)
  then show ?case using getcb_ok[OF st, of p] Getcb.hyps(2) by (auto intro: cl_invI)
next
  case (Putcb n s b held p)
  then obtain Q fr where st: "cl_st n s (insert b held) Q fr" by (auto simp: cl_inv_def)
  then show ?case using putcb_ok[OF st] Putcb.hyps(2,3) by (blast intro: cl_invI)
next
  case (Fill n s held b x)
  then obtain Q fr where st: "cl_st n s held Q fr" by (auto simp: cl_inv_def)
  then show ?case using held_ok[OF st Fill.hyps(2)] by (blast intro: cl_invI)
qed

section \<open>Queues of characters\<close>

text \<open>What a terminal driver expects of a queue: a put that succeeds appends, a get takes the
  oldest element.\<close>

locale fifo =
  fixes ok :: "'s \<Rightarrow> bool" and content :: "'s \<Rightarrow> 'a list"
    and put :: "'a \<Rightarrow> 's \<Rightarrow> bool \<times> 's" and get :: "'s \<Rightarrow> 'a option \<times> 's"
  assumes put_law: "ok s \<Longrightarrow> put x s = (b, s') \<Longrightarrow> ok s' \<and> content s' = (if b then content s @ [x] else content s)"
    and get_law: "ok s \<Longrightarrow> get s = (r, s') \<Longrightarrow> ok s' \<and> r = (case content s of [] \<Rightarrow> None | c # _ \<Rightarrow> Some c) \<and> content s' = tl (content s)"

text \<open>A sequence of puts (\<open>Some x\<close>) and gets (\<open>None\<close>): the elements accepted, those delivered and
  the last state.\<close>

fun fifo_run :: "('a \<Rightarrow> 's \<Rightarrow> bool \<times> 's) \<Rightarrow> ('s \<Rightarrow> 'a option \<times> 's) \<Rightarrow> 'a option list \<Rightarrow> 's \<Rightarrow> 'a list \<times> 'a list \<times> 's" where
  "fifo_run put get [] s = ([], [], s)"
| "fifo_run put get (Some x # es) s =
     (let (b, s1) = put x s; (acc, got, s2) = fifo_run put get es s1 in (if b then x # acc else acc, got, s2))"
| "fifo_run put get (None # es) s =
     (let (r, s1) = get s; (acc, got, s2) = fifo_run put get es s1
      in (acc, (case r of None \<Rightarrow> got | Some x \<Rightarrow> x # got), s2))"

context fifo
begin

lemma run_order: "ok s \<Longrightarrow> fifo_run put get es s = (acc, got, s') \<Longrightarrow> ok s' \<and> content s @ acc = got @ content s'"
proof (induction es arbitrary: s acc got)
  case (Cons e es)
  show ?case
  proof (cases e)
    case None
    obtain r s1 where g: "get s = (r, s1)" by (cases "get s")
    obtain acc1 got1 where r: "fifo_run put get es s1 = (acc1, got1, s')" "acc = acc1"
      "got = (case r of None \<Rightarrow> got1 | Some x \<Rightarrow> x # got1)"
      using Cons.prems(2) None g by (auto split: prod.splits)
    have l: "ok s1" "r = (case content s of [] \<Rightarrow> None | c # _ \<Rightarrow> Some c)" "content s1 = tl (content s)"
      using get_law[OF Cons.prems(1) g] by auto
    show ?thesis using Cons.IH[OF l(1) r(1)] l(2,3) r(2,3) by (cases "content s") auto
  next
    case (Some x)
    obtain b s1 where g: "put x s = (b, s1)" by (cases "put x s")
    obtain acc1 where r: "fifo_run put get es s1 = (acc1, got, s')" "acc = (if b then x # acc1 else acc1)"
      using Cons.prems(2) Some g by (auto split: prod.splits)
    have l: "ok s1" "content s1 = (if b then content s @ [x] else content s)"
      using put_law[OF Cons.prems(1) g] by auto
    show ?thesis using Cons.IH[OF l(1) r(1)] l(2) r(2) by (auto split: if_splits)
  qed
qed simp

lemma run_lost_nothing: "ok s \<Longrightarrow> fifo_run put get es s = (acc, got, s') \<Longrightarrow> content s' = [] \<Longrightarrow> got = content s @ acc"
  using run_order[of s es acc got s'] by simp

end

text \<open>The calls as the drivers use them.\<close>

definition clput :: "nat \<Rightarrow> u8 \<Rightarrow> cstate \<Rightarrow> bool \<times> cstate" where
  "clput p c s = (case putc c p s of None \<Rightarrow> (False, s) | Some (r, s') \<Rightarrow> (r = 0, s'))"

definition clget :: "nat \<Rightarrow> cstate \<Rightarrow> u8 option \<times> cstate" where
  "clget p s = (case getc p s of None \<Rightarrow> (None, s) | Some (r, s') \<Rightarrow> (if r < 0 then None else Some (of_int r), s'))"

interpretation clq: fifo "\<lambda>s. cl_inv n s held" "\<lambda>s. queue_text s p" "clput p" "clget p" for n held p
proof
  fix s x b s'
  assume i: "cl_inv n s held" and r: "clput p x s = (b, s')"
  obtain r t where "putc x p s = Some (r, t)" "cl_inv n t held"
    "if r = 0 then queue_text t p = queue_text s p @ [x] else r = -1 \<and> t = s \<and> cfreelist s = None"
    by (rule putc_text[OF i, of x p]) blast
  with r show "cl_inv n s' held \<and> queue_text s' p = (if b then queue_text s p @ [x] else queue_text s p)"
    by (auto simp: clput_def split: if_splits)
next
  fix s r s'
  assume i: "cl_inv n s held" and r: "clget p s = (r, s')"
  obtain v t where "getc p s = Some (v, t)" "cl_inv n t held"
    "case queue_text s p of [] \<Rightarrow> v = -1 \<and> queue_text t p = [] | c # cs \<Rightarrow> v = uint c \<and> queue_text t p = cs"
    by (rule getc_text[OF i, of p]) blast
  with r show "cl_inv n s' held \<and> r = (case queue_text s p of [] \<Rightarrow> None | c # _ \<Rightarrow> Some c) \<and>
    queue_text s' p = tl (queue_text s p)"
    by (auto simp: clget_def split: list.splits if_splits)
qed


section \<open>A concrete system\<close>

definition cl_zero :: cstate where
  "cl_zero = \<lparr>cblk = (\<lambda>_. \<lparr>c_next = None, c_first = 0, c_last = 0, c_data = (\<lambda>_. 0)\<rparr>),
     clst = (\<lambda>_. \<lparr>c_cc = 0, c_cf = None, c_cl = None\<rparr>), cfreelist = None, c_size = 0, c_flag = 0, cfreecnt = 0, cwakes = 0\<rparr>"

definition cl_demo :: cstate where
  "cl_demo = snd (clput 0 66 (snd (clput 0 65 (cinit 2 cl_zero))))"

lemma cl_zero_reach: "cl_reach n (cinit n cl_zero) {}"
  by (rule cl_reach.Init) (simp add: clist_zero_def cl_zero_def)

lemma clput_reach: "cl_reach n s held \<Longrightarrow> cl_reach n (snd (clput p c s)) held"
  using cl_reach.Put[of n s held c p] by (auto simp: clput_def split: option.splits)

lemma cl_demo_reach: "cl_reach 2 cl_demo {}"
  unfolding cl_demo_def by (intro clput_reach cl_zero_reach)

lemma cl_demo_eq: "cl_demo = \<lparr>cblk = (\<lambda>_. \<lparr>c_next = None, c_first = 0, c_last = 0, c_data = (\<lambda>_. 0)\<rparr>)
     (1 := \<lparr>c_next = None, c_first = 0, c_last = 2, c_data = (\<lambda>_. 0)(0 := 65, 1 := 66)\<rparr>),
   clst = (\<lambda>_. \<lparr>c_cc = 0, c_cf = None, c_cl = None\<rparr>)(0 := \<lparr>c_cc = 2, c_cf = Some 1, c_cl = Some 1\<rparr>),
   cfreelist = Some 0, c_size = 64, c_flag = 0, cfreecnt = 2, cwakes = 0\<rparr>"
  by (simp add: cl_demo_def clput_def putc_def putc_store_def cinit_def cl_zero_def numeral_2_eq_2
        set_cblk_def set_clist_def Let_def fun_eq_iff)

lemma cl_demo_text: "queue_text cl_demo 0 = [65, 66]"
proof -
  have "c_cf (clst cl_demo 0) = Some 1" "cnx cl_demo 1 = None" "blk_text (cblk cl_demo 1) = [65, 66]"
    by (simp_all add: cl_demo_eq cnx_def blk_text_def upto_rec1)
  then show ?thesis by (simp add: queue_text_def blocks_from.simps text_of_def)
qed

section \<open>Properties\<close>

text \<open>C20: From every state the calls can reach \<^verbatim>\<open>getc\<close> and \<^verbatim>\<open>putc\<close> return without touching memory
  outside a block: \<^verbatim>\<open>getc\<close> takes the oldest character of its queue or returns -1 when the queue is
  empty, \<^verbatim>\<open>putc\<close> appends the character or, only when the free list is empty, returns -1 and
  changes nothing; the other queues stay as they are.\<close>

theorem clist_getc_putc:
  assumes "cl_reach n s held"
  shows "(\<exists>r s'. getc p s = Some (r, s') \<and> (\<forall>q. q \<noteq> p \<longrightarrow> queue_text s' q = queue_text s q) \<and>
      (case queue_text s p of [] \<Rightarrow> r = -1 \<and> queue_text s' p = [] | c # cs \<Rightarrow> r = uint c \<and> queue_text s' p = cs)) \<and>
    (\<exists>r s'. putc c p s = Some (r, s') \<and> (\<forall>q. q \<noteq> p \<longrightarrow> queue_text s' q = queue_text s q) \<and>
      (if r = 0 then queue_text s' p = queue_text s p @ [c] else r = -1 \<and> s' = s \<and> cfreelist s = None))"
proof -
  have i: "cl_inv n s held" by (rule cl_reach_inv[OF assms])
  show ?thesis by (rule getc_text[OF i, of p]; rule putc_text[OF i, of c p]) blast
qed

theorem clist_getc_putc_witness:
  "\<exists>s'. getc 0 cl_demo = Some (65, s') \<and> queue_text s' 0 = [66]"
  using clist_getc_putc[OF cl_demo_reach, of 0 0] by (auto simp: cl_demo_text)

text \<open>C21: A queue delivers what was put on it, in order and without loss: for any sequence of
  \<^verbatim>\<open>putc\<close> and \<^verbatim>\<open>getc\<close> on it, what it held followed by the characters accepted equals the
  characters delivered followed by what it holds.\<close>

theorem clist_fifo_order:
  assumes "cl_reach n s held" and "fifo_run (clput p) (clget p) es s = (accepted, delivered, s')"
  shows "queue_text s p @ accepted = delivered @ queue_text s' p"
  using clq.run_order[OF cl_reach_inv[OF assms(1)] assms(2)] by simp

theorem clist_fifo_order_witness:
  "\<exists>s'. fifo_run (clput 0) (clget 0) [Some 67, None] cl_demo = ([67], [65], s') \<and> queue_text s' 0 = [66, 67]"
proof -
  obtain acc got s' where r: "fifo_run (clput 0) (clget 0) [Some 67, None] cl_demo = (acc, got, s')"
    by (metis prod_cases3)
  have "acc = [67] \<and> got = [65]"
    using r by (auto simp: clput_def clget_def getc_def cl_demo_eq putc_def putc_store_def set_cblk_def set_clist_def Let_def)
  with r clist_fifo_order[OF cl_demo_reach r] show ?thesis by (simp add: cl_demo_text)
qed

text \<open>No block is lost or used twice: at every moment each of the \<open>n\<close> blocks is in exactly one
  queue, on the free list or with a driver, each queue's count is the number of its characters
  and every queued block holds between 1 and \<^verbatim>\<open>CLSIZE\<close> of them.\<close>

theorem clist_blocks_conserved:
  assumes "cl_reach n s held"
  obtains Q fr where "\<And>p. blocks_from (cnx s) (c_cf (clst s p)) = Some (Q p)" "blocks_from (cnx s) (cfreelist s) = Some fr"
    "\<And>p. distinct (Q p)" "distinct fr" "\<And>p q. p \<noteq> q \<Longrightarrow> set (Q p) \<inter> set (Q q) = {}"
    "\<And>p. set (Q p) \<inter> (set fr \<union> held) = {}" "set fr \<inter> held = {}" "(\<Union>p. set (Q p)) \<union> set fr \<union> held = {..<n}"
    "\<And>p. c_cc (clst s p) = int (length (queue_text s p))" "\<And>p b. b \<in> set (Q p) \<Longrightarrow> blk_text (cblk s b) \<noteq> []"
proof -
  obtain Q fr where st: "cl_st n s held Q fr" using cl_reach_inv[OF assms] by (auto simp: cl_inv_def)
  have l: "lst_ok s p (Q p)" for p by (rule cl_stD(1)[OF st])
  show ?thesis
  proof (rule that[of Q fr])
    show "blocks_from (cnx s) (c_cf (clst s p)) = Some (Q p)" for p
      using l[of p] by (intro blocks_from_chain) (simp add: lst_ok_def)
    show "blocks_from (cnx s) (cfreelist s) = Some fr" by (rule blocks_from_chain[OF cl_stD(2)[OF st]])
    show "c_cc (clst s p) = int (length (queue_text s p))" for p
      using l[of p] queue_text_eq[OF l] by (simp add: lst_ok_def)
    show "blk_text (cblk s b) \<noteq> []" if "b \<in> set (Q p)" for p b
      using l[of p] that blk_text_ne[of "cblk s b"] by (auto simp: lst_ok_def)
    show "set (Q p) \<inter> (set fr \<union> held) = {}" for p using cl_stD(4,5)[OF st, of p] by blast
  qed (use cl_stD(3,6,7,9,10)[OF st] in blast)+
qed

theorem clist_blocks_conserved_witness:
  "\<exists>(Q :: nat \<Rightarrow> nat list) fr. (\<Union>p. set (Q p)) \<union> set fr = {..<2} \<and> blocks_from (cnx cl_demo) (cfreelist cl_demo) = Some fr \<and>
     c_cc (clst cl_demo 0) = 2"
proof (rule clist_blocks_conserved[OF cl_demo_reach])
  fix Q :: "nat \<Rightarrow> nat list" and fr
  assume a: "blocks_from (cnx cl_demo) (cfreelist cl_demo) = Some fr" "(\<Union>p. set (Q p)) \<union> set fr \<union> {} = {..<2}"
    "\<And>p. c_cc (clst cl_demo p) = int (length (queue_text cl_demo p))"
  show ?thesis using a(1,2) a(3)[of 0] by (intro exI[of _ Q] exI[of _ fr]) (simp add: cl_demo_text)
qed

end
