(* ===== verification/Callout.thy ===== *)
theory Callout
  imports Prelude
begin

text \<open>
  Timeouts: \<^verbatim>\<open>timeout\<close>, \<^verbatim>\<open>untimeout\<close>, \<^verbatim>\<open>timein\<close>, \<^verbatim>\<open>delay\<close> and the callout part of \<^verbatim>\<open>clock\<close> in
  \<^verbatim>\<open>uts/m68k/os/clock.c\<close>. The table \<^verbatim>\<open>callout[]\<close> is the list of its \<^verbatim>\<open>v.v_call\<close> slots, the active
  entries first, then one with a null \<^verbatim>\<open>c_func\<close>. Functions and arguments are addresses. A
  \<open>None\<close> result is an access outside the table.
\<close>

section \<open>State\<close>

record callo =
  c_time :: int
  c_id :: int
  c_arg :: nat
  c_func :: "nat option"

record costate =
  callout :: "callo list"
  timeid :: int
  pokes :: nat

section \<open>Operations\<close>

text \<open>\<^verbatim>\<open>p2\<close> moves the entries from \<^verbatim>\<open>p1\<close> to the terminator one slot up; \<open>x\<close> comes to \<^verbatim>\<open>p1\<close>.\<close>

fun co_shift :: "callo \<Rightarrow> callo list \<Rightarrow> callo list option" where
  "co_shift x [] = None"
| "co_shift x (e # es) =
     (if c_func e = None then (case es of [] \<Rightarrow> None | _ # rest \<Rightarrow> Some (x # e # rest))
      else map_option (Cons x) (co_shift e es))"

text \<open>The walk of \<^verbatim>\<open>p1\<close> to the place of the entry; \<open>t\<close> is the time left.\<close>

fun co_walk :: "nat \<Rightarrow> nat \<Rightarrow> int \<Rightarrow> int \<Rightarrow> callo list \<Rightarrow> callo list option" where
  "co_walk fn arg ident t [] = None"
| "co_walk fn arg ident t (e # es) =
     (if c_func e \<noteq> None \<and> c_time e \<le> t
      then map_option (Cons e) (co_walk fn arg ident (s32 (t - c_time e)) es)
      else co_shift \<lparr>c_time = t, c_id = ident, c_arg = arg, c_func = Some fn\<rparr>
             (e\<lparr>c_time := s32 (c_time e - t)\<rparr> # es))"

datatype cores = CoPanic | CoId int

definition timeout :: "nat \<Rightarrow> nat \<Rightarrow> int \<Rightarrow> costate \<Rightarrow> (cores \<times> costate) option" where
  "timeout fn arg tim s =
     (let tab = callout s; n = length tab
      in if n < 2 then None
         else if c_func (tab ! (n - 2)) \<noteq> None then Some (CoPanic, s)
         else let ident = s32 (timeid s + 1)
              in map_option (\<lambda>tab'. (CoId ident, s\<lparr>callout := tab', timeid := ident\<rparr>))
                   (co_walk fn arg ident tim tab))"

text \<open>\<^verbatim>\<open>do *p1++ = *p2++; while (p1->c_func != NULL);\<close>, the list from \<^verbatim>\<open>p2\<close> on.\<close>

fun co_pull :: "callo list \<Rightarrow> callo list option" where
  "co_pull [] = None"
| "co_pull (n # ns) = map_option (Cons n) (if c_func n = None then Some (n # ns) else co_pull ns)"

fun co_remove :: "int \<Rightarrow> callo list \<Rightarrow> callo list option" where
  "co_remove ident [] = None"
| "co_remove ident (e # es) =
     (if c_func e = None then Some (e # es)
      else if c_id e = ident then
        (case es of [] \<Rightarrow> None | n # ns \<Rightarrow> co_pull (n\<lparr>c_time := s32 (c_time n + c_time e)\<rparr> # ns))
      else map_option (Cons e) (co_remove ident es))"

definition untimeout :: "int \<Rightarrow> costate \<Rightarrow> costate option" where
  "untimeout ident s = map_option (\<lambda>tab. s\<lparr>callout := tab\<rparr>) (co_remove ident (callout s))"

text \<open>One round of the loop of \<^verbatim>\<open>timein\<close>: the first entry, when it is due, leaves the table before
  its function is called.\<close>

definition timein_pop :: "costate \<Rightarrow> ((nat \<times> nat) option \<times> costate) option" where
  "timein_pop s =
     (case callout s of
        [] \<Rightarrow> None
      | e # es \<Rightarrow>
          (case c_func e of
             None \<Rightarrow> Some (None, s)
           | Some fn \<Rightarrow>
               if c_time e \<le> 0
               then map_option (\<lambda>tab. (Some (fn, c_arg e), s\<lparr>callout := tab\<rparr>)) (co_pull es)
               else Some (None, s)))"

text \<open>The loop. \<open>call fn arg\<close> is what the function called does to the callouts; the result lists
  the calls made.\<close>

partial_function (option) timein_loop ::
    "(nat \<Rightarrow> nat \<Rightarrow> costate \<Rightarrow> costate option) \<Rightarrow> costate \<Rightarrow> ((nat \<times> nat) list \<times> costate) option" where
  "timein_loop call s =
     Option.bind (timein_pop s) (\<lambda>(f, s1).
       case f of
         None \<Rightarrow> Some ([], s1)
       | Some (fn, arg) \<Rightarrow>
           Option.bind (call fn arg s1) (\<lambda>s2.
           Option.bind (timein_loop call s2) (\<lambda>(fs, s3). Some ((fn, arg) # fs, s3))))"

definition timein ::
    "(nat \<Rightarrow> nat \<Rightarrow> costate \<Rightarrow> costate option) \<Rightarrow> costate \<Rightarrow> ((nat \<times> nat) list \<times> costate) option" where
  "timein call s =
     (case callout s of
        [] \<Rightarrow> None
      | e # es \<Rightarrow> if c_func e = None then Some ([], s)
                  else if c_time e \<le> 0 then timein_loop call s else Some ([], s))"

text \<open>The tick in \<^verbatim>\<open>clock\<close>: the first entry with time left, or the terminator, is decremented.\<close>

fun co_tick :: "callo list \<Rightarrow> callo list option" where
  "co_tick [] = None"
| "co_tick (e # es) =
     (if c_time e \<le> 0 \<and> c_func e \<noteq> None then map_option (Cons e) (co_tick es)
      else Some (e\<lparr>c_time := s32 (c_time e - 1)\<rparr> # es))"

definition clock_callout :: "costate \<Rightarrow> costate option" where
  "clock_callout s =
     (case callout s of
        [] \<Rightarrow> None
      | e # _ \<Rightarrow>
          map_option (\<lambda>tab. if c_time (hd tab) \<le> 0 then s\<lparr>callout := tab, pokes := pokes s + 1\<rparr> else s\<lparr>callout := tab\<rparr>)
            (if c_func e \<noteq> None then co_tick (callout s) else Some (callout s)))"

text \<open>\<^verbatim>\<open>delay\<close> arms a wakeup of the caller's delay channel and tells whether it sleeps on it.\<close>

definition delay :: "nat \<Rightarrow> nat \<Rightarrow> int \<Rightarrow> costate \<Rightarrow> (bool \<times> cores option \<times> costate) option" where
  "delay wakeup procp ticks s =
     (if ticks \<le> 0 then Some (False, None, s)
      else map_option (\<lambda>(r, s1). (r \<noteq> CoPanic, Some r, s1)) (timeout wakeup (procp + 1) ticks s))"

section \<open>Deadlines\<close>

text \<open>The active entries with the ticks left to each: identifier, function and argument.\<close>

type_synonym pend = "int \<times> int \<times> nat \<times> nat"

fun pending :: "int \<Rightarrow> callo list \<Rightarrow> pend list" where
  "pending d [] = []"
| "pending d (e # es) =
     (case c_func e of None \<Rightarrow> []
      | Some fn \<Rightarrow> (d + c_time e, c_id e, fn, c_arg e) # pending (d + c_time e) es)"

abbreviation deadlines :: "costate \<Rightarrow> pend list" where
  "deadlines s \<equiv> pending 0 (callout s)"

text \<open>Well-formed: the table has a terminator and only unused slots after it, times are not negative, deadlines fit an \<^verbatim>\<open>int\<close>.\<close>

fun co_ok :: "int \<Rightarrow> callo list \<Rightarrow> bool" where
  "co_ok d [] = False"
| "co_ok d (e # es) =
     (case c_func e of None \<Rightarrow> \<forall>x\<in>set es. c_func x = None
      | Some fn \<Rightarrow> 0 \<le> c_time e \<and> d + c_time e < 2147483648 \<and> co_ok (d + c_time e) es)"

definition co_inv :: "costate \<Rightarrow> bool" where
  "co_inv s \<longleftrightarrow> co_ok 0 (callout s)"

text \<open>Where a deadline goes: after all that are not later.\<close>

fun pend_insert :: "pend \<Rightarrow> pend list \<Rightarrow> pend list" where
  "pend_insert x [] = [x]"
| "pend_insert x (y # ys) = (if fst y \<le> fst x then y # pend_insert x ys else x # y # ys)"

lemma co_shift_ok:
  assumes "co_ok d es" "length (pending d es) + 1 < length es"
  shows "\<exists>es'. co_shift x es = Some (x # es') \<and> length es' + 1 = length es \<and> pending d' es' = pending d' es \<and>
    co_ok d' es' = co_ok d' es"
  using assms
proof (induction es arbitrary: x d d')
  case (Cons e es)
  show ?case
  proof (cases "c_func e")
    case None
    then show ?thesis using Cons.prems by (cases es) auto
  next
    case (Some fn)
    then obtain es' where "co_shift e es = Some (e # es')" "length es' + 1 = length es"
      "pending (d' + c_time e) es' = pending (d' + c_time e) es" "co_ok (d' + c_time e) es' = co_ok (d' + c_time e) es"
      using Cons.IH[of "d + c_time e" e "d' + c_time e"] Cons.prems by auto
    then show ?thesis using Some by simp
  qed
qed simp

lemma pending_shift: "pending (d + k) es = map (\<lambda>(t, r). (t + k, r)) (pending d es)"
proof (induction es arbitrary: d)
  case (Cons e es)
  show ?case using Cons.IH[of "d + c_time e"] by (auto simp: ac_simps split: option.splits)
qed simp

lemma co_ok_le: "co_ok d es \<Longrightarrow> d' \<le> d \<Longrightarrow> co_ok d' es"
  by (induction d es arbitrary: d' rule: co_ok.induct) (fastforce split: option.splits)+

lemma co_ok_pending: "co_ok d es \<Longrightarrow> p \<in> set (pending d es) \<Longrightarrow> d \<le> fst p \<and> fst p < 2147483648"
  by (induction d es rule: co_ok.induct) (fastforce split: option.splits)+

text \<open>The walk inserts the new deadline.\<close>

lemma co_walk_ok:
  assumes "co_ok d es" "length (pending d es) + 1 < length es" "0 \<le> d" "0 \<le> t" "d + t < 2147483648"
  shows "\<exists>es'. co_walk fn arg ident t es = Some es' \<and> length es' = length es \<and> co_ok d es' \<and>
    pending d es' = pend_insert (d + t, ident, fn, arg) (pending d es)"
  using assms
proof (induction es arbitrary: d t)
  case (Cons e es)
  show ?case
  proof (cases "c_func e \<noteq> None \<and> c_time e \<le> t")
    case True
    then obtain g where g: "c_func e = Some g" "0 \<le> c_time e" "co_ok (d + c_time e) es"
      using Cons.prems(1) by auto
    have t: "s32 (t - c_time e) = t - c_time e" using g(2) True Cons.prems by (intro s32_id) linarith+
    obtain es' where "co_walk fn arg ident (t - c_time e) es = Some es'" "length es' = length es" "co_ok (d + c_time e) es'"
      "pending (d + c_time e) es' = pend_insert (d + c_time e + (t - c_time e), ident, fn, arg) (pending (d + c_time e) es)"
      using Cons.IH[of "d + c_time e" "t - c_time e"] g True Cons.prems by auto
    then show ?thesis using True g Cons.prems t by simp
  next
    case False
    let ?x = "\<lparr>c_time = t, c_id = ident, c_arg = arg, c_func = Some fn\<rparr>" and ?e = "e\<lparr>c_time := s32 (c_time e - t)\<rparr>"
    have ok: "co_ok (d + t) (?e # es)"
      using Cons.prems False by (auto split: option.splits)
    have len: "length (pending (d + t) (?e # es)) + 1 < length (?e # es)"
    proof (cases "c_func e")
      case (Some g)
      then have "s32 (c_time e - t) = c_time e - t" using False Cons.prems by (intro s32_id) auto
      then show ?thesis using Some Cons.prems(2) by simp
    qed (use Cons.prems(2) in simp)
    obtain es' where s: "co_shift ?x (?e # es) = Some (?x # es')" "length es' + 1 = length (?e # es)"
      "pending (d + t) es' = pending (d + t) (?e # es)" "co_ok (d + t) es' = co_ok (d + t) (?e # es)"
      using co_shift_ok[OF ok len] by blast
    have p: "pending (d + t) (?e # es) = pending d (e # es)"
    proof (cases "c_func e")
      case (Some g)
      then have "s32 (c_time e - t) = c_time e - t" using False Cons.prems by (intro s32_id) auto
      then show ?thesis using Some by simp
    qed simp
    have "pending d (e # es) = [] \<or> d + t < fst (hd (pending d (e # es)))" using False by (auto split: option.splits)
    then have "pend_insert (d + t, ident, fn, arg) (pending d (e # es)) = (d + t, ident, fn, arg) # pending d (e # es)"
      by (cases "pending d (e # es)") auto
    moreover have "co_walk fn arg ident t (e # es) = co_shift ?x (?e # es)"
      unfolding co_walk.simps(2) by (rule if_not_P[OF False])
    ultimately show ?thesis using s ok p Cons.prems by simp
  qed
qed simp

lemma co_pull_ok:
  "co_ok d es \<Longrightarrow> \<exists>es'. co_pull es = Some es' \<and> length es' = length es + 1 \<and> co_ok d es' \<and> pending d es' = pending d es"
proof (induction es arbitrary: d)
  case (Cons e es)
  then show ?case by (cases "c_func e") fastforce+
qed simp

text \<open>Removing an entry leaves the deadlines of the others.\<close>

fun pend_remove :: "int \<Rightarrow> pend list \<Rightarrow> pend list" where
  "pend_remove i [] = []"
| "pend_remove i (y # ys) = (if fst (snd y) = i then ys else y # pend_remove i ys)"

lemma co_ok_ne: "co_ok d es \<Longrightarrow> es \<noteq> []"
  by auto

lemma co_remove_ok:
  "co_ok d es \<Longrightarrow> 0 \<le> d \<Longrightarrow> \<exists>es'. co_remove ident es = Some es' \<and> length es' = length es \<and> co_ok d es' \<and>
     pending d es' = pend_remove ident (pending d es)"
proof (induction es arbitrary: d)
  case (Cons e es)
  show ?case
  proof (cases "c_func e")
    case None
    then show ?thesis using Cons.prems by simp
  next
    case (Some g)
    then have o: "0 \<le> c_time e" "d + c_time e < 2147483648" "co_ok (d + c_time e) es" using Cons.prems by auto
    show ?thesis
    proof (cases "c_id e = ident")
      case True
      obtain n ns where es: "es = n # ns" using co_ok_ne[OF o(3)] by (cases es) auto
      let ?n = "n\<lparr>c_time := s32 (c_time n + c_time e)\<rparr>"
      have e: "c_func n = None \<or> s32 (c_time n + c_time e) = c_time n + c_time e"
        using o es Cons.prems(2) by (cases "c_func n") (auto intro!: s32_id)
      have ok: "co_ok d (?n # ns)" "pending d (?n # ns) = pending (d + c_time e) es"
        using o(1,3) e unfolding es by (auto split: option.splits simp: ac_simps)
      show ?thesis using co_pull_ok[OF ok(1)] True Some es ok(2) by auto
    next
      case False
      obtain es' where "co_remove ident es = Some es'" "length es' = length es" "co_ok (d + c_time e) es'"
        "pending (d + c_time e) es' = pend_remove ident (pending (d + c_time e) es)"
        using Cons.IH[OF o(3)] o(1) Cons.prems(2) by auto
      then show ?thesis using False Some o by simp
    qed
  qed
qed simp

text \<open>A tick: every deadline still ahead comes one tick nearer.\<close>

definition pend_tick :: "pend \<Rightarrow> pend" where
  "pend_tick x = (if fst x > 0 then (fst x - 1, snd x) else x)"

lemma pend_tick_pair [simp]: "pend_tick (t, r) = (if t > 0 then (t - 1, r) else (t, r))"
  by (simp add: pend_tick_def)

lemma co_tick_ok:
  assumes "co_ok 0 es"
  shows "\<exists>es'. co_tick es = Some es' \<and> length es' = length es \<and> co_ok 0 es' \<and> pending 0 es' = map pend_tick (pending 0 es)"
  using assms
proof (induction es)
  case (Cons e es)
  show ?case
  proof (cases "c_func e")
    case None
    then show ?thesis using Cons.prems by simp
  next
    case (Some g)
    then have o: "0 \<le> c_time e" "c_time e < 2147483648" "co_ok (c_time e) es" using Cons.prems by auto
    show ?thesis
    proof (cases "c_time e = 0")
      case True
      then show ?thesis using Cons.IH o Some by auto
    next
      case False
      then have r: "co_tick (e # es) = Some (e\<lparr>c_time := c_time e - 1\<rparr> # es)" using o Some by simp
      have "map pend_tick (pending (c_time e) es) = pending (c_time e - 1) es"
      proof -
        have "\<forall>x\<in>set (pending (c_time e) es). pend_tick x = (case x of (t, r) \<Rightarrow> (t + (-1), r))"
          using co_ok_pending[OF o(3)] False o(1) by (fastforce simp: pend_tick_def)
        then have "map pend_tick (pending (c_time e) es) = map (\<lambda>(t, r). (t + (-1), r)) (pending (c_time e) es)"
          by (intro map_cong) auto
        then show ?thesis using pending_shift[of "c_time e" "-1" es] by simp
      qed
      moreover have "co_ok (c_time e - 1) es" by (rule co_ok_le[OF o(3)]) simp
      ultimately show ?thesis using r False o Some by simp
    qed
  qed
qed simp


lemma co_ok_active: "co_ok d es \<Longrightarrow> i < length es \<Longrightarrow> c_func (es ! i) \<noteq> None \<longleftrightarrow> i < length (pending d es)"
proof (induction d es arbitrary: i rule: co_ok.induct)
  case (2 d e es)
  then show ?case by (cases i; cases "c_func e") auto
qed simp

lemma co_ok_sorted: "co_ok d es \<Longrightarrow> sorted (map fst (pending d es))"
proof (induction d es rule: co_ok.induct)
  case (2 d e es)
  then show ?case using co_ok_pending[of "d + c_time e" es] by (fastforce split: option.splits)
qed simp

section \<open>The calls on a well-formed table\<close>

lemma timeout_ok:
  assumes "co_inv s" "2 \<le> length (callout s)" "0 \<le> tim" "tim < 2147483648"
  shows "\<exists>r s'. timeout fn arg tim s = Some (r, s') \<and> co_inv s' \<and> length (callout s') = length (callout s) \<and>
    (if length (deadlines s) + 1 < length (callout s)
     then r = CoId (timeid s') \<and> timeid s' = s32 (timeid s + 1) \<and>
          deadlines s' = pend_insert (tim, timeid s', fn, arg) (deadlines s)
     else r = CoPanic \<and> s' = s)"
proof -
  let ?n = "length (callout s)"
  have a: "c_func (callout s ! (?n - 2)) \<noteq> None \<longleftrightarrow> ?n - 2 < length (deadlines s)"
    using assms(1,2) by (intro co_ok_active) (auto simp: co_inv_def)
  show ?thesis
  proof (cases "length (deadlines s) + 1 < ?n")
    case True
    let ?id = "s32 (timeid s + 1)"
    obtain es' where "co_walk fn arg ?id tim (callout s) = Some es'" "length es' = ?n" "co_ok 0 es'"
      "pending 0 es' = pend_insert (tim, ?id, fn, arg) (deadlines s)"
      using co_walk_ok[of 0 "callout s" tim fn arg ?id] assms True by (auto simp: co_inv_def)
    then show ?thesis using a True assms(2) by (simp add: timeout_def Let_def co_inv_def)
  next
    case False
    then show ?thesis using a assms(1,2) by (simp add: timeout_def Let_def)
  qed
qed

lemma untimeout_ok:
  assumes "co_inv s"
  shows "\<exists>s'. untimeout ident s = Some s' \<and> co_inv s' \<and> length (callout s') = length (callout s) \<and>
    deadlines s' = pend_remove ident (deadlines s)"
  using co_remove_ok[of 0 "callout s" ident] assms by (auto simp: untimeout_def co_inv_def)

lemma clock_callout_ok:
  assumes "co_inv s"
  shows "\<exists>s'. clock_callout s = Some s' \<and> co_inv s' \<and> length (callout s') = length (callout s) \<and>
    deadlines s' = map pend_tick (deadlines s)"
proof -
  obtain e es where es: "callout s = e # es" using assms by (cases "callout s") (auto simp: co_inv_def)
  show ?thesis
  proof (cases "c_func e")
    case None
    then show ?thesis using es assms by (simp add: clock_callout_def co_inv_def)
  next
    case (Some g)
    then obtain es' where "co_tick (callout s) = Some es'" "length es' = length (callout s)" "co_ok 0 es'"
      "pending 0 es' = map pend_tick (deadlines s)"
      using co_tick_ok[of "callout s"] assms by (auto simp: co_inv_def)
    then show ?thesis using Some es by (simp add: clock_callout_def co_inv_def)
  qed
qed

text \<open>A round of \<^verbatim>\<open>timein\<close> takes the earliest deadline when it is due.\<close>

lemma timein_pop_ok:
  assumes "co_inv s"
  shows "\<exists>f s'. timein_pop s = Some (f, s') \<and> co_inv s' \<and> length (callout s') = length (callout s) \<and>
    (case deadlines s of
       [] \<Rightarrow> f = None \<and> s' = s
     | x # xs \<Rightarrow> if fst x \<le> 0 then f = Some (snd (snd x)) \<and> fst x = 0 \<and> deadlines s' = xs else f = None \<and> s' = s)"
proof -
  obtain e es where es: "callout s = e # es" using assms by (cases "callout s") (auto simp: co_inv_def)
  show ?thesis
  proof (cases "c_func e")
    case None
    then show ?thesis using es assms by (simp add: timein_pop_def co_inv_def)
  next
    case (Some g)
    then have o: "0 \<le> c_time e" "co_ok (c_time e) es" using assms es by (auto simp: co_inv_def)
    show ?thesis
    proof (cases "c_time e \<le> 0")
      case True
      then obtain es' where "co_pull es = Some es'" "length es' = length es + 1" "co_ok 0 es'" "pending 0 es' = pending 0 es"
        using co_pull_ok[OF o(2)] o(1) by auto
      then show ?thesis using Some es True o(1) by (simp add: timein_pop_def co_inv_def)
    next
      case False
      then show ?thesis using Some es assms by (simp add: timein_pop_def)
    qed
  qed
qed

text \<open>The entries due now.\<close>

definition due :: "costate \<Rightarrow> nat" where
  "due s = length (filter (\<lambda>p. fst p \<le> 0) (deadlines s))"

lemma timein_loop_total:
  assumes "\<And>fn arg t. co_inv t \<Longrightarrow> \<exists>t'. call fn arg t = Some t' \<and> co_inv t' \<and> due t' \<le> due t"
  shows "co_inv s \<Longrightarrow> \<exists>fs s'. timein_loop call s = Some (fs, s') \<and> co_inv s' \<and> due s' = 0"
proof (induction "due s" arbitrary: s rule: less_induct)
  case less
  obtain f s1 where p: "timein_pop s = Some (f, s1)" "co_inv s1"
    "case deadlines s of [] \<Rightarrow> f = None \<and> s1 = s
     | x # xs \<Rightarrow> if fst x \<le> 0 then f = Some (snd (snd x)) \<and> fst x = 0 \<and> deadlines s1 = xs else f = None \<and> s1 = s"
    using timein_pop_ok[OF less.prems] by blast
  have sorted: "sorted (map fst (deadlines s))" using less.prems co_ok_sorted by (simp add: co_inv_def)
  show ?case
  proof (cases f)
    case None
    have "due s = 0"
    proof (cases "deadlines s")
      case (Cons x xs)
      then have "0 < fst x" using p(3) None by (auto split: if_splits)
      then show ?thesis using sorted Cons by (fastforce simp: due_def filter_empty_conv)
    qed (simp add: due_def)
    moreover have "s1 = s" using p(3) None by (auto split: list.splits if_splits)
    ultimately show ?thesis using p(1) None less.prems by (subst timein_loop.simps) simp
  next
    case (Some fa)
    obtain fn arg where fa: "fa = (fn, arg)" by (cases fa)
    have d: "due s1 < due s" using p(3) Some by (auto simp: due_def split: list.splits if_splits)
    obtain s2 where s2: "call fn arg s1 = Some s2" "co_inv s2" "due s2 \<le> due s1" using assms p(2) by blast
    obtain fs s3 where "timein_loop call s2 = Some (fs, s3)" "co_inv s3" "due s3 = 0"
      using less.hyps[of s2] d s2 by auto
    then show ?thesis using p(1) Some fa s2(1) by (subst timein_loop.simps) simp
  qed
qed


lemma timein_loop_enter: "co_inv s \<Longrightarrow> timein call s = timein_loop call s"
proof -
  assume i: "co_inv s"
  obtain e es where es: "callout s = e # es" using i by (cases "callout s") (auto simp: co_inv_def)
  show ?thesis using es
    by (subst timein_loop.simps) (auto simp: timein_def timein_pop_def timein_loop.simps[of call s] split: option.splits)
qed


section \<open>Reachable tables\<close>

text \<open>The calls in any order; the functions \<^verbatim>\<open>timein\<close> calls may make any of them between two rounds.\<close>

inductive co_reach :: "nat \<Rightarrow> costate \<Rightarrow> bool" where
  Boot: "2 \<le> n \<Longrightarrow> length (callout s) = n \<Longrightarrow> \<forall>e\<in>set (callout s). c_func e = None \<Longrightarrow> co_reach n s"
| Timeout: "co_reach n s \<Longrightarrow> 0 \<le> tim \<Longrightarrow> tim < 2147483648 \<Longrightarrow> timeout fn arg tim s = Some (r, s') \<Longrightarrow> co_reach n s'"
| Untimeout: "co_reach n s \<Longrightarrow> untimeout ident s = Some s' \<Longrightarrow> co_reach n s'"
| Tick: "co_reach n s \<Longrightarrow> clock_callout s = Some s' \<Longrightarrow> co_reach n s'"
| Pop: "co_reach n s \<Longrightarrow> timein_pop s = Some (f, s') \<Longrightarrow> co_reach n s'"

lemma co_reach_inv: "co_reach n s \<Longrightarrow> co_inv s \<and> length (callout s) = n \<and> 2 \<le> n"
proof (induction rule: co_reach.induct)
  case (Boot n s)
  then show ?case by (cases "callout s") (auto simp: co_inv_def)
next
  case (Timeout n s tim fn arg r s')
  then show ?case using timeout_ok[of s tim fn arg] by (metis option.inject prod.inject)
next
  case (Untimeout n s ident s')
  then show ?case using untimeout_ok[of s ident] by (metis option.inject)
next
  case (Tick n s s')
  then show ?case using clock_callout_ok[of s] by (metis option.inject)
next
  case (Pop n s f s')
  then show ?case using timein_pop_ok[of s] by (metis option.inject prod.inject)
qed




definition co_demo0 :: costate where
  "co_demo0 = \<lparr>callout = replicate 4 \<lparr>c_time = 0, c_id = 0, c_arg = 0, c_func = None\<rparr>, timeid = 0, pokes = 0\<rparr>"

text \<open>Function 100 in three ticks, then 200 in one.\<close>

definition co_demo :: costate where
  "co_demo = snd (the (timeout 200 8 1 (snd (the (timeout 100 7 3 co_demo0)))))"

lemma co_demo_eq: "co_demo = \<lparr>callout = [\<lparr>c_time = 1, c_id = 2, c_arg = 8, c_func = Some 200\<rparr>,
    \<lparr>c_time = 2, c_id = 1, c_arg = 7, c_func = Some 100\<rparr>, \<lparr>c_time = -3, c_id = 0, c_arg = 0, c_func = None\<rparr>,
    \<lparr>c_time = 0, c_id = 0, c_arg = 0, c_func = None\<rparr>], timeid = 2, pokes = 0\<rparr>"
  by (simp add: co_demo_def co_demo0_def timeout_def numeral_eq_Suc)

lemma co_demo_reach: "co_reach 4 co_demo"
proof -
  have "co_reach 4 co_demo0" by (rule co_reach.Boot) (simp_all add: co_demo0_def)
  moreover obtain r s where r: "timeout 100 7 3 co_demo0 = Some (r, s)"
    by (simp add: co_demo0_def timeout_def numeral_eq_Suc)
  ultimately have s: "co_reach 4 s" by (intro co_reach.Timeout[of 4 co_demo0 3 100 7 r s]) simp_all
  then obtain r2 s2 where r2: "timeout 200 8 1 s = Some (r2, s2)"
    using timeout_ok[of s 1 200 8] co_reach_inv[OF s] by auto
  show ?thesis using co_reach.Timeout[OF s _ _ r2] r r2 by (simp add: co_demo_def)
qed

section \<open>Properties\<close>

text \<open>\<^verbatim>\<open>timeout\<close> never writes outside the table: it panics exactly when one slot is left, and
  otherwise arms the function \<open>tim\<close> ticks from now, after everything due no later, without moving
  any other deadline.\<close>

theorem timeout_inserts:
  assumes "co_reach n s" and "0 \<le> tim" "tim < 2147483648"
  shows "\<exists>r s'. timeout fn arg tim s = Some (r, s') \<and>
    (if length (deadlines s) + 1 < n
     then r = CoId (s32 (timeid s + 1)) \<and> sorted (map fst (deadlines s')) \<and>
          deadlines s' = takeWhile (\<lambda>p. fst p \<le> tim) (deadlines s) @
            (tim, s32 (timeid s + 1), fn, arg) # dropWhile (\<lambda>p. fst p \<le> tim) (deadlines s)
     else r = CoPanic \<and> s' = s)"
proof -
  have i: "co_inv s" "length (callout s) = n" "2 \<le> length (callout s)" using co_reach_inv[OF assms(1)] by auto
  have "pend_insert x ys = takeWhile (\<lambda>p. fst p \<le> fst x) ys @ x # dropWhile (\<lambda>p. fst p \<le> fst x) ys" for x ys
    by (induction ys) auto
  moreover obtain r s' where "timeout fn arg tim s = Some (r, s')" "co_inv s'"
    "if length (deadlines s) + 1 < length (callout s)
     then r = CoId (timeid s') \<and> timeid s' = s32 (timeid s + 1) \<and>
          deadlines s' = pend_insert (tim, timeid s', fn, arg) (deadlines s)
     else r = CoPanic \<and> s' = s"
    using timeout_ok[OF i(1,3) assms(2,3), of fn arg] by blast
  moreover from this(2) have "sorted (map fst (deadlines s'))" using co_ok_sorted by (simp add: co_inv_def)
  ultimately show ?thesis using i(2) by (auto split: if_splits)
qed

theorem timeout_inserts_witness:
  "\<exists>s'. timeout 300 9 1 co_demo = Some (CoId 3, s') \<and> deadlines s' = [(1, 2, 200, 8), (1, 3, 300, 9), (3, 1, 100, 7)]"
  using timeout_inserts[OF co_demo_reach, of 1 300 9] by (auto simp: co_demo_eq)

text \<open>\<^verbatim>\<open>untimeout\<close> cancels: the first pending entry with the identifier goes, every other entry
  keeps its deadline and its place, and an identifier that is not pending changes nothing.\<close>

theorem untimeout_cancels:
  assumes "co_reach n s"
  shows "\<exists>s'. untimeout ident s = Some s' \<and>
    deadlines s' = takeWhile (\<lambda>p. fst (snd p) \<noteq> ident) (deadlines s) @ tl (dropWhile (\<lambda>p. fst (snd p) \<noteq> ident) (deadlines s))"
proof -
  have i: "co_inv s" using co_reach_inv[OF assms(1)] by auto
  have "pend_remove ident ys = takeWhile (\<lambda>p. fst (snd p) \<noteq> ident) ys @ tl (dropWhile (\<lambda>p. fst (snd p) \<noteq> ident) ys)" for ys
    by (induction ys) auto
  with untimeout_ok[OF i, of ident] show ?thesis by auto
qed

theorem untimeout_cancels_witness:
  "\<exists>s'. untimeout 2 co_demo = Some s' \<and> deadlines s' = [(3, 1, 100, 7)]"
  using untimeout_cancels[OF co_demo_reach, of 2] by (auto simp: co_demo_eq)



text \<open>\<^verbatim>\<open>timein\<close> ends, also when the functions it calls arm and cancel timeouts themselves, as
  long as none makes more entries due at once than were; it leaves no due entry.\<close>

theorem timein_terminates:
  assumes "co_reach n s"
    and "\<And>fn arg t. co_inv t \<Longrightarrow> \<exists>t'. call fn arg t = Some t' \<and> co_inv t' \<and> due t' \<le> due t"
  shows "\<exists>fired s'. timein call s = Some (fired, s') \<and> \<not> (\<exists>p\<in>set (deadlines s'). fst p \<le> 0)"
proof -
  have i: "co_inv s" using co_reach_inv[OF assms(1)] by auto
  obtain fs s' where "timein_loop call s = Some (fs, s')" "due s' = 0"
    using timein_loop_total[of call s] assms(2) i by blast
  then show ?thesis using timein_loop_enter[OF i] by (auto simp: due_def filter_empty_conv)
qed

text \<open>A function that arms itself again for the next tick.\<close>

definition rearm :: "nat \<Rightarrow> nat \<Rightarrow> costate \<Rightarrow> costate option" where
  "rearm fn arg s = (if length (deadlines s) + 1 < length (callout s) \<and> 2 \<le> length (callout s)
     then map_option snd (timeout fn arg 1 s) else Some s)"

theorem timein_terminates_witness:
  "\<exists>fired s'. timein rearm co_demo = Some (fired, s') \<and> \<not> (\<exists>p\<in>set (deadlines s'). fst p \<le> 0)"
proof (rule timein_terminates[OF co_demo_reach])
  fix fn arg t
  assume i: "co_inv t"
  show "\<exists>t'. rearm fn arg t = Some t' \<and> co_inv t' \<and> due t' \<le> due t"
  proof (cases "length (deadlines t) + 1 < length (callout t) \<and> 2 \<le> length (callout t)")
    case True
    then obtain r t' where t: "timeout fn arg 1 t = Some (r, t')" "co_inv t'"
      "deadlines t' = pend_insert (1, timeid t', fn, arg) (deadlines t)"
      using timeout_ok[OF i, of 1 fn arg] by auto
    have "length (filter (\<lambda>p. fst p \<le> 0) (pend_insert x ys)) = length (filter (\<lambda>p. fst p \<le> 0) ys)" if "0 < fst x" for x ys
      using that by (induction ys) auto
    from this[of "(1, timeid t', fn, arg)"] t show ?thesis using True by (simp add: rearm_def due_def)
  next
    case False
    then show ?thesis using i by (auto simp: rearm_def)
  qed
qed

end
