(* ===== verification/Crypt.thy ===== *)
theory Crypt
  imports Prelude
begin

text \<open>
  Password encryption: \<^verbatim>\<open>lib/libc/port/gen/crypt.c\<close>. The arrays of \<^verbatim>\<open>char\<close> are lists, bits are
  bytes 0 and 1 as in the code. \<^verbatim>\<open>encrypt\<close> fills \<^verbatim>\<open>L[0..63]\<close>, that is \<^verbatim>\<open>L\<close> and the \<^verbatim>\<open>R\<close> that
  follows it in memory: the two are modelled as the halves of one array. What \<^verbatim>\<open>L\<close>, \<^verbatim>\<open>R\<close>,
  \<^verbatim>\<open>tempL\<close>, \<^verbatim>\<open>f\<close> and \<^verbatim>\<open>preS\<close> hold between calls is never read, so they are not part of the state.
\<close>

section \<open>Tables\<close>

definition IP :: "nat list" where
  "IP =
    [58, 50, 42, 34, 26, 18, 10, 2, 60, 52, 44, 36, 28, 20, 12, 4,
     62, 54, 46, 38, 30, 22, 14, 6, 64, 56, 48, 40, 32, 24, 16, 8,
     57, 49, 41, 33, 25, 17, 9, 1, 59, 51, 43, 35, 27, 19, 11, 3,
     61, 53, 45, 37, 29, 21, 13, 5, 63, 55, 47, 39, 31, 23, 15, 7]"

definition FP :: "nat list" where
  "FP =
    [40, 8, 48, 16, 56, 24, 64, 32, 39, 7, 47, 15, 55, 23, 63, 31,
     38, 6, 46, 14, 54, 22, 62, 30, 37, 5, 45, 13, 53, 21, 61, 29,
     36, 4, 44, 12, 52, 20, 60, 28, 35, 3, 43, 11, 51, 19, 59, 27,
     34, 2, 42, 10, 50, 18, 58, 26, 33, 1, 41, 9, 49, 17, 57, 25]"

definition PC1_C :: "nat list" where
  "PC1_C =
    [57, 49, 41, 33, 25, 17, 9, 1, 58, 50, 42, 34, 26, 18, 10, 2,
     59, 51, 43, 35, 27, 19, 11, 3, 60, 52, 44, 36]"

definition PC1_D :: "nat list" where
  "PC1_D =
    [63, 55, 47, 39, 31, 23, 15, 7, 62, 54, 46, 38, 30, 22, 14, 6,
     61, 53, 45, 37, 29, 21, 13, 5, 28, 20, 12, 4]"

definition shifts :: "nat list" where
  "shifts =
    [1, 1, 2, 2, 2, 2, 2, 2, 1, 2, 2, 2, 2, 2, 2, 1]"

definition PC2_C :: "nat list" where
  "PC2_C =
    [14, 17, 11, 24, 1, 5, 3, 28, 15, 6, 21, 10, 23, 19, 12, 4,
     26, 8, 16, 7, 27, 20, 13, 2]"

definition PC2_D :: "nat list" where
  "PC2_D =
    [41, 52, 31, 37, 47, 55, 30, 40, 51, 45, 33, 48, 44, 49, 39, 56,
     34, 53, 46, 42, 50, 36, 29, 32]"

definition e2 :: "nat list" where
  "e2 =
    [32, 1, 2, 3, 4, 5, 4, 5, 6, 7, 8, 9, 8, 9, 10, 11,
     12, 13, 12, 13, 14, 15, 16, 17, 16, 17, 18, 19, 20, 21, 20, 21,
     22, 23, 24, 25, 24, 25, 26, 27, 28, 29, 28, 29, 30, 31, 32, 1]"

definition P_tab :: "nat list" where
  "P_tab =
    [16, 7, 20, 21, 29, 12, 28, 17, 1, 15, 23, 26, 5, 18, 31, 10,
     2, 8, 24, 14, 32, 27, 3, 9, 19, 13, 30, 6, 22, 11, 4, 25]"

definition S_tab :: "u8 list list" where
  "S_tab =
   [[14, 4, 13, 1, 2, 15, 11, 8, 3, 10, 6, 12, 5, 9, 0, 7,
     0, 15, 7, 4, 14, 2, 13, 1, 10, 6, 12, 11, 9, 5, 3, 8,
     4, 1, 14, 8, 13, 6, 2, 11, 15, 12, 9, 7, 3, 10, 5, 0,
     15, 12, 8, 2, 4, 9, 1, 7, 5, 11, 3, 14, 10, 0, 6, 13],
    [15, 1, 8, 14, 6, 11, 3, 4, 9, 7, 2, 13, 12, 0, 5, 10,
     3, 13, 4, 7, 15, 2, 8, 14, 12, 0, 1, 10, 6, 9, 11, 5,
     0, 14, 7, 11, 10, 4, 13, 1, 5, 8, 12, 6, 9, 3, 2, 15,
     13, 8, 10, 1, 3, 15, 4, 2, 11, 6, 7, 12, 0, 5, 14, 9],
    [10, 0, 9, 14, 6, 3, 15, 5, 1, 13, 12, 7, 11, 4, 2, 8,
     13, 7, 0, 9, 3, 4, 6, 10, 2, 8, 5, 14, 12, 11, 15, 1,
     13, 6, 4, 9, 8, 15, 3, 0, 11, 1, 2, 12, 5, 10, 14, 7,
     1, 10, 13, 0, 6, 9, 8, 7, 4, 15, 14, 3, 11, 5, 2, 12],
    [7, 13, 14, 3, 0, 6, 9, 10, 1, 2, 8, 5, 11, 12, 4, 15,
     13, 8, 11, 5, 6, 15, 0, 3, 4, 7, 2, 12, 1, 10, 14, 9,
     10, 6, 9, 0, 12, 11, 7, 13, 15, 1, 3, 14, 5, 2, 8, 4,
     3, 15, 0, 6, 10, 1, 13, 8, 9, 4, 5, 11, 12, 7, 2, 14],
    [2, 12, 4, 1, 7, 10, 11, 6, 8, 5, 3, 15, 13, 0, 14, 9,
     14, 11, 2, 12, 4, 7, 13, 1, 5, 0, 15, 10, 3, 9, 8, 6,
     4, 2, 1, 11, 10, 13, 7, 8, 15, 9, 12, 5, 6, 3, 0, 14,
     11, 8, 12, 7, 1, 14, 2, 13, 6, 15, 0, 9, 10, 4, 5, 3],
    [12, 1, 10, 15, 9, 2, 6, 8, 0, 13, 3, 4, 14, 7, 5, 11,
     10, 15, 4, 2, 7, 12, 9, 5, 6, 1, 13, 14, 0, 11, 3, 8,
     9, 14, 15, 5, 2, 8, 12, 3, 7, 0, 4, 10, 1, 13, 11, 6,
     4, 3, 2, 12, 9, 5, 15, 10, 11, 14, 1, 7, 6, 0, 8, 13],
    [4, 11, 2, 14, 15, 0, 8, 13, 3, 12, 9, 7, 5, 10, 6, 1,
     13, 0, 11, 7, 4, 9, 1, 10, 14, 3, 5, 12, 2, 15, 8, 6,
     1, 4, 11, 13, 12, 3, 7, 14, 10, 15, 6, 8, 0, 5, 9, 2,
     6, 11, 13, 8, 1, 4, 10, 7, 9, 5, 0, 15, 14, 2, 3, 12],
    [13, 2, 8, 4, 6, 15, 11, 1, 10, 9, 3, 14, 5, 0, 12, 7,
     1, 15, 13, 8, 10, 3, 7, 4, 12, 5, 6, 11, 0, 14, 9, 2,
     7, 11, 4, 1, 9, 12, 14, 2, 0, 6, 10, 13, 15, 3, 5, 8,
     2, 1, 14, 7, 4, 10, 8, 13, 15, 12, 9, 0, 3, 5, 6, 11]]"

section \<open>The key schedule\<close>

record crypt_state =
  C_half :: "u8 list"
  D_half :: "u8 list"
  KS :: "u8 list list"
  E_tab :: "nat list"

text \<open>\<^verbatim>\<open>t = C[0]; for (j...) C[j] = C[j+1]; C[27] = t;\<close>\<close>

definition rot_left :: "u8 list \<Rightarrow> u8 list" where
  "rot_left xs = map (\<lambda>j. xs ! (j + 1)) [0..<27] @ [xs ! 0]"

fun key_rounds :: "nat list \<Rightarrow> u8 list \<Rightarrow> u8 list \<Rightarrow> u8 list list \<times> u8 list \<times> u8 list" where
  "key_rounds [] c d = ([], c, d)"
| "key_rounds (n # ns) c d =
     (let c' = (rot_left ^^ n) c; d' = (rot_left ^^ n) d;
          k = map (\<lambda>j. c' ! (PC2_C ! j - 1)) [0..<24] @ map (\<lambda>j. d' ! (PC2_D ! j - 28 - 1)) [0..<24];
          (ks, c2, d2) = key_rounds ns c' d'
      in (k # ks, c2, d2))"

definition setkey :: "u8 list \<Rightarrow> crypt_state \<Rightarrow> crypt_state" where
  "setkey key s =
     (let c = map (\<lambda>i. key ! (PC1_C ! i - 1)) [0..<28];
          d = map (\<lambda>i. key ! (PC1_D ! i - 1)) [0..<28];
          (ks, c', d') = key_rounds shifts c d
      in s\<lparr>C_half := c', D_half := d', KS := ks, E_tab := e2\<rparr>)"

section \<open>Encryption\<close>

text \<open>\<open>sbox_index\<close> is the subscript built from six bits from \<open>t\<close> on, \<open>f_bits\<close> the 32 bits that the
  eight tables give.\<close>

definition sbox_index :: "u8 list \<Rightarrow> nat \<Rightarrow> nat" where
  "sbox_index preS t =
     unat (preS ! t) * 32 + unat (preS ! (t + 1)) * 8 + unat (preS ! (t + 2)) * 4 +
     unat (preS ! (t + 3)) * 2 + unat (preS ! (t + 4)) + unat (preS ! (t + 5)) * 16"

definition f_bits :: "u8 list \<Rightarrow> u8 list" where
  "f_bits preS =
     concat (map (\<lambda>j. let k = S_tab ! j ! sbox_index preS (6 * j)
                      in [(drop_bit 3 k) AND 1, (drop_bit 2 k) AND 1, (drop_bit 1 k) AND 1, k AND 1]) [0..<8])"

definition des_round :: "nat list \<Rightarrow> u8 list \<Rightarrow> u8 list \<times> u8 list \<Rightarrow> u8 list \<times> u8 list" where
  "des_round E k LR =
     (let (L, R) = LR;
          preS = map (\<lambda>j. (R ! (E ! j - 1)) XOR (k ! j)) [0..<48];
          f = f_bits preS
      in (R, map (\<lambda>j. (L ! j) XOR (f ! (P_tab ! j - 1))) [0..<32]))"

definition encrypt :: "u8 list \<Rightarrow> crypt_state \<Rightarrow> u8 list" where
  "encrypt block s =
     (let b = map (\<lambda>j. block ! (IP ! j - 1)) [0..<64];
          (L, R) = fold (des_round (E_tab s)) (KS s) (take 32 b, drop 32 b);
          b' = R @ L
      in map (\<lambda>j. b' ! (FP ! j - 1)) [0..<64])"

section \<open>crypt\<close>

text \<open>The bits of the password: seven of each character and a zero, for at most eight characters.\<close>

fun pw_bits :: "nat \<Rightarrow> u8 list \<Rightarrow> u8 list" where
  "pw_bits i [] = []"
| "pw_bits i (c # pw) =
     (if c = 0 \<or> 64 \<le> i then []
      else map (\<lambda>j. drop_bit (6 - j) c AND 1) [0..<7] @ [0] @ pw_bits (i + 8) pw)"

definition pad66 :: "u8 list \<Rightarrow> u8 list" where
  "pad66 bs = bs @ replicate (66 - length bs) 0"

definition salt_val :: "int \<Rightarrow> int" where
  "salt_val c =
     (let c1 = (if c > 90 then c - 6 else c); c2 = (if c1 > 57 then c1 - 7 else c1) in c2 - 46)"

text \<open>Bit \<open>j\<close> of salt character \<open>i\<close> swaps two places of \<^verbatim>\<open>E\<close>.\<close>

definition salt_swap :: "int \<Rightarrow> nat \<Rightarrow> nat \<Rightarrow> nat list \<Rightarrow> nat list" where
  "salt_swap c i j E =
     (if drop_bit j c AND 1 \<noteq> 0
      then E[6 * i + j := E ! (6 * i + j + 24), 6 * i + j + 24 := E ! (6 * i + j)] else E)"

definition salt_char :: "u8 \<Rightarrow> nat \<Rightarrow> nat list \<Rightarrow> nat list" where
  "salt_char c i E = fold (salt_swap (salt_val (sint c)) i) [0..<6] E"

text \<open>Six bits of the block as a printable character.\<close>

definition out_char :: "u8 list \<Rightarrow> nat \<Rightarrow> int" where
  "out_char block i =
     (let c = fold (\<lambda>j c. (push_bit 1 c) OR uint (block ! (6 * i + j))) [0..<6] 0;
          c1 = c + 46; c2 = (if c1 > 57 then c1 + 7 else c1)
      in if c2 > 90 then c2 + 6 else c2)"

definition crypt :: "u8 list \<Rightarrow> u8 \<Rightarrow> u8 \<Rightarrow> crypt_state \<Rightarrow> u8 list \<times> crypt_state" where
  "crypt pw s0 s1 st =
     (let st1 = setkey (pad66 (pw_bits 0 pw)) st;
          st2 = st1\<lparr>E_tab := salt_char s1 1 (salt_char s0 0 (E_tab st1))\<rparr>;
          block = ((\<lambda>b. encrypt b st2 @ [0, 0]) ^^ 25) (replicate 66 0)
      in ([s0, if s1 = 0 then s0 else s1] @ map (\<lambda>i. of_int (out_char block i)) [0..<11] @ [0], st2))"

section \<open>Encryption is undone by the reversed schedule\<close>

lemma table_sizes: "length IP = 64" "length FP = 64" "length P_tab = 32" "length e2 = 48" "length S_tab = 8"
  by (simp_all add: IP_def FP_def P_tab_def e2_def S_tab_def)

text \<open>\<^verbatim>\<open>FP\<close> is the inverse of \<^verbatim>\<open>IP\<close>.\<close>

lemma IP_FP: "\<forall>j<64. IP ! (FP ! j - 1) - 1 = j \<and> FP ! j - 1 < 64"
proof -
  have "list_all (\<lambda>j. IP ! (FP ! j - 1) - 1 = j \<and> FP ! j - 1 < 64) [0..<64]" by code_simp
  then show ?thesis by (auto simp: list_all_iff)
qed

lemma FP_IP: "\<forall>j<64. FP ! (IP ! j - 1) - 1 = j \<and> IP ! j - 1 < 64"
proof -
  have "list_all (\<lambda>j. FP ! (IP ! j - 1) - 1 = j \<and> IP ! j - 1 < 64) [0..<64]" by code_simp
  then show ?thesis by (auto simp: list_all_iff)
qed

abbreviation swap_halves :: "'a \<times> 'b \<Rightarrow> 'b \<times> 'a" where
  "swap_halves p \<equiv> (snd p, fst p)"

definition halves :: "u8 list \<times> u8 list \<Rightarrow> bool" where
  "halves LR \<longleftrightarrow> length (fst LR) = 32 \<and> length (snd LR) = 32"

lemma des_round_halves: "halves LR \<Longrightarrow> halves (des_round E k LR)"
  by (cases LR) (simp add: des_round_def halves_def Let_def)

lemma des_rounds_halves: "halves LR \<Longrightarrow> halves (fold (des_round E) ks LR)"
  by (induction ks arbitrary: LR) (simp_all add: des_round_halves)

text \<open>A round on the swapped result of a round with the same key gives back the swapped input.\<close>

lemma des_round_inverse:
  assumes "halves LR"
  shows "des_round E k (swap_halves (des_round E k LR)) = swap_halves LR"
proof -
  have "map (\<lambda>j. ((L ! j) XOR (f ! (P_tab ! j - 1))) XOR (f ! (P_tab ! j - 1))) [0..<32] = L"
    if "length L = 32" for L f :: "u8 list"
    using that by (intro nth_equalityI) (simp_all add: xor.assoc)
  then show ?thesis using assms
    by (cases LR) (auto simp: des_round_def halves_def Let_def intro!: nth_equalityI simp: xor.assoc)
qed

lemma des_rounds_inverse:
  "halves LR \<Longrightarrow> fold (des_round E) (rev ks) (swap_halves (fold (des_round E) ks LR)) = swap_halves LR"
proof (induction ks arbitrary: LR)
  case (Cons k ks)
  from Cons.IH[OF des_round_halves[OF Cons.prems, of E k]] des_round_inverse[OF Cons.prems, of E k]
  show ?case by simp
qed simp


lemma encrypt_reverse:
  assumes "length block = 64"
  shows "encrypt (encrypt block s) (s\<lparr>KS := rev (KS s)\<rparr>) = block"
proof -
  define b where "b = map (\<lambda>j. block ! (IP ! j - 1)) [0..<64]"
  have lb: "length b = 64" and h: "halves (take 32 b, drop 32 b)" by (simp_all add: b_def halves_def)
  obtain L R where r: "fold (des_round (E_tab s)) (KS s) (take 32 b, drop 32 b) = (L, R)"
    by (cases "fold (des_round (E_tab s)) (KS s) (take 32 b, drop 32 b)")
  have LR: "length L = 32" "length R = 32" using des_rounds_halves[OF h, of "E_tab s" "KS s"] r by (auto simp: halves_def)
  define c where "c = map (\<lambda>j. (R @ L) ! (FP ! j - 1)) [0..<64]"
  have e1: "encrypt block s = c" unfolding encrypt_def Let_def b_def[symmetric] r c_def by simp
  have "map (\<lambda>j. c ! (IP ! j - 1)) [0..<64] = R @ L"
    using FP_IP LR by (intro nth_equalityI) (auto simp: c_def)
  moreover have "fold (des_round (E_tab s)) (rev (KS s)) (R, L) = (drop 32 b, take 32 b)"
    using des_rounds_inverse[OF h, of "E_tab s" "KS s"] r by simp
  moreover have "map (\<lambda>j. b ! (FP ! j - 1)) [0..<64] = block"
    using IP_FP assms by (intro nth_equalityI) (auto simp: b_def)
  ultimately show ?thesis using LR unfolding e1 by (simp add: encrypt_def Let_def)
qed

section \<open>Bits stay bits\<close>

definition bits :: "u8 list \<Rightarrow> bool" where
  "bits xs \<longleftrightarrow> set xs \<subseteq> {0, 1}"

lemma bits_nth: "bits xs \<Longrightarrow> i < length xs \<Longrightarrow> xs ! i = 0 \<or> xs ! i = 1"
  using nth_mem by (fastforce simp: bits_def)

lemma bits_map: "(\<And>j. j \<in> set js \<Longrightarrow> f j = 0 \<or> f j = 1) \<Longrightarrow> bits (map f js)"
  by (auto simp: bits_def)

lemma bits_append [simp]: "bits (xs @ ys) \<longleftrightarrow> bits xs \<and> bits ys"
  by (auto simp: bits_def)

lemma and_1_bit: "(x :: u8) AND 1 = 0 \<or> x AND 1 = 1"
  by (simp add: and_one_eq mod2_eq_if)

lemma xor_bit: "x = 0 \<or> x = 1 \<Longrightarrow> y = 0 \<or> y = 1 \<Longrightarrow> (x XOR y :: u8) = 0 \<or> (x XOR y :: u8) = 1"
  by auto

text \<open>The expansion table after setkey and any salt.\<close>

definition E_ok :: "nat list \<Rightarrow> bool" where
  "E_ok E \<longleftrightarrow> length E = 48 \<and> (\<forall>x\<in>set E. 1 \<le> x \<and> x \<le> 32)"

lemma E_ok_e2: "E_ok e2"
  by (simp add: E_ok_def e2_def)

lemma salt_swap_ok:
  assumes "E_ok E" "i < 2" "j < 6"
  shows "E_ok (salt_swap c i j E)"
proof -
  have l: "6 * i + j + 24 < length E" using assms by (simp add: E_ok_def)
  then have "1 \<le> E ! k \<and> E ! k \<le> 32" if "k \<le> 6 * i + j + 24" for k
    using assms(1) nth_mem[of k E] that unfolding E_ok_def by auto
  from this[of "6 * i + j"] this[of "6 * i + j + 24"] show ?thesis
    using assms(1) unfolding salt_swap_def E_ok_def
    by (auto dest!: subsetD[OF set_update_subset_insert])
qed

lemma salt_char_ok:
  assumes "E_ok E" "i < 2"
  shows "E_ok (salt_char c i E)"
proof -
  have "E_ok (fold (salt_swap v i) js E)" if "set js \<subseteq> {..<6}" for v js
    using that assms(1) by (induction js arbitrary: E) (simp_all add: salt_swap_ok[OF _ assms(2)])
  then show ?thesis by (simp add: salt_char_def atLeast_upt)
qed

text \<open>Every subscript of the tables is within them.\<close>

lemma sbox_index_bound: "bits preS \<Longrightarrow> t + 5 < length preS \<Longrightarrow> sbox_index preS t < 64"
proof -
  assume a: "bits preS" "t + 5 < length preS"
  then have "unat (preS ! (t + i)) \<le> 1" if "i \<le> 5" for i using bits_nth[OF a(1), of "t + i"] that by auto
  from this[of 0] this[of 1] this[of 2] this[of 3] this[of 4] this[of 5] show ?thesis by (simp add: sbox_index_def)
qed

lemma f_bits_ok: "length (f_bits preS) = 32" "bits (f_bits preS)"
  by (simp_all add: f_bits_def Let_def upt_rec bits_def and_1_bit)

lemma P_tab_bound: "j < 32 \<Longrightarrow> P_tab ! j - 1 < 32"
proof -
  have "list_all (\<lambda>j. P_tab ! j - 1 < 32) [0..<32]" by code_simp
  then show "j < 32 \<Longrightarrow> P_tab ! j - 1 < 32" by (auto simp: list_all_iff)
qed

definition bit_halves :: "u8 list \<times> u8 list \<Rightarrow> bool" where
  "bit_halves LR \<longleftrightarrow> halves LR \<and> bits (fst LR) \<and> bits (snd LR)"

lemma des_round_bits:
  assumes "bit_halves LR"
  shows "bit_halves (des_round E k LR)"
proof -
  obtain L R where LR: "LR = (L, R)" by (cases LR)
  let ?f = "f_bits (map (\<lambda>j. (R ! (E ! j - 1)) XOR (k ! j)) [0..<48])"
  have "bits (map (\<lambda>j. (L ! j) XOR (?f ! (P_tab ! j - 1))) [0..<32])"
    using assms f_bits_ok P_tab_bound unfolding LR bit_halves_def halves_def
    by (intro bits_map xor_bit bits_nth) auto
  then show ?thesis using assms des_round_halves[of LR E k] by (simp add: LR bit_halves_def des_round_def Let_def)
qed

lemma encrypt_bits:
  assumes "length block = 64" "bits block"
  shows "length (encrypt block s) = 64" "bits (encrypt block s)"
proof -
  let ?b = "map (\<lambda>j. block ! (IP ! j - 1)) [0..<64]"
  have b: "bits ?b" using FP_IP assms by (intro bits_map bits_nth) auto
  have r: "bit_halves (fold (des_round E) ks LR)" if "bit_halves LR" for E ks LR
    using that by (induction ks arbitrary: LR) (simp_all add: des_round_bits)
  obtain L R where LR: "fold (des_round (E_tab s)) (KS s) (take 32 ?b, drop 32 ?b) = (L, R)" by fastforce
  have "bits (take 32 ?b)" "bits (drop 32 ?b)" using b set_take_subset[of 32 ?b] set_drop_subset[of 32 ?b]
    unfolding bits_def by blast+
  then have "bit_halves (take 32 ?b, drop 32 ?b)" by (simp add: bit_halves_def halves_def)
  from r[OF this, of "E_tab s" "KS s"] LR have "length L = 32" "length R = 32" "bits L" "bits R"
    by (simp_all add: bit_halves_def halves_def)
  then have RL: "bits (R @ L)" "length (R @ L) = 64" by simp_all
  show "length (encrypt block s) = 64" "bits (encrypt block s)"
    unfolding encrypt_def Let_def LR prod.case using IP_FP bits_nth[OF RL(1)] unfolding RL(2)
    by (simp, intro bits_map) auto
qed


lemma pw_bits_ok: "bits (pw_bits i pw)"
  by (induction i pw rule: pw_bits.induct) (use and_1_bit in \<open>auto simp: bits_def\<close>)

lemma pw_bits_length: "i mod 8 = 0 \<Longrightarrow> length (pw_bits i pw) \<le> (if 64 \<le> i then 0 else 64 - i)"
proof (induction i pw rule: pw_bits.induct)
  case (2 i c pw)
  show ?case
  proof (cases "c = 0 \<or> 64 \<le> i")
    case False
    then have "i < 64" "i mod 8 = 0" using 2(2) by auto
    then have "i + 8 \<le> 64" by presburger
    moreover have "length (pw_bits (i + 8) pw) \<le> (if 64 \<le> i + 8 then 0 else 64 - (i + 8))"
      using 2(1)[OF False] 2(2) by simp
    ultimately show ?thesis using False by (auto split: if_splits)
  qed auto
qed simp

text \<open>Only the characters before the NUL, and of these the first eight, give bits.\<close>

lemma pw_bits_prefix:
  "i = 8 * k \<Longrightarrow> pw_bits i pw = pw_bits i (take (8 - k) (takeWhile (\<lambda>c. c \<noteq> 0) pw))"
proof (induction i pw arbitrary: k rule: pw_bits.induct)
  case (2 i c pw)
  show ?case
  proof (cases "c = 0 \<or> 64 \<le> i")
    case True
    then show ?thesis using 2(2) by auto
  next
    case False
    then have k: "8 - k = Suc (8 - Suc k)" using 2(2) by linarith
    have "pw_bits (i + 8) pw = pw_bits (i + 8) (take (8 - Suc k) (takeWhile (\<lambda>c. c \<noteq> 0) pw))"
      by (rule 2(1)[OF False]) (use 2(2) in simp)
    then show ?thesis using False unfolding k by simp
  qed
qed simp

lemma iterate_encrypt:
  assumes "length b = 66" "bits b" "drop 64 b = [0, 0]"
  shows "length (((\<lambda>b. encrypt b s @ [0, 0]) ^^ Suc n) b) = 66 \<and> bits (((\<lambda>b. encrypt b s @ [0, 0]) ^^ Suc n) b)"
proof -
  have e: "length (encrypt b s @ [0, 0]) = 66 \<and> bits (encrypt b s @ [0, 0])" if "length b = 66" "bits b" for b
  proof -
    have "encrypt b s = encrypt (take 64 b) s"
    proof -
      have "map (\<lambda>j. b ! (IP ! j - 1)) [0..<64] = map (\<lambda>j. take 64 b ! (IP ! j - 1)) [0..<64]"
        using FP_IP that(1) by (intro map_cong) auto
      then show ?thesis by (simp only: encrypt_def)
    qed
    moreover have "bits (take 64 b)" using that(2) set_take_subset[of 64 b] unfolding bits_def by blast
    ultimately show ?thesis using encrypt_bits[of "take 64 b" s] that(1) by (simp add: bits_def)
  qed
  show ?thesis by (induction n) (use e assms(1,2) in simp_all)
qed

text \<open>The alphabet of salts and results.\<close>

definition crypt_char :: "int \<Rightarrow> bool" where
  "crypt_char c \<longleftrightarrow> 46 \<le> c \<and> c \<le> 57 \<or> 65 \<le> c \<and> c \<le> 90 \<or> 97 \<le> c \<and> c \<le> 122"

lemma out_char_ok:
  assumes "bits b" "6 * i + 5 < length b"
  shows "crypt_char (out_char b i)"
proof -
  have b: "uint (b ! (6 * i + j)) = 0 \<or> uint (b ! (6 * i + j)) = 1" if "j \<le> 5" for j
    using bits_nth[OF assms(1), of "6 * i + j"] assms(2) that by auto
  have step: "(push_bit 1 c OR v) \<in> {0..2 * m + 1}" if "c \<in> {0..m}" "v = 0 \<or> v = 1" for c v m :: int
  proof -
    have "push_bit 1 c OR v = 2 * c + v"
      using that(2) by (auto simp: push_bit_eq_mult or_one_eq)
    then show ?thesis using that by auto
  qed
  have "fold (\<lambda>j c. (push_bit 1 c) OR uint (b ! (6 * i + j))) [0..<6] 0 \<in> {0..63 :: int}"
  proof -
    have u: "[0..<6] = [0, 1, 2, 3, 4, 5 :: nat]" by (simp add: upt_rec)
    have z: "(0 :: int) \<in> {0..0}" by simp
    show ?thesis unfolding u
      using step[OF step[OF step[OF step[OF step[OF step[OF z b] b] b] b] b] b, of 0 1 2 3 4 5]
      by (simp add: push_bit_eq_mult)
  qed
  then show ?thesis by (auto simp: out_char_def crypt_char_def Let_def)
qed

section \<open>Properties\<close>

text \<open>C24: Encryption is undone by encryption with the round keys in reverse order, whatever the key
  schedule and the (salted) expansion table.\<close>

theorem des_reverse_schedule:
  assumes "length block = 64"
  shows "encrypt (encrypt block s) (s\<lparr>KS := rev (KS s)\<rparr>) = block"
  using assms by (rule encrypt_reverse)

definition zero_crypt :: crypt_state where
  "zero_crypt = \<lparr>C_half = [], D_half = [], KS = [], E_tab = e2\<rparr>"

theorem des_reverse_schedule_witness:
  "let s = setkey (replicate 64 1) zero_crypt; b = replicate 32 0 @ replicate 32 1
   in encrypt (encrypt b s) (s\<lparr>KS := rev (KS s)\<rparr>) = b"
  unfolding Let_def by (rule des_reverse_schedule) simp

text \<open>\<^verbatim>\<open>crypt\<close> depends on the salt and the first eight characters of the password only: not on
  later ones, nor on anything earlier calls left in the static arrays.\<close>

theorem crypt_eight_chars:
  "fst (crypt pw s0 s1 st) = fst (crypt (take 8 (takeWhile (\<lambda>c. c \<noteq> 0) pw)) s0 s1 st')"
  using pw_bits_prefix[of 0 0 pw]
  by (simp add: crypt_def setkey_def Let_def encrypt_def split: prod.splits)

text \<open>C25: Whatever the password and salt, \<^verbatim>\<open>crypt\<close> returns the two salt characters (the first one
  twice when the second is a NUL) and eleven characters of the alphabet \<^verbatim>\<open>[./0-9A-Za-z]\<close>.\<close>

theorem crypt_printable:
  "\<exists>cs. fst (crypt pw s0 s1 st) = [s0, if s1 = 0 then s0 else s1] @ map of_int cs @ [0] \<and>
     length cs = 11 \<and> list_all crypt_char cs"
proof -
  let ?st = "(setkey (pad66 (pw_bits 0 pw)) st)\<lparr>E_tab := salt_char s1 1 (salt_char s0 0 (E_tab (setkey (pad66 (pw_bits 0 pw)) st)))\<rparr>"
  let ?b = "((\<lambda>b. encrypt b ?st @ [0, 0]) ^^ 25) (replicate 66 0)"
  have u: "25 = Suc 24" by simp
  have b: "length ?b = 66" "bits ?b"
  proof -
    have "drop 64 (replicate 66 (0 :: u8)) = [0, 0]" "bits (replicate 66 0)"
      by (simp_all add: numeral_2_eq_2 bits_def)
    from iterate_encrypt[OF _ this(2,1), where s = ?st and n = 24] show "length ?b = 66" "bits ?b" unfolding u by simp_all
  qed
  have "crypt_char (out_char ?b i)" if "i < 11" for i
    by (rule out_char_ok[OF b(2)]) (use b(1) that in simp)
  moreover have "fst (crypt pw s0 s1 st) = [s0, if s1 = 0 then s0 else s1] @ map of_int (map (out_char ?b) [0..<11]) @ [0]"
    by (simp add: crypt_def Let_def o_def)
  ultimately show ?thesis
    by (intro exI[of _ "map (out_char ?b) [0..<11]"]) (simp add: list_all_iff)
qed

end
