(* ===== verification/Ctime.thy ===== *)
theory Ctime
  imports Prelude "HOL-Library.Signed_Division"
begin

text \<open>
  Dates: \<^verbatim>\<open>lib/libc/port/gen/ctime.c\<close>. C's \<^verbatim>\<open>/\<close> and \<^verbatim>\<open>%\<close> are \<open>sdiv\<close> and \<open>smod\<close>. The static
  \<^verbatim>\<open>dmsize\<close> is changed for a leap year and put back within one call, so it is a local list;
  the environment variable \<^verbatim>\<open>TZ\<close> is an argument. Characters are their codes.
\<close>

section \<open>gmtime\<close>

record tm =
  tm_sec :: int
  tm_min :: int
  tm_hour :: int
  tm_mday :: int
  tm_mon :: int
  tm_year :: int
  tm_wday :: int
  tm_yday :: int
  tm_isdst :: int

definition dysize :: "int \<Rightarrow> int" where
  "dysize a = (if a smod 4 \<noteq> 0 then 365 else 366)"

definition dmsize :: "int list" where
  "dmsize = [31, 28, 31, 30, 31, 30, 31, 31, 30, 31, 30, 31]"

lemma dysize_pos [simp]: "0 < dysize a" "365 \<le> dysize a" "dysize a \<le> 366"
  by (simp_all add: dysize_def)

text \<open>\<^verbatim>\<open>for(d1=70; day >= dysize(d1); d1++) day -= dysize(d1);\<close> and the loop for days before 1970.\<close>

function year_up :: "int \<Rightarrow> int \<Rightarrow> int \<times> int" where
  "year_up d1 day = (if day \<ge> dysize d1 then year_up (d1 + 1) (day - dysize d1) else (d1, day))"
  by auto
termination
proof (relation "measure (\<lambda>(_, day). nat day)")
  fix d1 day :: int
  assume "dysize d1 \<le> day"
  then show "((d1 + 1, day - dysize d1), (d1, day)) \<in> measure (\<lambda>(_, day). nat day)"
    using dysize_pos(1)[of d1] by (simp del: dysize_pos)
qed simp

function year_down :: "int \<Rightarrow> int \<Rightarrow> int \<times> int" where
  "year_down d1 day = (if day < 0 then year_down (d1 - 1) (day + dysize (d1 - 1)) else (d1, day))"
  by auto
termination
proof (relation "measure (\<lambda>(_, day). nat (- day))")
  fix d1 day :: int
  assume "day < 0"
  then show "((d1 - 1, day + dysize (d1 - 1)), (d1, day)) \<in> measure (\<lambda>(_, day). nat (- day))"
    using dysize_pos(1)[of "d1 - 1"] by simp
qed simp

declare year_up.simps [simp del] year_down.simps [simp del]

text \<open>The month loop over the lengths from month \<open>d1\<close> on; \<open>None\<close> past the end of \<^verbatim>\<open>dmsize\<close>.\<close>

fun month_loop :: "int \<Rightarrow> int \<Rightarrow> int list \<Rightarrow> (int \<times> int) option" where
  "month_loop d1 d0 [] = None"
| "month_loop d1 d0 (n # ns) = (if d0 \<ge> n then month_loop (d1 + 1) (d0 - n) ns else Some (d1, d0))"

definition gmtime :: "int \<Rightarrow> tm option" where
  "gmtime tim =
     (let hms0 = tim smod 86400; day0 = tim sdiv 86400;
          hms = (if hms0 < 0 then hms0 + 86400 else hms0);
          day = (if hms0 < 0 then day0 - 1 else day0);
          d1 = hms sdiv 60;
          (year, yday) = (if day \<ge> 0 then year_up 70 day else year_down 70 day);
          dm = (if dysize year = 366 then dmsize[1 := 29] else dmsize)
      in map_option (\<lambda>(mon, d0).
           \<lparr>tm_sec = hms smod 60, tm_min = d1 smod 60, tm_hour = d1 sdiv 60, tm_mday = d0 + 1, tm_mon = mon,
            tm_year = year, tm_wday = (day + 7340036) smod 7, tm_yday = yday, tm_isdst = 0\<rparr>)
         (month_loop 0 yday dm))"

section \<open>Time zones\<close>

record tzstate =
  timezone :: int
  daylight :: bool
  tzname0 :: "int list"
  tzname1 :: "int list"

text \<open>\<^verbatim>\<open>*q++ = *p? *p++: ' '\<close>, three times; the rest of the string comes back.\<close>

fun take_name :: "nat \<Rightarrow> int list \<Rightarrow> int list \<times> int list" where
  "take_name 0 p = ([], p)"
| "take_name (Suc n) [] = (let (q, r) = take_name n [] in (32 # q, r))"
| "take_name (Suc n) (c # p) = (let (q, r) = take_name n p in (c # q, r))"

fun take_num :: "int \<Rightarrow> int list \<Rightarrow> int \<times> int list" where
  "take_num n [] = (n, [])"
| "take_num n (c # p) = (if 48 \<le> c \<and> c \<le> 57 then take_num (s32 (s32 (n * 10) + c - 48)) p else (n, c # p))"

definition tzset :: "int list option \<Rightarrow> tzstate \<Rightarrow> tzstate" where
  "tzset env s =
     (case env of
        None \<Rightarrow> s
      | Some tz \<Rightarrow>
          if tz = [] then s
          else
            let (n0, p) = take_name 3 tz;
                sign = (p \<noteq> [] \<and> hd p = 45);
                (n, p2) = take_num 0 (if sign then tl p else p);
                n' = (if sign then s32 (- n) else n);
                s1 = s\<lparr>tzname0 := n0, timezone := s32 (s32 (n' * 60) * 60), daylight := p2 \<noteq> []\<rparr>
            in if p2 \<noteq> [] then s1\<lparr>tzname1 := fst (take_name 3 p2)\<rparr> else s1)"

definition sunday :: "tm \<Rightarrow> int \<Rightarrow> int" where
  "sunday t d0 =
     (let d = (if d0 \<ge> 58 then d0 + (dysize (tm_year t) - 365) else d0)
      in d - (d - tm_yday t + tm_wday t + 700) smod 7)"

definition dst_bounds :: "tm \<Rightarrow> int \<times> int" where
  "dst_bounds ct =
     (if tm_year ct = 74 then (5, 333) else if tm_year ct = 75 then (58, 303) else (119, 303))"

definition dst_in_effect :: "tm \<Rightarrow> bool" where
  "dst_in_effect ct =
     (let b = sunday ct (fst (dst_bounds ct)); e = sunday ct (snd (dst_bounds ct)); dayno = tm_yday ct
      in (dayno > b \<or> (dayno = b \<and> tm_hour ct \<ge> 2)) \<and> (dayno < e \<or> (dayno = e \<and> tm_hour ct < 1)))"

definition localtime :: "int list option \<Rightarrow> int \<Rightarrow> tzstate \<Rightarrow> (tm \<times> tzstate) option" where
  "localtime env tim s =
     (let s1 = tzset env s; copyt = s32 (tim - timezone s1)
      in Option.bind (gmtime copyt) (\<lambda>ct.
           if daylight s1 \<and> dst_in_effect ct
           then map_option (\<lambda>ct2. (ct2\<lparr>tm_isdst := tm_isdst ct2 + 1\<rparr>, s1)) (gmtime (s32 (copyt + 3600)))
           else Some (ct, s1)))"

section \<open>asctime\<close>

definition codes :: "string \<Rightarrow> int list" where
  "codes cs = map (\<lambda>c. int (of_char c)) cs"

definition ct_numb :: "nat \<times> int list \<Rightarrow> int \<Rightarrow> nat \<times> int list" where
  "ct_numb cb n =
     (let (cp, buf) = cb;
          c = (if n \<ge> 10 then (n sdiv 10) smod 10 + 48 else 32)
      in (cp + 3, buf[cp + 1 := c, cp + 2 := n smod 10 + 48]))"

definition put3 :: "nat \<Rightarrow> int list \<Rightarrow> nat \<Rightarrow> int list \<Rightarrow> int list" where
  "put3 cp names i buf = buf[cp := names ! i, cp + 1 := names ! (i + 1), cp + 2 := names ! (i + 2)]"

definition asctime :: "tm \<Rightarrow> int list" where
  "asctime t =
     (let buf = codes ''Day Mon 00 00:00:00 1900'' @ [10, 0];
          b1 = put3 0 (codes ''SunMonTueWedThuFriSat'') (nat (3 * tm_wday t)) buf;
          b2 = put3 4 (codes ''JanFebMarAprMayJunJulAugSepOctNovDec'') (nat (tm_mon t * 3)) b1;
          cb3 = ct_numb (7, b2) (tm_mday t);
          cb4 = ct_numb cb3 (tm_hour t + 100);
          cb5 = ct_numb cb4 (tm_min t + 100);
          (cp, b6) = ct_numb cb5 (tm_sec t + 100);
          b7 = (if tm_year t \<ge> 100 then b6[cp + 1 := 50, cp + 2 := 48] else b6)
      in snd (ct_numb (cp + 2, b7) (tm_year t + 100)))"

definition ctime :: "int list option \<Rightarrow> int \<Rightarrow> tzstate \<Rightarrow> (int list \<times> tzstate) option" where
  "ctime env t s = map_option (\<lambda>(ct, s1). (asctime ct, s1)) (localtime env t s)"

section \<open>The calendar\<close>

text \<open>The Gregorian calendar: leap years, the day number of the first of January (0 is that of 1970)
  and the lengths of the months.\<close>

definition leap :: "int \<Rightarrow> bool" where
  "leap y \<longleftrightarrow> y mod 4 = 0 \<and> (y mod 100 \<noteq> 0 \<or> y mod 400 = 0)"

definition new_year :: "int \<Rightarrow> int" where
  "new_year y = 365 * (y - 1) + (y - 1) div 4 - (y - 1) div 100 + (y - 1) div 400 - 719162"

definition month_len :: "int \<Rightarrow> nat \<Rightarrow> int" where
  "month_len y m = (if m = 1 \<and> leap y then 29 else dmsize ! m)"

lemma div_step: "0 < k \<Longrightarrow> y div k = (y - 1) div k + (if k dvd y then 1 else 0)" for y k :: int
proof -
  assume k: "0 < k"
  have y: "y = k * (y div k) + y mod k" "0 \<le> y mod k" "y mod k < k" using k by simp_all
  show ?thesis
  proof (cases "k dvd y")
    case True
    then obtain q where q: "y = k * q" by (elim dvdE)
    have "(y - 1) div k = q - 1"
      by (rule int_div_pos_eq[of _ _ _ "k - 1"]) (use q k in \<open>simp_all add: right_diff_distrib\<close>)
    then show ?thesis using True q k by simp
  next
    case False
    then have "y mod k \<noteq> 0" by auto
    then have "(y - 1) div k = y div k" using y by (intro int_div_pos_eq[of _ _ _ "y mod k - 1"]) linarith+
    then show ?thesis using False by simp
  qed
qed

lemma leap_arith:
  fixes a b c y n n' :: int
  assumes "r \<Longrightarrow> q" "q \<Longrightarrow> p"
    "n' = 365 * y + (a + (if p then 1 else 0)) - (b + (if q then 1 else 0)) + (c + (if r then 1 else 0)) - 719162"
    "n = 365 * (y - 1) + a - b + c - 719162" "l \<longleftrightarrow> p \<and> (\<not> q \<or> r)"
  shows "n' = n + (if l then 366 else 365)"
  using assms by (cases p; cases q; cases r; simp)

lemma new_year_step: "new_year (y + 1) = new_year y + (if leap y then 366 else 365)"
proof -
  have d: "400 dvd y \<Longrightarrow> 100 dvd y" "100 dvd y \<Longrightarrow> 4 dvd y"
    by (erule dvd_trans[rotated], simp)+
  define a b c where "a = (y - 1) div 4" and "b = (y - 1) div 100" and "c = (y - 1) div 400"
  have "y div 4 = a + (if 4 dvd y then 1 else 0)" "y div 100 = b + (if 100 dvd y then 1 else 0)"
    "y div 400 = c + (if 400 dvd y then 1 else 0)"
    unfolding a_def b_def c_def by (rule div_step, simp)+
  then have n1: "new_year (y + 1) = 365 * y + (a + (if 4 dvd y then 1 else 0)) - (b + (if 100 dvd y then 1 else 0)) +
      (c + (if 400 dvd y then 1 else 0)) - 719162"
    by (simp only: new_year_def add_diff_cancel_right')
  have n2: "new_year y = 365 * (y - 1) + a - b + c - 719162" by (simp only: new_year_def a_def b_def c_def)
  have n3: "leap y \<longleftrightarrow> 4 dvd y \<and> (\<not> 100 dvd y \<or> 400 dvd y)" by (simp only: leap_def dvd_eq_mod_eq_0)
  show ?thesis by (rule leap_arith[OF d n1 n2 n3])
qed

lemma dysize_eq: "dysize a = (if a mod 4 = 0 then 366 else 365)"
proof -
  have "a smod 4 = 0 \<longleftrightarrow> a mod 4 = 0" by (auto simp: signed_modulo_int_def sgn_if simp flip: dvd_eq_mod_eq_0)
  then show ?thesis by (simp add: dysize_def)
qed

text \<open>The rule of \<^verbatim>\<open>dysize\<close>, counted from year 1900: days from a fixed origin.\<close>

definition jyear :: "int \<Rightarrow> int" where
  "jyear a = 365 * a + (a + 3) div 4"

lemma jyear_step: "jyear (a + 1) = jyear a + dysize a"
proof -
  have "(a + 1 + 3) div 4 = (a + 3) div 4 + (if a mod 4 = 0 then 1 else 0)" by presburger
  then show ?thesis unfolding jyear_def dysize_eq by (simp add: algebra_simps)
qed

lemma year_up_spec:
  "0 \<le> day \<Longrightarrow> case year_up a day of (b, r) \<Rightarrow> jyear b + r = jyear a + day \<and> 0 \<le> r \<and> r < dysize b \<and> a \<le> b"
proof (induction a day rule: year_up.induct)
  case (1 a day)
  show ?case
  proof (cases "dysize a \<le> day")
    case True
    then show ?thesis using 1(1)[OF True] jyear_step[of a] by (subst year_up.simps) (auto split: prod.splits)
  next
    case False
    then show ?thesis using 1(2) by (subst year_up.simps) simp
  qed
qed

lemma year_down_spec:
  "day < dysize a \<Longrightarrow> case year_down a day of (b, r) \<Rightarrow> jyear b + r = jyear a + day \<and> 0 \<le> r \<and> r < dysize b \<and> b \<le> a"
proof (induction a day rule: year_down.induct)
  case (1 a day)
  show ?case
  proof (cases "day < 0")
    case True
    then have "day + dysize (a - 1) < dysize (a - 1)" by simp
    then show ?thesis using 1(1)[OF True] True jyear_step[of "a - 1"] by (subst year_down.simps) (auto split: prod.splits)
  next
    case False
    then show ?thesis using 1(2) by (subst year_down.simps) simp
  qed
qed

lemma jyear_mono: "a \<le> b \<Longrightarrow> jyear a \<le> jyear b"
  by (simp add: jyear_def zdiv_mono1)

text \<open>Within the range of a 32-bit time the two rules for leap years agree.\<close>

lemma jyear_gregorian: "1 \<le> a \<Longrightarrow> a \<le> 138 \<Longrightarrow> jyear a - jyear 70 = new_year (1900 + a)"
proof -
  assume a: "1 \<le> a" "a \<le> 138"
  have "(1899 + a) div 4 = 474 + (a + 3) div 4" by presburger
  moreover have "(1899 + a) div 100 - (1899 + a) div 400 = 15"
  proof (cases "a \<le> 100")
    case True
    have "(1899 + a) div 100 = 19" by (rule int_div_pos_eq[of _ _ _ "a - 1"]) (use True a in simp_all)
    moreover have "(1899 + a) div 400 = 4" by (rule int_div_pos_eq[of _ _ _ "a + 299"]) (use True a in simp_all)
    ultimately show ?thesis by simp
  next
    case False
    have "(1899 + a) div 100 = 20" by (rule int_div_pos_eq[of _ _ _ "a - 101"]) (use False a in simp_all)
    moreover have "(1899 + a) div 400 = 5" by (rule int_div_pos_eq[of _ _ _ "a - 101"]) (use False a in simp_all)
    ultimately show ?thesis by simp
  qed
  ultimately show ?thesis by (simp add: jyear_def new_year_def)
qed

lemma leap_dysize: "1 \<le> a \<Longrightarrow> a \<le> 138 \<Longrightarrow> leap (1900 + a) \<longleftrightarrow> dysize a = 366"
proof -
  assume a: "1 \<le> a" "a \<le> 138"
  have "(1900 + a) mod 4 = a mod 4" by presburger
  moreover have "a = 100" if "(1900 + a) mod 100 = 0"
  proof -
    from that obtain k where "1900 + a = 100 * k" by (auto simp flip: dvd_eq_mod_eq_0)
    moreover from this have "100 * 19 < 100 * k" "100 * k < 100 * 21" using a by linarith+
    then have "k = 20" by simp
    ultimately show ?thesis by simp
  qed
  ultimately show ?thesis by (auto simp: leap_def dysize_eq)
qed

text \<open>The month loop.\<close>

lemma month_loop_spec:
  "0 \<le> d0 \<Longrightarrow> d0 < sum_list ns \<Longrightarrow> \<forall>n\<in>set ns. 0 < n \<Longrightarrow>
   \<exists>k r. month_loop d1 d0 ns = Some (d1 + int k, r) \<and> k < length ns \<and> 0 \<le> r \<and> r < ns ! k \<and> d0 = sum_list (take k ns) + r"
proof (induction ns arbitrary: d1 d0)
  case (Cons n ns)
  show ?case
  proof (cases "n \<le> d0")
    case True
    then obtain k r where "month_loop (d1 + 1) (d0 - n) ns = Some (d1 + 1 + int k, r)" "k < length ns" "0 \<le> r" "r < ns ! k"
      "d0 - n = sum_list (take k ns) + r"
      using Cons.IH[of "d0 - n" "d1 + 1"] Cons.prems by auto
    then show ?thesis using True by (intro exI[of _ "Suc k"]) auto
  next
    case False
    then show ?thesis using Cons.prems by (intro exI[of _ 0] exI[of _ d0]) auto
  qed
qed simp


lemma sdiv_nonneg: "0 \<le> a \<Longrightarrow> 0 < b \<Longrightarrow> a sdiv b = a div b" for a b :: int
  by (simp add: signed_divide_int_def sgn_if)

lemma smod_nonneg: "0 \<le> a \<Longrightarrow> 0 < b \<Longrightarrow> a smod b = a mod b" for a b :: int
  by (simp add: smod_mod_positive)

text \<open>The split into days and seconds of the day.\<close>

lemma day_split:
  "(if t smod 86400 < 0 then t smod 86400 + 86400 else t smod 86400) = t mod 86400"
  "(if t smod 86400 < 0 then t sdiv 86400 - 1 else t sdiv 86400) = t div 86400" for t :: int
proof -
  let ?m = "if t smod 86400 < 0 then t smod 86400 + 86400 else t smod 86400"
  let ?d = "if t smod 86400 < 0 then t sdiv 86400 - 1 else t sdiv 86400"
  have r: "- 86400 < t smod 86400" "t smod 86400 < 86400" using smod_int_range[of 86400 t] by auto
  have e: "t = 86400 * ?d + ?m" using mult_sdiv_smod_eq[of 86400 t] by (simp split: if_splits)
  have b: "0 \<le> ?m" "?m < 86400" using r by simp_all
  show "?m = t mod 86400" using int_mod_pos_eq[OF e b] by simp
  show "?d = t div 86400" using int_div_pos_eq[OF e b] by simp
qed

definition tm_ok :: "tm \<Rightarrow> bool" where
  "tm_ok t \<longleftrightarrow> 0 \<le> tm_sec t \<and> tm_sec t < 60 \<and> 0 \<le> tm_min t \<and> tm_min t < 60 \<and> 0 \<le> tm_hour t \<and> tm_hour t < 24 \<and>
     0 \<le> tm_mon t \<and> tm_mon t < 12 \<and> 1 \<le> tm_mday t \<and> tm_mday t \<le> month_len (1900 + tm_year t) (nat (tm_mon t)) \<and>
     tm_yday t = (\<Sum>m<nat (tm_mon t). month_len (1900 + tm_year t) m) + tm_mday t - 1 \<and>
     tm_wday t = (new_year (1900 + tm_year t) + tm_yday t + 4) mod 7"

definition tm_seconds :: "tm \<Rightarrow> int" where
  "tm_seconds t = 86400 * (new_year (1900 + tm_year t) + tm_yday t) + 3600 * tm_hour t + 60 * tm_min t + tm_sec t"

lemma gmtime_ok:
  assumes "- 2147483648 \<le> tim" "tim < 2147483648"
  shows "\<exists>t. gmtime tim = Some t \<and> tm_seconds t = tim \<and> tm_ok t \<and> tm_isdst t = 0 \<and> 1 \<le> tm_year t \<and> tm_year t \<le> 138"
proof -
  define hms day where "hms = tim mod 86400" and "day = tim div 86400"
  have hd: "tim = 86400 * day + hms" "0 \<le> hms" "hms < 86400" by (simp_all add: hms_def day_def)
  have day: "- 24856 \<le> day" "day \<le> 24855" using hd assms by linarith+
  obtain a r where y: "(if day \<ge> 0 then year_up 70 day else year_down 70 day) = (a, r)" by fastforce
  have j: "jyear a + r = jyear 70 + day" "0 \<le> r" "r < dysize a"
  proof -
    have "jyear a + r = jyear 70 + day \<and> 0 \<le> r \<and> r < dysize a"
    proof (cases "0 \<le> day")
      case True
      then show ?thesis using year_up_spec[of day 70] y by auto
    next
      case False
      have "day < dysize 70" using False dysize_pos(1)[of 70] by linarith
      then show ?thesis using False year_down_spec[of day 70] y by auto
    qed
    then show "jyear a + r = jyear 70 + day" "0 \<le> r" "r < dysize a" by auto
  qed
  have a: "1 \<le> a" "a \<le> 138"
  proof -
    have v: "jyear 1 = 366" "jyear 70 = 25568" "jyear 139 = 50770" by (simp_all add: jyear_def)
    show "1 \<le> a" 
    proof (rule ccontr)
      assume "\<not> 1 \<le> a"
      then have "jyear (a + 1) \<le> jyear 1" by (intro jyear_mono) simp
      then show False using j v day jyear_step[of a] by linarith
    qed
    show "a \<le> 138"
    proof (rule ccontr)
      assume "\<not> a \<le> 138"
      then have "jyear 139 \<le> jyear a" by (intro jyear_mono) simp
      then show False using j v day by linarith
    qed
  qed
  have ny: "new_year (1900 + a) + r = day" using jyear_gregorian[OF a] j(1) by linarith
  let ?dm = "if dysize a = 366 then dmsize[1 := 29] else dmsize"
  have dm: "length ?dm = 12" "\<forall>n\<in>set ?dm. 0 < n" "sum_list ?dm = dysize a"
    by (auto simp: dmsize_def dysize_eq)
  obtain k d where m: "month_loop 0 r ?dm = Some (int k, d)" "k < 12" "0 \<le> d" "d < ?dm ! k" "r = sum_list (take k ?dm) + d"
    using month_loop_spec[of r ?dm 0] j(2,3) dm by auto
  have len: "?dm ! i = month_len (1900 + a) i" if "i < 12" for i
  proof -
    have "length dmsize = 12" "dmsize ! 1 = 28" by (simp_all add: dmsize_def)
    then show ?thesis using leap_dysize[OF a] that by (simp add: month_len_def nth_list_update)
  qed
  have sum: "sum_list (take k ?dm) = (\<Sum>i<k. month_len (1900 + a) i)"
  proof -
    have "sum_list (take k ?dm) = (\<Sum>i<k. ?dm ! i)"
      using dm(1) m(2) by (simp add: sum_list_sum_nth atLeast0LessThan)
    also have "\<dots> = (\<Sum>i<k. month_len (1900 + a) i)" using m(2) by (intro sum.cong) (auto simp: len)
    finally show ?thesis .
  qed
  let ?t = "\<lparr>tm_sec = hms mod 60, tm_min = (hms div 60) mod 60, tm_hour = hms div 60 div 60, tm_mday = d + 1,
     tm_mon = int k, tm_year = a, tm_wday = (day + 7340036) mod 7, tm_yday = r, tm_isdst = 0\<rparr>"
  have "gmtime tim = Some ?t"
    unfolding gmtime_def Let_def day_split hms_def[symmetric] day_def[symmetric] y
    using m(1) hd(2) day by (simp add: sdiv_nonneg smod_nonneg)
  moreover have "tm_seconds ?t = tim"
  proof -
    have "hms = 3600 * (hms div 60 div 60) + 60 * (hms div 60 mod 60) + hms mod 60" by presburger
    then show ?thesis using ny hd(1) by (simp add: tm_seconds_def algebra_simps)
  qed
  moreover have "tm_ok ?t"
  proof -
    have "(day + 7340036) mod 7 = (day + 4) mod 7" by presburger
    moreover have "hms div 60 div 60 < 24" using hd(3) by linarith
    ultimately show ?thesis
      using m hd(2) sum len[OF m(2)] ny by (simp add: tm_ok_def pos_imp_zdiv_nonneg_iff)
  qed
  ultimately show ?thesis using a by auto
qed


section \<open>Local time and the printed form\<close>

text \<open>The day that \<^verbatim>\<open>sunday\<close> starts from, after the correction for leap years, and the weekday of a
  day of the year of \<open>t\<close>.\<close>

definition sunday_from :: "tm \<Rightarrow> int \<Rightarrow> int" where
  "sunday_from t d = (if d \<ge> 58 \<and> tm_year t mod 4 = 0 then d + 1 else d)"

definition weekday :: "tm \<Rightarrow> int \<Rightarrow> int" where
  "weekday t yday = (tm_wday t + yday - tm_yday t) mod 7"

lemma sunday_spec:
  assumes "0 \<le> tm_yday t" "tm_yday t \<le> 366" "0 \<le> tm_wday t" "0 \<le> d"
  shows "sunday t d \<le> sunday_from t d \<and> sunday_from t d - 6 \<le> sunday t d \<and> weekday t (sunday t d) = 0"
proof -
  let ?f = "sunday_from t d"
  have f: "(if d \<ge> 58 then d + (dysize (tm_year t) - 365) else d) = ?f" by (simp add: sunday_from_def dysize_eq)
  have n: "0 \<le> ?f - tm_yday t + tm_wday t + 700" using assms by (simp add: sunday_from_def)
  have s: "sunday t d = ?f - (?f - tm_yday t + tm_wday t + 700) mod 7"
    unfolding sunday_def Let_def f using smod_nonneg[OF n, of 7] by simp
  moreover have "(tm_wday t + (?f - (?f - tm_yday t + tm_wday t + 700) mod 7) - tm_yday t) mod 7 = 0" by presburger
  moreover have "0 \<le> (?f - tm_yday t + tm_wday t + 700) mod 7" "(?f - tm_yday t + tm_wday t + 700) mod 7 < 7" by simp_all
  ultimately show ?thesis by (simp add: weekday_def)
qed

lemma month_sum_le: "m < 12 \<Longrightarrow> (\<Sum>i<m. month_len y i) + month_len y m \<le> 366"
proof -
  assume m: "m < 12"
  have "(\<Sum>i<m. month_len y i) + month_len y m = (\<Sum>i<Suc m. month_len y i)" by simp
  also have "\<dots> \<le> (\<Sum>i<12. month_len y i)"
  proof (rule sum_mono2)
    show "0 \<le> month_len y i" if "i \<in> {..<12} - {..<Suc m}" for i
      using that by (auto simp: month_len_def dmsize_def nth_Cons' )
  qed (use m in auto)
  also have "\<dots> \<le> 366" by (simp add: month_len_def dmsize_def eval_nat_numeral lessThan_Suc)
  finally show ?thesis .
qed

lemma tm_ok_yday: "tm_ok t \<Longrightarrow> 0 \<le> tm_yday t \<and> tm_yday t < 366 \<and> 0 \<le> tm_wday t \<and> tm_wday t < 7"
proof -
  assume ok: "tm_ok t"
  then have m: "nat (tm_mon t) < 12" by (auto simp: tm_ok_def)
  have "0 \<le> (\<Sum>i<nat (tm_mon t). month_len (1900 + tm_year t) i)"
  proof (rule sum_nonneg)
    show "0 \<le> month_len y i" if "i \<in> {..<nat (tm_mon t)}" for i y
      using that m by (auto simp: month_len_def dmsize_def nth_Cons')
  qed
  then show ?thesis using ok month_sum_le[OF m, of "1900 + tm_year t"] by (auto simp: tm_ok_def)
qed

text \<open>Two digits, and the text that \<^verbatim>\<open>asctime\<close> is to give.\<close>

definition digits2 :: "int \<Rightarrow> int list" where
  "digits2 n = [n div 10 + 48, n mod 10 + 48]"

definition asc_spec :: "tm \<Rightarrow> int list" where
  "asc_spec t =
     take 3 (drop (3 * nat (tm_wday t)) (codes ''SunMonTueWedThuFriSat'')) @ codes '' '' @
     take 3 (drop (3 * nat (tm_mon t)) (codes ''JanFebMarAprMayJunJulAugSepOctNovDec'')) @ codes '' '' @
     (if tm_mday t < 10 then [32, tm_mday t + 48] else digits2 (tm_mday t)) @ codes '' '' @
     digits2 (tm_hour t) @ codes '':'' @ digits2 (tm_min t) @ codes '':'' @ digits2 (tm_sec t) @ codes '' '' @
     digits2 ((1900 + tm_year t) div 100) @ digits2 ((1900 + tm_year t) mod 100) @ [10, 0]"

lemma take3_drop: "i + 2 < length xs \<Longrightarrow> take 3 (drop i xs) = [xs ! i, xs ! (i + 1), xs ! (i + 2)]"
  by (simp add: numeral_3_eq_3 Cons_nth_drop_Suc[symmetric])

lemma ct_numb_small: "0 \<le> n \<Longrightarrow> ct_numb (cp, buf) n =
    (cp + 3, buf[cp + 1 := if n \<ge> 10 then (n div 10) mod 10 + 48 else 32, cp + 2 := n mod 10 + 48])"
  by (simp add: ct_numb_def sdiv_nonneg smod_nonneg pos_imp_zdiv_nonneg_iff)

lemma hundreds:
  fixes n :: int
  assumes "0 \<le> n" "n < 100"
  shows "((n + 100) div 10) mod 10 = n div 10 \<and> (n + 100) mod 10 = n mod 10"
    "((n + 200) div 10) mod 10 = n div 10 \<and> (n + 200) mod 10 = n mod 10"
proof -
  have d: "0 \<le> n div 10" "n div 10 < 10" using assms by linarith+
  have "(n + 10 * 10) div 10 = 10 + n div 10" "(n + 20 * 10) div 10 = 20 + n div 10"
    by (rule div_mult_self1, simp)+
  moreover have "(n + 10 * 10) mod 10 = n mod 10" "(n + 20 * 10) mod 10 = n mod 10" by (rule mod_mult_self1)+
  ultimately have e: "(n + 100) div 10 = n div 10 + 10" "(n + 200) div 10 = n div 10 + 20"
    "(n + 100) mod 10 = n mod 10" "(n + 200) mod 10 = n mod 10" by simp_all
  have "(n div 10 + 10) mod 10 = n div 10" by (rule int_mod_pos_eq[of _ _ 1]) (use d in simp_all)
  moreover have "(n div 10 + 20) mod 10 = n div 10" by (rule int_mod_pos_eq[of _ _ 2]) (use d in simp_all)
  ultimately show "((n + 100) div 10) mod 10 = n div 10 \<and> (n + 100) mod 10 = n mod 10"
    "((n + 200) div 10) mod 10 = n div 10 \<and> (n + 200) mod 10 = n mod 10"
    unfolding e by blast+
qed

lemma asctime_spec:
  assumes ok: "tm_ok t" and y: "0 \<le> tm_year t" "tm_year t < 200"
  shows "asctime t = asc_spec t"
proof -
  have b: "nat (tm_wday t) < 7" "nat (tm_mon t) < 12" "0 \<le> tm_wday t" "0 \<le> tm_mon t" "1 \<le> tm_mday t" "tm_mday t \<le> 31"
    "0 \<le> tm_hour t" "tm_hour t < 24" "0 \<le> tm_min t" "tm_min t < 60" "0 \<le> tm_sec t" "tm_sec t < 60"
  proof -
    have "month_len y m \<le> 31" if "m < 12" for y m using that by (auto simp: month_len_def dmsize_def nth_Cons')
    from this[of "nat (tm_mon t)" "1900 + tm_year t"] show "tm_mday t \<le> 31" using ok by (auto simp: tm_ok_def nat_less_iff)
  qed (use ok tm_ok_yday[OF ok] in \<open>auto simp: tm_ok_def\<close>)
  have nm: "nat (3 * tm_wday t) = 3 * nat (tm_wday t)" "nat (tm_mon t * 3) = 3 * nat (tm_mon t)" using b by simp_all
  define W M where "W = codes ''SunMonTueWedThuFriSat''" and "M = codes ''JanFebMarAprMayJunJulAugSepOctNovDec''"
  have "length W = 21" "length M = 36" by (simp_all add: W_def M_def codes_def)
  then have t3: "take 3 (drop (3 * nat (tm_wday t)) W) = [W ! (3 * nat (tm_wday t)), W ! (3 * nat (tm_wday t) + 1), W ! (3 * nat (tm_wday t) + 2)]"
    "take 3 (drop (3 * nat (tm_mon t)) M) = [M ! (3 * nat (tm_mon t)), M ! (3 * nat (tm_mon t) + 1), M ! (3 * nat (tm_mon t) + 2)]"
    using b(1,2) by (intro take3_drop; simp)+
  have yr: "((tm_year t + 100) div 10) mod 10 = (1900 + tm_year t) mod 100 div 10 \<and> (tm_year t + 100) mod 10 = (1900 + tm_year t) mod 100 mod 10 \<and>
    (1900 + tm_year t) div 100 = (if tm_year t \<ge> 100 then 20 else 19)"
  proof (cases "tm_year t \<ge> 100")
    case True
    define z where "z = tm_year t - 100"
    have z: "tm_year t = z + 100" "0 \<le> z" "z < 100" using True y by (simp_all add: z_def)
    have d20: "(2000 + z) div 100 = 20" by (rule int_div_pos_eq[of _ _ _ z]) (use z in simp_all)
    have m20: "(2000 + z) mod 100 = z" by (rule int_mod_pos_eq[of _ _ 20]) (use z in simp_all)
    have e: "tm_year t + 100 = z + 200" "1900 + tm_year t = 2000 + z" using z(1) by simp_all
    show ?thesis unfolding e d20 m20 if_P[OF True] using hundreds(2)[OF z(2,3)] by blast
  next
    case False
    have d19: "(1900 + tm_year t) div 100 = 19" by (rule int_div_pos_eq[of _ _ _ "tm_year t"]) (use False y in simp_all)
    have m19: "(1900 + tm_year t) mod 100 = tm_year t" by (rule int_mod_pos_eq[of _ _ 19]) (use False y in simp_all)
    have "tm_year t < 100" using False by simp
    then show ?thesis unfolding d19 m19 if_not_P[OF False] using hundreds(1)[OF y(1)] by blast
  qed
  have lit: "codes ''Day Mon 00 00:00:00 1900'' = [68, 97, 121, 32, 77, 111, 110, 32, 48, 48, 32, 48, 48, 58, 48, 48, 58, 48, 48, 32, 49, 57, 48, 48]"
    "codes '' '' = [32]" "codes '':'' = [58]" by (simp_all add: codes_def)
  show ?thesis
    unfolding asctime_def asc_spec_def W_def[symmetric] M_def[symmetric] t3 lit nm Let_def put3_def
    using b y yr hundreds(1)[of "tm_hour t"] hundreds(1)[of "tm_min t"] hundreds(1)[of "tm_sec t"]
    by (simp add: ct_numb_small digits2_def)
qed


section \<open>Properties\<close>



text \<open>\<^verbatim>\<open>localtime\<close> gives the fields of the time in the zone set by \<^verbatim>\<open>TZ\<close>, one hour later exactly
  when daylight saving is on and the standard time lies between 2 o'clock on the first and 1
  o'clock on the last Sunday of the daylight saving table.\<close>

theorem localtime_zone:
  assumes "s1 = tzset env s" and "- 2147483648 \<le> tim - timezone s1" "tim - timezone s1 < 2147480048"
  shows "\<exists>std ct. gmtime (tim - timezone s1) = Some std \<and> localtime env tim s = Some (ct, s1) \<and> tm_ok ct \<and>
    tm_seconds ct = tim - timezone s1 + 3600 * tm_isdst ct \<and>
    tm_isdst ct = (if daylight s1 \<and> dst_in_effect std then 1 else 0)"
proof -
  let ?c = "tim - timezone s1"
  have w: "s32 ?c = ?c" "s32 (?c + 3600) = ?c + 3600" using assms by simp_all
  obtain std where std: "gmtime ?c = Some std" "tm_seconds std = ?c" "tm_ok std" "tm_isdst std = 0"
    using gmtime_ok[of ?c] assms by auto
  obtain dst where dst: "gmtime (?c + 3600) = Some dst" "tm_seconds dst = ?c + 3600" "tm_ok dst" "tm_isdst dst = 0"
    using gmtime_ok[of "?c + 3600"] assms by auto
  have "tm_ok (dst\<lparr>tm_isdst := 1\<rparr>)" "tm_seconds (dst\<lparr>tm_isdst := 1\<rparr>) = tm_seconds dst"
    using dst(3) by (simp_all add: tm_ok_def tm_seconds_def)
  then show ?thesis using std dst w
    by (auto simp: localtime_def Let_def assms(1)[symmetric])
qed

definition est :: tzstate where
  "est = \<lparr>timezone = 18000, daylight = True, tzname0 = codes ''EST'', tzname1 = codes ''EDT''\<rparr>"

theorem localtime_zone_witness:
  "\<exists>ct s1. localtime (Some (codes ''PST8'')) 520000000 est = Some (ct, s1) \<and> tm_seconds ct = 520000000 - 28800 \<and> tm_isdst ct = 0"
proof -
  define s1 where "s1 = tzset (Some (codes ''PST8'')) est"
  have s1: "timezone s1 = 28800" "\<not> daylight s1"
    by (simp_all add: s1_def tzset_def est_def codes_def numeral_3_eq_3)
  obtain ct where "localtime (Some (codes ''PST8'')) 520000000 est = Some (ct, s1)"
    "tm_seconds ct = 520000000 - 28800 + 3600 * tm_isdst ct" "tm_isdst ct = 0"
    using localtime_zone[OF s1_def, of 520000000] s1 by auto
  then show ?thesis by auto
qed

text \<open>\<^verbatim>\<open>asctime\<close> writes the 26 bytes of the documented layout, weekday, month, day, time and
  four-digit year, for every consistent date of the years 1900 to 2099.\<close>

theorem asctime_layout:
  assumes "tm_ok t" "0 \<le> tm_year t" "tm_year t < 200"
  shows "asctime t = asc_spec t \<and> length (asctime t) = 26"
proof -
  have "length (asc_spec t) = 26"
  proof -
    have "nat (tm_wday t) < 7" "nat (tm_mon t) < 12" using tm_ok_yday[OF assms(1)] assms(1) by (auto simp: tm_ok_def)
    moreover have "length (codes ''SunMonTueWedThuFriSat'') = 21" "length (codes ''JanFebMarAprMayJunJulAugSepOctNovDec'') = 36"
      "length (codes '' '') = 1" "length (codes '':'') = 1" by (simp_all add: codes_def)
    ultimately show ?thesis by (simp add: asc_spec_def digits2_def)
  qed
  then show ?thesis using asctime_spec[OF assms] by simp
qed

definition leap_day :: tm where
  "leap_day = \<lparr>tm_sec = 5, tm_min = 7, tm_hour = 23, tm_mday = 29, tm_mon = 1, tm_year = 100, tm_wday = 2, tm_yday = 59, tm_isdst = 0\<rparr>"

theorem asctime_layout_witness:
  "asctime leap_day = codes ''Tue Feb 29 23:07:05 2000'' @ [10, 0]"
proof -
  have "tm_ok leap_day"
    by (simp add: tm_ok_def leap_day_def month_len_def leap_def new_year_def dmsize_def numeral_2_eq_2)
  from asctime_layout[OF this] show ?thesis
    by (simp add: leap_day_def asc_spec_def digits2_def codes_def)
qed

text \<open>\<^verbatim>\<open>sunday\<close> gives the last Sunday on or before the day it starts from, never a later one,
  although its comment speaks of the first Sunday on or after.\<close>

theorem sunday_on_or_before:
  assumes "tm_ok t" "0 \<le> d"
  shows "weekday t (sunday t d) = 0 \<and> sunday t d \<le> sunday_from t d \<and> sunday_from t d - 6 \<le> sunday t d"
  using sunday_spec[of t d] tm_ok_yday[OF assms(1)] assms(2) by auto

theorem sunday_on_or_before_witness:
  "sunday leap_day 118 = 113 \<and> sunday leap_day 118 < sunday_from leap_day 118"
proof -
  have "tm_ok leap_day"
    by (simp add: tm_ok_def leap_day_def month_len_def leap_def new_year_def dmsize_def numeral_2_eq_2)
  from sunday_on_or_before[OF this, of 118] show ?thesis
    by (simp add: leap_day_def sunday_from_def sunday_def dysize_eq smod_nonneg)
qed

end
