(* ===== verification/Qsort.thy ===== *)
theory Qsort
  imports Prelude "HOL-Library.Multiset"
begin

text \<open>
  \<^verbatim>\<open>lib/libc/port/gen/qsort.c\<close>. The table is the list of its elements of \<^verbatim>\<open>es\<close> bytes, pointers into
  it are element indices. \<^verbatim>\<open>qsexc\<close> and \<^verbatim>\<open>qstexc\<close> exchange whole elements, whether byte by byte or
  through \<^verbatim>\<open>qsbuf\<close>; the comparison function is a parameter. \<open>None\<close> is a run that does not end.
\<close>

section \<open>The code\<close>

definition qsexc :: "nat \<Rightarrow> nat \<Rightarrow> 'a list \<Rightarrow> 'a list" where
  "qsexc ri rj xs = xs[ri := xs ! rj, rj := xs ! ri]"

definition qstexc :: "nat \<Rightarrow> nat \<Rightarrow> nat \<Rightarrow> 'a list \<Rightarrow> 'a list" where
  "qstexc ri rj rk xs =
     (let c = xs ! ri; x1 = xs[ri := xs ! rk]; x2 = x1[rk := x1 ! rj] in x2[rj := c])"

record qpos =
  q_i :: nat
  q_lp :: nat
  q_hp :: nat
  q_j :: nat

datatype qstep = QOuter | QLoop | QDone

text \<open>One test of \<^verbatim>\<open>while(1)\<close> (\<open>qs_outer\<close>) or of the part from \<^verbatim>\<open>loop:\<close> on (\<open>qs_loop\<close>); the result
  tells where the code goes next.\<close>

definition qs_loop :: "('a \<Rightarrow> 'a \<Rightarrow> int) \<Rightarrow> qpos \<Rightarrow> 'a list \<Rightarrow> qstep \<times> qpos \<times> 'a list" where
  "qs_loop cmp q xs =
     (let i = q_i q; lp = q_lp q; hp = q_hp q; j = q_j q
      in if j > hp then
           (let c = cmp (xs ! hp) (xs ! j)
            in if c = 0 then (QLoop, q\<lparr>q_hp := hp + 1\<rparr>, qsexc (hp + 1) j xs)
               else if c > 0 then
                 (if i = lp
                  then (QLoop, q\<lparr>q_i := lp + 1, q_lp := lp + 1, q_hp := hp + 1\<rparr>, qstexc i (hp + 1) j xs)
                  else (QOuter, q\<lparr>q_j := j - 1, q_i := i + 1\<rparr>, qsexc i j xs))
               else (QLoop, q\<lparr>q_j := j - 1\<rparr>, xs))
         else if i = lp then (QDone, q, xs)
         else (QOuter, q\<lparr>q_lp := lp - 1, q_hp := hp - 1, q_j := hp - 1\<rparr>, qstexc j (lp - 1) i xs))"

definition qs_outer :: "('a \<Rightarrow> 'a \<Rightarrow> int) \<Rightarrow> qpos \<Rightarrow> 'a list \<Rightarrow> qstep \<times> qpos \<times> 'a list" where
  "qs_outer cmp q xs =
     (let i = q_i q; lp = q_lp q
      in if i < lp then
           (let c = cmp (xs ! i) (xs ! lp)
            in if c = 0 then (QOuter, q\<lparr>q_lp := lp - 1\<rparr>, qsexc i (lp - 1) xs)
               else if c < 0 then (QOuter, q\<lparr>q_i := i + 1\<rparr>, xs)
               else qs_loop cmp q xs)
         else qs_loop cmp q xs)"

partial_function (option) qs_part ::
    "('a \<Rightarrow> 'a \<Rightarrow> int) \<Rightarrow> qstep \<Rightarrow> qpos \<Rightarrow> 'a list \<Rightarrow> (qpos \<times> 'a list) option" where
  "qs_part cmp st q xs =
     (case st of
        QDone \<Rightarrow> Some (q, xs)
      | QOuter \<Rightarrow> (case qs_outer cmp q xs of (st', q', xs') \<Rightarrow> qs_part cmp st' q' xs')
      | QLoop \<Rightarrow> (case qs_loop cmp q xs of (st', q', xs') \<Rightarrow> qs_part cmp st' q' xs'))"

text \<open>The smaller part is sorted by a call, the larger one by going back to \<^verbatim>\<open>start\<close>.\<close>

partial_function (option) qs1 :: "('a \<Rightarrow> 'a \<Rightarrow> int) \<Rightarrow> nat \<Rightarrow> nat \<Rightarrow> 'a list \<Rightarrow> 'a list option" where
  "qs1 cmp a l xs =
     (if l - a \<le> 1 then Some xs
      else
        let n = (l - a) div 2
        in Option.bind (qs_part cmp QOuter \<lparr>q_i = a, q_lp = a + n, q_hp = a + n, q_j = l - 1\<rparr> xs) (\<lambda>(q, ys).
             if q_lp q - a \<ge> l - q_hp q
             then Option.bind (qs1 cmp (q_hp q + 1) l ys) (qs1 cmp a (q_lp q))
             else Option.bind (qs1 cmp a (q_lp q) ys) (qs1 cmp (q_hp q + 1) l)))"

definition qsort :: "('a \<Rightarrow> 'a \<Rightarrow> int) \<Rightarrow> 'a list \<Rightarrow> 'a list option" where
  "qsort cmp xs = qs1 cmp 0 (length xs) xs"

section \<open>Exchanges\<close>

text \<open>Only the range \<open>a..<l\<close> changes, and it keeps its elements.\<close>

definition same_outside :: "nat \<Rightarrow> nat \<Rightarrow> 'a list \<Rightarrow> 'a list \<Rightarrow> bool" where
  "same_outside a l xs ys \<longleftrightarrow> length ys = length xs \<and> mset ys = mset xs \<and> (\<forall>k. k < a \<or> l \<le> k \<longrightarrow> ys ! k = xs ! k)"

lemma same_outside_refl [simp]: "same_outside a l xs xs"
  by (simp add: same_outside_def)

lemma same_outside_trans: "same_outside a l xs ys \<Longrightarrow> same_outside a l ys zs \<Longrightarrow> same_outside a l xs zs"
  by (simp add: same_outside_def)

lemma same_outside_widen: "same_outside a l xs ys \<Longrightarrow> a' \<le> a \<Longrightarrow> l \<le> l' \<Longrightarrow> same_outside a' l' xs ys"
  by (auto simp: same_outside_def)

lemma qsexc_same: "a \<le> i \<Longrightarrow> i < l \<Longrightarrow> a \<le> j \<Longrightarrow> j < l \<Longrightarrow> l \<le> length xs \<Longrightarrow> same_outside a l xs (qsexc i j xs)"
  by (auto simp: same_outside_def qsexc_def nth_list_update mset_swap)

lemma qstexc_two: "ri < length xs \<Longrightarrow> rj < length xs \<Longrightarrow> rk < length xs \<Longrightarrow> ri \<noteq> rj \<Longrightarrow> ri \<noteq> rk \<Longrightarrow>
    qstexc ri rj rk xs = qsexc rk rj (qsexc ri rk xs)"
  by (auto simp: qstexc_def qsexc_def Let_def nth_list_update intro!: nth_equalityI)

lemma qstexc_same:
  assumes "a \<le> ri" "ri < l" "a \<le> rj" "rj < l" "a \<le> rk" "rk < l" "l \<le> length xs" "ri \<noteq> rj" "ri \<noteq> rk"
  shows "same_outside a l xs (qstexc ri rj rk xs)"
proof -
  have l: "length (qsexc ri rk xs) = length xs" by (simp add: qsexc_def)
  have "same_outside a l xs (qsexc ri rk xs)" "same_outside a l (qsexc ri rk xs) (qsexc rk rj (qsexc ri rk xs))"
    using assms l by (auto intro!: qsexc_same)
  from same_outside_trans[OF this] show ?thesis using assms by (subst qstexc_two) auto
qed

section \<open>Partitioning\<close>

text \<open>While partitioning \<open>a..<l\<close>: \<open>less\<close> before \<^verbatim>\<open>i\<close>, the pivots from \<^verbatim>\<open>lp\<close> to \<^verbatim>\<open>hp\<close>, greater ones after
  \<^verbatim>\<open>j\<close>. In \<^verbatim>\<open>loop\<close> the element at \<^verbatim>\<open>i\<close>, if it is not a pivot, is known to be greater.\<close>

definition qpos_ok :: "nat \<Rightarrow> nat \<Rightarrow> qpos \<Rightarrow> bool" where
  "qpos_ok a l q \<longleftrightarrow> a \<le> q_i q \<and> q_i q \<le> q_lp q \<and> q_lp q \<le> q_hp q \<and> q_hp q \<le> q_j q \<and> q_j q < l"

definition qdist :: "qpos \<Rightarrow> nat" where
  "qdist q = (q_lp q - q_i q) + (q_j q - q_hp q)"

text \<open>Every test makes progress, whatever the comparison says.\<close>

lemma qs_loop_progress:
  assumes "qpos_ok a l q" "l \<le> length xs" "qs_loop cmp q xs = (st, q', ys)"
  shows "qpos_ok a l q' \<and> same_outside a l xs ys \<and> (if st = QDone then q' = q else qdist q' < qdist q)"
proof -
  have p: "a \<le> q_i q" "q_i q \<le> q_lp q" "q_lp q \<le> q_hp q" "q_hp q \<le> q_j q" "q_j q < l"
    using assms(1) by (auto simp: qpos_ok_def)
  let ?c = "cmp (xs ! q_hp q) (xs ! q_j q)"
  consider (eq) "q_j q > q_hp q" "?c = 0" | (gt3) "q_j q > q_hp q" "?c > 0" "q_i q = q_lp q"
    | (gt) "q_j q > q_hp q" "?c > 0" "q_i q \<noteq> q_lp q" | (lt) "q_j q > q_hp q" "?c < 0"
    | (fin) "\<not> q_j q > q_hp q" "q_i q = q_lp q" | (mv) "\<not> q_j q > q_hp q" "q_i q \<noteq> q_lp q" by linarith
  then show ?thesis
  proof cases
    case eq
    then show ?thesis using assms p
      by (auto simp: qs_loop_def Let_def qpos_ok_def qdist_def intro!: qsexc_same)
  next
    case gt3
    then show ?thesis using assms p
      by (auto simp: qs_loop_def Let_def qpos_ok_def qdist_def intro!: qstexc_same)
  next
    case gt
    then show ?thesis using assms p
      by (auto simp: qs_loop_def Let_def qpos_ok_def qdist_def intro!: qsexc_same)
  next
    case lt
    then show ?thesis using assms p by (auto simp: qs_loop_def Let_def qpos_ok_def qdist_def)
  next
    case fin
    then show ?thesis using assms by (auto simp: qs_loop_def Let_def)
  next
    case mv
    then show ?thesis using assms p
      by (auto simp: qs_loop_def Let_def qpos_ok_def qdist_def intro!: qstexc_same)
  qed
qed

lemma qs_outer_progress:
  assumes "qpos_ok a l q" "l \<le> length xs" "qs_outer cmp q xs = (st, q', ys)"
  shows "qpos_ok a l q' \<and> same_outside a l xs ys \<and> (if st = QDone then q' = q else qdist q' < qdist q)"
proof (cases "q_i q < q_lp q \<and> cmp (xs ! q_i q) (xs ! q_lp q) \<le> 0")
  case True
  then show ?thesis using assms
    by (auto simp: qs_outer_def Let_def qpos_ok_def qdist_def intro!: qsexc_same split: if_splits)
next
  case False
  then have "qs_outer cmp q xs = qs_loop cmp q xs" by (auto simp: qs_outer_def Let_def)
  then show ?thesis using qs_loop_progress[OF assms(1,2)] assms(3) by metis
qed

lemma qs_part_ends:
  "qpos_ok a l q \<Longrightarrow> l \<le> length xs \<Longrightarrow>
     \<exists>q' ys. qs_part cmp st q xs = Some (q', ys) \<and> qpos_ok a l q' \<and> same_outside a l xs ys"
proof (induction "qdist q" arbitrary: st q xs rule: less_induct)
  case less
  have step: "\<exists>q' ys. qs_part cmp st' q1 xs1 = Some (q', ys) \<and> qpos_ok a l q' \<and> same_outside a l xs ys"
    if h: "qpos_ok a l q1 \<and> same_outside a l xs xs1 \<and> (if st' = QDone then q1 = q else qdist q1 < qdist q)" for st' q1 xs1
  proof (cases "st' = QDone")
    case True
    then show ?thesis using h less.prems(1) by (simp add: qs_part.simps)
  next
    case False
    moreover have "l \<le> length xs1" using h less.prems(2) by (simp add: same_outside_def)
    ultimately obtain q' ys where "qs_part cmp st' q1 xs1 = Some (q', ys)" "qpos_ok a l q'" "same_outside a l xs1 ys"
      using less.hyps[of q1 xs1 st'] h by auto
    then show ?thesis using h same_outside_trans by blast
  qed
  show ?case
  proof (cases st)
    case QDone
    then show ?thesis using less.prems by (simp add: qs_part.simps)
  next
    case QOuter
    obtain st' q1 xs1 where r: "qs_outer cmp q xs = (st', q1, xs1)" by (metis prod_cases3)
    show ?thesis using step[OF qs_outer_progress[OF less.prems r]] QOuter r by (simp add: qs_part.simps[of cmp QOuter])
  next
    case QLoop
    obtain st' q1 xs1 where r: "qs_loop cmp q xs = (st', q1, xs1)" by (metis prod_cases3)
    show ?thesis using step[OF qs_loop_progress[OF less.prems r]] QLoop r by (simp add: qs_part.simps[of cmp QLoop])
  qed
qed

lemma qs1_ends:
  "l \<le> length xs \<Longrightarrow> \<exists>ys. qs1 cmp a l xs = Some ys \<and> same_outside a l xs ys"
proof (induction "l - a" arbitrary: a l xs rule: less_induct)
  case less
  show ?case
  proof (cases "l - a \<le> 1")
    case True
    then show ?thesis by (simp add: qs1.simps)
  next
    case False
    let ?q = "\<lparr>q_i = a, q_lp = a + (l - a) div 2, q_hp = a + (l - a) div 2, q_j = l - 1\<rparr>"
    have "qpos_ok a l ?q" using False by (auto simp: qpos_ok_def)
    from qs_part_ends[OF this less.prems] obtain q ys where
      p: "qs_part cmp QOuter ?q xs = Some (q, ys)" "qpos_ok a l q" "same_outside a l xs ys" by blast
    have b: "q_lp q - a < l - a" "l - (q_hp q + 1) < l - a" "q_lp q \<le> l" "a \<le> q_hp q + 1"
      using p(2) False by (auto simp: qpos_ok_def)
    have len: "l \<le> length ys" using p(3) less.prems by (simp add: same_outside_def)
    have L: "\<exists>us. qs1 cmp a (q_lp q) zs = Some us \<and> same_outside a l zs us" if "l \<le> length zs" for zs
      using less.hyps[OF b(1), of zs] same_outside_widen[of a "q_lp q" zs _ a l] that b(3) by fastforce
    have R: "\<exists>us. qs1 cmp (q_hp q + 1) l zs = Some us \<and> same_outside a l zs us" if "l \<le> length zs" for zs
      using less.hyps[OF b(2), of zs] same_outside_widen[of "q_hp q + 1" l zs _ a l] that b(4) by fastforce
    have r: "qs1 cmp a l xs = (if q_lp q - a \<ge> l - q_hp q
             then Option.bind (qs1 cmp (q_hp q + 1) l ys) (qs1 cmp a (q_lp q))
             else Option.bind (qs1 cmp a (q_lp q) ys) (qs1 cmp (q_hp q + 1) l))"
      using False p(1) by (simp add: qs1.simps[of cmp a l xs] Let_def)
    obtain us vs where u: "qs1 cmp (q_hp q + 1) l ys = Some us" "same_outside a l ys us"
      "qs1 cmp a (q_lp q) us = Some vs" "same_outside a l us vs"
      using R[OF len] L len by (metis same_outside_def)
    obtain us' vs' where w: "qs1 cmp a (q_lp q) ys = Some us'" "same_outside a l ys us'"
      "qs1 cmp (q_hp q + 1) l us' = Some vs'" "same_outside a l us' vs'"
      using L[OF len] R len by (metis same_outside_def)
    show ?thesis unfolding r using u w p(3) same_outside_trans by (auto split: if_splits) blast+
  qed
qed


section \<open>Sorting\<close>

text \<open>What \<^verbatim>\<open>qsort\<close> and \<^verbatim>\<open>bsearch\<close> expect of a comparison function: it orders the elements.\<close>

locale comparator =
  fixes cmp :: "'a \<Rightarrow> 'a \<Rightarrow> int"
  assumes cmp_flip: "cmp x y < 0 \<longleftrightarrow> cmp y x > 0"
    and cmp_trans: "cmp x y \<le> 0 \<Longrightarrow> cmp y z \<le> 0 \<Longrightarrow> cmp x z \<le> 0"
begin

lemma cmp_zero: "cmp x y = 0 \<longleftrightarrow> cmp y x = 0"
  using cmp_flip[of x y] cmp_flip[of y x] by linarith

lemma cmp_refl: "cmp x x = 0"
  using cmp_flip[of x x] by linarith

text \<open>Equal elements compare alike.\<close>

lemma cmp_equal_right:
  assumes "cmp y P = 0"
  shows "cmp x y < 0 \<longleftrightarrow> cmp x P < 0" "cmp x y = 0 \<longleftrightarrow> cmp x P = 0" "cmp x y > 0 \<longleftrightarrow> cmp x P > 0"
proof -
  have e: "cmp y P \<le> 0" "cmp P y \<le> 0" using assms cmp_zero[of y P] by auto
  have "cmp x y \<le> 0 \<longleftrightarrow> cmp x P \<le> 0" using cmp_trans[of x y P] cmp_trans[of x P y] e by blast
  moreover have "cmp y x \<le> 0 \<longleftrightarrow> cmp P x \<le> 0" using cmp_trans[of y P x] cmp_trans[of P y x] e by blast
  ultimately show "cmp x y < 0 \<longleftrightarrow> cmp x P < 0" "cmp x y = 0 \<longleftrightarrow> cmp x P = 0" "cmp x y > 0 \<longleftrightarrow> cmp x P > 0"
    using cmp_flip[of x y] cmp_flip[of y x] cmp_flip[of x P] cmp_flip[of P x] by linarith+
qed

lemma cmp_equal_left:
  assumes "cmp y P = 0"
  shows "cmp y x < 0 \<longleftrightarrow> cmp P x < 0" "cmp y x = 0 \<longleftrightarrow> cmp P x = 0" "cmp y x > 0 \<longleftrightarrow> cmp P x > 0"
  using cmp_equal_right[OF assms, of x] cmp_flip[of y x] cmp_flip[of x y] cmp_flip[of P x] cmp_flip[of x P]
    cmp_zero[of y x] cmp_zero[of P x] by auto

definition part_inv :: "'a \<Rightarrow> nat \<Rightarrow> nat \<Rightarrow> qstep \<Rightarrow> qpos \<Rightarrow> 'a list \<Rightarrow> bool" where
  "part_inv P a l st q xs \<longleftrightarrow>
     (\<forall>k. a \<le> k \<and> k < q_i q \<longrightarrow> cmp (xs ! k) P < 0) \<and>
     (\<forall>k. q_lp q \<le> k \<and> k \<le> q_hp q \<longrightarrow> cmp (xs ! k) P = 0) \<and>
     (\<forall>k. q_j q < k \<and> k < l \<longrightarrow> cmp (xs ! k) P > 0) \<and>
     (st = QLoop \<longrightarrow> q_i q < q_lp q \<longrightarrow> cmp (xs ! q_i q) P > 0) \<and>
     (st = QDone \<longrightarrow> q_i q = q_lp q \<and> q_j q = q_hp q)"

lemma qs_loop_inv:
  assumes "qpos_ok a l q" "l \<le> length xs" "part_inv P a l QLoop q xs" "qs_loop cmp q xs = (st, q', ys)"
  shows "part_inv P a l st q' ys"
proof -
  have p: "a \<le> q_i q" "q_i q \<le> q_lp q" "q_lp q \<le> q_hp q" "q_hp q \<le> q_j q" "q_j q < l"
    using assms(1) by (auto simp: qpos_ok_def)
  have hp: "cmp (xs ! q_hp q) P = 0" "cmp (xs ! q_lp q) P = 0" using assms(3) p by (auto simp: part_inv_def)
  let ?c = "cmp (xs ! q_hp q) (xs ! q_j q)"
  have c: "?c = 0 \<Longrightarrow> cmp (xs ! q_j q) P = 0" "?c > 0 \<Longrightarrow> cmp (xs ! q_j q) P < 0" "?c < 0 \<Longrightarrow> cmp (xs ! q_j q) P > 0"
    using cmp_equal_left[OF hp(1), of "xs ! q_j q"] cmp_zero[of P "xs ! q_j q"] cmp_flip[of "xs ! q_j q" P] cmp_flip[of P "xs ! q_j q"] by auto
  consider (eq) "q_j q > q_hp q" "?c = 0" | (gt3) "q_j q > q_hp q" "?c > 0" "q_i q = q_lp q"
    | (gt) "q_j q > q_hp q" "?c > 0" "q_i q \<noteq> q_lp q" | (lt) "q_j q > q_hp q" "?c < 0"
    | (fin) "\<not> q_j q > q_hp q" "q_i q = q_lp q" | (mv) "\<not> q_j q > q_hp q" "q_i q \<noteq> q_lp q" by linarith
  then show ?thesis
  proof cases
    case eq
    have "part_inv P a l QLoop (q\<lparr>q_hp := q_hp q + 1\<rparr>) (qsexc (q_hp q + 1) (q_j q) xs)"
      using assms(2,3) p eq c(1) by (auto simp: part_inv_def qsexc_def nth_list_update)
    then show ?thesis using assms(4) eq by (auto simp: qs_loop_def Let_def)
  next
    case gt3
    have "part_inv P a l QLoop (q\<lparr>q_i := q_lp q + 1, q_lp := q_lp q + 1, q_hp := q_hp q + 1\<rparr>) (qstexc (q_i q) (q_hp q + 1) (q_j q) xs)"
      using assms(2,3) p gt3 c(2) hp by (auto simp: part_inv_def qstexc_def Let_def nth_list_update)
    then show ?thesis using assms(4) gt3 by (auto simp: qs_loop_def Let_def)
  next
    case gt
    have "part_inv P a l QOuter (q\<lparr>q_j := q_j q - 1, q_i := q_i q + 1\<rparr>) (qsexc (q_i q) (q_j q) xs)"
      using assms(2,3) p gt c(2) by (auto simp: part_inv_def qsexc_def nth_list_update less_Suc_eq)
    then show ?thesis using assms(4) gt by (auto simp: qs_loop_def Let_def)
  next
    case lt
    have "part_inv P a l QLoop (q\<lparr>q_j := q_j q - 1\<rparr>) xs"
    proof -
      have "k = q_j q \<or> q_j q < k" if "q_j q - Suc 0 < k" for k using that by linarith
      then show ?thesis using assms(3) p lt c(3) by (fastforce simp: part_inv_def)
    qed
    then show ?thesis using assms(4) lt by (auto simp: qs_loop_def Let_def)
  next
    case fin
    then show ?thesis using assms(3,4) p by (auto simp: qs_loop_def Let_def part_inv_def)
  next
    case mv
    have pv: "cmp (xs ! k) P = 0" if "q_lp q - Suc 0 \<le> k" "k \<le> q_j q - Suc 0" "q_lp q - Suc 0 \<noteq> k" for k
    proof -
      have "q_lp q \<le> k" "k \<le> q_hp q" using that mv p by linarith+
      then show ?thesis using assms(3) by (simp add: part_inv_def)
    qed
    have "part_inv P a l QOuter (q\<lparr>q_lp := q_lp q - 1, q_hp := q_hp q - 1, q_j := q_hp q - 1\<rparr>) (qstexc (q_j q) (q_lp q - 1) (q_i q) xs)"
      using assms(2,3) p mv hp pv by (auto simp: part_inv_def qstexc_def Let_def nth_list_update)
    then show ?thesis using assms(4) mv by (auto simp: qs_loop_def Let_def)
  qed
qed

lemma qs_outer_inv:
  assumes "qpos_ok a l q" "l \<le> length xs" "part_inv P a l QOuter q xs" "qs_outer cmp q xs = (st, q', ys)"
  shows "part_inv P a l st q' ys"
proof -
  have p: "a \<le> q_i q" "q_i q \<le> q_lp q" "q_lp q \<le> q_hp q" "q_hp q \<le> q_j q" "q_j q < l"
    using assms(1) by (auto simp: qpos_ok_def)
  have lp: "cmp (xs ! q_lp q) P = 0" using assms(3) p by (auto simp: part_inv_def)
  let ?c = "cmp (xs ! q_i q) (xs ! q_lp q)"
  note c = cmp_equal_right[OF lp, of "xs ! q_i q"]
  consider (eq) "q_i q < q_lp q" "?c = 0" | (lt) "q_i q < q_lp q" "?c < 0" | (loop) "q_i q < q_lp q \<longrightarrow> ?c > 0" by linarith
  then show ?thesis
  proof cases
    case eq
    have "part_inv P a l QOuter (q\<lparr>q_lp := q_lp q - 1\<rparr>) (qsexc (q_i q) (q_lp q - 1) xs)"
      using assms(2,3) p eq c(2) by (auto simp: part_inv_def qsexc_def nth_list_update)
    then show ?thesis using assms(4) eq by (auto simp: qs_outer_def Let_def)
  next
    case lt
    have "part_inv P a l QOuter (q\<lparr>q_i := q_i q + 1\<rparr>) xs"
      using assms(3) lt c(1) by (auto simp: part_inv_def less_Suc_eq)
    then show ?thesis using assms(4) lt by (auto simp: qs_outer_def Let_def)
  next
    case loop
    have "part_inv P a l QLoop q xs" using assms(3) loop c(3) by (auto simp: part_inv_def)
    moreover have "qs_outer cmp q xs = qs_loop cmp q xs" using loop by (auto simp: qs_outer_def Let_def)
    ultimately show ?thesis using qs_loop_inv[OF assms(1,2)] assms(4) by simp
  qed
qed

lemma qs_part_inv:
  "qpos_ok a l q \<Longrightarrow> l \<le> length xs \<Longrightarrow> part_inv P a l st q xs \<Longrightarrow> qs_part cmp st q xs = Some (q', ys) \<Longrightarrow>
     part_inv P a l QDone q' ys"
proof (induction "qdist q" arbitrary: st q xs rule: less_induct)
  case less
  have step: "part_inv P a l QDone q' ys"
    if h: "qpos_ok a l q1 \<and> same_outside a l xs xs1 \<and> (if st' = QDone then q1 = q else qdist q1 < qdist q)"
      and v: "part_inv P a l st' q1 xs1" and r: "qs_part cmp st' q1 xs1 = Some (q', ys)" for st' q1 xs1
  proof (cases "st' = QDone")
    case True
    then show ?thesis using v r by (simp add: qs_part.simps)
  next
    case False
    have "l \<le> length xs1" using h less.prems(2) by (simp add: same_outside_def)
    then show ?thesis using less.hyps[of q1 xs1 st'] h v r False by auto
  qed
  show ?case
  proof (cases st)
    case QDone
    then show ?thesis using less.prems by (simp add: qs_part.simps)
  next
    case QOuter
    obtain st' q1 xs1 where r: "qs_outer cmp q xs = (st', q1, xs1)" by (metis prod_cases3)
    show ?thesis
      using step[OF qs_outer_progress[OF less.prems(1,2) r] qs_outer_inv[OF less.prems(1,2) _ r]] less.prems(3,4) QOuter r
      by (simp add: qs_part.simps[of cmp QOuter])
  next
    case QLoop
    obtain st' q1 xs1 where r: "qs_loop cmp q xs = (st', q1, xs1)" by (metis prod_cases3)
    show ?thesis
      using step[OF qs_loop_progress[OF less.prems(1,2) r] qs_loop_inv[OF less.prems(1,2) _ r]] less.prems(3,4) QLoop r
      by (simp add: qs_part.simps[of cmp QLoop])
  qed
qed

definition sorted_range :: "nat \<Rightarrow> nat \<Rightarrow> 'a list \<Rightarrow> bool" where
  "sorted_range a l xs \<longleftrightarrow> (\<forall>k m. a \<le> k \<and> k < m \<and> m < l \<longrightarrow> cmp (xs ! k) (xs ! m) \<le> 0)"

lemma sorted_range_whole: "sorted_range 0 (length xs) xs \<Longrightarrow> sorted_wrt (\<lambda>x y. cmp x y \<le> 0) xs"
  by (simp add: sorted_range_def sorted_wrt_iff_nth_less)

end

text \<open>The elements of a range stay in it.\<close>

lemma same_outside_range:
  assumes s: "same_outside a l xs ys" and b: "l \<le> length xs" and q: "\<And>k. a \<le> k \<Longrightarrow> k < l \<Longrightarrow> Q (xs ! k)" and k: "a \<le> k" "k < l"
  shows "Q (ys ! k)"
proof -
  have len: "length ys = length xs" using s by (simp add: same_outside_def)
  have e: "take a ys = take a xs" "drop l ys = drop l xs"
    using s b k by (auto simp: same_outside_def intro!: nth_equalityI)
  have sp: "mset zs = mset (take a zs) + mset (take (l - a) (drop a zs)) + mset (drop l zs)" for zs :: "'a list"
  proof -
    have "zs = take a zs @ take (l - a) (drop a zs) @ drop l zs"
      using k by (metis append_take_drop_id drop_drop le_add_diff_inverse2 less_imp_le order_le_less_trans)
    then show ?thesis by (metis mset_append union_assoc)
  qed
  have "mset (take (l - a) (drop a ys)) = mset (take (l - a) (drop a xs))"
    using sp[of xs] sp[of ys] s e by (simp add: same_outside_def)
  moreover have "ys ! k \<in> set (take (l - a) (drop a ys))"
  proof -
    have "take (l - a) (drop a ys) ! (k - a) = ys ! k" "k - a < length (take (l - a) (drop a ys))" using k b len by auto
    then show ?thesis by (metis nth_mem)
  qed
  ultimately have "ys ! k \<in> set (take (l - a) (drop a xs))" by (metis set_mset_mset)
  then obtain m where m: "m < length (take (l - a) (drop a xs))" "ys ! k = take (l - a) (drop a xs) ! m" by (metis in_set_conv_nth)
  then have "ys ! k = xs ! (a + m)" "a + m < l" using b by auto
  then show ?thesis using q[of "a + m"] by simp
qed

context comparator
begin

lemma sorted_range_cong: "sorted_range a l xs \<Longrightarrow> (\<And>k. a \<le> k \<Longrightarrow> k < l \<Longrightarrow> ys ! k = xs ! k) \<Longrightarrow> sorted_range a l ys"
  by (simp add: sorted_range_def)

text \<open>Two sorted parts around the pivots make a sorted range.\<close>

lemma sorted_range_join:
  assumes s: "sorted_range a lp xs" "sorted_range (hp + 1) l xs" and o: "lp \<le> hp"
    and lt: "\<And>k. a \<le> k \<Longrightarrow> k < lp \<Longrightarrow> cmp (xs ! k) P < 0" and eq: "\<And>k. lp \<le> k \<Longrightarrow> k \<le> hp \<Longrightarrow> cmp (xs ! k) P = 0"
    and gt: "\<And>k. hp < k \<Longrightarrow> k < l \<Longrightarrow> cmp (xs ! k) P > 0"
  shows "sorted_range a l xs"
  unfolding sorted_range_def
proof (intro allI impI)
  fix k m
  assume km: "a \<le> k \<and> k < m \<and> m < l"
  have le: "cmp (xs ! k) P \<le> 0" if "k \<le> hp" using lt[of k] eq[of k] km that by (cases "k < lp") auto
  have ge: "cmp P (xs ! m) \<le> 0" if "lp \<le> m"
    using eq[of m] gt[of m] km that cmp_zero[of P "xs ! m"] cmp_flip[of P "xs ! m"] by (cases "m \<le> hp") auto
  consider "m < lp" | "hp < k" | "k \<le> hp" "lp \<le> m" by linarith
  then show "cmp (xs ! k) (xs ! m) \<le> 0"
  proof cases
    case 3
    then show ?thesis using cmp_trans[OF le ge] by simp
  qed (use s km in \<open>auto simp: sorted_range_def\<close>)
qed

lemma qs1_sorts: "l \<le> length xs \<Longrightarrow> qs1 cmp a l xs = Some ys \<Longrightarrow> sorted_range a l ys"
proof (induction "l - a" arbitrary: a l xs ys rule: less_induct)
  case less
  show ?case
  proof (cases "l - a \<le> 1")
    case True
    then show ?thesis by (auto simp: sorted_range_def)
  next
    case False
    let ?q = "\<lparr>q_i = a, q_lp = a + (l - a) div 2, q_hp = a + (l - a) div 2, q_j = l - 1\<rparr>"
    let ?P = "xs ! (a + (l - a) div 2)"
    have ok: "qpos_ok a l ?q" using False by (auto simp: qpos_ok_def)
    from qs_part_ends[OF this less.prems(1)] obtain q zs where
      p: "qs_part cmp QOuter ?q xs = Some (q, zs)" "qpos_ok a l q" "same_outside a l xs zs" by blast
    have "part_inv ?P a l QOuter ?q xs" by (auto simp: part_inv_def cmp_refl order_antisym)
    from qs_part_inv[OF ok less.prems(1) this p(1)] have inv: "part_inv ?P a l QDone q zs" .
    let ?lp = "q_lp q" and ?hp = "q_hp q"
    have b: "?lp - a < l - a" "l - (?hp + 1) < l - a" "?lp \<le> ?hp" "?hp < l" "a \<le> ?lp"
      using p(2) False by (auto simp: qpos_ok_def)
    have len: "l \<le> length zs" using p(3) less.prems by (simp add: same_outside_def)
    have v: "cmp (zs ! k) ?P < 0" if "a \<le> k" "k < ?lp" for k using inv that by (auto simp: part_inv_def)
    have e: "cmp (zs ! k) ?P = 0" if "?lp \<le> k" "k \<le> ?hp" for k using inv that by (auto simp: part_inv_def)
    have g: "cmp (zs ! k) ?P > 0" if "?hp + 1 \<le> k" "k < l" for k using inv that by (auto simp: part_inv_def)
    have fin: "sorted_range a l vs"
      if A: "qs1 cmp a ?lp ws = Some ws'" "l \<le> length ws" and B: "qs1 cmp (?hp + 1) l us = Some us'" "l \<le> length us"
        and vs: "\<And>k. a \<le> k \<Longrightarrow> k < ?lp \<Longrightarrow> vs ! k = ws' ! k" "\<And>k. ?hp + 1 \<le> k \<Longrightarrow> k < l \<Longrightarrow> vs ! k = us' ! k"
          "\<And>k. ?lp \<le> k \<Longrightarrow> k \<le> ?hp \<Longrightarrow> vs ! k = zs ! k"
        and w: "\<And>k. a \<le> k \<Longrightarrow> k < ?lp \<Longrightarrow> ws ! k = zs ! k" and u: "\<And>k. ?hp + 1 \<le> k \<Longrightarrow> k < l \<Longrightarrow> us ! k = zs ! k"
      for ws ws' us us' vs
    proof (rule sorted_range_join[where lp = ?lp and hp = ?hp and P = ?P])
      have sa: "same_outside a ?lp ws ws'" "same_outside (?hp + 1) l us us'"
        using qs1_ends[of ?lp ws cmp a] qs1_ends[of l us cmp "?hp + 1"] A B b by auto
      show "sorted_range a ?lp vs" using less.hyps[OF b(1) _ A(1)] A(2) b vs(1) by (auto intro: sorted_range_cong)
      show "sorted_range (?hp + 1) l vs" using less.hyps[OF b(2) _ B(1)] B(2) vs(2) by (auto intro: sorted_range_cong)
      show "cmp (vs ! k) ?P < 0" if "a \<le> k" "k < ?lp" for k
        using same_outside_range[OF sa(1), of "\<lambda>x. cmp x ?P < 0" k] that A(2) b v w vs(1) by auto
      show "cmp (vs ! k) ?P > 0" if "?hp < k" "k < l" for k
        using same_outside_range[OF sa(2), of "\<lambda>x. cmp x ?P > 0" k] that B(2) g u vs(2) by auto
    qed (use b e vs(3) in auto)
    have r: "(if ?lp - a \<ge> l - ?hp
             then Option.bind (qs1 cmp (?hp + 1) l zs) (qs1 cmp a ?lp)
             else Option.bind (qs1 cmp a ?lp zs) (qs1 cmp (?hp + 1) l)) = Some ys"
      using False p(1) less.prems(2) by (simp add: qs1.simps[of cmp a l xs] Let_def)
    show ?thesis
    proof (cases "?lp - a \<ge> l - ?hp")
      case True
      then obtain us where u: "qs1 cmp (?hp + 1) l zs = Some us" "qs1 cmp a ?lp us = Some ys"
        using r by (auto simp: bind_eq_Some_conv)
      have so: "same_outside (?hp + 1) l zs us" "same_outside a ?lp us ys"
        using qs1_ends[of l zs cmp "?hp + 1"] qs1_ends[of ?lp us cmp a] u len b by (auto simp: same_outside_def)
      have "l \<le> length us" using so len by (simp add: same_outside_def)
      from fin[OF u(2) this u(1) len] show ?thesis using so b by (auto simp: same_outside_def)
    next
      case False
      then obtain us where u: "qs1 cmp a ?lp zs = Some us" "qs1 cmp (?hp + 1) l us = Some ys"
        using r by (auto simp: bind_eq_Some_conv)
      have so: "same_outside a ?lp zs us" "same_outside (?hp + 1) l us ys"
        using qs1_ends[of ?lp zs cmp a] qs1_ends[of l us cmp "?hp + 1"] u len b by (auto simp: same_outside_def)
      have "l \<le> length us" using so len by (simp add: same_outside_def)
      from fin[OF u(1) len u(2) this] show ?thesis using so b by (auto simp: same_outside_def)
    qed
  qed
qed

end


section \<open>Properties\<close>

text \<open>C30: \<^verbatim>\<open>qsort\<close> always ends and permutes the table, whatever the comparison function answers.\<close>

theorem qsort_permutes:
  "\<exists>ys. qsort cmp xs = Some ys \<and> mset ys = mset xs"
  using qs1_ends[of "length xs" xs cmp 0] by (auto simp: qsort_def same_outside_def)

text \<open>C26: With a comparison function that orders the elements \<^verbatim>\<open>qsort\<close> leaves the same elements in
  ascending order.\<close>

theorem qsort_sorts:
  assumes "comparator cmp"
  shows "\<exists>ys. qsort cmp xs = Some ys \<and> mset ys = mset xs \<and> sorted_wrt (\<lambda>x y. cmp x y \<le> 0) ys"
proof -
  obtain ys where ys: "qs1 cmp 0 (length xs) xs = Some ys" "same_outside 0 (length xs) xs ys"
    using qs1_ends[of "length xs" xs cmp 0] by auto
  have "comparator.sorted_range cmp 0 (length ys) ys"
    using comparator.qs1_sorts[OF assms _ ys(1)] ys(2) by (simp add: same_outside_def)
  from comparator.sorted_range_whole[OF assms this] show ?thesis using ys by (auto simp: qsort_def same_outside_def)
qed

theorem qsort_sorts_witness:
  "\<exists>ys. qsort (\<lambda>x y :: int. x - y) [3, 1, 2, 1] = Some ys \<and> mset ys = {#1, 1, 2, 3#} \<and> sorted ys"
proof -
  have "comparator (\<lambda>x y :: int. x - y)" by unfold_locales auto
  from qsort_sorts[OF this, of "[3, 1, 2, 1]"] show ?thesis by (auto simp: add_mset_commute)
qed

end
