(* ===== verification/Str.thy ===== *)
theory Str
  imports Qsort
begin

text \<open>
  The string and memory functions of \<^verbatim>\<open>lib/libc/port/gen\<close>. Memory is a list of bytes and a pointer an
  index into it, so that buffers may overlap; a read or write past its end gives \<open>None\<close>. A \<^verbatim>\<open>char\<close> is
  signed; \<^verbatim>\<open>size_t\<close> is \<^typ>\<open>u32\<close> and an \<^verbatim>\<open>int\<close> count an \<^typ>\<open>int\<close> that wraps at 32 bits.
\<close>

type_synonym mem = "u8 list"

section \<open>Bytes of memory\<close>

definition rd :: "mem \<Rightarrow> nat \<Rightarrow> u8 option" where
  "rd m p = (if p < length m then Some (m ! p) else None)"

definition wr :: "mem \<Rightarrow> nat \<Rightarrow> u8 \<Rightarrow> mem option" where
  "wr m p c = (if p < length m then Some (m[p := c]) else None)"

lemma rd_Some_less [dest]: "rd m p = Some c \<Longrightarrow> p < length m"
  by (simp add: rd_def split: if_splits)

lemma wr_length [dest]: "wr m p c = Some m' \<Longrightarrow> p < length m \<and> length m' = length m"
  by (auto simp: wr_def split: if_splits)

lemma wr_Some [simp]: "p < length m \<Longrightarrow> wr m p c = Some (m[p := c])"
  by (simp add: wr_def)

lemma rd_update [simp]: "rd (m[p := c]) q = (if q = p \<and> p < length m then Some c else rd m q)"
  by (auto simp: rd_def nth_list_update)

section \<open>The code\<close>

subsection \<open>Lengths and comparisons\<close>

function strlen_loop :: "mem \<Rightarrow> nat \<Rightarrow> nat option" where
  "strlen_loop m s =
     (case rd m s of None \<Rightarrow> None | Some c \<Rightarrow> if c \<noteq> 0 then strlen_loop m (s + 1) else Some (s + 1))"
  by pat_completeness auto
termination by (relation "measure (\<lambda>(m, s). length m - s)") auto

definition strlen :: "mem \<Rightarrow> nat \<Rightarrow> nat option" where
  "strlen m s = (case strlen_loop m s of None \<Rightarrow> None | Some e \<Rightarrow> Some (e - (s + 1)))"

function strcmp_loop :: "mem \<Rightarrow> nat \<Rightarrow> nat \<Rightarrow> int option" where
  "strcmp_loop m s1 s2 =
     (case (rd m s1, rd m s2) of
        (Some c, Some d) \<Rightarrow>
          if c = d then if c = 0 then Some 0 else strcmp_loop m (s1 + 1) (s2 + 1)
          else Some (sint c - sint d)
      | _ \<Rightarrow> None)"
  by pat_completeness auto
termination by (relation "measure (\<lambda>(m, s1, s2). length m - s1)") (auto dest!: rd_Some_less[OF sym])

definition strcmp :: "mem \<Rightarrow> nat \<Rightarrow> nat \<Rightarrow> int option" where
  "strcmp m s1 s2 = (if s1 = s2 then Some 0 else strcmp_loop m s1 s2)"

function strncmp_loop :: "mem \<Rightarrow> nat \<Rightarrow> nat \<Rightarrow> u32 \<Rightarrow> int option" where
  "strncmp_loop m s1 s2 n =
     (if n - 1 > 0 then
        (case (rd m s1, rd m s2) of
           (Some c, Some d) \<Rightarrow>
             if c = d then if c = 0 then Some 0 else strncmp_loop m (s1 + 1) (s2 + 1) (n - 1)
             else Some (sint c - sint d)
         | _ \<Rightarrow> None)
      else Some 0)"
  by pat_completeness auto
termination by (relation "measure (\<lambda>(m, s1, s2, n). length m - s1)") (auto dest!: rd_Some_less[OF sym])

definition strncmp :: "mem \<Rightarrow> nat \<Rightarrow> nat \<Rightarrow> u32 \<Rightarrow> int option" where
  "strncmp m s1 s2 n = (if s1 = s2 then Some 0 else strncmp_loop m s1 s2 (n + 1))"

function memcmp_loop :: "mem \<Rightarrow> nat \<Rightarrow> nat \<Rightarrow> int \<Rightarrow> int option" where
  "memcmp_loop m s1 s2 n =
     (if s32 (n - 1) \<ge> 0 then
        (case (rd m s1, rd m s2) of
           (Some c, Some d) \<Rightarrow>
             if sint c - sint d \<noteq> 0 then Some (sint c - sint d)
             else memcmp_loop m (s1 + 1) (s2 + 1) (s32 (n - 1))
         | _ \<Rightarrow> None)
      else Some 0)"
  by pat_completeness auto
termination by (relation "measure (\<lambda>(m, s1, s2, n). length m - s1)") (auto dest!: rd_Some_less[OF sym])

definition memcmp :: "mem \<Rightarrow> nat \<Rightarrow> nat \<Rightarrow> int \<Rightarrow> int option" where
  "memcmp m s1 s2 n = (if s1 \<noteq> s2 then memcmp_loop m s1 s2 n else Some 0)"

subsection \<open>Searches\<close>

text \<open>The outer option tells whether the reads stay inside memory, the inner one is the pointer.\<close>

function strchr :: "mem \<Rightarrow> nat \<Rightarrow> u8 \<Rightarrow> nat option option" where
  "strchr m sp c =
     (case rd m sp of
        None \<Rightarrow> None
      | Some d \<Rightarrow> if d = c then Some (Some sp) else if d \<noteq> 0 then strchr m (sp + 1) c else Some None)"
  by pat_completeness auto
termination by (relation "measure (\<lambda>(m, sp, c). length m - sp)") auto

function strrchr_loop :: "mem \<Rightarrow> nat \<Rightarrow> u8 \<Rightarrow> nat option \<Rightarrow> nat option option" where
  "strrchr_loop m sp c r =
     (case rd m sp of
        None \<Rightarrow> None
      | Some d \<Rightarrow>
          (let r' = (if d = c then Some sp else r)
           in if d \<noteq> 0 then strrchr_loop m (sp + 1) c r' else Some r'))"
  by pat_completeness auto
termination by (relation "measure (\<lambda>(m, sp, c, r). length m - sp)") auto

definition strrchr :: "mem \<Rightarrow> nat \<Rightarrow> u8 \<Rightarrow> nat option option" where
  "strrchr m sp c = strrchr_loop m sp c None"

text \<open>The inner loop of \<^verbatim>\<open>strspn\<close>, \<^verbatim>\<open>strcspn\<close> and \<^verbatim>\<open>strpbrk\<close>: the character \<^verbatim>\<open>*p\<close> it stops at, given \<^verbatim>\<open>*q\<close>.\<close>

function set_scan :: "mem \<Rightarrow> nat \<Rightarrow> u8 \<Rightarrow> u8 option" where
  "set_scan m p c =
     (case rd m p of
        None \<Rightarrow> None
      | Some d \<Rightarrow> if d \<noteq> 0 \<and> d \<noteq> c then set_scan m (p + 1) c else Some d)"
  by pat_completeness auto
termination by (relation "measure (\<lambda>(m, p, c). length m - p)") auto

function strspn_loop :: "mem \<Rightarrow> nat \<Rightarrow> nat \<Rightarrow> nat option" where
  "strspn_loop m q charset =
     (case rd m q of
        None \<Rightarrow> None
      | Some c \<Rightarrow>
          if c \<noteq> 0 then
            (case set_scan m charset c of
               None \<Rightarrow> None
             | Some d \<Rightarrow> if d = 0 then Some q else strspn_loop m (q + 1) charset)
          else Some q)"
  by pat_completeness auto
termination by (relation "measure (\<lambda>(m, q, cs). length m - q)") auto

definition strspn :: "mem \<Rightarrow> nat \<Rightarrow> nat \<Rightarrow> nat option" where
  "strspn m s charset = (case strspn_loop m s charset of None \<Rightarrow> None | Some q \<Rightarrow> Some (q - s))"

function strcspn_loop :: "mem \<Rightarrow> nat \<Rightarrow> nat \<Rightarrow> nat option" where
  "strcspn_loop m q charset =
     (case rd m q of
        None \<Rightarrow> None
      | Some c \<Rightarrow>
          if c \<noteq> 0 then
            (case set_scan m charset c of
               None \<Rightarrow> None
             | Some d \<Rightarrow> if d \<noteq> 0 then Some q else strcspn_loop m (q + 1) charset)
          else Some q)"
  by pat_completeness auto
termination by (relation "measure (\<lambda>(m, q, cs). length m - q)") auto

definition strcspn :: "mem \<Rightarrow> nat \<Rightarrow> nat \<Rightarrow> nat option" where
  "strcspn m s charset = (case strcspn_loop m s charset of None \<Rightarrow> None | Some q \<Rightarrow> Some (q - s))"

function strpbrk :: "mem \<Rightarrow> nat \<Rightarrow> nat \<Rightarrow> nat option option" where
  "strpbrk m s brkset =
     (case rd m s of
        None \<Rightarrow> None
      | Some c \<Rightarrow>
          (case set_scan m brkset c of
             None \<Rightarrow> None
           | Some d \<Rightarrow>
               if d \<noteq> 0 then Some (Some s)
               else if c \<noteq> 0 then strpbrk m (s + 1) brkset else Some None))"
  by pat_completeness auto
termination by (relation "measure (\<lambda>(m, q, cs). length m - q)") auto

function memchr :: "mem \<Rightarrow> nat \<Rightarrow> u8 \<Rightarrow> int \<Rightarrow> nat option option" where
  "memchr m sp c n =
     (if s32 (n - 1) \<ge> 0 then
        (case rd m sp of
           None \<Rightarrow> None
         | Some d \<Rightarrow> if d = c then Some (Some sp) else memchr m (sp + 1) c (s32 (n - 1)))
      else Some None)"
  by pat_completeness auto
termination by (relation "measure (\<lambda>(m, sp, c, n). length m - sp)") auto

subsection \<open>Copies\<close>

function strcpy_loop :: "mem \<Rightarrow> nat \<Rightarrow> nat \<Rightarrow> mem option" where
  "strcpy_loop m s1 s2 =
     (case rd m s2 of
        None \<Rightarrow> None
      | Some c \<Rightarrow>
          (case wr m s1 c of
             None \<Rightarrow> None
           | Some m' \<Rightarrow> if c \<noteq> 0 then strcpy_loop m' (s1 + 1) (s2 + 1) else Some m'))"
  by pat_completeness auto
termination by (relation "measure (\<lambda>(m, s1, s2). length m - s1)") (auto dest!: wr_length)

definition strcpy :: "mem \<Rightarrow> nat \<Rightarrow> nat \<Rightarrow> (nat \<times> mem) option" where
  "strcpy m s1 s2 = (case strcpy_loop m s1 s2 of None \<Rightarrow> None | Some m' \<Rightarrow> Some (s1, m'))"

definition strcat :: "mem \<Rightarrow> nat \<Rightarrow> nat \<Rightarrow> (nat \<times> mem) option" where
  "strcat m s1 s2 =
     (case strlen_loop m s1 of
        None \<Rightarrow> None
      | Some e \<Rightarrow> (case strcpy_loop m (e - 1) s2 of None \<Rightarrow> None | Some m' \<Rightarrow> Some (s1, m')))"

function strncat_loop :: "mem \<Rightarrow> nat \<Rightarrow> nat \<Rightarrow> u32 \<Rightarrow> mem option" where
  "strncat_loop m s1 s2 n =
     (case rd m s2 of
        None \<Rightarrow> None
      | Some c \<Rightarrow>
          (case wr m s1 c of
             None \<Rightarrow> None
           | Some m' \<Rightarrow>
               if c \<noteq> 0 then
                 if n - 1 = 0 then wr m' s1 0 else strncat_loop m' (s1 + 1) (s2 + 1) (n - 1)
               else Some m'))"
  by pat_completeness auto
termination by (relation "measure (\<lambda>(m, s1, s2, n). length m - s1)") (auto dest!: wr_length)

definition strncat :: "mem \<Rightarrow> nat \<Rightarrow> nat \<Rightarrow> u32 \<Rightarrow> (nat \<times> mem) option" where
  "strncat m s1 s2 n =
     (case strlen_loop m s1 of
        None \<Rightarrow> None
      | Some e \<Rightarrow> (case strncat_loop m (e - 1) s2 (n + 1) of None \<Rightarrow> None | Some m' \<Rightarrow> Some (s1, m')))"

function strncpy_copy :: "mem \<Rightarrow> nat \<Rightarrow> nat \<Rightarrow> u32 \<Rightarrow> (mem \<times> nat \<times> u32) option" where
  "strncpy_copy m s1 s2 n =
     (if n - 1 > 0 then
        (case rd m s2 of
           None \<Rightarrow> None
         | Some c \<Rightarrow>
             (case wr m s1 c of
                None \<Rightarrow> None
              | Some m' \<Rightarrow>
                  if c \<noteq> 0 then strncpy_copy m' (s1 + 1) (s2 + 1) (n - 1) else Some (m', s1 + 1, n - 1)))
      else Some (m, s1, n - 1))"
  by pat_completeness auto
termination by (relation "measure (\<lambda>(m, s1, s2, n). length m - s1)") (auto dest!: wr_length)

function strncpy_pad :: "mem \<Rightarrow> nat \<Rightarrow> u32 \<Rightarrow> mem option" where
  "strncpy_pad m s1 n =
     (if n - 1 > 0 then
        (case wr m s1 0 of None \<Rightarrow> None | Some m' \<Rightarrow> strncpy_pad m' (s1 + 1) (n - 1))
      else Some m)"
  by pat_completeness auto
termination by (relation "measure (\<lambda>(m, s1, n). length m - s1)") (auto dest!: wr_length)

definition strncpy :: "mem \<Rightarrow> nat \<Rightarrow> nat \<Rightarrow> u32 \<Rightarrow> (nat \<times> mem) option" where
  "strncpy m s1 s2 n =
     (case strncpy_copy m s1 s2 (n + 1) of
        None \<Rightarrow> None
      | Some (m', p, n') \<Rightarrow>
          if n' > 0 then (case strncpy_pad m' p n' of None \<Rightarrow> None | Some m'' \<Rightarrow> Some (s1, m''))
          else Some (s1, m'))"

function memcpy_loop :: "mem \<Rightarrow> nat \<Rightarrow> nat \<Rightarrow> int \<Rightarrow> mem option" where
  "memcpy_loop m s1 s2 n =
     (if s32 (n - 1) \<ge> 0 then
        (case rd m s2 of
           None \<Rightarrow> None
         | Some c \<Rightarrow>
             (case wr m s1 c of None \<Rightarrow> None | Some m' \<Rightarrow> memcpy_loop m' (s1 + 1) (s2 + 1) (s32 (n - 1))))
      else Some m)"
  by pat_completeness auto
termination by (relation "measure (\<lambda>(m, s1, s2, n). length m - s1)") (auto dest!: wr_length)

definition memcpy :: "mem \<Rightarrow> nat \<Rightarrow> nat \<Rightarrow> int \<Rightarrow> (nat \<times> mem) option" where
  "memcpy m s1 s2 n = (case memcpy_loop m s1 s2 n of None \<Rightarrow> None | Some m' \<Rightarrow> Some (s1, m'))"

function memccpy :: "mem \<Rightarrow> nat \<Rightarrow> nat \<Rightarrow> int \<Rightarrow> int \<Rightarrow> (nat option \<times> mem) option" where
  "memccpy m s1 s2 c n =
     (if s32 (n - 1) \<ge> 0 then
        (case rd m s2 of
           None \<Rightarrow> None
         | Some d \<Rightarrow>
             (case wr m s1 d of
                None \<Rightarrow> None
              | Some m' \<Rightarrow>
                  if sint d = c then Some (Some (s1 + 1), m')
                  else memccpy m' (s1 + 1) (s2 + 1) c (s32 (n - 1))))
      else Some (None, m))"
  by pat_completeness auto
termination by (relation "measure (\<lambda>(m, s1, s2, c, n). length m - s1)") (auto dest!: wr_length)

function memset_loop :: "mem \<Rightarrow> nat \<Rightarrow> u8 \<Rightarrow> int \<Rightarrow> mem option" where
  "memset_loop m sp c n =
     (if s32 (n - 1) \<ge> 0 then
        (case wr m sp c of None \<Rightarrow> None | Some m' \<Rightarrow> memset_loop m' (sp + 1) c (s32 (n - 1)))
      else Some m)"
  by pat_completeness auto
termination by (relation "measure (\<lambda>(m, sp, c, n). length m - sp)") (auto dest!: wr_length)

definition memset :: "mem \<Rightarrow> nat \<Rightarrow> u8 \<Rightarrow> int \<Rightarrow> (nat \<times> mem) option" where
  "memset m sp c n = (case memset_loop m sp c n of None \<Rightarrow> None | Some m' \<Rightarrow> Some (sp, m'))"

subsection \<open>Tokens\<close>

text \<open>The static \<^verbatim>\<open>savept\<close> is an argument and part of the result.\<close>

definition strtok :: "mem \<Rightarrow> ptr \<Rightarrow> ptr \<Rightarrow> nat \<Rightarrow> (ptr \<times> ptr \<times> mem) option" where
  "strtok m savept string sepset =
     (case (if string = None then savept else string) of
        None \<Rightarrow> Some (None, savept, m)
      | Some p \<Rightarrow>
          (case strspn m p sepset of
             None \<Rightarrow> None
           | Some k \<Rightarrow>
               let q = p + k
               in case rd m q of
                    None \<Rightarrow> None
                  | Some c \<Rightarrow>
                      if c = 0 then Some (None, savept, m)
                      else (case strpbrk m q sepset of
                              None \<Rightarrow> None
                            | Some None \<Rightarrow> Some (Some q, None, m)
                            | Some (Some r) \<Rightarrow>
                                (case wr m r 0 of
                                   None \<Rightarrow> None
                                 | Some m' \<Rightarrow> Some (Some q, Some (r + 1), m')))))"

declare strlen_loop.simps [simp del] strcmp_loop.simps [simp del] strncmp_loop.simps [simp del]
  memcmp_loop.simps [simp del] strchr.simps [simp del] strrchr_loop.simps [simp del] set_scan.simps [simp del]
  strspn_loop.simps [simp del] strcspn_loop.simps [simp del] strpbrk.simps [simp del] memchr.simps [simp del]
  strcpy_loop.simps [simp del] strncat_loop.simps [simp del] strncpy_copy.simps [simp del]
  strncpy_pad.simps [simp del] memcpy_loop.simps [simp del] memccpy.simps [simp del] memset_loop.simps [simp del]


section \<open>Strings in memory\<close>

primrec cstr :: "mem \<Rightarrow> nat \<Rightarrow> u8 list \<Rightarrow> bool" where
  "cstr m p [] \<longleftrightarrow> rd m p = Some 0"
| "cstr m p (c # s) \<longleftrightarrow> rd m p = Some c \<and> c \<noteq> 0 \<and> cstr m (p + 1) s"

lemma cstr_bound: "cstr m p s \<Longrightarrow> p + length s < length m"
  by (induction s arbitrary: p) fastforce+

lemma cstr_nonzero: "cstr m p s \<Longrightarrow> 0 \<notin> set s"
  by (induction s arbitrary: p) auto

lemma cstr_frame: "k < p \<or> p + length s < k \<Longrightarrow> cstr (m[k := c]) p s = cstr m p s"
  by (induction s arbitrary: p) auto

lemma cstr_tail: "cstr m p (s @ t) \<Longrightarrow> cstr m (p + length s) t"
proof (induction s arbitrary: p)
  case (Cons c s)
  then show ?case using Cons.IH[of "p + 1"] by simp
qed simp

lemma cstr_cut: "cstr m p (s @ d # t) \<Longrightarrow> cstr (m[p + length s := 0]) p s"
proof (induction s arbitrary: p)
  case (Cons c s)
  then show ?case using Cons.IH[of "p + 1"] by (auto simp: add.commute add.left_commute)
qed auto

lemma cstr_unique: "cstr m p s \<Longrightarrow> cstr m p t \<Longrightarrow> s = t"
proof (induction s arbitrary: p t)
  case Nil
  then show ?case by (cases t) auto
next
  case (Cons c s)
  then show ?case by (cases t) auto
qed

lemma cstr_splice: "0 \<notin> set s \<Longrightarrow> p = length a \<Longrightarrow> cstr (a @ s @ 0 # r) p s"
proof (induction s arbitrary: a p)
  case (Cons c s)
  from Cons.IH[of "p + 1" "a @ [c]"] show ?case using Cons.prems by (simp add: rd_def nth_append)
qed (simp add: rd_def nth_append)

subsection \<open>Scans\<close>

lemma strlen_loop_cstr: "cstr m p s \<Longrightarrow> strlen_loop m p = Some (p + length s + 1)"
  by (induction s arbitrary: p) (simp_all add: strlen_loop.simps)

lemma strlen_cstr: "cstr m p s \<Longrightarrow> strlen m p = Some (length s)"
  by (simp add: strlen_def strlen_loop_cstr)

lemma set_scan_cstr: "cstr m p t \<Longrightarrow> set_scan m p c = Some (if c \<in> set t then c else 0)"
  by (induction t arbitrary: p) (auto simp: set_scan.simps)

lemma strspn_loop_cstr:
  "cstr m p s \<Longrightarrow> cstr m b t \<Longrightarrow> strspn_loop m p b = Some (p + length (takeWhile (\<lambda>c. c \<in> set t) s))"
  by (induction s arbitrary: p) (auto simp: strspn_loop.simps set_scan_cstr)

lemma strcspn_loop_cstr:
  "cstr m p s \<Longrightarrow> cstr m b t \<Longrightarrow> strcspn_loop m p b = Some (p + length (takeWhile (\<lambda>c. c \<notin> set t) s))"
  by (induction s arbitrary: p) (auto simp: strcspn_loop.simps set_scan_cstr)

lemma strpbrk_cstr:
  "cstr m p s \<Longrightarrow> cstr m b t \<Longrightarrow>
     strpbrk m p b = Some (if \<exists>c \<in> set s. c \<in> set t then Some (p + length (takeWhile (\<lambda>c. c \<notin> set t) s)) else None)"
proof (induction s arbitrary: p)
  case Nil
  then show ?case using cstr_nonzero[of m b t] by (simp add: strpbrk.simps[of m p] set_scan_cstr)
next
  case (Cons c s)
  then show ?case by (auto simp: strpbrk.simps[of m p] set_scan_cstr)
qed

lemma strchr_cstr:
  "cstr m p s \<Longrightarrow>
     strchr m p c = Some (if c \<in> set s \<or> c = 0 then Some (p + length (takeWhile (\<lambda>d. d \<noteq> c) s)) else None)"
  by (induction s arbitrary: p) (auto simp: strchr.simps)

lemma strrchr_loop_cstr:
  "cstr m p s \<Longrightarrow> c \<noteq> 0 \<Longrightarrow>
     strrchr_loop m p c r =
       Some (if c \<in> set s then Some (p + (length s - 1 - length (takeWhile (\<lambda>d. d \<noteq> c) (rev s)))) else r)"
proof (induction s arbitrary: p r)
  case (Cons d s)
  have l: "length (takeWhile (\<lambda>d. d \<noteq> c) (rev s)) \<le> length s - 1" if "c \<in> set s"
  proof -
    have "length (takeWhile (\<lambda>d. d \<noteq> c) (rev s)) < length (rev s)"
      using that by (metis (mono_tags, lifting) length_takeWhile_le nat_less_le set_rev takeWhile_eq_all_conv takeWhile_eq_take
          take_all_iff order_refl)
    then show ?thesis by simp
  qed
  have t: "takeWhile (\<lambda>d. d \<noteq> c) (rev s @ [d]) =
      (if c \<in> set s then takeWhile (\<lambda>d. d \<noteq> c) (rev s) else rev s @ takeWhile (\<lambda>d. d \<noteq> c) [d])"
    by (auto simp: takeWhile_append)
  show ?case
  proof (cases "c \<in> set s")
    case True
    then have n: "length s > 0" by (cases s) auto
    have e: "p + 1 + (length s - 1 - k) = p + (length (d # s) - 1 - k)" if "k \<le> length s - 1" for k
      unfolding list.size using that n by arith
    show ?thesis using Cons.prems t True Cons.IH[of "p + 1"] e[OF l[OF True]]
      by (subst strrchr_loop.simps) (simp add: Let_def)
  next
    case False
    then show ?thesis using Cons t by (subst strrchr_loop.simps) (auto simp: Let_def)
  qed
qed (simp add: strrchr_loop.simps)

subsection \<open>Order\<close>

text \<open>The difference of the first characters that differ, the terminator counting as a 0.\<close>

fun str_diff :: "u8 list \<Rightarrow> u8 list \<Rightarrow> int" where
  "str_diff [] [] = 0"
| "str_diff (c # s) [] = sint c"
| "str_diff [] (d # t) = - sint d"
| "str_diff (c # s) (d # t) = (if c = d then if c = 0 then 0 else str_diff s t else sint c - sint d)"

lemma sint_eq_iff: "sint (c :: u8) = sint d \<longleftrightarrow> c = d"
  by (metis signed_word_eqI)

lemma strcmp_loop_cstr: "cstr m p s \<Longrightarrow> cstr m q t \<Longrightarrow> strcmp_loop m p q = Some (str_diff s t)"
proof (induction s t arbitrary: p q rule: str_diff.induct)
  case (4 c s d t)
  then show ?case by (subst strcmp_loop.simps) auto
qed (subst strcmp_loop.simps, force)+

lemma str_diff_refl [simp]: "str_diff s s = 0"
  by (induction s) auto

lemma strcmp_cstr: "cstr m p s \<Longrightarrow> cstr m q t \<Longrightarrow> strcmp m p q = Some (str_diff s t)"
  using strcmp_loop_cstr[of m p s q t] cstr_unique[of m p s t] by (auto simp: strcmp_def)

lemma str_diff_flip: "str_diff s t < 0 \<longleftrightarrow> str_diff t s > 0"
  by (induction s t rule: str_diff.induct) auto

lemma str_diff_zero_sym: "str_diff s t = 0 \<longleftrightarrow> str_diff t s = 0"
  using str_diff_flip[of s t] str_diff_flip[of t s] by linarith

lemma str_diff_trans: "str_diff s t \<le> 0 \<Longrightarrow> str_diff t u \<le> 0 \<Longrightarrow> str_diff s u \<le> 0"
proof (induction s t arbitrary: u rule: str_diff.induct)
  case (2 c s)
  then show ?case using sint_eq_iff[of c 0] by (cases u) (auto split: if_splits)
next
  case (3 d t)
  then show ?case by (cases u) (auto split: if_splits)
next
  case (4 c s d t)
  show ?case
  proof (cases u)
    case Nil
    then show ?thesis using 4 by (auto split: if_splits)
  next
    case (Cons e v)
    have "str_diff s v \<le> 0" if "c = d" "d = e" "c \<noteq> 0"
      using 4 that Cons by simp
    moreover have "sint c \<le> sint e \<and> (c = e \<longrightarrow> c = d)" if "c \<noteq> d"
      using 4(2,3) that Cons sint_eq_iff[of c d] by (auto split: if_splits)
    moreover have "sint c \<le> sint e" if "c = d"
      using 4(2,3) that Cons by (auto split: if_splits)
    ultimately show ?thesis unfolding Cons by (cases "c = e"; cases "c = d") auto
  qed
qed simp

interpretation string_order: comparator str_diff
  by unfold_locales (rule str_diff_flip, rule str_diff_trans)

lemma str_diff_zero: "0 \<notin> set s \<Longrightarrow> 0 \<notin> set t \<Longrightarrow> str_diff s t = 0 \<longleftrightarrow> s = t"
proof (induction s t rule: str_diff.induct)
  case (2 c s)
  then show ?case using sint_eq_iff[of c 0] by simp
next
  case (3 d t)
  then show ?case using sint_eq_iff[of d 0] by auto
next
  case (4 c s d t)
  then show ?case using sint_eq_iff[of c d] by auto
qed simp


subsection \<open>Copies\<close>

definition splice :: "mem \<Rightarrow> nat \<Rightarrow> u8 list \<Rightarrow> mem" where
  "splice m p s = take p m @ s @ drop (p + length s) m"

lemma splice_Nil [simp]: "splice m p [] = m"
  by (simp add: splice_def)

lemma splice_Cons: "p < length m \<Longrightarrow> splice (m[p := c]) (p + 1) s = splice m p (c # s)"
  by (simp add: splice_def take_Suc_conv_app_nth take_update_swap list_update_append)

lemma splice_length: "p + length s \<le> length m \<Longrightarrow> length (splice m p s) = length m"
  by (simp add: splice_def)

lemma splice_rd: "p + length s \<le> length m \<Longrightarrow> k < p \<or> p + length s \<le> k \<Longrightarrow> rd (splice m p s) k = rd m k"
  by (auto simp: splice_def rd_def nth_append)

lemma splice_cstr: "0 \<notin> set s \<Longrightarrow> p + length s < length m \<Longrightarrow> cstr (splice m p (s @ [0])) p s"
  using cstr_splice[of s p "take p m"] by (simp add: splice_def)

lemma cstr_rd_cong: "(\<And>k. p \<le> k \<Longrightarrow> k \<le> p + length s \<Longrightarrow> rd m k = rd m' k) \<Longrightarrow> cstr m p s = cstr m' p s"
proof (induction s arbitrary: p)
  case (Cons c s)
  have "cstr m (p + 1) s = cstr m' (p + 1) s" using Cons.prems by (intro Cons.IH) auto
  then show ?case using Cons.prems[of p] by simp
qed simp

lemma cstr_append: "cstr m p s \<Longrightarrow> cstr m' p (s @ t) = cstr m' (p + length s) t"
  if "\<And>k. p \<le> k \<Longrightarrow> k < p + length s \<Longrightarrow> rd m' k = rd m k"
  using that
proof (induction s arbitrary: p)
  case (Cons c s)
  have "cstr m' (p + 1) (s @ t) = cstr m' (p + 1 + length s) t" using Cons.prems by (intro Cons.IH) auto
  then show ?case using Cons.prems(1) Cons.prems(2)[of p] by simp
qed simp

text \<open>\<open>fits d n q k\<close>: writing \<open>n\<close> bytes from \<open>d\<close> upwards overwrites none of the \<open>k\<close> bytes from \<open>q\<close> on before
  a front-to-back copy has read it.\<close>

definition fits :: "mem \<Rightarrow> nat \<Rightarrow> nat \<Rightarrow> nat \<Rightarrow> nat \<Rightarrow> bool" where
  "fits m d n q k \<longleftrightarrow> d + n \<le> length m \<and> (d \<le> q \<or> q + k \<le> d)"

lemma strcpy_loop_cstr:
  "cstr m q s \<Longrightarrow> fits m d (length s + 1) q (length s + 1) \<Longrightarrow> strcpy_loop m d q = Some (splice m d (s @ [0]))"
proof (induction s arbitrary: m d q)
  case Nil
  then show ?case by (subst strcpy_loop.simps) (simp add: fits_def flip: splice_Cons)
next
  case (Cons c s)
  then have "cstr (m[d := c]) (q + 1) s" by (subst cstr_frame) (auto simp: fits_def)
  moreover have "fits (m[d := c]) (d + 1) (length s + 1) (q + 1) (length s + 1)" using Cons.prems(2) by (auto simp: fits_def)
  ultimately have "strcpy_loop (m[d := c]) (d + 1) (q + 1) = Some (splice (m[d := c]) (d + 1) (s @ [0]))"
    by (rule Cons.IH)
  then show ?case using Cons.prems using splice_Cons[of d m c "s @ [0]"]
    by (subst strcpy_loop.simps) (auto simp: fits_def)
qed

lemma unat_dec: "(n :: u32) > 0 \<Longrightarrow> unat (n - 1) = unat n - 1"
  by (simp add: unat_minus_one word_greater_zero_iff)

lemma strncat_loop_cstr:
  "cstr m q s \<Longrightarrow> fits m d (min (unat (n - 1)) (length s) + 1) q (length s + 1) \<Longrightarrow>
     strncat_loop m d q n = Some (splice m d (take (unat (n - 1)) s @ [0]))"
proof (induction s arbitrary: m d q n)
  case Nil
  then show ?case by (subst strncat_loop.simps) (simp add: fits_def flip: splice_Cons)
next
  case (Cons c s)
  have d: "d < length m" using Cons.prems(2) by (simp add: fits_def)
  show ?case
  proof (cases "n - 1 = 0")
    case True
    then show ?thesis using Cons.prems(1) d by (subst strncat_loop.simps) (simp flip: splice_Cons)
  next
    case False
    then have u: "unat (n - 1) = Suc (unat (n - 1 - 1))" using unat_dec[of "n - 1"] by (simp add: word_greater_zero_iff unat_gt_0)
    have "cstr (m[d := c]) (q + 1) s" using Cons.prems by (subst cstr_frame) (auto simp: fits_def)
    moreover have "fits (m[d := c]) (d + 1) (min (unat (n - 1 - 1)) (length s) + 1) (q + 1) (length s + 1)"
      using Cons.prems(2) u by (auto simp: fits_def)
    ultimately have "strncat_loop (m[d := c]) (d + 1) (q + 1) (n - 1) =
        Some (splice (m[d := c]) (d + 1) (take (unat (n - 1 - 1)) s @ [0]))"
      by (rule Cons.IH)
    then show ?thesis using Cons.prems(1) d False u
      by (subst strncat_loop.simps) (simp add: splice_Cons[OF d, simplified])
  qed
qed

lemma strncpy_pad_all:
  "d + unat (n - 1) \<le> length m \<Longrightarrow> strncpy_pad m d n = Some (splice m d (replicate (unat (n - 1)) 0))"
proof (induction "unat (n - 1)" arbitrary: m d n)
  case 0
  then have "n - 1 = 0" by (metis unat_eq_zero)
  then show ?case using 0 by (subst strncpy_pad.simps) simp
next
  case (Suc k)
  then have g: "n - 1 > 0" by (metis unat_gt_0 word_greater_zero_iff zero_less_Suc)
  have k: "k = unat (n - 1 - 1)" using Suc.hyps(2) unat_dec[OF g] by simp
  have d: "d < length m" using Suc.hyps(2) Suc.prems by simp
  have "strncpy_pad (m[d := 0]) (d + 1) (n - 1) = Some (splice (m[d := 0]) (d + 1) (replicate k 0))"
    using Suc.hyps(1)[OF k, of "d + 1" "m[d := 0]"] Suc.prems Suc.hyps(2) k by simp
  then show ?case using g d by (subst strncpy_pad.simps) (simp add: splice_Cons[OF d, simplified] flip: Suc.hyps(2))
qed

lemma strncpy_copy_cstr:
  "cstr m q s \<Longrightarrow> fits m d (min (unat (n - 1)) (length s + 1)) q (length s + 1) \<Longrightarrow>
     strncpy_copy m d q n =
       Some (if unat (n - 1) \<le> length s then (splice m d (take (unat (n - 1)) s), d + unat (n - 1), 0)
             else (splice m d (s @ [0]), d + length s + 1, n - 1 - of_nat (length s)))"
proof (induction s arbitrary: m d q n)
  case Nil
  show ?case
  proof (cases "n - 1 = 0")
    case True
    then show ?thesis by (subst strncpy_copy.simps) simp
  next
    case False
    then have g: "unat (n - 1) > 0" "n - 1 > 0" by (auto simp: unat_gt_0 word_greater_zero_iff)
    then show ?thesis using Nil by (subst strncpy_copy.simps) (auto simp: fits_def simp flip: splice_Cons)
  qed
next
  case (Cons c s)
  show ?case
  proof (cases "n - 1 = 0")
    case True
    then show ?thesis by (subst strncpy_copy.simps) simp
  next
    case False
    then have g: "unat (n - 1) > 0" "n - 1 > 0" by (auto simp: unat_gt_0 word_greater_zero_iff)
    then have u: "unat (n - 1) = Suc (unat (n - 1 - 1))" using unat_dec[of "n - 1"] by simp
    have d: "d < length m" using Cons.prems(2) g by (auto simp: fits_def)
    have "cstr (m[d := c]) (q + 1) s" using Cons.prems g by (subst cstr_frame) (auto simp: fits_def)
    moreover have "fits (m[d := c]) (d + 1) (min (unat (n - 1 - 1)) (length s + 1)) (q + 1) (length s + 1)"
      using Cons.prems(2) u by (auto simp: fits_def)
    ultimately have "strncpy_copy (m[d := c]) (d + 1) (q + 1) (n - 1) =
       Some (if unat (n - 1 - 1) \<le> length s then (splice (m[d := c]) (d + 1) (take (unat (n - 1 - 1)) s), d + 1 + unat (n - 1 - 1), 0)
             else (splice (m[d := c]) (d + 1) (s @ [0]), d + 1 + length s + 1, n - 1 - 1 - of_nat (length s)))"
      by (rule Cons.IH)
    then show ?thesis using Cons.prems(1) d g u
      by (subst strncpy_copy.simps) (auto simp: splice_Cons[OF d, simplified] diff_diff_eq)
  qed
qed

lemma splice_twice: "p + length s \<le> length m \<Longrightarrow> splice (splice m p s) (p + length s) t = splice m p (s @ t)"
  by (simp add: splice_def ac_simps)


text \<open>The functions on strings in memory. The destination may overlap the source only from below.\<close>

lemma strncpy_cstr:
  assumes "cstr m q s" "fits m d (unat n) q (length s + 1)"
  shows "strncpy m d q n = Some (d, splice m d (take (unat n) (s @ replicate (unat n - length s) 0)))"
proof -
  have c: "strncpy_copy m d q (n + 1) =
      Some (if unat n \<le> length s then (splice m d (take (unat n) s), d + unat n, 0)
            else (splice m d (s @ [0]), d + length s + 1, n - of_nat (length s)))"
    using strncpy_copy_cstr[OF assms(1), of d "n + 1"] assms(2) by (auto simp: fits_def)
  show ?thesis
  proof (cases "unat n \<le> length s")
    case True
    then show ?thesis using c by (simp add: strncpy_def)
  next
    case False
    then have l: "length s < unat n" by simp
    have k: "unat (n - of_nat (length s)) = unat n - length s"
      using l unat_u32_less[of n] by (subst unat_sub_exact) (auto simp: unat_of_nat_u32 word_le_nat_alt)
    then have p: "n - of_nat (length s) > 0" using l by (simp add: word_less_nat_alt)
    have k1: "unat (n - of_nat (length s) - 1) = unat n - length s - 1" using unat_dec[OF p] k by simp
    have "d + length (s @ [0]) \<le> length m" using assms(2) l by (simp add: fits_def)
    note tw = splice_twice[OF this, of "replicate (unat n - length s - 1) 0"]
    have "strncpy_pad (splice m d (s @ [0])) (d + length s + 1) (n - of_nat (length s)) =
        Some (splice m d (s @ [0] @ replicate (unat n - length s - 1) 0))"
      using strncpy_pad_all[of "d + length s + 1" "n - of_nat (length s)" "splice m d (s @ [0])"] k1 tw assms(2) l
      by (simp add: fits_def splice_length)
    moreover have "[0] @ replicate (unat n - length s - 1) 0 = replicate (unat n - length s) (0 :: u8)"
      using l by (simp flip: replicate_Suc)
    ultimately show ?thesis using c p l by (simp add: strncpy_def)
  qed
qed

lemma strncat_cstr:
  assumes "cstr m p s" "cstr m q t" "fits m (p + length s) (min (unat n) (length t) + 1) q (length t + 1)"
  shows "strncat m p q n = Some (p, splice m (p + length s) (take (unat n) t @ [0]))"
  using strncat_loop_cstr[OF assms(2), of "p + length s" "n + 1"] strlen_loop_cstr[OF assms(1)] assms(3)
  by (simp add: strncat_def)

lemma strcat_cstr:
  assumes "cstr m p s" "cstr m q t" "fits m (p + length s) (length t + 1) q (length t + 1)"
  shows "strcat m p q = Some (p, splice m (p + length s) (t @ [0]))"
  using strcpy_loop_cstr[OF assms(2), of "p + length s"] strlen_loop_cstr[OF assms(1)] assms(3)
  by (simp add: strcat_def)

lemma splice_append_cstr:
  assumes "cstr m p s" "0 \<notin> set t" "p + length s + length t < length m"
  shows "cstr (splice m (p + length s) (t @ [0])) p (s @ t)"
proof -
  have "rd (splice m (p + length s) (t @ [0])) k = rd m k" if "k < p + length s" for k
    using that assms(3) by (intro splice_rd) auto
  then show ?thesis using cstr_append[OF _ assms(1)] splice_cstr[OF assms(2,3)] by blast
qed

lemma memcpy_loop_splice:
  "0 \<le> n \<Longrightarrow> n < 2147483648 \<Longrightarrow> q + nat n \<le> length m \<Longrightarrow> fits m d (nat n) q (nat n) \<Longrightarrow>
     memcpy_loop m d q n = Some (splice m d (take (nat n) (drop q m)))"
proof (induction "nat n" arbitrary: m d q n)
  case 0
  then show ?case by (subst memcpy_loop.simps) simp
next
  case (Suc k)
  have n: "n > 0" "k = nat (n - 1)" "nat n = Suc k" using Suc.hyps(2) by auto
  have d: "d < length m" "q < length m" using Suc.prems n by (auto simp: fits_def)
  have "memcpy_loop (m[d := m ! q]) (d + 1) (q + 1) (n - 1) =
      Some (splice (m[d := m ! q]) (d + 1) (take (nat (n - 1)) (drop (q + 1) (m[d := m ! q]))))"
    using Suc.prems n by (intro Suc.hyps(1)) (auto simp: fits_def)
  moreover have "take k (drop (q + 1) (m[d := m ! q])) = take k (drop (q + 1) m)"
  proof (cases "d \<le> q")
    case False
    then have "q + Suc k \<le> d" using Suc.prems(4) n(3) by (auto simp: fits_def)
    then show ?thesis by (simp add: drop_update_swap)
  qed simp
  moreover have "take (nat n) (drop q m) = m ! q # take k (drop (q + 1) m)"
    using d(2) n(3) by (simp add: Cons_nth_drop_Suc[symmetric])
  ultimately show ?case using n Suc.prems d splice_Cons[OF d(1)]
    by (subst memcpy_loop.simps) (simp add: rd_def)
qed

lemma memset_loop_splice:
  "0 \<le> n \<Longrightarrow> n < 2147483648 \<Longrightarrow> d + nat n \<le> length m \<Longrightarrow>
     memset_loop m d c n = Some (splice m d (replicate (nat n) c))"
proof (induction "nat n" arbitrary: m d n)
  case 0
  then show ?case by (subst memset_loop.simps) simp
next
  case (Suc k)
  have n: "n > 0" "k = nat (n - 1)" "nat n = Suc k" using Suc.hyps(2) by auto
  have d: "d < length m" using Suc.prems n by auto
  have "memset_loop (m[d := c]) (d + 1) c (n - 1) = Some (splice (m[d := c]) (d + 1) (replicate (nat (n - 1)) c))"
    using Suc.prems n by (intro Suc.hyps(1)) auto
  then show ?case using n Suc.prems d splice_Cons[OF d] by (subst memset_loop.simps) simp
qed

lemma strncmp_loop_cstr:
  "cstr m p s \<Longrightarrow> cstr m q t \<Longrightarrow>
     strncmp_loop m p q n = Some (str_diff (take (unat (n - 1)) s) (take (unat (n - 1)) t))"
proof (induction s t arbitrary: p q n rule: str_diff.induct)
  case (4 c s d t)
  show ?case
  proof (cases "n - 1 = 0")
    case False
    then have g: "n - 1 > 0" by (simp add: word_greater_zero_iff)
    then have u: "unat (n - 1) = Suc (unat (n - 1 - 1))" using unat_dec[of "n - 1"] False by (simp add: unat_gt_0)
    show ?thesis using 4 u g by (subst strncmp_loop.simps) auto
  qed (subst strncmp_loop.simps, simp)
next
  case (2 c s)
  show ?case
  proof (cases "n - 1 = 0")
    case False
    then obtain k where "unat (n - 1) = Suc k" "n - 1 > 0" by (metis unat_eq_zero not0_implies_Suc word_greater_zero_iff)
    then show ?thesis using 2 by (subst strncmp_loop.simps) auto
  qed (subst strncmp_loop.simps, simp)
next
  case (3 d t)
  show ?case
  proof (cases "n - 1 = 0")
    case False
    then obtain k where "unat (n - 1) = Suc k" "n - 1 > 0" by (metis unat_eq_zero not0_implies_Suc word_greater_zero_iff)
    then show ?thesis using 3 by (subst strncmp_loop.simps) auto
  qed (subst strncmp_loop.simps, simp)
qed (subst strncmp_loop.simps, simp)

lemma strncmp_cstr:
  "cstr m p s \<Longrightarrow> cstr m q t \<Longrightarrow> strncmp m p q n = Some (str_diff (take (unat n) s) (take (unat n) t))"
  using strncmp_loop_cstr[of m p s q t "n + 1"] cstr_unique[of m p s t] by (auto simp: strncmp_def)

text \<open>\<^verbatim>\<open>memccpy\<close> compares the signed byte with the \<^verbatim>\<open>int\<close> argument.\<close>

lemma memccpy_high_byte:
  "memccpy m s1 s2 c n = Some (r, m') \<Longrightarrow> c \<ge> 128 \<Longrightarrow> r = None"
proof (induction m s1 s2 c n rule: memccpy.induct)
  case (1 m s1 s2 c n)
  have "sint d \<noteq> c" for d :: u8 using sint_lt[of d] 1(3) by auto
  then show ?case using 1 by (subst (asm) memccpy.simps) (auto split: if_splits option.splits)
qed

subsection \<open>Tokens\<close>

function tokens :: "u8 list \<Rightarrow> u8 list \<Rightarrow> u8 list list" where
  "tokens seps s =
     (case dropWhile (\<lambda>c. c \<in> set seps) s of
        [] \<Rightarrow> []
      | c # r \<Rightarrow> (c # takeWhile (\<lambda>c. c \<notin> set seps) r) # tokens seps (dropWhile (\<lambda>c. c \<notin> set seps) r))"
  by pat_completeness auto
termination
proof (relation "measure (\<lambda>(seps, s). length s)")
  fix seps s c and r :: "u8 list"
  assume "dropWhile (\<lambda>c. c \<in> set seps) s = c # r"
  from arg_cong[OF this, of length] length_dropWhile_le[of "\<lambda>c. c \<in> set seps" s]
  have "length r < length s" by simp
  then show "((seps, dropWhile (\<lambda>c. c \<notin> set seps) r), seps, s) \<in> measure (\<lambda>(seps, s). length s)"
    using length_dropWhile_le[of "\<lambda>c. c \<notin> set seps" r] by simp
qed simp

declare tokens.simps [simp del]

lemma tokens_sep: "d \<in> set seps \<Longrightarrow> tokens seps (d # s) = tokens seps s"
  by (simp add: tokens.simps[of seps "d # s"] tokens.simps[of seps s])

lemma tokens_none: "set s \<subseteq> set seps \<Longrightarrow> tokens seps s = []"
proof -
  assume "set s \<subseteq> set seps"
  then have "dropWhile (\<lambda>c. c \<in> set seps) s = []" by auto
  then show ?thesis by (subst tokens.simps) (simp only: list.case)
qed

lemma while_stop:
  assumes "\<forall>x \<in> set r. P x" "b = [] \<or> \<not> P (hd b)"
  shows "takeWhile P (r @ b) = r" "dropWhile P (r @ b) = b"
  using assms by (induction r) (cases b; simp)+

text \<open>Skipped separators, the token and what follows it.\<close>

lemma tokens_split:
  assumes "set a \<subseteq> set seps" "tok \<noteq> []" "set tok \<inter> set seps = {}" "b = [] \<or> hd b \<in> set seps"
  shows "tokens seps (a @ tok @ b) = tok # tokens seps b"
proof -
  obtain c r where t: "tok = c # r" using assms(2) by (cases tok) auto
  have "dropWhile (\<lambda>c. c \<in> set seps) (a @ tok @ b) = c # r @ b"
    using assms(1,3) t by (subst dropWhile_append2) auto
  moreover have "takeWhile (\<lambda>c. c \<notin> set seps) (r @ b) = r" "dropWhile (\<lambda>c. c \<notin> set seps) (r @ b) = b"
    using assms(3,4) t by (auto intro!: while_stop)
  ultimately show ?thesis using t by (subst tokens.simps) simp
qed

lemma string_split:
  obtains (none) "set s \<subseteq> seps"
  | (tok) a t b where "s = a @ t @ b" "set a \<subseteq> seps" "t \<noteq> []" "set t \<inter> seps = {}" "b = [] \<or> hd b \<in> seps"
proof (cases "set s \<subseteq> seps")
  case False
  let ?a = "takeWhile (\<lambda>c. c \<in> seps) s" and ?r = "dropWhile (\<lambda>c. c \<in> seps) s"
  let ?t = "takeWhile (\<lambda>c. c \<notin> seps) ?r" and ?b = "dropWhile (\<lambda>c. c \<notin> seps) ?r"
  have ne: "?r \<noteq> []" using False by (auto simp: dropWhile_eq_Nil_conv)
  then have hd: "hd ?r \<notin> seps" using hd_dropWhile[OF ne] by simp
  show ?thesis
  proof (rule tok)
    show "s = ?a @ ?t @ ?b" by simp
    show "set ?a \<subseteq> seps" "set ?t \<inter> seps = {}" by (auto dest: set_takeWhileD)
    show "?t \<noteq> []" using ne hd by (cases ?r) auto
    show "?b = [] \<or> hd ?b \<in> seps" using hd_dropWhile[of "\<lambda>c. c \<notin> seps" ?r] by blast
  qed
qed (rule none)

text \<open>One call on the string at \<open>p\<close>, whether it is the argument or \<^verbatim>\<open>savept\<close>.\<close>

lemma strtok_none:
  assumes "cstr m p s" "cstr m b seps" "set s \<subseteq> set seps" "(if string = None then sv else string) = Some p"
  shows "strtok m sv string b = Some (None, sv, m)"
proof -
  have "length (takeWhile (\<lambda>c. c \<in> set seps) s) = length s"
  proof -
    have "takeWhile (\<lambda>c. c \<in> set seps) (s @ []) = s" by (rule while_stop) (use assms(3) in auto)
    then show ?thesis unfolding append_Nil2 by (rule arg_cong)
  qed
  then have "strspn m p b = Some (length s)" using strspn_loop_cstr[OF assms(1,2)] by (simp add: strspn_def)
  moreover have "rd m (p + length s) = Some 0" using cstr_tail[of m p s "[]"] assms(1) by simp
  ultimately show ?thesis using assms(4) by (simp add: strtok_def)
qed

lemma strtok_token:
  assumes c: "cstr m p (a @ t @ b)" and sp: "cstr m sp seps"
    and a: "set a \<subseteq> set seps" and t: "t \<noteq> []" "set t \<inter> set seps = {}" and b: "b = [] \<or> hd b \<in> set seps"
    and start: "(if string = None then sv else string) = Some p"
  shows "strtok m sv string sp =
    Some (Some (p + length a),
          if b = [] then (None, m) else (Some (p + length a + length t + 1), m[p + length a + length t := 0]))"
proof -
  let ?q = "p + length a"
  have ct: "cstr m ?q (t @ b)" using cstr_tail[OF c] .
  have "takeWhile (\<lambda>c. c \<in> set seps) (a @ t @ b) = a"
    using a t by (intro while_stop) (cases t; auto)+
  then have k: "strspn m p sp = Some (length a)" using strspn_loop_cstr[OF c sp] by (simp add: strspn_def)
  obtain x t' where x: "t = x # t'" using t(1) by (cases t) auto
  then have r: "rd m ?q = Some x" "x \<noteq> 0" using ct by auto
  have tk: "length (takeWhile (\<lambda>c. c \<notin> set seps) (t @ b)) = length t" if "b \<noteq> []"
    using b t(2) by (subst while_stop) auto
  have "strpbrk m ?q sp = Some (if b = [] then None else Some (?q + length t))"
    using strpbrk_cstr[OF ct sp] tk b t(2) by (cases b) auto
  moreover have "?q + length t < length m" if "b \<noteq> []" using cstr_bound[OF ct] that by (cases b) auto
  ultimately show ?thesis using k r start by (simp add: strtok_def Let_def)
qed

text \<open>A first call with the string, then calls with \<^verbatim>\<open>NULL\<close>.\<close>

primrec strtok_calls :: "nat \<Rightarrow> mem \<Rightarrow> ptr \<Rightarrow> ptr \<Rightarrow> nat \<Rightarrow> (ptr list \<times> mem) option" where
  "strtok_calls 0 m sv string sp = Some ([], m)"
| "strtok_calls (Suc k) m sv string sp =
     (case strtok m sv string sp of
        None \<Rightarrow> None
      | Some (r, sv', m') \<Rightarrow>
          (case strtok_calls k m' sv' None sp of None \<Rightarrow> None | Some (rs, m'') \<Rightarrow> Some (r # rs, m'')))"

lemma strtok_calls_tokens:
  assumes "cstr m p s" "cstr m sp seps" "p + length s < sp \<or> sp + length seps < p"
    and "(if string = None then sv else string) = Some p"
  shows "\<exists>qs m'. strtok_calls (length (tokens seps s) + 1) m sv string sp = Some (map Some qs @ [None], m') \<and>
           list_all2 (cstr m') qs (tokens seps s) \<and> length m' = length m \<and>
           (\<forall>k. k < p \<or> p + length s < k \<longrightarrow> rd m' k = rd m k)"
  using assms
proof (induction "length s" arbitrary: m p s sv string rule: less_induct)
  case less
  show ?case
  proof (cases s "set seps" rule: string_split)
    case none
    then show ?thesis using tokens_none[OF none] strtok_none[OF less.prems(1,2) none less.prems(4)] by simp
  next
    case (tok a t b)
    let ?q = "p + length a" and ?e = "p + length a + length t"
    note T = tokens_split[OF tok(2-5), folded tok(1)]
    note S = strtok_token[OF less.prems(1)[unfolded tok(1)] less.prems(2) tok(2-5) less.prems(4)]
    show ?thesis
    proof (cases b)
      case Nil
      have "cstr m ?q t" using cstr_tail[OF less.prems(1)[unfolded tok(1)]] Nil by simp
      moreover have "tokens seps [] = []" by (simp add: tokens_none)
      ultimately show ?thesis using T S Nil
        by (intro exI[of _ "[?q]"] exI[of _ m]) (simp add: strtok_def)
    next
      case (Cons d r)
      let ?m = "m[?e := 0]"
      have ct: "cstr m ?q (t @ d # r)" using cstr_tail[OF less.prems(1)[unfolded tok(1)]] Cons by simp
      have cq: "cstr ?m ?q t" using cstr_cut[OF ct] by simp
      have "cstr m (?e + 1) r" using cstr_tail[OF ct] by simp
      then have cr: "cstr ?m (?e + 1) r" by (subst cstr_frame) auto
      have cs: "cstr ?m sp seps" using less.prems(2,3) tok(1) Cons by (subst cstr_frame) auto
      have d: "d \<in> set seps" using tok(5) Cons by simp
      have "length r < length s" "?e + 1 + length r < sp \<or> sp + length seps < ?e + 1"
        using tok(1) Cons less.prems(3) by auto
      moreover have "(if (None :: ptr) = None then Some (?e + 1) else None) = Some (?e + 1)" by simp
      ultimately obtain qs m' where
        R: "strtok_calls (length (tokens seps r) + 1) ?m (Some (?e + 1)) None sp = Some (map Some qs @ [None], m')"
           "list_all2 (cstr m') qs (tokens seps r)" "length m' = length ?m"
           "\<forall>k. k < ?e + 1 \<or> ?e + 1 + length r < k \<longrightarrow> rd m' k = rd ?m k"
        using less.hyps[OF _ cr cs] by blast
      have "cstr m' ?q t" using cq cstr_rd_cong[of ?q t m' ?m] R(4) by simp
      moreover have "rd m' k = rd m k" if "k < p \<or> p + length s < k" for k
        using R(4)[rule_format, of k] that tok(1) Cons by auto
      ultimately show ?thesis using T S R Cons tokens_sep[OF d, of r]
        by (intro exI[of _ "?q # qs"] exI[of _ m']) simp
    qed
  qed
qed

section \<open>Properties\<close>

text \<open>\<^verbatim>\<open>strcmp\<close> and \<^verbatim>\<open>strncmp\<close> on strings: the sign of the result orders the strings
  lexicographically by their signed characters, the terminator counting as 0; it is 0 exactly for equal
  strings, and \<^verbatim>\<open>strncmp\<close> decides on the first \<open>n\<close> characters. The order is one that \<^verbatim>\<open>qsort\<close> sorts by.\<close>

theorem strcmp_compares:
  assumes "cstr m p s" "cstr m q t"
  shows "strcmp m p q = Some (str_diff s t) \<and> (strcmp m p q = Some 0 \<longleftrightarrow> s = t) \<and>
    strncmp m p q n = Some (str_diff (take (unat n) s) (take (unat n) t)) \<and>
    (\<exists>ys. qsort str_diff xs = Some ys \<and> mset ys = mset xs \<and> sorted_wrt (\<lambda>x y. str_diff x y \<le> 0) ys)"
proof -
  have "strcmp m p q = Some (str_diff s t)" using assms by (rule strcmp_cstr)
  moreover have "str_diff s t = 0 \<longleftrightarrow> s = t"
    using cstr_nonzero[OF assms(1)] cstr_nonzero[OF assms(2)] by (rule str_diff_zero)
  moreover have "strncmp m p q n = Some (str_diff (take (unat n) s) (take (unat n) t))"
    using assms by (rule strncmp_cstr)
  moreover obtain ys where "qs1 str_diff 0 (length xs) xs = Some ys" "same_outside 0 (length xs) xs ys"
    using qs1_ends[of "length xs" xs str_diff 0] by auto
  moreover have "sorted_wrt (\<lambda>x y. str_diff x y \<le> 0) ys"
    using string_order.qs1_sorts[OF _ calculation(4)] calculation(5)
    by (intro string_order.sorted_range_whole) (simp add: same_outside_def)
  ultimately show ?thesis by (auto simp: qsort_def same_outside_def)
qed

theorem strcmp_compares_witness:
  "strcmp [97, 98, 0, 97, 200, 0] 0 3 = Some 154 \<and> strncmp [97, 98, 0, 97, 200, 0] 0 3 1 = Some 0"
proof -
  let ?m = "[97, 98, 0, 97, 200, 0] :: u8 list"
  have "cstr ?m 0 [97, 98]" "cstr ?m 3 [97, 200]" by (simp_all add: rd_def)
  from strcmp_compares[OF this, of 1] show ?thesis by simp
qed

text \<open>\<^verbatim>\<open>strncpy\<close> writes exactly \<open>n\<close> bytes, the string cut or filled up with zeros; \<^verbatim>\<open>strncat\<close> leaves
  the concatenation with at most \<open>n\<close> characters of the second string, terminated; neither touches another
  byte. The buffers may overlap as long as the destination does not begin inside the source.\<close>

theorem str_copies:
  assumes q: "cstr m q t" and p: "cstr m p s"
    and c: "fits m d (unat n) q (length t + 1)"
    and a: "fits m (p + length s) (min (unat n) (length t) + 1) q (length t + 1)"
  shows "(\<exists>m'. strncpy m d q n = Some (d, m') \<and> length m' = length m \<and>
            take (unat n) (drop d m') = take (unat n) (t @ replicate (unat n - length t) 0) \<and>
            (\<forall>k. k < d \<or> d + unat n \<le> k \<longrightarrow> rd m' k = rd m k)) \<and>
         (\<exists>m'. strncat m p q n = Some (p, m') \<and> length m' = length m \<and> cstr m' p (s @ take (unat n) t) \<and>
            (\<forall>k. k < p + length s \<or> p + length s + min (unat n) (length t) < k \<longrightarrow> rd m' k = rd m k))"
    (is "?cpy \<and> ?cat")
proof
  let ?w = "take (unat n) (t @ replicate (unat n - length t) (0 :: u8))"
  have l: "length ?w = unat n" "d + length ?w \<le> length m" using c by (auto simp: fits_def)
  have "take (unat n) (drop d (splice m d ?w)) = ?w" using l by (simp add: splice_def)
  then show ?cpy using strncpy_cstr[OF q c] splice_length[OF l(2)] splice_rd[OF l(2)] l(1) by auto
  let ?v = "take (unat n) t @ [0 :: u8]"
  have r: "p + length s + length ?v \<le> length m" using a by (auto simp: fits_def min_def split: if_splits)
  have "cstr (splice m (p + length s) ?v) p (s @ take (unat n) t)"
    using cstr_nonzero[OF q] r by (intro splice_append_cstr[OF p]) (auto dest: in_set_takeD)
  then show ?cat using strncat_cstr[OF p q a] splice_length[OF r] splice_rd[OF r] by (auto simp: min_def)
qed

theorem str_copies_witness:
  "(\<exists>m'. strncpy [97, 98, 0, 9, 9, 9, 9, 9] 4 0 3 = Some (4, m') \<and> take 3 (drop 4 m') = [97, 98, 0]) \<and>
   (\<exists>m'. strncat [97, 98, 0, 99, 0, 9, 9] 3 0 1 = Some (3, m') \<and> cstr m' 3 [99, 97])"
proof
  have q: "cstr ([97, 98, 0, 9, 9, 9, 9, 9] :: u8 list) 0 [97, 98]" by (simp add: rd_def)
  have z: "cstr ([97, 98, 0, 9, 9, 9, 9, 9] :: u8 list) 2 []" by (simp add: rd_def)
  show "\<exists>m'. strncpy [97, 98, 0, 9, 9, 9, 9, 9] 4 0 3 = Some (4, m') \<and> take 3 (drop 4 m') = [97, 98, 0]"
    using str_copies[OF q q, of 4 3] str_copies[OF q z, of 4 3] strncpy_cstr[OF q, of 4 3]
    by (simp add: fits_def splice_def)
  have q: "cstr ([97, 98, 0, 99, 0, 9, 9] :: u8 list) 0 [97, 98]" by (simp add: rd_def)
  have p: "cstr ([97, 98, 0, 99, 0, 9, 9] :: u8 list) 3 [99]" by (simp add: rd_def)
  show "\<exists>m'. strncat [97, 98, 0, 99, 0, 9, 9] 3 0 1 = Some (3, m') \<and> cstr m' 3 [99, 97]"
    using str_copies[OF q p, of 4 1] by (simp add: fits_def) blast
qed

text \<open>C29: A call of \<^verbatim>\<open>strtok\<close> with a string and further calls with \<^verbatim>\<open>NULL\<close> return pointers to its tokens,
  the maximal runs without separators, one after the other and then \<^verbatim>\<open>NULL\<close>. Afterwards every pointer still
  shows its own token, and no byte outside the string has changed.\<close>

theorem strtok_tokens:
  assumes "cstr m p s" "cstr m sp seps" "p + length s < sp \<or> sp + length seps < p"
  shows "\<exists>qs m'. strtok_calls (length (tokens seps s) + 1) m sv (Some p) sp = Some (map Some qs @ [None], m') \<and>
           list_all2 (cstr m') qs (tokens seps s) \<and> length m' = length m \<and>
           (\<forall>k. k < p \<or> p + length s < k \<longrightarrow> rd m' k = rd m k)"
  using assms by (rule strtok_calls_tokens) simp

theorem strtok_tokens_witness:
  "\<exists>q1 q2 m'. strtok_calls 3 [44, 97, 44, 44, 98, 99, 0, 44, 0] None (Some 0) 7 = Some ([Some q1, Some q2, None], m') \<and>
     cstr m' q1 [97] \<and> cstr m' q2 [98, 99]"
proof -
  let ?m = "[44, 97, 44, 44, 98, 99, 0, 44, 0] :: u8 list"
  have m: "cstr ?m 0 [44, 97, 44, 44, 98, 99]" "cstr ?m 7 [44]" by (simp_all add: rd_def)
  have t: "tokens [44] [44, 97, 44, 44, 98, 99] = [[97], [98, 99]]" by (simp add: tokens.simps)
  have "\<exists>qs m'. strtok_calls (length (tokens [44] [44, 97, 44, 44, 98, 99]) + 1) ?m None (Some 0) 7 =
           Some (map Some qs @ [None], m') \<and>
           list_all2 (cstr m') qs (tokens [44] [44, 97, 44, 44, 98, 99]) \<and> length m' = length ?m \<and>
           (\<forall>k. k < 0 \<or> 0 + length ([44, 97, 44, 44, 98, 99] :: u8 list) < k \<longrightarrow> rd m' k = rd ?m k)"
    by (rule strtok_tokens[OF m]) simp
  then obtain qs m' where r: "strtok_calls 3 ?m None (Some 0) 7 = Some (map Some qs @ [None], m')"
    "list_all2 (cstr m') qs [[97], [98, 99]]" unfolding t by (auto simp: numeral_3_eq_3)
  then obtain q1 q2 where "qs = [q1, q2]" "cstr m' q1 [97]" "cstr m' q2 [98, 99]"
    by (auto simp: list_all2_Cons2)
  then show ?thesis using r by auto
qed

end
