(* ===== verification/Search.thy ===== *)
theory Search
  imports Str "HOL-Library.Tree"
begin

text \<open>
  The searches of the C library: \<^verbatim>\<open>bsearch.c\<close>, \<^verbatim>\<open>lfind.c\<close> and \<^verbatim>\<open>lsearch.c\<close> on tables, \<^verbatim>\<open>tsearch.c\<close>
  and \<^verbatim>\<open>tfind.c\<close> on binary trees. A table is the list of its elements and a pointer into it an element
  index. Tree nodes are addresses in a store, linked by \<^verbatim>\<open>llink\<close> and \<^verbatim>\<open>rlink\<close>; a \<^verbatim>\<open>NODE **\<close> is the root
  variable or one of the links. The address \<^verbatim>\<open>malloc\<close> gives is an argument of \<^verbatim>\<open>tsearch\<close>. A walk along
  links that never ends is \<open>None\<close>.
\<close>

section \<open>Tables\<close>

text \<open>\<^verbatim>\<open>last\<close> may run below \<^verbatim>\<open>base\<close>, so the positions are integers.\<close>

function bsearch_loop :: "('a \<Rightarrow> 'a \<Rightarrow> int) \<Rightarrow> 'a \<Rightarrow> 'a list \<Rightarrow> int \<Rightarrow> int \<Rightarrow> nat option" where
  "bsearch_loop cmp key xs base lim =
     (if lim \<ge> base then
        (let p = base + (lim - base) div 2; res = cmp key (xs ! nat p)
         in if res = 0 then Some (nat p)
            else if res < 0 then bsearch_loop cmp key xs base (p - 1)
            else bsearch_loop cmp key xs (p + 1) lim)
      else None)"
  by pat_completeness auto
termination by (relation "measure (\<lambda>(cmp, key, xs, base, lim). nat (lim - base + 1))") auto

definition bsearch :: "('a \<Rightarrow> 'a \<Rightarrow> int) \<Rightarrow> 'a \<Rightarrow> 'a list \<Rightarrow> nat \<Rightarrow> nat option" where
  "bsearch cmp key xs nel = bsearch_loop cmp key xs 0 (int nel - 1)"

function lfind_loop :: "('a \<Rightarrow> 'a \<Rightarrow> int) \<Rightarrow> 'a \<Rightarrow> 'a list \<Rightarrow> nat \<Rightarrow> nat \<Rightarrow> nat \<times> bool" where
  "lfind_loop cmp key xs base lim =
     (if base < lim then
        if cmp key (xs ! base) = 0 then (base, True) else lfind_loop cmp key xs (base + 1) lim
      else (base, False))"
  by pat_completeness auto
termination by (relation "measure (\<lambda>(cmp, key, xs, base, lim). lim - base)") auto

definition lfind :: "('a \<Rightarrow> 'a \<Rightarrow> int) \<Rightarrow> 'a \<Rightarrow> 'a list \<Rightarrow> nat \<Rightarrow> nat option" where
  "lfind cmp key xs nel = (case lfind_loop cmp key xs 0 nel of (p, found) \<Rightarrow> if found then Some p else None)"

text \<open>The area \<open>xs\<close> may hold more than the \<^verbatim>\<open>*nelp\<close> elements in use; the result is the pointer, the new
  count and the area, \<open>None\<close> if the new element does not fit.\<close>

definition lsearch :: "('a \<Rightarrow> 'a \<Rightarrow> int) \<Rightarrow> 'a \<Rightarrow> 'a list \<Rightarrow> nat \<Rightarrow> (nat \<times> nat \<times> 'a list) option" where
  "lsearch cmp key xs nel =
     (case lfind_loop cmp key xs 0 nel of
        (p, found) \<Rightarrow>
          if found then Some (p, nel, xs)
          else if p < length xs then Some (p, nel + 1, xs[p := key]) else None)"

declare bsearch_loop.simps [simp del] lfind_loop.simps [simp del]

lemma lfind_loop_first:
  "b \<le> n \<Longrightarrow> lfind_loop cmp key xs b n = (p, f) \<Longrightarrow>
     b \<le> p \<and> p \<le> n \<and> (\<forall>k. b \<le> k \<and> k < p \<longrightarrow> cmp key (xs ! k) \<noteq> 0) \<and>
     (if f then p < n \<and> cmp key (xs ! p) = 0 else p = n)"
proof (induction "n - b" arbitrary: b)
  case 0
  then show ?case by (subst (asm) lfind_loop.simps) auto
next
  case (Suc m)
  then have bn: "b < n" by simp
  show ?case
  proof (cases "cmp key (xs ! b) = 0")
    case True
    then show ?thesis using Suc.prems bn by (subst (asm) lfind_loop.simps) auto
  next
    case False
    then have "lfind_loop cmp key xs (b + 1) n = (p, f)" using Suc.prems bn by (subst (asm) lfind_loop.simps) auto
    from Suc.hyps(1)[OF _ _ this] Suc.hyps(2) bn
    have "b + 1 \<le> p \<and> p \<le> n \<and> (\<forall>k. b + 1 \<le> k \<and> k < p \<longrightarrow> cmp key (xs ! k) \<noteq> 0) \<and>
        (if f then p < n \<and> cmp key (xs ! p) = 0 else p = n)" by simp
    moreover have "cmp key (xs ! k) \<noteq> 0" if "b \<le> k" "k < p" for k
      using calculation False that by (cases "k = b") auto
    ultimately show ?thesis by auto
  qed
qed

context comparator begin

lemma cmp_less_trans: "cmp x y < 0 \<Longrightarrow> cmp y z \<le> 0 \<Longrightarrow> cmp x z < 0"
  using cmp_trans[of x y z] cmp_trans[of y z x] cmp_flip[of x y] cmp_flip[of y x] cmp_zero[of x z] by linarith

lemma cmp_less_trans': "cmp x y \<le> 0 \<Longrightarrow> cmp y z < 0 \<Longrightarrow> cmp x z < 0"
  using cmp_trans[of x y z] cmp_trans[of z x y] cmp_flip[of y z] cmp_flip[of z y] cmp_zero[of x z] by linarith

lemma bsearch_loop_finds:
  assumes "sorted_wrt (\<lambda>x y. cmp x y \<le> 0) xs" "0 \<le> b" "e < int (length xs)"
    and "\<forall>k < length xs. cmp key (xs ! k) = 0 \<longrightarrow> b \<le> int k \<and> int k \<le> e"
  shows "case bsearch_loop cmp key xs b e of
           Some p \<Rightarrow> p < length xs \<and> cmp key (xs ! p) = 0
         | None \<Rightarrow> \<forall>k < length xs. cmp key (xs ! k) \<noteq> 0"
  using assms(2-4)
proof (induction "nat (e - b + 1)" arbitrary: b e rule: less_induct)
  case less
  show ?case
  proof (cases "e \<ge> b")
    case False
    then show ?thesis using less.prems(3) by (subst bsearch_loop.simps) fastforce
  next
    case True
    let ?p = "b + (e - b) div 2"
    have p: "b \<le> ?p" "?p \<le> e" "0 \<le> ?p" "?p < int (length xs)" using True less.prems by auto
    have ord: "cmp (xs ! j) (xs ! k) \<le> 0" if "j < k" "k < length xs" for j k
      using assms(1) that by (simp add: sorted_wrt_iff_nth_less)
    consider (eq) "cmp key (xs ! nat ?p) = 0" | (lt) "cmp key (xs ! nat ?p) < 0" | (gt) "cmp key (xs ! nat ?p) > 0"
      by linarith
    then show ?thesis
    proof cases
      case eq
      then show ?thesis using True p by (subst bsearch_loop.simps) (simp add: Let_def nat_less_iff)
    next
      case lt
      have "int k \<le> ?p - 1" if "k < length xs" "cmp key (xs ! k) = 0" for k
      proof (rule ccontr)
        assume "\<not> int k \<le> ?p - 1"
        then have "k = nat ?p \<or> nat ?p < k" using p by linarith
        then have "cmp key (xs ! k) < 0" using cmp_less_trans[OF lt ord[OF _ that(1)]] lt by auto
        then show False using that by simp
      qed
      then show ?thesis using less.hyps[of "?p - 1" b] less.prems p lt True
        by (subst bsearch_loop.simps) (simp add: Let_def)
    next
      case gt
      have "?p + 1 \<le> int k" if "k < length xs" "cmp key (xs ! k) = 0" for k
      proof (rule ccontr)
        assume "\<not> ?p + 1 \<le> int k"
        then have k: "k = nat ?p \<or> k < nat ?p" using p by linarith
        have n: "nat ?p < length xs" using p by linarith
        have "cmp (xs ! nat ?p) key < 0" using gt cmp_flip by blast
        then have "cmp (xs ! k) key < 0" using k cmp_less_trans'[OF ord[OF _ n]] by auto
        then show False using that(2) cmp_zero[of key "xs ! k"] by simp
      qed
      then show ?thesis using less.hyps[of e "?p + 1"] less.prems p gt True
        by (subst bsearch_loop.simps) (simp add: Let_def)
    qed
  qed
qed

end

section \<open>Trees\<close>

record 'k tnode =
  n_key :: 'k
  n_llink :: ptr
  n_rlink :: ptr

record 'k tstate =
  t_root :: ptr
  t_node :: "nat \<Rightarrow> 'k tnode"

datatype link = Root | LLink nat | RLink nat

datatype visit = Preorder | Postorder | Endorder | LeafV

definition deref :: "'k tstate \<Rightarrow> link \<Rightarrow> ptr" where
  "deref st ln = (case ln of Root \<Rightarrow> t_root st | LLink n \<Rightarrow> n_llink (t_node st n) | RLink n \<Rightarrow> n_rlink (t_node st n))"

definition store :: "link \<Rightarrow> ptr \<Rightarrow> 'k tstate \<Rightarrow> 'k tstate" where
  "store ln v st =
     (case ln of
        Root \<Rightarrow> st\<lparr>t_root := v\<rparr>
      | LLink n \<Rightarrow> st\<lparr>t_node := (t_node st)(n := (t_node st n)\<lparr>n_llink := v\<rparr>)\<rparr>
      | RLink n \<Rightarrow> st\<lparr>t_node := (t_node st)(n := (t_node st n)\<lparr>n_rlink := v\<rparr>)\<rparr>)"

partial_function (option) t_walk ::
    "('k \<Rightarrow> 'k \<Rightarrow> int) \<Rightarrow> 'k \<Rightarrow> 'k tstate \<Rightarrow> link \<Rightarrow> (link \<times> ptr) option" where
  "t_walk cmp key st rootp =
     (case deref st rootp of
        None \<Rightarrow> Some (rootp, None)
      | Some n \<Rightarrow>
          (let r = cmp key (n_key (t_node st n))
           in if r = 0 then Some (rootp, Some n)
              else t_walk cmp key st (if r < 0 then LLink n else RLink n)))"

text \<open>The outer option is termination; \<open>q\<close> is what \<^verbatim>\<open>malloc\<close> returns.\<close>

definition tsearch ::
    "('k \<Rightarrow> 'k \<Rightarrow> int) \<Rightarrow> ptr \<Rightarrow> 'k \<Rightarrow> link option \<Rightarrow> 'k tstate \<Rightarrow> (ptr \<times> 'k tstate) option" where
  "tsearch cmp q key rootp st =
     (case rootp of
        None \<Rightarrow> Some (None, st)
      | Some ln \<Rightarrow>
          Option.bind (t_walk cmp key st ln) (\<lambda>(ln', found).
            case found of
              Some n \<Rightarrow> Some (Some n, st)
            | None \<Rightarrow>
                (case q of
                   None \<Rightarrow> Some (None, st)
                 | Some a \<Rightarrow>
                     let st1 = store ln' (Some a) st
                     in Some (Some a, st1\<lparr>t_node := (t_node st1)(a := \<lparr>n_key = key, n_llink = None, n_rlink = None\<rparr>)\<rparr>))))"

definition tfind :: "('k \<Rightarrow> 'k \<Rightarrow> int) \<Rightarrow> 'k \<Rightarrow> link option \<Rightarrow> 'k tstate \<Rightarrow> ptr option" where
  "tfind cmp key rootp st =
     (case rootp of
        None \<Rightarrow> Some None
      | Some ln \<Rightarrow> Option.bind (t_walk cmp key st ln) (\<lambda>(ln', found). Some found))"

text \<open>\<open>Some None\<close>: key not found, else the link to the node, the node and its parent. \<open>n\<close> is
  \<^verbatim>\<open>*rootp\<close>, which is not null.\<close>

partial_function (option) tdelete_walk ::
    "('k \<Rightarrow> 'k \<Rightarrow> int) \<Rightarrow> 'k \<Rightarrow> 'k tstate \<Rightarrow> link \<Rightarrow> nat \<Rightarrow> nat \<Rightarrow> (link \<times> nat \<times> nat) option option" where
  "tdelete_walk cmp key st rootp n p =
     (let ans = cmp key (n_key (t_node st n))
      in if ans = 0 then Some (Some (rootp, n, p))
         else let ln = (if ans < 0 then LLink n else RLink n)
              in case deref st ln of None \<Rightarrow> Some None | Some n' \<Rightarrow> tdelete_walk cmp key st ln n' n)"

text \<open>D3: \<open>r\<close> and its left son \<open>q\<close>.\<close>

partial_function (option) succ_loop :: "'k tstate \<Rightarrow> nat \<Rightarrow> nat \<Rightarrow> (nat \<times> nat) option" where
  "succ_loop st r q =
     (case n_llink (t_node st q) of None \<Rightarrow> Some (r, q) | Some q' \<Rightarrow> succ_loop st q q')"

text \<open>From D1 on: the replacement of the node \<open>n\<close>.\<close>

definition tdelete_join :: "'k tstate \<Rightarrow> nat \<Rightarrow> (ptr \<times> 'k tstate) option" where
  "tdelete_join st n =
     (let rn = n_rlink (t_node st n); ln = n_llink (t_node st n)
      in case ln of
           None \<Rightarrow> Some (rn, st)
         | Some q \<Rightarrow>
             (case rn of
                None \<Rightarrow> Some (Some q, st)
              | Some r \<Rightarrow>
                  (case n_llink (t_node st r) of
                     None \<Rightarrow> Some (Some r, store (LLink r) (Some q) st)
                   | Some q0 \<Rightarrow>
                       Option.bind (succ_loop st r q0) (\<lambda>(r', q').
                         let st1 = store (LLink r') (n_rlink (t_node st q')) st;
                             st2 = store (LLink q') (n_llink (t_node st1 n)) st1;
                             st3 = store (RLink q') (n_rlink (t_node st2 n)) st2
                         in Some (Some q', st3)))))"

text \<open>The result is the returned parent, the freed node and the state.\<close>

definition tdelete ::
    "('k \<Rightarrow> 'k \<Rightarrow> int) \<Rightarrow> 'k \<Rightarrow> link option \<Rightarrow> 'k tstate \<Rightarrow> (ptr \<times> ptr \<times> 'k tstate) option" where
  "tdelete cmp key rootp st =
     (case rootp of
        None \<Rightarrow> Some (None, None, st)
      | Some ln \<Rightarrow>
          (case deref st ln of
             None \<Rightarrow> Some (None, None, st)
           | Some n0 \<Rightarrow>
               Option.bind (tdelete_walk cmp key st ln n0 n0) (\<lambda>w.
                 case w of
                   None \<Rightarrow> Some (None, None, st)
                 | Some (ln', n, p) \<Rightarrow>
                     Option.bind (tdelete_join st n) (\<lambda>(q, st1). Some (Some p, Some n, store ln' q st1)))))"

text \<open>\<^verbatim>\<open>action\<close> is called with the node, the kind of visit and the level; it may read but not change
  the tree.\<close>

partial_function (option) twalk_node ::
    "'k tstate \<Rightarrow> (nat \<Rightarrow> visit \<Rightarrow> int \<Rightarrow> 's \<Rightarrow> 's) \<Rightarrow> nat \<Rightarrow> int \<Rightarrow> 's \<Rightarrow> 's option" where
  "twalk_node st action n level s =
     (if n_llink (t_node st n) = None \<and> n_rlink (t_node st n) = None then Some (action n LeafV level s)
      else
        Option.bind
          (case n_llink (t_node st n) of
             None \<Rightarrow> Some (action n Preorder level s)
           | Some l \<Rightarrow> twalk_node st action l (level + 1) (action n Preorder level s)) (\<lambda>s1.
        Option.bind
          (case n_rlink (t_node st n) of
             None \<Rightarrow> Some (action n Postorder level s1)
           | Some r \<Rightarrow> twalk_node st action r (level + 1) (action n Postorder level s1)) (\<lambda>s2.
        Some (action n Endorder level s2))))"

definition twalk :: "'k tstate \<Rightarrow> ptr \<Rightarrow> (nat \<Rightarrow> visit \<Rightarrow> int \<Rightarrow> 's \<Rightarrow> 's) option \<Rightarrow> 's \<Rightarrow> 's option" where
  "twalk st root action s =
     (case root of None \<Rightarrow> Some s
      | Some n \<Rightarrow> (case action of None \<Rightarrow> Some s | Some f \<Rightarrow> twalk_node st f n 0 s))"

section \<open>The tree a store holds\<close>

primrec trep :: "'k tstate \<Rightarrow> ptr \<Rightarrow> nat tree \<Rightarrow> bool" where
  "trep st p Leaf \<longleftrightarrow> p = None"
| "trep st p (Node l a r) \<longleftrightarrow> p = Some a \<and> trep st (n_llink (t_node st a)) l \<and> trep st (n_rlink (t_node st a)) r"

lemma trep_None [simp]: "trep st None t \<longleftrightarrow> t = Leaf"
  by (cases t) auto

lemma trep_Some: "trep st (Some a) t \<longleftrightarrow>
    (\<exists>l r. t = Node l a r \<and> trep st (n_llink (t_node st a)) l \<and> trep st (n_rlink (t_node st a)) r)"
  by (cases t) auto

lemma trep_cong:
  "(\<And>a. a \<in> set_tree t \<Longrightarrow> n_llink (t_node st a) = n_llink (t_node st' a) \<and> n_rlink (t_node st a) = n_rlink (t_node st' a)) \<Longrightarrow>
     trep st p t = trep st' p t"
  by (induction t arbitrary: p) auto


subsection \<open>Replacing a subtree\<close>

text \<open>The way from a link down to a subtree.\<close>

datatype way = GoL nat "nat tree" | GoR "nat tree" nat

fun plug :: "way list \<Rightarrow> nat tree \<Rightarrow> nat tree" where
  "plug [] t = t"
| "plug (GoL a r # c) t = Node (plug c t) a r"
| "plug (GoR l a # c) t = Node l a (plug c t)"

fun way_link :: "link \<Rightarrow> way list \<Rightarrow> link" where
  "way_link ln [] = ln"
| "way_link ln (GoL a r # c) = way_link (LLink a) c"
| "way_link ln (GoR l a # c) = way_link (RLink a) c"

fun before :: "way list \<Rightarrow> nat list" where
  "before [] = []"
| "before (GoL a r # c) = before c"
| "before (GoR l a # c) = inorder l @ a # before c"

fun behind :: "way list \<Rightarrow> nat list" where
  "behind [] = []"
| "behind (GoL a r # c) = behind c @ a # inorder r"
| "behind (GoR l a # c) = behind c"

fun way_parent :: "nat \<Rightarrow> way list \<Rightarrow> nat" where
  "way_parent p [] = p"
| "way_parent p (GoL a r # c) = way_parent a c"
| "way_parent p (GoR l a # c) = way_parent a c"

primrec link_node :: "link \<Rightarrow> ptr" where
  "link_node Root = None"
| "link_node (LLink a) = Some a"
| "link_node (RLink a) = Some a"

lemma inorder_plug: "inorder (plug c t) = before c @ inorder t @ behind c"
  by (induction c t rule: plug.induct) auto

lemma set_plug: "set_tree (plug c t) = set (before c) \<union> set_tree t \<union> set (behind c)"
  by (simp flip: set_inorder add: inorder_plug Un_assoc)

lemma trep_plug: "trep st (deref st ln) (plug c t) \<Longrightarrow> trep st (deref st (way_link ln c)) t"
  by (induction c arbitrary: ln rule: before.induct) (auto simp: deref_def)

lemma way_link_node: "c \<noteq> [] \<Longrightarrow> \<exists>a. link_node (way_link ln c) = Some a \<and> a \<in> set (before c) \<union> set (behind c)"
proof (induction c arbitrary: ln rule: before.induct)
  case (2 a r c)
  then show ?case by (cases "c = []") auto
next
  case (3 l a c)
  then show ?case by (cases "c = []") auto
qed simp

text \<open>A state that differs only in one link below the start and in the nodes of the subtree there.\<close>

lemma trep_replace:
  assumes "trep st (deref st ln) (plug c t)" "distinct (inorder (plug c t))"
    and "\<forall>a. link_node ln = Some a \<longrightarrow> a \<notin> set_tree (plug c t)"
    and "trep st' (deref st' (way_link ln c)) t'"
    and "\<And>l. l \<noteq> way_link ln c \<Longrightarrow> l = ln \<or> (\<exists>a \<in> set_tree (plug c t). link_node l = Some a) \<Longrightarrow>
           (\<And>a. link_node l = Some a \<Longrightarrow> a \<notin> set_tree t) \<Longrightarrow> deref st' l = deref st l"
  shows "trep st' (deref st' ln) (plug c t')"
  using assms
proof (induction c arbitrary: ln rule: before.induct)
  case (2 a r c)
  have other: "deref st' l = deref st l"
    if "l \<noteq> way_link (LLink a) c" "l = ln \<or> (\<exists>x \<in> set_tree (plug c t) \<union> set_tree r \<union> {a}. link_node l = Some x)"
      "\<And>x. link_node l = Some x \<Longrightarrow> x \<notin> set_tree t" for l
    using 2(6)[of l] that by auto
  have d: "a \<notin> set_tree (plug c t)" "set_tree (plug c t) \<inter> set_tree r = {}" "a \<notin> set_tree r"
    using 2(3) by (auto simp flip: set_inorder)
  have at: "a \<notin> set_tree t" "set_tree t \<inter> set_tree r = {}" using d by (auto simp: set_plug)
  have w: "way_link (LLink a) c \<noteq> l" if "link_node l = Some x" "x \<in> set_tree r \<or> l = RLink a" for l x
    using way_link_node[of c "LLink a"] d that by (cases "c = []") (auto simp: set_plug)
  have lnd: "deref st' ln = deref st ln"
    using 2(4) way_link_node[of c "LLink a"] by (intro other) (cases "c = []"; auto simp: set_plug)+
  have sub: "trep st' (deref st' (LLink a)) (plug c t')"
  proof (rule 2(1))
    show "trep st (deref st (LLink a)) (plug c t)" using 2(2) by (simp add: deref_def)
    show "distinct (inorder (plug c t))" using 2(3) by simp
    show "\<forall>x. link_node (LLink a) = Some x \<longrightarrow> x \<notin> set_tree (plug c t)" using d(1) by simp
    show "trep st' (deref st' (way_link (LLink a) c)) t'" using 2(5) by simp
    show "deref st' l = deref st l"
      if "l \<noteq> way_link (LLink a) c" "l = LLink a \<or> (\<exists>x \<in> set_tree (plug c t). link_node l = Some x)"
        "\<And>x. link_node l = Some x \<Longrightarrow> x \<notin> set_tree t" for l
      using that by (intro other) auto
  qed
  have R: "deref st' (RLink x) = deref st (RLink x)" if "x = a \<or> x \<in> set_tree r" for x
    using that at w[of "RLink x" x] by (auto intro!: other)
  have L: "deref st' (LLink x) = deref st (LLink x)" if "x \<in> set_tree r" for x
    using that at w[of "LLink x" x] by (auto intro!: other)
  have "trep st' p r = trep st p r" for p
    using R L by (intro trep_cong) (auto simp: deref_def)
  then show ?case using 2(2) sub R(1)[of a] lnd by (auto simp: deref_def)
next
  case (3 l0 a c)
  have other: "deref st' l = deref st l"
    if "l \<noteq> way_link (RLink a) c" "l = ln \<or> (\<exists>x \<in> set_tree (plug c t) \<union> set_tree l0 \<union> {a}. link_node l = Some x)"
      "\<And>x. link_node l = Some x \<Longrightarrow> x \<notin> set_tree t" for l
    using 3(6)[of l] that by auto
  have d: "a \<notin> set_tree (plug c t)" "set_tree (plug c t) \<inter> set_tree l0 = {}" "a \<notin> set_tree l0"
    using 3(3) by (auto simp flip: set_inorder)
  have at: "a \<notin> set_tree t" "set_tree t \<inter> set_tree l0 = {}" using d by (auto simp: set_plug)
  have w: "way_link (RLink a) c \<noteq> l" if "link_node l = Some x" "x \<in> set_tree l0 \<or> l = LLink a" for l x
    using way_link_node[of c "RLink a"] d that by (cases "c = []") (auto simp: set_plug)
  have lnd: "deref st' ln = deref st ln"
    using 3(4) way_link_node[of c "RLink a"] by (intro other) (cases "c = []"; auto simp: set_plug)+
  have sub: "trep st' (deref st' (RLink a)) (plug c t')"
  proof (rule 3(1))
    show "trep st (deref st (RLink a)) (plug c t)" using 3(2) by (simp add: deref_def)
    show "distinct (inorder (plug c t))" using 3(3) by simp
    show "\<forall>x. link_node (RLink a) = Some x \<longrightarrow> x \<notin> set_tree (plug c t)" using d(1) by simp
    show "trep st' (deref st' (way_link (RLink a) c)) t'" using 3(5) by simp
    show "deref st' l = deref st l"
      if "l \<noteq> way_link (RLink a) c" "l = RLink a \<or> (\<exists>x \<in> set_tree (plug c t). link_node l = Some x)"
        "\<And>x. link_node l = Some x \<Longrightarrow> x \<notin> set_tree t" for l
      using that by (intro other) auto
  qed
  have R: "deref st' (LLink x) = deref st (LLink x)" if "x = a \<or> x \<in> set_tree l0" for x
    using that at w[of "LLink x" x] by (auto intro!: other)
  have L: "deref st' (RLink x) = deref st (RLink x)" if "x \<in> set_tree l0" for x
    using that at w[of "RLink x" x] by (auto intro!: other)
  have "trep st' p l0 = trep st p l0" for p
    using R L by (intro trep_cong) (auto simp: deref_def)
  then show ?case using 3(2) sub R(1)[of a] lnd by (auto simp: deref_def)
qed simp


subsection \<open>Walking down\<close>

context comparator begin

text \<open>The nodes of \<open>t\<close> carry ascending keys.\<close>

definition ordered :: "'a tstate \<Rightarrow> nat list \<Rightarrow> bool" where
  "ordered st ns \<longleftrightarrow> sorted_wrt (\<lambda>x y. cmp (n_key (t_node st x)) (n_key (t_node st y)) < 0) ns"

definition around :: "'a tstate \<Rightarrow> 'a \<Rightarrow> way list \<Rightarrow> bool" where
  "around st key c \<longleftrightarrow> (\<forall>x \<in> set (before c). cmp key (n_key (t_node st x)) > 0) \<and>
     (\<forall>x \<in> set (behind c). cmp key (n_key (t_node st x)) < 0)"

lemma around_GoL:
  assumes "ordered st (inorder (Node l a r))" "cmp key (n_key (t_node st a)) < 0" "around st key c"
  shows "around st key (GoL a r # c)"
proof -
  have "cmp key (n_key (t_node st x)) < 0" if "x \<in> set_tree r" for x
    using assms(1) that cmp_less_trans[OF assms(2)] by (auto simp: ordered_def sorted_wrt_append order.strict_implies_order)
  then show ?thesis using assms(2,3) by (auto simp: around_def)
qed

lemma around_GoR:
  assumes "ordered st (inorder (Node l a r))" "cmp key (n_key (t_node st a)) > 0" "around st key c"
  shows "around st key (GoR l a # c)"
proof -
  have f: "cmp (n_key (t_node st a)) key < 0" using assms(2) cmp_flip by blast
  have "cmp key (n_key (t_node st x)) > 0" if "x \<in> set_tree l" for x
  proof -
    have "cmp (n_key (t_node st x)) (n_key (t_node st a)) < 0"
      using assms(1) that by (auto simp: ordered_def sorted_wrt_append)
    then have "cmp (n_key (t_node st x)) key < 0" using cmp_less_trans f by force
    then show ?thesis using cmp_flip by blast
  qed
  then show ?thesis using assms(2,3) by (auto simp: around_def)
qed

lemma t_walk_ends:
  "trep st (deref st ln) t \<Longrightarrow> ordered st (inorder t) \<Longrightarrow>
     \<exists>c t0. t = plug c t0 \<and> around st key c \<and>
       (case t0 of
          Leaf \<Rightarrow> t_walk cmp key st ln = Some (way_link ln c, None)
        | Node l a r \<Rightarrow> t_walk cmp key st ln = Some (way_link ln c, Some a) \<and> cmp key (n_key (t_node st a)) = 0)"
proof (induction t arbitrary: ln)
  case Leaf
  then show ?case by (intro exI[of _ "[]"] exI[of _ Leaf]) (simp add: t_walk.simps around_def)
next
  case (Node l a r)
  let ?k = "cmp key (n_key (t_node st a))"
  have d: "deref st ln = Some a" "trep st (deref st (LLink a)) l" "trep st (deref st (RLink a)) r"
    using Node.prems(1) by (auto simp: deref_def)
  have o: "ordered st (inorder l)" "ordered st (inorder r)" using Node.prems(2) by (auto simp: ordered_def sorted_wrt_append)
  consider "?k = 0" | "?k < 0" | "?k > 0" by linarith
  then show ?case
  proof cases
    case 1
    then show ?thesis using d
      by (intro exI[of _ "[]"] exI[of _ "Node l a r"]) (simp add: t_walk.simps[of cmp key st ln] around_def Let_def)
  next
    case 2
    obtain c t0 where c: "l = plug c t0" "around st key c"
      "case t0 of Leaf \<Rightarrow> t_walk cmp key st (LLink a) = Some (way_link (LLink a) c, None)
       | Node l' b r' \<Rightarrow> t_walk cmp key st (LLink a) = Some (way_link (LLink a) c, Some b) \<and> cmp key (n_key (t_node st b)) = 0"
      using Node.IH(1)[OF d(2) o(1)] by blast
    have "t_walk cmp key st ln = t_walk cmp key st (LLink a)"
      using 2 d(1) by (simp add: t_walk.simps[of cmp key st ln] Let_def)
    then show ?thesis using c around_GoL[OF Node.prems(2) 2]
      by (intro exI[of _ "GoL a r # c"] exI[of _ t0]) (simp split: tree.splits)
  next
    case 3
    obtain c t0 where c: "r = plug c t0" "around st key c"
      "case t0 of Leaf \<Rightarrow> t_walk cmp key st (RLink a) = Some (way_link (RLink a) c, None)
       | Node l' b r' \<Rightarrow> t_walk cmp key st (RLink a) = Some (way_link (RLink a) c, Some b) \<and> cmp key (n_key (t_node st b)) = 0"
      using Node.IH(2)[OF d(3) o(2)] by blast
    have "t_walk cmp key st ln = t_walk cmp key st (RLink a)"
      using 3 d(1) by (simp add: t_walk.simps[of cmp key st ln] Let_def)
    then show ?thesis using c around_GoR[OF Node.prems(2) 3]
      by (intro exI[of _ "GoR l a # c"] exI[of _ t0]) (simp split: tree.splits)
  qed
qed

text \<open>\<^verbatim>\<open>tdelete\<close> looks at the same links and remembers the last node above.\<close>

lemma tdelete_walk_ends:
  "trep st (deref st ln) t \<Longrightarrow> ordered st (inorder t) \<Longrightarrow> deref st ln = Some n \<Longrightarrow>
     \<exists>c t0. t = plug c t0 \<and> around st key c \<and>
       (case t0 of
          Leaf \<Rightarrow> tdelete_walk cmp key st ln n p = Some None
        | Node l a r \<Rightarrow> tdelete_walk cmp key st ln n p = Some (Some (way_link ln c, a, way_parent p c)) \<and>
            cmp key (n_key (t_node st a)) = 0)"
proof (induction t arbitrary: ln n p)
  case (Node l a r)
  let ?k = "cmp key (n_key (t_node st a))"
  have d: "deref st ln = Some a" "trep st (deref st (LLink a)) l" "trep st (deref st (RLink a)) r"
    using Node.prems(1) by (auto simp: deref_def)
  then have n: "n = a" using Node.prems(3) by simp
  have o: "ordered st (inorder l)" "ordered st (inorder r)" using Node.prems(2) by (auto simp: ordered_def sorted_wrt_append)
  consider "?k = 0" | (lt) "?k < 0" | (gt) "?k > 0" by linarith
  then show ?case
  proof cases
    case 1
    then show ?thesis using d n
      by (intro exI[of _ "[]"] exI[of _ "Node l a r"]) (simp add: tdelete_walk.simps[of cmp key st ln] around_def Let_def)
  next
    case lt
    show ?thesis
    proof (cases "deref st (LLink a)")
      case None
      then have "l = Leaf" using d(2) by simp
      then show ?thesis using None lt n around_GoL[OF Node.prems(2) lt, of "[]"]
        by (intro exI[of _ "[GoL a r]"] exI[of _ Leaf])
          (simp add: tdelete_walk.simps[of cmp key st ln] Let_def around_def)
    next
      case (Some n')
      obtain c t0 where c: "l = plug c t0" "around st key c"
        "case t0 of Leaf \<Rightarrow> tdelete_walk cmp key st (LLink a) n' a = Some None
         | Node l b r \<Rightarrow> tdelete_walk cmp key st (LLink a) n' a = Some (Some (way_link (LLink a) c, b, way_parent a c)) \<and>
             cmp key (n_key (t_node st b)) = 0"
        using Node.IH(1)[OF d(2) o(1) Some, of a] by blast
      have "tdelete_walk cmp key st ln n p = tdelete_walk cmp key st (LLink a) n' a"
        using lt n Some by (simp add: tdelete_walk.simps[of cmp key st ln] Let_def)
      then show ?thesis using c around_GoL[OF Node.prems(2) lt]
        by (intro exI[of _ "GoL a r # c"] exI[of _ t0]) (simp split: tree.splits)
    qed
  next
    case gt
    show ?thesis
    proof (cases "deref st (RLink a)")
      case None
      then have "r = Leaf" using d(3) by simp
      then show ?thesis using None gt n around_GoR[OF Node.prems(2) gt, of "[]"]
        by (intro exI[of _ "[GoR l a]"] exI[of _ Leaf])
          (simp add: tdelete_walk.simps[of cmp key st ln] Let_def around_def)
    next
      case (Some n')
      obtain c t0 where c: "r = plug c t0" "around st key c"
        "case t0 of Leaf \<Rightarrow> tdelete_walk cmp key st (RLink a) n' a = Some None
         | Node l b r \<Rightarrow> tdelete_walk cmp key st (RLink a) n' a = Some (Some (way_link (RLink a) c, b, way_parent a c)) \<and>
             cmp key (n_key (t_node st b)) = 0"
        using Node.IH(2)[OF d(3) o(2) Some, of a] by blast
      have "tdelete_walk cmp key st ln n p = tdelete_walk cmp key st (RLink a) n' a"
        using gt n Some by (simp add: tdelete_walk.simps[of cmp key st ln] Let_def)
      then show ?thesis using c around_GoR[OF Node.prems(2) gt]
        by (intro exI[of _ "GoR l a # c"] exI[of _ t0]) (simp split: tree.splits)
    qed
  qed
qed simp

lemma ordered_distinct: "ordered st ns \<Longrightarrow> distinct ns"
  by (induction ns) (auto simp: ordered_def cmp_refl)

end

subsection \<open>Storing\<close>

lemma deref_store: "deref (store ln v st) l = (if l = ln then v else deref st l)"
  by (auto simp: deref_def store_def split: link.splits)

lemma store_key [simp]: "n_key (t_node (store ln v st) a) = n_key (t_node st a)"
  by (simp add: store_def split: link.splits)

lemma llink_deref: "n_llink (t_node st a) = deref st (LLink a)"
  and rlink_deref: "n_rlink (t_node st a) = deref st (RLink a)"
  by (simp_all add: deref_def)

lemmas store_simps = llink_deref rlink_deref deref_store

lemma trep_store:
  "(case link_node ln of None \<Rightarrow> True | Some a \<Rightarrow> a \<notin> set_tree t) \<Longrightarrow> trep (store ln v st) p t = trep st p t"
  by (rule trep_cong) (auto simp: store_simps)

text \<open>The leftmost node of a right subtree.\<close>

lemma succ_loop_ends:
  "trep st (Some q) t \<Longrightarrow>
     \<exists>c r' q' s. t = plug c (Node Leaf q' s) \<and> before c = [] \<and> way_link (LLink r) c = LLink r' \<and>
       succ_loop st r q = Some (r', q')"
proof (induction t arbitrary: q r)
  case (Node t1 a t2)
  then have q: "q = a" "trep st (n_llink (t_node st a)) t1" by auto
  show ?case
  proof (cases "n_llink (t_node st a)")
    case None
    then show ?thesis using q
      by (intro exI[of _ "[]"] exI[of _ r] exI[of _ a] exI[of _ t2]) (simp add: succ_loop.simps)
  next
    case (Some b)
    obtain c r' q' s where "t1 = plug c (Node Leaf q' s)" "before c = []" "way_link (LLink a) c = LLink r'"
      "succ_loop st a b = Some (r', q')" using Node.IH(1)[of b a] q Some by auto
    then show ?thesis using q Some
      by (intro exI[of _ "GoL a t2 # c"] exI[of _ r'] exI[of _ q'] exI[of _ s]) (simp add: succ_loop.simps[of st r a])
  qed
qed simp

text \<open>From D1 on the node is replaced by a tree of the remaining nodes, in the same order.\<close>

lemma tdelete_join_ends:
  assumes t: "trep st (Some n) (Node l n r)" and d: "distinct (inorder (Node l n r))"
  shows "\<exists>q st1 t1. tdelete_join st n = Some (q, st1) \<and> trep st1 q t1 \<and> inorder t1 = inorder l @ inorder r \<and>
      (\<forall>ln. (\<forall>a. link_node ln = Some a \<longrightarrow> a \<notin> set_tree (Node l n r)) \<longrightarrow> deref st1 ln = deref st ln) \<and>
      (\<forall>a. n_key (t_node st1 a) = n_key (t_node st a))"
proof -
  have lr: "trep st (deref st (LLink n)) l" "trep st (deref st (RLink n)) r" using t by (auto simp: deref_def)
  show ?thesis
  proof (cases "deref st (LLink n)")
    case None
    then show ?thesis using lr by (intro exI[of _ "deref st (RLink n)"] exI[of _ st] exI[of _ r])
        (simp add: tdelete_join_def store_simps)
  next
    case (Some q)
    note L = Some
    show ?thesis
    proof (cases "deref st (RLink n)")
      case None
      then show ?thesis using lr L by (intro exI[of _ "Some q"] exI[of _ st] exI[of _ l])
          (simp add: tdelete_join_def store_simps)
    next
      case (Some b)
      then obtain rl rr where r: "r = Node rl b rr" "trep st (deref st (LLink b)) rl" "trep st (deref st (RLink b)) rr"
        using lr(2) by (auto simp: trep_Some deref_def)
      note R = Some
      show ?thesis
      proof (cases "deref st (LLink b)")
        case None
        let ?st = "store (LLink b) (Some q) st"
        have rl: "rl = Leaf" using r(2) None by simp
        have "trep ?st (Some q) l" "trep ?st (deref st (RLink b)) rr"
          using lr(1) L r d by (auto simp: trep_store)
        then have "trep ?st (Some b) (Node l b rr)" by (simp add: store_simps)
        then show ?thesis using L R None r rl
          by (intro exI[of _ "Some b"] exI[of _ ?st] exI[of _ "Node l b rr"]) (auto simp: tdelete_join_def store_simps)
      next
        case (Some q0)
        have "trep st (Some q0) rl" using r(2) Some by simp
        from succ_loop_ends[OF this, of b] obtain c r' q' s where c: "rl = plug c (Node Leaf q' s)" "before c = []"
          "way_link (LLink b) c = LLink r'" "succ_loop st b q0 = Some (r', q')" by blast
        let ?s1 = "store (LLink r') (deref st (RLink q')) st"
        let ?s2 = "store (LLink q') (deref ?s1 (LLink n)) ?s1"
        let ?s3 = "store (RLink q') (deref ?s2 (RLink n)) ?s2"
        have dd: "distinct (inorder l @ n # (q' # inorder s @ behind c) @ b # inorder rr)"
          using d r(1) c by (simp add: inorder_plug)
        have r': "r' = b \<or> r' \<in> set (behind c)" using way_link_node[of c "LLink b"] c by (cases "c = []") auto
        have q': "trep st (deref st (LLink r')) (Node Leaf q' s)" "deref st (LLink r') = Some q'"
          using trep_plug[of st "LLink b" c "Node Leaf q' s"] r(2) c by (auto simp: deref_def)
        have s: "trep st (deref st (RLink q')) s" using q' by (simp add: deref_def)
        have "trep ?s1 (deref ?s1 (LLink b)) (plug c s)"
        proof (rule trep_replace[where st = st and t = "Node Leaf q' s"])
          show "trep st (deref st (LLink b)) (plug c (Node Leaf q' s))" using r(2) c(1) by simp
          show "distinct (inorder (plug c (Node Leaf q' s)))" using dd c by (auto simp: inorder_plug)
          show "\<forall>a. link_node (LLink b) = Some a \<longrightarrow> a \<notin> set_tree (plug c (Node Leaf q' s))"
            using dd c by (auto simp: set_plug)
          show "trep ?s1 (deref ?s1 (way_link (LLink b) c)) s"
            using c(3) s r' dd by (subst trep_store) (auto simp: deref_store)
          show "deref ?s1 l = deref st l" if "l \<noteq> way_link (LLink b) c" for l
            using that c(3) by (simp add: deref_store)
        qed
        moreover have "q' \<notin> set_tree (plug c s)" using dd c by (auto simp: set_plug)
        ultimately have "trep ?s3 (deref ?s1 (LLink b)) (plug c s)" by (simp add: trep_store)
        moreover have nin: "r' \<notin> set_tree rr" "r' \<notin> set_tree l" "r' \<noteq> n" "q' \<notin> set_tree rr" "q' \<notin> set_tree l"
          using r' dd by auto
        then have "trep ?s3 (deref st (RLink b)) rr" using r(3) by (simp add: trep_store)
        ultimately have B: "trep ?s3 (Some b) (Node (plug c s) b rr)" using dd by (auto simp: store_simps)
        have "trep ?s3 (Some q) l" using lr(1) L nin by (simp add: trep_store)
        then have Q: "trep ?s3 (Some q') (Node l q' (Node (plug c s) b rr))"
          using B L R dd r' by (auto simp: store_simps)
        have "tdelete_join st n = Some (Some q', ?s3)"
          using L R Some c(4) by (simp add: tdelete_join_def llink_deref rlink_deref Let_def)
        moreover have "r' \<in> set_tree r \<and> q' \<in> set_tree r" using r' r(1) c(1) by (auto simp: set_plug)
        ultimately show ?thesis using Q r(1) c
          by (intro exI[of _ "Some q'"] exI[of _ ?s3] exI[of _ "Node l q' (Node (plug c s) b rr)"])
            (auto simp: inorder_plug deref_store)
      qed
    qed
  qed
qed


subsection \<open>The operations\<close>

context comparator begin

lemma ordered_cong: "(\<And>x. x \<in> set ns \<Longrightarrow> n_key (t_node st x) = n_key (t_node st' x)) \<Longrightarrow> ordered st ns = ordered st' ns"
  by (induction ns) (auto simp: ordered_def)

lemma ordered_append: "ordered st (us @ vs) \<longleftrightarrow> ordered st us \<and> ordered st vs \<and>
    (\<forall>x \<in> set us. \<forall>y \<in> set vs. cmp (n_key (t_node st x)) (n_key (t_node st y)) < 0)"
  by (simp add: ordered_def sorted_wrt_append)

lemma ordered_Cons: "ordered st (x # vs) \<longleftrightarrow> ordered st vs \<and> (\<forall>y \<in> set vs. cmp (n_key (t_node st x)) (n_key (t_node st y)) < 0)"
  by (auto simp: ordered_def)

text \<open>A search tree at a link: the store holds the tree, its keys ascend, and the link is outside it.\<close>

definition stree :: "'a tstate \<Rightarrow> link \<Rightarrow> nat tree \<Rightarrow> bool" where
  "stree st ln t \<longleftrightarrow> trep st (deref st ln) t \<and> ordered st (inorder t) \<and>
     (case link_node ln of None \<Rightarrow> True | Some a \<Rightarrow> a \<notin> set_tree t)"

lemma way_link_outside:
  assumes "stree st ln (plug c t)"
  shows "case link_node (way_link ln c) of None \<Rightarrow> True | Some a \<Rightarrow> a \<notin> set_tree t"
proof (cases "c = []")
  case True
  then show ?thesis using assms by (simp add: stree_def)
next
  case False
  from way_link_node[OF this] obtain a where "link_node (way_link ln c) = Some a" "a \<in> set (before c) \<union> set (behind c)" by blast
  moreover have "ordered st (before c @ inorder t @ behind c)"
    using assms by (simp add: stree_def inorder_plug)
  note ordered_distinct[OF this]
  ultimately show ?thesis by auto
qed

lemma tsearch_inserts:
  assumes t: "stree st ln t" and q: "a \<notin> set_tree t" "link_node ln \<noteq> Some a"
    and new: "\<forall>x \<in> set_tree t. cmp key (n_key (t_node st x)) \<noteq> 0"
  shows "\<exists>st' t' us vs. tsearch cmp (Some a) key (Some ln) st = Some (Some a, st') \<and> stree st' ln t' \<and>
           n_key (t_node st' a) = key \<and> (\<forall>x. x \<noteq> a \<longrightarrow> n_key (t_node st' x) = n_key (t_node st x)) \<and>
           inorder t = us @ vs \<and> inorder t' = us @ a # vs"
proof -
  obtain c t0 where c: "t = plug c t0" "around st key c" and w: "case t0 of
      Leaf \<Rightarrow> t_walk cmp key st ln = Some (way_link ln c, None)
    | Node l b r \<Rightarrow> t_walk cmp key st ln = Some (way_link ln c, Some b) \<and> cmp key (n_key (t_node st b)) = 0"
    using t_walk_ends[of st ln t key] t by (auto simp: stree_def)
  have t0: "t0 = Leaf"
    using w new c(1) by (cases t0) (auto simp: set_plug)
  then have w: "t_walk cmp key st ln = Some (way_link ln c, None)" using w by simp
  let ?ln = "way_link ln c" and ?n = "\<lparr>n_key = key, n_llink = None, n_rlink = None\<rparr>"
  let ?s1 = "store ?ln (Some a) st"
  let ?st = "?s1\<lparr>t_node := (t_node ?s1)(a := ?n)\<rparr>"
  have lna: "link_node ?ln \<noteq> Some a"
    using q c(1) way_link_node[of c ln] by (cases "c = []") (auto simp: set_plug)
  have d: "deref ?st l = (if l = LLink a \<or> l = RLink a then None else if l = ?ln then Some a else deref st l)" for l
    using lna by (cases l) (auto simp: deref_def store_def split: link.splits)
  have tr: "trep ?st (deref ?st ln) (plug c (Node Leaf a Leaf))"
  proof (rule trep_replace[where st = st and t = Leaf])
    show "trep st (deref st ln) (plug c Leaf)" using t c t0 by (simp add: stree_def)
    show "distinct (inorder (plug c Leaf))" using t c t0 ordered_distinct by (auto simp: stree_def)
    show "\<forall>x. link_node ln = Some x \<longrightarrow> x \<notin> set_tree (plug c Leaf)" using t c t0 by (auto simp: stree_def)
    show "trep ?st (deref ?st ?ln) (Node Leaf a Leaf)" using lna d[of ?ln] by auto
    show "deref ?st l = deref st l" if "l \<noteq> ?ln" "l = ln \<or> (\<exists>x \<in> set_tree (plug c Leaf). link_node l = Some x)" for l
      unfolding d using that q c(1) t0 by auto
  qed
  have k: "n_key (t_node ?st x) = (if x = a then key else n_key (t_node st x))" for x by simp
  have "a \<notin> set (before c)" "a \<notin> set (behind c)" using q c(1) by (auto simp: set_plug)
  then have k': "n_key (t_node ?st x) = n_key (t_node st x)" if "x \<in> set (before c @ behind c)" for x
    using that k by auto
  have "ordered st (before c @ behind c)" using t c t0 by (simp add: stree_def inorder_plug)
  then have "ordered ?st (before c @ behind c)" using ordered_cong[OF k'] by blast
  moreover have "cmp (n_key (t_node st x)) key < 0" if "x \<in> set (before c)" for x
    using that c(2) cmp_flip by (auto simp: around_def)
  moreover have "cmp key (n_key (t_node st x)) < 0" if "x \<in> set (behind c)" for x
    using that c(2) by (simp add: around_def)
  ultimately have "ordered ?st (before c @ a # behind c)"
    using k k' by (auto simp: ordered_append ordered_Cons)
  then have "stree ?st ln (plug c (Node Leaf a Leaf))"
    using tr t q c t0 by (auto simp: stree_def inorder_plug set_plug split: option.splits)
  then show ?thesis using w k c t0
    by (intro exI[of _ ?st] exI[of _ "plug c (Node Leaf a Leaf)"] exI[of _ "before c"] exI[of _ "behind c"])
      (simp add: tsearch_def Let_def inorder_plug)
qed

lemma t_walk_finds:
  assumes t: "stree st ln t" and x: "x \<in> set_tree t" "cmp key (n_key (t_node st x)) = 0"
  shows "\<exists>ln'. t_walk cmp key st ln = Some (ln', Some x)"
proof -
  obtain c t0 where c: "t = plug c t0" "around st key c" and w: "case t0 of
      Leaf \<Rightarrow> t_walk cmp key st ln = Some (way_link ln c, None)
    | Node l b r \<Rightarrow> t_walk cmp key st ln = Some (way_link ln c, Some b) \<and> cmp key (n_key (t_node st b)) = 0"
    using t_walk_ends[of st ln t key] t by (auto simp: stree_def)
  have x0: "x \<in> set_tree t0" using x c by (auto simp: around_def set_plug)
  then obtain l b r where b: "t0 = Node l b r" by (cases t0) auto
  have o: "ordered st (inorder l @ b # inorder r)" using t c b by (auto simp: stree_def inorder_plug ordered_def sorted_wrt_append)
  have kb: "cmp key (n_key (t_node st b)) = 0" using w b by simp
  have "x = b"
  proof (rule ccontr)
    assume "x \<noteq> b"
    then consider "x \<in> set_tree l" | "x \<in> set_tree r" using x0 b by auto
    then have "cmp (n_key (t_node st x)) (n_key (t_node st b)) < 0 \<or> cmp (n_key (t_node st b)) (n_key (t_node st x)) < 0"
      using o by cases (auto simp: ordered_def sorted_wrt_append)
    moreover have "cmp (n_key (t_node st x)) key = 0" "cmp (n_key (t_node st b)) key = 0" using x(2) kb cmp_zero by auto
    ultimately show False
      using cmp_less_trans'[of key "n_key (t_node st x)" "n_key (t_node st b)"]
        cmp_less_trans'[of key "n_key (t_node st b)" "n_key (t_node st x)"] x(2) kb by auto
  qed
  then show ?thesis using w b by auto
qed

lemma t_walk_misses:
  assumes t: "stree st ln t" and x: "\<forall>x \<in> set_tree t. cmp key (n_key (t_node st x)) \<noteq> 0"
  shows "\<exists>ln'. t_walk cmp key st ln = Some (ln', None)"
proof -
  obtain c t0 where c: "t = plug c t0" and w: "case t0 of
      Leaf \<Rightarrow> t_walk cmp key st ln = Some (way_link ln c, None)
    | Node l b r \<Rightarrow> t_walk cmp key st ln = Some (way_link ln c, Some b) \<and> cmp key (n_key (t_node st b)) = 0"
    using t_walk_ends[of st ln t key] t by (auto simp: stree_def)
  then show ?thesis using x by (cases t0) (auto simp: set_plug)
qed

lemma tdelete_removes:
  assumes t: "stree st ln t"
  shows "(\<forall>x \<in> set_tree t. cmp key (n_key (t_node st x)) \<noteq> 0) \<and> tdelete cmp key (Some ln) st = Some (None, None, st) \<or>
    (\<exists>x p st' t' us vs. x \<in> set_tree t \<and> cmp key (n_key (t_node st x)) = 0 \<and> p \<in> set_tree t \<and>
       tdelete cmp key (Some ln) st = Some (Some p, Some x, st') \<and> stree st' ln t' \<and>
       inorder t = us @ x # vs \<and> inorder t' = us @ vs \<and> (\<forall>a. n_key (t_node st' a) = n_key (t_node st a)))"
proof (cases "deref st ln")
  case None
  then show ?thesis using t by (auto simp: tdelete_def stree_def)
next
  case (Some n0)
  then have n0: "n0 \<in> set_tree t" using t by (auto simp: stree_def trep_Some)
  obtain c t0 where c: "t = plug c t0" "around st key c" and w: "case t0 of
      Leaf \<Rightarrow> tdelete_walk cmp key st ln n0 n0 = Some None
    | Node l a r \<Rightarrow> tdelete_walk cmp key st ln n0 n0 = Some (Some (way_link ln c, a, way_parent n0 c)) \<and>
        cmp key (n_key (t_node st a)) = 0"
    using tdelete_walk_ends[of st ln t n0 key n0] t Some by (auto simp: stree_def)
  show ?thesis
  proof (cases t0)
    case Leaf
    then show ?thesis using c w Some by (auto simp: around_def set_plug tdelete_def)
  next
    case (Node l x r)
    let ?ln = "way_link ln c"
    have p: "way_parent n \<gamma> \<in> set_tree (plug \<gamma> \<tau>) \<or> way_parent n \<gamma> = n" for n \<gamma> \<tau>
      by (induction \<gamma> arbitrary: n rule: before.induct) auto
    have dis: "distinct (inorder (plug c (Node l x r)))" using t c Node ordered_distinct by (auto simp: stree_def)
    have st0: "trep st (deref st ?ln) (Node l x r)" 
      using trep_plug[of st ln c "Node l x r"] t c Node by (simp add: stree_def)
    then have sx: "trep st (Some x) (Node l x r)" by simp
    have "distinct (inorder (Node l x r))" using dis by (auto simp: inorder_plug)
    from tdelete_join_ends[OF sx this] obtain q st1 t1 where
      j: "tdelete_join st x = Some (q, st1)" "trep st1 q t1" "inorder t1 = inorder l @ inorder r"
      and oth: "\<And>ln. (\<forall>a. link_node ln = Some a \<longrightarrow> a \<notin> set_tree (Node l x r)) \<Longrightarrow> deref st1 ln = deref st ln"
      and key: "\<And>a. n_key (t_node st1 a) = n_key (t_node st a)" by blast
    let ?st = "store ?ln q st1"
    have sub: "set_tree t1 \<subseteq> set_tree (Node l x r)" using j(3) by (auto simp flip: set_inorder)
    have out: "case link_node ?ln of None \<Rightarrow> True | Some a \<Rightarrow> a \<notin> set_tree (Node l x r)"
      using way_link_outside t c Node by auto
    have tr: "trep ?st (deref ?st ln) (plug c t1)"
    proof (rule trep_replace[where st = st and t = "Node l x r"])
      show "trep st (deref st ln) (plug c (Node l x r))" using t c Node by (simp add: stree_def)
      show "distinct (inorder (plug c (Node l x r)))" by (rule dis)
      show "\<forall>a. link_node ln = Some a \<longrightarrow> a \<notin> set_tree (plug c (Node l x r))" using t c Node by (auto simp: stree_def)
      show "trep ?st (deref ?st ?ln) t1"
        using j(2) out sub by (subst deref_store, subst trep_store) (auto split: option.splits)
      show "deref ?st m = deref st m" if "m \<noteq> ?ln" "\<And>a. link_node m = Some a \<Longrightarrow> a \<notin> set_tree (Node l x r)" for m
        using that oth by (simp add: deref_store)
    qed
    have io: "inorder t = before c @ inorder l @ x # inorder r @ behind c" using c Node by (simp add: inorder_plug)
    have io': "inorder (plug c t1) = before c @ inorder l @ inorder r @ behind c" using j(3) by (simp add: inorder_plug)
    have "set_tree (plug c t1) \<subseteq> set_tree t" by (auto simp: io io' simp flip: set_inorder)
    moreover have "ordered ?st (inorder (plug c t1))"
      using t io io' key by (auto simp: stree_def ordered_def sorted_wrt_append)
    ultimately have "stree ?st ln (plug c t1)" using tr t by (auto simp: stree_def split: option.splits)
    moreover have "tdelete cmp key (Some ln) st = Some (Some (way_parent n0 c), Some x, ?st)"
      using w Node Some j(1) by (simp add: tdelete_def)
    moreover have "way_parent n0 c \<in> set_tree t" using p[of n0 c t0] n0 c by auto
    ultimately show ?thesis using io io' key w Node
      by (intro disjI2 exI[of _ x] exI[of _ "way_parent n0 c"] exI[of _ ?st] exI[of _ "plug c t1"]
          exI[of _ "before c @ inorder l"] exI[of _ "inorder r @ behind c"]) (auto simp flip: set_inorder)
  qed
qed

end


subsection \<open>The traversal\<close>

fun visits :: "nat tree \<Rightarrow> int \<Rightarrow> (nat \<times> visit \<times> int) list" where
  "visits Leaf lev = []"
| "visits (Node l a r) lev =
     (if l = Leaf \<and> r = Leaf then [(a, LeafV, lev)]
      else (a, Preorder, lev) # visits l (lev + 1) @ (a, Postorder, lev) # visits r (lev + 1) @ [(a, Endorder, lev)])"

lemma twalk_node_visits:
  "trep st (Some n) t \<Longrightarrow> twalk_node st f n lev s = Some (fold (\<lambda>(a, v, k). f a v k) (visits t lev) s)"
proof (induction t arbitrary: n lev s)
  case (Node l a r)
  then have d: "n = a" "trep st (n_llink (t_node st a)) l" "trep st (n_rlink (t_node st a)) r" by auto
  show ?case using d Node.IH
    by (subst twalk_node.simps) (auto split: option.splits)
qed simp

text \<open>The visits of a leaf and the second visits of the other nodes list the nodes in key order.\<close>

lemma visits_inorder:
  "map fst (filter (\<lambda>(a, v, k). v = LeafV \<or> v = Postorder) (visits t lev)) = inorder t"
  by (induction t arbitrary: lev) auto

section \<open>Properties\<close>

text \<open>On an ascending table \<^verbatim>\<open>bsearch\<close> returns an element that compares equal to the key, or
  \<^verbatim>\<open>NULL\<close> when the table holds none.\<close>

theorem bsearch_finds:
  assumes "comparator cmp" "sorted_wrt (\<lambda>x y. cmp x y \<le> 0) xs"
  shows "case bsearch cmp key xs (length xs) of
           Some p \<Rightarrow> p < length xs \<and> cmp key (xs ! p) = 0
         | None \<Rightarrow> \<forall>x \<in> set xs. cmp key x \<noteq> 0"
proof -
  have "case bsearch_loop cmp key xs 0 (int (length xs) - 1) of
           Some p \<Rightarrow> p < length xs \<and> cmp key (xs ! p) = 0
         | None \<Rightarrow> \<forall>k < length xs. cmp key (xs ! k) \<noteq> 0"
    by (rule comparator.bsearch_loop_finds[OF assms]) auto
  then show ?thesis by (auto simp: bsearch_def in_set_conv_nth split: option.splits)
qed

theorem bsearch_finds_witness: "bsearch str_diff [98] [[97], [98], [99, 97]] 3 = Some 1"
proof -
  have "sorted_wrt (\<lambda>x y. str_diff x y \<le> 0) [[97], [98], [99, 97]]" by simp
  from bsearch_finds[OF string_order.comparator_axioms this, of "[98]"]
  obtain p where "bsearch str_diff [98] [[97], [98], [99, 97]] 3 = Some p" "p < 3"
    "str_diff [98] ([[97], [98], [99, 97]] ! p) = 0"
    by (auto split: option.splits simp: numeral_3_eq_3)
  then show ?thesis by (auto simp: less_Suc_eq numeral_3_eq_3)
qed

text \<open>C28: \<^verbatim>\<open>tsearch\<close> returns the node with the key if the tree has one, and leaves the tree alone;
  otherwise it links in the new node so that the tree stays a search tree, with the other nodes and keys as they
  were. \<^verbatim>\<open>tfind\<close> then finds that node.\<close>

theorem tsearch_finds_or_adds:
  assumes "comparator cmp" "comparator.stree cmp st ln t" "a \<notin> set_tree t" "link_node ln \<noteq> Some a"
  shows "\<exists>n st' t'. tsearch cmp (Some a) key (Some ln) st = Some (Some n, st') \<and> comparator.stree cmp st' ln t' \<and>
     n \<in> set_tree t' \<and> cmp key (n_key (t_node st' n)) = 0 \<and> tfind cmp key (Some ln) st' = Some (Some n) \<and>
     (if \<exists>x \<in> set_tree t. cmp key (n_key (t_node st x)) = 0 then st' = st \<and> t' = t
      else n = a \<and> n_key (t_node st' a) = key \<and> set_tree t' = insert a (set_tree t) \<and>
        (\<forall>x \<in> set_tree t. n_key (t_node st' x) = n_key (t_node st x)))"
proof (cases "\<exists>x \<in> set_tree t. cmp key (n_key (t_node st x)) = 0")
  case True
  then obtain x where x: "x \<in> set_tree t" "cmp key (n_key (t_node st x)) = 0" by blast
  from comparator.t_walk_finds[OF assms(1,2) this] obtain ln' where "t_walk cmp key st ln = Some (ln', Some x)" by blast
  then show ?thesis using assms(2) x True
    by (intro exI[of _ x] exI[of _ st] exI[of _ t]) (auto simp: tsearch_def tfind_def)
next
  case False
  from comparator.tsearch_inserts[OF assms, of key] False obtain st' t' us vs where
    i: "tsearch cmp (Some a) key (Some ln) st = Some (Some a, st')" "comparator.stree cmp st' ln t'"
      "n_key (t_node st' a) = key" "\<And>x. x \<noteq> a \<Longrightarrow> n_key (t_node st' x) = n_key (t_node st x)"
      "inorder t = us @ vs" "inorder t' = us @ a # vs" by blast
  have s: "set_tree t' = insert a (set_tree t)" using i(5,6) by (simp flip: set_inorder)
  have k: "cmp key (n_key (t_node st' a)) = 0" using i(3) comparator.cmp_refl[OF assms(1)] by simp
  obtain ln' where "t_walk cmp key st' ln = Some (ln', Some a)"
    using comparator.t_walk_finds[OF assms(1) i(2) _ k] s by blast
  then have "tfind cmp key (Some ln) st' = Some (Some a)" by (simp add: tfind_def)
  moreover have "n_key (t_node st' x) = n_key (t_node st x)" if "x \<in> set_tree t" for x
    using i(4)[of x] that assms(3) by blast
  ultimately show ?thesis using i(1-3) s k False
    by (intro exI[of _ a] exI[of _ st'] exI[of _ t']) simp
qed

theorem tsearch_finds_or_adds_witness:
  "\<exists>n st'. tsearch (\<lambda>x y :: int. x - y) (Some 7) 5 (Some Root) \<lparr>t_root = None, t_node = (\<lambda>_. \<lparr>n_key = 0, n_llink = None, n_rlink = None\<rparr>)\<rparr>
     = Some (Some n, st') \<and> n_key (t_node st' n) = 5"
proof -
  let ?st = "\<lparr>t_root = None, t_node = (\<lambda>_. \<lparr>n_key = (0 :: int), n_llink = None, n_rlink = None\<rparr>)\<rparr>"
  have c: "comparator (\<lambda>x y :: int. x - y)" by unfold_locales auto
  have "comparator.stree (\<lambda>x y :: int. x - y) ?st Root Leaf"
    by (simp add: comparator.stree_def[OF c] comparator.ordered_def[OF c] deref_def)
  from tsearch_finds_or_adds[OF c this, of 7 5] show ?thesis by auto
qed

text \<open>C27: \<^verbatim>\<open>tdelete\<close> takes exactly the node with the key out of the tree and frees it: the tree stays a
  search tree, the other nodes keep their order, \<^verbatim>\<open>tfind\<close> no longer finds the key, and a node of the
  old tree is returned. Without such a node it returns \<^verbatim>\<open>NULL\<close> and changes nothing.\<close>

theorem tdelete_takes_out:
  assumes "comparator cmp" "comparator.stree cmp st ln t"
  shows "if \<exists>x \<in> set_tree t. cmp key (n_key (t_node st x)) = 0
    then \<exists>x p st' t'. x \<in> set_tree t \<and> cmp key (n_key (t_node st x)) = 0 \<and> p \<in> set_tree t \<and>
       tdelete cmp key (Some ln) st = Some (Some p, Some x, st') \<and> comparator.stree cmp st' ln t' \<and>
       inorder t' = remove1 x (inorder t) \<and> tfind cmp key (Some ln) st' = Some None \<and>
       (\<forall>a. n_key (t_node st' a) = n_key (t_node st a))
    else tdelete cmp key (Some ln) st = Some (None, None, st)"
proof (cases "\<exists>x \<in> set_tree t. cmp key (n_key (t_node st x)) = 0")
  case False
  then show ?thesis using comparator.tdelete_removes[OF assms, of key] by auto
next
  case True
  let ?k = "\<lambda>x. n_key (t_node st x)"
  from comparator.tdelete_removes[OF assms, of key] True obtain x p st' t' us vs where
    d: "x \<in> set_tree t" "cmp key (?k x) = 0" "p \<in> set_tree t"
      "tdelete cmp key (Some ln) st = Some (Some p, Some x, st')" "comparator.stree cmp st' ln t'"
      "inorder t = us @ x # vs" "inorder t' = us @ vs" "\<And>a. n_key (t_node st' a) = ?k a" by blast
  have o: "comparator.ordered cmp st (us @ x # vs)"
    using assms(2) d(6) by (simp add: comparator.stree_def[OF assms(1)])
  have "x \<notin> set us" using comparator.ordered_distinct[OF assms(1) o] by simp
  then have r: "inorder t' = remove1 x (inorder t)" using d(6,7) by (simp add: remove1_append)
  have "cmp key (n_key (t_node st' y)) \<noteq> 0" if "y \<in> set_tree t'" for y
  proof
    assume e: "cmp key (n_key (t_node st' y)) = 0"
    have y: "y \<in> set us \<or> y \<in> set vs" using that d(7) by (auto simp flip: set_inorder)
    have kx: "cmp (?k x) key = 0" "cmp (?k y) key = 0" "cmp key (?k y) = 0"
      using d(2,8) e comparator.cmp_zero[OF assms(1)] by auto
    have "cmp (?k x) (?k y) = 0"
      using comparator.cmp_equal_right(2)[OF assms(1) kx(2), of "?k x"] kx(1) by simp
    moreover have "cmp (?k y) (?k x) < 0 \<or> cmp (?k x) (?k y) < 0"
      using y o by (auto simp: comparator.ordered_def[OF assms(1)] sorted_wrt_append)
    ultimately show False using comparator.cmp_zero[OF assms(1), of "?k x" "?k y"] by auto
  qed
  then obtain ln' where "t_walk cmp key st' ln = Some (ln', None)"
    using comparator.t_walk_misses[OF assms(1) d(5), of key] by blast
  then have "tfind cmp key (Some ln) st' = Some None" by (simp add: tfind_def)
  then show ?thesis using d(1-5,8) r True by auto
qed

theorem tdelete_takes_out_witness:
  "\<exists>p st'. tdelete (\<lambda>x y :: int. x - y) 5 (Some Root)
       \<lparr>t_root = Some 1, t_node = (\<lambda>_. \<lparr>n_key = 5, n_llink = None, n_rlink = None\<rparr>)\<rparr> = Some (Some p, Some 1, st') \<and>
     tfind (\<lambda>x y :: int. x - y) 5 (Some Root) st' = Some None"
proof -
  let ?st = "\<lparr>t_root = Some 1, t_node = (\<lambda>_. \<lparr>n_key = (5 :: int), n_llink = None, n_rlink = None\<rparr>)\<rparr>"
  have c: "comparator (\<lambda>x y :: int. x - y)" by unfold_locales auto
  have "comparator.stree (\<lambda>x y :: int. x - y) ?st Root (Node Leaf 1 Leaf)"
    by (simp add: comparator.stree_def[OF c] comparator.ordered_def[OF c] deref_def)
  from tdelete_takes_out[OF c this, of 5] show ?thesis by auto
qed

end
