(* ===== verification/Rand48.thy ===== *)
theory Rand48
  imports Prelude
begin

text \<open>
  \<^verbatim>\<open>lib/libc/port/gen/drand48.c\<close>: the 48-bit linear congruential generator. Its state is kept, as in the
  code, in 16-bit pieces held in \<^verbatim>\<open>unsigned\<close> variables. The functions that return \<^verbatim>\<open>double\<close>
  (\<^verbatim>\<open>drand48\<close>, \<^verbatim>\<open>erand48\<close>) are not modelled, nor are \<^verbatim>\<open>irand48\<close> and \<^verbatim>\<open>krand48\<close>, which are
  compiled only without floating point.
\<close>

section \<open>The code\<close>

record triple =
  w0 :: u32
  w1 :: u32
  w2 :: u32

record rand48 =
  rx :: triple
  ra :: triple
  rc :: u32
  lastx :: triple

definition LOW :: "u32 \<Rightarrow> u32" where
  "LOW x = x AND 0xFFFF"

definition HIGH :: "u32 \<Rightarrow> u32" where
  "HIGH x = LOW (drop_bit 16 x)"

definition MUL :: "u32 \<Rightarrow> u32 \<Rightarrow> u32 \<times> u32" where
  "MUL x y = (let l = x * y in (LOW l, HIGH l))"

definition CARRY :: "u32 \<Rightarrow> u32 \<Rightarrow> u32" where
  "CARRY x y = (if x + y > 0xFFFF then 1 else 0)"

text \<open>\<open>ADDEQU x y\<close>: the sum and the carry.\<close>

definition ADDEQU :: "u32 \<Rightarrow> u32 \<Rightarrow> u32 \<times> u32" where
  "ADDEQU x y = (LOW (x + y), CARRY x y)"

definition SETLOW :: "u32 list \<Rightarrow> nat \<Rightarrow> triple" where
  "SETLOW y n = \<lparr>w0 = LOW (y ! n), w1 = LOW (y ! (n + 1)), w2 = LOW (y ! (n + 2))\<rparr>"

definition SEED :: "u32 \<Rightarrow> u32 \<Rightarrow> u32 \<Rightarrow> rand48 \<Rightarrow> rand48" where
  "SEED x0 x1 x2 s = s\<lparr>rx := \<lparr>w0 = x0, w1 = x1, w2 = x2\<rparr>, ra := \<lparr>w0 = 0xE66D, w1 = 0xDEEC, w2 = 5\<rparr>, rc := 0xB\<rparr>"

definition rand48_init :: rand48 where
  "rand48_init = \<lparr>rx = \<lparr>w0 = 0x330E, w1 = 0xABCD, w2 = 0x1234\<rparr>, ra = \<lparr>w0 = 0xE66D, w1 = 0xDEEC, w2 = 5\<rparr>, rc = 0xB,
     lastx = \<lparr>w0 = 0, w1 = 0, w2 = 0\<rparr>\<rparr>"

definition next48 :: "rand48 \<Rightarrow> rand48" where
  "next48 s =
     (let x = rx s; a = ra s;
          (p0, p1) = MUL (w0 a) (w0 x);
          (p0, carry0) = ADDEQU p0 (rc s);
          (p1, carry1) = ADDEQU p1 carry0;
          (q0, q1) = MUL (w0 a) (w1 x);
          (p1, carry0) = ADDEQU p1 q0;
          (r0, r1) = MUL (w1 a) (w0 x);
          x2 = LOW (carry0 + carry1 + CARRY p1 r0 + q1 + r1 + w0 a * w2 x + w1 a * w1 x + w2 a * w0 x);
          x1 = LOW (p1 + r0);
          x0 = LOW p0
      in s\<lparr>rx := \<lparr>w0 = x0, w1 = x1, w2 = x2\<rparr>\<rparr>)"

definition lrand48 :: "rand48 \<Rightarrow> int \<times> rand48" where
  "lrand48 s = (let s' = next48 s in (sint (push_bit 15 (w2 (rx s')) + drop_bit 1 (w1 (rx s'))), s'))"

definition mrand48 :: "rand48 \<Rightarrow> int \<times> rand48" where
  "mrand48 s =
     (let s' = next48 s; l = push_bit 16 (w2 (rx s')) + w1 (rx s')
      in (sint (if l AND 0x80000000 \<noteq> 0 then l OR - 0x80000000 else l), s'))"

definition srand48 :: "u32 \<Rightarrow> rand48 \<Rightarrow> rand48" where
  "srand48 seedval s = SEED 0x330E (LOW seedval) (HIGH seedval) s"

text \<open>Arrays of \<^verbatim>\<open>unsigned short\<close> arguments are lists of the promoted values.\<close>

definition seed48 :: "u32 list \<Rightarrow> rand48 \<Rightarrow> triple \<times> rand48" where
  "seed48 seed16v s =
     (let s1 = s\<lparr>lastx := SETLOW [w0 (rx s), w1 (rx s), w2 (rx s)] 0\<rparr>;
          s2 = SEED (LOW (seed16v ! 0)) (LOW (seed16v ! 1)) (LOW (seed16v ! 2)) s1
      in (lastx s2, s2))"

definition lcong48 :: "u32 list \<Rightarrow> rand48 \<Rightarrow> rand48" where
  "lcong48 param s = s\<lparr>rx := SETLOW param 0, ra := SETLOW param 3, rc := LOW (param ! 6)\<rparr>"

text \<open>\<^verbatim>\<open>NEST\<close>: run \<open>F\<close> on the caller's \<^verbatim>\<open>xsubi\<close>; the result is the value, the new \<^verbatim>\<open>xsubi\<close> and the state.\<close>

definition NEST :: "(rand48 \<Rightarrow> int \<times> rand48) \<Rightarrow> u32 list \<Rightarrow> rand48 \<Rightarrow> int \<times> u32 list \<times> rand48" where
  "NEST F xsubi s =
     (let temp = rx s;
          (v, s') = F (s\<lparr>rx := SETLOW xsubi 0\<rparr>)
      in (v, [w0 (rx s'), w1 (rx s'), w2 (rx s')], s'\<lparr>rx := temp\<rparr>))"

definition nrand48 :: "u32 list \<Rightarrow> rand48 \<Rightarrow> int \<times> u32 list \<times> rand48" where
  "nrand48 = NEST lrand48"

definition jrand48 :: "u32 list \<Rightarrow> rand48 \<Rightarrow> int \<times> u32 list \<times> rand48" where
  "jrand48 = NEST mrand48"

section \<open>Sixteen-bit pieces\<close>

lemma LOW_unat: "unat (LOW x) = unat x mod 65536"
proof -
  have "LOW x = take_bit 16 x" by (simp add: LOW_def take_bit_eq_mask mask_eq_exp_minus_1)
  then show ?thesis by (simp add: take_bit_eq_mod unat_mod)
qed

lemma HIGH_unat: "unat (HIGH x) = unat x div 65536"
proof -
  have "unat (drop_bit 16 x) = unat x div 65536" by (simp add: drop_bit_eq_div unat_div)
  then show ?thesis unfolding HIGH_def LOW_unat using unat_u32_less[of x] by simp
qed

definition short48 :: "u32 \<Rightarrow> bool" where
  "short48 x \<longleftrightarrow> unat x < 65536"

lemma LOW_short [simp]: "short48 (LOW x)" and HIGH_short [simp]: "short48 (HIGH x)"
  using unat_u32_less[of x] by (auto simp: short48_def LOW_unat HIGH_unat)

lemma unat_mult_short: "short48 x \<Longrightarrow> short48 y \<Longrightarrow> unat (x * y) = unat x * unat y"
proof -
  assume "short48 x" "short48 y"
  then have "unat x * unat y \<le> 65535 * 65535" by (intro mult_mono) (auto simp: short48_def)
  then show ?thesis by (subst unat_mult_lem[symmetric]) simp
qed

lemma unat_add_short: "short48 x \<Longrightarrow> short48 y \<Longrightarrow> unat (x + y) = unat x + unat y"
  by (rule unat_add_exact) (simp add: short48_def)

lemma MUL_split:
  assumes "short48 x" "short48 y" "MUL x y = (l, h)"
  shows "unat x * unat y = unat l + 65536 * unat h \<and> short48 l \<and> short48 h"
  using assms by (auto simp: MUL_def Let_def LOW_unat HIGH_unat unat_mult_short)

lemma ADDEQU_split:
  assumes "short48 x" "short48 y" "ADDEQU x y = (l, k)"
  shows "unat x + unat y = unat l + 65536 * unat k \<and> short48 l \<and> unat k \<le> 1"
proof -
  have s: "unat x + unat y < 131072" using assms(1,2) by (simp add: short48_def)
  have k: "k = (if unat x + unat y > 65535 then 1 else 0)" and l: "l = LOW (x + y)"
    using assms(3) unat_add_short[OF assms(1,2)] by (auto simp: ADDEQU_def CARRY_def word_less_nat_alt)
  have "unat l = (unat x + unat y) mod 65536" unfolding l LOW_unat using unat_add_short[OF assms(1,2)] by simp
  then show ?thesis using s k l by (auto simp: mod_if)
qed

lemma CARRY_split:
  assumes "short48 x" "short48 y"
  shows "unat x + unat y = unat (LOW (x + y)) + 65536 * unat (CARRY x y)"
  using ADDEQU_split[OF assms] by (auto simp: ADDEQU_def)

definition short3 :: "triple \<Rightarrow> bool" where
  "short3 t \<longleftrightarrow> short48 (w0 t) \<and> short48 (w1 t) \<and> short48 (w2 t)"

definition packed :: "triple \<Rightarrow> nat" where
  "packed t = unat (w0 t) + 65536 * unat (w1 t) + 4294967296 * unat (w2 t)"

definition rand_ok :: "rand48 \<Rightarrow> bool" where
  "rand_ok s \<longleftrightarrow> short3 (rx s) \<and> short3 (ra s) \<and> short48 (rc s)"

lemma SETLOW_short [simp]: "short3 (SETLOW y n)"
  by (simp add: short3_def SETLOW_def)

lemma packed_less: "short3 t \<Longrightarrow> packed t < 2 ^ 48"
  by (auto simp: short3_def packed_def short48_def)

text \<open>Sums that agree modulo 65536 in the top piece.\<close>

lemma LOW_add_mod: "unat (x + y :: u32) mod 65536 = (unat x + unat y) mod 65536"
proof -
  have "unat (x + y :: u32) = (unat x + unat y) mod 4294967296" by (simp add: unat_word_ariths)
  then show ?thesis by (simp add: mod_mod_cancel)
qed

lemma LOW_mult_mod: "unat (x * y :: u32) mod 65536 = (unat x * unat y) mod 65536"
proof -
  have "unat (x * y :: u32) = (unat x * unat y) mod 4294967296" by (simp add: unat_word_ariths)
  then show ?thesis by (simp add: mod_mod_cancel)
qed

lemma LOW_sum_cong:
  "unat x mod 65536 = m mod 65536 \<Longrightarrow> unat y mod 65536 = n mod 65536 \<Longrightarrow> unat (x + y :: u32) mod 65536 = (m + n) mod 65536"
  unfolding LOW_add_mod by (rule mod_add_cong)

lemma piece_mod:
  fixes u v w k :: nat
  assumes "u < 65536" "v < 65536"
  shows "(u + 65536 * v + 4294967296 * w + 281474976710656 * k) mod 281474976710656 = u + 65536 * v + 4294967296 * (w mod 65536)"
proof -
  have "4294967296 * w = 4294967296 * (w mod 65536) + 281474976710656 * (w div 65536)"
    using div_mult_mod_eq[of w 65536] by linarith
  then have "u + 65536 * v + 4294967296 * w + 281474976710656 * k =
      (u + 65536 * v + 4294967296 * (w mod 65536)) + 281474976710656 * (w div 65536 + k)" by simp
  moreover have "u + 65536 * v + 4294967296 * (w mod 65536) < 281474976710656"
    using assms mod_less_divisor[of 65536 w] by linarith
  ultimately show ?thesis by (metis mod_less mod_mult_self2)
qed

lemma next48_lcg:
  assumes "rand_ok s"
  shows "packed (rx (next48 s)) = (packed (ra s) * packed (rx s) + unat (rc s)) mod 2 ^ 48 \<and>
         rand_ok (next48 s) \<and> ra (next48 s) = ra s \<and> rc (next48 s) = rc s \<and> lastx (next48 s) = lastx s"
proof -
  define x0 x1 x2 a0 a1 a2 where v: "x0 = w0 (rx s)" "x1 = w1 (rx s)" "x2 = w2 (rx s)"
    "a0 = w0 (ra s)" "a1 = w1 (ra s)" "a2 = w2 (ra s)"
  have S: "short48 x0" "short48 x1" "short48 x2" "short48 a0" "short48 a1" "short48 a2" "short48 (rc s)"
    using assms by (auto simp: rand_ok_def short3_def v)
  obtain p0 p1 where P: "MUL a0 x0 = (p0, p1)" by force
  obtain p0' k0 where A: "ADDEQU p0 (rc s) = (p0', k0)" by force
  obtain p1' k1 where B: "ADDEQU p1 k0 = (p1', k1)" by force
  obtain q0 q1 where Q: "MUL a0 x1 = (q0, q1)" by force
  obtain p1'' k0' where C: "ADDEQU p1' q0 = (p1'', k0')" by force
  obtain r0 r1 where R: "MUL a1 x0 = (r0, r1)" by force
  let ?top = "k0' + k1 + CARRY p1'' r0 + q1 + r1 + a0 * x2 + a1 * x1 + a2 * x0"
  have n: "next48 s = s\<lparr>rx := \<lparr>w0 = LOW p0', w1 = LOW (p1'' + r0), w2 = LOW ?top\<rparr>\<rparr>"
    using P A B Q C R by (simp add: next48_def Let_def flip: v)
  note p = MUL_split[OF S(4,1) P] and q = MUL_split[OF S(4,2) Q] and r = MUL_split[OF S(5,1) R]
  note a = ADDEQU_split[OF _ S(7) A]
  have a: "unat p0 + unat (rc s) = unat p0' + 65536 * unat k0" "short48 p0'" "short48 k0"
    using ADDEQU_split[OF _ S(7) A] p by (auto simp: short48_def)
  have b: "unat p1 + unat k0 = unat p1' + 65536 * unat k1" "short48 p1'"
    using ADDEQU_split[OF _ a(3) B] p by auto
  have c: "unat p1' + unat q0 = unat p1'' + 65536 * unat k0'" "short48 p1''"
    using ADDEQU_split[OF b(2) _ C] q by auto
  have d: "unat p1'' + unat r0 = unat (LOW (p1'' + r0)) + 65536 * unat (CARRY p1'' r0)"
    using CARRY_split[OF c(2)] r by auto
  let ?T = "unat k0' + unat k1 + unat (CARRY p1'' r0) + unat q1 + unat r1 + unat a0 * unat x2 + unat a1 * unat x1 + unat a2 * unat x0"
  have T: "unat (LOW ?top) = ?T mod 65536"
    unfolding LOW_unat by (intro LOW_sum_cong LOW_mult_mod) simp_all
  have L: "unat (LOW p0') = unat p0'" using a(2) by (simp add: LOW_unat short48_def)
  have sh: "unat p0' < 65536" "unat (LOW (p1'' + r0)) < 65536" using a(2) by (simp_all add: short48_def LOW_unat)
  let ?hi = "unat a1 * unat x2 + unat a2 * unat x1 + 65536 * (unat a2 * unat x2)"
  have "packed (ra s) * packed (rx s) + unat (rc s) =
      unat a0 * unat x0 + unat (rc s) + 65536 * (unat a0 * unat x1 + unat a1 * unat x0)
      + 4294967296 * (unat a0 * unat x2 + unat a1 * unat x1 + unat a2 * unat x0) + 281474976710656 * ?hi"
    by (simp add: packed_def algebra_simps flip: v)
  also have "\<dots> = unat p0' + 65536 * unat (LOW (p1'' + r0)) + 4294967296 * ?T + 281474976710656 * ?hi"
    using p q r a(1) b(1) c(1) d by (simp add: algebra_simps)
  finally have e: "packed (ra s) * packed (rx s) + unat (rc s) =
      unat p0' + 65536 * unat (LOW (p1'' + r0)) + 4294967296 * ?T + 281474976710656 * ?hi" .
  have "(packed (ra s) * packed (rx s) + unat (rc s)) mod 281474976710656 =
      unat p0' + 65536 * unat (LOW (p1'' + r0)) + 4294967296 * (?T mod 65536)"
    unfolding e by (rule piece_mod[OF sh])
  then show ?thesis using n T L assms by (simp add: packed_def rand_ok_def short3_def)
qed

section \<open>The generators\<close>

text \<open>The values the generators compute from, kept well formed by the seeding functions.\<close>

lemma rand48_init_ok: "rand_ok rand48_init"
  by (simp add: rand_ok_def rand48_init_def short3_def short48_def)

lemma srand48_ok: "rand_ok (srand48 v s)"
  and seed48_ok: "rand_ok (snd (seed48 ys s))"
  and lcong48_ok: "rand_ok (lcong48 ps s)"
  by (simp_all add: rand_ok_def srand48_def seed48_def lcong48_def SEED_def short3_def Let_def)
    (simp_all add: short48_def SETLOW_def LOW_unat)

definition lcg48 :: "triple \<Rightarrow> rand48 \<Rightarrow> nat" where
  "lcg48 x s = (packed (ra s) * packed x + unat (rc s)) mod 2 ^ 48"

lemma sint_u32:
  fixes x :: u32
  assumes "unat x = n"
  shows "sint x = s32 (int n)"
proof -
  have "sint x = signed_take_bit 31 (uint x)" by (simp add: sint_uint)
  also have "\<dots> = s32 (uint x)"
    by (subst signed_take_bit_eq_take_bit_shift) (simp add: take_bit_eq_mod s32_def)
  finally show ?thesis using assms by (simp add: uint_nat)
qed

lemma packed_parts:
  assumes "short3 t"
  shows "unat (push_bit 16 (w2 t) + w1 t) = packed t div 65536"
    and "unat (push_bit 15 (w2 t) + drop_bit 1 (w1 t)) = packed t div 131072"
proof -
  have b: "unat (w0 t) < 65536" "unat (w1 t) < 65536" "unat (w2 t) < 65536" using assms by (auto simp: short3_def short48_def)
  have p: "unat (push_bit k (w2 t)) = unat (w2 t) * 2 ^ k" if "k \<le> 16" for k
  proof -
    have "unat (w2 t) * 2 ^ k \<le> 65535 * 2 ^ 16" using b(3) that by (intro mult_mono power_increasing) auto
    moreover have "unat (push_bit k (w2 t)) = (unat (w2 t) * 2 ^ k) mod 2 ^ 32"
      unfolding unsigned_push_bit_eq by (simp only: push_bit_eq_mult take_bit_eq_mod len_num1 len_bit0) simp
    ultimately show ?thesis by simp
  qed
  have d: "unat (drop_bit 1 (w1 t)) = unat (w1 t) div 2" by (simp add: drop_bit_eq_div unat_div)
  show "unat (push_bit 16 (w2 t) + w1 t) = packed t div 65536"
    by (subst unat_add_exact) (use b p[of 16] in \<open>auto simp: packed_def\<close>)
  show "unat (push_bit 15 (w2 t) + drop_bit 1 (w1 t)) = packed t div 131072"
    by (subst unat_add_exact) (use b p[of 15] d in \<open>auto simp: packed_def\<close>)
qed

lemma or_sign_bit: "l AND 0x80000000 \<noteq> 0 \<Longrightarrow> l OR - 0x80000000 = (l :: u32)"
proof -
  assume "l AND 0x80000000 \<noteq> 0"
  moreover have "(0x80000000 :: u32) = 2 ^ 31" by simp
  ultimately have "bit l 31" using and_exp_eq_0_iff_not_bit[of l 31] by metis
  moreover have e: "(- 0x80000000 :: u32) = 2 ^ 31" by simp
  ultimately show ?thesis unfolding e by (intro bit_word_eqI) (simp only: bit_or_iff bit_exp_iff, blast)
qed

lemma lrand48_value:
  "rand_ok s \<Longrightarrow> lrand48 s = (int (lcg48 (rx s) s div 2 ^ 17), next48 s)"
proof -
  assume s: "rand_ok s"
  have n: "short3 (rx (next48 s))" "packed (rx (next48 s)) = lcg48 (rx s) s"
    using next48_lcg[OF s] by (auto simp: rand_ok_def lcg48_def)
  have "packed (rx (next48 s)) div 131072 < 2147483648" using packed_less[OF n(1)] by simp
  then have "s32 (int (packed (rx (next48 s)) div 131072)) = int (packed (rx (next48 s)) div 131072)" by (intro s32_id) linarith+
  then show ?thesis using sint_u32[OF packed_parts(2)[OF n(1)]] n(2) by (simp add: lrand48_def Let_def)
qed

lemma mrand48_value:
  "rand_ok s \<Longrightarrow> mrand48 s = (s32 (int (lcg48 (rx s) s div 2 ^ 16)), next48 s)"
proof -
  assume s: "rand_ok s"
  have n: "short3 (rx (next48 s))" "packed (rx (next48 s)) = lcg48 (rx s) s"
    using next48_lcg[OF s] by (auto simp: rand_ok_def lcg48_def)
  show ?thesis using sint_u32[OF packed_parts(1)[OF n(1)]] n(2) or_sign_bit by (auto simp: mrand48_def Let_def)
qed

section \<open>Properties\<close>

text \<open>C32: The generator on 16-bit pieces is the linear congruence \<open>X \<mapsto> (a X + c) mod 2 ^ 48\<close>:
  \<^verbatim>\<open>lrand48\<close> returns its 31 high bits, \<^verbatim>\<open>mrand48\<close> the 32 high bits as a signed number, and
  \<^verbatim>\<open>nrand48\<close> does the same on the caller's array and leaves the generator itself as it was. The
  well-formedness assumed holds initially and after every seeding call.\<close>

theorem rand48_lcg:
  assumes "rand_ok s"
  shows "(\<exists>s'. lrand48 s = (int (lcg48 (rx s) s div 2 ^ 17), s') \<and> mrand48 s = (s32 (int (lcg48 (rx s) s div 2 ^ 16)), s') \<and>
           packed (rx s') = lcg48 (rx s) s \<and> rand_ok s' \<and> ra s' = ra s \<and> rc s' = rc s) \<and>
         (\<exists>xs'. nrand48 xs s = (int (lcg48 (SETLOW xs 0) s div 2 ^ 17), xs', s) \<and>
           packed (SETLOW xs' 0) = lcg48 (SETLOW xs 0) s) \<and>
         rand_ok rand48_init \<and> rand_ok (srand48 v s) \<and> rand_ok (snd (seed48 xs s)) \<and> rand_ok (lcong48 xs s)"
proof -
  have l: "packed (rx (next48 s)) = lcg48 (rx s) s \<and> rand_ok (next48 s) \<and> ra (next48 s) = ra s \<and> rc (next48 s) = rc s"
    using next48_lcg[OF assms] by (simp add: lcg48_def)
  let ?t = "s\<lparr>rx := SETLOW xs 0\<rparr>"
  have t: "rand_ok ?t" using assms by (simp add: rand_ok_def)
  have g: "lcg48 (SETLOW xs 0) ?t = lcg48 (SETLOW xs 0) s" by (simp add: lcg48_def)
  have n: "packed (rx (next48 ?t)) = lcg48 (SETLOW xs 0) s" "short3 (rx (next48 ?t))"
    "ra (next48 ?t) = ra s" "rc (next48 ?t) = rc s" "lastx (next48 ?t) = lastx s"
    using next48_lcg[OF t] by (simp_all add: lcg48_def rand_ok_def)
  have e: "next48 ?t\<lparr>rx := rx s\<rparr> = s" using n(3-5) by (intro rand48.equality) auto
  have low: "LOW w = w" if "short48 w" for w
    using that by (metis LOW_unat mod_less short48_def word_unat_eq_iff)
  have "packed (SETLOW [w0 (rx (next48 ?t)), w1 (rx (next48 ?t)), w2 (rx (next48 ?t))] 0) = packed (rx (next48 ?t))"
    using n(2) by (simp add: SETLOW_def low short3_def packed_def)
  then have "\<exists>xs'. nrand48 xs s = (int (lcg48 (SETLOW xs 0) s div 2 ^ 17), xs', s) \<and>
      packed (SETLOW xs' 0) = lcg48 (SETLOW xs 0) s"
    using lrand48_value[OF t] g n(1) e by (simp add: nrand48_def NEST_def Let_def)
  then show ?thesis
    using lrand48_value[OF assms] mrand48_value[OF assms] l rand48_init_ok srand48_ok seed48_ok lcong48_ok by blast
qed

theorem rand48_lcg_witness:
  "\<exists>s'. lrand48 (srand48 1 rand48_init) = (89400484, s') \<and> rand_ok s'"
proof -
  have "lcg48 (rx (srand48 1 rand48_init)) (srand48 1 rand48_init) div 2 ^ 17 = 89400484"
    by (simp add: lcg48_def srand48_def SEED_def packed_def LOW_unat HIGH_unat)
  then show ?thesis using rand48_lcg[OF srand48_ok, of 1 rand48_init] by auto
qed

end
