(* ===== verification/Radix.thy ===== *)
theory Radix
  imports Str
begin

text \<open>
  Numbers as text in the C library: the character classes of \<^verbatim>\<open>ctype.c\<close>, \<^verbatim>\<open>atoi.c\<close> (and
  \<^verbatim>\<open>atol.c\<close>, the same text), \<^verbatim>\<open>strtol.c\<close>, \<^verbatim>\<open>a64l.c\<close> and \<^verbatim>\<open>l64a.c\<close>. A read outside memory or
  outside the class table is \<open>None\<close>.
\<close>

section \<open>Character classes\<close>

abbreviation cU :: u8 where "cU \<equiv> 1"
abbreviation cL :: u8 where "cL \<equiv> 2"
abbreviation cN :: u8 where "cN \<equiv> 4"
abbreviation cS :: u8 where "cS \<equiv> 8"
abbreviation cP :: u8 where "cP \<equiv> 16"
abbreviation cC :: u8 where "cC \<equiv> 32"
abbreviation cB :: u8 where "cB \<equiv> 64"
abbreviation cX :: u8 where "cX \<equiv> 128"

definition ctype_tab :: "u8 list" where
  "ctype_tab =
     [0,
     cC, cC, cC, cC, cC, cC, cC, cC,
     cC, cS OR cC, cS OR cC, cS OR cC, cS OR cC, cS OR cC, cC, cC,
     cC, cC, cC, cC, cC, cC, cC, cC,
     cC, cC, cC, cC, cC, cC, cC, cC,
     cS OR cB, cP, cP, cP, cP, cP, cP, cP,
     cP, cP, cP, cP, cP, cP, cP, cP,
     cN OR cX, cN OR cX, cN OR cX, cN OR cX, cN OR cX, cN OR cX, cN OR cX, cN OR cX,
     cN OR cX, cN OR cX, cP, cP, cP, cP, cP, cP,
     cP, cU OR cX, cU OR cX, cU OR cX, cU OR cX, cU OR cX, cU OR cX, cU,
     cU, cU, cU, cU, cU, cU, cU, cU,
     cU, cU, cU, cU, cU, cU, cU, cU,
     cU, cU, cU, cP, cP, cP, cP, cP,
     cP, cL OR cX, cL OR cX, cL OR cX, cL OR cX, cL OR cX, cL OR cX, cL,
     cL, cL, cL, cL, cL, cL, cL, cL,
     cL, cL, cL, cL, cL, cL, cL, cL,
     cL, cL, cL, cP, cP, cP, cP, cC] @ replicate 128 0"

text \<open>The byte at \<^verbatim>\<open>p\<close> as an \<^verbatim>\<open>int\<close>, with its class \<^verbatim>\<open>(_ctype + 1)[c]\<close>.\<close>

definition cls :: "mem \<Rightarrow> nat \<Rightarrow> (int \<times> u8) option" where
  "cls m p =
     (case rd m p of
        None \<Rightarrow> None
      | Some d \<Rightarrow> (let c = sint d in if c \<ge> - 1 then Some (c, ctype_tab ! nat (c + 1)) else None))"

definition isdigit :: "u8 \<Rightarrow> bool" where "isdigit k \<longleftrightarrow> k AND cN \<noteq> 0"
definition islower :: "u8 \<Rightarrow> bool" where "islower k \<longleftrightarrow> k AND cL \<noteq> 0"
definition isalnum :: "u8 \<Rightarrow> bool" where "isalnum k \<longleftrightarrow> k AND (cU OR cL OR cN) \<noteq> 0"
definition isspace :: "u8 \<Rightarrow> bool" where "isspace k \<longleftrightarrow> k AND cS \<noteq> 0"
definition isxdigit :: "u8 \<Rightarrow> bool" where "isxdigit k \<longleftrightarrow> k AND cX \<noteq> 0"

section \<open>Decimal and other radices\<close>

function skip_space :: "mem \<Rightarrow> nat \<Rightarrow> nat option" where
  "skip_space m p =
     (case cls m p of None \<Rightarrow> None | Some (c, k) \<Rightarrow> if isspace k then skip_space m (p + 1) else Some p)"
  by pat_completeness auto
termination
  by (relation "measure (\<lambda>(m, p). length m - p)") (auto simp: cls_def dest!: rd_Some_less[OF sym] split: option.splits)

text \<open>White space and sign: the place after them and \<^verbatim>\<open>neg\<close>.\<close>

definition skip_sign :: "mem \<Rightarrow> nat \<Rightarrow> (nat \<times> bool) option" where
  "skip_sign m p =
     (case skip_space m p of
        None \<Rightarrow> None
      | Some q \<Rightarrow>
          (case rd m q of
             None \<Rightarrow> None
           | Some c \<Rightarrow> Some (if c = 45 then (q + 1, True) else if c = 43 then (q + 1, False) else (q, False))))"

function atoi_loop :: "mem \<Rightarrow> nat \<Rightarrow> int \<Rightarrow> int option" where
  "atoi_loop m p n =
     (case cls m p of
        None \<Rightarrow> None
      | Some (c, k) \<Rightarrow> if isdigit k then atoi_loop m (p + 1) (s32 (s32 (n * 10) + (48 - c))) else Some n)"
  by pat_completeness auto
termination
  by (relation "measure (\<lambda>(m, p, n). length m - p)") (auto simp: cls_def dest!: rd_Some_less[OF sym] split: option.splits)

definition atoi_digits :: "mem \<Rightarrow> nat \<Rightarrow> bool \<Rightarrow> int \<Rightarrow> int option" where
  "atoi_digits m p neg c =
     (case atoi_loop m (p + 1) (48 - c) of None \<Rightarrow> None | Some n \<Rightarrow> Some (if neg then n else s32 (- n)))"

definition atoi :: "mem \<Rightarrow> nat \<Rightarrow> int option" where
  "atoi m p =
     (case cls m p of
        None \<Rightarrow> None
      | Some (c, k) \<Rightarrow>
          if isdigit k then atoi_digits m p False c
          else (case skip_sign m p of
                  None \<Rightarrow> None
                | Some (q, neg) \<Rightarrow>
                    (case cls m q of
                       None \<Rightarrow> None
                     | Some (c, k) \<Rightarrow> if isdigit k then atoi_digits m q neg c else Some 0)))"

definition DIGIT :: "int \<Rightarrow> u8 \<Rightarrow> int" where
  "DIGIT x k = (if isdigit k then x - 48 else if islower k then x + 10 - 97 else x + 10 - 65)"

function strtol_loop :: "mem \<Rightarrow> nat \<Rightarrow> int \<Rightarrow> int \<Rightarrow> (int \<times> nat) option" where
  "strtol_loop m str base val =
     (case cls m str of
        None \<Rightarrow> None
      | Some (c, k) \<Rightarrow>
          if isalnum k \<and> DIGIT c k < base then strtol_loop m (str + 1) base (s32 (base * val - DIGIT c k))
          else Some (val, str))"
  by pat_completeness auto
termination
  by (relation "measure (\<lambda>(m, p, b, v). length m - p)") (auto simp: cls_def dest!: rd_Some_less[OF sym] split: option.splits)

text \<open>\<^verbatim>\<open>base == 0\<close>: the radix the text asks for.\<close>

definition strtol_base :: "mem \<Rightarrow> nat \<Rightarrow> int \<Rightarrow> int option" where
  "strtol_base m str base =
     (if base \<noteq> 0 then Some base
      else (case rd m str of
              None \<Rightarrow> None
            | Some c \<Rightarrow>
                if c \<noteq> 48 then Some 10
                else (case rd m (str + 1) of
                        None \<Rightarrow> None
                      | Some d \<Rightarrow> if d = 120 \<or> d = 88 then Some 16 else Some 8)))"

text \<open>The test reads \<^verbatim>\<open>str[2]\<close> before it looks at \<^verbatim>\<open>str[1]\<close>.\<close>

definition skip_0x :: "mem \<Rightarrow> nat \<Rightarrow> int \<Rightarrow> int \<Rightarrow> nat option" where
  "skip_0x m str base c =
     (if base = 16 \<and> c = 48 then
        (case cls m (str + 2) of
           None \<Rightarrow> None
         | Some (_, k) \<Rightarrow>
             if isxdigit k then
               (case rd m (str + 1) of
                  None \<Rightarrow> None
                | Some d \<Rightarrow> if d = 120 \<or> d = 88 then Some (str + 2) else Some str)
             else Some str)
      else Some str)"

text \<open>The result is the value and what \<^verbatim>\<open>*ptr\<close> receives.\<close>

definition strtol :: "mem \<Rightarrow> nat \<Rightarrow> int \<Rightarrow> (int \<times> nat) option" where
  "strtol m str0 base =
     (if base < 0 \<or> base > 36 then Some (0, str0)
      else
        (case cls m str0 of
           None \<Rightarrow> None
         | Some (c0, k0) \<Rightarrow>
             (case (if isalnum k0 then Some (str0, False) else skip_sign m str0) of
                None \<Rightarrow> None
              | Some (str, neg) \<Rightarrow>
                  (case (strtol_base m str base, cls m str) of
                     (Some base, Some (c, k)) \<Rightarrow>
                       if \<not> isalnum k \<or> DIGIT c k \<ge> base then Some (0, str0)
                       else
                         (case skip_0x m str base c of
                            None \<Rightarrow> None
                          | Some str \<Rightarrow>
                              (case cls m str of
                                 None \<Rightarrow> None
                               | Some (c, k) \<Rightarrow>
                                   (case strtol_loop m (str + 1) base (- DIGIT c k) of
                                      None \<Rightarrow> None
                                    | Some (val, str) \<Rightarrow> Some (if neg then val else s32 (- val), str))))
                   | _ \<Rightarrow> None))))"

section \<open>Radix 64\<close>

function a64l_loop :: "mem \<Rightarrow> nat \<Rightarrow> nat \<Rightarrow> u32 \<Rightarrow> u32 option" where
  "a64l_loop m s i lg =
     (case rd m s of
        None \<Rightarrow> None
      | Some ch \<Rightarrow>
          (let c = sint ch
           in if c = 0 then Some lg
              else let c1 = (if c > 90 then c - 6 else c);
                       c2 = (if c1 > 57 then c1 - 7 else c1)
                   in a64l_loop m (s + 1) (i + 6) (lg OR push_bit i (word_of_int (c2 - 46)))))"
  by pat_completeness auto
termination by (relation "measure (\<lambda>(m, s, i, lg). length m - s)") (auto dest!: rd_Some_less[OF sym])

definition a64l :: "mem \<Rightarrow> nat \<Rightarrow> int option" where
  "a64l m s = (case a64l_loop m s 0 0 of None \<Rightarrow> None | Some lg \<Rightarrow> Some (sint lg))"

definition l64a_char :: "u32 \<Rightarrow> int" where
  "l64a_char lg =
     (let c = uint (lg AND 63) + 46;
          c1 = (if c > 57 then c + 7 else c)
      in if c1 > 90 then c1 + 6 else c1)"

definition l64a_next :: "u32 \<Rightarrow> u32" where
  "l64a_next lg =
     (if sint lg < 0 then signed_drop_bit 6 lg OR 0xFE000000 else signed_drop_bit 6 lg) AND 0x3FFFFFFF"

text \<open>The characters written to \<^verbatim>\<open>buf\<close> before the terminator; the fuel is checked below.\<close>

fun l64a_loop :: "nat \<Rightarrow> u32 \<Rightarrow> u8 list option" where
  "l64a_loop n lg =
     (if lg = 0 then Some []
      else case n of
             0 \<Rightarrow> None
           | Suc n \<Rightarrow> (case l64a_loop n (l64a_next lg) of
                         None \<Rightarrow> None | Some s \<Rightarrow> Some (word_of_int (l64a_char lg) # s)))"

text \<open>\<^verbatim>\<open>buf\<close> has room for 6 characters and the terminator.\<close>

definition l64a :: "int \<Rightarrow> u8 list option" where
  "l64a l = (case l64a_loop 6 (word_of_int l) of None \<Rightarrow> None | Some s \<Rightarrow> Some (s @ [0]))"

declare skip_space.simps [simp del] atoi_loop.simps [simp del] strtol_loop.simps [simp del] a64l_loop.simps [simp del]
  l64a_loop.simps [simp del]


section \<open>Character classes as ranges\<close>

lemma ctype_table:
  "list_all (\<lambda>i. let k = ctype_tab ! (i + 1) in
      isdigit k = (48 \<le> i \<and> i \<le> 57) \<and> islower k = (97 \<le> i \<and> i \<le> 122) \<and>
      isalnum k = (48 \<le> i \<and> i \<le> 57 \<or> 65 \<le> i \<and> i \<le> 90 \<or> 97 \<le> i \<and> i \<le> 122) \<and>
      isspace k = (9 \<le> i \<and> i \<le> 13 \<or> i = 32)) [0..<128]"
  by code_simp

text \<open>The value of a digit, 36 for a character that is none.\<close>

definition dval :: "u8 \<Rightarrow> int" where
  "dval d =
     (let c = uint d
      in if 48 \<le> c \<and> c \<le> 57 then c - 48 else if 65 \<le> c \<and> c \<le> 90 then c - 55
         else if 97 \<le> c \<and> c \<le> 122 then c - 87 else 36)"

definition ascii :: "u8 \<Rightarrow> bool" where
  "ascii d \<longleftrightarrow> uint d < 128"

definition space :: "u8 \<Rightarrow> bool" where
  "space d \<longleftrightarrow> d = 32 \<or> 9 \<le> d \<and> d \<le> 13"

lemma sint_ascii: "ascii d \<Longrightarrow> sint d = uint d"
proof -
  assume "ascii d"
  moreover have "sint d = signed_take_bit 7 (uint d)" by (simp add: sint_uint)
  moreover have "\<dots> = s8 (uint d)"
    by (subst signed_take_bit_eq_take_bit_shift) (simp add: take_bit_eq_mod s8_def)
  ultimately show ?thesis using uint_ge_0[of d] by (simp add: ascii_def)
qed

lemma cls_ascii:
  assumes "rd m p = Some d" "ascii d"
  shows "\<exists>k. cls m p = Some (uint d, k) \<and> (isdigit k \<longleftrightarrow> dval d < 10) \<and> (isalnum k \<longleftrightarrow> dval d < 36) \<and>
           (isspace k \<longleftrightarrow> space d) \<and> (isalnum k \<longrightarrow> DIGIT (uint d) k = dval d)"
proof -
  obtain i :: nat where u: "uint d = int i" using uint_nat by blast
  let ?k = "ctype_tab ! nat (uint d + 1)"
  have i: "i < 128" using assms(2) unfolding ascii_def u by linarith
  have k: "nat (int i + 1) = Suc i" by linarith
  have r: "isdigit ?k = (48 \<le> uint d \<and> uint d \<le> 57)" "islower ?k = (97 \<le> uint d \<and> uint d \<le> 122)"
    "isalnum ?k = (48 \<le> uint d \<and> uint d \<le> 57 \<or> 65 \<le> uint d \<and> uint d \<le> 90 \<or> 97 \<le> uint d \<and> uint d \<le> 122)"
    "isspace ?k = (9 \<le> uint d \<and> uint d \<le> 13 \<or> uint d = 32)"
    using ctype_table[unfolded list_all_iff, rule_format, of i] i unfolding u k by (simp_all add: Let_def)
  have s: "space d \<longleftrightarrow> 9 \<le> uint d \<and> uint d \<le> 13 \<or> uint d = 32"
    by (auto simp: space_def word_le_def word_uint_eq_iff)
  have "- 1 \<le> uint d" using uint_ge_0[of d] by linarith
  then have c: "cls m p = Some (uint d, ?k)" using assms(1) sint_ascii[OF assms(2)] by (simp add: cls_def Let_def)
  show ?thesis
  proof (intro exI[of _ ?k] conjI)
    show "cls m p = Some (uint d, ?k)" by (rule c)
    show "isspace ?k \<longleftrightarrow> space d" unfolding r s ..
    show "isdigit ?k \<longleftrightarrow> dval d < 10" unfolding r dval_def Let_def by auto
    show "isalnum ?k \<longleftrightarrow> dval d < 36" unfolding r dval_def Let_def by auto
    show "isalnum ?k \<longrightarrow> DIGIT (uint d) ?k = dval d" unfolding DIGIT_def r dval_def Let_def by auto
  qed
qed

section \<open>Parsing digits\<close>

primrec bytes :: "mem \<Rightarrow> nat \<Rightarrow> u8 list \<Rightarrow> bool" where
  "bytes m p [] \<longleftrightarrow> True"
| "bytes m p (c # s) \<longleftrightarrow> rd m p = Some c \<and> bytes m (p + 1) s"

lemma bytes_append: "bytes m p (s @ t) \<longleftrightarrow> bytes m p s \<and> bytes m (p + length s) t"
  by (induction s arbitrary: p) auto

definition numeral_value :: "int \<Rightarrow> u8 list \<Rightarrow> int" where
  "numeral_value b ds = foldl (\<lambda>v d. b * v + dval d) 0 ds"

lemma s32_mult_diff: "s32 (b * s32 x - d) = s32 (b * x - d)"
proof -
  have "(b * s32 x - d + 2147483648) mod 4294967296 = (b * x - d + 2147483648) mod 4294967296"
    unfolding s32_def by (intro mod_add_cong mod_diff_cong mod_mult_cong) (simp_all add: mod_diff_left_eq algebra_simps)
  then show ?thesis by (simp add: s32_def)
qed

lemma space_ascii: "space d \<Longrightarrow> ascii d \<and> dval d \<ge> 36 \<and> d \<noteq> 45 \<and> d \<noteq> 43"
proof -
  assume "space d"
  then have u: "uint d = 32 \<or> 9 \<le> uint d \<and> uint d \<le> 13" by (auto simp: space_def word_le_def)
  have "d \<noteq> 45" "d \<noteq> 43" using u by auto
  then show ?thesis using u unfolding ascii_def dval_def Let_def by auto
qed

lemma skip_space_bytes:
  "bytes m p (sp @ [e]) \<Longrightarrow> \<forall>d \<in> set sp. space d \<Longrightarrow> ascii e \<Longrightarrow> \<not> space e \<Longrightarrow> skip_space m p = Some (p + length sp)"
proof (induction sp arbitrary: p)
  case Nil
  then show ?case using cls_ascii[of m p e] by (subst skip_space.simps) auto
next
  case (Cons d sp)
  then show ?case using cls_ascii[of m p d] space_ascii[of d] by (subst skip_space.simps) auto
qed

lemma strtol_loop_bytes:
  "bytes m p (ds @ [e]) \<Longrightarrow> \<forall>d \<in> set ds. ascii d \<and> dval d < b \<Longrightarrow> b \<le> 36 \<Longrightarrow> ascii e \<Longrightarrow> b \<le> dval e \<Longrightarrow>
     strtol_loop m p b (s32 (- v)) = Some (s32 (- foldl (\<lambda>v d. b * v + dval d) v ds), p + length ds)"
proof (induction ds arbitrary: p v)
  case Nil
  then show ?case using cls_ascii[of m p e] by (subst strtol_loop.simps) auto
next
  case (Cons d ds)
  have d: "rd m p = Some d" "ascii d" "dval d < b" using Cons.prems by auto
  from cls_ascii[OF d(1,2)] obtain k where k: "cls m p = Some (uint d, k)" "isalnum k" "DIGIT (uint d) k = dval d"
    using d(3) Cons.prems(3) by auto
  have "s32 (b * s32 (- v) - dval d) = s32 (- (b * v + dval d))"
    unfolding s32_mult_diff by (rule arg_cong) (simp add: algebra_simps)
  then show ?case using Cons.IH[of "p + 1" "b * v + dval d"] Cons.prems k d(3) by (subst strtol_loop.simps) simp
qed

lemma atoi_loop_bytes:
  "bytes m p (ds @ [e]) \<Longrightarrow> \<forall>d \<in> set ds. ascii d \<and> dval d < 10 \<Longrightarrow> ascii e \<Longrightarrow> 10 \<le> dval e \<Longrightarrow>
     atoi_loop m p (s32 (- v)) = Some (s32 (- foldl (\<lambda>v d. 10 * v + dval d) v ds))"
proof (induction ds arbitrary: p v)
  case Nil
  then show ?case using cls_ascii[of m p e] by (subst atoi_loop.simps) auto
next
  case (Cons d ds)
  have d: "rd m p = Some d" "ascii d" "dval d < 10" using Cons.prems by auto
  from cls_ascii[OF d(1,2)] obtain k where k: "cls m p = Some (uint d, k)" "isdigit k" "DIGIT (uint d) k = dval d"
    using d(3) by auto
  have c: "uint d = dval d + 48" using k by (simp add: DIGIT_def)
  have "s32 (s32 (s32 (- v) * 10) + (48 - uint d)) = s32 (1 * s32 (s32 (- v) * 10) - dval d)" using c by simp
  also have "\<dots> = s32 (1 * (s32 (- v) * 10) - dval d)" by (rule s32_mult_diff)
  also have "\<dots> = s32 (10 * s32 (- v) - dval d)" by (rule arg_cong) simp
  also have "\<dots> = s32 (10 * - v - dval d)" by (rule s32_mult_diff)
  also have "\<dots> = s32 (- (10 * v + dval d))" by (rule arg_cong) simp
  finally show ?case using Cons.IH[of "p + 1" "10 * v + dval d"] Cons.prems k by (subst atoi_loop.simps) simp
qed

text \<open>A sign character, if any, and what it says.\<close>

definition sign_ok :: "u8 list \<Rightarrow> bool" where
  "sign_ok sg \<longleftrightarrow> sg = [] \<or> sg = [43] \<or> sg = [45]"

lemma skip_sign_bytes:
  assumes "bytes m p (sp @ sg @ [c])" "\<forall>d \<in> set sp. space d" "sign_ok sg" "ascii c" "dval c < 36"
  shows "skip_sign m p = Some (p + length sp + length sg, sg = [45])"
proof -
  have c: "\<not> space c" "c \<noteq> 45" "c \<noteq> 43" using assms(5) space_ascii[of c] by (auto simp: dval_def)
  let ?e = "hd (sg @ [c])"
  have e: "ascii ?e" "\<not> space ?e" using assms(3,4) c by (auto simp: sign_ok_def ascii_def space_def)
  have b: "bytes m p (sp @ [?e])" using assms(1,3) by (auto simp: bytes_append sign_ok_def)
  then have "rd m (p + length sp) = Some ?e" by (simp add: bytes_append)
  then show ?thesis using skip_space_bytes[OF b assms(2) e] assms(3) c by (auto simp: skip_sign_def sign_ok_def)
qed

lemma strtol_bytes:
  assumes m: "bytes m p (sp @ sg @ (d # ds) @ [e])" and sp: "\<forall>x \<in> set sp. space x" and sg: "sign_ok sg"
    and ds: "\<forall>x \<in> set (d # ds). ascii x \<and> dval x < b" and e: "ascii e" "b \<le> dval e"
    and b: "2 \<le> b" "b \<le> 36" "b = 16 \<Longrightarrow> d \<noteq> 48"
  shows "strtol m p b = Some (s32 ((if sg = [45] then - 1 else 1) * numeral_value b (d # ds)),
    p + length sp + length sg + length (d # ds))"
proof -
  let ?q = "p + length sp + length sg"
  have q: "bytes m ?q ((d # ds) @ [e])" using m by (simp add: bytes_append add.assoc)
  have d: "rd m ?q = Some d" "ascii d" "dval d < b" "dval d < 36" using q ds b(2) by auto
  from cls_ascii[OF d(1,2)] obtain k where k: "cls m ?q = Some (uint d, k)" "isalnum k" "DIGIT (uint d) k = dval d"
    using d(4) by auto
  have start: "\<exists>c0 k0. cls m p = Some (c0, k0) \<and>
      (if isalnum k0 then Some (p, False) else skip_sign m p) = Some (?q, sg = [45])"
  proof -
    have "bytes m p (sp @ sg @ [d])" using m by (simp add: bytes_append)
    note S = skip_sign_bytes[OF this sp sg d(2,4)]
    let ?x = "hd (sp @ sg @ [d])"
    have x: "rd m p = Some ?x" using m by (cases sp; cases sg) auto
    have ax: "ascii ?x" "dval ?x < 36 \<Longrightarrow> sp = [] \<and> sg = []"
      using sp sg d(2) space_ascii[of "hd sp"] by (cases sp; auto simp: sign_ok_def ascii_def dval_def)+
    from cls_ascii[OF x ax(1)] obtain k0 where "cls m p = Some (uint ?x, k0)" "isalnum k0 \<longleftrightarrow> dval ?x < 36" by auto
    then show ?thesis using S ax(2) by (intro exI[of _ "uint ?x"] exI[of _ k0]) auto
  qed
  have base: "strtol_base m ?q b = Some b" using b(1) by (simp add: strtol_base_def)
  have u48: "uint d = 48 \<longleftrightarrow> d = 48" unfolding word_uint_eq_iff by simp
  have zx: "skip_0x m ?q b (uint d) = Some ?q" using b(3) u48 by (auto simp: skip_0x_def)
  have dv: "0 \<le> dval d" by (simp add: dval_def Let_def)
  then have "- dval d = s32 (- dval d)" using d(4) by simp
  then have L: "strtol_loop m (?q + 1) b (- dval d) =
      Some (s32 (- numeral_value b (d # ds)), ?q + 1 + length ds)"
    using strtol_loop_bytes[of m "?q + 1" ds e b "dval d"] q ds b(2) e by (simp add: numeral_value_def)
  have s: "s32 (- s32 (- x)) = s32 x" for x using s32_mult_diff[of "-1" "- x" 0] by simp
  show ?thesis using start base k d(3) zx L b(1,2) s by (auto simp: strtol_def)
qed

lemma atoi_bytes:
  assumes m: "bytes m p (sp @ sg @ (d # ds) @ [e])" and sp: "\<forall>x \<in> set sp. space x" and sg: "sign_ok sg"
    and ds: "\<forall>x \<in> set (d # ds). ascii x \<and> dval x < 10" and e: "ascii e" "10 \<le> dval e"
  shows "atoi m p = Some (s32 ((if sg = [45] then - 1 else 1) * numeral_value 10 (d # ds)))"
proof -
  let ?q = "p + length sp + length sg"
  have q: "bytes m ?q ((d # ds) @ [e])" using m by (simp add: bytes_append add.assoc)
  have d: "rd m ?q = Some d" "ascii d" "dval d < 10" using q ds by auto
  from cls_ascii[OF d(1,2)] obtain k where k: "cls m ?q = Some (uint d, k)" "isdigit k" "DIGIT (uint d) k = dval d"
    using d(3) by auto
  have dv: "0 \<le> dval d" by (simp add: dval_def Let_def)
  then have "48 - uint d = s32 (- dval d)" using d(3) k by (simp add: DIGIT_def)
  then have L: "atoi_loop m (?q + 1) (48 - uint d) = Some (s32 (- numeral_value 10 (d # ds)))"
    using atoi_loop_bytes[of m "?q + 1" ds e "dval d"] q ds e by (simp add: numeral_value_def)
  have s: "s32 (- s32 (- x)) = s32 x" for x using s32_mult_diff[of "-1" "- x" 0] by simp
  have D: "atoi_digits m ?q n (uint d) = Some (s32 ((if n then - 1 else 1) * numeral_value 10 (d # ds)))" for n
    using L s by (simp add: atoi_digits_def)
  have "bytes m p (sp @ sg @ [d])" using m by (simp add: bytes_append)
  note S = skip_sign_bytes[OF this sp sg d(2)]
  let ?x = "hd (sp @ sg @ [d])"
  have x: "rd m p = Some ?x" using m by (cases sp; cases sg) auto
  have ax: "ascii ?x" "dval ?x < 10 \<Longrightarrow> sp = [] \<and> sg = []"
    using sp sg d(2) space_ascii[of "hd sp"] by (cases sp; auto simp: sign_ok_def ascii_def dval_def)+
  from cls_ascii[OF x ax(1)] obtain k0 where "cls m p = Some (uint ?x, k0)" "isdigit k0 \<longleftrightarrow> dval ?x < 10" by auto
  then show ?thesis using S d(3) ax(2) D k by (auto simp: atoi_def)
qed


section \<open>Radix 64\<close>

lemma l64a_char_inverse:
  fixes lg :: u32
  defines "c \<equiv> l64a_char lg"
  shows "46 \<le> c \<and> c < 123 \<and> (let c1 = (if c > 90 then c - 6 else c); c2 = (if c1 > 57 then c1 - 7 else c1)
                in word_of_int (c2 - 46) = lg AND 63)"
proof -
  have "uint (lg AND 63) < 64"
  proof -
    have "lg AND 63 = take_bit 6 lg" by (simp add: take_bit_eq_mask mask_eq_exp_minus_1)
    then show ?thesis by (simp add: take_bit_eq_mod uint_mod)
  qed
  moreover have "0 \<le> uint (lg AND 63)" by simp
  ultimately show ?thesis unfolding c_def l64a_char_def Let_def by (auto simp: word_uint_eq_iff)
qed

lemma l64a_next_bit: "bit (l64a_next lg) k \<longleftrightarrow> k < 30 \<and> bit lg (min 31 (k + 6))"
proof -
  have sg: "sint lg < 0 \<longleftrightarrow> bit lg 31" using bit_last_iff[of lg] by simp
  have m: "(0x3FFFFFFF :: u32) = mask 30" by (simp add: mask_eq_exp_minus_1)
  have f: "bit (0xFE000000 :: u32) k \<longleftrightarrow> 25 \<le> k \<and> k < 32"
  proof -
    have e: "(0xFE000000 :: u32) = push_bit 25 (mask 7)" by (simp add: mask_eq_exp_minus_1 push_bit_eq_mult)
    show ?thesis unfolding e bit_push_bit_iff bit_mask_iff by auto
  qed
  show ?thesis
  proof (cases "bit lg 31")
    case True
    then show ?thesis unfolding l64a_next_def sg m
      by (simp only: if_True bit_and_iff bit_or_iff bit_mask_iff bit_signed_drop_bit_iff f)
        (auto simp: min_def add.commute[of 6] not_le)
  next
    case False
    have "\<not> bit lg (k + 6)" if "25 \<le> k" "k < 26"
    proof -
      have "k + 6 = 31" using that by simp
      then show ?thesis using False by simp
    qed
    then show ?thesis using False unfolding l64a_next_def sg m
      by (simp only: if_False bit_and_iff bit_mask_iff bit_signed_drop_bit_iff)
        (auto simp: min_def add.commute[of 6] not_le le_less_Suc_eq)
  qed
qed

lemma l64a_split: "(lg AND 63) OR push_bit 6 (l64a_next lg) = (lg :: u32)"
proof (rule bit_word_eqI)
  fix k assume k: "k < LENGTH(32)"
  have m: "(63 :: u32) = mask 6" by (simp add: mask_eq_exp_minus_1)
  show "bit ((lg AND 63) OR push_bit 6 (l64a_next lg)) k = bit lg k"
    unfolding m using k
    by (cases "k < 6"; cases "k = 31") (auto simp: bit_or_iff bit_and_iff bit_mask_iff bit_push_bit_iff l64a_next_bit min_def)
qed

text \<open>Six characters are enough.\<close>

definition top_zero :: "nat \<Rightarrow> u32 \<Rightarrow> bool" where
  "top_zero n lg \<longleftrightarrow> (\<forall>k \<ge> n. \<not> bit lg k)"

lemma top_zero_next: "top_zero (n + 6) lg \<Longrightarrow> n < 26 \<Longrightarrow> top_zero n (l64a_next lg)"
  by (auto simp: top_zero_def l64a_next_bit min_def)

lemma l64a_loop_ends: "top_zero (6 * n) lg \<Longrightarrow> n \<le> 5 \<Longrightarrow> \<exists>s. l64a_loop n lg = Some s"
proof (induction n arbitrary: lg)
  case 0
  then have "lg = 0" by (auto simp: top_zero_def intro: bit_word_eqI)
  then show ?case by (subst l64a_loop.simps) simp
next
  case (Suc n)
  have "top_zero (6 * n) (l64a_next lg)" using Suc.prems by (intro top_zero_next) (simp_all add: add.commute)
  then obtain s where "l64a_loop n (l64a_next lg) = Some s" using Suc.IH Suc.prems(2) by auto
  then show ?case by (subst l64a_loop.simps) simp
qed

lemma l64a_loop_six: "\<exists>s. l64a_loop 6 lg = Some s"
proof -
  have "top_zero (6 * 5) (l64a_next lg)" by (auto simp: top_zero_def l64a_next_bit)
  from l64a_loop_ends[OF this] show ?thesis by (subst l64a_loop.simps) (auto simp: numeral_eq_Suc)
qed

lemma l64a_loop_nonzero: "l64a_loop n lg = Some s \<Longrightarrow> 0 \<notin> set s \<and> length s \<le> n"
proof (induction n arbitrary: lg s)
  case 0
  then show ?case by (subst (asm) l64a_loop.simps) (simp split: if_splits)
next
  case (Suc n)
  have "word_of_int (l64a_char lg) \<noteq> (0 :: u8)"
  proof -
    have "46 \<le> l64a_char lg" "l64a_char lg < 123" using l64a_char_inverse[of lg] by (simp_all add: Let_def)
    then have "uint (word_of_int (l64a_char lg) :: u8) = l64a_char lg" by (simp add: uint_word_of_int)
    then show ?thesis using \<open>46 \<le> l64a_char lg\<close> by auto
  qed
  then show ?case using Suc by (subst (asm) l64a_loop.simps) (auto split: if_splits option.splits)
qed

lemma a64l_loop_l64a:
  "l64a_loop n lg = Some s \<Longrightarrow> cstr m p s \<Longrightarrow> a64l_loop m p i acc = Some (acc OR push_bit i lg)"
proof (induction n arbitrary: lg s p i acc)
  case 0
  then show ?case by (subst (asm) l64a_loop.simps, subst a64l_loop.simps) (auto split: if_splits)
next
  case (Suc n)
  show ?case
  proof (cases "lg = 0")
    case True
    then show ?thesis using Suc.prems by (subst (asm) l64a_loop.simps, subst a64l_loop.simps) (auto split: if_splits)
  next
    case False
    then obtain t where t: "l64a_loop n (l64a_next lg) = Some t" "s = word_of_int (l64a_char lg) # t"
      using Suc.prems(1) by (subst (asm) l64a_loop.simps) (auto split: option.splits)
    let ?c = "word_of_int (l64a_char lg) :: u8"
    have r: "rd m p = Some ?c" "cstr m (p + 1) t" using Suc.prems(2) t(2) by auto
    have b: "46 \<le> l64a_char lg" "l64a_char lg < 123" using l64a_char_inverse[of lg] by (simp_all add: Let_def)
    then have "uint ?c = l64a_char lg" by (simp add: uint_word_of_int)
    then have c: "sint ?c = l64a_char lg" using sint_ascii[of ?c] b by (simp add: ascii_def)
    have "a64l_loop m p i acc = a64l_loop m (p + 1) (i + 6) (acc OR push_bit i (lg AND 63))"
      using r(1) c b l64a_char_inverse[of lg] by (subst a64l_loop.simps) (auto simp: Let_def)
    also have "\<dots> = Some ((acc OR push_bit i (lg AND 63)) OR push_bit (i + 6) (l64a_next lg))"
      by (rule Suc.IH[OF t(1) r(2)])
    also have "\<dots> = Some (acc OR push_bit i ((lg AND 63) OR push_bit 6 (l64a_next lg)))"
      by (simp add: push_bit_or push_bit_push_bit or.assoc)
    finally show ?thesis unfolding l64a_split .
  qed
qed

section \<open>Properties\<close>

text \<open>C31: \<^verbatim>\<open>l64a\<close> always fits its 7-byte buffer, and \<^verbatim>\<open>a64l\<close> reads the same 32-bit number back from
  the text wherever it stands, negative numbers included.\<close>

theorem a64l_l64a:
  "\<exists>s. l64a l = Some (s @ [0]) \<and> length s \<le> 6 \<and> a64l (us @ s @ 0 # vs) (length us) = Some (s32 l)"
proof -
  obtain s where s: "l64a_loop 6 (word_of_int l) = Some s" using l64a_loop_six by blast
  note z = l64a_loop_nonzero[OF s]
  have "cstr (us @ s @ 0 # vs) (length us) s" using z by (intro cstr_splice) auto
  from a64l_loop_l64a[OF s this, of 0 0] have "a64l (us @ s @ 0 # vs) (length us) = Some (sint (word_of_int l :: u32))"
    by (simp add: a64l_def)
  moreover have "sint (word_of_int l :: u32) = s32 l"
  proof -
    have "sint (word_of_int l :: u32) = signed_take_bit 31 l" by (simp add: signed_of_int)
    also have "\<dots> = s32 l" by (subst signed_take_bit_eq_take_bit_shift) (simp add: take_bit_eq_mod s32_def)
    finally show ?thesis .
  qed
  ultimately show ?thesis using s z by (auto simp: l64a_def)
qed

text \<open>On white space, an optional sign and a digit string in radix \<open>b\<close>, ended by another character,
  \<^verbatim>\<open>strtol\<close> returns the signed value, wrapped at 32 bits, and points past the digits; on decimal digits
  \<^verbatim>\<open>atoi\<close> returns the same value.\<close>

theorem strtol_value:
  assumes "bytes m p (sp @ sg @ (d # ds) @ [e])" "\<forall>x \<in> set sp. space x" "sign_ok sg"
    and "\<forall>x \<in> set (d # ds). ascii x \<and> dval x < b" "ascii e" "b \<le> dval e"
    and "2 \<le> b" "b \<le> 36" "b = 16 \<Longrightarrow> d \<noteq> 48"
  shows "strtol m p b = Some (s32 ((if sg = [45] then - 1 else 1) * numeral_value b (d # ds)),
           p + length sp + length sg + length (d # ds)) \<and>
    (b = 10 \<longrightarrow> atoi m p = Some (s32 ((if sg = [45] then - 1 else 1) * numeral_value 10 (d # ds))))"
  using strtol_bytes[OF assms] atoi_bytes[OF assms(1-3) _ assms(5)] assms(4,6) by blast

theorem strtol_value_witness:
  "strtol [32, 45, 49, 50, 0] 0 10 = Some (- 12, 4) \<and> atoi [32, 45, 49, 50, 0] 0 = Some (- 12)"
  using strtol_value[of "[32, 45, 49, 50, 0]" 0 "[32]" "[45]" 49 "[50]" 0 10]
  by (simp add: rd_def space_def sign_ok_def ascii_def dval_def numeral_value_def)

text \<open>With radix 16 the text \<^verbatim>\<open>"0"\<close> makes \<^verbatim>\<open>strtol\<close> read the byte after the terminator.\<close>

lemma strtol_hex_zero_overrun: "strtol [48, 0] 0 16 = None"
proof -
  have "rd [48, 0] 0 = Some (48 :: u8)" "ascii 48" by (simp_all add: rd_def ascii_def)
  from cls_ascii[OF this] obtain k where k: "cls [48, 0] 0 = Some (48, k)" "isalnum k" "DIGIT 48 k = 0"
    by (auto simp: dval_def)
  have "skip_0x [48, 0] 0 16 48 = None" by (simp add: skip_0x_def cls_def rd_def)
  then show ?thesis using k by (simp add: strtol_def strtol_base_def)
qed

end
