(* ===== verification/Flock.thy ===== *)
theory Flock
  imports Prelude
begin

text \<open>
  File and record locking, \<^verbatim>\<open>os/flock.c\<close>. Lock records are entries of the table \<^verbatim>\<open>flox\<close>, pointers to
  them are indices; each inode has a list of its locks, sleeping requests are on \<^verbatim>\<open>sleeplcks\<close>, unused
  records on \<^verbatim>\<open>frlock\<close>. The calling process is the pair of its \<^verbatim>\<open>p_epid\<close> and \<^verbatim>\<open>p_sysid\<close>.
  Semaphores do nothing on this uniprocessor and are left out.
\<close>

section \<open>Data\<close>

record flock =
  l_type :: int
  l_whence :: int
  l_start :: int
  l_len :: int
  l_pid :: int
  l_sysid :: int

text \<open>\<^verbatim>\<open>l_end\<close> is a macro for \<^verbatim>\<open>l_len\<close>.\<close>

abbreviation l_end :: "flock \<Rightarrow> int" where
  "l_end \<equiv> l_len"

abbreviation F_RDLCK :: int where "F_RDLCK \<equiv> 1"
abbreviation F_WRLCK :: int where "F_WRLCK \<equiv> 2"
abbreviation F_UNLCK :: int where "F_UNLCK \<equiv> 3"
abbreviation MAXEND :: int where "MAXEND \<equiv> 2147483647"

record filock =
  fset :: flock
  stat :: int
  fprev :: ptr
  fnext :: ptr

record flckinfo =
  recs :: int
  reccnt :: int
  recovf :: int
  rectot :: int

record flstate =
  flox :: "nat \<Rightarrow> filock"
  frlock :: ptr
  sleeplcks :: ptr
  i_filocks :: "nat \<Rightarrow> ptr"
  flinfo :: flckinfo
  woken :: "nat list"

type_synonym owner = "int \<times> int"

text \<open>The union \<^verbatim>\<open>stat\<close>: \<^verbatim>\<open>wakeflg\<close> is the whole \<^verbatim>\<open>int\<close>, \<^verbatim>\<open>blk\<close> its two halves.\<close>

definition blk_pid :: "filock \<Rightarrow> int" where
  "blk_pid f = s16 (stat f div 65536)"

definition blk_sysid :: "filock \<Rightarrow> int" where
  "blk_sysid f = s16 (stat f)"

definition set_blk :: "int \<Rightarrow> int \<Rightarrow> filock \<Rightarrow> filock" where
  "set_blk p y f = f\<lparr>stat := s32 (p * 65536 + us16 y)\<rparr>"

datatype lockhead = Inode nat | Sleep

definition head :: "lockhead \<Rightarrow> flstate \<Rightarrow> ptr" where
  "head lh st = (case lh of Inode i \<Rightarrow> i_filocks st i | Sleep \<Rightarrow> sleeplcks st)"

definition set_head :: "lockhead \<Rightarrow> ptr \<Rightarrow> flstate \<Rightarrow> flstate" where
  "set_head lh p st =
     (case lh of Inode i \<Rightarrow> st\<lparr>i_filocks := (i_filocks st)(i := p)\<rparr> | Sleep \<Rightarrow> st\<lparr>sleeplcks := p\<rparr>)"

definition upd :: "nat \<Rightarrow> (filock \<Rightarrow> filock) \<Rightarrow> flstate \<Rightarrow> flstate" where
  "upd a f st = st\<lparr>flox := (flox st)(a := f (flox st a))\<rparr>"

definition upd_opt :: "ptr \<Rightarrow> (filock \<Rightarrow> filock) \<Rightarrow> flstate \<Rightarrow> flstate" where
  "upd_opt p f st = (case p of None \<Rightarrow> st | Some a \<Rightarrow> upd a f st)"

abbreviation lck :: "flstate \<Rightarrow> nat \<Rightarrow> flock" where
  "lck st a \<equiv> fset (flox st a)"

abbreviation nxt :: "flstate \<Rightarrow> nat \<Rightarrow> ptr" where
  "nxt st a \<equiv> fnext (flox st a)"

abbreviation prv :: "flstate \<Rightarrow> nat \<Rightarrow> ptr" where
  "prv st a \<equiv> fprev (flox st a)"

definition own :: "owner \<Rightarrow> flock \<Rightarrow> bool" where
  "own me l \<longleftrightarrow> l_pid l = fst me \<and> l_sysid l = snd me"

section \<open>The free list and list surgery\<close>

primrec flckinit_loop :: "nat \<Rightarrow> flstate \<Rightarrow> flstate" where
  "flckinit_loop 0 st = st"
| "flckinit_loop (Suc i) st =
     (let st = flckinit_loop i st
      in case frlock st of
           None \<Rightarrow> (upd i (\<lambda>f. f\<lparr>fnext := None, fprev := None\<rparr>) st)\<lparr>frlock := Some i\<rparr>
         | Some h \<Rightarrow> (upd h (\<lambda>f. f\<lparr>fprev := Some i\<rparr>) (upd i (\<lambda>f. f\<lparr>fnext := Some h, fprev := None\<rparr>) st))\<lparr>frlock := Some i\<rparr>)"

definition flckinit :: "flstate \<Rightarrow> flstate" where
  "flckinit st = flckinit_loop (nat (recs (flinfo st))) st"

definition WAKEUP :: "nat \<Rightarrow> flstate \<Rightarrow> flstate" where
  "WAKEUP a st =
     (if stat (flox st a) \<noteq> 0 then (upd a (\<lambda>f. f\<lparr>stat := 0\<rparr>) st)\<lparr>woken := woken st @ [a]\<rparr> else st)"

definition insflck :: "owner \<Rightarrow> lockhead \<Rightarrow> flock \<Rightarrow> ptr \<Rightarrow> flstate \<Rightarrow> ptr \<times> flstate" where
  "insflck me lh lckdat fl st =
     (case frlock st of
        None \<Rightarrow> (None, st\<lparr>flinfo := (flinfo st)\<lparr>recovf := s32 (recovf (flinfo st) + 1)\<rparr>\<rparr>)
      | Some new \<Rightarrow>
          let st = st\<lparr>flinfo := (flinfo st)\<lparr>reccnt := s32 (reccnt (flinfo st) + 1), rectot := s32 (rectot (flinfo st) + 1)\<rparr>,
                      frlock := nxt st new\<rparr>;
              st = upd_opt (frlock st) (\<lambda>f. f\<lparr>fprev := None\<rparr>) st;
              st = upd new (\<lambda>f. f\<lparr>fset := lckdat\<lparr>l_pid := fst me, l_sysid := snd me\<rparr>, stat := 0\<rparr>) st;
              st = (case fl of
                      None \<Rightarrow>
                        let st = upd new (\<lambda>f. f\<lparr>fnext := head lh st\<rparr>) st;
                            st = upd_opt (nxt st new) (\<lambda>f. f\<lparr>fprev := Some new\<rparr>) st
                        in set_head lh (Some new) st
                    | Some fl \<Rightarrow>
                        let st = upd new (\<lambda>f. f\<lparr>fnext := nxt st fl\<rparr>) st;
                            st = upd_opt (nxt st fl) (\<lambda>f. f\<lparr>fprev := Some new\<rparr>) st
                        in upd fl (\<lambda>f. f\<lparr>fnext := Some new\<rparr>) st)
          in (Some new, upd new (\<lambda>f. f\<lparr>fprev := fl\<rparr>) st))"

definition unlink :: "lockhead \<Rightarrow> nat \<Rightarrow> flstate \<Rightarrow> flstate" where
  "unlink lh fl st =
     (let st = (case prv st fl of
                  Some p \<Rightarrow> upd p (\<lambda>f. f\<lparr>fnext := nxt st fl\<rparr>) st
                | None \<Rightarrow> set_head lh (nxt st fl) st)
      in upd_opt (nxt st fl) (\<lambda>f. f\<lparr>fprev := prv st fl\<rparr>) st)"

definition free_put :: "nat \<Rightarrow> flstate \<Rightarrow> flstate" where
  "free_put fl st =
     (case frlock st of
        None \<Rightarrow> (upd fl (\<lambda>f. f\<lparr>fnext := None, fprev := None\<rparr>) st)\<lparr>frlock := Some fl\<rparr>
      | Some h \<Rightarrow>
          (upd h (\<lambda>f. f\<lparr>fprev := Some fl\<rparr>) (upd fl (\<lambda>f. f\<lparr>fnext := Some h, fprev := None\<rparr>) st))\<lparr>frlock := Some fl\<rparr>)"

definition delflck :: "lockhead \<Rightarrow> nat \<Rightarrow> flstate \<Rightarrow> flstate" where
  "delflck lh fl st =
     (let st = WAKEUP fl (unlink lh fl st);
          st = st\<lparr>flinfo := (flinfo st)\<lparr>reccnt := s32 (reccnt (flinfo st) - 1)\<rparr>\<rparr>
      in free_put fl st)"

section \<open>Adjusting the locks of a process\<close>

datatype spos = S_BEFORE | S_START | S_MIDDLE | S_END | S_AFTER
datatype epos = E_BEFORE | E_START | E_MIDDLE | E_END | E_AFTER

definition regflck :: "flock \<Rightarrow> flock \<Rightarrow> spos \<times> epos" where
  "regflck ld fs =
     (if l_start ld > l_start fs \<and> l_start ld - 1 = l_end fs then (S_END, E_AFTER)
      else if l_start ld > l_start fs \<and> l_start ld > l_end fs then (S_AFTER, E_AFTER)
      else (if l_start ld > l_start fs then S_MIDDLE else if l_start ld = l_start fs then S_START else S_BEFORE,
            if l_end ld < l_end fs then
              if l_end ld = l_start fs - 1 then E_START
              else if l_end ld < l_start fs then E_BEFORE
              else E_MIDDLE
            else if l_end ld = l_end fs then E_END
            else E_AFTER))"

text \<open>\<^verbatim>\<open>do { if (p->l_start < start) at = p; else break; } while (p = p->next)\<close>.\<close>

partial_function (option) ins_scan :: "flstate \<Rightarrow> int \<Rightarrow> nat \<Rightarrow> nat \<Rightarrow> nat option" where
  "ins_scan st start p at =
     (if l_start (lck st p) < start then
        (case nxt st p of None \<Rightarrow> Some p | Some p' \<Rightarrow> ins_scan st start p' p)
      else Some at)"

text \<open>The piece after the (un)lock; the first component is \<^verbatim>\<open>insflck(..) == NULL\<close>.\<close>

definition piece_after :: "owner \<Rightarrow> lockhead \<Rightarrow> nat \<Rightarrow> flock \<Rightarrow> flstate \<Rightarrow> (bool \<times> flstate) option" where
  "piece_after me lh flp ld st =
     (let td = (lck st flp)\<lparr>l_start := l_end ld + 1\<rparr>
      in Option.bind (ins_scan st (l_start td) flp flp) (\<lambda>tdi.
           (case insflck me lh td (Some tdi) st of (new, st') \<Rightarrow> Some (new = None, st'))))"

text \<open>\<open>Next\<close>: go on with \<^verbatim>\<open>nflp\<close>, \<^verbatim>\<open>insrtp\<close> and \<^verbatim>\<open>*ld\<close>; \<open>Ret\<close>: return.\<close>

datatype adj = Next ptr ptr flock flstate | Ret "errno option" flock flstate

definition cut_end :: "nat \<Rightarrow> flock \<Rightarrow> flstate \<Rightarrow> flstate" where
  "cut_end flp ld st = WAKEUP flp (upd flp (\<lambda>f. f\<lparr>fset := (fset f)\<lparr>l_len := l_start ld - 1\<rparr>\<rparr>) st)"

definition flckadj_step :: "owner \<Rightarrow> lockhead \<Rightarrow> nat \<Rightarrow> ptr \<Rightarrow> flock \<Rightarrow> flstate \<Rightarrow> adj option" where
  "flckadj_step me lh flp insrtp ld st =
     (let nflp = nxt st flp; fs = lck st flp; same = (l_type ld = l_type fs)
      in if \<not> own me fs then Some (Next nflp insrtp ld st)
         else case regflck ld fs of
           (S_BEFORE, E_BEFORE) \<Rightarrow> Some (Next None insrtp ld st)
         | (S_BEFORE, E_START) \<Rightarrow>
             if same then Some (Next None insrtp (ld\<lparr>l_len := l_end fs\<rparr>) (delflck lh flp st))
             else Some (Next None insrtp ld st)
         | (S_START, E_END) \<Rightarrow>
             if same then Some (Ret None ld st) else Some (Next nflp (prv st flp) ld (delflck lh flp st))
         | (S_START, E_AFTER) \<Rightarrow> Some (Next nflp (prv st flp) ld (delflck lh flp st))
         | (S_BEFORE, E_END) \<Rightarrow> Some (Next (if same then None else nflp) insrtp ld (delflck lh flp st))
         | (S_BEFORE, E_AFTER) \<Rightarrow> Some (Next nflp insrtp ld (delflck lh flp st))
         | (S_START, E_MIDDLE) \<Rightarrow>
             if same then Some (Ret None ld st)
             else Option.bind (piece_after me lh flp ld st) (\<lambda>(full, st').
               Some (if full then Ret (Some ENOLCK) ld st' else Next None (prv st flp) ld (delflck lh flp st')))
         | (S_MIDDLE, E_MIDDLE) \<Rightarrow>
             if same then Some (Ret None ld st)
             else Option.bind (piece_after me lh flp ld st) (\<lambda>(full, st').
               Some (if full then Ret (Some ENOLCK) ld st' else Next None (Some flp) ld (cut_end flp ld st')))
         | (S_BEFORE, E_MIDDLE) \<Rightarrow>
             if same then Some (Next None insrtp (ld\<lparr>l_len := l_end fs\<rparr>) (delflck lh flp st))
             else Option.bind (piece_after me lh flp ld st) (\<lambda>(full, st').
               Some (if full then Ret (Some ENOLCK) ld st' else Next None insrtp ld (delflck lh flp st')))
         | (S_MIDDLE, E_END) \<Rightarrow>
             if same then Some (Ret None ld st) else Some (Next nflp (Some flp) ld (cut_end flp ld st))
         | (S_MIDDLE, E_AFTER) \<Rightarrow>
             if same then Some (Next nflp (prv st flp) (ld\<lparr>l_start := l_start fs\<rparr>) (delflck lh flp st))
             else Some (Next nflp (Some flp) ld (cut_end flp ld st))
         | (S_END, E_AFTER) \<Rightarrow>
             if same then Some (Next nflp (prv st flp) (ld\<lparr>l_start := l_start fs\<rparr>) (delflck lh flp st))
             else Some (Next nflp insrtp ld st)
         | (S_AFTER, E_AFTER) \<Rightarrow> Some (Next nflp (Some flp) ld st)
         | _ \<Rightarrow> Some (Next nflp insrtp ld st))"

partial_function (option) flckadj_loop :: "owner \<Rightarrow> lockhead \<Rightarrow> ptr \<Rightarrow> ptr \<Rightarrow> flock \<Rightarrow> flstate \<Rightarrow> adj option" where
  "flckadj_loop me lh nflp insrtp ld st =
     (case nflp of
        None \<Rightarrow> Some (Next None insrtp ld st)
      | Some flp \<Rightarrow>
          Option.bind (flckadj_step me lh flp insrtp ld st) (\<lambda>r.
            case r of Next n i ld' st' \<Rightarrow> flckadj_loop me lh n i ld' st' | Ret e ld' st' \<Rightarrow> Some (Ret e ld' st')))"

definition flckadj_insert :: "owner \<Rightarrow> lockhead \<Rightarrow> ptr \<Rightarrow> flock \<Rightarrow> flstate \<Rightarrow> (errno option \<times> flock \<times> flstate) option" where
  "flckadj_insert me lh insrtp ld st =
     (if l_type ld \<noteq> F_UNLCK then
        Option.bind (case insrtp of None \<Rightarrow> Some None | Some p \<Rightarrow> Option.bind (ins_scan st (l_start ld) p p) (\<lambda>a. Some (Some a)))
          (\<lambda>at. case insflck me lh ld at st of (new, st') \<Rightarrow> Some (if new = None then Some ENOLCK else None, ld, st'))
      else Some (None, ld, st))"

definition flckadj :: "owner \<Rightarrow> lockhead \<Rightarrow> ptr \<Rightarrow> flock \<Rightarrow> flstate \<Rightarrow> (errno option \<times> flock \<times> flstate) option" where
  "flckadj me lh insrtp ld st =
     Option.bind (flckadj_loop me lh (if insrtp = None then head lh st else insrtp) insrtp ld st) (\<lambda>r.
       case r of
         Ret e ld' st' \<Rightarrow> Some (e, ld', st')
       | Next n i ld' st' \<Rightarrow> flckadj_insert me lh i ld' st')"

section \<open>Requests\<close>

definition conflict :: "flock \<Rightarrow> flock \<Rightarrow> bool" where
  "conflict fs lk \<longleftrightarrow> l_type fs = F_WRLCK \<or> l_type fs = F_RDLCK \<and> l_type lk = F_WRLCK"

text \<open>The first loop: a blocking lock, the place the second loop starts at, and \<^verbatim>\<open>*insrt\<close>.\<close>

partial_function (option) blocked_scan :: "owner \<Rightarrow> flstate \<Rightarrow> flock \<Rightarrow> ptr \<Rightarrow> ptr \<Rightarrow> (ptr \<times> ptr \<times> ptr) option" where
  "blocked_scan me st lk f insrt =
     (case f of
        None \<Rightarrow> Some (None, None, insrt)
      | Some a \<Rightarrow>
          if l_start (lck st a) < l_start lk then
            if own me (lck st a) then
              if l_start lk - 1 \<le> l_end (lck st a) then Some (None, f, f)
              else blocked_scan me st lk (nxt st a) f
            else if l_start lk \<le> l_end (lck st a) \<and> conflict (lck st a) lk then Some (f, None, f)
            else blocked_scan me st lk (nxt st a) f
          else Some (None, f, insrt))"

partial_function (option) blocked_rest :: "owner \<Rightarrow> flstate \<Rightarrow> flock \<Rightarrow> ptr \<Rightarrow> ptr option" where
  "blocked_rest me st lk f =
     (case f of
        None \<Rightarrow> Some None
      | Some a \<Rightarrow>
          if l_end lk < l_start (lck st a) then Some None
          else if l_start lk \<le> l_end (lck st a) \<and> \<not> own me (lck st a) \<and> conflict (lck st a) lk then Some f
          else blocked_rest me st lk (nxt st a))"

text \<open>The blocking lock and \<^verbatim>\<open>*insrt\<close>.\<close>

definition blocked :: "owner \<Rightarrow> flstate \<Rightarrow> ptr \<Rightarrow> flock \<Rightarrow> (ptr \<times> ptr) option" where
  "blocked me st flp lk =
     Option.bind (blocked_scan me st lk flp None) (\<lambda>(found, f, insrt).
       if found \<noteq> None then Some (found, insrt)
       else Option.bind (blocked_rest me st lk f) (\<lambda>found. Some (found, insrt)))"

definition convoff :: "int \<Rightarrow> flock \<Rightarrow> int \<Rightarrow> int \<Rightarrow> errno option \<times> flock" where
  "convoff i_size lk whence off =
     (if l_whence lk \<noteq> 0 \<and> l_whence lk \<noteq> 1 \<and> l_whence lk \<noteq> 2 then (Some EINVAL, lk)
      else
        let lk = (if l_whence lk = 1 then lk\<lparr>l_start := s32 (l_start lk + off)\<rparr>
                  else if l_whence lk = 2 then lk\<lparr>l_start := s32 (l_start lk + i_size)\<rparr> else lk)
        in if l_start lk < 0 then (Some EINVAL, lk)
           else if whence \<noteq> 0 \<and> whence \<noteq> 1 \<and> whence \<noteq> 2 then (Some EINVAL, lk)
           else let lk = (if whence = 1 then lk\<lparr>l_start := s32 (l_start lk - off)\<rparr>
                          else if whence = 2 then lk\<lparr>l_start := s32 (l_start lk - i_size)\<rparr> else lk)
                in (None, lk\<lparr>l_whence := s16 whence\<rparr>))"

text \<open>The first sleeping request of a process.\<close>

partial_function (option) sleeper :: "flstate \<Rightarrow> int \<Rightarrow> int \<Rightarrow> ptr \<Rightarrow> ptr option" where
  "sleeper st pid sysid sf =
     (case sf of
        None \<Rightarrow> Some None
      | Some a \<Rightarrow> if own (pid, sysid) (lck st a) then Some sf else sleeper st pid sysid (nxt st a))"

partial_function (option) deadflck_loop :: "owner \<Rightarrow> flstate \<Rightarrow> int \<Rightarrow> int \<Rightarrow> bool option" where
  "deadflck_loop me st blckpid blcksysid =
     (if (blckpid, blcksysid) = me then Some True
      else Option.bind (sleeper st blckpid blcksysid (sleeplcks st)) (\<lambda>sf.
             case sf of
               None \<Rightarrow> Some False
             | Some a \<Rightarrow> deadflck_loop me st (blk_pid (flox st a)) (blk_sysid (flox st a))))"

definition deadflck :: "owner \<Rightarrow> flstate \<Rightarrow> nat \<Rightarrow> bool option" where
  "deadflck me st flp = deadflck_loop me st (s16 (l_pid (lck st flp))) (s16 (l_sysid (lck st flp)))"

abbreviation inoflck :: "int \<Rightarrow> bool" where "inoflck cmd \<equiv> cmd AND 1 \<noteq> 0"
abbreviation setflck :: "int \<Rightarrow> bool" where "setflck cmd \<equiv> cmd AND 2 \<noteq> 0"
abbreviation slpflck :: "int \<Rightarrow> bool" where "slpflck cmd \<equiv> cmd AND 4 \<noteq> 0"

text \<open>The checks before the lists are looked at: an error, or the request by start and end.\<close>

definition reclock_check :: "int \<Rightarrow> flock \<Rightarrow> int \<Rightarrow> int \<Rightarrow> int \<Rightarrow> errno + flock" where
  "reclock_check i_size lk cmd flag off =
     (if setflck cmd \<and> (l_type lk = F_RDLCK \<and> flag AND 1 = 0 \<or> l_type lk = F_WRLCK \<and> flag AND 2 = 0) then Inl EBADF
      else case convoff i_size lk 0 off of
        (Some e, lk) \<Rightarrow> Inl e
      | (None, lk) \<Rightarrow>
          if l_len lk < 0 then Inl EINVAL
          else
            let lk = (if l_len lk = 0 then lk\<lparr>l_len := MAXEND\<rparr> else lk\<lparr>l_len := s32 (l_len lk + (l_start lk - 1))\<rparr>)
            in if l_start lk > l_end lk then Inl EINVAL else Inr lk)"

text \<open>One turn of the loop: done with a result, or asleep on \<^verbatim>\<open>found\<close> with the sleeping request \<^verbatim>\<open>sf\<close>.\<close>

datatype turn = Done "errno option" flock flstate | Asleep nat nat flock flstate

definition reclock_wait :: "owner \<Rightarrow> bool \<Rightarrow> nat \<Rightarrow> flock \<Rightarrow> flstate \<Rightarrow> turn option" where
  "reclock_wait me server found lk st =
     Option.bind (deadflck me st found) (\<lambda>dead.
       if dead then Some (Done (Some EDEADLK) lk st)
       else (case insflck me Sleep lk None st of
               (None, st) \<Rightarrow> Some (Done (Some ENOLCK) lk st)
             | (Some sf, st) \<Rightarrow>
                 if server then Some (Done (Some EBUSY) lk (delflck Sleep sf st))
                 else
                   let st = upd found (\<lambda>f. f\<lparr>stat := s32 (stat f + 1)\<rparr>) st;
                       st = upd sf (set_blk (l_pid (lck st found)) (l_sysid (lck st found))) st
                   in Some (Asleep found sf lk st)))"

definition reclock_turn :: "owner \<Rightarrow> bool \<Rightarrow> nat \<Rightarrow> int \<Rightarrow> flock \<Rightarrow> flstate \<Rightarrow> turn option" where
  "reclock_turn me server i cmd lk st =
     (if l_type lk = F_RDLCK \<or> l_type lk = F_WRLCK then
        Option.bind (blocked me st (head (Inode i) st) lk) (\<lambda>(found, insrt).
          case found of
            None \<Rightarrow>
              if setflck cmd then
                Option.bind (flckadj me (Inode i) insrt lk st) (\<lambda>(e, lk', st'). Some (Done e lk' st'))
              else Some (Done None (lk\<lparr>l_type := F_UNLCK\<rparr>) st)
          | Some a \<Rightarrow>
              if slpflck cmd then reclock_wait me server a lk st
              else if setflck cmd then Some (Done (Some EAGAIN) lk st)
              else Some (Done None (lck st a) st))
      else if l_type lk = F_UNLCK then
        if setflck cmd then
          Option.bind (flckadj me (Inode i) (head (Inode i) st) lk st) (\<lambda>(e, lk', st'). Some (Done e lk' st'))
        else Some (Done None lk st)
      else Some (Done (Some EINVAL) lk st))"

text \<open>After the sleep: the request leaves the list; a signal ends the call, otherwise there is another turn.\<close>

definition reclock_woken :: "nat \<Rightarrow> flstate \<Rightarrow> flstate" where
  "reclock_woken sf st = delflck Sleep sf (upd sf (set_blk 0 0) st)"

text \<open>The request as it is handed back.\<close>

definition reclock_back :: "int \<Rightarrow> int \<Rightarrow> int \<Rightarrow> flock \<Rightarrow> flock" where
  "reclock_back i_size whence off lk =
     (let lk = (if l_end lk = MAXEND then lk\<lparr>l_len := 0\<rparr> else lk\<lparr>l_len := s32 (l_len lk - (l_start lk - 1))\<rparr>)
      in snd (convoff i_size lk whence off))"

text \<open>\<open>ign\<close>: \<^verbatim>\<open>flag == IGN_PID\<close>.\<close>

partial_function (option) cleanlocks_loop :: "owner \<Rightarrow> bool \<Rightarrow> nat \<Rightarrow> ptr \<Rightarrow> flstate \<Rightarrow> flstate option" where
  "cleanlocks_loop me ign i flp st =
     (case flp of
        None \<Rightarrow> Some st
      | Some a \<Rightarrow>
          let nflp = nxt st a
          in cleanlocks_loop me ign i nflp
               (if (l_pid (lck st a) = fst me \<or> ign) \<and> l_sysid (lck st a) = snd me then delflck (Inode i) a st else st))"

definition cleanlocks :: "owner \<Rightarrow> bool \<Rightarrow> nat \<Rightarrow> flstate \<Rightarrow> flstate option" where
  "cleanlocks me ign i st = cleanlocks_loop me ign i (head (Inode i) st) st"

text \<open>The searches compute.\<close>

declare ins_scan.simps [code] flckadj_loop.simps [code] blocked_scan.simps [code] blocked_rest.simps [code]
  sleeper.simps [code] deadflck_loop.simps [code] cleanlocks_loop.simps [code]

section \<open>Doubly linked lists\<close>

primrec dseg :: "(nat \<Rightarrow> filock) \<Rightarrow> ptr \<Rightarrow> nat list \<Rightarrow> ptr \<Rightarrow> ptr \<Rightarrow> bool" where
  "dseg fx pr [] p q \<longleftrightarrow> p = q"
| "dseg fx pr (x # xs) p q \<longleftrightarrow> p = Some x \<and> fprev (fx x) = pr \<and> dseg fx (Some x) xs (fnext (fx x)) q"

definition lastp :: "nat list \<Rightarrow> ptr" where
  "lastp xs = (if xs = [] then None else Some (last xs))"

definition firstp :: "nat list \<Rightarrow> ptr" where
  "firstp xs = (if xs = [] then None else Some (hd xs))"

lemma lastp_simps [simp]: "lastp [] = None" "lastp (xs @ [x]) = Some x"
  by (simp_all add: lastp_def)

lemma firstp_simps [simp]: "firstp [] = None" "firstp (x # xs) = Some x"
  by (simp_all add: firstp_def)

lemma firstp_in: "firstp xs = Some x \<Longrightarrow> x \<in> set xs"
  and lastp_in: "lastp xs = Some x \<Longrightarrow> x \<in> set xs"
  by (auto simp: firstp_def lastp_def split: if_splits)

lemma dseg_append: "dseg fx pr (xs @ ys) p q \<longleftrightarrow> (\<exists>r. dseg fx pr xs p r \<and> dseg fx (if xs = [] then pr else Some (last xs)) ys r q)"
  by (induction xs arbitrary: pr p) auto

lemma dseg_cong:
  "(\<And>x. x \<in> set xs \<Longrightarrow> fnext (fx x) = fnext (fy x) \<and> fprev (fx x) = fprev (fy x)) \<Longrightarrow> dseg fx pr xs p q = dseg fy pr xs p q"
  by (induction xs arbitrary: pr p) auto

lemma dseg_first: "dseg fx pr xs p None \<Longrightarrow> p = firstp xs"
  by (cases xs) auto

text \<open>A new predecessor for the first node.\<close>

lemma dseg_reprev:
  assumes "dseg fx pr xs p q" "distinct xs"
    and "\<And>x. x \<in> set xs \<Longrightarrow> fnext (fy x) = fnext (fx x)"
    and "\<And>x. x \<in> set xs \<Longrightarrow> x \<noteq> hd xs \<Longrightarrow> fprev (fy x) = fprev (fx x)"
    and "xs \<noteq> [] \<Longrightarrow> fprev (fy (hd xs)) = pr'"
  shows "dseg fy pr' xs p q"
proof (cases xs)
  case (Cons x ys)
  then have "dseg fx (Some x) ys (fnext (fx x)) q" using assms(1) by simp
  moreover have "dseg fx (Some x) ys (fnext (fx x)) q = dseg fy (Some x) ys (fnext (fx x)) q"
  proof (rule dseg_cong)
    fix z assume z: "z \<in> set ys"
    then have "z \<noteq> x" using assms(2) Cons by auto
    then show "fnext (fx z) = fnext (fy z) \<and> fprev (fx z) = fprev (fy z)"
      using assms(3)[of z] assms(4)[of z] Cons z by simp
  qed
  ultimately show ?thesis using assms(1,3,5) Cons by simp
qed (use assms(1) in simp)

text \<open>A new successor for the last node.\<close>

lemma dseg_renext:
  assumes "dseg fx pr xs p q" "distinct xs" "xs \<noteq> []"
    and "\<And>x. x \<in> set xs \<Longrightarrow> fprev (fy x) = fprev (fx x)"
    and "\<And>x. x \<in> set xs \<Longrightarrow> x \<noteq> last xs \<Longrightarrow> fnext (fy x) = fnext (fx x)"
    and "fnext (fy (last xs)) = q'"
  shows "dseg fy pr xs p q'"
proof -
  obtain ys x where xs: "xs = ys @ [x]" using assms(3) by (cases xs rule: rev_cases) auto
  have "dseg fx pr ys p (Some x)" using assms(1) xs by (auto simp: dseg_append)
  moreover have "dseg fx pr ys p (Some x) = dseg fy pr ys p (Some x)"
  proof (rule dseg_cong)
    fix z assume z: "z \<in> set ys"
    then have "z \<noteq> x" using assms(2) xs by auto
    then show "fnext (fx z) = fnext (fy z) \<and> fprev (fx z) = fprev (fy z)"
      using assms(4)[of z] assms(5)[of z] xs z by simp
  qed
  ultimately show ?thesis using assms(1,4,6) xs by (auto simp: dseg_append)
qed


section \<open>The lists a state holds\<close>

definition fl_rep :: "flstate \<Rightarrow> (lockhead \<Rightarrow> nat list) \<Rightarrow> nat list \<Rightarrow> bool" where
  "fl_rep st L F \<longleftrightarrow>
     (\<forall>lh. dseg (flox st) None (L lh) (head lh st) None \<and> distinct (L lh) \<and> set (L lh) \<inter> set F = {}) \<and>
     (\<forall>lh lh'. lh \<noteq> lh' \<longrightarrow> set (L lh) \<inter> set (L lh') = {}) \<and>
     chain (\<lambda>a. nxt st a) (frlock st) F"

lemma fl_repD:
  assumes "fl_rep st L F"
  shows "dseg (flox st) None (L lh) (head lh st) None" "distinct (L lh)" "a \<in> set (L lh) \<Longrightarrow> a \<notin> set F"
    "lh \<noteq> lh' \<Longrightarrow> a \<in> set (L lh) \<Longrightarrow> a \<notin> set (L lh')" "chain (\<lambda>a. nxt st a) (frlock st) F" "distinct F"
  using assms chain_distinct unfolding fl_rep_def by (blast, blast, blast, blast, blast, blast)

lemma fl_rep_head: "fl_rep st L F \<Longrightarrow> head lh st = firstp (L lh)"
  using fl_repD(1) dseg_first by blast

lemma fl_rep_at:
  assumes "fl_rep st L F" "L lh = as @ f # bs"
  shows "prv st f = lastp as" "nxt st f = firstp bs"
proof -
  from fl_repD(1)[OF assms(1), of lh] assms(2) obtain r where
    "dseg (flox st) (if as = [] then None else Some (last as)) (f # bs) r None" by (auto simp: dseg_append)
  then show "prv st f = lastp as" "nxt st f = firstp bs" using dseg_first by (auto simp: lastp_def)
qed

text \<open>What an operation does to the links of the records: \<open>links st st' ns\<close> lists those it may change.\<close>

lemma upd_simps [simp]:
  "flox (upd a f st) b = (if b = a then f (flox st a) else flox st b)"
  "frlock (upd a f st) = frlock st" "head lh (upd a f st) = head lh st" "flinfo (upd a f st) = flinfo st"
  "woken (upd a f st) = woken st"
  by (simp_all add: upd_def head_def split: lockhead.splits)

lemma upd_opt_simps [simp]:
  "flox (upd_opt p f st) b = (if p = Some b then f (flox st b) else flox st b)"
  "frlock (upd_opt p f st) = frlock st" "head lh (upd_opt p f st) = head lh st" "flinfo (upd_opt p f st) = flinfo st"
  "woken (upd_opt p f st) = woken st"
  by (auto simp: upd_opt_def split: option.splits)

lemma set_head_simps [simp]:
  "flox (set_head lh p st) = flox st" "frlock (set_head lh p st) = frlock st"
  "head lh' (set_head lh p st) = (if lh' = lh then p else head lh' st)"
  "flinfo (set_head lh p st) = flinfo st" "woken (set_head lh p st) = woken st"
  by (auto simp: set_head_def head_def split: lockhead.splits)

lemma head_frlock [simp]: "head lh (st\<lparr>frlock := p\<rparr>) = head lh st"
  and head_flinfo [simp]: "head lh (st\<lparr>flinfo := i\<rparr>) = head lh st"
  and head_woken [simp]: "head lh (st\<lparr>woken := w\<rparr>) = head lh st"
  by (simp_all add: head_def split: lockhead.splits)

text \<open>A list unlike the one changed keeps its shape.\<close>

lemma fl_rep_change:
  assumes "fl_rep st L F"
    and "dseg (flox st') None xs (head lh st') None" "distinct xs" "set xs \<inter> set G = {}"
    and "set xs \<union> set G \<subseteq> set (L lh) \<union> set F"
    and "chain (\<lambda>a. nxt st' a) (frlock st') G"
    and "\<And>lh'. lh' \<noteq> lh \<Longrightarrow> head lh' st' = head lh' st"
    and "\<And>a. a \<notin> set (L lh) \<Longrightarrow> a \<notin> set F \<Longrightarrow> nxt st' a = nxt st a \<and> prv st' a = prv st a"
  shows "fl_rep st' (L(lh := xs)) G"
proof -
  have "dseg (flox st') None (L k) (head k st') None" if "k \<noteq> lh" for k
  proof -
    have "dseg (flox st') None (L k) (head k st) None = dseg (flox st) None (L k) (head k st) None"
      using assms(8) fl_repD(3,4)[OF assms(1)] that by (intro dseg_cong) auto
    then show ?thesis using fl_repD(1)[OF assms(1)] assms(7)[OF that] by simp
  qed
  moreover have "set (L k) \<inter> set G = {} \<and> set (L k) \<inter> set xs = {}" if "k \<noteq> lh" for k
    using assms(5) fl_repD(3,4)[OF assms(1)] that by blast
  ultimately show ?thesis using assms(2-4,6) fl_repD(2,4)[OF assms(1)]
    unfolding fl_rep_def by (auto simp: Int_commute)
qed

definition same_data :: "flstate \<Rightarrow> flstate \<Rightarrow> nat \<Rightarrow> bool" where
  "same_data st st' a \<longleftrightarrow> lck st' a = lck st a \<and> stat (flox st' a) = stat (flox st a)"

lemma insflck_full: "fl_rep st L [] \<Longrightarrow> insflck me lh d fl st = (None, st\<lparr>flinfo := (flinfo st)\<lparr>recovf := s32 (recovf (flinfo st) + 1)\<rparr>\<rparr>)"
  using fl_repD(5)[of st L "[]"] by (simp add: insflck_def)

lemma insflck_rep:
  assumes r: "fl_rep st L (n # F)" and L: "L lh = as @ bs"
  shows "\<exists>st'. insflck me lh d (lastp as) st = (Some n, st') \<and> fl_rep st' (L(lh := as @ n # bs)) F \<and>
           lck st' n = d\<lparr>l_pid := fst me, l_sysid := snd me\<rparr> \<and> stat (flox st' n) = 0 \<and>
           (\<forall>a. a \<noteq> n \<longrightarrow> same_data st st' a) \<and> woken st' = woken st"
proof -
  note D = fl_repD[OF r]
  have fr: "frlock st = Some n" "chain (\<lambda>a. nxt st a) (nxt st n) F" using D(5) by auto
  then have hF: "nxt st n = firstp F" by (cases F) auto
  have n: "n \<notin> set as" "n \<notin> set bs" "n \<notin> set F" using D(3)[of n lh] D(6) L by auto
  have db: "distinct as" "distinct bs" "set as \<inter> set bs = {}" "set F \<inter> set as = {}" "set F \<inter> set bs = {}"
    using D(2)[of lh] D(3)[of _ lh] L by auto
  have nl: "nxt st (last as) = firstp bs" if "as \<noteq> []"
  proof -
    obtain ys y where y: "as = ys @ [y]" using \<open>as \<noteq> []\<close> by (cases as rule: rev_cases) auto
    then show ?thesis using fl_rep_at(2)[OF r, of lh ys y bs] L by simp
  qed
  have hd0: "head lh st = firstp (as @ bs)" using fl_rep_head[OF r, of lh] L by simp
  define st' where "st' = snd (insflck me lh d (lastp as) st)"
  have ins: "insflck me lh d (lastp as) st = (Some n, st')" by (simp add: st'_def insflck_def fr Let_def)
  have la: "as \<noteq> [] \<Longrightarrow> last as \<noteq> n" and hb: "firstp bs \<noteq> Some n" and hf: "firstp F \<noteq> Some n"
    using n by (auto simp: firstp_def)
  have ex: "flox st' x = (let f = flox st x in
      if x = n then f\<lparr>fset := d\<lparr>l_pid := fst me, l_sysid := snd me\<rparr>, stat := 0, fprev := lastp as, fnext := firstp bs\<rparr>
      else f\<lparr>fprev := (if firstp bs = Some x then Some n else if firstp F = Some x then None else fprev f),
             fnext := (if as \<noteq> [] \<and> x = last as then Some n else fnext f)\<rparr>)" for x
    using la hb hf nl hd0 unfolding st'_def insflck_def fr
    by (cases "as = []") (auto simp: Let_def lastp_def hF split: option.splits intro!: filock.equality)
  have hds: "head k st' = (if k = lh \<and> as = [] then Some n else head k st)" for k
    unfolding st'_def insflck_def fr by (auto simp: Let_def lastp_def split: option.splits)
  have frl: "frlock st' = firstp F" "woken st' = woken st"
    unfolding st'_def insflck_def fr by (auto simp: Let_def hF split: option.splits)
  obtain q where seg: "dseg (flox st) None as (head lh st) q" "dseg (flox st) (lastp as) bs q None"
    using D(1)[of lh] L by (cases "as = []") (auto simp: dseg_append lastp_def)
  have q: "q = firstp bs" using dseg_first[OF seg(2)] .
  have lF: "last as \<notin> set F" "last as \<notin> set bs" if "as \<noteq> []" using last_in_set[OF that] db by auto
  have bseg: "dseg (flox st') (Some n) bs (firstp bs) None"
  proof (rule dseg_reprev[OF seg(2)[unfolded q] db(2)])
    show "fnext (flox st' x) = fnext (flox st x)" if "x \<in> set bs" for x
      using that n lF by (auto simp: ex Let_def)
    show "fprev (flox st' x) = fprev (flox st x)" if "x \<in> set bs" "x \<noteq> hd bs" for x
    proof -
      have "firstp F \<noteq> Some x" using that(1) db(5) firstp_in[of F x] by auto
      moreover have "firstp bs \<noteq> Some x" using that by (auto simp: firstp_def)
      ultimately show ?thesis using that n by (auto simp: ex Let_def)
    qed
    show "fprev (flox st' (hd bs)) = Some n" if "bs \<noteq> []"
    proof -
      have "firstp bs = Some (hd bs)" using that by (simp add: firstp_def)
      moreover have "hd bs \<noteq> n" using that n by auto
      ultimately show ?thesis by (simp add: ex Let_def)
    qed
  qed
  have nseg: "dseg (flox st') (lastp as) (n # bs) (Some n) None" using bseg by (simp add: ex Let_def)
  have "dseg (flox st') None (as @ n # bs) (head lh st') None"
  proof (cases "as = []")
    case True
    then show ?thesis using nseg hds by simp
  next
    case False
    have "dseg (flox st') None as (head lh st) (Some n)"
    proof (rule dseg_renext[OF seg(1) db(1) False])
      show "fprev (flox st' x) = fprev (flox st x)" if "x \<in> set as" for x
      proof -
        have "firstp F \<noteq> Some x" "firstp bs \<noteq> Some x" using that db firstp_in[of F x] firstp_in[of bs x] by auto
        then show ?thesis using that n by (auto simp: ex Let_def)
      qed
      show "fnext (flox st' x) = fnext (flox st x)" if "x \<in> set as" "x \<noteq> last as" for x
        using that n by (auto simp: ex Let_def)
      show "fnext (flox st' (last as)) = Some n"
        using False la by (simp add: ex Let_def)
    qed
    then show ?thesis using nseg hds False by (auto simp: dseg_append lastp_def)
  qed
  moreover have "chain (\<lambda>a. nxt st' a) (frlock st') F"
  proof -
    have "chain (\<lambda>a. nxt st' a) (frlock st') F = chain (\<lambda>a. nxt st a) (frlock st') F"
      using n lF by (intro lseg_cong) (auto simp: ex Let_def)
    then show ?thesis using fr(2) hF frl(1) by simp
  qed
  moreover have "nxt st' a = nxt st a \<and> prv st' a = prv st a" if "a \<notin> set (L lh)" "a \<notin> set (n # F)" for a
  proof -
    have "firstp bs \<noteq> Some a" "firstp F \<noteq> Some a" "as \<noteq> [] \<Longrightarrow> a \<noteq> last as"
      using that L by (auto simp: firstp_def split: if_splits)
    then show ?thesis using that by (auto simp: ex Let_def)
  qed
  ultimately have "fl_rep st' (L(lh := as @ n # bs)) F"
    using n db L hds by (intro fl_rep_change[OF r]) auto
  then show ?thesis using ins ex frl(2) by (auto simp: same_data_def Let_def)
qed

lemma unlink_simps:
  assumes "prv st f = p" "nxt st f = b" "p \<noteq> Some f" "b \<noteq> Some f" "p = None \<or> p \<noteq> b"
  shows "flox (unlink lh f st) x = (let g = flox st x in
      g\<lparr>fprev := (if b = Some x then p else fprev g), fnext := (if p = Some x then b else fnext g)\<rparr>)"
    and "head k (unlink lh f st) = (if k = lh \<and> p = None then b else head k st)"
    and "frlock (unlink lh f st) = frlock st" "woken (unlink lh f st) = woken st"
  using assms by (auto simp: unlink_def Let_def split: option.splits intro!: filock.equality)

lemma WAKEUP_simps [simp]:
  "flox (WAKEUP a st) x = (if x = a then (flox st x)\<lparr>stat := 0\<rparr> else flox st x)"
  "head k (WAKEUP a st) = head k st" "frlock (WAKEUP a st) = frlock st"
  "woken (WAKEUP a st) = woken st @ (if stat (flox st a) \<noteq> 0 then [a] else [])"
  by (auto simp: WAKEUP_def intro!: filock.equality)

lemma free_put_simps:
  assumes "frlock st = h" "h \<noteq> Some f"
  shows "flox (free_put f st) x = (let g = flox st x in
      if x = f then g\<lparr>fprev := None, fnext := h\<rparr> else g\<lparr>fprev := (if h = Some x then Some f else fprev g)\<rparr>)"
    and "head k (free_put f st) = head k st" "frlock (free_put f st) = Some f" "woken (free_put f st) = woken st"
  using assms by (auto simp: free_put_def Let_def split: option.splits intro!: filock.equality)

lemma delflck_rep:
  assumes r: "fl_rep st L F" and L: "L lh = as @ f # bs"
  shows "fl_rep (delflck lh f st) (L(lh := as @ bs)) (f # F) \<and>
    (\<forall>a. a \<noteq> f \<longrightarrow> same_data st (delflck lh f st) a) \<and> lck (delflck lh f st) f = lck st f \<and>
    woken (delflck lh f st) = woken st @ (if stat (flox st f) \<noteq> 0 then [f] else [])"
proof -
  note D = fl_repD[OF r]
  have fr: "frlock st = firstp F" using D(5) by (cases F) auto
  have pn: "prv st f = lastp as" "nxt st f = firstp bs" using fl_rep_at[OF r L] by auto
  have n: "f \<notin> set as" "f \<notin> set bs" "f \<notin> set F" using D(2)[of lh] D(3)[of f lh] L by auto
  have db: "distinct as" "distinct bs" "set as \<inter> set bs = {}" "set F \<inter> set as = {}" "set F \<inter> set bs = {}"
    using D(2)[of lh] D(3)[of _ lh] L by auto
  have hd0: "head lh st = firstp (as @ f # bs)" using fl_rep_head[OF r, of lh] L by simp
  define st' where "st' = delflck lh f st"
  have ne: "lastp as \<noteq> Some f" "firstp bs \<noteq> Some f" "firstp F \<noteq> Some f" using n by (auto simp: firstp_def lastp_def)
  have ds: "\<And>b p. firstp bs = Some b \<Longrightarrow> lastp as = Some p \<Longrightarrow> b \<noteq> p"
    "\<And>h b. firstp F = Some h \<Longrightarrow> firstp bs = Some b \<Longrightarrow> h \<noteq> b"
    "\<And>h p. firstp F = Some h \<Longrightarrow> lastp as = Some p \<Longrightarrow> h \<noteq> p"
    using db firstp_in[of bs] firstp_in[of F] lastp_in[of as] by blast+
  have pb: "lastp as = None \<or> lastp as \<noteq> firstp bs" using ds(1) by (cases "firstp bs") auto
  note U = unlink_simps[OF pn ne(1,2) pb]
  have fu: "frlock ((WAKEUP f (unlink lh f st))\<lparr>flinfo := i\<rparr>) = firstp F" for i by (simp add: U fr)
  note P = free_put_simps[OF fu ne(3)]
  have ex: "lck st' x = lck st x" "stat (flox st' x) = (if x = f then 0 else stat (flox st x))"
    "prv st' x = (if x = f then None else if firstp F = Some x then Some f else if firstp bs = Some x then lastp as else prv st x)"
    "nxt st' x = (if x = f then firstp F else if lastp as = Some x then firstp bs else nxt st x)" for x
    unfolding st'_def delflck_def Let_def P by (simp_all add: U Let_def)
  have hds: "head k st' = (if k = lh \<and> as = [] then firstp bs else head k st)" for k
    unfolding st'_def delflck_def Let_def P by (simp add: U lastp_def)
  have frl: "frlock st' = Some f" "woken st' = woken st @ (if stat (flox st f) \<noteq> 0 then [f] else [])"
    unfolding st'_def delflck_def Let_def P by (simp_all add: U Let_def)
  obtain q where seg: "dseg (flox st) None as (head lh st) (Some f)" "dseg (flox st) (Some f) bs (firstp bs) None"
    using D(1)[of lh] L pn by (cases "as = []") (auto simp: dseg_append)
  have bseg: "dseg (flox st') (lastp as) bs (firstp bs) None"
  proof (rule dseg_reprev[OF seg(2) db(2)])
    show "fnext (flox st' x) = fnext (flox st x)" if "x \<in> set bs" for x
    proof -
      have "lastp as \<noteq> Some x" using that db lastp_in[of as x] by auto
      then show ?thesis using that n by (auto simp: ex)
    qed
    show "fprev (flox st' x) = fprev (flox st x)" if "x \<in> set bs" "x \<noteq> hd bs" for x
    proof -
      have "firstp F \<noteq> Some x" using that(1) db(5) firstp_in[of F x] by auto
      moreover have "firstp bs \<noteq> Some x" using that by (auto simp: firstp_def)
      ultimately show ?thesis using that n by (auto simp: ex)
    qed
    show "fprev (flox st' (hd bs)) = lastp as" if "bs \<noteq> []"
    proof -
      have "firstp bs = Some (hd bs)" using that by (simp add: firstp_def)
      moreover have "hd bs \<noteq> f" using that n by auto
      moreover have "firstp F \<noteq> Some (hd bs)" using that db(5) firstp_in[of F "hd bs"] by auto
      ultimately show ?thesis by (simp add: ex)
    qed
  qed
  have "dseg (flox st') None (as @ bs) (head lh st') None"
  proof (cases "as = []")
    case True
    then show ?thesis using bseg hds by simp
  next
    case False
    have "dseg (flox st') None as (head lh st) (firstp bs)"
    proof (rule dseg_renext[OF seg(1) db(1) False])
      show "fprev (flox st' x) = fprev (flox st x)" if "x \<in> set as" for x
      proof -
        have "firstp F \<noteq> Some x" "firstp bs \<noteq> Some x" using that db firstp_in[of F x] firstp_in[of bs x] by auto
        then show ?thesis using that n by (auto simp: ex)
      qed
      show "fnext (flox st' x) = fnext (flox st x)" if "x \<in> set as" "x \<noteq> last as" for x
        using that n by (auto simp: ex lastp_def)
      show "fnext (flox st' (last as)) = firstp bs"
        using False ne by (auto simp: ex lastp_def)
    qed
    then show ?thesis using bseg hds False by (auto simp: dseg_append lastp_def)
  qed
  moreover have "chain (\<lambda>a. nxt st' a) (frlock st') (f # F)"
  proof -
    have "chain (\<lambda>a. nxt st' a) (firstp F) F = chain (\<lambda>a. nxt st a) (firstp F) F"
      using n db by (intro lseg_cong) (auto simp: ex lastp_def)
    then show ?thesis using D(5) fr frl(1) by (simp add: ex)
  qed
  moreover have "nxt st' a = nxt st a \<and> prv st' a = prv st a" if "a \<notin> set (L lh)" "a \<notin> set F" for a
  proof -
    have "firstp bs \<noteq> Some a" "firstp F \<noteq> Some a" "lastp as \<noteq> Some a"
      using that L by (auto simp: firstp_def lastp_def split: if_splits)
    then show ?thesis using that L by (auto simp: ex)
  qed
  ultimately have "fl_rep st' (L(lh := as @ bs)) (f # F)"
    using n db L hds by (intro fl_rep_change[OF r]) auto
  then show ?thesis using ex frl(2) unfolding st'_def[symmetric] by (auto simp: same_data_def Let_def)
qed

section \<open>Well-formed lock lists\<close>

text \<open>Ordered by start, and the locks of one process do not overlap.\<close>

definition lock_ok :: "flock \<Rightarrow> bool" where
  "lock_ok l \<longleftrightarrow> 0 \<le> l_start l \<and> l_start l \<le> l_end l \<and> l_end l \<le> MAXEND \<and> (l_type l = F_RDLCK \<or> l_type l = F_WRLCK)"

definition owner_of :: "flock \<Rightarrow> owner" where
  "owner_of l = (l_pid l, l_sysid l)"

lemma own_iff: "own me l \<longleftrightarrow> owner_of l = me"
  by (auto simp: own_def owner_of_def prod_eq_iff)

definition before :: "(nat \<Rightarrow> flock) \<Rightarrow> nat \<Rightarrow> nat \<Rightarrow> bool" where
  "before lk a b \<longleftrightarrow> l_start (lk a) \<le> l_start (lk b) \<and> (owner_of (lk a) = owner_of (lk b) \<longrightarrow> l_end (lk a) < l_start (lk b))"

definition wf_locks :: "(nat \<Rightarrow> flock) \<Rightarrow> nat list \<Rightarrow> bool" where
  "wf_locks lk xs \<longleftrightarrow> sorted_wrt (before lk) xs \<and> (\<forall>a \<in> set xs. lock_ok (lk a))"

text \<open>The lock of type \<open>t\<close> that process \<open>p\<close> has on byte \<open>b\<close>.\<close>

definition held :: "(nat \<Rightarrow> flock) \<Rightarrow> nat set \<Rightarrow> owner \<Rightarrow> int \<Rightarrow> int \<Rightarrow> bool" where
  "held lk X p b t \<longleftrightarrow> (\<exists>a \<in> X. owner_of (lk a) = p \<and> l_start (lk a) \<le> b \<and> b \<le> l_end (lk a) \<and> l_type (lk a) = t)"

lemma held_empty [simp]: "held lk {} p b t = False"
  by (simp add: held_def)

lemma held_insert: "held lk (insert a X) p b t \<longleftrightarrow>
    owner_of (lk a) = p \<and> l_start (lk a) \<le> b \<and> b \<le> l_end (lk a) \<and> l_type (lk a) = t \<or> held lk X p b t"
  by (auto simp: held_def)

lemma held_Un: "held lk (X \<union> Y) p b t \<longleftrightarrow> held lk X p b t \<or> held lk Y p b t"
  by (auto simp: held_def)

lemma held_by_cong: "(\<And>a. a \<in> X \<Longrightarrow> lk a = lk' a) \<Longrightarrow> held lk X p b t = held lk' X p b t"
  by (auto simp: held_def)

lemma wf_append: "wf_locks lk (xs @ ys) \<longleftrightarrow> wf_locks lk xs \<and> wf_locks lk ys \<and> (\<forall>a \<in> set xs. \<forall>b \<in> set ys. before lk a b)"
  by (auto simp: wf_locks_def sorted_wrt_append)

lemma wf_Cons: "wf_locks lk (x # ys) \<longleftrightarrow> lock_ok (lk x) \<and> wf_locks lk ys \<and> (\<forall>b \<in> set ys. before lk x b)"
  by (auto simp: wf_locks_def)

lemma wf_Nil [simp]: "wf_locks lk []"
  by (simp add: wf_locks_def)

lemma wf_cong: "(\<And>a. a \<in> set xs \<Longrightarrow> lk a = lk' a) \<Longrightarrow> wf_locks lk xs = wf_locks lk' xs"
  by (induction xs) (auto simp: wf_Cons before_def)

text \<open>The locks of one process on a byte agree.\<close>

lemma held_unique:
  assumes "wf_locks lk xs" "held lk (set xs) p b t" "held lk (set xs) p b t'"
  shows "t = t'"
proof -
  obtain a c where a: "a \<in> set xs" "owner_of (lk a) = p" "l_start (lk a) \<le> b" "b \<le> l_end (lk a)" "l_type (lk a) = t"
    and c: "c \<in> set xs" "owner_of (lk c) = p" "l_start (lk c) \<le> b" "b \<le> l_end (lk c)" "l_type (lk c) = t'"
    using assms by (auto simp: held_def)
  have "a = c"
  proof (rule ccontr)
    assume "a \<noteq> c"
    then have "before lk a c \<or> before lk c a"
      using assms(1) a(1) c(1) unfolding wf_locks_def
      by (induction xs) auto
    then show False using a c by (auto simp: before_def)
  qed
  then show ?thesis using a c by simp
qed

subsection \<open>Places in the list\<close>

lemma ins_scan_at:
  "dseg (flox st) pr (p # bs) (Some p) None \<Longrightarrow>
     ins_scan st start p at = Some (let t = takeWhile (\<lambda>a. l_start (lck st a) < start) (p # bs) in if t = [] then at else last t)"
proof (induction bs arbitrary: pr p at)
  case Nil
  then show ?case by (subst ins_scan.simps) auto
next
  case (Cons b bs)
  have n: "nxt st p = Some b" "dseg (flox st) (Some p) (b # bs) (Some b) None" using Cons.prems by auto
  show ?case
  proof (cases "l_start (lck st p) < start")
    case True
    then have "ins_scan st start p at = ins_scan st start b p" using n(1) by (subst ins_scan.simps) simp
    then show ?thesis using Cons.IH[OF n(2), of p] True by (simp add: Let_def)
  next
    case False
    then show ?thesis by (subst ins_scan.simps) simp
  qed
qed

lemma sorted_takeWhile:
  assumes "wf_locks lk xs"
  shows "a \<in> set (takeWhile (\<lambda>a. l_start (lk a) < start) xs) \<Longrightarrow> l_start (lk a) < start"
    and "a \<in> set (dropWhile (\<lambda>a. l_start (lk a) < start) xs) \<Longrightarrow> start \<le> l_start (lk a)"
  using assms
proof (induction xs)
  case (Cons x xs)
  {
    case 1
    then show ?case using Cons.IH(1) by (auto simp: wf_Cons split: if_splits)
  next
    case 2
    then show ?case using Cons.IH(2) by (auto simp: wf_Cons before_def split: if_splits)
  }
qed auto

lemma fl_rep_from:
  assumes "fl_rep st L F" "L lh = as @ p # bs"
  shows "dseg (flox st) (lastp as) (p # bs) (Some p) None"
  using fl_repD(1)[OF assms(1), of lh] assms(2) by (auto simp: dseg_append lastp_def split: if_splits)

text \<open>The scan from a record of the list finds the last record that starts below \<open>start\<close>.\<close>

lemma ins_scan_split:
  assumes "fl_rep st L F" "L lh = as @ p # bs" "wf_locks (lck st) (as @ p # bs)" "l_start (lck st p) < start"
  shows "\<exists>us vs. bs = us @ vs \<and> ins_scan st start p at = Some (last (p # us)) \<and>
    (\<forall>a \<in> set us. l_start (lck st a) < start) \<and> (\<forall>a \<in> set vs. start \<le> l_start (lck st a))"
proof -
  have w: "wf_locks (lck st) bs" using assms(3) by (simp add: wf_append wf_Cons)
  let ?P = "\<lambda>a. l_start (lck st a) < start"
  show ?thesis
    using ins_scan_at[OF fl_rep_from[OF assms(1,2)], of start at] assms(4) sorted_takeWhile[OF w]
    by (intro exI[of _ "takeWhile ?P bs"] exI[of _ "dropWhile ?P bs"]) auto
qed

subsection \<open>Pieces\<close>

lemma cut_end_simps:
  "lck (cut_end f ld st) a = (if a = f then (lck st f)\<lparr>l_len := l_start ld - 1\<rparr> else lck st a)"
  "nxt (cut_end f ld st) a = nxt st a" "prv (cut_end f ld st) a = prv st a"
  "head lh (cut_end f ld st) = head lh st" "frlock (cut_end f ld st) = frlock st"
  "a \<noteq> f \<Longrightarrow> stat (flox (cut_end f ld st) a) = stat (flox st a)"
  by (simp_all add: cut_end_def)

lemma fl_rep_cong:
  assumes "fl_rep st L F" "\<And>a. nxt st' a = nxt st a \<and> prv st' a = prv st a" "\<And>lh. head lh st' = head lh st" "frlock st' = frlock st"
  shows "fl_rep st' L F"
proof -
  have "dseg (flox st') pr xs p q = dseg (flox st) pr xs p q" for pr xs p q
    using assms(2) by (intro dseg_cong) simp
  moreover have "chain (\<lambda>a. nxt st' a) p F = chain (\<lambda>a. nxt st a) p F" for p
    using assms(2) by (intro lseg_cong) simp
  ultimately show ?thesis using assms(1,3,4) by (simp add: fl_rep_def)
qed

lemma cut_end_rep: "fl_rep st L F \<Longrightarrow> fl_rep (cut_end f ld st) L F"
  by (erule fl_rep_cong) (simp_all add: cut_end_simps)

lemma piece_after_rep:
  assumes r: "fl_rep st L F" and L: "L lh = as @ f # bs" and w: "wf_locks (lck st) (as @ f # bs)"
    and own: "owner_of (lck st f) = me" and e: "l_start (lck st f) < l_end ld + 1"
  shows "case F of
      [] \<Rightarrow> \<exists>st'. piece_after me lh f ld st = Some (True, st') \<and> fl_rep st' L [] \<and> (\<forall>a. same_data st st' a)
    | n # F' \<Rightarrow> \<exists>st' us vs. piece_after me lh f ld st = Some (False, st') \<and> bs = us @ vs \<and>
        fl_rep st' (L(lh := as @ f # us @ n # vs)) F' \<and>
        lck st' n = (lck st f)\<lparr>l_start := l_end ld + 1\<rparr> \<and> (\<forall>a. a \<noteq> n \<longrightarrow> same_data st st' a) \<and>
        (\<forall>a \<in> set us. l_start (lck st a) < l_end ld + 1) \<and> (\<forall>a \<in> set vs. l_end ld + 1 \<le> l_start (lck st a))"
proof -
  from ins_scan_split[OF r L w e, of f] obtain us vs where u: "bs = us @ vs"
    "ins_scan st (l_end ld + 1) f f = Some (last (f # us))"
    "\<forall>a \<in> set us. l_start (lck st a) < l_end ld + 1" "\<forall>a \<in> set vs. l_end ld + 1 \<le> l_start (lck st a)" by blast
  have l: "Some (last (f # us)) = lastp (as @ f # us)" by (simp add: lastp_def)
  have L': "L lh = (as @ f # us) @ vs" using L u(1) by simp
  show ?thesis
  proof (cases F)
    case Nil
    note I = insflck_full[OF r[unfolded Nil]]
    let ?s = "st\<lparr>flinfo := (flinfo st)\<lparr>recovf := s32 (recovf (flinfo st) + 1)\<rparr>\<rparr>"
    have "fl_rep ?s L []" by (rule fl_rep_cong[OF r[unfolded Nil]]) simp_all
    moreover have "\<forall>a. same_data st ?s a" by (simp add: same_data_def)
    ultimately show ?thesis using Nil u(2) I by (simp add: piece_after_def Let_def)
  next
    case (Cons n F')
    let ?td = "(lck st f)\<lparr>l_start := l_end ld + 1\<rparr>"
    from insflck_rep[OF r[unfolded Cons] L', of me ?td] obtain st' where I:
      "insflck me lh ?td (lastp (as @ f # us)) st = (Some n, st')" "fl_rep st' (L(lh := (as @ f # us) @ n # vs)) F'"
      "lck st' n = ?td\<lparr>l_pid := fst me, l_sysid := snd me\<rparr>" "\<forall>a. a \<noteq> n \<longrightarrow> same_data st st' a" by blast
    have "?td\<lparr>l_pid := fst me, l_sysid := snd me\<rparr> = ?td" using own by (auto simp: owner_of_def)
    moreover have "piece_after me lh f ld st = Some (False, st')"
      using I(1) u(2) unfolding l[symmetric] piece_after_def Let_def by simp
    ultimately show ?thesis unfolding Cons list.case
      using I(2-4) u by (intro exI[of _ st'] exI[of _ us] exI[of _ vs]) simp
  qed
qed

end
