(* ===== verification/Flock_Adj.thy ===== *)
theory Flock_Adj
  imports Flock
begin

text \<open>
  \<^verbatim>\<open>flckadj\<close> gives the bytes of a request the type asked for and leaves every other byte, of the caller
  and of other processes, as it was; the proof follows the scan of the list through its thirteen cases.
\<close>

section \<open>The adjustment keeps the bytes of everybody else\<close>

definition framed :: "flstate \<Rightarrow> (lockhead \<Rightarrow> nat list) \<Rightarrow> lockhead \<Rightarrow> flstate \<Rightarrow> bool" where
  "framed st0 L0 lh st \<longleftrightarrow> (\<forall>k a. k \<noteq> lh \<longrightarrow> a \<in> set (L0 k) \<longrightarrow> same_data st0 st a)"

text \<open>\<open>i\<close> is a good place to look from for the place of a lock that starts at \<open>s\<close>.\<close>

definition place :: "(nat \<Rightarrow> flock) \<Rightarrow> nat list \<Rightarrow> ptr \<Rightarrow> int \<Rightarrow> bool" where
  "place lk xs i s \<longleftrightarrow> (\<exists>as bs. xs = as @ bs \<and> i = lastp as \<and> (\<forall>a \<in> set as. l_start (lk a) \<le> s) \<and>
     (as = [] \<longrightarrow> (\<forall>a \<in> set bs. s \<le> l_start (lk a))))"

text \<open>Facts of every state of the adjustment: \<open>xs\<close> is the list, \<open>s\<close> to \<open>e\<close> the region of \<^verbatim>\<open>*ld\<close>,
  \<open>s0\<close> to \<open>e0\<close> the one asked for, \<open>T\<close> its type.\<close>

definition adj_common ::
    "owner \<Rightarrow> lockhead \<Rightarrow> flstate \<Rightarrow> (lockhead \<Rightarrow> nat list) \<Rightarrow> nat list \<Rightarrow> int \<Rightarrow> int \<Rightarrow> flstate \<Rightarrow> bool" where
  "adj_common me lh st0 L0 xs s e st \<longleftrightarrow>
     (\<exists>F. fl_rep st (L0(lh := xs)) F) \<and> framed st0 L0 lh st \<and> wf_locks (lck st) xs \<and>
     (\<forall>p b t. p \<noteq> me \<longrightarrow> held (lck st) (set xs) p b t = held (lck st0) (set (L0 lh)) p b t) \<and>
     (\<forall>b t. b < s \<or> e < b \<longrightarrow> held (lck st) (set xs) me b t = held (lck st0) (set (L0 lh)) me b t) \<and>
     (\<forall>b t. held (lck st) (set xs) me b t \<longrightarrow> held (lck st0) (set (L0 lh)) me b t)"

definition adj_inv ::
    "owner \<Rightarrow> lockhead \<Rightarrow> flstate \<Rightarrow> (lockhead \<Rightarrow> nat list) \<Rightarrow> int \<Rightarrow> int \<Rightarrow> int \<Rightarrow> nat list \<Rightarrow> nat list \<Rightarrow> ptr \<Rightarrow> flock \<Rightarrow> flstate \<Rightarrow> bool"
where
  "adj_inv me lh st0 L0 s0 e0 T pre post i ld st \<longleftrightarrow>
     adj_common me lh st0 L0 (pre @ post) (l_start ld) e0 st \<and>
     0 \<le> l_start ld \<and> l_start ld \<le> s0 \<and> l_end ld = e0 \<and> l_type ld = T \<and>
     (T \<noteq> F_UNLCK \<longrightarrow> place (lck st) (pre @ post) i (l_start ld)) \<and>
     (\<forall>a \<in> set pre. owner_of (lck st a) = me \<longrightarrow> l_end (lck st a) < l_start ld) \<and>
     (\<forall>b. l_start ld \<le> b \<and> b < s0 \<longrightarrow> held (lck st0) (set (L0 lh)) me b T)"

definition adj_fin ::
    "owner \<Rightarrow> lockhead \<Rightarrow> flstate \<Rightarrow> (lockhead \<Rightarrow> nat list) \<Rightarrow> int \<Rightarrow> int \<Rightarrow> int \<Rightarrow> nat list \<Rightarrow> ptr \<Rightarrow> flock \<Rightarrow> flstate \<Rightarrow> bool"
where
  "adj_fin me lh st0 L0 s0 e0 T xs i ld st \<longleftrightarrow>
     adj_common me lh st0 L0 xs (l_start ld) (l_end ld) st \<and>
     0 \<le> l_start ld \<and> l_start ld \<le> s0 \<and> e0 \<le> l_end ld \<and> l_end ld \<le> MAXEND \<and> l_type ld = T \<and>
     (T \<noteq> F_UNLCK \<longrightarrow> place (lck st) xs i (l_start ld)) \<and>
     (\<forall>a \<in> set xs. owner_of (lck st a) = me \<longrightarrow> l_end (lck st a) < l_start ld \<or> l_end ld < l_start (lck st a)) \<and>
     (\<forall>b. l_start ld \<le> b \<and> b \<le> l_end ld \<and> (b < s0 \<or> e0 < b) \<longrightarrow> held (lck st0) (set (L0 lh)) me b T)"

lemma adj_commonD:
  assumes "adj_common me lh st0 L0 xs s e st"
  shows "\<exists>F. fl_rep st (L0(lh := xs)) F" "framed st0 L0 lh st" "wf_locks (lck st) xs"
    "p \<noteq> me \<Longrightarrow> held (lck st) (set xs) p b t = held (lck st0) (set (L0 lh)) p b t"
    "b < s \<or> e < b \<Longrightarrow> held (lck st) (set xs) me b t = held (lck st0) (set (L0 lh)) me b t"
    "held (lck st) (set xs) me b t \<Longrightarrow> held (lck st0) (set (L0 lh)) me b t"
  using assms unfolding adj_common_def by blast+

lemma framed_step:
  assumes "framed st0 L0 lh st" "fl_rep st (L0(lh := xs)) F" "\<And>a. a \<notin> set xs \<Longrightarrow> a \<notin> set F \<Longrightarrow> same_data st st' a"
  shows "framed st0 L0 lh st'"
  unfolding framed_def
proof (intro allI impI)
  fix k a assume k: "k \<noteq> lh" "a \<in> set (L0 k)"
  then have "a \<in> set ((L0(lh := xs)) k)" by simp
  then have "a \<notin> set xs" "a \<notin> set F" using fl_repD(3)[OF assms(2)] fl_repD(4)[OF assms(2) k(1), of a] by auto
  then show "same_data st0 st' a" using assms(1,3) k by (auto simp: framed_def same_data_def)
qed

lemma place_remove:
  assumes "place lk (pre @ f # post) i s" "s < l_start (lk f)"
  shows "place lk (pre @ post) i s"
proof -
  obtain as bs where p: "pre @ f # post = as @ bs" "i = lastp as" "\<forall>a \<in> set as. l_start (lk a) \<le> s"
    "as = [] \<longrightarrow> (\<forall>a \<in> set bs. s \<le> l_start (lk a))" using assms(1) by (auto simp: place_def)
  have "f \<notin> set as" using p(3) assms(2) by auto
  with p(1) obtain us where "pre = as @ us \<and> us @ f # post = bs"
    by (auto simp: append_eq_append_conv2 append_eq_Cons_conv Cons_eq_append_conv)
  then show ?thesis using p unfolding place_def by (intro exI[of _ as] exI[of _ "us @ post"]) auto
qed

lemma place_here:
  assumes "wf_locks lk (pre @ f # post)"
  shows "place lk (pre @ post) (lastp pre) (l_start (lk f))" "place lk (pre @ f # post) (lastp pre) (l_start (lk f))"
proof -
  have a: "\<forall>a \<in> set pre. l_start (lk a) \<le> l_start (lk f)" "\<forall>a \<in> set post. l_start (lk f) \<le> l_start (lk a)"
    using assms by (auto simp: wf_append wf_Cons before_def)
  show "place lk (pre @ post) (lastp pre) (l_start (lk f))"
    unfolding place_def using a by (intro exI[of _ pre] exI[of _ post]) auto
  show "place lk (pre @ f # post) (lastp pre) (l_start (lk f))"
    unfolding place_def using a by (intro exI[of _ pre] exI[of _ "f # post"]) auto
qed

lemma place_after:
  assumes "wf_locks lk (pre @ f # post)" "l_start (lk f) \<le> s"
  shows "place lk (pre @ f # post) (Some f) s"
proof -
  have "\<forall>a \<in> set (pre @ [f]). l_start (lk a) \<le> s"
    using assms by (auto simp: wf_append wf_Cons before_def)
  then show ?thesis unfolding place_def by (intro exI[of _ "pre @ [f]"] exI[of _ post]) simp
qed

lemma place_mono: "place lk xs i s \<Longrightarrow> (\<And>a. a \<in> set xs \<Longrightarrow> l_start (lk' a) = l_start (lk a)) \<Longrightarrow> place lk' xs i s"
  unfolding place_def by (elim exE conjE, rule exI, rule exI) (intro conjI, assumption, assumption, auto)

lemma place_insert:
  assumes "place lk (xs @ ys) i s" "\<And>a. a \<in> set (xs @ ys) \<Longrightarrow> l_start (lk' a) = l_start (lk a)"
    and "s < l_start (lk' n)" "\<forall>a \<in> set ys. s < l_start (lk a)"
  shows "place lk' (xs @ n # ys) i s"
proof -
  obtain as bs where ab: "xs @ ys = as @ bs" "i = lastp as" "\<forall>a \<in> set as. l_start (lk a) \<le> s"
    "as = [] \<longrightarrow> (\<forall>a \<in> set bs. s \<le> l_start (lk a))" using assms(1) by (auto simp: place_def)
  have "\<exists>us. xs = as @ us"
  proof (rule ccontr)
    assume "\<not> ?thesis"
    then obtain u us where "as = xs @ u # us" "ys = u # us @ bs"
      using ab(1) by (auto simp: append_eq_append_conv2 append_eq_Cons_conv) (metis append.right_neutral neq_Nil_conv append_Cons)
    then show False using ab(3) assms(4) by force
  qed
  then obtain us where us: "xs = as @ us" ..
  then have "bs = us @ ys" using ab(1) by simp
  then show ?thesis unfolding place_def
    using us ab assms(2,3) by (intro exI[of _ as] exI[of _ "us @ n # ys"]) auto
qed

text \<open>Deleting a lock of the process.\<close>

lemma common_del:
  assumes c: "adj_common me lh st0 L0 (pre @ f # post) s e st" and f: "owner_of (lck st f) = me"
    and b: "s' \<le> s" "e \<le> e'" "s' \<le> l_start (lck st f)" "l_end (lck st f) \<le> e'"
  shows "adj_common me lh st0 L0 (pre @ post) s' e' (delflck lh f st)"
    and "\<And>a. a \<in> set (pre @ post) \<Longrightarrow> lck (delflck lh f st) a = lck st a"
proof -
  obtain F where r: "fl_rep st (L0(lh := pre @ f # post)) F" using c by (auto simp: adj_common_def)
  have "(L0(lh := pre @ f # post)) lh = pre @ f # post" by simp
  note D = delflck_rep[OF r this, unfolded fun_upd_upd]
  have fl: "fl_rep (delflck lh f st) (L0(lh := pre @ post)) (f # F)" by (rule conjunct1[OF D])
  have sd: "same_data st (delflck lh f st) a" if "a \<noteq> f" for a using D that by blast
  have lk: "lck (delflck lh f st) a = lck st a" for a
    using sd[of a] D by (cases "a = f") (simp_all add: same_data_def)
  then show "\<And>a. a \<in> set (pre @ post) \<Longrightarrow> lck (delflck lh f st) a = lck st a" by simp
  have w: "wf_locks (lck st) (pre @ post)" using c by (auto simp: adj_common_def wf_append wf_Cons)
  have h: "held (lck st) (set (pre @ f # post)) p b t \<longleftrightarrow>
      owner_of (lck st f) = p \<and> l_start (lck st f) \<le> b \<and> b \<le> l_end (lck st f) \<and> l_type (lck st f) = t \<or>
      held (lck st) (set (pre @ post)) p b t" for p b t
    by (auto simp: held_def)
  show "adj_common me lh st0 L0 (pre @ post) s' e' (delflck lh f st)"
    unfolding adj_common_def lk
  proof (intro conjI allI impI)
    show "\<exists>F. fl_rep (delflck lh f st) (L0(lh := pre @ post)) F" using fl by blast
    show "framed st0 L0 lh (delflck lh f st)"
    proof (rule framed_step[OF _ r])
      show "framed st0 L0 lh st" using c unfolding adj_common_def by blast
      show "same_data st (delflck lh f st) a" if "a \<notin> set (pre @ f # post)" for a
        using that by (intro sd) auto
    qed
    show "wf_locks (\<lambda>a. lck st a) (pre @ post)" by (rule w)
    show "held (\<lambda>a. lck st a) (set (pre @ post)) p x t = held (lck st0) (set (L0 lh)) p x t" if "p \<noteq> me" for p x t
      using adj_commonD(4)[OF c that, of x t] f h[of p x t] that by simp
    show "held (\<lambda>a. lck st a) (set (pre @ post)) me x t = held (lck st0) (set (L0 lh)) me x t" if "x < s' \<or> e' < x" for x t
    proof -
      have "held (lck st) (set (pre @ f # post)) me x t = held (lck st0) (set (L0 lh)) me x t"
        using that b by (intro adj_commonD(5)[OF c]) linarith
      then show ?thesis using h[of me x t] that b by auto
    qed
    show "held (lck st0) (set (L0 lh)) me x t" if "held (\<lambda>a. lck st a) (set (pre @ post)) me x t" for x t
      using adj_commonD(6)[OF c, of x t] h[of me x t] that by simp
  qed
qed

lemma inv_del:
  assumes v: "adj_inv me lh st0 L0 s0 e0 T pre (f # post) i ld st" and f: "owner_of (lck st f) = me" "l_end (lck st f) \<le> e0"
    and alt: "l_start ld < l_start (lck st f) \<and> i' = i \<and> ld' = ld \<or>
      i' = lastp pre \<and> ld' = ld\<lparr>l_start := l_start (lck st f)\<rparr> \<and> l_start (lck st f) \<le> l_start ld \<and>
      (l_start ld = l_start (lck st f) \<or> l_type (lck st f) = T \<and> l_start ld \<le> l_end (lck st f) + 1)"
  shows "adj_inv me lh st0 L0 s0 e0 T pre post i' ld' (delflck lh f st)"
proof -
  have c: "adj_common me lh st0 L0 (pre @ f # post) (l_start ld) e0 st" using v by (simp add: adj_inv_def)
  have w: "wf_locks (lck st) (pre @ f # post)" using c by (simp add: adj_common_def)
  have b: "l_start ld' \<le> l_start ld" "l_start ld' \<le> l_start (lck st f)" "l_end ld' = l_end ld" "l_type ld' = l_type ld"
    using alt by auto
  note C = common_del[OF c f(1) b(1) order.refl b(2) f(2)]
  have fok: "lock_ok (lck st f)" using w by (simp add: wf_append wf_Cons)
  have pl: "place (lck st) (pre @ post) i' (l_start ld')" if "T \<noteq> F_UNLCK"
    using v that alt place_remove[of "lck st" pre f post i "l_start ld"] place_here(1)[OF w]
    by (auto simp: adj_inv_def)
  have ext: "held (lck st0) (set (L0 lh)) me x T" if x: "l_start ld' \<le> x" "x < s0" for x
  proof (cases "l_start ld \<le> x")
    case True
    then show ?thesis using v x(2) by (simp add: adj_inv_def)
  next
    case False
    then have "l_type (lck st f) = T" "l_start (lck st f) \<le> x" "x \<le> l_end (lck st f)" using alt x by auto
    then have "held (lck st) (set (pre @ f # post)) me x T" using f(1) by (auto simp: held_def)
    then show ?thesis using c by (auto simp: adj_common_def)
  qed
  have pre_end: "l_end (lck st a) < l_start ld'" if "a \<in> set pre" "owner_of (lck st a) = me" for a
    using v w f(1) that alt by (auto simp: adj_inv_def wf_append wf_Cons before_def)
  have pl': "place (lck (delflck lh f st)) (pre @ post) i' (l_start ld')" if "T \<noteq> F_UNLCK"
    by (rule place_mono[OF pl[OF that]]) (simp add: C(2))
  have "0 \<le> l_start ld'" using v alt fok by (auto simp: adj_inv_def lock_ok_def)
  moreover have "l_start ld' \<le> s0" "l_end ld' = e0" "l_type ld' = T" using v b by (auto simp: adj_inv_def)
  moreover have "l_end (lck (delflck lh f st) a) < l_start ld'"
    if "a \<in> set pre" "owner_of (lck (delflck lh f st) a) = me" for a
    using that C(2)[of a] pre_end by simp
  ultimately show ?thesis unfolding adj_inv_def using C(1) pl' ext by blast
qed


text \<open>Going on past a lock that is left as it is.\<close>

lemma inv_skip:
  assumes v: "adj_inv me lh st0 L0 s0 e0 T pre (f # post) i ld st"
    and f: "owner_of (lck st f) = me \<Longrightarrow> l_end (lck st f) < l_start ld"
    and i: "i' = i \<or> i' = Some f \<and> l_start (lck st f) \<le> l_start ld"
  shows "adj_inv me lh st0 L0 s0 e0 T (pre @ [f]) post i' ld st"
proof -
  have w: "wf_locks (lck st) (pre @ f # post)" using v by (simp add: adj_inv_def adj_common_def)
  have "place (lck st) (pre @ f # post) i' (l_start ld)" if "T \<noteq> F_UNLCK"
    using v that i place_after[OF w] by (auto simp: adj_inv_def)
  then show ?thesis using v f by (auto simp: adj_inv_def)
qed

text \<open>Cutting a lock off before the region.\<close>

lemma common_cut:
  assumes c: "adj_common me lh st0 L0 (pre @ f # post) (l_start ld) e st" and f: "owner_of (lck st f) = me"
    and b: "l_start (lck st f) < l_start ld" "l_start ld \<le> l_end (lck st f)" "l_end (lck st f) \<le> e"
  shows "adj_common me lh st0 L0 (pre @ f # post) (l_start ld) e (cut_end f ld st)"
    and "wf_locks (lck (cut_end f ld st)) (pre @ f # post)"
proof -
  obtain F where r: "fl_rep st (L0(lh := pre @ f # post)) F" using c by (auto simp: adj_common_def)
  have w: "wf_locks (lck st) (pre @ f # post)" using c by (simp add: adj_common_def)
  let ?lk = "lck (cut_end f ld st)"
  have d: "f \<notin> set pre" "f \<notin> set post" using fl_repD(2)[OF r, of lh] by auto
  have lkf: "?lk f = (lck st f)\<lparr>l_len := l_start ld - 1\<rparr>" and lko: "a \<noteq> f \<Longrightarrow> ?lk a = lck st a" for a
    by (simp_all add: cut_end_simps)
  have keep: "wf_locks ?lk pre = wf_locks (lck st) pre" "wf_locks ?lk post = wf_locks (lck st) post"
    using d lko by (metis wf_cong)+
  have be: "before ?lk a f = before (lck st) a f" if "a \<in> set pre" for a
  proof -
    have "a \<noteq> f" using that d by auto
    then show ?thesis by (simp add: before_def owner_of_def lko lkf)
  qed
  have af: "before (lck st) f a \<Longrightarrow> before ?lk f a" if "a \<in> set post" for a
  proof -
    have "a \<noteq> f" using that d by auto
    then show "before (lck st) f a \<Longrightarrow> before ?lk f a" using b by (auto simp: before_def owner_of_def lko lkf)
  qed
  have ot: "before ?lk a c = before (lck st) a c" if "a \<in> set pre" "c \<in> set post" for a c
  proof -
    have "a \<noteq> f" "c \<noteq> f" using that d by auto
    then show ?thesis by (simp add: before_def lko)
  qed
  have fo: "lock_ok (?lk f)" using w b unfolding lkf by (auto simp: wf_append wf_Cons lock_ok_def)
  show w': "wf_locks ?lk (pre @ f # post)"
    using w keep be af ot fo by (simp add: wf_append wf_Cons)
  have oth: "held ?lk (set (pre @ post)) p x t = held (lck st) (set (pre @ post)) p x t" for p x t
  proof (rule held_by_cong)
    fix a assume "a \<in> set (pre @ post)"
    then have "a \<noteq> f" using d by auto
    then show "?lk a = lck st a" by (rule lko)
  qed
  have X: "set (pre @ f # post) = insert f (set (pre @ post))" by auto
  have h1: "held (lck st) (set (pre @ f # post)) p x t \<longleftrightarrow>
      me = p \<and> l_start (lck st f) \<le> x \<and> x \<le> l_end (lck st f) \<and> l_type (lck st f) = t \<or>
      held (lck st) (set (pre @ post)) p x t" for p x t
    unfolding X held_insert f ..
  have h2: "held ?lk (set (pre @ f # post)) p x t \<longleftrightarrow>
      me = p \<and> l_start (lck st f) \<le> x \<and> x \<le> l_start ld - 1 \<and> l_type (lck st f) = t \<or>
      held (lck st) (set (pre @ post)) p x t" for p x t
    unfolding X held_insert oth lkf using f by (simp add: owner_of_def)
  show "adj_common me lh st0 L0 (pre @ f # post) (l_start ld) e (cut_end f ld st)"
    unfolding adj_common_def
  proof (intro conjI allI impI)
    show "\<exists>F. fl_rep (cut_end f ld st) (L0(lh := pre @ f # post)) F" using cut_end_rep[OF r] by blast
    show "framed st0 L0 lh (cut_end f ld st)"
    proof (rule framed_step[OF _ r])
      show "framed st0 L0 lh st" using c unfolding adj_common_def by blast
      show "same_data st (cut_end f ld st) a" if "a \<notin> set (pre @ f # post)" for a
      proof -
        have "a \<noteq> f" using that by auto
        then show ?thesis by (simp add: same_data_def cut_end_simps)
      qed
    qed
    show "wf_locks ?lk (pre @ f # post)" by (rule w')
    show "held ?lk (set (pre @ f # post)) p x t = held (lck st0) (set (L0 lh)) p x t" if "p \<noteq> me" for p x t
    proof -
      have "held (lck st) (set (pre @ f # post)) p x t = held (lck st0) (set (L0 lh)) p x t"
        using c that unfolding adj_common_def by blast
      then show ?thesis using h1[of p x t] h2[of p x t] that by auto
    qed
    show "held ?lk (set (pre @ f # post)) me x t = held (lck st0) (set (L0 lh)) me x t" if "x < l_start ld \<or> e < x" for x t
    proof -
      have "held (lck st) (set (pre @ f # post)) me x t = held (lck st0) (set (L0 lh)) me x t"
        using c that unfolding adj_common_def by blast
      then show ?thesis using h1[of me x t] h2[of me x t] that b by auto
    qed
    show "held (lck st0) (set (L0 lh)) me x t" if "held ?lk (set (pre @ f # post)) me x t" for x t
    proof -
      have "held (lck st) (set (pre @ f # post)) me x t" using that h1[of me x t] h2[of me x t] b by auto
      then show ?thesis using c unfolding adj_common_def by blast
    qed
  qed
qed

lemma inv_cut:
  assumes v: "adj_inv me lh st0 L0 s0 e0 T pre (f # post) i ld st" and f: "owner_of (lck st f) = me"
    and b: "l_start (lck st f) < l_start ld" "l_start ld \<le> l_end (lck st f)" "l_end (lck st f) \<le> e0"
  shows "adj_inv me lh st0 L0 s0 e0 T (pre @ [f]) post (Some f) ld (cut_end f ld st)"
proof -
  have c: "adj_common me lh st0 L0 (pre @ f # post) (l_start ld) e0 st" using v by (simp add: adj_inv_def)
  note C = common_cut[OF c f b]
  have pl: "place (lck (cut_end f ld st)) (pre @ f # post) (Some f) (l_start ld)"
    using b by (intro place_after[OF C(2)]) (simp add: cut_end_simps)
  have "l_end (lck (cut_end f ld st) a) < l_start ld"
    if "a \<in> set (pre @ [f])" "owner_of (lck (cut_end f ld st) a) = me" for a
    using that v by (cases "a = f") (auto simp: cut_end_simps adj_inv_def)
  then show ?thesis using v C(1) pl unfolding adj_inv_def by simp
qed

subsection \<open>The end of the scan\<close>

lemma fin_stop:
  assumes v: "adj_inv me lh st0 L0 s0 e0 T pre post i ld st" and e: "s0 \<le> e0" "e0 \<le> MAXEND"
    and stop: "\<And>a. a \<in> set post \<Longrightarrow> owner_of (lck st a) = me \<Longrightarrow> e0 < l_start (lck st a)"
  shows "adj_fin me lh st0 L0 s0 e0 T (pre @ post) i ld st"
  using v e stop unfolding adj_inv_def adj_fin_def by auto

text \<open>The region grows over the end of a lock of the same type.\<close>

lemma fin_del_ext:
  assumes v: "adj_inv me lh st0 L0 s0 e0 T pre (f # post) i ld st" and e: "s0 \<le> e0"
    and f: "owner_of (lck st f) = me" "l_type (lck st f) = T" "l_start ld < l_start (lck st f)"
      "l_start (lck st f) \<le> e0 + 1" "e0 \<le> l_end (lck st f)"
  shows "adj_fin me lh st0 L0 s0 e0 T (pre @ post) i (ld\<lparr>l_len := l_end (lck st f)\<rparr>) (delflck lh f st)"
proof -
  have c: "adj_common me lh st0 L0 (pre @ f # post) (l_start ld) e0 st" using v by (simp add: adj_inv_def)
  have w: "wf_locks (lck st) (pre @ f # post)" using c by (simp add: adj_common_def)
  have fok: "lock_ok (lck st f)" using w by (simp add: wf_append wf_Cons)
  note C = common_del[OF c f(1) order.refl f(5) less_imp_le[OF f(3)] order.refl]
  have pl0: "place (lck st) (pre @ post) i (l_start ld)" if "T \<noteq> F_UNLCK"
    using v that f(3) place_remove by (auto simp: adj_inv_def)
  have pl: "place (lck (delflck lh f st)) (pre @ post) i (l_start ld)" if "T \<noteq> F_UNLCK"
    by (rule place_mono[OF pl0[OF that]]) (simp add: C(2))
  have own: "l_end (lck st a) < l_start ld \<or> l_end (lck st f) < l_start (lck st a)"
    if "a \<in> set (pre @ post)" "owner_of (lck st a) = me" for a
    using that v w f(1) by (auto simp: adj_inv_def wf_append wf_Cons before_def)
  have ext: "held (lck st0) (set (L0 lh)) me x T" if x: "l_start ld \<le> x" "x \<le> l_end (lck st f)" "x < s0 \<or> e0 < x" for x
  proof (cases "x < s0")
    case True
    then show ?thesis using v x(1) by (simp add: adj_inv_def)
  next
    case False
    then have "held (lck st) (set (pre @ f # post)) me x T" using f x by (auto simp: held_def)
    then show ?thesis using c False x(3) by (auto simp: adj_common_def)
  qed
  have l: "l_start (ld\<lparr>l_len := l_end (lck st f)\<rparr>) = l_start ld" "l_end (ld\<lparr>l_len := l_end (lck st f)\<rparr>) = l_end (lck st f)"
    "l_type (ld\<lparr>l_len := l_end (lck st f)\<rparr>) = l_type ld" by simp_all
  have own': "l_end (lck (delflck lh f st) a) < l_start ld \<or> l_end (lck st f) < l_start (lck (delflck lh f st) a)"
    if "a \<in> set (pre @ post)" "owner_of (lck (delflck lh f st) a) = me" for a
    using own[OF that(1)] that C(2)[OF that(1)] by simp
  have "0 \<le> l_start ld" "l_start ld \<le> s0" "l_type ld = T" using v by (simp_all add: adj_inv_def)
  moreover have "l_end (lck st f) \<le> MAXEND" using fok by (simp add: lock_ok_def)
  ultimately show ?thesis unfolding adj_fin_def l using C(1) pl own' ext f(5) by blast
qed

text \<open>The region splits a lock in two; \<open>keep\<close>: a part before it remains.\<close>

lemma piece_held:
  assumes c: "adj_common me lh st0 L0 (pre @ f # us @ vs) s e st" and f: "owner_of (lck st f) = me"
    and zs: "set zs = set (pre @ us @ vs) \<union> {n} \<union> (if keep then {f} else {})"
    and lo': "\<forall>a \<in> set (pre @ us @ vs). lk a = lck st a"
    and ln: "lk n = (lck st f)\<lparr>l_start := e + 1\<rparr>" and lf: "keep \<longrightarrow> lk f = (lck st f)\<lparr>l_len := s - 1\<rparr>"
    and b: "keep \<longleftrightarrow> l_start (lck st f) < s" "l_start (lck st f) \<le> e" "s \<le> e" "e < l_end (lck st f)"
  shows "p \<noteq> me \<Longrightarrow> held lk (set zs) p x t = held (lck st0) (set (L0 lh)) p x t"
    and "x < s \<or> e < x \<Longrightarrow> held lk (set zs) me x t = held (lck st0) (set (L0 lh)) me x t"
    and "held lk (set zs) me x t \<Longrightarrow> held (lck st0) (set (L0 lh)) me x t"
proof -
  have ot: "held lk (set (pre @ us @ vs)) p x t = held (lck st) (set (pre @ us @ vs)) p x t" for p x t
    using lo' by (intro held_by_cong) auto
  have X: "set (pre @ f # us @ vs) = insert f (set (pre @ us @ vs))" by auto
  have h1: "held (lck st) (set (pre @ f # us @ vs)) p x t \<longleftrightarrow>
      me = p \<and> l_start (lck st f) \<le> x \<and> x \<le> l_end (lck st f) \<and> l_type (lck st f) = t \<or>
      held (lck st) (set (pre @ us @ vs)) p x t" for p x t
    unfolding X held_insert f ..
  have h2: "held lk (set zs) p x t \<longleftrightarrow>
      me = p \<and> e + 1 \<le> x \<and> x \<le> l_end (lck st f) \<and> l_type (lck st f) = t \<or>
      keep \<and> me = p \<and> l_start (lck st f) \<le> x \<and> x \<le> s - 1 \<and> l_type (lck st f) = t \<or>
      held (lck st) (set (pre @ us @ vs)) p x t" for p x t
    using lf f unfolding zs held_Un ot by (auto simp: held_insert ln owner_of_def)
  show "p \<noteq> me \<Longrightarrow> held lk (set zs) p x t = held (lck st0) (set (L0 lh)) p x t"
    using adj_commonD(4)[OF c, of p x t] h1[of p x t] h2[of p x t] by blast
  show "x < s \<or> e < x \<Longrightarrow> held lk (set zs) me x t = held (lck st0) (set (L0 lh)) me x t"
    using adj_commonD(5)[OF c, of x t] h1[of me x t] h2[of me x t] b by auto
  show "held lk (set zs) me x t \<Longrightarrow> held (lck st0) (set (L0 lh)) me x t"
    using adj_commonD(6)[OF c, of x t] h1[of me x t] h2[of me x t] b by auto
qed

lemma piece_wf:
  assumes w: "wf_locks (lck st) (pre @ f # us @ vs)" and f: "owner_of (lck st f) = me"
    and lo': "\<forall>a \<in> set (pre @ us @ vs). lk a = lck st a"
    and ln: "lk n = (lck st f)\<lparr>l_start := e + 1\<rparr>"
    and us: "\<forall>a \<in> set us. l_start (lck st a) < e + 1" and vs: "\<forall>a \<in> set vs. e + 1 \<le> l_start (lck st a)"
    and b: "l_start (lck st f) \<le> e" "e < l_end (lck st f)"
  shows "wf_locks lk (pre @ us @ n # vs)"
    and "a \<in> set (us @ n # vs) \<Longrightarrow> owner_of (lk a) = me \<Longrightarrow> e < l_start (lk a)"
proof -
  note lo = lo'[rule_format]
  have later: "l_end (lck st f) < l_start (lck st a)" if "a \<in> set (us @ vs)" "owner_of (lck st a) = me" for a
    using w f that by (auto simp: wf_append wf_Cons before_def)
  have nown: "owner_of (lck st a) \<noteq> me" if "a \<in> set us" for a
    using later[of a] us b that by fastforce
  have on: "owner_of (lk n) = me" "l_start (lk n) = e + 1" "l_end (lk n) = l_end (lck st f)"
    using f by (simp_all add: ln owner_of_def)
  have w0: "wf_locks (lck st) (pre @ us @ vs)" using w by (auto simp: wf_append wf_Cons)
  then have w1: "wf_locks lk (pre @ us @ vs)" using wf_cong[of "pre @ us @ vs" lk "lck st"] lo by blast
  have fok: "lock_ok (lck st f)" using w by (simp add: wf_append wf_Cons)
  then have nok: "lock_ok (lk n)" using b unfolding ln by (simp add: lock_ok_def)
  have pn: "before lk a n" if "a \<in> set pre" for a
  proof -
    have "before (lck st) a f" using w that by (simp add: wf_append)
    then show ?thesis using b f that lo[of a] on by (auto simp: before_def)
  qed
  have un: "before lk a n" if "a \<in> set us" for a
    using that us nown lo[of a] on by (auto simp: before_def)
  have nv: "before lk n a" if "a \<in> set vs" for a
    using that vs later lo[of a] on by (auto simp: before_def)
  show "wf_locks lk (pre @ us @ n # vs)" using w1 nok pn un nv by (auto simp: wf_append wf_Cons)
  show "a \<in> set (us @ n # vs) \<Longrightarrow> owner_of (lk a) = me \<Longrightarrow> e < l_start (lk a)"
  proof -
    assume a: "a \<in> set (us @ n # vs)" "owner_of (lk a) = me"
    then consider "a = n" | "a \<in> set vs" | "a \<in> set us" by auto
    then show "e < l_start (lk a)"
    proof cases
      case 3
      then show ?thesis using nown[of a] lo[of a] a(2) by simp
    qed (use vs lo on in auto)
  qed
qed

lemma piece_after_some:
  assumes r: "fl_rep st (L0(lh := pre @ f # post)) F" and w: "wf_locks (lck st) (pre @ f # post)"
    and own: "owner_of (lck st f) = me" and e: "l_start (lck st f) \<le> l_end ld"
    and p: "piece_after me lh f ld st = Some (False, st1)"
  shows "\<exists>n F' us vs. F = n # F' \<and> post = us @ vs \<and> fl_rep st1 (L0(lh := pre @ f # us @ n # vs)) F' \<and>
    lck st1 n = (lck st f)\<lparr>l_start := l_end ld + 1\<rparr> \<and> (\<forall>a. a \<noteq> n \<longrightarrow> same_data st st1 a) \<and>
    (\<forall>a \<in> set us. l_start (lck st a) < l_end ld + 1) \<and> (\<forall>a \<in> set vs. l_end ld + 1 \<le> l_start (lck st a))"
proof -
  have L: "(L0(lh := pre @ f # post)) lh = pre @ f # post" by simp
  have "l_start (lck st f) < l_end ld + 1" using e by simp
  note P = piece_after_rep[OF r L w own this, unfolded fun_upd_upd]
  show ?thesis
  proof (cases F)
    case Nil
    then show ?thesis using P p by auto
  next
    case (Cons n F')
    from P[unfolded Cons list.case] obtain st' us vs where "piece_after me lh f ld st = Some (False, st')" "post = us @ vs"
      "fl_rep st' (L0(lh := pre @ f # us @ n # vs)) F'" "lck st' n = (lck st f)\<lparr>l_start := l_end ld + 1\<rparr>"
      "\<forall>a. a \<noteq> n \<longrightarrow> same_data st st' a" "\<forall>a \<in> set us. l_start (lck st a) < l_end ld + 1"
      "\<forall>a \<in> set vs. l_end ld + 1 \<le> l_start (lck st a)" by blast
    moreover from this(1) p have "st' = st1" by simp
    ultimately show ?thesis using Cons by blast
  qed
qed

lemma fin_piece:
  assumes v: "adj_inv me lh st0 L0 s0 e0 T pre (f # post) i ld st" and e: "s0 \<le> e0" and post: "post = us @ vs"
    and f: "owner_of (lck st f) = me" "l_start (lck st f) \<le> e0" "e0 < l_end (lck st f)"
    and zs: "zs = pre @ (if keep then [f] else []) @ us @ n # vs" and keep: "keep \<longleftrightarrow> l_start (lck st f) < l_start ld"
    and rep: "fl_rep st2 (L0(lh := zs)) F2"
    and data: "\<forall>a. a \<notin> set (pre @ f # post) \<longrightarrow> a \<noteq> n \<longrightarrow> same_data st st2 a"
    and n: "\<forall>k \<noteq> lh. n \<notin> set (L0 k)"
    and lo: "\<forall>a \<in> set (pre @ us @ vs). lck st2 a = lck st a"
    and ln: "lck st2 n = (lck st f)\<lparr>l_start := e0 + 1\<rparr>" and lf: "keep \<longrightarrow> lck st2 f = (lck st f)\<lparr>l_len := l_start ld - 1\<rparr>"
    and us: "\<forall>a \<in> set us. l_start (lck st a) < e0 + 1" "\<forall>a \<in> set vs. e0 + 1 \<le> l_start (lck st a)"
    and i': "keep \<and> i' = Some f \<or> \<not> keep \<and> (i' = i \<and> l_start ld < l_start (lck st f) \<or> i' = lastp pre \<and> l_start ld = l_start (lck st f))"
  shows "adj_fin me lh st0 L0 s0 e0 T zs i' ld st2"
proof -
  have c: "adj_common me lh st0 L0 (pre @ f # us @ vs) (l_start ld) e0 st" and le: "l_end ld = e0"
    using v post by (simp_all add: adj_inv_def)
  note w = adj_commonD(3)[OF c]
  obtain F where r: "fl_rep st (L0(lh := pre @ f # us @ vs)) F" using adj_commonD(1)[OF c] by blast
  have se: "l_start ld \<le> e0" using v e by (simp add: adj_inv_def)
  note W = piece_wf[OF w f(1) lo ln us f(2,3)]
  have Z: "set zs = set (pre @ us @ vs) \<union> {n} \<union> (if keep then {f} else {})" by (auto simp: zs)
  note H = piece_held[OF c f(1) Z lo ln lf keep f(2) se f(3)]
  have fok: "lock_ok (lck st f)" using w by (simp add: wf_append wf_Cons)
  have on: "owner_of (lck st2 n) = me" "l_start (lck st2 n) = e0 + 1" using f by (simp_all add: ln owner_of_def)
  have wz: "wf_locks (lck st2) zs"
  proof (cases keep)
    case True
    then have of: "owner_of (lck st2 f) = me" "l_start (lck st2 f) = l_start (lck st f)" "l_end (lck st2 f) = l_start ld - 1"
      using lf f by (simp_all add: owner_of_def)
    have "before (lck st2) a f" if "a \<in> set pre" for a
    proof -
      have "before (lck st) a f" using w that by (simp add: wf_append)
      then show ?thesis using lo that of f(1) by (auto simp: before_def)
    qed
    moreover have "before (lck st2) f a" if "a \<in> set (us @ vs)" for a
    proof -
      have "before (lck st) f a" using w that by (auto simp: wf_append wf_Cons)
      then show ?thesis using lo that of f True keep se by (auto simp: before_def)
    qed
    moreover have "before (lck st2) f n" using of on f(2) se by (simp add: before_def)
    moreover have "lock_ok (lck st2 f)" using fok lf True keep f se by (auto simp: lock_ok_def)
    ultimately show ?thesis using W(1) True by (auto simp: zs wf_append wf_Cons)
  qed (use W(1) in \<open>simp add: zs\<close>)
  have com: "adj_common me lh st0 L0 zs (l_start ld) e0 st2"
    unfolding adj_common_def
  proof (intro conjI allI impI)
    show "\<exists>F. fl_rep st2 (L0(lh := zs)) F" using rep by blast
    show "framed st0 L0 lh st2"
      unfolding framed_def
    proof (intro allI impI)
      fix k a assume k: "k \<noteq> lh" "a \<in> set (L0 k)"
      then have "a \<in> set ((L0(lh := pre @ f # us @ vs)) k)" by simp
      then have "a \<notin> set (pre @ f # post)" using fl_repD(4)[OF r k(1), of a] post by auto
      moreover have "a \<noteq> n" using n k by blast
      ultimately show "same_data st0 st2 a" using adj_commonD(2)[OF c] data k by (auto simp: framed_def same_data_def)
    qed
    show "wf_locks (lck st2) zs" by (rule wz)
    show "held (lck st2) (set zs) p x t = held (lck st0) (set (L0 lh)) p x t" if "p \<noteq> me" for p x t
      by (rule H(1)[OF that])
    show "held (lck st2) (set zs) me x t = held (lck st0) (set (L0 lh)) me x t" if "x < l_start ld \<or> e0 < x" for x t
      by (rule H(2)[OF that])
    show "held (lck st0) (set (L0 lh)) me x t" if "held (lck st2) (set zs) me x t" for x t
      by (rule H(3)[OF that])
  qed
  have pl: "place (lck st2) zs i' (l_start ld)" if T: "T \<noteq> F_UNLCK"
  proof (cases keep)
    case True
    then have "zs = pre @ f # (us @ n # vs)" "i' = Some f" using zs i' by auto
    moreover have "l_start (lck st2 f) \<le> l_start ld" using True keep lf by simp
    ultimately show ?thesis using place_after[of "lck st2" pre f "us @ n # vs"] wz by simp
  next
    case False
    have "place (lck st) (pre @ us @ vs) i' (l_start ld)"
      using v T i' False place_remove[of "lck st" pre f post i "l_start ld"] place_here(1)[OF w] post by (auto simp: adj_inv_def)
    then have "place (lck st2) ((pre @ us) @ n # vs) i' (l_start ld)"
      using lo us(2) se on by (intro place_insert[of "lck st"]) auto
    then show ?thesis using zs False by simp
  qed
  have own: "l_end (lck st2 a) < l_start ld \<or> l_end ld < l_start (lck st2 a)"
    if a: "a \<in> set zs" "owner_of (lck st2 a) = me" for a
  proof (cases "a \<in> set pre \<or> keep \<and> a = f")
    case True
    then show ?thesis using lo lf v a(2) by (auto simp: adj_inv_def)
  next
    case False
    then have "a \<in> set (us @ n # vs)" using a(1) zs by (auto split: if_splits)
    then show ?thesis using W(2) a(2) le by simp
  qed
  have "e0 \<le> MAXEND" using fok f(3) by (simp add: lock_ok_def)
  moreover have "\<forall>x. l_start ld \<le> x \<and> x \<le> e0 \<and> (x < s0 \<or> e0 < x) \<longrightarrow> held (lck st0) (set (L0 lh)) me x T"
    using v by (auto simp: adj_inv_def)
  moreover have "0 \<le> l_start ld" "l_start ld \<le> s0" "l_type ld = T" using v by (simp_all add: adj_inv_def)
  ultimately show ?thesis unfolding adj_fin_def le using com pl own[unfolded le] by blast
qed

text \<open>The record for the piece comes from the free list.\<close>

lemma fin_piece_del:
  assumes v: "adj_inv me lh st0 L0 s0 e0 T pre (f # post) i ld st" and e: "s0 \<le> e0"
    and f: "owner_of (lck st f) = me" "l_start ld \<le> l_start (lck st f)" "l_start (lck st f) \<le> e0" "e0 < l_end (lck st f)"
    and p: "piece_after me lh f ld st = Some (False, st1)"
    and i': "i' = i \<and> l_start ld < l_start (lck st f) \<or> i' = lastp pre \<and> l_start ld = l_start (lck st f)"
  shows "\<exists>zs. adj_fin me lh st0 L0 s0 e0 T zs i' ld (delflck lh f st1)"
proof -
  have c: "adj_common me lh st0 L0 (pre @ f # post) (l_start ld) e0 st" and le: "l_end ld = e0" using v by (simp_all add: adj_inv_def)
  obtain F where r: "fl_rep st (L0(lh := pre @ f # post)) F" using adj_commonD(1)[OF c] by blast
  have "l_start (lck st f) \<le> l_end ld" using f le by simp
  from piece_after_some[OF r adj_commonD(3)[OF c] f(1) this p] obtain n F' us vs where F: "F = n # F'" and post: "post = us @ vs"
    and r1: "fl_rep st1 (L0(lh := pre @ f # us @ n # vs)) F'" and n: "lck st1 n = (lck st f)\<lparr>l_start := e0 + 1\<rparr>"
    and sd: "\<forall>a. a \<noteq> n \<longrightarrow> same_data st st1 a"
    and us: "\<forall>a \<in> set us. l_start (lck st a) < e0 + 1" "\<forall>a \<in> set vs. e0 + 1 \<le> l_start (lck st a)"
    unfolding le by blast
  have L1: "(L0(lh := pre @ f # us @ n # vs)) lh = pre @ f # us @ n # vs" by simp
  note D = delflck_rep[OF r1 L1, unfolded fun_upd_upd]
  have nn: "n \<notin> set (pre @ f # post)" "n \<notin> set (L0 k)" if "k \<noteq> lh" for k
    using fl_repD(3)[OF r, of n lh] fl_repD(3)[OF r, of n k] F that by auto
  have nn1: "n \<notin> set (pre @ f # post)" using fl_repD(3)[OF r, of n lh] F by auto
  have lk: "lck (delflck lh f st1) a = lck st1 a" for a using D by (cases "a = f") (simp_all add: same_data_def)
  have "lck (delflck lh f st1) a = lck st a" if "a \<in> set (pre @ us @ vs)" for a
  proof -
    have "a \<noteq> n" using that nn1 post by auto
    then show ?thesis using sd by (simp add: lk same_data_def)
  qed
  moreover have "same_data st (delflck lh f st1) a" if "a \<notin> set (pre @ f # post)" "a \<noteq> n" for a
    using that sd D by (auto simp: same_data_def)
  moreover have "fl_rep (delflck lh f st1) (L0(lh := pre @ us @ n # vs)) (f # F')" by (rule conjunct1[OF D])
  ultimately have "adj_fin me lh st0 L0 s0 e0 T (pre @ us @ n # vs) i' ld (delflck lh f st1)"
    using nn(2) n lk f us i' by (intro fin_piece[OF v e post, where keep = False and n = n]) auto
  then show ?thesis by blast
qed

lemma fin_piece_cut:
  assumes v: "adj_inv me lh st0 L0 s0 e0 T pre (f # post) i ld st" and e: "s0 \<le> e0"
    and f: "owner_of (lck st f) = me" "l_start (lck st f) < l_start ld" "l_start (lck st f) \<le> e0" "e0 < l_end (lck st f)"
    and p: "piece_after me lh f ld st = Some (False, st1)"
  shows "\<exists>zs. adj_fin me lh st0 L0 s0 e0 T zs (Some f) ld (cut_end f ld st1)"
proof -
  have c: "adj_common me lh st0 L0 (pre @ f # post) (l_start ld) e0 st" and le: "l_end ld = e0" using v by (simp_all add: adj_inv_def)
  obtain F where r: "fl_rep st (L0(lh := pre @ f # post)) F" using adj_commonD(1)[OF c] by blast
  have "l_start (lck st f) \<le> l_end ld" using f le by simp
  from piece_after_some[OF r adj_commonD(3)[OF c] f(1) this p] obtain n F' us vs where F: "F = n # F'" and post: "post = us @ vs"
    and r1: "fl_rep st1 (L0(lh := pre @ f # us @ n # vs)) F'" and n: "lck st1 n = (lck st f)\<lparr>l_start := e0 + 1\<rparr>"
    and sd: "\<forall>a. a \<noteq> n \<longrightarrow> same_data st st1 a"
    and us: "\<forall>a \<in> set us. l_start (lck st a) < e0 + 1" "\<forall>a \<in> set vs. e0 + 1 \<le> l_start (lck st a)"
    unfolding le by blast
  have nn: "n \<notin> set (L0 k)" if "k \<noteq> lh" for k
    using fl_repD(3)[OF r, of n k] F that by auto
  have nn1: "n \<notin> set (pre @ f # post)" using fl_repD(3)[OF r, of n lh] F by auto
  have df: "f \<notin> set (pre @ us @ vs)" using fl_repD(2)[OF r, of lh] post by auto
  let ?st = "cut_end f ld st1"
  have "lck ?st a = lck st a" if "a \<in> set (pre @ us @ vs)" for a
  proof -
    have "a \<noteq> n" "a \<noteq> f" using that nn1 df post by auto
    then show ?thesis using sd by (simp add: cut_end_simps same_data_def)
  qed
  moreover have "same_data st ?st a" if "a \<notin> set (pre @ f # post)" "a \<noteq> n" for a
    using that sd by (auto simp: same_data_def cut_end_simps)
  moreover have "fl_rep ?st (L0(lh := pre @ f # us @ n # vs)) F'" by (rule cut_end_rep[OF r1])
  moreover have "lck ?st f = (lck st f)\<lparr>l_len := l_start ld - 1\<rparr>" "lck ?st n = (lck st f)\<lparr>l_start := e0 + 1\<rparr>"
    using n sd nn1 by (auto simp: cut_end_simps same_data_def)
  ultimately have "adj_fin me lh st0 L0 s0 e0 T (pre @ f # us @ n # vs) (Some f) ld ?st"
    using nn f us by (intro fin_piece[OF v e post, where keep = True and n = n]) auto
  then show ?thesis by blast
qed

section \<open>One turn of the scan\<close>

definition adj_early :: "owner \<Rightarrow> lockhead \<Rightarrow> flstate \<Rightarrow> (lockhead \<Rightarrow> nat list) \<Rightarrow> int \<Rightarrow> int \<Rightarrow> int \<Rightarrow> flstate \<Rightarrow> bool" where
  "adj_early me lh st0 L0 s0 e0 T st \<longleftrightarrow>
     (\<exists>xs s e. adj_common me lh st0 L0 xs s e st \<and>
       (\<forall>p b t. held (lck st) (set xs) p b t = held (lck st0) (set (L0 lh)) p b t) \<and>
       (\<forall>b. s0 \<le> b \<and> b \<le> e0 \<longrightarrow> held (lck st0) (set (L0 lh)) me b T))"

definition adj_err :: "owner \<Rightarrow> lockhead \<Rightarrow> flstate \<Rightarrow> (lockhead \<Rightarrow> nat list) \<Rightarrow> flstate \<Rightarrow> bool" where
  "adj_err me lh st0 L0 st \<longleftrightarrow> (\<exists>xs s e. adj_common me lh st0 L0 xs s e st)"

definition adj_result ::
    "owner \<Rightarrow> lockhead \<Rightarrow> flstate \<Rightarrow> (lockhead \<Rightarrow> nat list) \<Rightarrow> int \<Rightarrow> int \<Rightarrow> int \<Rightarrow> adj \<Rightarrow> bool" where
  "adj_result me lh st0 L0 s0 e0 T r \<longleftrightarrow>
     (case r of
        Next n i ld st \<Rightarrow> n = None \<and> (\<exists>zs. adj_fin me lh st0 L0 s0 e0 T zs i ld st)
      | Ret e ld st \<Rightarrow> if e = None then adj_early me lh st0 L0 s0 e0 T st else e = Some ENOLCK \<and> adj_err me lh st0 L0 st)"

text \<open>The region lies inside a lock of the same type: nothing was changed before, nothing remains to be done.\<close>

lemma early:
  assumes v: "adj_inv me lh st0 L0 s0 e0 T pre (f # post) i ld st" and w0: "wf_locks (lck st0) (L0 lh)"
    and f: "owner_of (lck st f) = me" "l_type (lck st f) = T" "l_start (lck st f) \<le> l_start ld" "e0 \<le> l_end (lck st f)"
  shows "adj_early me lh st0 L0 s0 e0 T st"
proof -
  have c: "adj_common me lh st0 L0 (pre @ f # post) (l_start ld) e0 st" and s: "l_start ld \<le> s0" using v by (simp_all add: adj_inv_def)
  let ?H = "held (lck st) (set (pre @ f # post))" and ?G = "held (lck st0) (set (L0 lh))"
  have in_f: "?H me b T" if "l_start ld \<le> b" "b \<le> e0" for b
    unfolding held_def using f that by (intro bexI[of _ f]) auto
  have "?H p b t = ?G p b t" for p b t
  proof (cases "p = me \<and> l_start ld \<le> b \<and> b \<le> e0")
    case True
    then have h: "?H me b T" "?G me b T" using in_f adj_commonD(6)[OF c] by auto
    then show ?thesis
      using True held_unique[OF adj_commonD(3)[OF c], of me b t T] held_unique[OF w0, of me b t T] by metis
  next
    case False
    then show ?thesis using adj_commonD(4)[OF c, of p b t] adj_commonD(5)[OF c, of b t] by (cases "p = me") auto
  qed
  moreover have "?G me b T" if "s0 \<le> b" "b \<le> e0" for b
    using in_f adj_commonD(6)[OF c] that s by auto
  ultimately show ?thesis using c unfolding adj_early_def by blast
qed

lemma inv_err:
  assumes v: "adj_inv me lh st0 L0 s0 e0 T pre (f # post) i ld st"
    and f: "owner_of (lck st f) = me" "l_start (lck st f) \<le> e0"
    and p: "piece_after me lh f ld st = Some (True, st1)"
  shows "adj_err me lh st0 L0 st1"
proof -
  have c: "adj_common me lh st0 L0 (pre @ f # post) (l_start ld) e0 st" and le: "l_end ld = e0" using v by (simp_all add: adj_inv_def)
  obtain F where r: "fl_rep st (L0(lh := pre @ f # post)) F" using adj_commonD(1)[OF c] by blast
  have L: "(L0(lh := pre @ f # post)) lh = pre @ f # post" by simp
  have "l_start (lck st f) < l_end ld + 1" using f le by simp
  note P = piece_after_rep[OF r L adj_commonD(3)[OF c] f(1) this]
  have F: "F = []" using P p by (cases F) auto
  from P[unfolded F list.case] p have r1: "fl_rep st1 (L0(lh := pre @ f # post)) []" and sd: "\<forall>a. same_data st st1 a" by auto
  have lk: "lck st1 = lck st" using sd by (auto simp: same_data_def)
  have "adj_common me lh st0 L0 (pre @ f # post) (l_start ld) e0 st1"
    unfolding adj_common_def lk
  proof (intro conjI)
    show "\<exists>F. fl_rep st1 (L0(lh := pre @ f # post)) F" using r1 by blast
    show "framed st0 L0 lh st1" using adj_commonD(2)[OF c] sd by (auto simp: framed_def same_data_def)
  qed (use c in \<open>unfold adj_common_def, blast\<close>)+
  then show ?thesis unfolding adj_err_def by blast
qed

lemma piece_after_total:
  assumes v: "adj_inv me lh st0 L0 s0 e0 T pre (f # post) i ld st"
    and f: "owner_of (lck st f) = me" "l_start (lck st f) \<le> e0"
  shows "\<exists>full st1. piece_after me lh f ld st = Some (full, st1)"
proof -
  have c: "adj_common me lh st0 L0 (pre @ f # post) (l_start ld) e0 st" and le: "l_end ld = e0" using v by (simp_all add: adj_inv_def)
  obtain F where r: "fl_rep st (L0(lh := pre @ f # post)) F" using adj_commonD(1)[OF c] by blast
  have L: "(L0(lh := pre @ f # post)) lh = pre @ f # post" by simp
  have "l_start (lck st f) < l_end ld + 1" using f le by simp
  from piece_after_rep[OF r L adj_commonD(3)[OF c] f(1) this] show ?thesis by (cases F) auto
qed

lemma adj_step:
  assumes v: "adj_inv me lh st0 L0 s0 e0 T pre (f # post) i ld st" and w0: "wf_locks (lck st0) (L0 lh)"
    and e: "s0 \<le> e0" "e0 \<le> MAXEND"
  shows "\<exists>r. flckadj_step me lh f i ld st = Some r \<and>
    (adj_result me lh st0 L0 s0 e0 T r \<or>
     (\<exists>pre' post' i' ld' st'. r = Next (firstp post') i' ld' st' \<and> length post' < length (f # post) \<and>
        adj_inv me lh st0 L0 s0 e0 T pre' post' i' ld' st'))"
proof -
  have c: "adj_common me lh st0 L0 (pre @ f # post) (l_start ld) e0 st" and le: "l_end ld = e0" and ty: "l_type ld = T"
    and s: "l_start ld \<le> s0"
    using v by (simp_all add: adj_inv_def)
  obtain F where r: "fl_rep st (L0(lh := pre @ f # post)) F" using adj_commonD(1)[OF c] by blast
  have L: "(L0(lh := pre @ f # post)) lh = pre @ f # post" by simp
  have np: "nxt st f = firstp post" "prv st f = lastp pre" using fl_rep_at[OF r L] by auto
  note w = adj_commonD(3)[OF c]
  let ?fs = "lck st f"
  have fok: "lock_ok ?fs" using w by (simp add: wf_append wf_Cons)
  have fse: "l_start ?fs \<le> l_end ?fs" using fok by (simp add: lock_ok_def)
  have se: "l_start ld \<le> e0" using s e by simp
  note step = flckadj_step_def Let_def np regflck_def le ty
  have next_ok: "\<exists>pre' post'. n = firstp post' \<and> length post' < length (f # post) \<and> adj_inv me lh st0 L0 s0 e0 T pre' post' i' ld' st'"
    if "n = firstp post" "adj_inv me lh st0 L0 s0 e0 T pre'' post i' ld' st'" for n i' ld' st' pre''
    using that by (intro exI[of _ pre''] exI[of _ post]) simp
  have later: "l_end ?fs < l_start (lck st a)" if "a \<in> set post" "owner_of (lck st a) = owner_of ?fs" for a
    using w that by (auto simp: wf_append wf_Cons before_def)
  have later': "l_start ?fs \<le> l_start (lck st a)" if "a \<in> set post" for a
    using w that by (auto simp: wf_append wf_Cons before_def)
  show ?thesis
  proof (cases "owner_of ?fs = me")
    case False
    then have "adj_inv me lh st0 L0 s0 e0 T (pre @ [f]) post i ld st" by (intro inv_skip[OF v]) auto
    then show ?thesis using False next_ok by (auto simp: step own_iff)
  next
    case own: True
    have fin_here: "adj_fin me lh st0 L0 s0 e0 T (pre @ f # post) i ld st" if "e0 < l_start ?fs"
      using v e by (rule fin_stop) (use that later' own in force)
    have finish: "\<exists>r. flckadj_step me lh f i ld st = Some r \<and> (adj_result me lh st0 L0 s0 e0 T r \<or> X r)"
      if "flckadj_step me lh f i ld st = Some (Next None i' ld' st')" "\<exists>zs. adj_fin me lh st0 L0 s0 e0 T zs i' ld' st'"
      for i' ld' st' X using that by (auto simp: adj_result_def)
    have early': "\<exists>r. flckadj_step me lh f i ld st = Some r \<and> (adj_result me lh st0 L0 s0 e0 T r \<or> X r)"
      if "flckadj_step me lh f i ld st = Some (Ret None ld st)" "l_type ?fs = T" "l_start ?fs \<le> l_start ld" "e0 \<le> l_end ?fs" for X
      using that(1) early[OF v w0 own that(2-4)] by (auto simp: adj_result_def)
    have split: "\<exists>r. flckadj_step me lh f i ld st = Some r \<and> (adj_result me lh st0 L0 s0 e0 T r \<or> X r)"
      if "flckadj_step me lh f i ld st = Option.bind (piece_after me lh f ld st) (\<lambda>(full, st').
            Some (if full then Ret (Some ENOLCK) ld st' else Next None i' ld (g st')))"
        "l_start ?fs \<le> e0"
        "\<And>st1. piece_after me lh f ld st = Some (False, st1) \<Longrightarrow> \<exists>zs. adj_fin me lh st0 L0 s0 e0 T zs i' ld (g st1)" for i' g X
    proof -
      from piece_after_total[OF v own that(2)] obtain full st1 where p: "piece_after me lh f ld st = Some (full, st1)" by blast
      then show ?thesis using that(1,3) inv_err[OF v own that(2)] by (cases full) (auto simp: adj_result_def)
    qed
    have go: "\<exists>r. flckadj_step me lh f i ld st = Some r \<and> (adj_result me lh st0 L0 s0 e0 T r \<or>
       (\<exists>pre' post' i' ld' st'. r = Next (firstp post') i' ld' st' \<and> length post' < length (f # post) \<and>
          adj_inv me lh st0 L0 s0 e0 T pre' post' i' ld' st'))"
      if "flckadj_step me lh f i ld st = Some (Next (firstp post) i' ld' st')" "adj_inv me lh st0 L0 s0 e0 T pre'' post i' ld' st'"
      for i' ld' st' pre'' using that by fastforce
    consider (B) "l_start ld < l_start ?fs" | (S) "l_start ld = l_start ?fs" | (A) "l_start ?fs < l_start ld" by linarith
    then show ?thesis
    proof cases
      case B
      consider "e0 < l_start ?fs - 1" | "e0 = l_start ?fs - 1" | "l_start ?fs \<le> e0" "e0 < l_end ?fs"
        | "l_start ?fs \<le> e0" "e0 = l_end ?fs" | "l_start ?fs \<le> e0" "l_end ?fs < e0" by linarith
      then show ?thesis
      proof cases
        case 1
        then have "regflck ld ?fs = (S_BEFORE, E_BEFORE)" using B fse le by (simp add: regflck_def)
        then show ?thesis using own 1 fin_here
          by (intro finish[of i ld st]) (auto simp: flckadj_step_def Let_def own_iff)
      next
        case 2
        then have g: "regflck ld ?fs = (S_BEFORE, E_START)" using B fse le by (simp add: regflck_def)
        show ?thesis
        proof (cases "l_type ?fs = T")
          case True
          then show ?thesis using g own 2 B fse fin_del_ext[OF v e(1) own True B] ty
            by (intro finish[of i "ld\<lparr>l_len := l_end ?fs\<rparr>" "delflck lh f st"]) (auto simp: flckadj_step_def Let_def own_iff)
        next
          case False
          then show ?thesis using g own 2 fin_here ty
            by (intro finish[of i ld st]) (auto simp: flckadj_step_def Let_def own_iff)
        qed
      next
        case 3
        then have g: "regflck ld ?fs = (S_BEFORE, E_MIDDLE)" using B fse le by (simp add: regflck_def)
        show ?thesis
        proof (cases "l_type ?fs = T")
          case True
          then show ?thesis using g own 3 B fin_del_ext[OF v e(1) own True B] ty
            by (intro finish[of i "ld\<lparr>l_len := l_end ?fs\<rparr>" "delflck lh f st"]) (auto simp: flckadj_step_def Let_def own_iff)
        next
          case False
          show ?thesis
            by (rule split[of i "delflck lh f"])
              (use False g own 3 B ty fin_piece_del[OF v e(1) own less_imp_le[OF B] 3] in
                \<open>auto simp: flckadj_step_def Let_def own_iff\<close>)
        qed
      next
        case 4
        then have g: "regflck ld ?fs = (S_BEFORE, E_END)" using B fse le by (simp add: regflck_def)
        have d: "adj_inv me lh st0 L0 s0 e0 T pre post i ld (delflck lh f st)"
          using B 4 by (intro inv_del[OF v own]) auto
        have lkd: "lck (delflck lh f st) a = lck st a" if "a \<in> set post" for a
          using common_del(2)[OF c own order.refl order.refl less_imp_le[OF B]] 4 that by simp
        show ?thesis
        proof (cases "l_type ?fs = T")
          case True
          have "adj_fin me lh st0 L0 s0 e0 T (pre @ post) i ld (delflck lh f st)"
            by (rule fin_stop[OF d e]) (use later lkd own 4 in auto)
          then show ?thesis using True g own ty
            by (intro finish[of i ld "delflck lh f st"]) (auto simp: flckadj_step_def Let_def own_iff)
        next
          case False
          then show ?thesis using g own ty by (intro go[OF _ d]) (auto simp: flckadj_step_def Let_def own_iff np)
        qed
      next
        case 5
        then have g: "regflck ld ?fs = (S_BEFORE, E_AFTER)" using B fse le by (simp add: regflck_def)
        have d: "adj_inv me lh st0 L0 s0 e0 T pre post i ld (delflck lh f st)"
          using B 5 by (intro inv_del[OF v own]) auto
        show ?thesis using g own by (intro go[OF _ d]) (auto simp: flckadj_step_def Let_def own_iff np)
      qed
    next
      case S
      have ldS: "ld = ld\<lparr>l_start := l_start ?fs\<rparr>" using S by simp
      have d: "adj_inv me lh st0 L0 s0 e0 T pre post (lastp pre) ld (delflck lh f st)" if "l_end ?fs \<le> e0"
        using S ldS by (intro inv_del[OF v own that]) auto
      consider "e0 < l_end ?fs" | "e0 = l_end ?fs" | "l_end ?fs < e0" by linarith
      then show ?thesis
      proof cases
        case 1
        then have g: "regflck ld ?fs = (S_START, E_MIDDLE)" using S fse le se by (simp add: regflck_def)
        show ?thesis
        proof (cases "l_type ?fs = T")
          case True
          then show ?thesis using g own 1 S ty by (intro early') (auto simp: flckadj_step_def Let_def own_iff)
        next
          case False
          have x: "l_start ld \<le> l_start ?fs" "l_start ?fs \<le> e0" using S se by auto
          show ?thesis
            by (rule split[of "prv st f" "delflck lh f"])
              (use False g own S ty x fin_piece_del[OF v e(1) own x 1] in
                \<open>auto simp: flckadj_step_def Let_def own_iff np\<close>)
        qed
      next
        case 2
        then have g: "regflck ld ?fs = (S_START, E_END)" using S fse le by (simp add: regflck_def)
        show ?thesis
        proof (cases "l_type ?fs = T")
          case True
          then show ?thesis using g own 2 S ty by (intro early') (auto simp: flckadj_step_def Let_def own_iff)
        next
          case False
          then show ?thesis using g own ty 2 d
            by (intro go[of "lastp pre" ld "delflck lh f st" pre]) (auto simp: flckadj_step_def Let_def own_iff np)
        qed
      next
        case 3
        then have g: "regflck ld ?fs = (S_START, E_AFTER)" using S fse le by (simp add: regflck_def)
        show ?thesis using g own ty 3 d
          by (intro go[of "lastp pre" ld "delflck lh f st" pre]) (auto simp: flckadj_step_def Let_def own_iff np)
      qed
    next
      case A
      have d: "adj_inv me lh st0 L0 s0 e0 T pre post (lastp pre) (ld\<lparr>l_start := l_start ?fs\<rparr>) (delflck lh f st)"
        if "l_end ?fs \<le> e0" "l_type ?fs = T" "l_start ld \<le> l_end ?fs + 1"
        using A that by (intro inv_del[OF v own that(1)]) auto
      have k: "adj_inv me lh st0 L0 s0 e0 T (pre @ [f]) post (Some f) ld (cut_end f ld st)"
        if "l_start ld \<le> l_end ?fs" "l_end ?fs \<le> e0" by (rule inv_cut[OF v own A that])
      consider "l_start ld \<le> l_end ?fs" "e0 < l_end ?fs" | "l_start ld \<le> l_end ?fs" "e0 = l_end ?fs"
        | "l_start ld \<le> l_end ?fs" "l_end ?fs < e0" | "l_start ld - 1 = l_end ?fs" | "l_start ld - 1 > l_end ?fs" by linarith
      then show ?thesis
      proof cases
        case 1
        then have g: "regflck ld ?fs = (S_MIDDLE, E_MIDDLE)" using A fse le se by (simp add: regflck_def)
        show ?thesis
        proof (cases "l_type ?fs = T")
          case True
          then show ?thesis using g own 1 A ty by (intro early') (auto simp: flckadj_step_def Let_def own_iff)
        next
          case False
          have x: "l_start ?fs \<le> e0" using A se by simp
          show ?thesis
            by (rule split[of "Some f" "cut_end f ld"])
              (use False g own ty x fin_piece_cut[OF v e(1) own A x 1(2)] in
                \<open>auto simp: flckadj_step_def Let_def own_iff np\<close>)
        qed
      next
        case 2
        then have g: "regflck ld ?fs = (S_MIDDLE, E_END)" using A fse le by (simp add: regflck_def)
        show ?thesis
        proof (cases "l_type ?fs = T")
          case True
          then show ?thesis using g own 2 A ty by (intro early') (auto simp: flckadj_step_def Let_def own_iff)
        next
          case False
          then show ?thesis using g own ty 2 k
            by (intro go[of "Some f" ld "cut_end f ld st" "pre @ [f]"]) (auto simp: flckadj_step_def Let_def own_iff np)
        qed
      next
        case 3
        then have g: "regflck ld ?fs = (S_MIDDLE, E_AFTER)" using A fse le by (simp add: regflck_def)
        show ?thesis
        proof (cases "l_type ?fs = T")
          case True
          then show ?thesis using g own ty 3 d
            by (intro go[of "lastp pre" "ld\<lparr>l_start := l_start ?fs\<rparr>" "delflck lh f st" pre])
              (auto simp: flckadj_step_def Let_def own_iff np)
        next
          case False
          then show ?thesis using g own ty 3 k
            by (intro go[of "Some f" ld "cut_end f ld st" "pre @ [f]"]) (auto simp: flckadj_step_def Let_def own_iff np)
        qed
      next
        case 4
        then have g: "regflck ld ?fs = (S_END, E_AFTER)" using A fse le by (simp add: regflck_def)
        show ?thesis
        proof (cases "l_type ?fs = T")
          case True
          then show ?thesis using g own ty 4 d se
            by (intro go[of "lastp pre" "ld\<lparr>l_start := l_start ?fs\<rparr>" "delflck lh f st" pre])
              (auto simp: flckadj_step_def Let_def own_iff np)
        next
          case False
          have "adj_inv me lh st0 L0 s0 e0 T (pre @ [f]) post i ld st" using 4 by (intro inv_skip[OF v]) auto
          then show ?thesis using g own ty False
            by (intro go[of i ld st "pre @ [f]"]) (auto simp: flckadj_step_def Let_def own_iff np)
        qed
      next
        case 5
        then have g: "regflck ld ?fs = (S_AFTER, E_AFTER)" using A fse le by (simp add: regflck_def)
        have "adj_inv me lh st0 L0 s0 e0 T (pre @ [f]) post (Some f) ld st" using 5 A by (intro inv_skip[OF v]) auto
        then show ?thesis using g own ty
          by (intro go[of "Some f" ld st "pre @ [f]"]) (auto simp: flckadj_step_def Let_def own_iff np)
      qed
    qed
  qed
qed

section \<open>The whole adjustment\<close>

text \<open>The bytes \<open>s0\<close> to \<open>e0\<close> of process \<open>me\<close> have the type \<open>T\<close>, every other byte is as before.\<close>

definition adjusted ::
    "owner \<Rightarrow> lockhead \<Rightarrow> flstate \<Rightarrow> (lockhead \<Rightarrow> nat list) \<Rightarrow> int \<Rightarrow> int \<Rightarrow> int \<Rightarrow> nat list \<Rightarrow> flstate \<Rightarrow> bool" where
  "adjusted me lh st0 L0 s0 e0 T xs st \<longleftrightarrow>
     (\<exists>F. fl_rep st (L0(lh := xs)) F) \<and> framed st0 L0 lh st \<and> wf_locks (lck st) xs \<and>
     (\<forall>p b t. held (lck st) (set xs) p b t \<longleftrightarrow>
        (if p = me \<and> s0 \<le> b \<and> b \<le> e0 then T \<noteq> F_UNLCK \<and> t = T else held (lck st0) (set (L0 lh)) p b t))"

lemma adj_loop:
  assumes "adj_inv me lh st0 L0 s0 e0 T pre post i ld st" "wf_locks (lck st0) (L0 lh)" "s0 \<le> e0" "e0 \<le> MAXEND"
  shows "\<exists>r. flckadj_loop me lh (firstp post) i ld st = Some r \<and> adj_result me lh st0 L0 s0 e0 T r"
  using assms(1)
proof (induction post arbitrary: pre i ld st rule: length_induct)
  case (1 post)
  show ?case
  proof (cases post)
    case Nil
    have "adj_fin me lh st0 L0 s0 e0 T (pre @ []) i ld st"
      by (rule fin_stop[OF _ assms(3,4)]) (use "1.prems" Nil in auto)
    then show ?thesis using Nil by (subst flckadj_loop.simps) (auto simp: adj_result_def)
  next
    case (Cons f ps)
    from adj_step[OF "1.prems"[unfolded Cons] assms(2-4)] obtain r where r: "flckadj_step me lh f i ld st = Some r"
      and c: "adj_result me lh st0 L0 s0 e0 T r \<or> (\<exists>pre' post' i' ld' st'. r = Next (firstp post') i' ld' st' \<and>
        length post' < length (f # ps) \<and> adj_inv me lh st0 L0 s0 e0 T pre' post' i' ld' st')" by blast
    have u: "flckadj_loop me lh (firstp post) i ld st =
        (case r of Next n i' ld' st' \<Rightarrow> flckadj_loop me lh n i' ld' st' | Ret e ld' st' \<Rightarrow> Some (Ret e ld' st'))"
      using r Cons by (subst flckadj_loop.simps) simp
    from c show ?thesis
    proof
      assume a: "adj_result me lh st0 L0 s0 e0 T r"
      show ?thesis
      proof (cases r)
        case (Next n i' ld' st')
        then have "n = None" using a by (simp add: adj_result_def)
        then show ?thesis using a u Next by (simp add: flckadj_loop.simps[of _ _ None])
      qed (use a u in simp)
    next
      assume "\<exists>pre' post' i' ld' st'. r = Next (firstp post') i' ld' st' \<and>
        length post' < length (f # ps) \<and> adj_inv me lh st0 L0 s0 e0 T pre' post' i' ld' st'"
      then show ?thesis using "1.IH" u Cons by auto
    qed
  qed
qed

text \<open>Where the adjusted lock goes.\<close>

lemma place_scan:
  assumes r: "fl_rep st L F" and L: "L lh = zs" and w: "wf_locks (lck st) zs" and p: "place (lck st) zs i s"
  shows "\<exists>as bs. zs = as @ bs \<and>
    (case i of None \<Rightarrow> Some None | Some q \<Rightarrow> Option.bind (ins_scan st s q q) (\<lambda>a. Some (Some a))) = Some (lastp as) \<and>
    (\<forall>a \<in> set as. l_start (lck st a) \<le> s) \<and> (\<forall>a \<in> set bs. s \<le> l_start (lck st a))"
proof -
  obtain as bs where ab: "zs = as @ bs" "i = lastp as" "\<forall>a \<in> set as. l_start (lck st a) \<le> s"
    "as = [] \<longrightarrow> (\<forall>a \<in> set bs. s \<le> l_start (lck st a))" using p by (auto simp: place_def)
  show ?thesis
  proof (cases as rule: rev_cases)
    case Nil
    then show ?thesis using ab by (intro exI[of _ as] exI[of _ bs]) simp
  next
    case (snoc ys q)
    have z: "L lh = ys @ q # bs" "wf_locks (lck st) (ys @ q # bs)" using L w ab(1) snoc by auto
    show ?thesis
    proof (cases "l_start (lck st q) < s")
      case True
      from ins_scan_split[OF r z True, of q] obtain us vs where "bs = us @ vs" "ins_scan st s q q = Some (last (q # us))"
        "\<forall>a \<in> set us. l_start (lck st a) < s" "\<forall>a \<in> set vs. s \<le> l_start (lck st a)" by blast
      moreover have "lastp (ys @ q # us) = Some (last (q # us))" by (simp add: lastp_def)
      ultimately show ?thesis using ab snoc by (intro exI[of _ "ys @ q # us"] exI[of _ vs]) auto
    next
      case False
      then have "ins_scan st s q q = Some q" by (subst ins_scan.simps) simp
      moreover have "\<forall>a \<in> set bs. s \<le> l_start (lck st a)"
        using False z(2) by (auto simp: wf_append wf_Cons before_def)
      ultimately show ?thesis using ab snoc by (intro exI[of _ as] exI[of _ bs]) auto
    qed
  qed
qed

lemma adjusted_ins:
  assumes c: "adj_common me lh st0 L0 (as @ bs) (l_start ld) (l_end ld) st"
    and b: "0 \<le> l_start ld" "l_start ld \<le> s0" "s0 \<le> e0" "e0 \<le> l_end ld" "l_end ld \<le> MAXEND" "l_type ld = T"
    and T: "T = F_RDLCK \<or> T = F_WRLCK"
    and o: "\<forall>a \<in> set (as @ bs). owner_of (lck st a) = me \<longrightarrow> l_end (lck st a) < l_start ld \<or> l_end ld < l_start (lck st a)"
    and x: "\<And>b. l_start ld \<le> b \<Longrightarrow> b \<le> l_end ld \<Longrightarrow> b < s0 \<or> e0 < b \<Longrightarrow> held (lck st0) (set (L0 lh)) me b T"
    and lo: "\<forall>a \<in> set as. l_start (lck st a) \<le> l_start ld" and hi: "\<forall>a \<in> set bs. l_start ld \<le> l_start (lck st a)"
    and r: "fl_rep st (L0(lh := as @ bs)) (n # F')" and r': "fl_rep st' (L0(lh := as @ n # bs)) F'"
    and n: "lck st' n = ld\<lparr>l_pid := fst me, l_sysid := snd me\<rparr>" and sd: "\<forall>a. a \<noteq> n \<longrightarrow> same_data st st' a"
    and lk: "\<And>a. a \<in> set (as @ bs) \<Longrightarrow> lck st' a = lck st a" and w0: "wf_locks (lck st0) (L0 lh)"
  shows "adjusted me lh st0 L0 s0 e0 T (as @ n # bs) st'"
proof -
  have on: "owner_of (lck st' n) = me" "l_start (lck st' n) = l_start ld" "l_end (lck st' n) = l_end ld" "l_type (lck st' n) = T"
    using n b(6) by (simp_all add: owner_of_def)
  have w: "wf_locks (lck st) as" "wf_locks (lck st) bs" "\<forall>a \<in> set as. \<forall>c \<in> set bs. before (lck st) a c"
    using adj_commonD(3)[OF c] by (simp_all add: wf_append)
  have ok: "lock_ok (lck st' n)" using on b T by (simp add: lock_ok_def)
  have wb: "wf_locks (lck st') as" "wf_locks (lck st') bs"
    using w(1,2) wf_cong[of as "lck st'" "lck st"] wf_cong[of bs "lck st'" "lck st"] lk by auto
  have fine: "l_start (lck st a) \<le> l_end (lck st a)" if "a \<in> set (as @ bs)" for a
    using adj_commonD(3)[OF c] that by (auto simp: wf_locks_def lock_ok_def)
  have be: "before (lck st') a n" if "a \<in> set as" for a
    using o lo that lk[of a] on fine[of a] b by (force simp: before_def)
  have af: "before (lck st') n a" if "a \<in> set bs" for a
    using o hi that lk[of a] on fine[of a] by (force simp: before_def)
  have "before (lck st') a d" if "a \<in> set as" "d \<in> set bs" for a d
    using w(3) that lk[of a] lk[of d] by (simp add: before_def)
  then have wf: "wf_locks (lck st') (as @ n # bs)" using wb ok be af by (simp add: wf_append wf_Cons)
  have S: "set (as @ n # bs) = insert n (set (as @ bs))" by auto
  have hh: "held (lck st') (set (as @ bs)) p x t = held (lck st) (set (as @ bs)) p x t" for p x t
    by (rule held_by_cong) (rule lk)
  have h: "held (lck st') (set (as @ n # bs)) p x t \<longleftrightarrow>
      me = p \<and> l_start ld \<le> x \<and> x \<le> l_end ld \<and> T = t \<or> held (lck st) (set (as @ bs)) p x t" for p x t
    unfolding S held_insert on hh ..
  have none: "\<not> held (lck st) (set (as @ bs)) me x t" if "l_start ld \<le> x" "x \<le> l_end ld" for x t
    using o that unfolding held_def by force
  have "held (lck st') (set (as @ n # bs)) p y t \<longleftrightarrow>
      (if p = me \<and> s0 \<le> y \<and> y \<le> e0 then T \<noteq> F_UNLCK \<and> t = T else held (lck st0) (set (L0 lh)) p y t)" for p y t
  proof (cases "p = me")
    case pm: True
    consider (grown) "l_start ld \<le> y" "y \<le> l_end ld" "y < s0 \<or> e0 < y" | (asked) "s0 \<le> y" "y \<le> e0"
      | (out) "y < l_start ld \<or> l_end ld < y" by linarith
    then show ?thesis
    proof cases
      case grown
      have "held (lck st0) (set (L0 lh)) me y t \<longleftrightarrow> t = T" using held_unique[OF w0 x[OF grown]] x[OF grown] by blast
      then show ?thesis using h[of p y t] none[OF grown(1,2)] grown pm by auto
    next
      case asked
      then show ?thesis using h[of p y t] none[of y t] b T pm by auto
    next
      case out
      then have "\<not> (s0 \<le> y \<and> y \<le> e0)" "\<not> (l_start ld \<le> y \<and> y \<le> l_end ld)" using b by linarith+
      then show ?thesis using h[of p y t] adj_commonD(5)[OF c out, of t] pm by metis
    qed
  qed (use h adj_commonD(4)[OF c] in auto)
  moreover have "framed st0 L0 lh st'"
    by (rule framed_step[OF adj_commonD(2)[OF c] r]) (use sd in auto)
  ultimately show ?thesis using r' wf unfolding adjusted_def by blast
qed

lemma adj_insert:
  assumes v: "adj_fin me lh st0 L0 s0 e0 T zs i ld st" and T: "T = F_RDLCK \<or> T = F_WRLCK \<or> T = F_UNLCK" and se: "s0 \<le> e0"
    and w0: "wf_locks (lck st0) (L0 lh)"
  shows "\<exists>e st'. flckadj_insert me lh i ld st = Some (e, ld, st') \<and>
    (e = None \<and> (\<exists>xs. adjusted me lh st0 L0 s0 e0 T xs st') \<or> e = Some ENOLCK \<and> adj_err me lh st0 L0 st')"
proof -
  have c: "adj_common me lh st0 L0 zs (l_start ld) (l_end ld) st"
    and b: "0 \<le> l_start ld" "l_start ld \<le> s0" "e0 \<le> l_end ld" "l_end ld \<le> MAXEND" "l_type ld = T"
    and o: "\<forall>a \<in> set zs. owner_of (lck st a) = me \<longrightarrow> l_end (lck st a) < l_start ld \<or> l_end ld < l_start (lck st a)"
    and x: "\<And>b. l_start ld \<le> b \<Longrightarrow> b \<le> l_end ld \<Longrightarrow> b < s0 \<or> e0 < b \<Longrightarrow> held (lck st0) (set (L0 lh)) me b T"
    using v unfolding adj_fin_def by auto
  obtain F where r: "fl_rep st (L0(lh := zs)) F" using adj_commonD(1)[OF c] by blast
  have none: "\<not> held (lck st) (set zs) me b t" if "l_start ld \<le> b" "b \<le> l_end ld" for b t
    using o that unfolding held_def by force
  show ?thesis
  proof (cases "T = F_UNLCK")
    case True
    have "held (lck st) (set zs) p x t \<longleftrightarrow>
        (if p = me \<and> s0 \<le> x \<and> x \<le> e0 then T \<noteq> F_UNLCK \<and> t = T else held (lck st0) (set (L0 lh)) p x t)" for p x t
    proof (cases "p = me")
      case pm: True
      consider "l_start ld \<le> x" "x \<le> l_end ld" "x < s0 \<or> e0 < x" | "s0 \<le> x" "x \<le> e0" | "x < l_start ld \<or> l_end ld < x" by linarith
      then show ?thesis
      proof cases
        case 1
        have "held (lck st0) (set (L0 lh)) me x F_UNLCK" using x[OF 1] True by simp
        then obtain a where a: "a \<in> set (L0 lh)" "l_type (lck st0 a) = F_UNLCK" by (auto simp: held_def)
        then have "lock_ok (lck st0 a)" using w0 by (simp add: wf_locks_def)
        then show ?thesis using a(2) by (simp add: lock_ok_def)
      next
        case 2
        then show ?thesis using none[of x t] b pm True by simp
      next
        case 3
        then have "\<not> (s0 \<le> x \<and> x \<le> e0)" using b se by linarith
        then show ?thesis using adj_commonD(5)[OF c 3, of t] pm by auto
      qed
    qed (use adj_commonD(4)[OF c] in simp)
    then show ?thesis using True b(5) adj_commonD[OF c] unfolding adjusted_def flckadj_insert_def
      by (intro exI[of _ None] exI[of _ st]) auto
  next
    case False
    then have pl: "place (lck st) zs i (l_start ld)" using v by (simp add: adj_fin_def)
    have L: "(L0(lh := zs)) lh = zs" by simp
    from place_scan[OF r L adj_commonD(3)[OF c] pl] obtain as bs where z: "zs = as @ bs"
      and sc: "(case i of None \<Rightarrow> Some None | Some q \<Rightarrow> Option.bind (ins_scan st (l_start ld) q q) (\<lambda>a. Some (Some a))) = Some (lastp as)"
      and lo: "\<forall>a \<in> set as. l_start (lck st a) \<le> l_start ld" and hi: "\<forall>a \<in> set bs. l_start ld \<le> l_start (lck st a)" by blast
    have u: "flckadj_insert me lh i ld st =
        (case insflck me lh ld (lastp as) st of (new, st') \<Rightarrow> Some (if new = None then Some ENOLCK else None, ld, st'))"
      unfolding flckadj_insert_def using b(5) False sc by simp
    show ?thesis
    proof (cases F)
      case Nil
      note I = insflck_full[OF r[unfolded Nil], of me lh ld "lastp as"]
      let ?s = "st\<lparr>flinfo := (flinfo st)\<lparr>recovf := s32 (recovf (flinfo st) + 1)\<rparr>\<rparr>"
      have "fl_rep ?s (L0(lh := zs)) []" by (rule fl_rep_cong[OF r[unfolded Nil]]) simp_all
      then have "adj_common me lh st0 L0 zs (l_start ld) (l_end ld) ?s"
        using c unfolding adj_common_def framed_def same_data_def by auto
      then show ?thesis using u I by (auto simp: adj_err_def)
    next
      case (Cons n F')
      have Lz: "(L0(lh := zs)) lh = as @ bs" using z by simp
      from insflck_rep[OF r[unfolded Cons] Lz, of me ld, unfolded fun_upd_upd] obtain st' where I:
        "insflck me lh ld (lastp as) st = (Some n, st')" "fl_rep st' (L0(lh := as @ n # bs)) F'"
        "lck st' n = ld\<lparr>l_pid := fst me, l_sysid := snd me\<rparr>" "\<forall>a. a \<noteq> n \<longrightarrow> same_data st st' a" by blast
      have sd: "lck st' a = lck st a" if "a \<in> set (as @ bs)" for a
        using I(4) that fl_repD(3)[OF r[unfolded Cons], of a lh] z by (auto simp: same_data_def)
      have "adjusted me lh st0 L0 s0 e0 T (as @ n # bs) st'"
      proof (rule adjusted_ins[OF c[unfolded z] b(1,2) se b(3,4,5)])
        show "T = F_RDLCK \<or> T = F_WRLCK" using T False by simp
        show "fl_rep st (L0(lh := as @ bs)) (n # F')" using r z Cons by simp
      qed (use o z x lo hi I(2-4) sd w0 in auto)
      then show ?thesis using u I(1) by auto
    qed
  qed
qed

text \<open>A record the scan for the request \<open>ld\<close> may start at (\<open>None\<close>: at the head).\<close>

definition start_at :: "owner \<Rightarrow> (nat \<Rightarrow> flock) \<Rightarrow> nat list \<Rightarrow> ptr \<Rightarrow> flock \<Rightarrow> bool" where
  "start_at me lk xs i ld \<longleftrightarrow>
     (\<exists>pre post. xs = pre @ post \<and> (\<forall>a \<in> set pre. owner_of (lk a) = me \<longrightarrow> l_end (lk a) < l_start ld) \<and>
        (if i = None then pre = [] \<and> (l_type ld \<noteq> F_UNLCK \<longrightarrow> (\<forall>a \<in> set post. l_start ld \<le> l_start (lk a)))
         else i = firstp post \<and> (l_type ld \<noteq> F_UNLCK \<longrightarrow> l_start (lk (hd post)) \<le> l_start ld)))"

lemma start_head: "l_type ld = F_UNLCK \<Longrightarrow> start_at me lk xs (firstp xs) ld"
  unfolding start_at_def by (intro exI[of _ "[]"] exI[of _ xs]) auto

definition request_ok :: "flock \<Rightarrow> bool" where
  "request_ok ld \<longleftrightarrow> 0 \<le> l_start ld \<and> l_start ld \<le> l_end ld \<and> l_end ld \<le> MAXEND \<and>
     (l_type ld = F_RDLCK \<or> l_type ld = F_WRLCK \<or> l_type ld = F_UNLCK)"

lemma early_adjusted:
  assumes "adj_early me lh st0 L0 s0 e0 T st" "wf_locks (lck st0) (L0 lh)" "s0 \<le> e0"
  shows "\<exists>xs. adjusted me lh st0 L0 s0 e0 T xs st"
proof -
  obtain xs s e where c: "adj_common me lh st0 L0 xs s e st"
    and h: "\<And>p b t. held (lck st) (set xs) p b t = held (lck st0) (set (L0 lh)) p b t"
    and t: "\<And>b. s0 \<le> b \<Longrightarrow> b \<le> e0 \<Longrightarrow> held (lck st0) (set (L0 lh)) me b T" using assms(1) unfolding adj_early_def by blast
  obtain a where a: "a \<in> set (L0 lh)" "l_type (lck st0 a) = T" using t[OF order.refl assms(3)] by (auto simp: held_def)
  then have "lock_ok (lck st0 a)" using assms(2) by (simp add: wf_locks_def)
  then have T: "T \<noteq> F_UNLCK" using a(2) by (auto simp: lock_ok_def)
  have "held (lck st) (set xs) p b u \<longleftrightarrow>
      (if p = me \<and> s0 \<le> b \<and> b \<le> e0 then T \<noteq> F_UNLCK \<and> u = T else held (lck st0) (set (L0 lh)) p b u)" for p b u
    using h t held_unique[OF assms(2), of me b u T] T by auto
  then show ?thesis using adj_commonD(1-3)[OF c] unfolding adjusted_def by blast
qed

lemma start_inv:
  assumes r: "fl_rep st L F" and w: "wf_locks (lck st) (L lh)" and ld: "request_ok ld" and i: "start_at me (lck st) (L lh) i ld"
  shows "\<exists>pre post. (if i = None then head lh st else i) = firstp post \<and>
    adj_inv me lh st L (l_start ld) (l_end ld) (l_type ld) pre post i ld st"
proof -
  obtain pre post where L: "L lh = pre @ post" and o: "\<forall>a \<in> set pre. owner_of (lck st a) = me \<longrightarrow> l_end (lck st a) < l_start ld"
    and x: "if i = None then pre = [] \<and> (l_type ld \<noteq> F_UNLCK \<longrightarrow> (\<forall>a \<in> set post. l_start ld \<le> l_start (lck st a)))
      else i = firstp post \<and> (l_type ld \<noteq> F_UNLCK \<longrightarrow> l_start (lck st (hd post)) \<le> l_start ld)"
    using i unfolding start_at_def by blast
  have f: "(if i = None then head lh st else i) = firstp post" using x fl_rep_head[OF r, of lh] L by auto
  have "L(lh := L lh) = L" by simp
  then have "adj_common me lh st L (L lh) (l_start ld) (l_end ld) st"
    unfolding adj_common_def using r w by (auto simp: framed_def same_data_def)
  moreover have "place (lck st) (pre @ post) i (l_start ld)" if "l_type ld \<noteq> F_UNLCK"
  proof (cases i)
    case None
    then show ?thesis using x that unfolding place_def by (intro exI[of _ "[]"] exI[of _ post]) auto
  next
    case (Some f)
    then obtain ps where "post = f # ps" using x by (cases post) auto
    then show ?thesis using Some x w L that place_after[of "lck st" pre f ps] by simp
  qed
  ultimately have "adj_inv me lh st L (l_start ld) (l_end ld) (l_type ld) pre post i ld st"
    using L o ld unfolding adj_inv_def request_ok_def by auto
  then show ?thesis using f by blast
qed

text \<open>A request that is carried out, or that runs out of records; then bytes of the caller may be lost.\<close>

lemma flckadj_sets:
  assumes r: "fl_rep st L F" and w: "wf_locks (lck st) (L lh)" and ld: "request_ok ld" and i: "start_at me (lck st) (L lh) i ld"
  shows "\<exists>e ld' st'. flckadj me lh i ld st = Some (e, ld', st') \<and>
    (e = None \<and> (\<exists>xs. adjusted me lh st L (l_start ld) (l_end ld) (l_type ld) xs st') \<or>
     e = Some ENOLCK \<and> adj_err me lh st L st')"
proof -
  have b: "l_start ld \<le> l_end ld" "l_end ld \<le> MAXEND" using ld by (auto simp: request_ok_def)
  obtain pre post where h: "(if i = None then head lh st else i) = firstp post"
    and v: "adj_inv me lh st L (l_start ld) (l_end ld) (l_type ld) pre post i ld st" using start_inv[OF assms] by blast
  from adj_loop[OF v w b] obtain x where x: "flckadj_loop me lh (firstp post) i ld st = Some x"
    "adj_result me lh st L (l_start ld) (l_end ld) (l_type ld) x" by blast
  show ?thesis
  proof (cases x)
    case (Next n i' ld' st')
    then obtain zs where z: "adj_fin me lh st L (l_start ld) (l_end ld) (l_type ld) zs i' ld' st'"
      using x(2) by (auto simp: adj_result_def)
    have t: "l_type ld = F_RDLCK \<or> l_type ld = F_WRLCK \<or> l_type ld = F_UNLCK" using ld by (simp add: request_ok_def)
    from adj_insert[OF z t b(1) w] show ?thesis using x(1) h Next by (auto simp: flckadj_def)
  next
    case (Ret e ld' st')
    show ?thesis
    proof (cases e)
      case None
      then have "adj_early me lh st L (l_start ld) (l_end ld) (l_type ld) st'" using x(2) Ret by (simp add: adj_result_def)
      from early_adjusted[OF this w b(1)] show ?thesis using x(1) h Ret None by (auto simp: flckadj_def)
    next
      case (Some a)
      then show ?thesis using x h Ret by (auto simp: flckadj_def adj_result_def)
    qed
  qed
qed

end
