(* ===== verification/Flock_Ok.thy ===== *)
theory Flock_Ok
  imports Flock_Adj
begin

text \<open>
  The requests of all processes: \<^verbatim>\<open>blocked\<close> finds the locks in the way, the deadlock check follows the chain of
  sleeping requests, and the states reached by the system calls keep the locks compatible and the waits acyclic.
\<close>

section \<open>The locks that block a request\<close>

definition overlap :: "flock \<Rightarrow> flock \<Rightarrow> bool" where
  "overlap a b \<longleftrightarrow> l_start a \<le> l_end b \<and> l_start b \<le> l_end a"

definition blocks :: "owner \<Rightarrow> flock \<Rightarrow> flock \<Rightarrow> bool" where
  "blocks me fs lk \<longleftrightarrow> owner_of fs \<noteq> me \<and> overlap fs lk \<and> conflict fs lk"

lemma dseg_firstp: "dseg fx pr (a # bs) p None \<Longrightarrow> fnext (fx a) = firstp bs"
  using dseg_first by fastforce

definition passed :: "owner \<Rightarrow> flock \<Rightarrow> (nat \<Rightarrow> flock) \<Rightarrow> nat list \<Rightarrow> bool" where
  "passed me lk ls pre \<longleftrightarrow> (\<forall>a \<in> set pre. l_start (ls a) < l_start lk \<and> \<not> blocks me (ls a) lk \<and>
     (owner_of (ls a) = me \<longrightarrow> l_end (ls a) < l_start lk - 1))"

lemma blocked_scan_spec:
  assumes "dseg (flox st) pr post (firstp post) None" "wf_locks (lck st) (pre @ post)" "passed me lk (lck st) pre"
    "l_start lk \<le> l_end lk"
  shows "\<exists>pre' post' i. pre @ post = pre' @ post' \<and> passed me lk (lck st) pre' \<and>
    (blocked_scan me st lk (firstp post) (lastp pre) = Some (firstp post', None, i) \<and> post' \<noteq> [] \<and> blocks me (lck st (hd post')) lk \<or>
     blocked_scan me st lk (firstp post) (lastp pre) = Some (None, firstp post', i) \<and>
       (i = lastp pre' \<and> (\<forall>a \<in> set post'. l_start lk \<le> l_start (lck st a)) \<or>
        i = firstp post' \<and> post' \<noteq> [] \<and> l_start (lck st (hd post')) < l_start lk))"
  using assms(1-3)
proof (induction post arbitrary: pr pre)
  case Nil
  then show ?case
    by (intro exI[of _ pre] exI[of _ "[]"] exI[of _ "lastp pre"]) (subst (1 2) blocked_scan.simps, simp)
next
  case (Cons a post)
  have d: "dseg (flox st) (Some a) post (firstp post) None" "nxt st a = firstp post"
    using Cons.prems(1) dseg_firstp[of "flox st" pr a post] by auto
  note u = blocked_scan.simps[of me st lk "Some a" "lastp pre"]
  have w: "wf_locks (lck st) ((pre @ [a]) @ post)" using Cons.prems(2) by simp
  have l: "lastp (pre @ [a]) = Some a" by simp
  consider (big) "l_start lk \<le> l_start (lck st a)"
    | (mine) "l_start (lck st a) < l_start lk" "owner_of (lck st a) = me" "l_start lk - 1 \<le> l_end (lck st a)"
    | (block) "l_start (lck st a) < l_start lk" "blocks me (lck st a) lk"
    | (pass) "l_start (lck st a) < l_start lk" "\<not> blocks me (lck st a) lk" "owner_of (lck st a) = me \<Longrightarrow> l_end (lck st a) < l_start lk - 1"
    by linarith
  then show ?case
  proof cases
    case big
    have "\<forall>b \<in> set (a # post). l_start lk \<le> l_start (lck st b)"
      using big Cons.prems(2) by (auto simp: wf_append wf_Cons before_def)
    then show ?thesis using big u Cons.prems(3)
      by (intro exI[of _ pre] exI[of _ "a # post"] exI[of _ "lastp pre"]) simp
  next
    case mine
    then show ?thesis using u Cons.prems(3)
      by (intro exI[of _ pre] exI[of _ "a # post"] exI[of _ "Some a"]) (simp add: own_iff)
  next
    case block
    then show ?thesis using u Cons.prems(3) assms(4)
      by (intro exI[of _ pre] exI[of _ "a # post"] exI[of _ "Some a"]) (simp add: own_iff blocks_def overlap_def)
  next
    case pass
    then have "passed me lk (lck st) (pre @ [a])" using Cons.prems(3) by (auto simp: passed_def)
    moreover have "blocked_scan me st lk (Some a) (lastp pre) = blocked_scan me st lk (firstp post) (lastp (pre @ [a]))"
      using pass u d(2) assms(4) by (auto simp: own_iff blocks_def overlap_def)
    ultimately show ?thesis using Cons.IH[OF d(1) w] by simp
  qed
qed

lemma blocked_rest_spec:
  assumes "dseg (flox st) pr post (firstp post) None" "wf_locks (lck st) post"
  shows "blocked_rest me st lk (firstp post) = Some (firstp (dropWhile (\<lambda>a. \<not> blocks me (lck st a) lk) post))"
  using assms
proof (induction post arbitrary: pr)
  case Nil
  then show ?case by (subst blocked_rest.simps) simp
next
  case (Cons a post)
  have d: "dseg (flox st) (Some a) post (firstp post) None" "nxt st a = firstp post"
    using Cons.prems(1) dseg_firstp[of "flox st" pr a post] by auto
  note u = blocked_rest.simps[of me st lk "Some a"]
  have w: "wf_locks (lck st) post" using Cons.prems(2) by (simp add: wf_Cons)
  show ?case
  proof (cases "l_end lk < l_start (lck st a)")
    case True
    then have "\<forall>b \<in> set (a # post). \<not> blocks me (lck st b) lk"
      using Cons.prems(2) by (auto simp: wf_Cons before_def blocks_def overlap_def)
    then have "dropWhile (\<lambda>a. \<not> blocks me (lck st a) lk) (a # post) = []" by (simp only: dropWhile_eq_Nil_conv)
    then show ?thesis using True u by simp
  next
    case False
    then show ?thesis using Cons.IH[OF d(1) w] u d(2) by (auto simp: own_iff blocks_def overlap_def)
  qed
qed

lemma firstp_dropWhile:
  "firstp (dropWhile P xs) = Some a \<Longrightarrow> a \<in> set xs \<and> \<not> P a"
  "firstp (dropWhile P xs) = None \<longleftrightarrow> (\<forall>a \<in> set xs. P a)"
  by (induction xs) (auto split: if_splits)

text \<open>What \<^verbatim>\<open>blocked\<close> finds: a lock in the way, or that there is none and where the request goes.\<close>

lemma blocked_spec:
  assumes r: "fl_rep st L F" and w: "wf_locks (lck st) (L lh)" and lk: "request_ok lk" "l_type lk \<noteq> F_UNLCK"
  shows "\<exists>found i. blocked me st (head lh st) lk = Some (found, i) \<and>
    (case found of Some a \<Rightarrow> a \<in> set (L lh) \<and> blocks me (lck st a) lk
     | None \<Rightarrow> (\<forall>a \<in> set (L lh). \<not> blocks me (lck st a) lk) \<and> start_at me (lck st) (L lh) i lk)"
proof -
  have d: "dseg (flox st) None (L lh) (firstp (L lh)) None" and h: "head lh st = firstp (L lh)"
    using fl_repD(1)[OF r, of lh] fl_rep_head[OF r, of lh] by auto
  have se: "l_start lk \<le> l_end lk" using lk by (simp add: request_ok_def)
  have "passed me lk (lck st) []" "wf_locks (lck st) ([] @ L lh)" using w by (simp_all add: passed_def)
  from blocked_scan_spec[OF d this(2,1) se, unfolded append_Nil lastp_simps(1)] obtain pre post i where L: "L lh = pre @ post" and p: "passed me lk (lck st) pre"
    and x: "blocked_scan me st lk (firstp (L lh)) None = Some (firstp post, None, i) \<and> post \<noteq> [] \<and> blocks me (lck st (hd post)) lk \<or>
     blocked_scan me st lk (firstp (L lh)) None = Some (None, firstp post, i) \<and>
       (i = lastp pre \<and> (\<forall>a \<in> set post. l_start lk \<le> l_start (lck st a)) \<or>
        i = firstp post \<and> post \<noteq> [] \<and> l_start (lck st (hd post)) < l_start lk)" by blast
  from x show ?thesis
  proof
    assume a: "blocked_scan me st lk (firstp (L lh)) None = Some (firstp post, None, i) \<and> post \<noteq> [] \<and> blocks me (lck st (hd post)) lk"
    then show ?thesis using L h by (auto simp: blocked_def firstp_def)
  next
    assume n: "blocked_scan me st lk (firstp (L lh)) None = Some (None, firstp post, i) \<and>
       (i = lastp pre \<and> (\<forall>a \<in> set post. l_start lk \<le> l_start (lck st a)) \<or>
        i = firstp post \<and> post \<noteq> [] \<and> l_start (lck st (hd post)) < l_start lk)"
    note s = conjunct1[OF n] and i = conjunct2[OF n]
    have wp: "wf_locks (lck st) post" using w L by (simp add: wf_append)
    obtain q where q: "dseg (flox st) (lastp pre) post q None"
      using fl_repD(1)[OF r, of lh] L by (cases "pre = []") (auto simp: dseg_append lastp_def)
    then have q': "dseg (flox st) (lastp pre) post (firstp post) None" using dseg_first by blast
    define d where "d = firstp (dropWhile (\<lambda>a. \<not> blocks me (lck st a) lk) post)"
    have b: "blocked me st (head lh st) lk = Some (d, i)"
      using s h blocked_rest_spec[OF q' wp, of me lk] by (simp add: blocked_def d_def)
    have np: "\<not> blocks me (lck st a) lk" if "a \<in> set pre" for a using p that by (simp add: passed_def)
    have ow: "l_end (lck st a) < l_start lk" if "a \<in> set pre" "owner_of (lck st a) = me" for a
      using p that by (auto simp: passed_def)
    have "start_at me (lck st) (L lh) i lk"
    proof (cases "i = lastp pre \<and> (\<forall>a \<in> set post. l_start lk \<le> l_start (lck st a))")
      case True
      show ?thesis
      proof (cases pre rule: rev_cases)
        case Nil
        then show ?thesis using True L unfolding start_at_def by (intro exI[of _ "[]"] exI[of _ post]) simp
      next
        case (snoc ys y)
        then have "l_start (lck st y) \<le> l_start lk" using p by (auto simp: passed_def)
        then show ?thesis using True L snoc ow unfolding start_at_def by (intro exI[of _ ys] exI[of _ "y # post"]) auto
      qed
    next
      case False
      then have "i = firstp post" "post \<noteq> []" "l_start (lck st (hd post)) < l_start lk" using i by auto
      then show ?thesis using L ow unfolding start_at_def
        by (intro exI[of _ pre] exI[of _ post]) (auto simp: firstp_def)
    qed
    moreover have "\<forall>a \<in> set (L lh). \<not> blocks me (lck st a) lk" if "d = None"
      using that np L firstp_dropWhile(2)[of "\<lambda>a. \<not> blocks me (lck st a) lk" post] by (auto simp: d_def)
    moreover have "a \<in> set (L lh) \<and> blocks me (lck st a) lk" if "d = Some a" for a
      using that L firstp_dropWhile(1)[of "\<lambda>a. \<not> blocks me (lck st a) lk" post a] by (simp add: d_def)
    ultimately show ?thesis using b by (cases d) auto
  qed
qed

section \<open>The list operations on whole states\<close>

definition exclusive :: "(nat \<Rightarrow> flock) \<Rightarrow> nat set \<Rightarrow> bool" where
  "exclusive lk X \<longleftrightarrow>
     (\<forall>p q b t u. held lk X p b t \<and> held lk X q b u \<and> p \<noteq> q \<longrightarrow> t = F_RDLCK \<and> u = F_RDLCK)"

definition pid_ok :: "owner \<Rightarrow> bool" where
  "pid_ok p \<longleftrightarrow> - 32768 \<le> fst p \<and> fst p < 32768 \<and> - 32768 \<le> snd p \<and> snd p < 32768"

abbreviation owners_ok :: "(nat \<Rightarrow> flock) \<Rightarrow> nat list \<Rightarrow> bool" where
  "owners_ok lk xs \<equiv> \<forall>a \<in> set xs. pid_ok (owner_of (lk a))"

definition blk :: "flstate \<Rightarrow> nat \<Rightarrow> owner" where
  "blk st a = (blk_pid (flox st a), blk_sysid (flox st a))"

text \<open>Who waits for whom, as the sleeping requests \<open>S\<close> record it.\<close>

definition waits :: "flstate \<Rightarrow> nat list \<Rightarrow> (owner \<times> owner) set" where
  "waits st S = (\<lambda>a. (owner_of (lck st a), blk st a)) ` set S"

definition sleep_ok :: "flstate \<Rightarrow> nat list \<Rightarrow> bool" where
  "sleep_ok st S \<longleftrightarrow> distinct (map (\<lambda>a. owner_of (lck st a)) S) \<and> acyclic (waits st S)"

definition fl_ok :: "flstate \<Rightarrow> (lockhead \<Rightarrow> nat list) \<Rightarrow> nat list \<Rightarrow> bool" where
  "fl_ok st L F \<longleftrightarrow> fl_rep st L F \<and> sleep_ok st (L Sleep) \<and> owners_ok (lck st) (L Sleep) \<and>
     (\<forall>i. wf_locks (lck st) (L (Inode i)) \<and> exclusive (lck st) (set (L (Inode i))) \<and> owners_ok (lck st) (L (Inode i)))"

lemma fl_okD:
  assumes "fl_ok st L F"
  shows "fl_rep st L F" "sleep_ok st (L Sleep)" "owners_ok (lck st) (L Sleep)" "wf_locks (lck st) (L (Inode i))"
    "exclusive (lck st) (set (L (Inode i)))" "owners_ok (lck st) (L (Inode i))"
  using assms unfolding fl_ok_def by blast+

lemma sleep_ok_cong: "(\<And>a. a \<in> set S \<Longrightarrow> same_data st st' a) \<Longrightarrow> sleep_ok st' S = sleep_ok st S"
proof -
  assume s: "\<And>a. a \<in> set S \<Longrightarrow> same_data st st' a"
  have "waits st' S = waits st S"
    unfolding waits_def using s by (intro image_cong) (simp_all add: same_data_def blk_def blk_pid_def blk_sysid_def)
  moreover have "map (\<lambda>a. owner_of (lck st' a)) S = map (\<lambda>a. owner_of (lck st a)) S"
    using s by (simp add: same_data_def)
  ultimately show ?thesis by (simp only: sleep_ok_def)
qed

lemma exclusive_cong: "(\<And>a. a \<in> X \<Longrightarrow> lk a = lk' a) \<Longrightarrow> exclusive lk X = exclusive lk' X"
  unfolding exclusive_def using held_by_cong[of X lk lk'] by simp

lemma exclusive_less:
  assumes "exclusive lk0 X0" "\<And>p b t. held lk X p b t \<Longrightarrow> held lk0 X0 p b t"
  shows "exclusive lk X"
  using assms unfolding exclusive_def by blast

lemma owners_of_held:
  assumes "wf_locks lk xs" "\<And>p b t. held lk (set xs) p b t \<Longrightarrow> p = me \<or> (\<exists>b t. held lk0 (set ys) p b t)"
    "owners_ok lk0 ys" "pid_ok me"
  shows "owners_ok lk xs"
proof
  fix a assume a: "a \<in> set xs"
  then have "lock_ok (lk a)" using assms(1) by (simp add: wf_locks_def)
  then have "held lk (set xs) (owner_of (lk a)) (l_start (lk a)) (l_type (lk a))" using a by (auto simp: held_def lock_ok_def)
  from assms(2)[OF this] show "pid_ok (owner_of (lk a))" using assms(3,4) by (auto simp: held_def)
qed

text \<open>An operation on the locks of one inode.\<close>

lemma fl_ok_inode:
  assumes o: "fl_ok st L F" and r: "fl_rep st' (L(Inode i := xs)) F'" and f: "framed st L (Inode i) st'"
    and w: "wf_locks (lck st') xs" and e: "exclusive (lck st') (set xs)" and p: "owners_ok (lck st') xs"
  shows "fl_ok st' (L(Inode i := xs)) F'"
proof -
  have sd: "same_data st st' a" if "k \<noteq> Inode i" "a \<in> set (L k)" for k a using f that unfolding framed_def by blast
  have "sleep_ok st' (L Sleep)" using fl_okD(2)[OF o] sd[of Sleep] sleep_ok_cong[of "L Sleep" st st'] by simp
  moreover have "owners_ok (lck st') (L Sleep)" using fl_okD(3)[OF o] sd[of Sleep] by (simp add: same_data_def)
  moreover have "wf_locks (lck st') (L (Inode j)) \<and> exclusive (lck st') (set (L (Inode j))) \<and> owners_ok (lck st') (L (Inode j))"
    if "j \<noteq> i" for j
  proof -
    have l: "a \<in> set (L (Inode j)) \<Longrightarrow> lck st' a = lck st a" for a using sd[of "Inode j"] that by (simp add: same_data_def)
    show ?thesis using fl_okD(4-6)[OF o, of j] l wf_cong[of "L (Inode j)" "lck st'" "lck st"]
      exclusive_cong[of "set (L (Inode j))" "lck st'" "lck st"] by auto
  qed
  ultimately show ?thesis using r w e p unfolding fl_ok_def by auto
qed

text \<open>An operation on the sleeping requests.\<close>

lemma fl_ok_sleep:
  assumes o: "fl_ok st L F" and r: "fl_rep st' (L(Sleep := S)) F'"
    and l: "\<And>i a. a \<in> set (L (Inode i)) \<Longrightarrow> lck st' a = lck st a"
    and s: "sleep_ok st' S" and p: "owners_ok (lck st') S"
  shows "fl_ok st' (L(Sleep := S)) F'"
proof -
  have "wf_locks (lck st') (L (Inode j)) \<and> exclusive (lck st') (set (L (Inode j))) \<and> owners_ok (lck st') (L (Inode j))" for j
    using fl_okD(4-6)[OF o, of j] l[of _ j] wf_cong[of "L (Inode j)" "lck st'" "lck st"]
      exclusive_cong[of "set (L (Inode j))" "lck st'" "lck st"] by auto
  then show ?thesis using r s p unfolding fl_ok_def by auto
qed

section \<open>Setting locks keeps them compatible\<close>

lemma adjusted_exclusive:
  assumes a: "adjusted me lh st L s e T xs st'" and x: "exclusive (lck st) (set (L lh))"
    and nb: "T \<noteq> F_UNLCK \<Longrightarrow> \<forall>a \<in> set (L lh). \<not> blocks me (lck st a) lk"
    and lk: "l_start lk = s" "l_end lk = e" "l_type lk = T" "request_ok lk" and w: "wf_locks (lck st) (L lh)"
  shows "exclusive (lck st') (set xs)"
proof -
  have h: "held (lck st') (set xs) p b t \<longleftrightarrow>
      (if p = me \<and> s \<le> b \<and> b \<le> e then T \<noteq> F_UNLCK \<and> t = T else held (lck st) (set (L lh)) p b t)" for p b t
    using a unfolding adjusted_def by blast
  have other: "t = F_RDLCK \<and> T = F_RDLCK" if "T \<noteq> F_UNLCK" "q \<noteq> me" "s \<le> b" "b \<le> e" "held (lck st) (set (L lh)) q b t" for q b t
  proof -
    from that(5) obtain a where a: "a \<in> set (L lh)" "owner_of (lck st a) = q" "l_start (lck st a) \<le> b" "b \<le> l_end (lck st a)"
      "l_type (lck st a) = t" by (auto simp: held_def)
    then have "lock_ok (lck st a)" using w by (simp add: wf_locks_def)
    moreover have "\<not> conflict (lck st a) lk"
      using nb[OF that(1)] a(1,2,3,4) that(2,3,4) lk(1,2) unfolding blocks_def overlap_def by fastforce
    ultimately show ?thesis using a(5) lk(3,4) that(1) by (auto simp: conflict_def lock_ok_def request_ok_def)
  qed
  show ?thesis unfolding exclusive_def
  proof (intro allI impI, elim conjE)
    fix p q b t u assume p: "held (lck st') (set xs) p b t" and q: "held (lck st') (set xs) q b u" and n: "p \<noteq> q"
    consider (in_p) "p = me" "s \<le> b" "b \<le> e" | (in_q) "q = me" "s \<le> b" "b \<le> e" | (out) "b < s \<or> e < b \<or> p \<noteq> me \<and> q \<noteq> me" by linarith
    then show "t = F_RDLCK \<and> u = F_RDLCK"
    proof cases
      case in_p
      then show ?thesis using h[of p b t] h[of q b u] p q n other[of q b u] by auto
    next
      case in_q
      then show ?thesis using h[of p b t] h[of q b u] p q n other[of p b t] by auto
    next
      case out
      then have "held (lck st) (set (L lh)) p b t" "held (lck st) (set (L lh)) q b u"
        using h[of p b t] h[of q b u] p q by (auto split: if_splits)
      then show ?thesis using x n unfolding exclusive_def by blast
    qed
  qed
qed

lemma flckadj_ok:
  assumes o: "fl_ok st L F" and lk: "request_ok lk" and i: "start_at me (lck st) (L (Inode k)) i lk" and me: "pid_ok me"
    and nb: "l_type lk \<noteq> F_UNLCK \<Longrightarrow> \<forall>a \<in> set (L (Inode k)). \<not> blocks me (lck st a) lk"
  shows "\<exists>e lk' st' L' F'. flckadj me (Inode k) i lk st = Some (e, lk', st') \<and> fl_ok st' L' F' \<and> L' Sleep = L Sleep"
proof -
  from flckadj_sets[OF fl_okD(1)[OF o] fl_okD(4)[OF o] lk i] obtain e lk' st' where
    f: "flckadj me (Inode k) i lk st = Some (e, lk', st')" and
    c: "(\<exists>xs. adjusted me (Inode k) st L (l_start lk) (l_end lk) (l_type lk) xs st') \<or> adj_err me (Inode k) st L st'" by blast
  from c have "\<exists>xs F'. fl_ok st' (L(Inode k := xs)) F'"
  proof
    assume "\<exists>xs. adjusted me (Inode k) st L (l_start lk) (l_end lk) (l_type lk) xs st'"
    then obtain xs where a: "adjusted me (Inode k) st L (l_start lk) (l_end lk) (l_type lk) xs st'" ..
    then obtain F' where r: "fl_rep st' (L(Inode k := xs)) F'" "framed st L (Inode k) st'" "wf_locks (lck st') xs"
      and h: "\<And>p b t. held (lck st') (set xs) p b t \<longleftrightarrow>
        (if p = me \<and> l_start lk \<le> b \<and> b \<le> l_end lk then l_type lk \<noteq> F_UNLCK \<and> t = l_type lk
         else held (lck st) (set (L (Inode k))) p b t)"
      unfolding adjusted_def by blast
    have "p = me \<or> (\<exists>b t. held (lck st) (set (L (Inode k))) p b t)" if "held (lck st') (set xs) p b t" for p b t
      using that h[of p b t] by (auto split: if_splits)
    from owners_of_held[OF r(3) this fl_okD(6)[OF o] me]
    have "fl_ok st' (L(Inode k := xs)) F'"
      by (intro fl_ok_inode[OF o r] adjusted_exclusive[OF a fl_okD(5)[OF o] nb] refl lk fl_okD(4)[OF o])
    then show ?thesis by blast
  next
    assume "adj_err me (Inode k) st L st'"
    then obtain xs s e where a: "adj_common me (Inode k) st L xs s e st'" unfolding adj_err_def by blast
    then obtain F' where r: "fl_rep st' (L(Inode k := xs)) F'" using adj_commonD(1) by blast
    have h: "held (lck st) (set (L (Inode k))) p b t" if "held (lck st') (set xs) p b t" for p b t
      using that adj_commonD(4)[OF a, of p b t] adj_commonD(6)[OF a, of b t] by (cases "p = me") auto
    have x: "exclusive (lck st') (set xs)" by (rule exclusive_less[OF fl_okD(5)[OF o] h])
    have "owners_ok (lck st') xs" by (rule owners_of_held[OF adj_commonD(3)[OF a] _ fl_okD(6)[OF o] me]) (use h in blast)
    then show ?thesis using fl_ok_inode[OF o r adj_commonD(2,3)[OF a] x] by blast
  qed
  then obtain xs F' where "fl_ok st' (L(Inode k := xs)) F'" by blast
  then show ?thesis using f by (intro exI[of _ e] exI[of _ lk'] exI[of _ st'] exI[of _ "L(Inode k := xs)"] exI[of _ F']) simp
qed

section \<open>Deadlock detection\<close>

lemma blk_set: "pid_ok (p, y) \<Longrightarrow> blk_pid (set_blk p y f) = p \<and> blk_sysid (set_blk p y f) = y"
proof -
  assume "pid_ok (p, y)"
  then have b: "- 32768 \<le> p" "p < 32768" "- 32768 \<le> y" "y < 32768" by (simp_all add: pid_ok_def)
  have u: "0 \<le> us16 y" "us16 y < 65536" using us16_range by auto
  have "s32 (p * 65536 + us16 y) = p * 65536 + us16 y" using b u by (intro s32_id) linarith+
  moreover have "(p * 65536 + us16 y) div 65536 = p" using u by simp
  moreover have "s16 (p * 65536 + us16 y) = y"
  proof -
    have "us16 y = y - y div 65536 * 65536" by (simp add: us16_def minus_div_mult_eq_mod)
    then have "p * 65536 + us16 y + 32768 = y + 32768 + (p - y div 65536) * 65536" by (simp add: algebra_simps)
    then have "(p * 65536 + us16 y + 32768) mod 65536 = (y + 32768) mod 65536" by (simp only: mod_mult_self1)
    then show ?thesis using b by (simp add: s16_def)
  qed
  ultimately show ?thesis using b by (simp add: blk_pid_def blk_sysid_def set_blk_def)
qed

lemma sleeper_find:
  "dseg (flox st) pr S p None \<Longrightarrow> sleeper st (fst q) (snd q) p = Some (find (\<lambda>a. owner_of (lck st a) = q) S)"
proof (induction S arbitrary: pr p)
  case Nil
  then show ?case by (subst sleeper.simps) simp
next
  case (Cons a S)
  then show ?case by (subst sleeper.simps) (auto simp: own_iff)
qed

text \<open>The check returns, and answers whether the waits lead from the holder of the lock back to the caller.\<close>

lemma deadflck_loop_spec:
  assumes r: "fl_rep st L F" and ok: "sleep_ok st (L Sleep)"
  shows "deadflck_loop me st (fst q) (snd q) = Some ((q, me) \<in> (waits st (L Sleep))\<^sup>*)"
proof -
  let ?W = "waits st (L Sleep)"
  have "finite ?W" by (simp add: waits_def)
  then have wf: "wf (?W\<inverse>)" using ok by (simp add: sleep_ok_def finite_acyclic_wf_converse)
  show ?thesis
  proof (induction q rule: wf_induct_rule[OF wf])
    case (1 q)
    let ?a = "find (\<lambda>a. owner_of (lck st a) = q) (L Sleep)"
    have s: "sleeper st (fst q) (snd q) (sleeplcks st) = Some ?a"
      using sleeper_find fl_repD(1)[OF r, of Sleep] by (simp add: head_def)
    note u = deadflck_loop.simps[of me st "fst q" "snd q"]
    show ?case
    proof (cases "q = me")
      case False
      show ?thesis
      proof (cases ?a)
        case None
        then have "q \<notin> fst ` ?W" by (auto simp: waits_def find_None_iff)
        then have "(q, me) \<notin> ?W\<^sup>*" using False by (metis converse_rtranclE fst_conv imageI)
        then show ?thesis using u s False None by simp
      next
        case (Some a)
        then have a: "a \<in> set (L Sleep)" "owner_of (lck st a) = q" by (auto simp: find_Some_iff)
        then have e: "(q, blk st a) \<in> ?W" by (force simp: waits_def)
        have un: "y = blk st a" if "(q, y) \<in> ?W" for y
        proof -
          from that obtain c where "c \<in> set (L Sleep)" "owner_of (lck st c) = q" "y = blk st c" by (auto simp: waits_def)
          then show ?thesis using a ok by (auto simp: sleep_ok_def distinct_map inj_on_def)
        qed
        have "(q, me) \<in> ?W\<^sup>* \<longleftrightarrow> (blk st a, me) \<in> ?W\<^sup>*"
          using False e un by (metis converse_rtranclE converse_rtrancl_into_rtrancl)
        then show ?thesis using u s False Some "1.IH"[of "blk st a"] e by (simp add: blk_def)
      qed
    qed (use u in simp)
  qed
qed

lemma deadflck_spec:
  assumes o: "fl_ok st L F" and a: "a \<in> set (L (Inode i))"
  shows "deadflck me st a = Some ((owner_of (lck st a), me) \<in> (waits st (L Sleep))\<^sup>*)"
proof -
  have "pid_ok (owner_of (lck st a))" using fl_okD(6)[OF o, of i] a by blast
  then show ?thesis using deadflck_loop_spec[OF fl_okD(1,2)[OF o], of me "owner_of (lck st a)"]
    by (simp add: deadflck_def pid_ok_def owner_of_def)
qed

text \<open>Going to sleep.\<close>

lemma wait_ok:
  assumes o: "fl_ok st L F" and a: "a \<in> set (L (Inode i))" and me: "pid_ok me"
    and idle: "\<forall>b \<in> set (L Sleep). owner_of (lck st b) \<noteq> me"
  shows "\<exists>t. reclock_wait me server a lk st = Some t \<and>
    (case t of Done e lk' st' \<Rightarrow> \<exists>L' F'. fl_ok st' L' F' \<and> L' Sleep = L Sleep
     | Asleep found sf lk' st' \<Rightarrow> \<exists>L' F'. fl_ok st' L' F' \<and> L' Sleep = sf # L Sleep \<and> owner_of (lck st' sf) = me)"
proof (cases "(owner_of (lck st a), me) \<in> (waits st (L Sleep))\<^sup>*")
  case True
  then show ?thesis using o by (auto simp: reclock_wait_def deadflck_spec[OF o a])
next
  case nd: False
  note r = fl_okD(1)[OF o]
  show ?thesis
  proof (cases F)
    case Nil
    note I = insflck_full[OF r[unfolded Nil], of me Sleep lk None]
    let ?s = "st\<lparr>flinfo := (flinfo st)\<lparr>recovf := s32 (recovf (flinfo st) + 1)\<rparr>\<rparr>"
    have "fl_rep ?s L []" by (rule fl_rep_cong[OF r[unfolded Nil]]) simp_all
    then have "fl_ok ?s (L(Sleep := L Sleep)) []"
      using fl_okD(2,3)[OF o] sleep_ok_cong[of "L Sleep" st ?s] by (intro fl_ok_sleep[OF o]) (auto simp: same_data_def)
    then show ?thesis using nd I by (auto simp: reclock_wait_def deadflck_spec[OF o a])
  next
    case (Cons n F')
    have L: "L Sleep = [] @ L Sleep" by simp
    from insflck_rep[OF r[unfolded Cons] L, of me lk, unfolded append_Nil lastp_simps(1)] obtain st1 where I:
      "insflck me Sleep lk None st = (Some n, st1)" "fl_rep st1 (L(Sleep := n # L Sleep)) F'"
      "lck st1 n = lk\<lparr>l_pid := fst me, l_sysid := snd me\<rparr>" "\<forall>b. b \<noteq> n \<longrightarrow> same_data st st1 b" by blast
    have nn: "n \<notin> set (L k)" for k using fl_repD(3)[OF r[unfolded Cons], of n k] by auto
    have an: "a \<noteq> n" using a nn by blast
    have sd: "same_data st st1 b" if "b \<in> set (L k)" for k b using I(4) that nn by metis
    show ?thesis
    proof (cases server)
      case True
      have l: "(L(Sleep := n # L Sleep)) Sleep = [] @ n # L Sleep" by simp
      note D = delflck_rep[OF I(2) l, unfolded fun_upd_upd append_Nil]
      have "same_data st (delflck Sleep n st1) b" if "b \<in> set (L k)" for b k
        using D sd[OF that] that nn[of k] unfolding same_data_def by metis
      then have "fl_ok (delflck Sleep n st1) (L(Sleep := L Sleep)) (n # F')"
        using fl_okD(2,3)[OF o] sleep_ok_cong[of "L Sleep" st "delflck Sleep n st1"] conjunct1[OF D]
        by (intro fl_ok_sleep[OF o]) (auto simp: same_data_def)
      then show ?thesis using nd I(1) True by (auto simp: reclock_wait_def deadflck_spec[OF o a])
    next
      case False
      define st2 where "st2 = upd a (\<lambda>f. f\<lparr>stat := s32 (stat f + 1)\<rparr>) st1"
      define st3 where "st3 = upd n (set_blk (l_pid (lck st2 a)) (l_sysid (lck st2 a))) st2"
      have t: "reclock_wait me server a lk st = Some (Asleep a n lk st3)"
        using nd I(1) False by (simp add: reclock_wait_def deadflck_spec[OF o a] st2_def st3_def Let_def)
      have l3: "lck st3 b = lck st1 b" for b by (simp add: st3_def st2_def set_blk_def)
      have la: "lck st2 a = lck st a" using sd[OF a] by (simp add: st2_def same_data_def)
      have r3: "fl_rep st3 (L(Sleep := n # L Sleep)) F'"
        by (rule fl_rep_cong[OF I(2)]) (simp_all add: st3_def st2_def set_blk_def)
      have pa: "pid_ok (owner_of (lck st a))" using fl_okD(6)[OF o, of i] a by blast
      have bn: "blk st3 n = owner_of (lck st a)"
        using blk_set[of "l_pid (lck st a)" "l_sysid (lck st a)"] pa la by (simp add: blk_def st3_def owner_of_def)
      have on: "owner_of (lck st3 n) = me" using I(3) by (simp add: l3 owner_of_def)
      have sS: "same_data st st3 b" if "b \<in> set (L Sleep)" for b
      proof -
        have "b \<noteq> a" "b \<noteq> n" using that a nn fl_repD(4)[OF r, of Sleep "Inode i" b] by auto
        then show ?thesis using sd[OF that] by (simp add: same_data_def st3_def st2_def)
      qed
      have W: "waits st3 (n # L Sleep) = insert (me, owner_of (lck st a)) (waits st (L Sleep))"
      proof -
        have "waits st3 (L Sleep) = waits st (L Sleep)"
          unfolding waits_def using sS by (intro image_cong) (simp_all add: same_data_def blk_def blk_pid_def blk_sysid_def)
        then show ?thesis using bn on by (simp add: waits_def)
      qed
      have "sleep_ok st3 (n # L Sleep)"
      proof -
        have ol: "owner_of (lck st3 b) = owner_of (lck st b)" if "b \<in> set (L Sleep)" for b using sS[OF that] by (simp add: same_data_def)
        then have m: "map (\<lambda>b. owner_of (lck st3 b)) (L Sleep) = map (\<lambda>b. owner_of (lck st b)) (L Sleep)" by (rule map_cong[OF refl])
        have "distinct (map (\<lambda>b. owner_of (lck st3 b)) (L Sleep))" unfolding m using fl_okD(2)[OF o] by (simp add: sleep_ok_def)
        moreover have "owner_of (lck st3 n) \<notin> (\<lambda>b. owner_of (lck st3 b)) ` set (L Sleep)"
          using idle ol on by auto
        moreover have "acyclic (waits st3 (n # L Sleep))"
          using fl_okD(2)[OF o] nd by (simp add: W acyclic_insert sleep_ok_def)
        ultimately show ?thesis unfolding sleep_ok_def list.map distinct.simps by simp
      qed
      moreover have "owners_ok (lck st3) (n # L Sleep)"
        using fl_okD(3)[OF o] sS on me by (auto simp: same_data_def)
      moreover have "lck st3 b = lck st b" if "b \<in> set (L (Inode j))" for j b
        using sd[OF that] by (simp add: l3 same_data_def)
      ultimately have "fl_ok st3 (L(Sleep := n # L Sleep)) F'" by (intro fl_ok_sleep[OF o r3]) auto
      then show ?thesis using t on by (intro exI[of _ "Asleep a n lk st3"]) (auto intro!: exI[of _ "L(Sleep := n # L Sleep)"])
    qed
  qed
qed

lemma woken_ok:
  assumes o: "fl_ok st L F" and L: "L Sleep = as @ sf # bs"
  shows "fl_ok (reclock_woken sf st) (L(Sleep := as @ bs)) (sf # F)"
proof -
  note r = fl_okD(1)[OF o]
  let ?st = "upd sf (set_blk 0 0) st"
  have r1: "fl_rep ?st L F" by (rule fl_rep_cong[OF r]) (simp_all add: set_blk_def)
  note D = delflck_rep[OF r1 L, folded reclock_woken_def]
  have l: "lck (reclock_woken sf st) b = lck st b" for b
    using D by (cases "b = sf") (auto simp: same_data_def set_blk_def)
  have ns: "sf \<notin> set (as @ bs)" using fl_repD(2)[OF r, of Sleep] L by auto
  have sd: "same_data st (reclock_woken sf st) b" if "b \<noteq> sf" for b
    using D that by (auto simp: same_data_def)
  have "waits st (as @ bs) \<subseteq> waits st (L Sleep)" using L by (auto simp: waits_def)
  then have "sleep_ok st (as @ bs)"
    using fl_okD(2)[OF o] L acyclic_subset by (auto simp: sleep_ok_def)
  then have "sleep_ok (reclock_woken sf st) (as @ bs)"
    using sleep_ok_cong[of "as @ bs" st "reclock_woken sf st"] sd ns by metis
  moreover have "owners_ok (lck st) (as @ bs)" using fl_okD(3)[OF o] L by auto
  ultimately show ?thesis using conjunct1[OF D] l by (intro fl_ok_sleep[OF o]) auto
qed

lemma del_ok:
  assumes o: "fl_ok st L F" and L: "L (Inode i) = as @ f # bs"
  shows "fl_ok (delflck (Inode i) f st) (L(Inode i := as @ bs)) (f # F)" "lck (delflck (Inode i) f st) b = lck st b"
proof -
  note r = fl_okD(1)[OF o]
  note D = delflck_rep[OF r L]
  have l: "lck (delflck (Inode i) f st) b = lck st b" for b
    using D by (cases "b = f") (auto simp: same_data_def)
  then show "lck (delflck (Inode i) f st) b = lck st b" .
  have "f \<notin> set (L k)" if "k \<noteq> Inode i" for k using fl_repD(4)[OF r, of "Inode i" k f] L that by auto
  then have fr: "framed st L (Inode i) (delflck (Inode i) f st)" using D unfolding framed_def by metis
  have w: "wf_locks (lck st) (as @ bs)" using fl_okD(4)[OF o, of i] L by (auto simp: wf_append wf_Cons)
  have "exclusive (lck st) (set (as @ bs))"
    by (rule exclusive_less[OF fl_okD(5)[OF o, of i]]) (use L in \<open>auto simp: held_def\<close>)
  moreover have "owners_ok (lck st) (as @ bs)" using fl_okD(6)[OF o, of i] L by auto
  ultimately show "fl_ok (delflck (Inode i) f st) (L(Inode i := as @ bs)) (f # F)"
    using w by (intro fl_ok_inode[OF o conjunct1[OF D] fr]) (simp_all add: l)
qed

text \<open>The locks \<^verbatim>\<open>cleanlocks\<close> removes.\<close>

definition cleaned :: "owner \<Rightarrow> bool \<Rightarrow> flock \<Rightarrow> bool" where
  "cleaned me ign l \<longleftrightarrow> (l_pid l = fst me \<or> ign) \<and> l_sysid l = snd me"

lemma cleanlocks_loop_ok:
  assumes "fl_ok st L F" "L (Inode i) = pre @ post"
  shows "\<exists>st' F'. cleanlocks_loop me ign i (firstp post) st = Some st' \<and>
    fl_ok st' (L(Inode i := pre @ filter (\<lambda>a. \<not> cleaned me ign (lck st a)) post)) F' \<and> (\<forall>b. lck st' b = lck st b)"
  using assms
proof (induction post arbitrary: pre st L F)
  case Nil
  then show ?case by (subst cleanlocks_loop.simps) (auto simp: fun_upd_idem)
next
  case (Cons a post)
  have n: "nxt st a = firstp post" using fl_rep_at(2)[OF fl_okD(1)[OF Cons.prems(1)] Cons.prems(2)] .
  note u = cleanlocks_loop.simps[of me ign i "Some a" st]
  show ?case
  proof (cases "cleaned me ign (lck st a)")
    case True
    note d = del_ok[OF Cons.prems]
    have "(L(Inode i := pre @ post)) (Inode i) = pre @ post" by simp
    from Cons.IH[OF d(1) this, unfolded d(2) fun_upd_upd] show ?thesis using u n True by (auto simp: Let_def cleaned_def)
  next
    case False
    have "L (Inode i) = (pre @ [a]) @ post" using Cons.prems(2) by simp
    from Cons.IH[OF Cons.prems(1) this] show ?thesis using u n False by (auto simp: Let_def cleaned_def)
  qed
qed

lemma cleanlocks_ok:
  assumes o: "fl_ok st L F"
  shows "\<exists>st' F'. cleanlocks me ign i st = Some st' \<and>
    fl_ok st' (L(Inode i := filter (\<lambda>a. \<not> cleaned me ign (lck st a)) (L (Inode i)))) F' \<and> (\<forall>b. lck st' b = lck st b)"
  using cleanlocks_loop_ok[OF o, of i "[]" "L (Inode i)" me ign] fl_rep_head[OF fl_okD(1)[OF o], of "Inode i"]
  by (simp add: cleanlocks_def)

section \<open>A turn of a request\<close>

lemma turn_ok:
  assumes o: "fl_ok st L F" and lk: "0 \<le> l_start lk" "l_start lk \<le> l_end lk" "l_end lk \<le> MAXEND" and me: "pid_ok me"
    and idle: "\<forall>b \<in> set (L Sleep). owner_of (lck st b) \<noteq> me"
  shows "\<exists>t. reclock_turn me server i cmd lk st = Some t \<and>
    (case t of Done e lk' st' \<Rightarrow> \<exists>L' F'. fl_ok st' L' F' \<and> L' Sleep = L Sleep
     | Asleep found sf lk' st' \<Rightarrow> \<exists>L' F'. fl_ok st' L' F' \<and> L' Sleep = sf # L Sleep \<and> owner_of (lck st' sf) = me)"
proof -
  note r = fl_okD(1)[OF o] and w = fl_okD(4)[OF o, of i]
  consider (lock) "l_type lk = F_RDLCK \<or> l_type lk = F_WRLCK" | (unlock) "l_type lk = F_UNLCK"
    | (bad) "l_type lk \<noteq> F_RDLCK" "l_type lk \<noteq> F_WRLCK" "l_type lk \<noteq> F_UNLCK" by blast
  then show ?thesis
  proof cases
    case lock
    then have q: "request_ok lk" "l_type lk \<noteq> F_UNLCK" using lk by (auto simp: request_ok_def)
    from blocked_spec[OF r w q, of me] obtain found j where b: "blocked me st (head (Inode i) st) lk = Some (found, j)"
      and c: "case found of Some a \<Rightarrow> a \<in> set (L (Inode i)) \<and> blocks me (lck st a) lk
       | None \<Rightarrow> (\<forall>a \<in> set (L (Inode i)). \<not> blocks me (lck st a) lk) \<and> start_at me (lck st) (L (Inode i)) j lk" by blast
    show ?thesis
    proof (cases found)
      case None
      then have "start_at me (lck st) (L (Inode i)) j lk" "\<forall>a \<in> set (L (Inode i)). \<not> blocks me (lck st a) lk" using c by auto
      from flckadj_ok[OF o q(1) this(1) me] this(2) obtain e lk' st' L' F' where
        "flckadj me (Inode i) j lk st = Some (e, lk', st')" "fl_ok st' L' F'" "L' Sleep = L Sleep" by blast
      then show ?thesis using lock b None o by (auto simp: reclock_turn_def)
    next
      case (Some a)
      then have "a \<in> set (L (Inode i))" using c by simp
      from wait_ok[OF o this me idle] show ?thesis using lock b Some o by (auto simp: reclock_turn_def)
    qed
  next
    case unlock
    then have q: "request_ok lk" using lk by (simp add: request_ok_def)
    have "start_at me (lck st) (L (Inode i)) (head (Inode i) st) lk"
      using start_head[OF unlock] fl_rep_head[OF r] by metis
    from flckadj_ok[OF o q this me] unlock obtain e lk' st' L' F' where
      "flckadj me (Inode i) (head (Inode i) st) lk st = Some (e, lk', st')" "fl_ok st' L' F'" "L' Sleep = L Sleep" by blast
    then show ?thesis using unlock o by (auto simp: reclock_turn_def)
  next
    case bad
    then show ?thesis using o by (auto simp: reclock_turn_def)
  qed
qed

text \<open>A request that passes the checks is a region of bytes.\<close>

lemma reclock_checkD:
  assumes "reclock_check i_size lk cmd flag off = Inr lk'"
  shows "0 \<le> l_start lk' \<and> l_start lk' \<le> l_end lk' \<and> l_end lk' \<le> MAXEND"
proof -
  obtain lk1 where c: "convoff i_size lk 0 off = (None, lk1)"
    using assms by (auto simp: reclock_check_def split: if_splits option.splits prod.splits)
  have s: "0 \<le> l_start lk1" using c by (auto simp: convoff_def Let_def split: if_splits)
  show ?thesis using assms c s s32_range[of "l_len lk1 + (l_start lk1 - 1)"]
    by (auto simp: reclock_check_def Let_def split: if_splits)
qed

section \<open>The states of the system\<close>

definition blank :: "flstate \<Rightarrow> bool" where
  "blank st \<longleftrightarrow> frlock st = None \<and> sleeplcks st = None \<and> (\<forall>i. i_filocks st i = None)"

lemma flckinit_loop_rep:
  "blank st \<Longrightarrow> chain (\<lambda>a. nxt (flckinit_loop n st) a) (frlock (flckinit_loop n st)) (rev [0..<n]) \<and>
     sleeplcks (flckinit_loop n st) = None \<and> (\<forall>i. i_filocks (flckinit_loop n st) i = None)"
proof (induction n)
  case 0
  then show ?case by (simp add: blank_def)
next
  case (Suc n)
  let ?s = "flckinit_loop n st"
  note ih = Suc.IH[OF Suc.prems]
  show ?case
  proof (cases n)
    case 0
    then show ?thesis using ih Suc.prems by (simp add: blank_def upd_def)
  next
    case (Suc m)
    then have h: "frlock ?s = Some m" using ih by simp
    have x: "nxt (flckinit_loop (Suc n) st) a = (if a = n then Some m else nxt ?s a)" for a
      using h Suc by (simp add: Let_def)
    have y: "frlock (flckinit_loop (Suc n) st) = Some n" "sleeplcks (flckinit_loop (Suc n) st) = None"
      "i_filocks (flckinit_loop (Suc n) st) i = None" for i
      using h ih by (simp_all add: Let_def upd_def)
    have "chain (\<lambda>a. nxt (flckinit_loop (Suc n) st) a) (Some m) (rev [0..<n]) = chain (\<lambda>a. nxt ?s a) (Some m) (rev [0..<n])"
      unfolding x by (intro lseg_cong) auto
    then have "chain (\<lambda>a. nxt (flckinit_loop (Suc n) st) a) (Some n) (n # rev [0..<n])" using ih h x[of n] by simp
    then show ?thesis using y by simp
  qed
qed

lemma flckinit_ok: "blank st \<Longrightarrow> fl_ok (flckinit st) (\<lambda>_. []) (rev [0..<nat (recs (flinfo st))])"
  using flckinit_loop_rep[of st "nat (recs (flinfo st))"]
  by (auto simp: fl_ok_def fl_rep_def sleep_ok_def waits_def exclusive_def flckinit_def head_def acyclic_def split: lockhead.splits)

text \<open>What a process can do next; \<open>S\<close> are the sleeping requests, and a process that sleeps makes no call.\<close>

abbreviation sleeping :: "flstate \<Rightarrow> nat list \<Rightarrow> bool" where
  "sleeping st S \<equiv> chain (\<lambda>a. nxt st a) (sleeplcks st) S"

abbreviation may_call :: "owner \<Rightarrow> flstate \<Rightarrow> nat list \<Rightarrow> bool" where
  "may_call me st S \<equiv> pid_ok me \<and> (\<forall>b \<in> set S. owner_of (lck st b) \<noteq> me)"

inductive fl_step :: "flstate \<Rightarrow> flstate \<Rightarrow> bool" where
  turn_done: "sleeping st S \<Longrightarrow> may_call me st S \<Longrightarrow> reclock_check i_size lk0 cmd flag off = Inr lk \<Longrightarrow>
    reclock_turn me server i cmd lk st = Some (Done e lk' st') \<Longrightarrow> fl_step st st'"
| turn_sleep: "sleeping st S \<Longrightarrow> may_call me st S \<Longrightarrow> reclock_check i_size lk0 cmd flag off = Inr lk \<Longrightarrow>
    reclock_turn me server i cmd lk st = Some (Asleep found sf lk' st') \<Longrightarrow> fl_step st st'"
| wake: "sleeping st S \<Longrightarrow> sf \<in> set S \<Longrightarrow> fl_step st (reclock_woken sf st)"
| clean: "cleanlocks me ign i st = Some st' \<Longrightarrow> fl_step st st'"

inductive fl_reach :: "flstate \<Rightarrow> bool" where
  init: "blank st \<Longrightarrow> fl_reach (flckinit st)"
| step: "fl_reach st \<Longrightarrow> fl_step st st' \<Longrightarrow> fl_reach st'"

lemma dseg_chain: "dseg fx pr xs p q \<Longrightarrow> lseg (\<lambda>a. fnext (fx a)) p xs q"
  by (induction xs arbitrary: pr p) auto

lemma fl_ok_sleeping: "fl_ok st L F \<Longrightarrow> sleeping st S \<longleftrightarrow> S = L Sleep"
  using dseg_chain[OF fl_repD(1)[OF fl_okD(1), of st L F Sleep]] chain_unique[of "\<lambda>a. nxt st a" "sleeplcks st" S "L Sleep"]
  by (auto simp: head_def)

lemma fl_step_ok:
  assumes "fl_ok st L F" "fl_step st st'"
  shows "\<exists>L' F'. fl_ok st' L' F'"
  using assms(2)
proof (cases rule: fl_step.cases)
  case (turn_done S me i_size lk0 cmd flag off lk server i e lk')
  then have "\<forall>b \<in> set (L Sleep). owner_of (lck st b) \<noteq> me" "pid_ok me" using fl_ok_sleeping[OF assms(1)] by auto
  with turn_ok[OF assms(1) _ _ _ this(2,1), of lk server i cmd] reclock_checkD[OF turn_done(3)] turn_done(4)
  show ?thesis by auto
next
  case (turn_sleep S me i_size lk0 cmd flag off lk server i found sf lk')
  then have "\<forall>b \<in> set (L Sleep). owner_of (lck st b) \<noteq> me" "pid_ok me" using fl_ok_sleeping[OF assms(1)] by auto
  with turn_ok[OF assms(1) _ _ _ this(2,1), of lk server i cmd] reclock_checkD[OF turn_sleep(3)] turn_sleep(4)
  show ?thesis by auto
next
  case (wake S sf)
  then obtain as bs where "L Sleep = as @ sf # bs" using fl_ok_sleeping[OF assms(1)] split_list by metis
  from woken_ok[OF assms(1) this] show ?thesis using wake by blast
next
  case (clean me ign i)
  then show ?thesis using cleanlocks_ok[OF assms(1), of me ign i] by auto
qed

lemma fl_reach_ok: "fl_reach st \<Longrightarrow> \<exists>L F. fl_ok st L F"
  by (induction rule: fl_reach.induct) (use flckinit_ok fl_step_ok in blast)+

section \<open>A small table\<close>

text \<open>Three records; process 1 locks bytes 0 to 9 of inode 0 for writing, process 2 waits for byte 5.\<close>

definition lock_table :: "int \<Rightarrow> flstate" where
  "lock_table n =
     \<lparr>flox = \<lambda>_. \<lparr>fset = \<lparr>l_type = 0, l_whence = 0, l_start = 0, l_len = 0, l_pid = 0, l_sysid = 0\<rparr>, stat = 0, fprev = None, fnext = None\<rparr>,
      frlock = None, sleeplcks = None, i_filocks = \<lambda>_. None, flinfo = \<lparr>recs = n, reccnt = 0, recovf = 0, rectot = 0\<rparr>, woken = []\<rparr>"

definition request :: "int \<Rightarrow> int \<Rightarrow> int \<Rightarrow> flock" where
  "request t s e = \<lparr>l_type = t, l_whence = 0, l_start = s, l_len = e, l_pid = 0, l_sysid = 0\<rparr>"

definition afterwards :: "turn option \<Rightarrow> flstate" where
  "afterwards t = (case t of Some (Done e lk st) \<Rightarrow> st | Some (Asleep f s lk st) \<Rightarrow> st | None \<Rightarrow> lock_table 0)"

definition first_turn :: "turn option" where
  "first_turn = reclock_turn (1, 0) False 0 6 (request F_WRLCK 0 9) (flckinit (lock_table 3))"

definition second_turn :: "turn option" where
  "second_turn = reclock_turn (2, 0) False 0 6 (request F_WRLCK 5 5) (afterwards first_turn)"

lemma turn_caseD:
  "(case t of Some (Done e lk st) \<Rightarrow> P e lk st | _ \<Rightarrow> False) \<Longrightarrow> \<exists>e lk st. t = Some (Done e lk st) \<and> P e lk st"
  "(case t of Some (Asleep f sf lk st) \<Rightarrow> Q f sf lk st | _ \<Rightarrow> False) \<Longrightarrow> \<exists>f sf lk st. t = Some (Asleep f sf lk st) \<and> Q f sf lk st"
  by (cases t; simp split: turn.splits)+

lemma first_turn_ends: "\<exists>lk st. first_turn = Some (Done None lk st) \<and> sleeplcks st = None"
proof -
  have "case first_turn of Some (Done e lk st) \<Rightarrow> e = None \<and> sleeplcks st = None | _ \<Rightarrow> False" by code_simp
  from turn_caseD(1)[OF this] show ?thesis by blast
qed

lemma second_turn_sleeps: "\<exists>f sf lk st. second_turn = Some (Asleep f sf lk st) \<and> sleeplcks st \<noteq> None \<and> i_filocks st 0 \<noteq> None"
proof -
  have "case second_turn of Some (Asleep f sf lk st) \<Rightarrow> sleeplcks st \<noteq> None \<and> i_filocks st 0 \<noteq> None | _ \<Rightarrow> False" by code_simp
  from turn_caseD(2)[OF this] show ?thesis by blast
qed

lemma reach_second_turn: "fl_reach (afterwards second_turn)"
proof -
  have "blank (lock_table 3)" by (simp add: blank_def lock_table_def)
  then have r0: "fl_reach (flckinit (lock_table 3))" by (rule init)
  have s0: "sleeplcks (flckinit (lock_table 3)) = None" by code_simp
  have c1: "reclock_check 0 (request F_WRLCK 0 10) 6 2 0 = Inr (request F_WRLCK 0 9)"
    by (simp add: reclock_check_def request_def convoff_def)
  have c2: "reclock_check 0 (request F_WRLCK 5 1) 6 2 0 = Inr (request F_WRLCK 5 5)"
    by (simp add: reclock_check_def request_def convoff_def)
  obtain lk st where t1: "first_turn = Some (Done None lk st)" "sleeplcks st = None" using first_turn_ends by blast
  have a1: "afterwards first_turn = st" unfolding afterwards_def t1(1) option.case turn.case ..
  have "fl_step (flckinit (lock_table 3)) st"
    by (rule turn_done[OF _ _ c1 t1(1)[unfolded first_turn_def], of "[]"]) (use s0 in \<open>auto simp: pid_ok_def\<close>)
  then have r1: "fl_reach st" by (rule step[OF r0])
  obtain f sf lk' st' where t2: "second_turn = Some (Asleep f sf lk' st')" using second_turn_sleeps by blast
  have "fl_step st st'"
    by (rule turn_sleep[OF _ _ c2 t2[unfolded second_turn_def a1], of "[]"]) (use t1 in \<open>auto simp: pid_ok_def\<close>)
  then have "fl_reach st'" by (rule step[OF r1])
  then show ?thesis unfolding afterwards_def t2 option.case turn.case .
qed

lemma after_second_turn: "sleeplcks (afterwards second_turn) \<noteq> None" "i_filocks (afterwards second_turn) 0 \<noteq> None"
proof -
  obtain f sf lk st where t: "second_turn = Some (Asleep f sf lk st)" "sleeplcks st \<noteq> None" "i_filocks st 0 \<noteq> None"
    using second_turn_sleeps by blast
  show "sleeplcks (afterwards second_turn) \<noteq> None" "i_filocks (afterwards second_turn) 0 \<noteq> None"
    unfolding afterwards_def t(1) option.case turn.case by (rule t(2), rule t(3))
qed

section \<open>The properties\<close>

text \<open>C34: a lock request that gets a record gives the bytes it names, and only those, the type it names (none, for an unlock);
  every other byte of the caller and all bytes of the other processes keep theirs, and the list of the inode stays ordered with disjoint
  locks of each process. When records run out the call ends with \<^verbatim>\<open>ENOLCK\<close>, and the caller holds no byte it did not hold.\<close>

theorem request_bytes:
  assumes "fl_rep st L F" "wf_locks (lck st) (L lh)" "request_ok ld" "start_at me (lck st) (L lh) i ld"
  shows "\<exists>e ld' st'. flckadj me lh i ld st = Some (e, ld', st') \<and>
    (e = None \<and> (\<exists>xs. adjusted me lh st L (l_start ld) (l_end ld) (l_type ld) xs st') \<or>
     e = Some ENOLCK \<and> adj_err me lh st L st')"
  using assms by (rule flckadj_sets)

lemma request_bytes_witness:
  "\<exists>e ld' st'. flckadj (1, 0) (Inode 0) None (request F_WRLCK 3 5) (flckinit (lock_table 3)) = Some (e, ld', st') \<and>
    (e = None \<and> (\<exists>xs. adjusted (1, 0) (Inode 0) (flckinit (lock_table 3)) (\<lambda>_. []) 3 5 F_WRLCK xs st') \<or>
     e = Some ENOLCK \<and> adj_err (1, 0) (Inode 0) (flckinit (lock_table 3)) (\<lambda>_. []) st')"
proof -
  have "blank (lock_table 3)" by (simp add: blank_def lock_table_def)
  from fl_okD(1)[OF flckinit_ok[OF this]]
  have r: "fl_rep (flckinit (lock_table 3)) (\<lambda>_. []) (rev [0..<nat (recs (flinfo (lock_table 3)))])" .
  have q: "request_ok (request F_WRLCK 3 5)" by (simp add: request_ok_def request_def)
  have s: "start_at (1, 0) (lck (flckinit (lock_table 3))) [] None (request F_WRLCK 3 5)"
    by (simp add: start_at_def)
  show ?thesis
    using request_bytes[OF r _ q, of "(1, 0)" None "Inode 0"] s by (simp add: request_def)
qed

text \<open>C33: in every state the system calls, wakeups and closes can reach from the initial table, in any order, the locks of an inode form
  a chain ordered by their start, the locks of one process do not overlap, and when two processes hold locks on the same byte both are
  read locks.\<close>

theorem locks_compatible:
  assumes "fl_reach st"
  shows "\<exists>xs. chain (\<lambda>a. nxt st a) (i_filocks st i) xs \<and> wf_locks (lck st) xs \<and> exclusive (lck st) (set xs)"
proof -
  obtain L F where o: "fl_ok st L F" using fl_reach_ok[OF assms] by blast
  then show ?thesis
    using dseg_chain[OF fl_repD(1)[OF fl_okD(1)[OF o], of "Inode i"]] fl_okD(4,5)[OF o, of i]
    by (intro exI[of _ "L (Inode i)"]) (simp add: head_def)
qed

lemma locks_compatible_witness:
  "\<exists>st xs. fl_reach st \<and> i_filocks st 0 \<noteq> None \<and> chain (\<lambda>a. nxt st a) (i_filocks st 0) xs \<and> wf_locks (lck st) xs \<and> exclusive (lck st) (set xs)"
  using locks_compatible[OF reach_second_turn, of 0] reach_second_turn after_second_turn(2) by blast



section \<open>Running out of records\<close>

text \<open>With a single record in the table, a read lock on the end of a write lock fails with \<^verbatim>\<open>ENOLCK\<close> after the
  write lock was cut: the caller has lost bytes 3 to 9.\<close>

definition short_table :: flstate where
  "short_table = afterwards (reclock_turn (1, 0) False 0 6 (request F_WRLCK 0 9) (flckinit (lock_table 1)))"

lemma enolck_loses_bytes:
  "case reclock_turn (1, 0) False 0 6 (request F_RDLCK 3 9) short_table of
     Some (Done e lk st) \<Rightarrow> e = Some ENOLCK \<and> i_filocks st 0 = Some 0 \<and> nxt st 0 = None \<and> l_end (lck st 0) = 2
   | _ \<Rightarrow> False"
  by code_simp

end
