(* ===== verification/S5alloc.thy ===== *)
theory S5alloc
  imports Prelude
begin

text \<open>
  The free blocks of a System V file system, \<^verbatim>\<open>fs/s5/s5alloc.c\<close> compiled with \<^verbatim>\<open>FSMK\<close>. The super block caches up to
  \<^verbatim>\<open>NICFREE\<close> block numbers; entry 0 of a full list names a block that holds the next list, so the free blocks form a
  stack. A disk is a map from the address \<^verbatim>\<open>getblk\<close> takes to the words of the buffer; the buffer cache is transparent,
  and each operation runs under the lock \<^verbatim>\<open>s_flock\<close>, so it is one step. \<open>rd a\<close> is the error that reading address \<open>a\<close> gives.
\<close>

section \<open>The super block\<close>

type_synonym words = "int list"

record filsys =
  s_isize :: int
  s_fsize :: int
  s_nfree :: int
  s_free :: "int list"
  s_ninode :: int
  s_inode :: "int list"
  s_fmod :: bool
  s_tfree :: int
  s_tinode :: int

record s5 =
  filsys :: filsys
  blocks :: "int \<Rightarrow> words"
  u_error :: "errno option"

abbreviation NICFREE :: nat where "NICFREE \<equiv> 50"

definition upd_fs :: "(filsys \<Rightarrow> filsys) \<Rightarrow> s5 \<Rightarrow> s5" where
  "upd_fs f st = st\<lparr>filsys := f (filsys st)\<rparr>"

definition set_block :: "int \<Rightarrow> words \<Rightarrow> s5 \<Rightarrow> s5" where
  "set_block a w st = st\<lparr>blocks := (blocks st)(a := w)\<rparr>"

definition FsBSIZE :: "int \<Rightarrow> int" where
  "FsBSIZE bsize = (if bsize < 1024 then bsize else 1024)"

text \<open>The words of a cleared buffer.\<close>

definition zeros :: "int \<Rightarrow> words" where
  "zeros bsize = replicate (nat (FsBSIZE bsize div 4)) 0"

definition bread :: "(int \<Rightarrow> errno option) \<Rightarrow> int \<Rightarrow> s5 \<Rightarrow> words \<times> s5" where
  "bread rd a st = (blocks st a, case rd a of None \<Rightarrow> st | Some e \<Rightarrow> st\<lparr>u_error := Some e\<rparr>)"

text \<open>The address of a list block.\<close>

definition fblk_addr :: "int \<Rightarrow> int \<Rightarrow> int" where
  "fblk_addr bsize bno = (if bsize > 1024 then bno * (bsize div 1024) else bno)"

section \<open>Operations\<close>

definition s5badblock :: "filsys \<Rightarrow> int \<Rightarrow> bool" where
  "s5badblock fp bn \<longleftrightarrow> bn < s_isize fp \<or> bn \<ge> s_fsize fp"

text \<open>The first loop of \<^verbatim>\<open>s5alloc\<close>: the block and the count left, \<open>None\<close> for \<^verbatim>\<open>nospace\<close>.\<close>

primrec alloc_pop :: "filsys \<Rightarrow> nat \<Rightarrow> (int \<times> nat) option" where
  "alloc_pop fp 0 = None"
| "alloc_pop fp (Suc n) =
     (let bno = s_free fp ! n
      in if bno = 0 then None
         else if s5badblock fp bno then alloc_pop fp n
         else Some (bno, n))"

definition nospace :: "s5 \<Rightarrow> s5" where
  "nospace st = (upd_fs (\<lambda>fp. fp\<lparr>s_nfree := 0, s_tfree := 0\<rparr>) st)\<lparr>u_error := Some ENOSPC\<rparr>"

text \<open>The next list is read when the cached one is used up.\<close>

definition alloc_refill :: "(int \<Rightarrow> errno option) \<Rightarrow> int \<Rightarrow> int \<Rightarrow> s5 \<Rightarrow> s5" where
  "alloc_refill rd bsize bno st =
     (if s_nfree (filsys st) \<le> 0 then
        (case bread rd (fblk_addr bsize bno) st of (b, st) \<Rightarrow>
           if u_error st = None then upd_fs (\<lambda>fp. fp\<lparr>s_nfree := s16 (b ! 0), s_free := take NICFREE (tl b)\<rparr>) st else st)
      else st)"

text \<open>The address of the cleared buffer, \<open>None\<close> for no space. A count beyond the array makes the C code read past it;
  the model then has no answer.\<close>

definition s5alloc :: "(int \<Rightarrow> errno option) \<Rightarrow> int \<Rightarrow> s5 \<Rightarrow> (int option \<times> s5) option" where
  "s5alloc rd bsize st =
     (if s_nfree (filsys st) > int NICFREE then None
      else case alloc_pop (filsys st) (nat (s_nfree (filsys st))) of
        None \<Rightarrow> Some (None, nospace st)
      | Some (bno, n) \<Rightarrow>
          let st = alloc_refill rd bsize bno (upd_fs (\<lambda>fp. fp\<lparr>s_nfree := int n\<rparr>) st)
          in if s_nfree (filsys st) \<le> 0 \<or> s_nfree (filsys st) > int NICFREE then Some (None, nospace st)
             else
               let a = bno * (bsize div 1024);
                   st = set_block a (zeros bsize) st
               in Some (Some a, upd_fs (\<lambda>fp. fp\<lparr>s_tfree := (if s_tfree fp \<noteq> 0 then s32 (s_tfree fp - 1) else 0), s_fmod := True\<rparr>) st))"

definition s5free :: "int \<Rightarrow> int \<Rightarrow> s5 \<Rightarrow> s5" where
  "s5free bsize bno st =
     (let st = upd_fs (\<lambda>fp. fp\<lparr>s_fmod := True\<rparr>) st
      in if s5badblock (filsys st) bno then st
         else
           let st = (if s_nfree (filsys st) \<le> 0 then upd_fs (\<lambda>fp. fp\<lparr>s_nfree := 1, s_free := (s_free fp)[0 := 0]\<rparr>) st else st);
               st = (if s_nfree (filsys st) \<ge> int NICFREE then
                       let a = fblk_addr bsize bno;
                           st = set_block a (s_nfree (filsys st) # s_free (filsys st) @ drop (Suc NICFREE) (blocks st a)) st
                       in upd_fs (\<lambda>fp. fp\<lparr>s_nfree := 0\<rparr>) st
                     else st)
           in upd_fs (\<lambda>fp. fp\<lparr>s_free := (s_free fp)[nat (s_nfree fp) := bno], s_nfree := s_nfree fp + 1,
                        s_tfree := s32 (s_tfree fp + 1)\<rparr>) st)"

section \<open>The stack of free blocks\<close>

lemma upd_fs_simps [simp]:
  "filsys (upd_fs f st) = f (filsys st)" "blocks (upd_fs f st) = blocks st" "u_error (upd_fs f st) = u_error st"
  by (simp_all add: upd_fs_def)

lemma set_block_simps [simp]:
  "filsys (set_block a w st) = filsys st" "blocks (set_block a w st) b = (if b = a then w else blocks st b)"
  "u_error (set_block a w st) = u_error st"
  by (simp_all add: set_block_def)

text \<open>\<open>k\<close> buffers make one block of the file system. The list with \<open>n\<close> entries holds the blocks \<open>xs\<close>, next one first.\<close>

primrec free_list :: "int \<Rightarrow> (int \<Rightarrow> words) \<Rightarrow> int \<Rightarrow> int list \<Rightarrow> int list \<Rightarrow> bool" where
  "free_list k bl n fr [] \<longleftrightarrow> n \<le> 0 \<or> n = 1 \<and> fr ! 0 = 0"
| "free_list k bl n fr (x # xs) \<longleftrightarrow> 1 \<le> n \<and> n \<le> int NICFREE \<and> fr ! nat (n - 1) = x \<and> x \<noteq> 0 \<and>
     (if 2 \<le> n then free_list k bl (n - 1) fr xs
      else 1 \<le> bl (x * k) ! 0 \<and> bl (x * k) ! 0 \<le> int NICFREE \<and> Suc NICFREE \<le> length (bl (x * k)) \<and>
           free_list k bl (bl (x * k) ! 0) (take NICFREE (tl (bl (x * k)))) xs)"

definition in_range :: "filsys \<Rightarrow> int \<Rightarrow> bool" where
  "in_range fp x \<longleftrightarrow> 0 < x \<and> \<not> s5badblock fp x"

text \<open>The blocks \<open>xs\<close> are free, in the order \<^verbatim>\<open>s5alloc\<close> hands them out.\<close>

definition free_rep :: "int \<Rightarrow> s5 \<Rightarrow> int list \<Rightarrow> bool" where
  "free_rep k st xs \<longleftrightarrow> free_list k (blocks st) (s_nfree (filsys st)) (s_free (filsys st)) xs \<and>
     length (s_free (filsys st)) = NICFREE \<and> s_nfree (filsys st) \<le> int NICFREE \<and>
     distinct xs \<and> (\<forall>x \<in> set xs. in_range (filsys st) x)"

lemma free_list_cong:
  "(\<And>x. x \<in> set xs \<Longrightarrow> bl' (x * k) = bl (x * k)) \<Longrightarrow> (\<And>i. i < nat n \<Longrightarrow> fr' ! i = fr ! i) \<Longrightarrow>
     free_list k bl' n fr' xs = free_list k bl n fr xs"
proof (induction xs arbitrary: n fr fr')
  case (Cons x xs)
  show ?case
  proof (cases "2 \<le> n")
    case True
    have "free_list k bl' (n - 1) fr' xs = free_list k bl (n - 1) fr xs"
      using Cons.prems True by (intro Cons.IH) auto
    then show ?thesis using True Cons.prems(2)[of "nat (n - 1)"] by auto
  next
    case False
    then show ?thesis using Cons.prems(2)[of "nat (n - 1)"] Cons.prems(1) Cons.IH[of "bl (x * k) ! 0" "take NICFREE (tl (bl (x * k)))" "take NICFREE (tl (bl (x * k)))"]
      by (cases "1 \<le> n") auto
  qed
qed auto

text \<open>A list block is not changed while its list is in use.\<close>

lemma free_list_upd: "y \<notin> set xs \<Longrightarrow> 1 \<le> k \<Longrightarrow> free_list k (bl(y * k := w)) n fr xs = free_list k bl n fr xs"
  by (rule free_list_cong) auto

text \<open>The super block fields that say what a block number is.\<close>

definition same_shape :: "s5 \<Rightarrow> s5 \<Rightarrow> bool" where
  "same_shape st st' \<longleftrightarrow> s_isize (filsys st') = s_isize (filsys st) \<and> s_fsize (filsys st') = s_fsize (filsys st)"

lemma same_shape_range: "same_shape st st' \<Longrightarrow> in_range (filsys st') x = in_range (filsys st) x"
  by (simp add: same_shape_def in_range_def s5badblock_def)

lemma same_shape_refl [simp]: "same_shape st st"
  and same_shape_trans: "same_shape st st' \<Longrightarrow> same_shape st' st'' \<Longrightarrow> same_shape st st''"
  by (simp_all add: same_shape_def)

lemma alloc_empty:
  assumes "free_rep k st []"
  shows "s5alloc rd bsize st = Some (None, nospace st) \<and> free_rep k (nospace st) []"
proof -
  have "alloc_pop (filsys st) (nat (s_nfree (filsys st))) = None"
  proof (cases "s_nfree (filsys st) \<le> 0")
    case False
    then have "s_nfree (filsys st) = 1" "s_free (filsys st) ! 0 = 0" using assms by (auto simp: free_rep_def)
    then show ?thesis by (simp add: Let_def)
  qed simp
  then show ?thesis using assms by (simp add: s5alloc_def free_rep_def nospace_def)
qed

lemma alloc_top:
  assumes r: "free_rep k st (x # xs)" and k: "bsize = 1024 * k" "1 \<le> k" and rd: "rd (x * k) = None" "u_error st = None"
  shows "\<exists>st'. s5alloc rd bsize st = Some (Some (x * k), st') \<and> free_rep k st' xs \<and>
    blocks st' = (blocks st)(x * k := zeros bsize) \<and> u_error st' = None \<and> same_shape st st'"
proof -
  let ?n = "s_nfree (filsys st)" and ?fp = "filsys st"
  have n: "1 \<le> ?n" "?n \<le> int NICFREE" "s_free ?fp ! nat (?n - 1) = x" "x \<noteq> 0" "in_range ?fp x" "x \<notin> set xs" "distinct xs"
    and rg: "\<forall>y \<in> set xs. in_range ?fp y" and len: "length (s_free ?fp) = NICFREE"
    using r by (auto simp: free_rep_def)
  have sn: "nat ?n = Suc (nat (?n - 1))" using n(1) by simp
  have pop: "alloc_pop ?fp (nat ?n) = Some (x, nat (?n - 1))"
    unfolding sn alloc_pop.simps using n by (simp add: Let_def in_range_def)
  have kk: "bsize div 1024 = k" "fblk_addr bsize x = x * k" using k by (simp_all add: fblk_addr_def)
  show ?thesis
  proof (cases "2 \<le> ?n")
    case True
    let ?st = "upd_fs (\<lambda>fp. fp\<lparr>s_tfree := (if s_tfree fp \<noteq> 0 then s32 (s_tfree fp - 1) else 0), s_fmod := True\<rparr>)
        (set_block (x * k) (zeros bsize) (upd_fs (\<lambda>fp. fp\<lparr>s_nfree := ?n - 1\<rparr>) st))"
    have "s5alloc rd bsize st = Some (Some (x * k), ?st)"
      using pop n True by (simp add: s5alloc_def alloc_refill_def kk Let_def)
    moreover have "free_rep k ?st xs"
      using r True n(2) rg free_list_upd[OF n(6) k(2)]
      by (auto simp: free_rep_def in_range_def s5badblock_def set_block_def fun_upd_def)
    ultimately show ?thesis using rd(2) by (intro exI[of _ ?st]) (auto simp: same_shape_def fun_eq_iff)
  next
    case False
    then have n1: "?n = 1" using n by simp
    let ?b = "blocks st (x * k)"
    have b: "1 \<le> ?b ! 0" "?b ! 0 \<le> int NICFREE" "Suc NICFREE \<le> length ?b" "free_list k (blocks st) (?b ! 0) (take NICFREE (tl ?b)) xs"
      using r n1 by (auto simp: free_rep_def)
    have s16: "s16 (?b ! 0) = ?b ! 0" using b by simp
    let ?fp' = "?fp\<lparr>s_nfree := ?b ! 0, s_free := take NICFREE (tl ?b)\<rparr>"
    let ?st = "upd_fs (\<lambda>fp. fp\<lparr>s_tfree := (if s_tfree fp \<noteq> 0 then s32 (s_tfree fp - 1) else 0), s_fmod := True\<rparr>)
        (set_block (x * k) (zeros bsize) (upd_fs (\<lambda>fp. fp\<lparr>s_nfree := ?b ! 0, s_free := take NICFREE (tl ?b)\<rparr>) (upd_fs (\<lambda>fp. fp\<lparr>s_nfree := 0\<rparr>) st)))"
    have "s5alloc rd bsize st = Some (Some (x * k), ?st)"
      using pop n1 b rd s16 by (simp add: s5alloc_def alloc_refill_def kk bread_def Let_def)
    moreover have "free_rep k ?st xs"
      using b n(7) rg free_list_upd[OF n(6) k(2)]
      by (auto simp: free_rep_def in_range_def s5badblock_def set_block_def fun_upd_def)
    ultimately show ?thesis using rd(2) by (intro exI[of _ ?st]) (auto simp: same_shape_def fun_eq_iff)
  qed
qed

lemma free_push:
  assumes r: "free_rep k st xs" and k: "bsize = 1024 * k" "1 \<le> k" and x: "in_range (filsys st) x" "x \<notin> set xs"
  shows "free_rep k (s5free bsize x st) (x # xs) \<and> (\<forall>a. a \<noteq> x * k \<longrightarrow> blocks (s5free bsize x st) a = blocks st a) \<and>
    u_error (s5free bsize x st) = u_error st \<and> same_shape st (s5free bsize x st)"
proof -
  let ?n = "s_nfree (filsys st)" and ?fp = "filsys st"
  have f: "free_list k (blocks st) ?n (s_free ?fp) xs" "length (s_free ?fp) = NICFREE" "?n \<le> int NICFREE" "distinct xs"
    "\<forall>y \<in> set xs. in_range ?fp y" using r by (auto simp: free_rep_def)
  have x0: "x \<noteq> 0" "\<not> s5badblock ?fp x" using x(1) by (auto simp: in_range_def)
  have kk: "fblk_addr bsize x = x * k" using k by (simp add: fblk_addr_def)
  have bb: "s5badblock (?fp\<lparr>s_fmod := True\<rparr>) x = s5badblock ?fp x" by (simp add: s5badblock_def)
  consider (none) "?n \<le> 0" | (some) "1 \<le> ?n" "?n < int NICFREE" | (full) "?n = int NICFREE" using f(3) by linarith
  then show ?thesis
  proof cases
    case none
    then have "xs = []" using f(1) by (cases xs) auto
    then show ?thesis using none x x0 f
      by (auto simp: s5free_def Let_def bb free_rep_def in_range_def s5badblock_def same_shape_def)
  next
    case some
    have "free_list k (blocks st) ?n ((s_free ?fp)[nat ?n := x]) xs"
      using f(1) free_list_cong[of xs "blocks st" k "blocks st" ?n "(s_free ?fp)[nat ?n := x]" "s_free ?fp"] by simp
    then show ?thesis using some x x0 f
      by (auto simp: s5free_def Let_def bb free_rep_def in_range_def s5badblock_def same_shape_def)
  next
    case full
    let ?w = "?n # s_free ?fp @ drop (Suc NICFREE) (blocks st (x * k))"
    have "free_list k ((blocks st)(x * k := ?w)) ?n (s_free ?fp) xs" using f(1) free_list_upd[OF x(2) k(2)] by simp
    moreover have "take NICFREE (tl ?w) = s_free ?fp" using f(2) by simp
    moreover have "Suc NICFREE \<le> length ?w" using f(2) by simp
    ultimately show ?thesis using full x x0 f
      by (auto simp: s5free_def Let_def bb kk free_rep_def in_range_def s5badblock_def same_shape_def set_block_def fun_upd_def)
  qed
qed

section \<open>The pool as an interface\<close>

text \<open>What the rest of the file system relies on: a pool of blocks that gives them out and takes them back.\<close>

datatype 'b pool_call = Get | Put 'b

text \<open>A run of calls, with the blocks it gets, on the pool and on a plain stack.\<close>

primrec pool_run :: "('s \<Rightarrow> 'b option \<times> 's) \<Rightarrow> ('b \<Rightarrow> 's \<Rightarrow> 's) \<Rightarrow> 'b pool_call list \<Rightarrow> 's \<Rightarrow> 'b option list \<times> 's" where
  "pool_run get put [] s = ([], s)"
| "pool_run get put (c # cs) s =
     (case c of
        Get \<Rightarrow> (case pool_run get put cs (snd (get s)) of (rs, s') \<Rightarrow> (fst (get s) # rs, s'))
      | Put b \<Rightarrow> pool_run get put cs (put b s))"

primrec stack_run :: "'b pool_call list \<Rightarrow> 'b list \<Rightarrow> 'b option list \<times> 'b list" where
  "stack_run [] xs = ([], xs)"
| "stack_run (c # cs) xs =
     (case c of
        Get \<Rightarrow> (case stack_run cs (tl xs) of (rs, xs') \<Rightarrow> ((if xs = [] then None else Some (hd xs)) # rs, xs'))
      | Put b \<Rightarrow> stack_run cs (b # xs))"

primrec fair :: "('b \<Rightarrow> bool) \<Rightarrow> 'b pool_call list \<Rightarrow> 'b list \<Rightarrow> bool" where
  "fair good [] xs \<longleftrightarrow> True"
| "fair good (c # cs) xs \<longleftrightarrow>
     (case c of Get \<Rightarrow> fair good cs (tl xs) | Put b \<Rightarrow> good b \<and> b \<notin> set xs \<and> fair good cs (b # xs))"

locale block_pool =
  fixes pool :: "'s \<Rightarrow> 'b list \<Rightarrow> bool" and ok :: "'s \<Rightarrow> 'b \<Rightarrow> bool"
    and get :: "'s \<Rightarrow> 'b option \<times> 's" and put :: "'b \<Rightarrow> 's \<Rightarrow> 's"
  assumes get_top: "pool s (x # xs) \<Longrightarrow> fst (get s) = Some x \<and> pool (snd (get s)) xs \<and> (\<forall>y. ok (snd (get s)) y = ok s y)"
    and get_none: "pool s [] \<Longrightarrow> fst (get s) = None \<and> pool (snd (get s)) [] \<and> (\<forall>y. ok (snd (get s)) y = ok s y)"
    and put_top: "pool s xs \<Longrightarrow> ok s x \<Longrightarrow> x \<notin> set xs \<Longrightarrow> pool (put x s) (x # xs) \<and> (\<forall>y. ok (put x s) y = ok s y)"
begin

lemma run_stack:
  "pool s xs \<Longrightarrow> fair (ok s) cs xs \<Longrightarrow>
     fst (pool_run get put cs s) = fst (stack_run cs xs) \<and> pool (snd (pool_run get put cs s)) (snd (stack_run cs xs))"
proof (induction cs arbitrary: s xs)
  case (Cons c cs)
  show ?case
  proof (cases c)
    case Get
    then have f: "fair (ok s) cs (tl xs)" using Cons.prems(2) by simp
    have g: "fst (get s) = (if xs = [] then None else Some (hd xs))" "pool (snd (get s)) (tl xs)" "ok (snd (get s)) = ok s"
      using get_none[of s] get_top[of s "hd xs" "tl xs"] Cons.prems(1) by (cases xs; auto)+
    from Cons.IH[OF g(2)] f g show ?thesis
      by (cases "pool_run get put cs (snd (get s))"; cases "stack_run cs (tl xs)") (auto simp: Get)
  next
    case (Put b)
    then have f: "ok s b" "b \<notin> set xs" "fair (ok s) cs (b # xs)" using Cons.prems(2) by auto
    from put_top[OF Cons.prems(1) f(1,2)] have g: "pool (put b s) (b # xs)" "ok (put b s) = ok s" by auto
    from Cons.IH[OF g(1)] f(3) g(2) show ?thesis by (simp add: Put)
  qed
qed simp

lemma puts:
  "pool s xs \<Longrightarrow> distinct (ys @ xs) \<Longrightarrow> \<forall>y \<in> set ys. ok s y \<Longrightarrow> pool (fold put ys s) (rev ys @ xs)"
proof (induction ys arbitrary: s xs)
  case (Cons y ys)
  then have p: "pool (put y s) (y # xs)" "\<forall>z. ok (put y s) z = ok s z" using put_top[of s xs y] by auto
  then have "pool (fold put ys (put y s)) (rev ys @ y # xs)" using Cons.prems by (intro Cons.IH) auto
  then show ?case by simp
qed simp

end

text \<open>Each call is a system call of its own, so it starts without an error; buffers of a read error are not considered here.\<close>

definition s5get :: "nat \<Rightarrow> s5 \<Rightarrow> int option \<times> s5" where
  "s5get n st =
     (case s5alloc (\<lambda>_. None) (1024 * (1 + int n)) (st\<lparr>u_error := None\<rparr>) of
        Some (r, st') \<Rightarrow> (map_option (\<lambda>a. a div (1 + int n)) r, st') | None \<Rightarrow> (None, st))"

definition s5put :: "nat \<Rightarrow> int \<Rightarrow> s5 \<Rightarrow> s5" where
  "s5put n b st = s5free (1024 * (1 + int n)) b (st\<lparr>u_error := None\<rparr>)"

lemma free_rep_error [simp]: "free_rep k (st\<lparr>u_error := e\<rparr>) xs = free_rep k st xs"
  by (simp add: free_rep_def)

interpretation s5pool: block_pool "\<lambda>st. free_rep (1 + int n) st" "\<lambda>st. in_range (filsys st)" "s5get n" "s5put n" for n
proof
  fix s x xs assume r: "free_rep (1 + int n) s (x # xs)"
  have "free_rep (1 + int n) (s\<lparr>u_error := None\<rparr>) (x # xs)" using r by simp
  from alloc_top[OF this refl, of "\<lambda>_. None"] obtain st' where
    "s5alloc (\<lambda>_. None) (1024 * (1 + int n)) (s\<lparr>u_error := None\<rparr>) = Some (Some (x * (1 + int n)), st')"
    "free_rep (1 + int n) st' xs" "same_shape (s\<lparr>u_error := None\<rparr>) st'" by auto
  then show "fst (s5get n s) = Some x \<and> free_rep (1 + int n) (snd (s5get n s)) xs \<and>
      (\<forall>y. in_range (filsys (snd (s5get n s))) y = in_range (filsys s) y)"
    using same_shape_range by (auto simp: s5get_def)
next
  fix s assume "free_rep (1 + int n) s []"
  then have "free_rep (1 + int n) (s\<lparr>u_error := None\<rparr>) []" by simp
  from alloc_empty[OF this, of "\<lambda>_. None"]
  show "fst (s5get n s) = None \<and> free_rep (1 + int n) (snd (s5get n s)) [] \<and>
      (\<forall>y. in_range (filsys (snd (s5get n s))) y = in_range (filsys s) y)"
    by (auto simp: s5get_def nospace_def in_range_def s5badblock_def)
next
  fix s xs x assume "free_rep (1 + int n) s xs" "in_range (filsys s) x" "x \<notin> set xs"
  then show "free_rep (1 + int n) (s5put n x s) (x # xs) \<and> (\<forall>y. in_range (filsys (s5put n x s)) y = in_range (filsys s) y)"
    using free_push[of "1 + int n" "s\<lparr>u_error := None\<rparr>" xs "1024 * (1 + int n)" x] same_shape_range[of s "s5put n x s"]
    by (auto simp: s5put_def same_shape_def)
qed

text \<open>On a file system with 512-byte blocks the address of every new block is 0.\<close>

lemma alloc_512_address:
  assumes "s5alloc rd 512 st = Some (Some a, st')"
  shows "a = 0"
  using assms by (auto simp: s5alloc_def Let_def split: if_splits option.splits prod.splits)

section \<open>The property\<close>

text \<open>C36: the free list of the super block and the list blocks behind it are a stack of blocks: whatever sequence of
  allocations and releases is made, where a released block is in range and not free, each allocation gives the block released last
  that is still free, and none exactly when no block is free; so no block is in use twice and none is lost.\<close>

theorem free_blocks_stack:
  assumes "free_rep (1 + int n) st xs" "fair (in_range (filsys st)) cs xs"
  shows "fst (pool_run (s5get n) (s5put n) cs st) = fst (stack_run cs xs) \<and>
    free_rep (1 + int n) (snd (pool_run (s5get n) (s5put n) cs st)) (snd (stack_run cs xs))"
  using assms by (rule s5pool.run_stack)

text \<open>A volume of 100 blocks, all in use; 52 of them are released, so that a list block is written and read back.\<close>

definition full_volume :: s5 where
  "full_volume =
     \<lparr>filsys = \<lparr>s_isize = 4, s_fsize = 100, s_nfree = 0, s_free = replicate 50 0, s_ninode = 0, s_inode = replicate 100 0,
        s_fmod = False, s_tfree = 0, s_tinode = 0\<rparr>, blocks = \<lambda>_. replicate 256 7, u_error = None\<rparr>"

lemma full_volume_rep: "free_rep (1 + int n) full_volume []"
  by (simp add: free_rep_def full_volume_def)

lemma free_blocks_stack_witness:
  "fst (pool_run (s5get 1) (s5put 1) (map Put [10..61] @ replicate 4 Get) full_volume) = [Some 61, Some 60, Some 59, Some 58]"
proof -
  have f: "fair (in_range (filsys full_volume)) (map Put [10..61] @ replicate 4 Get) []"
    by (simp add: upto.simps in_range_def s5badblock_def full_volume_def numeral_nat)
  show ?thesis
    using free_blocks_stack[OF full_volume_rep f] by (simp add: upto.simps numeral_nat)
qed

end
