(* ===== verification/S5bmap.thy ===== *)
theory S5bmap
  imports S5alloc
begin

text \<open>
  The blocks of a file, \<^verbatim>\<open>s5bmap\<close> (\<^verbatim>\<open>fs/s5/s5subr.c\<close>) and \<^verbatim>\<open>s5itrunc\<close> (\<^verbatim>\<open>fs/s5/s5iget.c\<close>): ten direct addresses and
  three trees of indirect blocks. Block sizes are powers of two, so shifting by \<^verbatim>\<open>FsBSHIFT\<close> is division by the
  size and masking is the remainder. A block of \<open>k\<close> kilobytes is \<open>k\<close> consecutive buffers.
\<close>

section \<open>Inodes\<close>

datatype ftype = IFREG | IFDIR | IFIFO | IFBLK | IFCHR

text \<open>\<open>i_changed\<close>: the flags \<^verbatim>\<open>IUPD\<close> and \<^verbatim>\<open>ICHG\<close>.\<close>

record inode =
  i_ftype :: ftype
  i_size :: int
  i_changed :: bool
  s5i_addr :: "int list"
  s5i_lastr :: int

abbreviation NADDR :: nat where "NADDR \<equiv> 13"

section \<open>Mapping a file offset to a block\<close>

text \<open>The request: logical block, offset in the buffer and bytes in it, or the error and -1.\<close>

definition bmap_request ::
    "int \<Rightarrow> bool \<Rightarrow> int \<Rightarrow> int \<Rightarrow> int \<Rightarrow> inode \<Rightarrow> (errno option + int \<times> int \<times> int) \<times> inode" where
  "bmap_request m_bsize readflg off cnt limit ip =
     (let bsize = (if i_ftype ip = IFBLK then FsBSIZE m_bsize else m_bsize);
          bn = off div bsize
      in if bn < 0 then (Inl (Some EFBIG), ip)
         else
           let pboff = off mod FsBSIZE bsize;
               sz = FsBSIZE bsize - pboff;
               ip = (if cnt < sz then ip else ip\<lparr>s5i_lastr := bn\<rparr>);
               sz = (if cnt < sz then cnt else sz)
           in if i_ftype ip = IFBLK then (Inr (bn, pboff, sz), ip)
              else if \<not> readflg then
                if i_ftype ip = IFREG \<and> off \<ge> limit * 512 mod 4294967296 then (Inl (Some EFBIG), ip) else (Inr (bn, pboff, sz), ip)
              else
                let rem = (if i_ftype ip = IFIFO then i_size ip else i_size ip - off);
                    rem = (if rem < 0 then 0 else rem);
                    sz = (if rem < sz then rem else sz)
                in if sz = 0 then (Inl None, ip) else (Inr (bn, pboff, sz), ip))"

text \<open>A new block; all its buffers are cleared.\<close>

definition clear_rest :: "int \<Rightarrow> int \<Rightarrow> s5 \<Rightarrow> s5" where
  "clear_rest m_bsize nb st =
     fold (\<lambda>m. set_block (nb * m_bsize div 1024 + 1 + int m) (zeros 1024)) [0..<nat (m_bsize div 1024 - 1)] st"

definition bmap_new :: "(int \<Rightarrow> errno option) \<Rightarrow> int \<Rightarrow> s5 \<Rightarrow> (int option \<times> s5) option" where
  "bmap_new rd m_bsize st =
     (case s5alloc rd m_bsize st of
        None \<Rightarrow> None
      | Some (None, st) \<Rightarrow> Some (None, st)
      | Some (Some a, st) \<Rightarrow>
          let nb = (if m_bsize > 1024 then a div (m_bsize div 1024) else a)
          in Some (Some nb, clear_rest m_bsize nb st))"

text \<open>Through \<open>l\<close> levels of indirect blocks.\<close>

primrec bmap_walk ::
    "(int \<Rightarrow> errno option) \<Rightarrow> int \<Rightarrow> bool \<Rightarrow> nat \<Rightarrow> int \<Rightarrow> int \<Rightarrow> s5 \<Rightarrow> (int option \<times> s5) option" where
  "bmap_walk rd m_bsize readflg 0 bn nb st = Some (Some nb, st)"
| "bmap_walk rd m_bsize readflg (Suc l) bn nb st =
     (let N = m_bsize div 4;
          i = bn div N ^ l mod N;
          a = nb * (m_bsize div 1024) + i div 256;
          w = nat (i mod 256)
      in case bread rd a st of (bap, st) \<Rightarrow>
           if u_error st \<noteq> None then Some (None, st)
           else if bap ! w \<noteq> 0 then bmap_walk rd m_bsize readflg l bn (bap ! w) st
           else if readflg then Some (None, st)
           else case bmap_new rd m_bsize st of
             None \<Rightarrow> None
           | Some (None, st) \<Rightarrow> Some (None, st)
           | Some (Some nb', st) \<Rightarrow> bmap_walk rd m_bsize readflg l bn nb' (set_block a (bap[w := nb']) st))"

text \<open>The levels of indirection, and the number of the block in its tree.\<close>

definition bmap_level :: "int \<Rightarrow> int \<Rightarrow> (nat \<times> int) option" where
  "bmap_level N bn =
     (let n1 = s32 N; n2 = s32 (n1 * N); n3 = s32 (n2 * N)
      in if bn < n1 then Some (1, bn)
         else if bn - n1 < n2 then Some (2, bn - n1)
         else if bn - n1 - n2 < n3 then Some (3, bn - n1 - n2)
         else None)"

text \<open>The address in the inode, with a new block when there is none.\<close>

definition bmap_root ::
    "(int \<Rightarrow> errno option) \<Rightarrow> int \<Rightarrow> bool \<Rightarrow> nat \<Rightarrow> inode \<Rightarrow> s5 \<Rightarrow> (int option \<times> inode \<times> s5) option" where
  "bmap_root rd m_bsize readflg i ip st =
     (if s5i_addr ip ! i \<noteq> 0 then Some (Some (s5i_addr ip ! i), ip, st)
      else if readflg then Some (None, ip, st)
      else case bmap_new rd m_bsize st of
        None \<Rightarrow> None
      | Some (None, st) \<Rightarrow> Some (None, ip, st)
      | Some (Some nb, st) \<Rightarrow> Some (Some nb, ip\<lparr>s5i_addr := (s5i_addr ip)[i := nb], i_changed := True\<rparr>, st))"

text \<open>The block itself.\<close>

definition bmap_block ::
    "(int \<Rightarrow> errno option) \<Rightarrow> int \<Rightarrow> bool \<Rightarrow> int \<Rightarrow> inode \<Rightarrow> s5 \<Rightarrow> (int option \<times> inode \<times> s5) option" where
  "bmap_block rd m_bsize readflg bn ip st =
     (if bn < int NADDR - 3 then bmap_root rd m_bsize readflg (nat bn) ip st
      else case bmap_level (m_bsize div 4) (bn - (int NADDR - 3)) of
        None \<Rightarrow> Some (None, ip, st\<lparr>u_error := Some EFBIG\<rparr>)
      | Some (l, bn) \<Rightarrow>
          (case bmap_root rd m_bsize readflg (NADDR - 4 + l) ip st of
             None \<Rightarrow> None
           | Some (None, ip, st) \<Rightarrow> Some (None, ip, st)
           | Some (Some nb, ip, st) \<Rightarrow> map_option (\<lambda>(r, st). (r, ip, st)) (bmap_walk rd m_bsize readflg l bn nb st)))"

text \<open>\<^verbatim>\<open>s5bmap\<close>: the address of the buffer, with offset and size in it; \<open>None\<close> for -1.\<close>

definition s5bmap ::
    "(int \<Rightarrow> errno option) \<Rightarrow> int \<Rightarrow> bool \<Rightarrow> int \<Rightarrow> int \<Rightarrow> int \<Rightarrow> inode \<Rightarrow> s5 \<Rightarrow>
       ((int \<times> int \<times> int) option \<times> inode \<times> s5) option" where
  "s5bmap rd m_bsize readflg off cnt limit ip st =
     (case bmap_request m_bsize readflg off cnt limit ip of
        (Inl e, ip) \<Rightarrow> Some (None, ip, if e = None then st else st\<lparr>u_error := e\<rparr>)
      | (Inr (bn, pboff, sz), ip) \<Rightarrow>
          if i_ftype ip = IFBLK then Some (Some (bn, pboff, sz), ip, st)
          else map_option (\<lambda>(r, ip, st).
                 (case r of
                    None \<Rightarrow> None
                  | Some nb \<Rightarrow>
                      Some (if m_bsize > 1024 then nb * (m_bsize div 1024) + off div 1024 mod (m_bsize div 1024) else nb, pboff, sz),
                  ip, st))
               (bmap_block rd m_bsize readflg bn ip st))"

section \<open>Freeing the blocks of a file\<close>

text \<open>The loop of \<^verbatim>\<open>s5tloop\<close>, from entry \<open>i\<close> down; \<open>held\<close> is the address of the buffer it holds, \<open>sub\<close> frees what an entry
  names. \<^verbatim>\<open>i & FsNMASK(1024) == FsNMASK(1024)\<close> is \<^verbatim>\<open>i & 1\<close>. The flag says that all entries were seen.\<close>

primrec tloop_scan ::
    "(int \<Rightarrow> errno option) \<Rightarrow> int \<Rightarrow> (int \<Rightarrow> s5 \<Rightarrow> s5) \<Rightarrow> int \<Rightarrow> nat \<Rightarrow> int option \<Rightarrow> s5 \<Rightarrow> bool \<times> s5" where
  "tloop_scan rd m_bsize sub bn 0 held st = (True, st)"
| "tloop_scan rd m_bsize sub bn (Suc i) held st =
     (let held = (if odd i then None else held);
          a = (case held of Some a \<Rightarrow> a | None \<Rightarrow> bn * (m_bsize div 1024) + int i div 256)
      in if held = None \<and> rd a \<noteq> None then (False, st\<lparr>u_error := rd a\<rparr>)
         else
           let nb = blocks st a ! (i mod 256)
           in if nb = 0 then tloop_scan rd m_bsize sub bn i (Some a) st
              else tloop_scan rd m_bsize sub bn i None (sub nb st))"

text \<open>\<^verbatim>\<open>s5tloop\<close> with as many flags set as there are levels below the one of the entries; a read error ends it.\<close>

primrec s5tloop :: "(int \<Rightarrow> errno option) \<Rightarrow> int \<Rightarrow> nat \<Rightarrow> int \<Rightarrow> s5 \<Rightarrow> s5" where
  "s5tloop rd m_bsize 0 bn st =
     (case tloop_scan rd m_bsize (s5free m_bsize) bn (nat (m_bsize div 4)) None st of
        (True, st) \<Rightarrow> s5free m_bsize bn st | (False, st) \<Rightarrow> st)"
| "s5tloop rd m_bsize (Suc l) bn st =
     (case tloop_scan rd m_bsize (s5tloop rd m_bsize l) bn (nat (m_bsize div 4)) None st of
        (True, st) \<Rightarrow> s5free m_bsize bn st | (False, st) \<Rightarrow> st)"

text \<open>What address \<open>i\<close> of the inode holds, from the last down.\<close>

definition itrunc_addr :: "(int \<Rightarrow> errno option) \<Rightarrow> int \<Rightarrow> nat \<Rightarrow> int \<Rightarrow> s5 \<Rightarrow> s5" where
  "itrunc_addr rd m_bsize i bn st =
     (if bn = 0 then st
      else if i < NADDR - 3 then s5free m_bsize bn st
      else s5tloop rd m_bsize (i - (NADDR - 3)) bn st)"

definition s5itrunc :: "(int \<Rightarrow> errno option) \<Rightarrow> int \<Rightarrow> inode \<Rightarrow> s5 \<Rightarrow> inode \<times> s5" where
  "s5itrunc rd m_bsize ip st =
     (if i_ftype ip \<noteq> IFREG \<and> i_ftype ip \<noteq> IFDIR then (ip, st)
      else (ip\<lparr>i_size := 0, s5i_addr := replicate NADDR 0, i_changed := True\<rparr>,
            fold (\<lambda>i. itrunc_addr rd m_bsize i (s5i_addr ip ! i)) (rev [0..<NADDR]) st))"

end
