(* ===== verification/S5tree.thy ===== *)
theory S5tree
  imports S5bmap "HOL-Library.Multiset"
begin

text \<open>
  The trees of indirect blocks that \<^verbatim>\<open>s5bmap\<close> walks through: which blocks belong to one, in the order in which \<^verbatim>\<open>s5tloop\<close>
  frees them, which of them holds a logical block, and what a walk for writing does to all of this.
\<close>

section \<open>The tree of a file\<close>

text \<open>The buffers of block \<open>b\<close>, and entry \<open>i\<close> of the indirect block \<open>nb\<close>.\<close>

definition buf_of :: "int \<Rightarrow> int \<Rightarrow> int \<Rightarrow> bool" where
  "buf_of k b a \<longleftrightarrow> b * k \<le> a \<and> a < b * k + k"

definition word_at :: "int \<Rightarrow> (int \<Rightarrow> words) \<Rightarrow> int \<Rightarrow> int \<Rightarrow> int" where
  "word_at k bl nb i = bl (nb * k + i div 256) ! nat (i mod 256)"

definition fan :: "int \<Rightarrow> int" where
  "fan k = 256 * k"

abbreviation entries :: "int \<Rightarrow> nat" where
  "entries k \<equiv> nat (fan k)"

text \<open>The block for \<open>bn\<close> below \<open>nb\<close> (0 for none), all blocks in the order in which they are freed, and the indirect ones.\<close>

primrec leaf :: "int \<Rightarrow> (int \<Rightarrow> words) \<Rightarrow> nat \<Rightarrow> int \<Rightarrow> int \<Rightarrow> int" where
  "leaf k bl 0 nb bn = nb"
| "leaf k bl (Suc l) nb bn = (if nb = 0 then 0 else leaf k bl l (word_at k bl nb (bn div fan k ^ l mod fan k)) bn)"

primrec tree :: "int \<Rightarrow> (int \<Rightarrow> words) \<Rightarrow> nat \<Rightarrow> int \<Rightarrow> int list" where
  "tree k bl 0 nb = (if nb = 0 then [] else [nb])"
| "tree k bl (Suc l) nb =
     (if nb = 0 then [] else concat (map (\<lambda>i. tree k bl l (word_at k bl nb (int i))) (rev [0..<entries k])) @ [nb])"

primrec inner :: "int \<Rightarrow> (int \<Rightarrow> words) \<Rightarrow> nat \<Rightarrow> int \<Rightarrow> int set" where
  "inner k bl 0 nb = {}"
| "inner k bl (Suc l) nb =
     (if nb = 0 then {} else insert nb (\<Union>i \<in> {0..<entries k}. inner k bl l (word_at k bl nb (int i))))"

lemma buf_of_unique: "1 \<le> k \<Longrightarrow> buf_of k b a \<Longrightarrow> buf_of k b' a \<Longrightarrow> b = b'"
proof -
  have d: "a div k = b" if "1 \<le> k" "buf_of k b a" for b
  proof -
    have "a = (a - b * k) + b * k" "0 \<le> a - b * k" "a - b * k < k" using that(2) by (auto simp: buf_of_def)
    then have "a div k = ((a - b * k) + b * k) div k" "(a - b * k) div k = 0" by simp_all
    then show ?thesis using that(1) div_mult_self1[of k "a - b * k" b] by simp
  qed
  then show "1 \<le> k \<Longrightarrow> buf_of k b a \<Longrightarrow> buf_of k b' a \<Longrightarrow> b = b'" by metis
qed

lemma div_256_range: "0 \<le> i \<Longrightarrow> i < 256 * k \<Longrightarrow> 0 \<le> i div 256 \<and> i div 256 < (k::int)"
proof -
  assume "0 \<le> i" "i < 256 * k"
  moreover have "256 * (i div 256) + i mod 256 = i" "0 \<le> i mod 256" "i mod 256 < 256" by simp_all
  ultimately show ?thesis by linarith
qed

lemma buf_of_word: "0 \<le> i \<Longrightarrow> i < fan k \<Longrightarrow> buf_of k nb (nb * k + i div 256)"
  using div_256_range[of i k] by (simp add: buf_of_def fan_def)

lemma word_at_cong: "(\<And>a. buf_of k nb a \<Longrightarrow> bl' a = bl a) \<Longrightarrow> 0 \<le> i \<Longrightarrow> i < fan k \<Longrightarrow> word_at k bl' nb i = word_at k bl nb i"
  using buf_of_word by (simp add: word_at_def)

lemma inner_tree: "inner k bl l nb \<subseteq> set (tree k bl l nb)"
  by (induction l arbitrary: nb) force+

lemma tree_zero [simp]: "tree k bl l 0 = []" "inner k bl l 0 = {}" "leaf k bl l 0 bn = 0"
  by (cases l; simp)+

lemma digit_range: "1 \<le> k \<Longrightarrow> 0 \<le> bn div fan k ^ l mod fan k \<and> bn div fan k ^ l mod fan k < fan k"
  by (simp add: fan_def)

text \<open>The tree depends on its indirect blocks only.\<close>

lemma tree_cong:
  assumes "\<And>b a. b \<in> inner k bl l nb \<Longrightarrow> buf_of k b a \<Longrightarrow> bl' a = bl a" and k: "1 \<le> k"
  shows "tree k bl' l nb = tree k bl l nb \<and> inner k bl' l nb = inner k bl l nb \<and> (\<forall>bn. leaf k bl' l nb bn = leaf k bl l nb bn)"
  using assms(1)
proof (induction l arbitrary: nb)
  case (Suc l)
  show ?case
  proof (cases "nb = 0")
    case False
    have w: "word_at k bl' nb i = word_at k bl nb i" if "0 \<le> i" "i < fan k" for i
      using that False Suc.prems by (intro word_at_cong) auto
    have c: "tree k bl' l (word_at k bl nb i) = tree k bl l (word_at k bl nb i) \<and>
        inner k bl' l (word_at k bl nb i) = inner k bl l (word_at k bl nb i) \<and>
        (\<forall>bn. leaf k bl' l (word_at k bl nb i) bn = leaf k bl l (word_at k bl nb i) bn)" if "0 \<le> i" "i < fan k" for i
    proof (rule Suc.IH)
      fix b a assume "b \<in> inner k bl l (word_at k bl nb i)" "buf_of k b a"
      moreover from this that False have "b \<in> inner k bl (Suc l) nb" by (auto intro!: bexI[of _ "nat i"])
      ultimately show "bl' a = bl a" using Suc.prems by blast
    qed
    have "concat (map (\<lambda>i. tree k bl' l (word_at k bl' nb (int i))) (rev [0..<entries k])) =
        concat (map (\<lambda>i. tree k bl l (word_at k bl nb (int i))) (rev [0..<entries k]))"
      using w c by (intro arg_cong[of _ _ concat] map_cong) auto
    moreover have "(\<Union>i \<in> {0..<entries k}. inner k bl' l (word_at k bl' nb (int i))) =
        (\<Union>i \<in> {0..<entries k}. inner k bl l (word_at k bl nb (int i)))"
      using w c by (intro SUP_cong) auto
    ultimately show ?thesis using False w c digit_range[OF k] by simp
  qed simp
qed simp

text \<open>Changing one entry of an indirect block.\<close>

lemma mset_concat_change:
  assumes "distinct is" "i \<in> set is" "\<And>j. j \<in> set is \<Longrightarrow> j \<noteq> i \<Longrightarrow> f' j = f j"
  shows "mset (concat (map f' is)) + mset (f i) = mset (concat (map f is)) + mset (f' i)"
  using assms
proof (induction "is")
  case (Cons j js)
  show ?case
  proof (cases "j = i")
    case True
    then have "concat (map f' js) = concat (map f js)" using Cons.prems by (intro arg_cong[of _ _ concat] map_cong) auto
    then show ?thesis using True by simp
  next
    case False
    then show ?thesis using Cons by (auto simp: algebra_simps)
  qed
qed simp

lemma tree_replace:
  assumes nb: "nb \<noteq> 0" and i: "0 \<le> i" "i < fan k" and k: "1 \<le> k"
    and w: "\<forall>j. 0 \<le> j \<longrightarrow> j < fan k \<longrightarrow> j \<noteq> i \<longrightarrow> word_at k bl' nb j = word_at k bl nb j"
    and o: "\<forall>j b a. 0 \<le> j \<longrightarrow> j < fan k \<longrightarrow> j \<noteq> i \<longrightarrow> b \<in> inner k bl l (word_at k bl nb j) \<longrightarrow> buf_of k b a \<longrightarrow> bl' a = bl a"
  shows "mset (tree k bl' (Suc l) nb) + mset (tree k bl l (word_at k bl nb i)) =
      mset (tree k bl (Suc l) nb) + mset (tree k bl' l (word_at k bl' nb i))"
    and "bn div fan k ^ l mod fan k \<noteq> i \<Longrightarrow> leaf k bl' (Suc l) nb bn = leaf k bl (Suc l) nb bn"
    and "bn div fan k ^ l mod fan k = i \<Longrightarrow> leaf k bl' (Suc l) nb bn = leaf k bl' l (word_at k bl' nb i) bn"
proof -
  have c: "tree k bl' l (word_at k bl nb j) = tree k bl l (word_at k bl nb j) \<and>
      (\<forall>bn. leaf k bl' l (word_at k bl nb j) bn = leaf k bl l (word_at k bl nb j) bn)" if "0 \<le> j" "j < fan k" "j \<noteq> i" for j
    using tree_cong[of k bl l "word_at k bl nb j" bl'] o that k by blast
  have "mset (concat (map (\<lambda>i. tree k bl' l (word_at k bl' nb (int i))) (rev [0..<entries k]))) +
      mset (tree k bl l (word_at k bl nb (int (nat i)))) =
    mset (concat (map (\<lambda>i. tree k bl l (word_at k bl nb (int i))) (rev [0..<entries k]))) +
      mset (tree k bl' l (word_at k bl' nb (int (nat i))))"
    using i c w by (intro mset_concat_change) auto
  then show "mset (tree k bl' (Suc l) nb) + mset (tree k bl l (word_at k bl nb i)) =
      mset (tree k bl (Suc l) nb) + mset (tree k bl' l (word_at k bl' nb i))" using nb i by simp
  show "leaf k bl' (Suc l) nb bn = leaf k bl (Suc l) nb bn" if "bn div fan k ^ l mod fan k \<noteq> i"
    using that nb w c digit_range[OF k, of bn l] by simp
  show "leaf k bl' (Suc l) nb bn = leaf k bl' l (word_at k bl' nb i) bn" if "bn div fan k ^ l mod fan k = i"
    using that nb by simp
qed

section \<open>New blocks\<close>

text \<open>Buffers hold 256 words.\<close>

definition disk_ok :: "s5 \<Rightarrow> bool" where
  "disk_ok st \<longleftrightarrow> (\<forall>a. length (blocks st a) = 256)"

definition cleared :: "int \<Rightarrow> (int \<Rightarrow> words) \<Rightarrow> int \<Rightarrow> bool" where
  "cleared k bl b \<longleftrightarrow> (\<forall>a. buf_of k b a \<longrightarrow> bl a = replicate 256 0)"

lemma cleared_tree:
  assumes "cleared k bl x" "x \<noteq> 0" and k: "1 \<le> k"
  shows "tree k bl l x = [x]" "l \<noteq> 0 \<Longrightarrow> leaf k bl l x bn = 0"
proof -
  have w: "word_at k bl x i = 0" if "0 \<le> i" "i < fan k" for i
  proof -
    have "nat (i mod 256) < 256" by (simp add: nat_less_iff)
    then show ?thesis using assms(1) buf_of_word[OF that] by (simp add: word_at_def cleared_def)
  qed
  show "tree k bl l x = [x]"
  proof (cases l)
    case (Suc m)
    have "concat (map (\<lambda>i. tree k bl m (word_at k bl x (int i))) (rev [0..<entries k])) =
        concat (map (\<lambda>i. []) (rev [0..<entries k]))"
      using w by (intro arg_cong[of _ _ concat] map_cong) auto
    then show ?thesis using Suc assms(2) by (simp add: map_replicate_const[symmetric] concat_eq_Nil_conv)
  qed (use assms in simp)
  show "l \<noteq> 0 \<Longrightarrow> leaf k bl l x bn = 0"
  proof (cases l)
    case (Suc m)
    show ?thesis using Suc w digit_range[OF k, of bn m] by simp
  qed simp
qed

lemma free_rep_frame:
  assumes "free_rep k st xs" "filsys st' = filsys st" "\<And>x a. x \<in> set xs \<Longrightarrow> buf_of k x a \<Longrightarrow> blocks st' a = blocks st a" "1 \<le> k"
  shows "free_rep k st' xs"
proof -
  have "free_list k (blocks st') (s_nfree (filsys st)) (s_free (filsys st)) xs = free_list k (blocks st) (s_nfree (filsys st)) (s_free (filsys st)) xs"
    using assms(3,4) by (intro free_list_cong) (auto simp: buf_of_def)
  then show ?thesis using assms(1,2) by (simp add: free_rep_def)
qed

lemma clear_rest_blocks:
  "filsys (clear_rest m nb st) = filsys st" "u_error (clear_rest m nb st) = u_error st"
  "blocks (clear_rest m nb st) a =
     (if \<exists>i < nat (m div 1024 - 1). a = nb * m div 1024 + 1 + int i then zeros 1024 else blocks st a)"
proof -
  have f: "filsys (fold (\<lambda>i. set_block (b + int i) w) is st) = filsys st \<and>
      u_error (fold (\<lambda>i. set_block (b + int i) w) is st) = u_error st \<and>
      blocks (fold (\<lambda>i. set_block (b + int i) w) is st) a = (if \<exists>i \<in> set is. a = b + int i then w else blocks st a)" for "is" b w
    by (induction "is" arbitrary: st) auto
  show "filsys (clear_rest m nb st) = filsys st" "u_error (clear_rest m nb st) = u_error st"
    "blocks (clear_rest m nb st) a =
       (if \<exists>i < nat (m div 1024 - 1). a = nb * m div 1024 + 1 + int i then zeros 1024 else blocks st a)"
    using f[of "nb * m div 1024 + 1" "zeros 1024" "[0..<nat (m div 1024 - 1)]"] by (auto simp: clear_rest_def)
qed

lemma zeros_1024: "1 \<le> k \<Longrightarrow> zeros (1024 * k) = replicate 256 0"
  by (simp add: zeros_def FsBSIZE_def)

lemma bmap_new_none: "free_rep k st [] \<Longrightarrow> bmap_new rd (1024 * k) st = Some (None, nospace st) \<and> free_rep k (nospace st) []"
  using alloc_empty by (simp add: bmap_new_def)

lemma bmap_new_some:
  assumes r: "free_rep k st (x # xs)" and k: "1 \<le> k" and e: "rd (x * k) = None" "u_error st = None" and d: "disk_ok st"
  shows "\<exists>st'. bmap_new rd (1024 * k) st = Some (Some x, st') \<and> free_rep k st' xs \<and> cleared k (blocks st') x \<and>
    (\<forall>a. \<not> buf_of k x a \<longrightarrow> blocks st' a = blocks st a) \<and> u_error st' = None \<and> same_shape st st' \<and> disk_ok st'"
proof -
  obtain st1 where a: "s5alloc rd (1024 * k) st = Some (Some (x * k), st1)" "free_rep k st1 xs"
    "blocks st1 = (blocks st)(x * k := zeros (1024 * k))" "u_error st1 = None" "same_shape st st1"
    using alloc_top[where rd = rd and bsize = "1024 * k", OF r refl k e] by blast
  let ?st = "clear_rest (1024 * k) x st1"
  have nb: "(if 1024 * k > 1024 then x * k div (1024 * k div 1024) else x * k) = x" using k by auto
  have n: "bmap_new rd (1024 * k) st = Some (Some x, ?st)" using a(1) nb by (simp add: bmap_new_def)
  have b: "blocks ?st c = (if \<exists>i < nat (k - 1). c = x * k + 1 + int i then replicate 256 0 else blocks st1 c)" for c
  proof -
    have m: "1024 * k div 1024 - 1 = k - 1" "x * (1024 * k) div 1024 = x * k" "zeros 1024 = replicate 256 0"
      by (simp_all add: zeros_def FsBSIZE_def)
    show ?thesis unfolding clear_rest_blocks(3) m ..
  qed
  have cov: "buf_of k x c \<Longrightarrow> c = x * k \<or> (\<exists>i < nat (k - 1). c = x * k + 1 + int i)" for c
    by (cases "c = x * k") (auto simp: buf_of_def intro!: exI[of _ "nat (c - x * k - 1)"])
  have out: "\<not> buf_of k x c \<Longrightarrow> c \<noteq> x * k \<and> \<not> (\<exists>i < nat (k - 1). c = x * k + 1 + int i)" for c
    using k by (auto simp: buf_of_def)
  have cl: "cleared k (blocks ?st) x"
    unfolding cleared_def b using cov a(3) zeros_1024[OF k] by auto
  have fr: "\<forall>c. \<not> buf_of k x c \<longrightarrow> blocks ?st c = blocks st c"
    unfolding b using out a(3) by auto
  have nx: "x \<notin> set xs" using r by (simp add: free_rep_def)
  have "free_rep k ?st xs"
  proof (rule free_rep_frame[OF a(2)])
    fix y c assume "y \<in> set xs" "buf_of k y c"
    then have "\<not> buf_of k x c" using nx buf_of_unique[OF k] by metis
    then show "blocks ?st c = blocks st1 c" using fr out a(3) by simp
  qed (simp_all add: clear_rest_blocks k)
  moreover have "disk_ok ?st" using d a(3) zeros_1024[OF k] unfolding disk_ok_def b by auto
  ultimately show ?thesis using n cl fr a(4,5) clear_rest_blocks(1,2)[of "1024 * k" x st1]
    by (intro exI[of _ ?st]) (simp add: same_shape_def)
qed

section \<open>Walking the tree\<close>

lemma bsize_k: "1024 * k div 1024 = (k::int)" "1024 * k div 4 = fan k"
  by (simp_all add: fan_def)

lemma walk_read:
  assumes "\<forall>a. rd a = None" "u_error st = None" "nb \<noteq> 0"
  shows "bmap_walk rd (1024 * k) True l bn nb st =
    Some (if leaf k (blocks st) l nb bn = 0 then None else Some (leaf k (blocks st) l nb bn), st)"
  using assms(3)
proof (induction l arbitrary: nb)
  case (Suc l)
  let ?w = "word_at k (blocks st) nb (bn div fan k ^ l mod fan k)"
  have "bmap_walk rd (1024 * k) True (Suc l) bn nb st =
      (if ?w \<noteq> 0 then bmap_walk rd (1024 * k) True l bn ?w st else Some (None, st))"
    using assms(1,2) by (simp add: bread_def bsize_k word_at_def Let_def)
  then show ?case using Suc by simp
qed simp

lemma concat_distinct_disjoint:
  "distinct (concat (map f is)) \<Longrightarrow> distinct is \<Longrightarrow> i \<in> set is \<Longrightarrow> j \<in> set is \<Longrightarrow> i \<noteq> j \<Longrightarrow> set (f i) \<inter> set (f j) = {}"
proof (induction "is")
  case (Cons x xs)
  then show ?case by (cases "i = x"; cases "j = x") auto
qed simp

text \<open>Facts about the entries of an indirect block whose tree has no block twice.\<close>

lemma tree_entry:
  assumes nb: "nb \<noteq> 0" and d: "distinct (tree k bl (Suc l) nb)" and i: "0 \<le> i" "i < fan k"
  shows "set (tree k bl l (word_at k bl nb i)) \<subseteq> set (tree k bl (Suc l) nb)" "distinct (tree k bl l (word_at k bl nb i))"
    "nb \<notin> set (tree k bl l (word_at k bl nb i))" "inner k bl l (word_at k bl nb i) \<subseteq> inner k bl (Suc l) nb"
    "0 \<le> j \<Longrightarrow> j < fan k \<Longrightarrow> j \<noteq> i \<Longrightarrow> set (tree k bl l (word_at k bl nb i)) \<inter> set (tree k bl l (word_at k bl nb j)) = {}"
proof -
  let ?f = "\<lambda>i. tree k bl l (word_at k bl nb (int i))" and ?is = "rev [0..<entries k]"
  have m: "nat i \<in> set ?is" using i by auto
  have dc: "distinct (concat (map ?f ?is))" "nb \<notin> set (concat (map ?f ?is))" using d nb by simp_all
  have sub: "set (?f (nat i)) \<subseteq> set (concat (map ?f ?is))" unfolding set_concat set_map using m by blast
  show "set (tree k bl l (word_at k bl nb i)) \<subseteq> set (tree k bl (Suc l) nb)"
  proof -
    have "set (tree k bl l (word_at k bl nb i)) = set (?f (nat i))" using i by simp
    moreover have "set (concat (map ?f ?is)) \<subseteq> set (tree k bl (Suc l) nb)" using nb by (simp add: subset_insertI)
    ultimately show ?thesis using sub by blast
  qed
  show "nb \<notin> set (tree k bl l (word_at k bl nb i))" using sub dc(2) i by auto
  show "inner k bl l (word_at k bl nb i) \<subseteq> inner k bl (Suc l) nb"
  proof -
    have "inner k bl l (word_at k bl nb (int (nat i))) \<subseteq> (\<Union>i \<in> {0..<entries k}. inner k bl l (word_at k bl nb (int i)))"
      using m by (intro UN_upper) auto
    then show ?thesis using nb i by auto
  qed
  have "\<forall>ys \<in> set (map ?f ?is). distinct ys" using dc(1) by (simp add: distinct_concat_iff)
  moreover have "?f (nat i) \<in> set (map ?f ?is)" unfolding set_map using m by (rule imageI)
  ultimately have "distinct (?f (nat i))" by blast
  then show "distinct (tree k bl l (word_at k bl nb i))" using i by simp
  show "0 \<le> j \<Longrightarrow> j < fan k \<Longrightarrow> j \<noteq> i \<Longrightarrow> set (tree k bl l (word_at k bl nb i)) \<inter> set (tree k bl l (word_at k bl nb j)) = {}"
    using concat_distinct_disjoint[OF dc(1), of "nat i" "nat j"] i by auto
qed

text \<open>What a walk that may allocate does: \<open>new\<close> are the blocks it takes, \<open>xs'\<close> those still free.\<close>

definition walked :: "int \<Rightarrow> nat \<Rightarrow> int \<Rightarrow> int \<Rightarrow> s5 \<Rightarrow> int list \<Rightarrow> int option \<Rightarrow> s5 \<Rightarrow> int list \<Rightarrow> bool" where
  "walked k l nb bn st new r st' xs' \<longleftrightarrow>
     free_rep k st' xs' \<and> disk_ok st' \<and> same_shape st st' \<and>
     mset (tree k (blocks st') l nb) = mset (tree k (blocks st) l nb) + mset new \<and>
     (\<forall>a. (\<forall>b \<in> inner k (blocks st) l nb \<union> set new. \<not> buf_of k b a) \<longrightarrow> blocks st' a = blocks st a) \<and>
     (\<forall>m. m mod fan k ^ l \<noteq> bn mod fan k ^ l \<longrightarrow> leaf k (blocks st') l nb m = leaf k (blocks st) l nb m) \<and>
     (case r of
        Some y \<Rightarrow> y \<noteq> 0 \<and> leaf k (blocks st') l nb bn = y \<and> u_error st' = None \<and>
          (if leaf k (blocks st) l nb bn = 0 then y \<in> set new \<and> cleared k (blocks st') y else y = leaf k (blocks st) l nb bn \<and> new = [])
      | None \<Rightarrow> xs' = [] \<and> u_error st' = Some ENOSPC \<and> leaf k (blocks st) l nb bn = 0 \<and> leaf k (blocks st') l nb bn = 0)"

lemma digit_mod:
  fixes F :: int
  assumes "m mod F ^ Suc l \<noteq> bn mod F ^ Suc l" "m div F ^ l mod F = bn div F ^ l mod F" "0 < F"
  shows "m mod F ^ l \<noteq> bn mod F ^ l"
proof -
  have "x mod F ^ Suc l = F ^ l * (x div F ^ l mod F) + x mod F ^ l" for x
    using zmod_zmult2_eq[of F x "F ^ l"] assms(3) by (simp add: mult.commute)
  then show ?thesis using assms(1,2) by auto
qed

lemma mset_replace: "(A :: 'a multiset) + X = B + D \<Longrightarrow> D = E + N \<Longrightarrow> E = X + P \<Longrightarrow> A = B + (P + N)"
proof -
  assume "A + X = B + D" "D = E + N" "E = X + P"
  then have "A + X = (B + (P + N)) + X" by (simp add: ac_simps)
  then show ?thesis by simp
qed

text \<open>One level up: \<open>st2\<close> is the state in which the walk goes on from entry \<open>i\<close>, now \<open>c\<close>; \<open>pre\<close> was allocated for it.\<close>

lemma walked_up:
  assumes nb: "nb \<noteq> 0" and k: "1 \<le> k" and i: "i = bn div fan k ^ l mod fan k"
    and v: "walked k l c bn st2 new r st' xs'"
    and w2: "word_at k (blocks st2) nb i = c" "\<And>j. 0 \<le> j \<Longrightarrow> j < fan k \<Longrightarrow> j \<noteq> i \<Longrightarrow> word_at k (blocks st2) nb j = word_at k (blocks st) nb j"
    and o2: "\<And>j b a. 0 \<le> j \<Longrightarrow> j < fan k \<Longrightarrow> j \<noteq> i \<Longrightarrow> b \<in> inner k (blocks st) l (word_at k (blocks st) nb j) \<Longrightarrow> buf_of k b a \<Longrightarrow>
      blocks st2 a = blocks st a"
    and t2: "mset (tree k (blocks st2) l c) = mset (tree k (blocks st) l (word_at k (blocks st) nb i)) + mset pre"
    and dn: "nb \<notin> inner k (blocks st2) l c \<union> set new"
    and dj: "\<And>j. 0 \<le> j \<Longrightarrow> j < fan k \<Longrightarrow> j \<noteq> i \<Longrightarrow>
      inner k (blocks st) l (word_at k (blocks st) nb j) \<inter> (inner k (blocks st2) l c \<union> set new) = {}"
    and lf: "\<And>m. m mod fan k ^ l \<noteq> bn mod fan k ^ l \<Longrightarrow> leaf k (blocks st2) l c m = leaf k (blocks st) l (word_at k (blocks st) nb i) m"
  shows "mset (tree k (blocks st') (Suc l) nb) = mset (tree k (blocks st) (Suc l) nb) + mset (pre @ new)"
    and "m mod fan k ^ Suc l \<noteq> bn mod fan k ^ Suc l \<Longrightarrow> leaf k (blocks st') (Suc l) nb m = leaf k (blocks st) (Suc l) nb m"
    and "leaf k (blocks st') (Suc l) nb bn = leaf k (blocks st') l c bn"
    and "buf_of k nb a \<Longrightarrow> blocks st' a = blocks st2 a"
proof -
  have ir: "0 \<le> i" "i < fan k" using digit_range[OF k, of bn l] i by auto
  have fr: "blocks st' a = blocks st2 a" if "\<And>b. b \<in> inner k (blocks st2) l c \<union> set new \<Longrightarrow> \<not> buf_of k b a" for a
    using v that unfolding walked_def by blast
  show nbf: "blocks st' a = blocks st2 a" if "buf_of k nb a" for a
    by (rule fr) (use that dn buf_of_unique[OF k] in blast)
  have wi: "word_at k (blocks st') nb i = c" using word_at_cong[OF nbf] ir w2(1) by simp
  have wj: "word_at k (blocks st') nb j = word_at k (blocks st) nb j" if "0 \<le> j" "j < fan k" "j \<noteq> i" for j
    using word_at_cong[OF nbf that(1,2)] w2(2)[OF that] by simp
  have oj: "blocks st' a = blocks st a"
    if "0 \<le> j" "j < fan k" "j \<noteq> i" "b \<in> inner k (blocks st) l (word_at k (blocks st) nb j)" "buf_of k b a" for j b a
  proof -
    have "blocks st' a = blocks st2 a"
      by (rule fr) (use that dj[OF that(1-3)] buf_of_unique[OF k] in blast)
    then show ?thesis using o2[OF that] by simp
  qed
  have "\<forall>j. 0 \<le> j \<longrightarrow> j < fan k \<longrightarrow> j \<noteq> i \<longrightarrow> word_at k (blocks st') nb j = word_at k (blocks st) nb j"
    and "\<forall>j b a. 0 \<le> j \<longrightarrow> j < fan k \<longrightarrow> j \<noteq> i \<longrightarrow> b \<in> inner k (blocks st) l (word_at k (blocks st) nb j) \<longrightarrow>
      buf_of k b a \<longrightarrow> blocks st' a = blocks st a" using wj oj by blast+
  note R = tree_replace[OF nb ir k this, unfolded wi]
  have "mset (tree k (blocks st') l c) = mset (tree k (blocks st2) l c) + mset new" using v by (simp add: walked_def)
  then show "mset (tree k (blocks st') (Suc l) nb) = mset (tree k (blocks st) (Suc l) nb) + mset (pre @ new)"
    unfolding mset_append by (rule mset_replace[OF R(1) _ t2])
  show "leaf k (blocks st') (Suc l) nb bn = leaf k (blocks st') l c bn" using R(3) i by simp
  show "m mod fan k ^ Suc l \<noteq> bn mod fan k ^ Suc l \<Longrightarrow> leaf k (blocks st') (Suc l) nb m = leaf k (blocks st) (Suc l) nb m"
  proof (cases "m div fan k ^ l mod fan k = i")
    case True
    assume n: "m mod fan k ^ Suc l \<noteq> bn mod fan k ^ Suc l"
    have "0 < fan k" using k by (simp add: fan_def)
    then have n': "m mod fan k ^ l \<noteq> bn mod fan k ^ l" using digit_mod[OF n] True i by simp
    then have "leaf k (blocks st') l c m = leaf k (blocks st2) l c m" using v by (simp add: walked_def)
    then show ?thesis using R(3)[OF True] lf[OF n'] nb True by simp
  next
    case False
    then show ?thesis using R(2) by blast
  qed
qed

lemma nat_mod_256: "nat (i mod 256) < 256"
  by (simp add: nat_less_iff)

text \<open>The entry of an indirect block is set, no other word of the disk changes.\<close>

lemma word_at_set:
  assumes "length (bl (nb * k + i div 256)) = 256" "0 \<le> i" "0 \<le> j"
  shows "word_at k (bl(nb * k + i div 256 := (bl (nb * k + i div 256))[nat (i mod 256) := c])) nb j =
    (if j = i then c else word_at k bl nb j)"
proof (cases "j div 256 = i div 256")
  case True
  then have "j mod 256 = i mod 256 \<longleftrightarrow> j = i" by (metis mult_div_mod_eq)
  moreover have "nat (j mod 256) = nat (i mod 256) \<longleftrightarrow> j mod 256 = i mod 256" by (simp add: eq_nat_nat_iff)
  ultimately have ne: "nat (j mod 256) = nat (i mod 256) \<longleftrightarrow> j = i" by simp
  show ?thesis
  proof (cases "j = i")
    case True
    then show ?thesis using assms(1) nat_mod_256[of i] by (simp add: word_at_def)
  next
    case False
    then have "nat (i mod 256) \<noteq> nat (j mod 256)" using ne by simp
    then show ?thesis using True False by (simp add: word_at_def)
  qed
qed (auto simp: word_at_def)

lemma walk_write:
  assumes rd: "\<forall>a. rd a = None" and k: "1 \<le> k"
  shows "nb \<noteq> 0 \<Longrightarrow> free_rep k st xs \<Longrightarrow> distinct (tree k (blocks st) l nb @ xs) \<Longrightarrow> disk_ok st \<Longrightarrow> u_error st = None \<Longrightarrow>
    \<exists>r st' new xs'. bmap_walk rd (1024 * k) False l bn nb st = Some (r, st') \<and> xs = new @ xs' \<and> walked k l nb bn st new r st' xs'"
proof (induction l arbitrary: nb st xs)
  case 0
  then show ?case by (intro exI[of _ "Some nb"] exI[of _ st] exI[of _ "[]"] exI[of _ xs]) (simp add: walked_def)
next
  case (Suc l)
  define i where "i = bn div fan k ^ l mod fan k"
  define a where "a = nb * k + i div 256"
  define w where "w = nat (i mod 256)"
  let ?c = "word_at k (blocks st) nb i"
  have ir: "0 \<le> i" "i < fan k" using digit_range[OF k, of bn l] by (auto simp: i_def)
  have ba: "buf_of k nb a" using buf_of_word[OF ir] by (simp add: a_def)
  have dt: "distinct (tree k (blocks st) (Suc l) nb)" "set (tree k (blocks st) (Suc l) nb) \<inter> set xs = {}"
    using Suc.prems(3) unfolding distinct_append by blast+
  note E = tree_entry[OF Suc.prems(1) dt(1) ir]
  have nt: "nb \<in> set (tree k (blocks st) (Suc l) nb)" using Suc.prems(1) by simp
  have sib: "inner k (blocks st) l (word_at k (blocks st) nb j) \<subseteq> set (tree k (blocks st) (Suc l) nb)"
    "nb \<notin> inner k (blocks st) l (word_at k (blocks st) nb j)" if "0 \<le> j" "j < fan k" for j
    using tree_entry(1,3)[OF Suc.prems(1) dt(1) that] inner_tree[of k "blocks st" l "word_at k (blocks st) nb j"] by blast+
  have u: "bmap_walk rd (1024 * k) False (Suc l) bn nb st =
     (if ?c \<noteq> 0 then bmap_walk rd (1024 * k) False l bn ?c st
      else case bmap_new rd (1024 * k) st of None \<Rightarrow> None | Some (None, st) \<Rightarrow> Some (None, st)
      | Some (Some nb', st') \<Rightarrow> bmap_walk rd (1024 * k) False l bn nb' (set_block a ((blocks st a)[w := nb']) st'))"
    unfolding a_def w_def i_def using rd Suc.prems(5) by (simp add: bread_def bsize_k word_at_def Let_def)
  show ?case
  proof (cases "?c = 0")
    case False
    have "distinct (tree k (blocks st) l ?c @ xs)" using E(1,2) dt(2) Suc.prems(3) by auto
    from Suc.IH[OF False Suc.prems(2) this Suc.prems(4,5)] obtain r st' new xs' where
      wk: "bmap_walk rd (1024 * k) False l bn ?c st = Some (r, st')" "xs = new @ xs'" and v: "walked k l ?c bn st new r st' xs'" by blast
    have dj: "nb \<notin> inner k (blocks st) l ?c \<union> set new" using sib(2)[OF ir] nt dt(2) wk(2) by auto
    have dj2: "inner k (blocks st) l (word_at k (blocks st) nb j) \<inter> (inner k (blocks st) l ?c \<union> set new) = {}"
      if "0 \<le> j" "j < fan k" "j \<noteq> i" for j
      using E(5)[OF that] inner_tree[of k "blocks st" l "word_at k (blocks st) nb j"] inner_tree[of k "blocks st" l ?c]
        sib(1)[OF that(1,2)] dt(2) wk(2) by auto
    have up: "mset (tree k (blocks st') (Suc l) nb) = mset (tree k (blocks st) (Suc l) nb) + mset ([] @ new)"
      "\<And>m. m mod fan k ^ Suc l \<noteq> bn mod fan k ^ Suc l \<Longrightarrow> leaf k (blocks st') (Suc l) nb m = leaf k (blocks st) (Suc l) nb m"
      "leaf k (blocks st') (Suc l) nb bn = leaf k (blocks st') l ?c bn"
      by (rule walked_up[where st = st, OF Suc.prems(1) k i_def v]; use dj dj2 in simp)+
    have lb: "leaf k (blocks st) (Suc l) nb bn = leaf k (blocks st) l ?c bn" using Suc.prems(1) by (simp add: i_def)
    have fr: "blocks st' d = blocks st d" if "\<forall>b \<in> inner k (blocks st) (Suc l) nb \<union> set new. \<not> buf_of k b d" for d
      using v E(4) that unfolding walked_def by blast
    have "walked k (Suc l) nb bn st new r st' xs'"
      unfolding walked_def up(3) lb using v up(1,2) fr
      by (auto simp: walked_def simp del: tree.simps inner.simps leaf.simps)
    then show ?thesis using u False wk by auto
  next
    case True
    have l0: "leaf k (blocks st) (Suc l) nb bn = 0" using True Suc.prems(1) by (simp add: i_def)
    show ?thesis
    proof (cases xs)
      case Nil
      note N = bmap_new_none[OF Suc.prems(2)[unfolded Nil], of rd]
      have "walked k (Suc l) nb bn st [] None (nospace st) []"
        using N Suc.prems(4) l0 by (auto simp: walked_def nospace_def disk_ok_def same_shape_def)
      then show ?thesis using u True N Nil by auto
    next
      case (Cons x xs1)
      have rx: "rd (x * k) = None" using rd by simp
      from bmap_new_some[where rd = rd, OF Suc.prems(2)[unfolded Cons] k rx Suc.prems(5,4)] obtain st1 where
        n: "bmap_new rd (1024 * k) st = Some (Some x, st1)" "free_rep k st1 xs1" "cleared k (blocks st1) x"
        "\<forall>c. \<not> buf_of k x c \<longrightarrow> blocks st1 c = blocks st c" "u_error st1 = None" "same_shape st st1" "disk_ok st1" by blast
      define st2 where "st2 = set_block a ((blocks st a)[w := x]) st1"
      have x: "x \<noteq> 0" "x \<notin> set xs1" "x \<notin> set (tree k (blocks st) (Suc l) nb)"
        using Suc.prems(2) dt(2) Cons by (auto simp: free_rep_def in_range_def)
      then have nx: "nb \<noteq> x" using nt by auto
      have st1a: "blocks st1 c = blocks st c" if "buf_of k b c" "b \<noteq> x" for b c using n(4) that buf_of_unique[OF k] by blast
      have st2c: "blocks st2 c = blocks st c" if "buf_of k b c" "b \<noteq> x" "b \<noteq> nb" for b c
        using st1a[OF that(1,2)] that ba buf_of_unique[OF k] by (auto simp: st2_def)
      have st2e: "blocks st2 = (blocks st1)(a := (blocks st1 a)[w := x])" using st1a[OF ba nx] by (auto simp: st2_def)
      have fr2: "free_rep k st2 xs1"
      proof (rule free_rep_frame[OF n(2)])
        fix y c assume "y \<in> set xs1" "buf_of k y c"
        then have "y \<noteq> nb" "buf_of k y c" using nt dt(2) Cons by auto
        then have "c \<noteq> a" using ba buf_of_unique[OF k] by blast
        then show "blocks st2 c = blocks st1 c" by (simp add: st2_def)
      qed (simp_all add: st2_def k)
      have cl2: "cleared k (blocks st2) x"
        using n(3) ba nx buf_of_unique[OF k] by (auto simp: cleared_def st2_def)
      have d2: "disk_ok st2" using n(7) by (simp add: disk_ok_def st2e)
      have t2: "tree k (blocks st2) l x = [x]" by (rule cleared_tree(1)[OF cl2 x(1) k])
      then have "distinct (tree k (blocks st2) l x @ xs1)" using x Suc.prems(2) Cons by (simp add: free_rep_def)
      from Suc.IH[OF x(1) fr2 this d2] n(5) obtain r st' new xs' where
        wk: "bmap_walk rd (1024 * k) False l bn x st2 = Some (r, st')" "xs1 = new @ xs'" and v: "walked k l x bn st2 new r st' xs'"
        by (auto simp: st2_def)
      have in2: "inner k (blocks st2) l x \<subseteq> {x}" using inner_tree[of k "blocks st2" l x] t2 by simp
      have len: "length (blocks st1 a) = 256" using n(7) by (simp add: disk_ok_def)
      have w1: "word_at k (blocks st1) nb j = word_at k (blocks st) nb j" if "0 \<le> j" "j < fan k" for j
        using word_at_cong[OF _ that] st1a nx by blast
      have w2: "word_at k (blocks st2) nb j = (if j = i then x else word_at k (blocks st) nb j)" if "0 \<le> j" "j < fan k" for j
        using word_at_set[of "blocks st1" nb k i j x, OF len[unfolded a_def] ir(1) that(1)] w1[OF that] unfolding st2e a_def w_def by simp
      have dj: "nb \<notin> inner k (blocks st2) l x \<union> set new" using in2 nx nt dt(2) wk(2) Cons by auto
      have dj2: "inner k (blocks st) l (word_at k (blocks st) nb j) \<inter> (inner k (blocks st2) l x \<union> set new) = {}"
        if "0 \<le> j" "j < fan k" for j
        using sib(1)[OF that] in2 x(3) dt(2) wk(2) Cons by auto
      have o2: "blocks st2 c = blocks st c" if "0 \<le> j" "j < fan k" "b \<in> inner k (blocks st) l (word_at k (blocks st) nb j)" "buf_of k b c" for j b c
        using st2c[OF that(4)] sib[OF that(1,2)] that(3) x(3) by blast
      have lf: "leaf k (blocks st2) l x m = leaf k (blocks st) l ?c m" if "m mod fan k ^ l \<noteq> bn mod fan k ^ l" for m
        using that True cleared_tree(2)[OF cl2 x(1) k, of l m] by (cases l) auto
      have up: "mset (tree k (blocks st') (Suc l) nb) = mset (tree k (blocks st) (Suc l) nb) + mset ([x] @ new)"
        "\<And>m. m mod fan k ^ Suc l \<noteq> bn mod fan k ^ Suc l \<Longrightarrow> leaf k (blocks st') (Suc l) nb m = leaf k (blocks st) (Suc l) nb m"
        "leaf k (blocks st') (Suc l) nb bn = leaf k (blocks st') l x bn"
        by (rule walked_up[where st = st and pre = "[x]", OF Suc.prems(1) k i_def v]; use dj dj2 o2 w2 lf ir t2 True in \<open>simp del: tree.simps inner.simps leaf.simps\<close>)+
      have fr: "blocks st' c = blocks st c"
        if "\<forall>b \<in> inner k (blocks st) (Suc l) nb \<union> set (x # new). \<not> buf_of k b c" for c
      proof -
        have "\<forall>b \<in> inner k (blocks st2) l x \<union> set new. \<not> buf_of k b c" using that in2 by auto
        then have "blocks st' c = blocks st2 c" using v by (simp add: walked_def)
        moreover have "c \<noteq> a" "\<not> buf_of k x c" using that ba Suc.prems(1) by auto
        ultimately show ?thesis using n(4) by (simp add: st2_def)
      qed
      have y: "y \<in> set (x # new) \<and> cleared k (blocks st') y" if "r = Some y" for y
      proof (cases "leaf k (blocks st2) l x bn = 0")
        case True
        then show ?thesis using v that by (auto simp: walked_def)
      next
        case False
        then have "l = 0" using cleared_tree(2)[OF cl2 x(1) k] by metis
        have "y = leaf k (blocks st2) l x bn \<and> new = []" using v that False unfolding walked_def by simp
        then have "y = x" "new = []" using \<open>l = 0\<close> by simp_all
        moreover have "\<forall>b \<in> inner k (blocks st2) l x \<union> set new. \<not> buf_of k b c" for c using \<open>l = 0\<close> \<open>new = []\<close> by simp
        then have "blocks st' c = blocks st2 c" for c using v unfolding walked_def by blast
        ultimately show ?thesis using cl2 by (simp add: cleared_def)
      qed
      have r: "case r of Some y \<Rightarrow> y \<noteq> 0 \<and> leaf k (blocks st') l x bn = y \<and> u_error st' = None
        | None \<Rightarrow> xs' = [] \<and> u_error st' = Some ENOSPC \<and> leaf k (blocks st') l x bn = 0"
        using v by (auto simp: walked_def split: option.splits)
      have sh: "same_shape st st'" using v n(6) by (auto simp: walked_def same_shape_def st2_def)
      have "walked k (Suc l) nb bn st (x # new) r st' xs'"
        unfolding walked_def
      proof (intro conjI)
        show "free_rep k st' xs'" "disk_ok st'" using v unfolding walked_def by blast+
        show "mset (tree k (blocks st') (Suc l) nb) = mset (tree k (blocks st) (Suc l) nb) + mset (x # new)"
          using up(1) by (simp only: append_Cons append_Nil)
        show "\<forall>m. m mod fan k ^ Suc l \<noteq> bn mod fan k ^ Suc l \<longrightarrow> leaf k (blocks st') (Suc l) nb m = leaf k (blocks st) (Suc l) nb m"
          using up(2) by blast
        show "case r of Some y \<Rightarrow> y \<noteq> 0 \<and> leaf k (blocks st') (Suc l) nb bn = y \<and> u_error st' = None \<and>
            (if leaf k (blocks st) (Suc l) nb bn = 0 then y \<in> set (x # new) \<and> cleared k (blocks st') y
             else y = leaf k (blocks st) (Suc l) nb bn \<and> x # new = [])
          | None \<Rightarrow> xs' = [] \<and> u_error st' = Some ENOSPC \<and> leaf k (blocks st) (Suc l) nb bn = 0 \<and> leaf k (blocks st') (Suc l) nb bn = 0"
          unfolding up(3) l0 using r y by (cases r) (simp_all only: option.case if_True simp_thms)
      qed (use sh fr in blast)+
      then show ?thesis using u True n(1) wk Cons unfolding st2_def by (intro exI[of _ r] exI[of _ st'] exI[of _ "x # new"] exI[of _ xs']) simp
    qed
  qed
qed

end
