(* ===== verification/S5bmap_Ok.thy ===== *)
theory S5bmap_Ok
  imports S5tree
begin

text \<open>
  The block map of a whole file over the trees of its 13 addresses, what a lookup for reading or writing and a truncation do to
  it, and the properties of \<^verbatim>\<open>s5bmap\<close> and \<^verbatim>\<open>s5itrunc\<close>.
\<close>

section \<open>The blocks of a file\<close>

definition levels :: "nat \<Rightarrow> nat" where
  "levels i = (if i < NADDR - 3 then 0 else i - (NADDR - 4))"

text \<open>The block that holds logical block \<open>bn\<close> (0 for none), and all blocks of the file.\<close>

definition file_get :: "int \<Rightarrow> (int \<Rightarrow> words) \<Rightarrow> int list \<Rightarrow> int \<Rightarrow> int" where
  "file_get k bl addr bn =
     (if bn < int NADDR - 3 then addr ! nat bn
      else case bmap_level (fan k) (bn - (int NADDR - 3)) of None \<Rightarrow> 0 | Some (l, m) \<Rightarrow> leaf k bl l (addr ! (NADDR - 4 + l)) m)"

definition file_blocks :: "int \<Rightarrow> (int \<Rightarrow> words) \<Rightarrow> int list \<Rightarrow> int list" where
  "file_blocks k bl addr = concat (map (\<lambda>i. tree k bl (levels i) (addr ! i)) (rev [0..<NADDR]))"

definition slot :: "int \<Rightarrow> int \<Rightarrow> (nat \<times> nat \<times> int) option" where
  "slot k bn =
     (if bn < int NADDR - 3 then Some (nat bn, 0, 0)
      else map_option (\<lambda>(l, m). (NADDR - 4 + l, l, m)) (bmap_level (fan k) (bn - (int NADDR - 3))))"






lemma slot_get: "file_get k bl addr bn = (case slot k bn of None \<Rightarrow> 0 | Some (i, l, m) \<Rightarrow> leaf k bl l (addr ! i) m)"
  by (auto simp: file_get_def slot_def split: option.splits)



text \<open>A file with the addresses \<open>A\<close>, the blocks \<open>used\<close> by everything else and the free blocks \<open>xs\<close> share no block.\<close>

definition fs_file :: "int \<Rightarrow> s5 \<Rightarrow> int list \<Rightarrow> int list \<Rightarrow> int list \<Rightarrow> bool" where
  "fs_file k st A used xs \<longleftrightarrow> 1 \<le> k \<and> k \<le> 8 \<and> length A = NADDR \<and> free_rep k st xs \<and> disk_ok st \<and>
     distinct (file_blocks k (blocks st) A @ used @ xs) \<and> (\<forall>b \<in> set (file_blocks k (blocks st) A). in_range (filsys st) b)"

lemma fs_fileD:
  assumes "fs_file k st A used xs"
  shows "1 \<le> k" "k \<le> 8" "length A = NADDR" "free_rep k st xs" "disk_ok st" "distinct (file_blocks k (blocks st) A)"
    "distinct used" "distinct xs" "set (file_blocks k (blocks st) A) \<inter> set used = {}"
    "set (file_blocks k (blocks st) A) \<inter> set xs = {}" "set used \<inter> set xs = {}"
    "\<forall>b \<in> set (file_blocks k (blocks st) A). in_range (filsys st) b"
  using assms unfolding fs_file_def distinct_append set_append by blast+



lemma bmap_block_slot:
  assumes "slot k bn = Some (i, l, m)"
  shows "bmap_block rd (1024 * k) readflg bn ip st =
    (case bmap_root rd (1024 * k) readflg i ip st of
       None \<Rightarrow> None
     | Some (None, ip, st) \<Rightarrow> Some (None, ip, st)
     | Some (Some nb, ip, st) \<Rightarrow> map_option (\<lambda>(r, st). (r, ip, st)) (bmap_walk rd (1024 * k) readflg l m nb st))"
proof (cases "bn < 10")
  case True
  then have "i = nat bn" "l = 0" "m = 0" using assms by (auto simp: slot_def)
  then show ?thesis using True by (auto simp: bmap_block_def split: option.splits prod.splits)
next
  case False
  then have "bmap_level (fan k) (bn - 10) = Some (l, m)" "i = 9 + l" using assms by (auto simp: slot_def)
  then show ?thesis using False by (simp add: bmap_block_def bsize_k)
qed




section \<open>Freeing a tree\<close>

text \<open>\<open>sub\<close> frees the trees with \<open>l\<close> levels of indirect blocks.\<close>

definition frees :: "int \<Rightarrow> (int \<Rightarrow> s5 \<Rightarrow> s5) \<Rightarrow> nat \<Rightarrow> bool" where
  "frees k sub l \<longleftrightarrow>
     (\<forall>c st xs. c \<noteq> 0 \<longrightarrow> free_rep k st xs \<longrightarrow> distinct (tree k (blocks st) l c @ xs) \<longrightarrow>
        (\<forall>b \<in> set (tree k (blocks st) l c). in_range (filsys st) b) \<longrightarrow>
        free_rep k (sub c st) (rev (tree k (blocks st) l c) @ xs) \<and> same_shape st (sub c st) \<and>
        (\<forall>a. (\<forall>b \<in> set (tree k (blocks st) l c). \<not> buf_of k b a) \<longrightarrow> blocks (sub c st) a = blocks st a))"

lemma frees_block: "1 \<le> k \<Longrightarrow> frees k (s5free (1024 * k)) 0"
  unfolding frees_def using free_push[of k] by (auto simp: buf_of_def)

lemma even_Suc_div: assumes "\<not> odd i" shows "int (Suc i) div 256 = int i div 256"
proof -
  obtain m where i: "i = 2 * m" using assms by (auto elim: evenE)
  have "int m = 128 * (int m div 128) + int m mod 128" by simp
  moreover have "int m mod 128 < 128" "0 \<le> int m mod 128" by auto
  ultimately have "int (Suc i) div 256 = int m div 128" "int i div 256 = int m div 128"
    unfolding i by linarith+
  then show ?thesis by simp
qed

lemma frame_trans:
  "\<forall>a. (\<forall>b \<in> set ys. \<not> buf_of k b a) \<longrightarrow> h a = j a \<Longrightarrow> \<forall>a. (\<forall>b \<in> set xs. \<not> buf_of k b a) \<longrightarrow> g a = h a \<Longrightarrow>
   \<forall>a. (\<forall>b \<in> set (ys @ xs). \<not> buf_of k b a) \<longrightarrow> g a = j a"
  by (simp add: ball_Un)

text \<open>The loop over the entries below \<open>n\<close>; \<open>bl0\<close> is the disk before any was freed.\<close>

lemma tloop_scan_frees:
  assumes rd: "\<forall>a. rd a = None" and k: "1 \<le> k" and nb: "nb \<noteq> 0" and fs: "frees k sub l"
  defines "f \<equiv> \<lambda>bl i. tree k bl l (word_at k bl nb (int i))"
  shows "n \<le> entries k \<Longrightarrow> free_rep k st xs \<Longrightarrow> distinct (concat (map (f bl0) (rev [0..<n])) @ nb # xs) \<Longrightarrow>
    (\<forall>b \<in> set (concat (map (f bl0) (rev [0..<n]))). in_range (filsys st) b) \<Longrightarrow>
    (\<forall>b \<in> insert nb (set (concat (map (f bl0) (rev [0..<n])))). \<forall>a. buf_of k b a \<longrightarrow> blocks st a = bl0 a) \<Longrightarrow>
    held = None \<or> held = Some (nb * k + int n div 256) \<Longrightarrow>
    \<exists>st'. tloop_scan rd (1024 * k) sub nb n held st = (True, st') \<and>
      free_rep k st' (rev (concat (map (f bl0) (rev [0..<n]))) @ xs) \<and> same_shape st st' \<and>
      (\<forall>a. (\<forall>b \<in> set (concat (map (f bl0) (rev [0..<n]))). \<not> buf_of k b a) \<longrightarrow> blocks st' a = blocks st a)"
proof (induction n arbitrary: st xs held)
  case (Suc i)
  let ?R = "concat (map (f bl0) (rev [0..<i]))" and ?a = "nb * k + int i div 256"
  have split: "concat (map (f bl0) (rev [0..<Suc i])) = f bl0 i @ ?R" by simp
  have ir: "0 \<le> int i" "int i < fan k" using Suc.prems(1) by auto
  have eq: "blocks st a = bl0 a" if "b \<in> insert nb (set (f bl0 i) \<union> set ?R)" "buf_of k b a" for b a
    using Suc.prems(5) that unfolding split by auto
  have w: "word_at k (blocks st) nb (int i) = word_at k bl0 nb (int i)"
    by (rule word_at_cong[OF _ ir]) (use eq in blast)
  have wa: "blocks st ?a ! (i mod 256) = word_at k bl0 nb (int i)"
  proof -
    have "nat (int i mod 256) = i mod 256" by (simp add: nat_mod_distrib)
    then show ?thesis unfolding w[symmetric] unfolding word_at_def by (simp only:)
  qed
  define h where "h = (if odd i then None else held)"
  have h: "h = None \<or> h = Some ?a"
  proof (cases "odd i")
    case False
    then have "int (Suc i) div 256 = int i div 256" by (rule even_Suc_div)
    then show ?thesis using Suc.prems(6) False by (auto simp: h_def)
  qed (simp add: h_def)
  then have ha: "(case h of Some a \<Rightarrow> a | None \<Rightarrow> nb * k + int i div 256) = ?a" by auto
  let ?c = "word_at k bl0 nb (int i)"
  have u: "tloop_scan rd (1024 * k) sub nb (Suc i) held st =
      (if ?c = 0 then tloop_scan rd (1024 * k) sub nb i (Some ?a) st else tloop_scan rd (1024 * k) sub nb i None (sub ?c st))"
    unfolding tloop_scan.simps Let_def bsize_k h_def[symmetric] ha wa using rd by simp
  show ?case
  proof (cases "?c = 0")
    case True
    then have fi: "f bl0 i = []" by (simp add: f_def)
    have "\<exists>st'. tloop_scan rd (1024 * k) sub nb i (Some ?a) st = (True, st') \<and> free_rep k st' (rev ?R @ xs) \<and> same_shape st st' \<and>
      (\<forall>a. (\<forall>b \<in> set ?R. \<not> buf_of k b a) \<longrightarrow> blocks st' a = blocks st a)"
      by (rule Suc.IH) (use Suc.prems split fi in auto)
    then show ?thesis using u True unfolding split fi by simp
  next
    case False
    have ti: "tree k (blocks st) l ?c = f bl0 i"
    proof -
      have "\<And>b a. b \<in> inner k bl0 l ?c \<Longrightarrow> buf_of k b a \<Longrightarrow> blocks st a = bl0 a"
        using eq inner_tree[of k bl0 l ?c] unfolding f_def by blast
      then show ?thesis using tree_cong[of k bl0 l ?c "blocks st"] k by (simp add: f_def)
    qed
    have d: "distinct (f bl0 i @ xs)" "\<forall>b \<in> set (f bl0 i). in_range (filsys st) b"
      using Suc.prems(3,4) unfolding split by auto
    from fs[unfolded frees_def, rule_format, OF False Suc.prems(2)] d
    have F: "free_rep k (sub ?c st) (rev (f bl0 i) @ xs)" "same_shape st (sub ?c st)"
      "\<forall>a. (\<forall>b \<in> set (f bl0 i). \<not> buf_of k b a) \<longrightarrow> blocks (sub ?c st) a = blocks st a"
      unfolding ti by blast+
    have dj: "insert nb (set ?R) \<inter> set (f bl0 i) = {}" using Suc.prems(3) unfolding split by auto
    have "\<exists>st'. tloop_scan rd (1024 * k) sub nb i None (sub ?c st) = (True, st') \<and>
      free_rep k st' (rev ?R @ rev (f bl0 i) @ xs) \<and> same_shape (sub ?c st) st' \<and>
      (\<forall>a. (\<forall>b \<in> set ?R. \<not> buf_of k b a) \<longrightarrow> blocks st' a = blocks (sub ?c st) a)"
    proof (rule Suc.IH[OF _ F(1)])
      show "distinct (?R @ nb # rev (f bl0 i) @ xs)" using Suc.prems(3) unfolding split by auto
      show "\<forall>b \<in> set ?R. in_range (filsys (sub ?c st)) b" using Suc.prems(4) same_shape_range[OF F(2)] unfolding split by auto
      show "\<forall>b \<in> insert nb (set ?R). \<forall>a. buf_of k b a \<longrightarrow> blocks (sub ?c st) a = bl0 a"
      proof (intro ballI allI impI)
        fix b a assume b: "b \<in> insert nb (set ?R)" "buf_of k b a"
        then have "\<forall>c \<in> set (f bl0 i). \<not> buf_of k c a" using dj buf_of_unique[OF k] by blast
        then show "blocks (sub ?c st) a = bl0 a" using F(3) eq[of b a] b by auto
      qed
    qed (use Suc.prems(1) in auto)
    then obtain st' where G: "tloop_scan rd (1024 * k) sub nb i None (sub ?c st) = (True, st')"
      "free_rep k st' (rev ?R @ rev (f bl0 i) @ xs)" "same_shape (sub ?c st) st'"
      "\<forall>a. (\<forall>b \<in> set ?R. \<not> buf_of k b a) \<longrightarrow> blocks st' a = blocks (sub ?c st) a" by blast
    have "tloop_scan rd (1024 * k) sub nb (Suc i) held st = (True, st')" using u False G(1) by (simp only: if_False)
    moreover have "free_rep k st' (rev (f bl0 i @ ?R) @ xs)" using G(2) by (simp only: rev_append append_assoc)
    ultimately show ?thesis unfolding split using same_shape_trans[OF F(2) G(3)] frame_trans[OF F(3) G(4)] by blast
  qed
qed simp

lemma tloop_sub: "s5tloop rd m_bsize l bn st =
    (case tloop_scan rd m_bsize (case l of 0 \<Rightarrow> s5free m_bsize | Suc l \<Rightarrow> s5tloop rd m_bsize l) bn (nat (m_bsize div 4)) None st of
       (True, st) \<Rightarrow> s5free m_bsize bn st | (False, st) \<Rightarrow> st)"
  by (cases l) simp_all

lemma frees_tloop:
  assumes rd: "\<forall>a. rd a = None" and k: "1 \<le> k"
    and fs: "frees k (case l of 0 \<Rightarrow> s5free (1024 * k) | Suc l \<Rightarrow> s5tloop rd (1024 * k) l) l"
  shows "frees k (s5tloop rd (1024 * k) l) (Suc l)"
  unfolding frees_def
proof (intro allI impI)
  fix c st xs
  assume c: "c \<noteq> 0" and r: "free_rep k st xs" and d: "distinct (tree k (blocks st) (Suc l) c @ xs)"
    and g: "\<forall>b \<in> set (tree k (blocks st) (Suc l) c). in_range (filsys st) b"
  let ?sub = "case l of 0 \<Rightarrow> s5free (1024 * k) | Suc l \<Rightarrow> s5tloop rd (1024 * k) l"
  let ?R = "concat (map (\<lambda>i. tree k (blocks st) l (word_at k (blocks st) c (int i))) (rev [0..<entries k]))"
  have t: "tree k (blocks st) (Suc l) c = ?R @ [c]" using c by simp
  have "\<exists>st'. tloop_scan rd (1024 * k) ?sub c (entries k) None st = (True, st') \<and>
      free_rep k st' (rev ?R @ xs) \<and> same_shape st st' \<and>
      (\<forall>a. (\<forall>b \<in> set ?R. \<not> buf_of k b a) \<longrightarrow> blocks st' a = blocks st a)"
    by (rule tloop_scan_frees[OF rd k c fs]) (use r d g in \<open>simp_all del: tree.simps add: t\<close>)
  then obtain st' where S: "tloop_scan rd (1024 * k) ?sub c (entries k) None st = (True, st')" "free_rep k st' (rev ?R @ xs)"
    "same_shape st st'" "\<forall>a. (\<forall>b \<in> set ?R. \<not> buf_of k b a) \<longrightarrow> blocks st' a = blocks st a" by blast
  have u: "s5tloop rd (1024 * k) l c st = s5free (1024 * k) c st'"
    unfolding tloop_sub[of rd "1024 * k" l] bsize_k S(1) by simp
  have p: "in_range (filsys st') c" "c \<notin> set (rev ?R @ xs)"
    using g d same_shape_range[OF S(3)] unfolding t by auto
  from free_push[OF S(2) refl k p] S(3,4) c same_shape_trans
  have "free_rep k (s5free (1024 * k) c st') (c # rev ?R @ xs) \<and> same_shape st (s5free (1024 * k) c st') \<and>
    (\<forall>a. (\<forall>b \<in> set (?R @ [c]). \<not> buf_of k b a) \<longrightarrow> blocks (s5free (1024 * k) c st') a = blocks st a)"
    using k by (auto simp: buf_of_def)
  then show "free_rep k (s5tloop rd (1024 * k) l c st) (rev (tree k (blocks st) (Suc l) c) @ xs) \<and>
      same_shape st (s5tloop rd (1024 * k) l c st) \<and>
      (\<forall>a. (\<forall>b \<in> set (tree k (blocks st) (Suc l) c). \<not> buf_of k b a) \<longrightarrow> blocks (s5tloop rd (1024 * k) l c st) a = blocks st a)"
    unfolding u t by simp
qed

lemma frees_levels: "\<forall>a. rd a = None \<Longrightarrow> 1 \<le> k \<Longrightarrow> frees k (s5tloop rd (1024 * k) l) (Suc l)"
  by (induction l) (use frees_tloop[of rd k] frees_block[of k] in fastforce)+

lemma frees_addr:
  assumes "\<forall>a. rd a = None" "1 \<le> k"
  shows "frees k (itrunc_addr rd (1024 * k) i) (levels i)"
proof (cases "i < 10")
  case True
  then have "itrunc_addr rd (1024 * k) i c st = s5free (1024 * k) c st" "levels i = 0" if "c \<noteq> 0" for c st
    using that by (simp_all add: itrunc_addr_def levels_def)
  then show ?thesis using frees_block[OF assms(2)] unfolding frees_def by metis
next
  case False
  then have i: "itrunc_addr rd (1024 * k) i c st = s5tloop rd (1024 * k) (i - 10) c st" "levels i = Suc (i - 10)" if "c \<noteq> 0" for c st
    using that by (auto simp: itrunc_addr_def levels_def)
  then show ?thesis using frees_levels[OF assms, of "i - 10"] unfolding frees_def by metis
qed

lemma itrunc_addr_none: "itrunc_addr rd m_bsize i 0 st = st"
  by (simp add: itrunc_addr_def)

text \<open>The addresses of the list \<open>is\<close> are freed one after the other.\<close>

lemma fold_frees:
  fixes A :: "int list"
  assumes k: "1 \<le> k" and fs: "\<forall>i. frees k (sub i) (lv i)" "\<forall>i st. sub i 0 st = st"
  defines "f \<equiv> \<lambda>bl i. tree k bl (lv i) (A ! i)"
  shows "free_rep k st xs \<Longrightarrow> distinct (concat (map (f bl0) is) @ xs) \<Longrightarrow>
    \<forall>b \<in> set (concat (map (f bl0) is)). in_range (filsys st) b \<Longrightarrow>
    \<forall>b \<in> set (concat (map (f bl0) is)). \<forall>a. buf_of k b a \<longrightarrow> blocks st a = bl0 a \<Longrightarrow>
    free_rep k (fold (\<lambda>i. sub i (A ! i)) is st) (rev (concat (map (f bl0) is)) @ xs) \<and>
    (\<forall>a. (\<forall>b \<in> set (concat (map (f bl0) is)). \<not> buf_of k b a) \<longrightarrow> blocks (fold (\<lambda>i. sub i (A ! i)) is st) a = blocks st a)"
proof (induction "is" arbitrary: st xs)
  case (Cons i js)
  let ?st = "sub i (A ! i) st" and ?R = "concat (map (f bl0) js)"
  have d: "concat (map (f bl0) (i # js)) = f bl0 i @ ?R" by simp
  have eq: "blocks st a = bl0 a" if "b \<in> set (f bl0 i) \<union> set ?R" "buf_of k b a" for b a
    using Cons.prems(4) that unfolding d by auto
  have ti: "f (blocks st) i = f bl0 i"
  proof -
    have "\<And>b a. b \<in> inner k bl0 (lv i) (A ! i) \<Longrightarrow> buf_of k b a \<Longrightarrow> blocks st a = bl0 a"
      using eq inner_tree[of k bl0 "lv i" "A ! i"] unfolding f_def by blast
    then show ?thesis using tree_cong[of k bl0 "lv i" "A ! i" "blocks st"] k by (simp add: f_def)
  qed
  have S: "free_rep k ?st (rev (f bl0 i) @ xs) \<and> same_shape st ?st \<and>
      (\<forall>a. (\<forall>b \<in> set (f bl0 i). \<not> buf_of k b a) \<longrightarrow> blocks ?st a = blocks st a)"
  proof (cases "A ! i = 0")
    case True
    then show ?thesis using Cons.prems(1) fs(2) by (simp add: f_def)
  next
    case False
    have "distinct (tree k (blocks st) (lv i) (A ! i) @ xs)" "\<forall>b \<in> set (tree k (blocks st) (lv i) (A ! i)). in_range (filsys st) b"
      using Cons.prems(2,3) ti unfolding d f_def by auto
    from fs(1)[unfolded frees_def, rule_format, OF False Cons.prems(1) this(1)] this(2)
    show ?thesis using ti unfolding f_def by simp
  qed
  have dj: "set ?R \<inter> set (f bl0 i) = {}" using Cons.prems(2) unfolding d by auto
  have e: "blocks ?st a = bl0 a" if b: "b \<in> set ?R" "buf_of k b a" for b a
  proof -
    have "\<forall>c \<in> set (f bl0 i). \<not> buf_of k c a" using dj buf_of_unique[OF k _ b(2)] b(1) by blast
    then show ?thesis using S eq[of b a] b by auto
  qed
  have "free_rep k (fold (\<lambda>i. sub i (A ! i)) js ?st) (rev ?R @ rev (f bl0 i) @ xs) \<and>
    (\<forall>a. (\<forall>b \<in> set ?R. \<not> buf_of k b a) \<longrightarrow> blocks (fold (\<lambda>i. sub i (A ! i)) js ?st) a = blocks ?st a)"
  proof (rule Cons.IH)
    show "distinct (?R @ rev (f bl0 i) @ xs)" using Cons.prems(2) unfolding d by auto
    show "\<forall>b \<in> set ?R. in_range (filsys ?st) b" using Cons.prems(3) S same_shape_range unfolding d by auto
  qed (use S e in blast)+
  then show ?case unfolding d fold_Cons comp_def rev_append append_assoc using S frame_trans[of "f bl0 i" k "blocks ?st" "blocks st" ?R] by blast
qed simp

section \<open>The properties\<close>

text \<open>The buffer, offset and size that \<^verbatim>\<open>s5bmap\<close> answers for a file block that is there.\<close>

definition buffer_at :: "int \<Rightarrow> int \<Rightarrow> int \<Rightarrow> int \<Rightarrow> int \<times> int \<times> int" where
  "buffer_at k off n nb = (nb * k + off div 1024 mod k, off mod 1024, min n (1024 - off mod 1024))"

lemma bmap_bsize: "1 \<le> k \<Longrightarrow> FsBSIZE (1024 * k) = 1024"
  by (simp_all add: FsBSIZE_def)

lemma bmap_addr: "1 \<le> (k::int) \<Longrightarrow> (if 1024 * k > 1024 then nb * (1024 * k div 1024) + off div 1024 mod (1024 * k div 1024) else nb) = nb * k + off div 1024 mod k"
  by (cases "k = 1") auto

lemma bmap_offset: "0 \<le> off \<Longrightarrow> 1 \<le> (k::int) \<Longrightarrow> \<not> off div (1024 * k) < 0"
  by (simp add: not_less pos_imp_zdiv_nonneg_iff)

lemma request_read:
  assumes "i_ftype ip = IFREG \<or> i_ftype ip = IFDIR" "\<not> off div b < 0" "FsBSIZE b = 1024" "0 \<le> cnt"
  shows "bmap_request b True off cnt limit ip =
    (if cnt = 0 \<or> i_size ip \<le> off then Inl None
     else Inr (off div b, off mod 1024, min (min cnt (i_size ip - off)) (1024 - off mod 1024)),
     if cnt < 1024 - off mod 1024 then ip else ip\<lparr>s5i_lastr := off div b\<rparr>)"
proof -
  have "0 < 1024 - off mod 1024" by simp
  moreover define sz where "sz = 1024 - off mod 1024"
  ultimately show ?thesis using assms(1,2,4)
    unfolding bmap_request_def Let_def assms(3) sz_def[symmetric]
    by (cases "cnt < sz"; elim disjE) (simp_all add: assms(3) sz_def[symmetric] min_def)
qed


text \<open>Looking up the block of a file for reading finds exactly what the block map of the inode holds, through up to
  three levels of indirect blocks: the answer names a buffer of that block with the bytes left in buffer, request and file, or says that there
  is nothing, at the end of the file or where the file has a hole; disk, super block and block map stay as they are.\<close>

theorem bmap_read:
  assumes "\<forall>a. rd a = None" "u_error st = None" "1 \<le> k" "i_ftype ip \<in> {IFREG, IFDIR}" "0 \<le> off" "0 \<le> cnt"
    "slot k (off div (1024 * k)) = Some (i, l, m)"
  defines "nb \<equiv> file_get k (blocks st) (s5i_addr ip) (off div (1024 * k))"
  shows "\<exists>ip'. s5i_addr ip' = s5i_addr ip \<and> i_size ip' = i_size ip \<and>
    s5bmap rd (1024 * k) True off cnt limit ip st =
      Some (if nb = 0 \<or> cnt = 0 \<or> i_size ip \<le> off then None else Some (buffer_at k off (min cnt (i_size ip - off)) nb), ip', st)"
proof -
  have B: "bmap_block rd (1024 * k) True (off div (1024 * k)) ip' st = Some (if nb = 0 then None else Some nb, ip', st)"
    if "s5i_addr ip' = s5i_addr ip" for ip'
    unfolding bmap_block_slot[OF assms(7)] bmap_root_def nb_def slot_get assms(7) that
    using walk_read[OF assms(1,2), of "s5i_addr ip ! i"] by simp
  have m: "0 \<le> off mod 1024" "off mod 1024 < 1024" by simp_all
  define ip' where "ip' = (if cnt < 1024 - off mod 1024 then ip else ip\<lparr>s5i_lastr := off div (1024 * k)\<rparr>)"
  have ip': "s5i_addr ip' = s5i_addr ip" "i_size ip' = i_size ip" "i_ftype ip' = i_ftype ip" by (simp_all add: ip'_def)
  define sz where "sz = min (min cnt (i_size ip - off)) (1024 - off mod 1024)"
  have R: "bmap_request (1024 * k) True off cnt limit ip =
      (if cnt = 0 \<or> i_size ip \<le> off then Inl None else Inr (off div (1024 * k), off mod 1024, sz), ip')"
    unfolding ip'_def sz_def
    by (rule request_read) (use assms(4,6) bmap_bsize[OF assms(3)] bmap_offset[OF assms(5,3)] in auto)
  show ?thesis
  proof (intro exI[of _ ip'] conjI)
    have t: "i_ftype ip' \<noteq> IFBLK" using assms(4) ip'(3) by auto
    show "s5bmap rd (1024 * k) True off cnt limit ip st =
      Some (if nb = 0 \<or> cnt = 0 \<or> i_size ip \<le> off then None else Some (buffer_at k off (min cnt (i_size ip - off)) nb), ip', st)"
    proof (cases "cnt = 0 \<or> i_size ip \<le> off")
      case False
      then show ?thesis unfolding s5bmap_def R using t B[OF ip'(1)] bmap_addr[OF assms(3), of nb off]
        by (cases "nb = 0") (simp_all add: buffer_at_def sz_def del: mult_less_cancel_left)
    qed (auto simp: s5bmap_def R)
  qed (use ip' in simp_all)
qed


text \<open>C38: truncating a file gives all its blocks back, data and indirect, each once and in the reverse of the order
  in which a file is filled, and nothing else: the blocks of other files stay as they are, and the file has size 0 and no addresses.\<close>

theorem itrunc_frees:
  assumes rd: "\<forall>a. rd a = None" and F: "fs_file k st (s5i_addr ip) used xs" and t: "i_ftype ip = IFREG \<or> i_ftype ip = IFDIR"
    and r: "s5itrunc rd (1024 * k) ip st = (ip', st')"
  shows "free_rep k st' (rev (file_blocks k (blocks st) (s5i_addr ip)) @ xs) \<and>
    (\<forall>b \<in> set used. \<forall>a. buf_of k b a \<longrightarrow> blocks st' a = blocks st a) \<and>
    i_size ip' = 0 \<and> s5i_addr ip' = replicate NADDR 0"
proof -
  note D = fs_fileD[OF F]
  let ?B = "file_blocks k (blocks st) (s5i_addr ip)"
  have e: "ip' = ip\<lparr>i_size := 0, s5i_addr := replicate NADDR 0, i_changed := True\<rparr>"
    "st' = fold (\<lambda>i. itrunc_addr rd (1024 * k) i (s5i_addr ip ! i)) (rev [0..<NADDR]) st"
    using r t by (auto simp: s5itrunc_def)
  have "free_rep k st' (rev ?B @ xs) \<and> (\<forall>a. (\<forall>b \<in> set ?B. \<not> buf_of k b a) \<longrightarrow> blocks st' a = blocks st a)"
    unfolding e(2) file_blocks_def
    by (rule fold_frees[OF D(1)]) (use frees_addr[OF rd D(1)] itrunc_addr_none D in \<open>auto simp: file_blocks_def[symmetric]\<close>)
  moreover have "\<forall>c \<in> set ?B. \<not> buf_of k c a" if "b \<in> set used" "buf_of k b a" for b a
    using D(9) buf_of_unique[OF D(1) _ that(2)] that(1) by blast
  ultimately show ?thesis using e(1) by simp
qed

text \<open>A volume with free blocks 22, 21 and 20, and a file with block 30 and, through the indirect block 40, block 41.\<close>

definition small_volume :: s5 where
  "small_volume =
     \<lparr>filsys = \<lparr>s_isize = 4, s_fsize = 100, s_nfree = 4, s_free = [0, 20, 21, 22] @ replicate 46 0, s_ninode = 0,
        s_inode = replicate 100 0, s_fmod = False, s_tfree = 3, s_tinode = 0\<rparr>,
      blocks = \<lambda>a. if a = 40 then (replicate 256 0)[3 := 41] else replicate 256 0, u_error = None\<rparr>"

definition small_file :: inode where
  "small_file = \<lparr>i_ftype = IFREG, i_size = 14 * 1024, i_changed = False, s5i_addr = 30 # replicate 9 0 @ [40, 0, 0], s5i_lastr = 0\<rparr>"

lemma small_blocks: "file_blocks 1 (blocks small_volume) (s5i_addr small_file) = [41, 40, 30]"
  by code_simp

lemma small_fs_file: "fs_file 1 small_volume (s5i_addr small_file) [50] [22, 21, 20]"
  unfolding fs_file_def small_blocks
  by (simp add: small_volume_def small_file_def free_rep_def in_range_def s5badblock_def disk_ok_def)

lemma bmap_read_witness:
  "\<exists>ip'. s5i_addr ip' = s5i_addr small_file \<and>
     s5bmap (\<lambda>_. None) 1024 True 13412 500 2048 small_file small_volume = Some (Some (41, 100, 500), ip', small_volume)"
proof -
  have g: "file_get 1 (blocks small_volume) (s5i_addr small_file) 13 = 41" by code_simp
  have s: "slot 1 13 = Some (10, 1, 3)" by code_simp
  show ?thesis
    using bmap_read[of "\<lambda>_. None" small_volume 1 small_file 13412 500 10 1 3 2048] g s
    by (auto simp: small_volume_def small_file_def buffer_at_def)
qed


lemma itrunc_frees_witness:
  "free_rep 1 (snd (s5itrunc (\<lambda>_. None) 1024 small_file small_volume)) [30, 40, 41, 22, 21, 20]"
  using itrunc_frees[OF _ small_fs_file, of "\<lambda>_. None" "fst (s5itrunc (\<lambda>_. None) 1024 small_file small_volume)"
      "snd (s5itrunc (\<lambda>_. None) 1024 small_file small_volume)"]
  unfolding small_blocks by (simp add: small_file_def)

end
