(* ===== verification/Arena.thy ===== *)
theory Arena
  imports Prelude
begin

text \<open>
  The storage allocator of the C library, \<^verbatim>\<open>malloc.c\<close> and \<^verbatim>\<open>calloc.c\<close> of \<^verbatim>\<open>lib/libc/port/gen\<close>: circular first fit over an arena of
  blocks, each preceded by a word with the address of the next block and a busy bit. Memory is a map from the byte addresses of
  words to their values; an address is the unsigned value of the pointer, so pointer arithmetic is done modulo \<open>2 ^ 32\<close>
  wherever it can wrap. \<open>A\<close> is the address of \<^verbatim>\<open>allocs\<close>; \<open>grant\<close> says which break values the system accepts.
\<close>

section \<open>State\<close>

record heap =
  mem :: "int \<Rightarrow> int"
  allocp :: int
  alloct :: int
  allocx :: int
  allocend :: int
  nd :: int

definition um32 :: "int \<Rightarrow> int" where
  "um32 i = i mod 4294967296"

definition testbusy :: "int \<Rightarrow> bool" where
  "testbusy p \<longleftrightarrow> odd p"

definition setbusy :: "int \<Rightarrow> int" where
  "setbusy p = (if odd p then p else p + 1)"

definition clearbusy :: "int \<Rightarrow> int" where
  "clearbusy p = (if odd p then p - 1 else p)"

definition poke :: "int \<Rightarrow> int \<Rightarrow> heap \<Rightarrow> heap" where
  "poke a v st = st\<lparr>mem := (mem st)(a := v)\<rparr>"

text \<open>\<^verbatim>\<open>sbrk\<close> (\<^verbatim>\<open>lib/libc/m68k/sys/sbrk.s\<close>) asks the system for the break \<^verbatim>\<open>nd + n\<close>; the flag is false for -1.\<close>

definition brk :: "(int \<Rightarrow> bool) \<Rightarrow> int \<Rightarrow> heap \<Rightarrow> bool \<times> heap" where
  "brk grant b st = (if grant b then (True, st\<lparr>nd := b\<rparr>) else (False, st))"

definition sbrk :: "(int \<Rightarrow> bool) \<Rightarrow> int \<Rightarrow> heap \<Rightarrow> bool \<times> heap" where
  "sbrk grant n st = brk grant (um32 (nd st + n)) st"

abbreviation MAXALLOC :: int where "MAXALLOC \<equiv> 2147482624"

section \<open>Allocation\<close>

text \<open>The inner loop: block \<open>p\<close> takes in the idle blocks behind it; the answer is the block after it.\<close>

partial_function (option) coalesce :: "int \<Rightarrow> heap \<Rightarrow> (int \<times> heap) option" where
  "coalesce p st =
     (let q = mem st p
      in if testbusy (mem st q) then Some (q, st)
         else coalesce p ((poke p (mem st q) st)\<lparr>allocp := p, allocend := (if allocend st = q then p else allocend st)\<rparr>))"

datatype search = Found int int | Exhausted | Corrupt

text \<open>One search from block \<open>p\<close> on, until the top of the arena was passed twice.\<close>

definition try_block :: "int \<Rightarrow> int \<Rightarrow> heap \<Rightarrow> (int option \<times> heap) option" where
  "try_block nw p st =
     (if testbusy (mem st p) then Some (None, st)
      else map_option (\<lambda>(q, st). (if q \<ge> um32 (p + 4 * nw) \<and> um32 (p + 4 * nw) \<ge> p then Some q else None, st)) (coalesce p st))"

partial_function (option) scan :: "int \<Rightarrow> int \<Rightarrow> nat \<Rightarrow> int \<Rightarrow> heap \<Rightarrow> (search \<times> heap) option" where
  "scan A nw temp p st =
     (case try_block nw p st of
        None \<Rightarrow> None
      | Some (Some q, st) \<Rightarrow> Some (Found p q, st)
      | Some (None, st) \<Rightarrow>
          let q = p; p = clearbusy (mem st p)
          in if p > q then scan A nw temp p st
             else if q \<noteq> alloct st \<or> p \<noteq> A then Some (Corrupt, st)
             else if temp + 1 > 1 then Some (Exhausted, st)
             else scan A nw (temp + 1) p st)"

text \<open>The place, the size in bytes and \<^verbatim>\<open>incr\<close> of the addition to the arena.\<close>

definition extension :: "int \<Rightarrow> int \<Rightarrow> heap \<Rightarrow> int \<times> int \<times> int" where
  "extension nw incr st =
     (let q = nd st
      in if q \<noteq> alloct st + 4 then
           let temp = um32 (um32 (nw + 255) div 256 * 1024)
           in if q mod 4 \<noteq> 0 then let incr = 4 - q mod 4 in (q + incr, um32 (temp + incr), incr) else (q, temp, incr)
         else (q, um32 (um32 (um32 (nw - (alloct st - allocend st) div 4) + 256) div 256 * 1024), incr))"

text \<open>The memory is asked for in two pieces where one is too large for \<^verbatim>\<open>sbrk\<close>.\<close>

definition get_core :: "(int \<Rightarrow> bool) \<Rightarrow> int \<Rightarrow> int \<Rightarrow> heap \<Rightarrow> bool \<times> heap" where
  "get_core grant q temp st =
     (case (if temp > MAXALLOC then sbrk grant MAXALLOC st else (True, st)) of
        (False, st) \<Rightarrow> (False, st)
      | (True, st) \<Rightarrow>
          (case sbrk grant (if temp > MAXALLOC then temp - MAXALLOC else temp) st of
             (True, st) \<Rightarrow> (True, st)
           | (False, st) \<Rightarrow> (False, snd (brk grant q st))))"

definition extend :: "(int \<Rightarrow> bool) \<Rightarrow> int \<Rightarrow> int \<Rightarrow> int \<Rightarrow> heap \<Rightarrow> int option \<times> heap" where
  "extend grant A nw incr st =
     (case extension nw incr st of
        (q, temp, incr) \<Rightarrow>
          if um32 (q + temp) < q then (None, st)
          else case get_core grant q temp st of
            (False, st) \<Rightarrow> (None, st)
          | (True, st) \<Rightarrow>
              let t = alloct st;
                  st = poke t q (st\<lparr>allocend := q\<rparr>);
                  st = poke q (um32 (q + temp - incr - 4)) st;
                  st = (if q \<noteq> t + 4 then poke t (setbusy (mem st t)) st else st);
                  st = st\<lparr>alloct := mem st q\<rparr>
              in (Some incr, poke (alloct st) (setbusy A) st))"

partial_function (option) malloc_loop ::
    "(int \<Rightarrow> bool) \<Rightarrow> int \<Rightarrow> int \<Rightarrow> int \<Rightarrow> int \<Rightarrow> heap \<Rightarrow> ((int \<times> int) option \<times> heap) option" where
  "malloc_loop grant A nw incr p st =
     (case scan A nw 0 p st of
        None \<Rightarrow> None
      | Some (Found p q, st) \<Rightarrow> Some (Some (p, q), st)
      | Some (Corrupt, st) \<Rightarrow> Some (None, st)
      | Some (Exhausted, st) \<Rightarrow>
          (case extend grant A nw incr st of
             (None, st) \<Rightarrow> Some (None, st)
           | (Some incr, st') \<Rightarrow> malloc_loop grant A nw incr (allocend st) st'))"

text \<open>What follows \<^verbatim>\<open>found\<close>: the rest of the block stays idle.\<close>

definition take_block :: "int \<Rightarrow> int \<Rightarrow> int \<Rightarrow> heap \<Rightarrow> heap" where
  "take_block nw p q st =
     (let st = st\<lparr>allocp := um32 (p + 4 * nw)\<rparr>;
          st = (if q > allocp st then poke (allocp st) (mem st p) (st\<lparr>allocx := mem st (allocp st)\<rparr>) else st);
          st = poke p (setbusy (allocp st)) st
      in if allocend st = p then st\<lparr>allocend := allocp st\<rparr> else st)"

definition first_time :: "int \<Rightarrow> heap \<Rightarrow> heap" where
  "first_time A st =
     (if mem st A = 0 then
        (poke (A + 4) (setbusy A) (poke A (setbusy (A + 4)) st))\<lparr>alloct := A + 4, allocp := A, allocend := A + 4\<rparr>
      else st)"

text \<open>The number of words with the one before the block. An answer \<open>None\<close> of the loop does not arise on a sound arena.\<close>

definition malloc_words :: "int \<Rightarrow> int" where
  "malloc_words nbytes = um32 (nbytes + 7) div 4"

definition malloc :: "(int \<Rightarrow> bool) \<Rightarrow> int \<Rightarrow> int \<Rightarrow> heap \<Rightarrow> (int option \<times> heap) option" where
  "malloc grant A nbytes st =
     (let st = first_time A st; nw = malloc_words nbytes
      in case malloc_loop grant A nw 0 (allocp st) st of
           None \<Rightarrow> None
         | Some (None, st) \<Rightarrow> Some (None, st)
         | Some (Some (p, q), st) \<Rightarrow> Some (Some (p + 4), take_block nw p q st))"

section \<open>Release\<close>

definition free :: "int \<Rightarrow> heap \<Rightarrow> heap" where
  "free ap st =
     (let p = ap - 4;
          st = poke p (clearbusy (mem st p)) (st\<lparr>allocp := p\<rparr>)
      in if mem st p = alloct st then st\<lparr>allocend := p\<rparr> else st)"

text \<open>\<^verbatim>\<open>memcpy\<close> of \<open>n\<close> words, upwards.\<close>

definition copy_words :: "int \<Rightarrow> int \<Rightarrow> nat \<Rightarrow> heap \<Rightarrow> heap" where
  "copy_words q p n st = fold (\<lambda>i st. poke (q + 4 * int i) (mem st (p + 4 * int i)) st) [0..<n] st"

definition realloc :: "(int \<Rightarrow> bool) \<Rightarrow> int \<Rightarrow> int \<Rightarrow> int \<Rightarrow> heap \<Rightarrow> (int option \<times> heap) option" where
  "realloc grant A p nbytes st =
     (let st = (if testbusy (mem st (p - 4)) then free p st else st);
          onw = (mem st (p - 4) - p) div 4
      in case malloc grant A nbytes st of
           None \<Rightarrow> None
         | Some (None, st) \<Rightarrow> Some (None, st)
         | Some (Some q, st) \<Rightarrow>
             if q = p then Some (Some q, st)
             else
               let nw = um32 (nbytes + 3) div 4;
                   onw = (if nw < onw then nw else onw);
                   st = copy_words q p (nat onw) st
               in Some (Some q, if q < p \<and> q + 4 * nw \<ge> p then poke (q + (q + 4 * nw - p)) (allocx st) st else st))"

text \<open>\<^verbatim>\<open>calloc\<close>; \<^verbatim>\<open>memset\<close> clears whole words and the high bytes of a last one, the machine being big-endian.\<close>

definition clear_bytes :: "int \<Rightarrow> int \<Rightarrow> heap \<Rightarrow> heap" where
  "clear_bytes p n st =
     st\<lparr>mem := \<lambda>a. if p \<le> a \<and> a < p + n \<and> 4 dvd a - p then
                     (if a + 4 \<le> p + n then 0 else mem st a mod 256 ^ nat (4 - (p + n - a)))
                   else mem st a\<rparr>"

definition calloc :: "(int \<Rightarrow> bool) \<Rightarrow> int \<Rightarrow> int \<Rightarrow> int \<Rightarrow> heap \<Rightarrow> (int option \<times> heap) option" where
  "calloc grant A num sz st =
     (let num = um32 (num * sz)
      in case malloc grant A num st of
           None \<Rightarrow> None
         | Some (None, st) \<Rightarrow> Some (None, st)
         | Some (Some mp, st) \<Rightarrow> Some (Some mp, clear_bytes mp num st))"

definition cfree :: "int \<Rightarrow> int \<Rightarrow> int \<Rightarrow> heap \<Rightarrow> heap" where
  "cfree p num sz st = free p st"

declare coalesce.simps [code] scan.simps [code] malloc_loop.simps [code]

end
