(* ===== verification/Arena_Search.thy ===== *)
theory Arena_Search
  imports Arena
begin

text \<open>
  The arena as the list of its blocks, and what a search and an extension do to it: every search ends, and it finds
  a block after at most two extensions unless the system refuses memory.
\<close>

section \<open>The blocks of an arena\<close>

text \<open>A gap is a block that is busy for ever: \<^verbatim>\<open>allocs[0]\<close>, and memory between two pieces that \<^verbatim>\<open>sbrk\<close> gave.\<close>

datatype tag = Idle | Live | Gap

type_synonym block = "int \<times> tag"

primrec first :: "int \<Rightarrow> block list \<Rightarrow> int" where
  "first tp [] = tp"
| "first tp (b # bs) = fst b"

primrec linked :: "(int \<Rightarrow> int) \<Rightarrow> int \<Rightarrow> block list \<Rightarrow> bool" where
  "linked m tp [] \<longleftrightarrow> True"
| "linked m tp (b # bs) \<longleftrightarrow> m (fst b) = first tp bs + of_bool (snd b \<noteq> Idle) \<and> fst b < first tp bs \<and> 4 dvd fst b \<and> linked m tp bs"

primrec owned :: "int set \<Rightarrow> int \<Rightarrow> block list \<Rightarrow> bool" where
  "owned own tp [] \<longleftrightarrow> True"
| "owned own tp (b # bs) \<longleftrightarrow> (if snd b = Gap then fst b \<in> own else {fst b..<first tp bs} \<subseteq> own) \<and> owned own tp bs"

definition starts :: "block list \<Rightarrow> int set" where
  "starts bs = fst ` set bs"

definition arena :: "int \<Rightarrow> int set \<Rightarrow> heap \<Rightarrow> block list \<Rightarrow> bool" where
  "arena A own st bs \<longleftrightarrow> linked (mem st) (alloct st) bs \<and> owned own (alloct st) bs \<and> {alloct st..<alloct st + 4} \<subseteq> own \<and> bs \<noteq> [] \<and> first 0 bs = A \<and>
     0 < A \<and> 4 dvd alloct st \<and> mem st (alloct st) = A + 1 \<and> allocp st \<in> insert (alloct st) (starts bs) \<and>
     (allocend st = alloct st \<or> last bs = (allocend st, Idle)) \<and> alloct st + 4 \<le> nd st \<and> nd st < 4294967296 \<and> (\<forall>a \<in> own. a < nd st)"

lemma arenaD:
  assumes "arena A own st bs"
  shows "linked (mem st) (alloct st) bs" "owned own (alloct st) bs" "{alloct st..<alloct st + 4} \<subseteq> own" "bs \<noteq> []" "first 0 bs = A"
    "0 < A" "4 dvd alloct st" "mem st (alloct st) = A + 1" "allocp st \<in> insert (alloct st) (starts bs)"
    "allocend st = alloct st \<or> last bs = (allocend st, Idle)" "alloct st + 4 \<le> nd st" "nd st < 4294967296" "\<forall>a \<in> own. a < nd st"
  using assms unfolding arena_def by - (elim conjE, assumption)+

lemma starts_simps [simp]: "starts [] = {}" "starts (b # bs) = insert (fst b) (starts bs)" "starts (xs @ ys) = starts xs \<union> starts ys"
  by (auto simp: starts_def)

lemma first_append [simp]: "first tp (xs @ ys) = first (first tp ys) xs"
  by (cases xs) auto

lemma linked_append: "linked m tp (xs @ ys) \<longleftrightarrow> linked m (first tp ys) xs \<and> linked m tp ys"
  by (induction xs) auto

lemma owned_append: "owned own tp (xs @ ys) \<longleftrightarrow> owned own (first tp ys) xs \<and> owned own tp ys"
  by (induction xs) auto

lemma linked_cong: "(\<And>a. a \<in> starts bs \<Longrightarrow> m' a = m a) \<Longrightarrow> linked m' tp bs = linked m tp bs"
  by (induction bs) auto

lemma owned_mono: "owned own tp bs \<Longrightarrow> own \<subseteq> own' \<Longrightarrow> owned own' tp bs"
  by (induction bs) (auto split: if_splits)

lemma linked_bounds: "linked m tp bs \<Longrightarrow> first tp bs \<le> tp \<and> (\<forall>a \<in> starts bs. first tp bs \<le> a \<and> a < tp)"
proof (induction bs)
  case (Cons b bs)
  then have "first tp bs \<le> tp" "\<forall>a \<in> starts bs. first tp bs \<le> a \<and> a < tp" "fst b < first tp bs" by auto
  then show ?case by force
qed simp

lemma linked_below: "linked m tp bs \<Longrightarrow> a \<in> starts bs \<Longrightarrow> a < tp \<and> first tp bs \<le> a"
  using linked_bounds by blast

text \<open>The blocks before and after a block, and the rest of the arena.\<close>

lemma linked_split:
  assumes "linked m tp (xs @ b # ys)"
  shows "fst b < first tp ys" "first tp ys \<le> tp" "\<forall>a \<in> starts xs. a < fst b" "\<forall>a \<in> starts ys. first tp ys \<le> a"
    "m (fst b) = first tp ys + of_bool (snd b \<noteq> Idle)" "4 dvd fst b"
proof -
  have l: "linked m (fst b) xs" "linked m tp ys" "fst b < first tp ys" using assms by (auto simp: linked_append)
  show "fst b < first tp ys" "m (fst b) = first tp ys + of_bool (snd b \<noteq> Idle)" "4 dvd fst b" using assms by (auto simp: linked_append)
  show "first tp ys \<le> tp" using linked_below[OF l(2), of "first tp ys"] by (cases ys) auto
  show "\<forall>a \<in> starts xs. a < fst b" using linked_below[OF l(1)] by blast
  show "\<forall>a \<in> starts ys. first tp ys \<le> a" using linked_below[OF l(2)] by blast
qed

lemma linked_aligned: "linked m tp bs \<Longrightarrow> 4 dvd tp \<Longrightarrow> 4 dvd first tp bs"
  by (cases bs) auto

lemma busy_bit: "4 dvd (a :: int) \<Longrightarrow> odd (a + of_bool t) = t"
  by (cases t) (auto elim!: dvdE)

lemma linked_busy:
  assumes "linked m tp (xs @ b # ys)" "4 dvd tp"
  shows "testbusy (m (fst b)) \<longleftrightarrow> snd b \<noteq> Idle" "clearbusy (m (fst b)) = first tp ys"
proof -
  have "4 dvd first tp ys" using assms linked_aligned by (auto simp: linked_append)
  note bb = busy_bit[OF this, of "snd b \<noteq> Idle"]
  show "testbusy (m (fst b)) \<longleftrightarrow> snd b \<noteq> Idle" using bb linked_split(5)[OF assms(1)] by (simp add: testbusy_def)
  show "clearbusy (m (fst b)) = first tp ys" using bb linked_split(5)[OF assms(1)] by (cases "snd b = Idle") (simp_all add: clearbusy_def)
qed

lemma starts_split: "a \<in> starts bs \<Longrightarrow> \<exists>xs t ys. bs = xs @ (a, t) # ys"
  by (force simp: starts_def in_set_conv_decomp)

lemma idle_owned:
  assumes "arena A own st bs" "(a, Idle) \<in> set bs"
  shows "a \<in> own"
proof -
  obtain xs ys where "bs = xs @ (a, Idle) # ys" using assms(2) by (auto simp: in_set_conv_decomp)
  then show ?thesis using assms(1) linked_split(1)[of "mem st" "alloct st" xs "(a, Idle)" ys]
    by (auto simp: arena_def owned_append)
qed

text \<open>Idle neighbours become one block.\<close>

inductive merges :: "block list \<Rightarrow> block list \<Rightarrow> bool" where
  merges_refl: "merges bs bs"
| merges_step: "merges bs (xs @ (a, Idle) # (b, Idle) # ys) \<Longrightarrow> merges bs (xs @ (a, Idle) # ys)"

lemma merges_trans: "merges bs' bs'' \<Longrightarrow> merges bs bs' \<Longrightarrow> merges bs bs''"
  by (induction rule: merges.induct) (auto intro: merges.intros)

lemma merges_sub: "merges bs bs' \<Longrightarrow> set bs' \<subseteq> set bs \<and> (\<forall>a t. t \<noteq> Idle \<longrightarrow> (a, t) \<in> set bs \<longrightarrow> (a, t) \<in> set bs')"
  by (induction rule: merges.induct) auto

lemma merges_snoc:
  "(\<forall>y \<in> set ys. snd y = Idle) \<Longrightarrow> merges (xs @ (a, Idle) # ys @ zs) (xs @ (a, Idle) # zs)"
proof (induction ys)
  case (Cons y ys)
  then have "merges (xs @ (a, Idle) # ys @ zs) (xs @ (a, Idle) # zs)" by simp
  moreover have "merges (xs @ (a, Idle) # y # ys @ zs) (xs @ (a, Idle) # ys @ zs)"
    using merges_step[OF merges_refl, of xs a "fst y" "ys @ zs"] Cons.prems by (cases y) simp
  ultimately show ?case using merges_trans by simp
qed (simp add: merges_refl)

section \<open>What changes while the allocator looks for a block\<close>

text \<open>The blocks that the program holds stay, with their contents; what is written lies in idle blocks or above the old top.\<close>

definition grown :: "int \<Rightarrow> int set \<Rightarrow> heap \<Rightarrow> block list \<Rightarrow> int set \<Rightarrow> heap \<Rightarrow> block list \<Rightarrow> bool" where
  "grown A own st bs own' st' bs' \<longleftrightarrow> arena A own' st' bs' \<and> own \<subseteq> own' \<and> (\<forall>a \<in> own' - own. nd st \<le> a) \<and>
     nd st \<le> nd st' \<and> alloct st \<le> alloct st' \<and>
     {b. (b, Live) \<in> set bs'} = {b. (b, Live) \<in> set bs} \<and> (\<forall>a t. (a, t) \<in> set bs' \<longrightarrow> (a, t) \<in> set bs \<or> alloct st \<le> a) \<and>
     (\<forall>a. (a, Idle) \<notin> set bs \<longrightarrow> a < alloct st \<or> a \<notin> own' \<longrightarrow> mem st' a = mem st a) \<and> allocx st' = allocx st \<and>
     (4 dvd nd st \<longrightarrow> 4 dvd nd st')"

lemma grownD:
  assumes "grown A own st bs own' st' bs'"
  shows "arena A own' st' bs'" "own \<subseteq> own'" "\<forall>a \<in> own' - own. nd st \<le> a" "nd st \<le> nd st'" "alloct st \<le> alloct st'"
    "{b. (b, Live) \<in> set bs'} = {b. (b, Live) \<in> set bs}" "\<forall>a t. (a, t) \<in> set bs' \<longrightarrow> (a, t) \<in> set bs \<or> alloct st \<le> a"
    "\<forall>a. (a, Idle) \<notin> set bs \<longrightarrow> a < alloct st \<or> a \<notin> own' \<longrightarrow> mem st' a = mem st a" "allocx st' = allocx st"
    "4 dvd nd st \<longrightarrow> 4 dvd nd st'"
  using assms unfolding grown_def by - (elim conjE, assumption)+

lemma grown_refl: "arena A own st bs \<Longrightarrow> grown A own st bs own st bs"
  by (simp add: grown_def)

lemma grown_trans:
  assumes "grown A own st bs own' st' bs'" "grown A own' st' bs' own'' st'' bs''"
  shows "grown A own st bs own'' st'' bs''"
proof -
  note G = grownD[OF assms(1)] and H = grownD[OF assms(2)]
  have old: "(a, t) \<in> set bs'' \<Longrightarrow> (a, t) \<in> set bs \<or> alloct st \<le> a" for a t using G(5,7) H(7) by force
  have m: "mem st'' a = mem st a" if a: "(a, Idle) \<notin> set bs" "a < alloct st \<or> a \<notin> own''" for a
  proof -
    have "mem st' a = mem st a" using G(8) a H(2) by blast
    moreover have "(a, Idle) \<notin> set bs'" using idle_owned[OF G(1), of a] G(7) a H(2) by force
    then have "mem st'' a = mem st' a" using H(8) a(2) G(5) by force
    ultimately show ?thesis by simp
  qed
  show ?thesis unfolding grown_def
  proof (intro conjI)
    show "\<forall>a \<in> own'' - own. nd st \<le> a" using G(3,4) H(3) by force
    show "\<forall>a t. (a, t) \<in> set bs'' \<longrightarrow> (a, t) \<in> set bs \<or> alloct st \<le> a" using old by blast
    show "\<forall>a. (a, Idle) \<notin> set bs \<longrightarrow> a < alloct st \<or> a \<notin> own'' \<longrightarrow> mem st'' a = mem st a" using m by blast
  qed (use G(2,4,5,6,9,10) H(1,2,4,5,6,9,10) in \<open>(blast | linarith | simp)+\<close>)
qed

section \<open>Searching\<close>

lemma linked_around:
  assumes "linked m tp (xs @ b # ys)" "\<And>a. a \<noteq> fst b \<Longrightarrow> m' a = m a"
  shows "linked m' (fst b) xs" "linked m' tp ys"
proof -
  have "fst b \<notin> starts xs" "fst b \<notin> starts ys" using linked_split(1,3,4)[OF assms(1)] by force+
  moreover have "linked m (fst b) xs" "linked m tp ys" using assms(1) by (auto simp: linked_append)
  ultimately show "linked m' (fst b) xs" "linked m' tp ys" using linked_cong[of _ m' m] assms(2) by metis+
qed

text \<open>One turn of the inner loop.\<close>

lemma merge_arena:
  assumes ar: "arena A own st (xs @ (p, Idle) # (q, Idle) # rs)"
  defines "st' \<equiv> (poke p (mem st q) st)\<lparr>allocp := p, allocend := (if allocend st = q then p else allocend st)\<rparr>"
  shows "arena A own st' (xs @ (p, Idle) # rs)"
proof -
  let ?t = "alloct st" and ?bs = "xs @ (p, Idle) # (q, Idle) # rs"
  have l: "linked (mem st) ?t ?bs" and o: "owned own ?t ?bs" and e: "allocend st = ?t \<or> last ?bs = (allocend st, Idle)"
    using ar by (auto simp: arena_def)
  have q: "p < q" "q < first ?t rs" "first ?t rs \<le> ?t" "q \<notin> starts rs" "mem st q = first ?t rs"
    using linked_split[of "mem st" ?t "xs @ [(p, Idle)]" "(q, Idle)" rs] linked_split(1)[of "mem st" ?t xs "(p, Idle)" "(q, Idle) # rs"] l by force+
  note ar' = linked_around[of "mem st" ?t xs "(p, Idle)" "(q, Idle) # rs" "mem st'", OF l]
  have m: "mem st' a = mem st a" if "a \<noteq> p" for a using that by (simp add: st'_def poke_def)
  have "linked (mem st') ?t (xs @ (p, Idle) # rs)"
    using ar' m l q by (simp add: linked_append st'_def poke_def)
  moreover have "owned own ?t (xs @ (p, Idle) # rs)"
  proof -
    have "{p..<first ?t rs} = {p..<q} \<union> {q..<first ?t rs}" using q by auto
    then show ?thesis using o by (auto simp: owned_append)
  qed
  moreover have "allocend st' = ?t \<or> last (xs @ (p, Idle) # rs) = (allocend st', Idle)"
  proof (cases "rs = []")
    case False
    have "allocend st \<noteq> q"
    proof
      assume a: "allocend st = q"
      then have "last rs = (q, Idle)" using e False q by auto
      then have "(q, Idle) \<in> set rs" using False last_in_set by metis
      then show False using q(4) by (force simp: starts_def)
    qed
    then show ?thesis using e False by (simp add: st'_def)
  qed (use e q in \<open>auto simp: st'_def\<close>)
  moreover have "mem st' ?t = mem st ?t" using m q by force
  moreover have "first 0 (xs @ (p, Idle) # rs) = first 0 ?bs" by (cases xs) auto
  ultimately show ?thesis using ar unfolding arena_def by (simp add: st'_def poke_def)
qed

lemma coalesce_ok:
  assumes "arena A own st (xs @ (p, Idle) # ys @ zs)" "\<forall>y \<in> set ys. snd y = Idle" "zs = [] \<or> snd (hd zs) \<noteq> Idle"
  shows "\<exists>st'. coalesce p st = Some (first (alloct st) zs, st') \<and> arena A own st' (xs @ (p, Idle) # zs) \<and>
    (\<forall>a. a \<noteq> p \<longrightarrow> mem st' a = mem st a) \<and> alloct st' = alloct st \<and> nd st' = nd st \<and> allocx st' = allocx st"
  using assms(1,2)
proof (induction ys arbitrary: st)
  case Nil
  let ?t = "alloct st"
  have l: "linked (mem st) ?t (xs @ (p, Idle) # zs)" and t: "4 dvd ?t" "mem st ?t = A + 1" and f: "first 0 (xs @ (p, Idle) # zs) = A"
    using Nil by (auto simp: arena_def)
  have "4 dvd A" using linked_aligned[OF l t(1)] f by (cases xs) auto
  then have b: "testbusy (A + 1)" using busy_bit[of A True] by (simp add: testbusy_def)
  have "testbusy (mem st (first ?t zs))"
  proof (cases zs)
    case (Cons z zs')
    then show ?thesis using linked_busy(1)[of "mem st" ?t "xs @ [(p, Idle)]" z zs'] l t(1) assms(3) by simp
  qed (use t b in simp)
  moreover have "mem st p = first ?t zs" using linked_split(5)[OF l] by simp
  ultimately show ?case using Nil by (subst coalesce.simps) simp
next
  case (Cons y ys)
  obtain q where y: "y = (q, Idle)" using Cons.prems(2) by (cases y) auto
  let ?st = "(poke p (mem st q) st)\<lparr>allocp := p, allocend := (if allocend st = q then p else allocend st)\<rparr>"
  have ar: "arena A own st (xs @ (p, Idle) # (q, Idle) # ys @ zs)" using Cons.prems(1) y by simp
  then have l: "linked (mem st) (alloct st) (xs @ (p, Idle) # (q, Idle) # ys @ zs)" "4 dvd alloct st" by (auto simp: arena_def)
  have "mem st p = q" using linked_split(5)[OF l(1)] by simp
  moreover have "\<not> testbusy (mem st q)"
    using linked_busy(1)[of "mem st" "alloct st" "xs @ [(p, Idle)]" "(q, Idle)" "ys @ zs"] l by simp
  ultimately have "coalesce p st = coalesce p ?st" by (subst coalesce.simps) simp
  moreover from Cons.IH[OF merge_arena[OF ar]] Cons.prems(2) obtain st' where
    "coalesce p ?st = Some (first (alloct st) zs, st')" "arena A own st' (xs @ (p, Idle) # zs)"
    "\<forall>a. a \<noteq> p \<longrightarrow> mem st' a = mem st a" "alloct st' = alloct st" "nd st' = nd st" "allocx st' = allocx st"
    by (auto simp: poke_def)
  ultimately show ?case by auto
qed

text \<open>What a search from a block of the arena ends with.\<close>

primrec roomy :: "int \<Rightarrow> int \<Rightarrow> block list \<Rightarrow> bool" where
  "roomy nw tp [] \<longleftrightarrow> False"
| "roomy nw tp (b # bs) \<longleftrightarrow> snd b = Idle \<and> fst b + 4 * nw \<le> first tp (dropWhile (\<lambda>b. snd b = Idle) bs) \<or> roomy nw tp bs"

lemma roomy_dropWhile:
  "roomy nw tp bs \<Longrightarrow> \<forall>a \<in> starts bs. p \<le> a \<Longrightarrow> \<not> p + 4 * nw \<le> first tp (dropWhile (\<lambda>b. snd b = Idle) bs) \<Longrightarrow>
     roomy nw tp (dropWhile (\<lambda>b. snd b = Idle) bs)"
  by (induction bs) auto

primrec tight :: "int \<Rightarrow> int \<Rightarrow> block list \<Rightarrow> bool" where
  "tight nw tp [] \<longleftrightarrow> True"
| "tight nw tp (b # bs) \<longleftrightarrow> (snd b = Idle \<longrightarrow> first tp bs < fst b + 4 * nw) \<and> tight nw tp bs"

lemma tight_append: "tight nw tp (xs @ ys) \<longleftrightarrow> tight nw (first tp ys) xs \<and> tight nw tp ys"
  by (induction xs) auto

definition searched :: "bool \<Rightarrow> int \<Rightarrow> int set \<Rightarrow> heap \<Rightarrow> block list \<Rightarrow> int \<Rightarrow> (search \<times> heap) option \<Rightarrow> bool" where
  "searched fd A own st bs nw r \<longleftrightarrow>
     (\<exists>r' st' bs'. r = Some (r', st') \<and> grown A own st bs own st' bs' \<and> nd st' = nd st \<and> alloct st' = alloct st \<and>
        (case r' of
           Found p q \<Rightarrow> (\<exists>us vs. bs' = us @ (p, Idle) # vs \<and> q = first (alloct st') vs \<and> p + 4 * nw \<le> q)
         | Exhausted \<Rightarrow> \<not> fd \<and> tight nw (alloct st') bs'
         | Corrupt \<Rightarrow> False))"

lemma searched_weaken: "searched fd A own st bs nw r \<Longrightarrow> fd' \<longrightarrow> fd \<Longrightarrow> searched fd' A own st bs nw r"
proof -
  assume "searched fd A own st bs nw r" and f: "fd' \<longrightarrow> fd"
  then obtain r' st' bs' where "r = Some (r', st')" "grown A own st bs own st' bs'" "nd st' = nd st" "alloct st' = alloct st"
    "case r' of Found p q \<Rightarrow> (\<exists>us vs. bs' = us @ (p, Idle) # vs \<and> q = first (alloct st') vs \<and> p + 4 * nw \<le> q)
     | Exhausted \<Rightarrow> \<not> fd \<and> tight nw (alloct st') bs' | Corrupt \<Rightarrow> False" unfolding searched_def by blast
  then show "searched fd' A own st bs nw r" using f unfolding searched_def by (cases r') auto
qed

lemma fits_iff:
  assumes "0 \<le> p" "p < 4294967296" "0 \<le> nw" "nw < 1073741824" "q < 4294967296"
  shows "q \<ge> um32 (p + 4 * nw) \<and> um32 (p + 4 * nw) \<ge> p \<longleftrightarrow> p + 4 * nw \<le> q"
proof (cases "p + 4 * nw < 4294967296")
  case False
  then have "(p + 4 * nw - 4294967296) mod 4294967296 = p + 4 * nw - 4294967296" using assms by (intro mod_pos_pos_trivial) auto
  then have "um32 (p + 4 * nw) = p + 4 * nw - 4294967296" unfolding um32_def by (simp only: minus_mod_self2)
  then show ?thesis using False assms by auto
qed (use assms in \<open>auto simp: um32_def\<close>)

lemma scan_gen:
  assumes nw: "1 \<le> nw" "nw < 1073741824" and g0: "arena A own st0 bs0"
    and tp: "\<And>st' bs'. grown A own st0 bs0 own st' bs' \<Longrightarrow> nd st' = nd st0 \<Longrightarrow> alloct st' = alloct st0 \<Longrightarrow>
      tg \<longrightarrow> tight nw (alloct st') bs' \<Longrightarrow> searched False A own st0 bs0 nw (scan A nw temp (alloct st') st')"
  shows "grown A own st0 bs0 own st (xs @ rest) \<Longrightarrow> nd st = nd st0 \<Longrightarrow> alloct st = alloct st0 \<Longrightarrow>
    tg \<longrightarrow> tight nw (first (alloct st) rest) xs \<Longrightarrow> searched (roomy nw (alloct st) rest) A own st0 bs0 nw (scan A nw temp (first (alloct st) rest) st)"
proof (induction "length rest" arbitrary: st xs rest rule: less_induct)
  case less
  let ?t = "alloct st" and ?idle = "\<lambda>b :: block. snd b = Idle"
  show ?case
  proof (cases rest)
    case Nil
    then show ?thesis using tp[OF less.prems(1-3)] less.prems(4) by simp
  next
    case (Cons b r)
    note ar = grownD(1)[OF less.prems(1)[unfolded Cons]]
    have l: "linked (mem st) ?t (xs @ b # r)" "4 dvd ?t" using ar by (auto simp: arena_def)
    note B = linked_busy[OF l]
    show ?thesis
    proof (cases "snd b = Idle")
      case False
      have "scan A nw temp (fst b) st = scan A nw temp (first ?t r) st"
        using B False linked_split(1)[OF l(1)] by (subst scan.simps) (simp add: try_block_def Let_def)
      moreover have "searched (roomy nw ?t r) A own st0 bs0 nw (scan A nw temp (first ?t r) st)"
        using less.hyps[of r st "xs @ [b]"] less.prems Cons False by (simp add: tight_append)
      ultimately show ?thesis using Cons False by simp
    next
      case True
      define p where "p = fst b"
      have b: "b = (p, Idle)" using True by (cases b) (simp add: p_def)
      define ys zs where "ys = takeWhile ?idle r" and "zs = dropWhile ?idle r"
      have r: "r = ys @ zs" "\<forall>y \<in> set ys. snd y = Idle" "zs = [] \<or> snd (hd zs) \<noteq> Idle"
        using hd_dropWhile[of ?idle r] by (auto simp: ys_def zs_def dest: set_takeWhileD)
      from coalesce_ok[of A own st xs p ys zs] ar r b obtain st' where
        C: "coalesce p st = Some (first ?t zs, st')" "arena A own st' (xs @ (p, Idle) # zs)"
          "\<forall>a. a \<noteq> p \<longrightarrow> mem st' a = mem st a" "alloct st' = ?t" "nd st' = nd st" "allocx st' = allocx st" by auto
      have m: "merges (xs @ rest) (xs @ (p, Idle) # zs)" using merges_snoc[OF r(2), of xs p zs] Cons b r(1) by simp
      have "grown A own st (xs @ rest) own st' (xs @ (p, Idle) # zs)"
        unfolding grown_def using C merges_sub[OF m] Cons b by auto
      then have G: "grown A own st0 bs0 own st' (xs @ (p, Idle) # zs)" using grown_trans less.prems(1) by blast
      have l': "linked (mem st') ?t (xs @ (p, Idle) # zs)" "4 dvd ?t" using C(2,4) by (auto simp: arena_def)
      note B' = linked_busy[OF l']
      let ?q = "first ?t zs"
      have rng: "0 \<le> p" "p < 4294967296" "?q < 4294967296"
      proof -
        have "0 < A" "first 0 (xs @ (p, Idle) # zs) = A" "?t + 4 \<le> nd st" "nd st < 4294967296" using C(2,4,5) by (auto simp: arena_def)
        moreover have "A \<le> p" using calculation(2) linked_split(3)[OF l'(1)] by (cases xs) auto
        ultimately show "0 \<le> p" "p < 4294967296" "?q < 4294967296" using linked_split(1,2)[OF l'(1)] by auto
      qed
      have t: "try_block nw p st = Some (if p + 4 * nw \<le> ?q then Some ?q else None, st')"
        using B C(1) True fits_iff[OF rng(1,2) _ nw(2) rng(3)] nw(1) by (simp add: try_block_def p_def)
      show ?thesis
      proof (cases "p + 4 * nw \<le> ?q")
        case True
        then have "scan A nw temp p st = Some (Found p ?q, st')" using t by (subst scan.simps) simp
        then show ?thesis using G C(4,5) True less.prems(2,3) Cons b unfolding searched_def by auto
      next
        case False
        have "scan A nw temp p st = scan A nw temp ?q st'"
          using t False B'(2) linked_split(1)[OF l'(1)] by (subst scan.simps) (simp add: Let_def)
        moreover have "searched (roomy nw ?t zs) A own st0 bs0 nw (scan A nw temp ?q st')"
          using less.hyps[of zs st' "xs @ [(p, Idle)]"] G C(4,5) less.prems(2-4) Cons r(1) b False by (simp add: tight_append)
        moreover have "roomy nw ?t rest \<Longrightarrow> roomy nw ?t zs"
        proof -
          have "\<forall>a \<in> starts r. p \<le> a" using linked_split(1,4)[OF l(1)] b by force
          then show "roomy nw ?t rest \<Longrightarrow> roomy nw ?t zs"
            using roomy_dropWhile[of nw ?t r p] False Cons b by (auto simp: zs_def)
        qed
        ultimately show ?thesis using Cons b searched_weaken by auto
      qed
    qed
  qed
qed

lemma scan_top:
  assumes "arena A own st bs"
  shows "scan A nw temp (alloct st) st = (if temp = 0 then scan A nw 1 A st else Some (Exhausted, st))"
proof -
  have l: "linked (mem st) (alloct st) bs" "4 dvd alloct st" and m: "mem st (alloct st) = A + 1" and f: "first 0 bs = A" "bs \<noteq> []"
    using assms by (auto simp: arena_def)
  have A: "4 dvd A" "A < alloct st" using linked_aligned[OF l] linked_below[OF l(1), of A] f by (cases bs; auto)+
  then have "odd (A + 1)" using busy_bit[of A True] by simp
  then show ?thesis using A(2) m by (subst scan.simps) (simp add: try_block_def testbusy_def clearbusy_def Let_def)
qed

lemma scan_ok:
  assumes nw: "1 \<le> nw" "nw < 1073741824" and ar: "arena A own st (xs @ rest)"
  shows "searched (roomy nw (alloct st) rest) A own st (xs @ rest) nw (scan A nw 0 (first (alloct st) rest) st)"
proof -
  have 1: "searched False A own st (xs @ rest) nw (scan A nw 1 (alloct st') st')"
    if "grown A own st (xs @ rest) own st' bs'" "nd st' = nd st" "alloct st' = alloct st" "True \<longrightarrow> tight nw (alloct st') bs'" for st' bs'
    using that scan_top[OF grownD(1)[OF that(1)], of nw 1] by (auto simp: searched_def)
  have 0: "searched False A own st (xs @ rest) nw (scan A nw 0 (alloct st') st')"
    if g: "grown A own st (xs @ rest) own st' bs'" "nd st' = nd st" "alloct st' = alloct st" "False \<longrightarrow> tight nw (alloct st') bs'" for st' bs'
  proof -
    have f: "first (alloct st') bs' = A" "bs' \<noteq> []" using grownD(1)[OF g(1)] by (cases bs'; auto simp: arena_def)+
    have "searched (roomy nw (alloct st') bs') A own st (xs @ rest) nw (scan A nw 1 (first (alloct st') bs') st')"
      by (rule scan_gen[OF nw ar, where xs = "[]"], erule (3) 1) (use g in auto)
    then show ?thesis unfolding f(1) using scan_top[OF grownD(1)[OF g(1)], of nw 0] searched_weaken by auto
  qed
  show ?thesis by (rule scan_gen[OF nw ar], erule (3) 0) (use grown_refl[OF ar] in auto)
qed

section \<open>Extending the arena\<close>

text \<open>The system refused a break value that the request needs.\<close>

definition refused :: "(int \<Rightarrow> bool) \<Rightarrow> int \<Rightarrow> int \<Rightarrow> bool" where
  "refused grant lo n \<longleftrightarrow> (\<exists>b. lo \<le> b \<and> b \<le> lo + n \<and> (\<not> grant b \<or> 4294967296 \<le> b))"

lemma um32_id: "0 \<le> i \<Longrightarrow> i < 4294967296 \<Longrightarrow> um32 i = i"
  by (simp add: um32_def)

lemma round_up: "(1::int) \<le> n \<Longrightarrow> n \<le> (n + 255) div 256 * 256 \<and> (n + 255) div 256 * 256 \<le> n + 255 \<and> (n mod 256 \<noteq> 0 \<longrightarrow> n + 1 \<le> (n + 255) div 256 * 256)"
proof -
  have "256 * ((n + 255) div 256) + (n + 255) mod 256 = n + 255" "0 \<le> (n + 255) mod 256" "(n + 255) mod 256 < 256" by simp_all
  moreover have "n mod 256 = 0" if "n = (n + 255) div 256 * 256" by (subst that) (rule mod_mult_self2_is_0)
  ultimately show ?thesis by linarith
qed

text \<open>The new block starts at \<open>q\<close>, the next multiple of 4 from the break on, and the arena grows by \<open>n\<close> bytes.\<close>

definition added :: "int \<Rightarrow> heap \<Rightarrow> int \<Rightarrow> int \<Rightarrow> int \<Rightarrow> bool" where
  "added nw st q n incr \<longleftrightarrow> q = nd st + incr \<and> 4 dvd q \<and> 0 \<le> incr \<and> incr < 4 \<and> (4 dvd nd st \<longrightarrow> incr = 0) \<and>
     4 dvd n \<and> 1024 \<le> n \<and> n \<le> 4 * nw + 1024 \<and>
     (if nd st = alloct st + 4 then allocend st + 4 * nw \<le> alloct st + n else 4 * nw \<le> n \<and> (nw mod 256 \<noteq> 0 \<longrightarrow> 4 * nw + 4 \<le> n))"

lemma extension_added:
  assumes "1 \<le> nw" "nw \<le> 1073741312" "4 dvd alloct st" "4 dvd allocend st" "allocend st \<le> alloct st" "alloct st < allocend st + 4 * nw"
  shows "\<exists>q n incr. extension nw 0 st = (q, n + incr, incr) \<and> added nw st q n incr"
proof (cases "nd st = alloct st + 4")
  case True
  define d where "d = (alloct st - allocend st) div 4"
  have "4 dvd alloct st - allocend st" using assms(3,4) by (rule dvd_diff)
  then have d: "alloct st - allocend st = 4 * d" by (simp add: d_def)
  define w where "w = nw - d"
  have w: "1 \<le> w" "w \<le> nw" using d assms(5,6) by (auto simp: w_def)
  note R = round_up[of "w + 1"]
  have u: "um32 w = w" "um32 (w + 256) = w + 256" using w assms(2) by (auto intro: um32_id)
  have "um32 ((w + 256) div 256 * 1024) = (w + 256) div 256 * 1024"
    using R w assms(2) by (intro um32_id) (auto simp: ac_simps)
  then have "extension nw 0 st = (nd st, (w + 256) div 256 * 1024 + 0, 0)"
    using True u unfolding extension_def d_def[symmetric] w_def[symmetric] by (simp add: Let_def)
  moreover have "added nw st (nd st) ((w + 256) div 256 * 1024) 0"
    unfolding added_def using True assms(3) R w d by (auto simp: w_def ac_simps)
  ultimately show ?thesis by blast
next
  case False
  let ?n = "(nw + 255) div 256 * 1024" and ?q = "nd st"
  note R = round_up[OF assms(1)]
  have n: "4 * nw \<le> ?n" "?n \<le> 4 * nw + 1020" "nw mod 256 \<noteq> 0 \<longrightarrow> 4 * nw + 4 \<le> ?n" "4 dvd ?n" "1024 \<le> ?n" using R assms(1) by auto
  have u: "um32 (nw + 255) = nw + 255" "um32 ?n = ?n" using n assms(1,2) by (auto intro!: um32_id)
  show ?thesis
  proof (cases "?q mod 4 = 0")
    case True
    then have "extension nw 0 st = (?q, ?n + 0, 0)" using False u by (simp add: extension_def Let_def)
    moreover have "added nw st ?q ?n 0" unfolding added_def using n False True by auto
    ultimately show ?thesis by blast
  next
    case nz: False
    let ?i = "4 - ?q mod 4"
    have i: "0 < ?i" "?i < 4" using nz pos_mod_bound[of 4 ?q] pos_mod_sign[of 4 ?q] by linarith+
    have "um32 (?n + ?i) = ?n + ?i" using n i assms(2) by (intro um32_id) auto
    then have "extension nw 0 st = (?q + ?i, ?n + ?i, ?i)" using False nz u by (simp add: extension_def Let_def)
    moreover have "4 dvd ?q + ?i"
    proof -
      have "?q + ?i = 4 * (?q div 4 + 1)" by presburger
      then show ?thesis by (rule dvdI)
    qed
    then have "added nw st (?q + ?i) ?n ?i" unfolding added_def using n i False nz by auto
    ultimately show ?thesis by blast
  qed
qed

lemma get_core_ok:
  assumes "0 \<le> nd st" "nd st + temp < 4294967296" "0 \<le> temp" "nd st \<le> q" "q < 4294967296"
  shows "get_core grant q temp st = (True, st\<lparr>nd := nd st + temp\<rparr>) \<or>
    (\<exists>b. get_core grant q temp st = (False, st\<lparr>nd := b\<rparr>) \<and> nd st \<le> b \<and> b < 4294967296 \<and>
      (4 dvd nd st \<and> 4 dvd q \<longrightarrow> 4 dvd b) \<and> refused grant (nd st) temp)"
proof (cases "temp > MAXALLOC")
  case False
  have u: "um32 (nd st + temp) = nd st + temp" using assms by (intro um32_id) auto
  show ?thesis
  proof (cases "grant (nd st + temp)")
    case no: False
    then have "refused grant (nd st) temp" using assms(3) unfolding refused_def by (intro exI[of _ "nd st + temp"]) auto
    moreover have "get_core grant q temp st = (False, snd (brk grant q st))" using no False u by (simp add: get_core_def sbrk_def brk_def)
    moreover have "snd (brk grant q st) = st\<lparr>nd := if grant q then q else nd st\<rparr>" by (simp add: brk_def)
    ultimately show ?thesis using assms by (intro disjI2 exI[of _ "if grant q then q else nd st"]) auto
  qed (use False u in \<open>simp add: get_core_def sbrk_def brk_def\<close>)
next
  case True
  have u: "um32 (nd st + temp) = nd st + temp" "um32 (nd st + MAXALLOC) = nd st + MAXALLOC" using assms True by (auto intro!: um32_id)
  have e: "nd st + MAXALLOC + (temp - MAXALLOC) = nd st + temp" by simp
  show ?thesis
  proof (cases "grant (nd st + MAXALLOC)")
    case False
    then have "refused grant (nd st) temp" using assms(3) True unfolding refused_def by (intro exI[of _ "nd st + MAXALLOC"]) auto
    then show ?thesis using False True u assms by (intro disjI2 exI[of _ "nd st"]) (simp add: get_core_def sbrk_def brk_def)
  next
    case yes: True
    show ?thesis
    proof (cases "grant (nd st + temp)")
      case False
      then have "refused grant (nd st) temp" using assms(3) unfolding refused_def by (intro exI[of _ "nd st + temp"]) auto
      moreover have "get_core grant q temp st = (False, snd (brk grant q (st\<lparr>nd := nd st + MAXALLOC\<rparr>)))"
        using False yes True u by (simp add: get_core_def sbrk_def brk_def)
      moreover have "snd (brk grant q (st\<lparr>nd := nd st + MAXALLOC\<rparr>)) = st\<lparr>nd := if grant q then q else nd st + MAXALLOC\<rparr>" by (simp add: brk_def)
      ultimately show ?thesis using assms True by (intro disjI2 exI[of _ "if grant q then q else nd st + MAXALLOC"]) auto
    qed (use True yes u in \<open>simp add: get_core_def sbrk_def brk_def\<close>)
  qed
qed

definition enlarged :: "int \<Rightarrow> int \<Rightarrow> int \<Rightarrow> heap \<Rightarrow> heap" where
  "enlarged A q n st =
     st\<lparr>mem := (mem st)(alloct st := (if q \<noteq> alloct st + 4 then q + 1 else q), q := q + n - 4, q + n - 4 := A + 1),
        alloct := q + n - 4, allocend := q, nd := q + n\<rparr>"

definition enlarged_blocks :: "int \<Rightarrow> heap \<Rightarrow> block list \<Rightarrow> block list" where
  "enlarged_blocks q st bs = bs @ [(alloct st, if q \<noteq> alloct st + 4 then Gap else Idle), (q, Idle)]"

lemma extend_enlarged:
  assumes ar: "arena A own st bs" and ad: "added nw st q n incr" "extension nw 0 st = (q, n + incr, incr)" and nw: "nw \<le> 1073741312"
  shows "extend grant A nw 0 st = (Some incr, enlarged A q n st) \<and> q + n < 4294967296 \<or>
    (\<exists>b. extend grant A nw 0 st = (None, st\<lparr>nd := b\<rparr>) \<and> nd st \<le> b \<and> b < 4294967296 \<and>
      (4 dvd nd st \<longrightarrow> 4 dvd b) \<and> refused grant (nd st) (4 * nw + 2048))"
proof -
  have a: "q = nd st + incr" "4 dvd q" "0 \<le> incr" "incr < 4" "4 dvd n" "1024 \<le> n" "n \<le> 4 * nw + 1024" using ad(1) by (auto simp: added_def)
  have t: "alloct st + 4 \<le> nd st" "nd st < 4294967296" "0 < A" "4 dvd alloct st" "linked (mem st) (alloct st) bs" "bs \<noteq> []" "first 0 bs = A"
    using ar by (auto simp: arena_def)
  have A: "A < alloct st" "4 dvd A" using linked_below[OF t(5), of A] linked_aligned[OF t(5,4)] t(6,7) by (cases bs; auto)+
  have ref: "refused grant (nd st) (n + incr) \<Longrightarrow> refused grant (nd st) (4 * nw + 2048)" using a unfolding refused_def by force
  have n: "n + incr < 4294967296" "0 \<le> n + incr" "0 \<le> nd st" using a nw t A by auto
  show ?thesis
  proof (cases "q + (n + incr) < 4294967296")
    case False
    have "(q + (n + incr)) mod 4294967296 = (q + (n + incr) - 4294967296) mod 4294967296" by (simp only: minus_mod_self2)
    also have "\<dots> \<le> q + (n + incr) - 4294967296" using False by (intro zmod_le_nonneg_dividend) auto
    finally have "um32 (q + (n + incr)) < q" using n by (simp add: um32_def)
    moreover have "refused grant (nd st) (4 * nw + 2048)" unfolding refused_def
      using False a t by (intro exI[of _ "nd st + (4 * nw + 2048)"]) auto
    ultimately show ?thesis using ad(2) t by (intro disjI2 exI[of _ "nd st"]) (simp add: extend_def)
  next
    case True
    have u: "um32 (q + (n + incr)) = q + (n + incr)" "um32 (q + n - 4) = q + n - 4" using True n a t by (auto intro!: um32_id)
    have "nd st + (n + incr) < 4294967296" "nd st \<le> q" "q < 4294967296" using True a n by auto
    from get_core_ok[OF n(3) this(1) n(2) this(2,3), of grant]
    consider (ok) "get_core grant q (n + incr) st = (True, st\<lparr>nd := nd st + (n + incr)\<rparr>)"
      | (no) b where "get_core grant q (n + incr) st = (False, st\<lparr>nd := b\<rparr>)" "nd st \<le> b" "b < 4294967296"
          "4 dvd nd st \<and> 4 dvd q \<longrightarrow> 4 dvd b" "refused grant (nd st) (n + incr)"
      by blast
    then show ?thesis
    proof cases
      case ok
      have e: "even q" "even A" using a(2) A(2) by (auto elim!: dvdE)
      have ne: "alloct st \<noteq> q" using t a by auto
      have "extend grant A nw 0 st = (Some incr, enlarged A q n st)"
        using ok u True a n e ne
        by (cases "q = alloct st + 4") (simp_all add: extend_def ad(2) enlarged_def poke_def setbusy_def Let_def fun_upd_twist ac_simps)
      then show ?thesis using True a(3) by simp
    next
      case no
      have "extend grant A nw 0 st = (None, st\<lparr>nd := b\<rparr>)" using no(1) u True a n by (simp add: extend_def ad(2))
      then show ?thesis using no(2-5) a(2) ref by blast
    qed
  qed
qed

lemma enlarged_grown:
  assumes ar: "arena A own st bs" and ad: "added nw st q n incr" and fit: "q + n < 4294967296"
  shows "grown A own st bs (own \<union> {nd st..<q + n}) (enlarged A q n st) (enlarged_blocks q st bs)"
proof -
  let ?t = "alloct st" and ?own = "own \<union> {nd st..<q + n}" and ?st = "enlarged A q n st" and ?bs = "enlarged_blocks q st bs"
  have a: "q = nd st + incr" "4 dvd q" "0 \<le> incr" "4 dvd n" "1024 \<le> n" using ad by (auto simp: added_def)
  note AR = arenaD[OF ar]
  have t: "?t + 4 \<le> nd st" "4 dvd ?t" "linked (mem st) ?t bs" using AR(1,7,11) by auto
  have q: "?t < q" "q < q + n - 4" "?t < q + n - 4" using t a by auto
  have same: "mem ?st x = mem st x" if "x < ?t" for x using that q by (simp add: enlarged_def)
  have "linked (mem ?st) ?t bs" using t(3) linked_cong[of bs "mem ?st" "mem st"] same linked_below[OF t(3)] by metis
  then have l: "linked (mem ?st) (q + n - 4) ?bs"
    using q a(2) t(2) by (auto simp: enlarged_blocks_def linked_append enlarged_def)
  have "owned ?own ?t bs" using AR(2) owned_mono[of own ?t bs ?own] by blast
  moreover note top = AR(3)
  moreover have tin: "?t \<in> own" by (rule subsetD[OF top]) simp
  moreover have "{q..<q + n - 4} \<subseteq> ?own" using a(1,3,5) by auto
  ultimately have o: "owned ?own (q + n - 4) ?bs"
    unfolding enlarged_blocks_def owned_append by auto
  have f: "alloct ?st = q + n - 4" "allocp ?st = allocp st" "allocend ?st = q" "nd ?st = q + n" "mem ?st (q + n - 4) = A + 1"
    by (simp_all add: enlarged_def)
  have b: "last ?bs = (q, Idle)" "first 0 ?bs = A" "?bs \<noteq> []" "starts ?bs = starts bs \<union> {?t, q}"
    using AR(4,5) by (cases bs; auto simp: enlarged_blocks_def)+
  have "arena A ?own ?st ?bs"
    unfolding arena_def f
  proof (intro conjI l o b(2,3))
    show "{q + n - 4..<q + n - 4 + 4} \<subseteq> ?own" using a(1,3,5) by auto
    show "0 < A" by (rule AR(6))
    show "4 dvd q + n - 4" using a(2,4) by simp
    show "allocp st \<in> insert (q + n - 4) (starts ?bs)" using AR(9) unfolding b(4) by blast
    show "q = q + n - 4 \<or> last ?bs = (q, Idle)" using b(1) by simp
    show "\<forall>x \<in> ?own. x < q + n"
    proof
      fix x assume "x \<in> ?own"
      then have "x < nd st \<or> x < q + n" using AR(13) by auto
      then show "x < q + n" using a(1,3,5) by linarith
    qed
  qed (use fit in simp_all)
  moreover have "mem ?st x = mem st x" if "x < ?t \<or> x \<notin> ?own" for x
  proof -
    have "?t \<in> ?own" "q \<in> ?own" "q + n - 4 \<in> ?own" using tin a(1,3,5) by auto
    then have "x \<noteq> ?t" "x \<noteq> q" "x \<noteq> q + n - 4" using that q by (elim disjE; force)+
    then show ?thesis by (simp add: enlarged_def)
  qed
  moreover have "nd st \<le> q + n" "?t \<le> q + n - 4" using q a(1,3,5) by auto
  moreover have "{b. (b, Live) \<in> set ?bs} = {b. (b, Live) \<in> set bs}" "\<forall>x t. (x, t) \<in> set ?bs \<longrightarrow> (x, t) \<in> set bs \<or> ?t \<le> x"
    using q by (auto simp: enlarged_blocks_def)
  moreover have "\<forall>x \<in> ?own - own. nd st \<le> x" "own \<subseteq> ?own" "allocx ?st = allocx st" "4 dvd q + n"
    using a(2,4) by (auto simp: enlarged_def)
  ultimately show ?thesis unfolding grown_def f by blast
qed

lemma grown_nd:
  assumes "grown A own st bs own' st' bs'" "nd st' \<le> b" "b < 4294967296" "4 dvd nd st' \<longrightarrow> 4 dvd b"
  shows "grown A own st bs own' (st'\<lparr>nd := b\<rparr>) bs'"
proof -
  note G = grownD[OF assms(1)]
  have "arena A own' (st'\<lparr>nd := b\<rparr>) bs'" using G(1) assms(2,3) by (force simp: arena_def)
  then show ?thesis using G assms(2,4) by (simp add: grown_def)
qed

section \<open>The whole search\<close>

definition placed :: "int \<Rightarrow> int set \<Rightarrow> heap \<Rightarrow> block list \<Rightarrow> int \<Rightarrow> ((int \<times> int) option \<times> heap) option \<Rightarrow> bool" where
  "placed A own st bs nw r \<longleftrightarrow> (\<exists>p q st' own' us vs. r = Some (Some (p, q), st') \<and> grown A own st bs own' st' (us @ (p, Idle) # vs) \<and>
     q = first (alloct st') vs \<and> p + 4 * nw \<le> q)"

definition denied ::
    "(int \<Rightarrow> bool) \<Rightarrow> int \<Rightarrow> int set \<Rightarrow> heap \<Rightarrow> block list \<Rightarrow> int \<Rightarrow> ((int \<times> int) option \<times> heap) option \<Rightarrow> bool" where
  "denied grant A own st bs n r \<longleftrightarrow> (\<exists>st' own' bs'. r = Some (None, st') \<and> grown A own st bs own' st' bs' \<and> refused grant (nd st) n)"

lemma placed_trans: "grown A own st bs own' st' bs' \<Longrightarrow> placed A own' st' bs' nw r \<Longrightarrow> placed A own st bs nw r"
  unfolding placed_def using grown_trans by blast

lemma refused_trans: "refused grant lo' n \<Longrightarrow> lo \<le> lo' \<Longrightarrow> lo' \<le> lo + m \<Longrightarrow> refused grant lo (m + n)"
proof -
  assume "refused grant lo' n" and l: "lo \<le> lo'" "lo' \<le> lo + m"
  then obtain b where "lo' \<le> b" "b \<le> lo' + n" "\<not> grant b \<or> 4294967296 \<le> b" unfolding refused_def by blast
  then show ?thesis using l unfolding refused_def by (intro exI[of _ b]) linarith
qed

lemma denied_trans:
  assumes "grown A own st bs own' st' bs'" "nd st' \<le> nd st + m" "denied grant A own' st' bs' n r"
  shows "denied grant A own st bs (m + n) r"
proof -
  obtain st'' own'' bs'' where d: "r = Some (None, st'')" "grown A own' st' bs' own'' st'' bs''" "refused grant (nd st') n"
    using assms(3) unfolding denied_def by blast
  show ?thesis unfolding denied_def
    using d(1) grown_trans[OF assms(1) d(2)] refused_trans[OF d(3) grownD(4)[OF assms(1)] assms(2)] by blast
qed

lemma scan_cases:
  assumes nw: "1 \<le> nw" "nw < 1073741824" and ar: "arena A own st (xs @ rest)"
  obtains (found) p q st' us vs where "scan A nw 0 (first (alloct st) rest) st = Some (Found p q, st')"
      "grown A own st (xs @ rest) own st' (us @ (p, Idle) # vs)" "q = first (alloct st') vs" "p + 4 * nw \<le> q"
  | (none) st' bs' where "scan A nw 0 (first (alloct st) rest) st = Some (Exhausted, st')" "grown A own st (xs @ rest) own st' bs'"
      "nd st' = nd st" "alloct st' = alloct st" "\<not> roomy nw (alloct st) rest" "tight nw (alloct st') bs'"
proof -
  from scan_ok[OF assms] obtain r' st' bs' where
    "scan A nw 0 (first (alloct st) rest) st = Some (r', st')" "grown A own st (xs @ rest) own st' bs'" "nd st' = nd st" "alloct st' = alloct st"
    "case r' of Found p q \<Rightarrow> (\<exists>us vs. bs' = us @ (p, Idle) # vs \<and> q = first (alloct st') vs \<and> p + 4 * nw \<le> q)
     | Exhausted \<Rightarrow> \<not> roomy nw (alloct st) rest \<and> tight nw (alloct st') bs' | Corrupt \<Rightarrow> False"
    unfolding searched_def by blast
  then show ?thesis using found none by (cases r') auto
qed

lemma loop_roomy:
  assumes nw: "1 \<le> nw" "nw < 1073741824" and ar: "arena A own st (xs @ rest)" and r: "roomy nw (alloct st) rest"
  shows "placed A own st (xs @ rest) nw (malloc_loop grant A nw incr (first (alloct st) rest) st)"
  using assms
proof (cases rule: scan_cases[OF nw ar])
  case (1 p q st' us vs)
  then have "malloc_loop grant A nw incr (first (alloct st) rest) st = Some (Some (p, q), st')"
    by (subst malloc_loop.simps) simp
  then show ?thesis using 1 unfolding placed_def by blast
qed blast

lemma end_position:
  assumes "arena A own st bs"
  obtains xs rest where "bs = xs @ rest" "first (alloct st) rest = allocend st"
    "rest = [] \<and> allocend st = alloct st \<or> rest = [(allocend st, Idle)]"
proof (cases "allocend st = alloct st")
  case True
  then show ?thesis using that[of bs "[]"] by simp
next
  case False
  then have "last bs = (allocend st, Idle)" "bs \<noteq> []" using arenaD(4,10)[OF assms] by auto
  then show ?thesis using that[of "butlast bs" "[(allocend st, Idle)]"] append_butlast_last_id[of bs] by simp
qed

lemma end_tight:
  assumes ar: "arena A own st bs" and "tight nw (alloct st) bs" "1 \<le> nw"
  shows "4 dvd allocend st" "allocend st \<le> alloct st" "alloct st < allocend st + 4 * nw"
proof -
  obtain xs rest where E: "bs = xs @ rest" "first (alloct st) rest = allocend st"
    "rest = [] \<and> allocend st = alloct st \<or> rest = [(allocend st, Idle)]" using end_position[OF ar] .
  note D = arenaD(1,7)[OF ar]
  show "4 dvd allocend st" "allocend st \<le> alloct st" "alloct st < allocend st + 4 * nw"
    using E D assms(2,3) by (auto simp: linked_append tight_append)
qed

lemma roomy_append: "roomy nw tp ys \<Longrightarrow> roomy nw tp (xs @ ys)"
  by (induction xs) auto

text \<open>When the new piece of memory lies behind the old top one extension is enough.\<close>

lemma loop_contiguous:
  fixes grant :: "int \<Rightarrow> bool"
  assumes nw: "1 \<le> nw" "nw \<le> 1073741312" and ar: "arena A own st (xs @ rest)" and c: "nd st = alloct st + 4"
  defines "r \<equiv> malloc_loop grant A nw 0 (first (alloct st) rest) st"
  shows "placed A own st (xs @ rest) nw r \<or> denied grant A own st (xs @ rest) (4 * nw + 2048) r"
proof -
  have nw': "nw < 1073741824" using nw by simp
  show ?thesis
  proof (cases rule: scan_cases[OF nw(1) nw' ar])
    case (1 p q st' us vs)
    then have "r = Some (Some (p, q), st')" unfolding r_def by (subst malloc_loop.simps) simp
    then show ?thesis using 1 unfolding placed_def by blast
  next
    case (2 st' bs')
    note ar' = grownD(1)[OF 2(2)]
    note T = end_tight[OF ar' 2(6) nw(1)]
    from extension_added[OF nw arenaD(7)[OF ar'] T] obtain q n incr where
      X: "extension nw 0 st' = (q, n + incr, incr)" "added nw st' q n incr" by blast
    have "4 dvd nd st'" using arenaD(7)[OF ar'] 2(3,4) c by simp
    then have i: "incr = 0" "q = alloct st' + 4" "allocend st' + 4 * nw \<le> alloct st' + n"
      using X(2) 2(3,4) c unfolding added_def by auto
    from extend_enlarged[OF ar' X(2,1) nw(2), of grant] consider
      (yes) "extend grant A nw 0 st' = (Some incr, enlarged A q n st')" "q + n < 4294967296"
      | (no) b where "extend grant A nw 0 st' = (None, st'\<lparr>nd := b\<rparr>)" "nd st' \<le> b" "b < 4294967296"
          "4 dvd nd st' \<longrightarrow> 4 dvd b" "refused grant (nd st') (4 * nw + 2048)"
      by blast
    then show ?thesis
    proof cases
      case no
      have "r = Some (None, st'\<lparr>nd := b\<rparr>)" unfolding r_def using 2(1) no(1) by (subst malloc_loop.simps) simp
      moreover have "grown A own st (xs @ rest) own (st'\<lparr>nd := b\<rparr>) bs'" by (rule grown_nd[OF 2(2) no(2-4)])
      ultimately show ?thesis using no(5) 2(3) unfolding denied_def by auto
    next
      case yes
      let ?e = "enlarged A q n st'" and ?own = "own \<union> {nd st'..<q + n}"
      note G = enlarged_grown[OF ar' X(2) yes(2)]
      obtain ys zs where E: "bs' = ys @ zs" "first (alloct st') zs = allocend st'"
        "zs = [] \<and> allocend st' = alloct st' \<or> zs = [(allocend st', Idle)]" using end_position[OF ar'] .
      let ?rest = "zs @ [(alloct st', Idle), (q, Idle)]"
      have b: "enlarged_blocks q st' bs' = ys @ ?rest" using E(1) i(2) by (simp add: enlarged_blocks_def)
      have "alloct ?e = alloct st' + n" using i(2) by (simp add: enlarged_def)
      then have "roomy nw (alloct ?e) ?rest" "first (alloct ?e) ?rest = allocend st'" using E(2,3) i(3) by auto
      then have "placed A ?own ?e (ys @ ?rest) nw (malloc_loop grant A nw 0 (allocend st') ?e)"
        using loop_roomy[OF nw(1) nw' grownD(1)[OF G, unfolded b], of grant 0] by simp
      moreover have "r = malloc_loop grant A nw 0 (allocend st') ?e"
        unfolding r_def using 2(1) yes(1) i(1) by (subst malloc_loop.simps) simp
      ultimately show ?thesis using placed_trans[OF grown_trans[OF 2(2) G[unfolded b]]] by simp
    qed
  qed
qed

text \<open>Otherwise, unless \<open>nw\<close> fills whole kilobytes exactly; then the block it makes is one word short, and there is a second one.\<close>

lemma loop_ok:
  fixes grant :: "int \<Rightarrow> bool"
  assumes nw: "1 \<le> nw" "nw \<le> 1073741312" and ar: "arena A own st (xs @ rest)" and al: "4 dvd nd st \<or> nw mod 256 \<noteq> 0"
  defines "r \<equiv> malloc_loop grant A nw 0 (first (alloct st) rest) st"
  shows "placed A own st (xs @ rest) nw r \<or> denied grant A own st (xs @ rest) (8 * nw + 4096) r"
proof (cases "nd st = alloct st + 4")
  case True
  have "denied grant A own st (xs @ rest) (4 * nw + 2048) r \<Longrightarrow> denied grant A own st (xs @ rest) (8 * nw + 4096) r"
    using nw(1) unfolding denied_def refused_def by force
  then show ?thesis using loop_contiguous[OF nw ar True, of grant] unfolding r_def by blast
next
  case nc: False
  have nw': "nw < 1073741824" using nw by simp
  show ?thesis
  proof (cases rule: scan_cases[OF nw(1) nw' ar])
    case (1 p q st' us vs)
    then have "r = Some (Some (p, q), st')" unfolding r_def by (subst malloc_loop.simps) simp
    then show ?thesis using 1 unfolding placed_def by blast
  next
    case (2 st' bs')
    note ar' = grownD(1)[OF 2(2)]
    note T = end_tight[OF ar' 2(6) nw(1)]
    from extension_added[OF nw arenaD(7)[OF ar'] T] obtain q n incr where
      X: "extension nw 0 st' = (q, n + incr, incr)" "added nw st' q n incr" by blast
    then have i: "q \<noteq> alloct st' + 4" "4 * nw \<le> n" "nw mod 256 \<noteq> 0 \<longrightarrow> 4 * nw + 4 \<le> n" "n \<le> 4 * nw + 1024" "q = nd st' + incr" "incr < 4"
        "4 dvd nd st' \<longrightarrow> incr = 0"
      using 2(3,4) nc arenaD(11)[OF ar'] unfolding added_def by auto
    from extend_enlarged[OF ar' X(2,1) nw(2), of grant] consider
      (yes) "extend grant A nw 0 st' = (Some incr, enlarged A q n st')" "q + n < 4294967296"
      | (no) b where "extend grant A nw 0 st' = (None, st'\<lparr>nd := b\<rparr>)" "nd st' \<le> b" "b < 4294967296"
          "4 dvd nd st' \<longrightarrow> 4 dvd b" "refused grant (nd st') (4 * nw + 2048)"
      by blast
    then show ?thesis
    proof cases
      case no
      have "r = Some (None, st'\<lparr>nd := b\<rparr>)" unfolding r_def using 2(1) no(1) by (subst malloc_loop.simps) simp
      moreover have "grown A own st (xs @ rest) own (st'\<lparr>nd := b\<rparr>) bs'" by (rule grown_nd[OF 2(2) no(2-4)])
      moreover have "refused grant (nd st) (8 * nw + 4096)"
        using refused_trans[OF no(5), of "nd st" "4 * nw + 2048"] 2(3) nw(1) by simp
      ultimately show ?thesis unfolding denied_def by auto
    next
      case yes
      let ?e = "enlarged A q n st'" and ?own = "own \<union> {nd st'..<q + n}"
      note G = enlarged_grown[OF ar' X(2) yes(2)]
      obtain ys zs where E: "bs' = ys @ zs" "first (alloct st') zs = allocend st'"
        "zs = [] \<and> allocend st' = alloct st' \<or> zs = [(allocend st', Idle)]" using end_position[OF ar'] .
      let ?rest = "zs @ [(alloct st', Gap), (q, Idle)]"
      have b: "enlarged_blocks q st' bs' = ys @ ?rest" using E(1) i(1) by (simp add: enlarged_blocks_def)
      have f: "first (alloct ?e) ?rest = allocend st'" using E(2,3) by auto
      have r: "r = malloc_loop grant A nw incr (allocend st') ?e"
        unfolding r_def using 2(1) yes(1) by (subst malloc_loop.simps) simp
      note G' = grown_trans[OF 2(2) G[unfolded b]] and ar'' = grownD(1)[OF G, unfolded b]
      have e: "alloct ?e = q + n - 4" "nd ?e = q + n" by (simp_all add: enlarged_def)
      show ?thesis
      proof (cases "nw mod 256 = 0")
        case False
        then have "roomy nw (alloct ?e) ?rest" using i(3) unfolding e by (intro roomy_append) simp
        then show ?thesis using loop_roomy[OF nw(1) nw' ar'', of grant incr] placed_trans[OF G'] unfolding f r by blast
      next
        case True
        then have z: "incr = 0" using al i(7) 2(3) by simp
        have "nd ?e = alloct ?e + 4" using e by simp
        from loop_contiguous[OF nw ar'' this, of grant]
        have "placed A ?own ?e (ys @ ?rest) nw r \<or> denied grant A ?own ?e (ys @ ?rest) (4 * nw + 2048) r"
          unfolding f r z .
        moreover have "nd ?e \<le> nd st + (4 * nw + 2048)" using e i(4-6) 2(3) by simp
        ultimately show ?thesis using placed_trans[OF G'] denied_trans[OF G', of "4 * nw + 2048"] by fastforce
      qed
    qed
  qed
qed

end
