(* ===== verification/Arena_Ok.thy ===== *)
theory Arena_Ok
  imports Arena_Search
begin

text \<open>
  What \<^verbatim>\<open>malloc\<close>, \<^verbatim>\<open>free\<close> and \<^verbatim>\<open>realloc\<close> do to the blocks that the program holds: the properties of the storage allocator.
\<close>

section \<open>Taking and releasing a block\<close>

lemma first_0: "bs \<noteq> [] \<Longrightarrow> first 0 bs = first t bs"
  by (cases bs) auto

text \<open>The block \<open>p\<close> is given out; what is left of it stays idle.\<close>

definition taken :: "int \<Rightarrow> int \<Rightarrow> int \<Rightarrow> block list" where
  "taken nw p q = (p, Live) # (if p + 4 * nw < q then [(p + 4 * nw, Idle)] else [])"

lemma take_block_ok:
  assumes ar: "arena A own st (us @ (p, Idle) # vs)" and q: "q = first (alloct st) vs" "p + 4 * nw \<le> q" and nw: "1 \<le> nw"
  shows "arena A own (take_block nw p q st) (us @ taken nw p q @ vs)"
    "a \<noteq> p \<Longrightarrow> a \<noteq> p + 4 * nw \<or> p + 4 * nw = q \<Longrightarrow> mem (take_block nw p q st) a = mem st a"
    "mem (take_block nw p q st) p = p + 4 * nw + 1"
    "p + 4 * nw < q \<Longrightarrow> allocx (take_block nw p q st) = mem st (p + 4 * nw)"
    "nd (take_block nw p q st) = nd st"
proof -
  let ?n = "p + 4 * nw" and ?st = "take_block nw p q st" and ?t = "alloct st"
  note AR = arenaD[OF ar]
  note S = linked_split[OF AR(1)]
  have qt: "q \<le> ?t" "mem st p = q" "4 dvd p" using S(2,5,6) q(1) by auto
  have p0: "0 < p" using AR(5,6) S(3) by (cases us) auto
  have u: "um32 ?n = ?n" using p0 nw q(2) qt(1) AR(11,12) by (intro um32_id) auto
  have b: "setbusy ?n = ?n + 1" using qt(3) by (auto simp: setbusy_def elim!: dvdE)
  have st: "?st = (if ?n < q then st\<lparr>mem := (mem st)(?n := q, p := ?n + 1), allocp := ?n, allocx := mem st ?n,
        allocend := if allocend st = p then ?n else allocend st\<rparr>
      else st\<lparr>mem := (mem st)(p := ?n + 1), allocp := ?n, allocend := if allocend st = p then ?n else allocend st\<rparr>)"
    using u b qt(2) nw by (simp add: take_block_def poke_def Let_def)
  show m: "a \<noteq> p \<Longrightarrow> a \<noteq> ?n \<or> ?n = q \<Longrightarrow> mem ?st a = mem st a" for a using st q(2) by auto
  show "mem ?st p = ?n + 1" using st nw by auto
  show "?n < q \<Longrightarrow> allocx ?st = mem st ?n" "nd ?st = nd st" using st by auto
  have f: "alloct ?st = ?t" "allocp ?st = ?n" "nd ?st = nd st" "allocend ?st = (if allocend st = p then ?n else allocend st)"
    using st by auto
  have o: "linked (mem st) p us" "linked (mem st) ?t vs" using AR(1) by (auto simp: linked_append)
  have "linked (mem ?st) p us" using linked_cong[of us "mem ?st" "mem st"] o(1) m S(3) nw by force
  moreover have "linked (mem ?st) ?t vs"
    using linked_cong[of vs "mem ?st" "mem st"] o(2) m S(1,4) q by force
  ultimately have l: "linked (mem ?st) ?t (us @ taken nw p q @ vs)"
    using st qt(3) q nw by (auto simp: linked_append taken_def)
  have ow: "owned own ?t (us @ taken nw p q @ vs)"
    using AR(2) q nw by (auto simp: owned_append taken_def)
  have e: "allocend ?st = ?t \<or> last (us @ taken nw p q @ vs) = (allocend ?st, Idle)"
  proof (cases "vs = []")
    case True
    then show ?thesis using AR(10) q f(4) by (auto simp: taken_def)
  next
    case False
    then have "fst (last vs) \<in> starts vs" by (simp add: starts_def)
    then have "p < fst (last vs)" using S(1,4) by force
    then have "allocend st \<noteq> p" using AR(10) False S(1,2) by auto
    then show ?thesis using False AR(10) f(4) by auto
  qed
  show "arena A own ?st (us @ taken nw p q @ vs)"
    unfolding arena_def f(1-3)
  proof (intro conjI l ow AR(3,6,7,11,12,13) e[unfolded f(1)])
    show "us @ taken nw p q @ vs \<noteq> []" by (simp add: taken_def)
    show "first 0 (us @ taken nw p q @ vs) = A" using AR(5) by (cases us) (auto simp: taken_def)
    show "mem ?st ?t = A + 1" using m[of ?t] AR(8) S(1,2) q by (cases "?n = q") auto
    show "?n \<in> insert ?t (starts (us @ taken nw p q @ vs))" using q by (cases vs) (auto simp: taken_def)
  qed
qed

lemma free_ok:
  assumes ar: "arena A own st (us @ (p, Live) # vs)"
  shows "arena A own (free (p + 4) st) (us @ (p, Idle) # vs)" "a \<noteq> p \<Longrightarrow> mem (free (p + 4) st) a = mem st a"
    "mem (free (p + 4) st) p = mem st p - 1" "nd (free (p + 4) st) = nd st" "allocp (free (p + 4) st) = p" "alloct (free (p + 4) st) = alloct st"
proof -
  let ?st = "free (p + 4) st" and ?t = "alloct st"
  note AR = arenaD[OF ar]
  note S = linked_split[OF AR(1)] and B = linked_busy[OF AR(1,7)]
  let ?q = "first ?t vs"
  have m: "mem st p = ?q + 1" "clearbusy (mem st p) = ?q" using S(5) B(2) by auto
  have st: "?st = st\<lparr>mem := (mem st)(p := ?q), allocp := p, allocend := if ?q = ?t then p else allocend st\<rparr>"
    using m(2) by (simp add: free_def poke_def Let_def)
  show "a \<noteq> p \<Longrightarrow> mem ?st a = mem st a" "mem ?st p = mem st p - 1" "nd ?st = nd st" "allocp ?st = p" "alloct ?st = ?t" using st m by auto
  have "linked (mem ?st) p us" "linked (mem ?st) ?t vs" using linked_around[OF AR(1), of "mem ?st"] st by auto
  then have l: "linked (mem ?st) ?t (us @ (p, Idle) # vs)" using S(1,6) st by (auto simp: linked_append)
  have e: "allocend ?st = ?t \<or> last (us @ (p, Idle) # vs) = (allocend ?st, Idle)"
  proof (cases "vs = []")
    case False
    then have "?q < ?t" using AR(1) linked_below[of "mem st" ?t vs "?q"] by (cases vs) (auto simp: linked_append)
    then show ?thesis using st AR(10) False by auto
  qed (use st in auto)
  have f: "alloct ?st = ?t" "allocp ?st = p" "nd ?st = nd st" using st by auto
  have ow: "owned own ?t (us @ (p, Idle) # vs)" using AR(2) by (simp add: owned_append)
  show "arena A own ?st (us @ (p, Idle) # vs)"
    unfolding arena_def f
  proof (intro conjI l ow e AR(3,6,7,11,12,13))
    show "first 0 (us @ (p, Idle) # vs) = A" using AR(5) by (cases us) auto
    show "mem ?st ?t = A + 1" using st AR(8) S(1,2) by auto
  qed simp_all
qed

section \<open>What the program sees\<close>

text \<open>The bytes of the block that \<open>p\<close> points into, with the word before it.\<close>

definition block_of :: "heap \<Rightarrow> int \<Rightarrow> int set" where
  "block_of st p = {p - 4..<clearbusy (mem st (p - 4))}"

text \<open>\<open>L\<close> are the pointers that the program holds, \<open>own\<close> the memory of the allocator; before the first call it is the initial arena.\<close>

definition heap_rep :: "int \<Rightarrow> int set \<Rightarrow> heap \<Rightarrow> int set \<Rightarrow> bool" where
  "heap_rep A own st L \<longleftrightarrow> (\<exists>bs. arena A own st bs \<and> L = {p. (p - 4, Live) \<in> set bs}) \<or>
     mem st A = 0 \<and> 0 < A \<and> 4 dvd A \<and> A + 8 \<le> nd st \<and> nd st < 4294967296 \<and> own = {A..<A + 8} \<and> L = {}"

definition kept :: "int set \<Rightarrow> heap \<Rightarrow> heap \<Rightarrow> bool" where
  "kept L st st' \<longleftrightarrow> (\<forall>p \<in> L. block_of st' p = block_of st p \<and> (\<forall>a \<in> block_of st p. mem st' a = mem st a))"

lemma block_extent:
  assumes l: "linked m tp bs" "4 dvd tp" and b: "(a, s) \<in> set bs"
  shows "a < clearbusy (m a)" "clearbusy (m a) \<le> tp" "4 dvd a" "4 dvd clearbusy (m a)"
    "(c, t) \<in> set bs \<Longrightarrow> c \<in> {a..<clearbusy (m a)} \<Longrightarrow> c = a \<and> t = s"
    "(c, t) \<in> set bs \<Longrightarrow> c \<noteq> a \<Longrightarrow> {a..<clearbusy (m a)} \<inter> {c..<clearbusy (m c)} = {}"
proof -
  obtain xs ys where bs: "bs = xs @ (a, s) # ys" using b by (auto simp: in_set_conv_decomp)
  note S = linked_split[OF l(1)[unfolded bs]] and B = linked_busy[OF l(1)[unfolded bs] l(2)]
  show "a < clearbusy (m a)" "clearbusy (m a) \<le> tp" "4 dvd a" using S(1,2,6) B(2) by auto
  show "4 dvd clearbusy (m a)" using B(2) l linked_aligned[of m tp ys] bs by (auto simp: linked_append)
  have cases: "c = a \<and> t = s \<or> clearbusy (m c) \<le> a \<and> c < a \<or> clearbusy (m a) \<le> c" if c: "(c, t) \<in> set bs" for c t
  proof -
    consider "(c, t) = (a, s)" | "(c, t) \<in> set ys" | "(c, t) \<in> set xs" using c unfolding bs by auto
    then show ?thesis
    proof cases
      case 2
      then have "c \<in> starts ys" by (force simp: starts_def)
      then show ?thesis using S(4) B(2) by auto
    next
      case 3
      then obtain us vs where xs: "xs = us @ (c, t) # vs" by (auto simp: in_set_conv_decomp)
      have l': "linked m tp (us @ (c, t) # (vs @ (a, s) # ys))" using l(1) unfolding bs xs by simp
      show ?thesis using linked_split(1,4)[OF l'] linked_busy(2)[OF l' l(2)] by auto
    qed simp
  qed
  show "(c, t) \<in> set bs \<Longrightarrow> c \<in> {a..<clearbusy (m a)} \<Longrightarrow> c = a \<and> t = s" using cases[of c t] by auto
  show "(c, t) \<in> set bs \<Longrightarrow> c \<noteq> a \<Longrightarrow> {a..<clearbusy (m a)} \<inter> {c..<clearbusy (m c)} = {}" using cases[of c t] by auto
qed

lemma grown_kept:
  assumes ar: "arena A own st bs" and g: "grown A own st bs own' st' bs'"
  shows "kept {p. (p - 4, Live) \<in> set bs} st st'"
proof -
  have "mem st' a = mem st a" if p: "(p, Live) \<in> set bs" and a: "a \<in> {p..<clearbusy (mem st p)}" for p a
  proof -
    note E = block_extent[OF arenaD(1,7)[OF ar] p]
    have "(a, Idle) \<notin> set bs" using E(5)[of a Idle] a by auto
    moreover have "a < alloct st" using E(2) a by auto
    ultimately show ?thesis using grownD(8)[OF g] by blast
  qed
  moreover have "p \<in> {p..<clearbusy (mem st p)}" if "(p, Live) \<in> set bs" for p
    using block_extent(1)[OF arenaD(1,7)[OF ar] that] by simp
  ultimately show ?thesis unfolding kept_def block_of_def by auto
qed

lemma malloc_arena:
  assumes ar: "arena A own st bs" and n: "0 \<le> nbytes" "nbytes \<le> 4294965244" and al: "4 dvd nd st \<or> malloc_words nbytes mod 256 \<noteq> 0"
  shows "malloc_words nbytes = (nbytes + 7) div 4" "1 \<le> malloc_words nbytes"
    "(\<exists>p st' own' us vs. malloc grant A nbytes st = Some (Some (p + 4), take_block (malloc_words nbytes) p (first (alloct st') vs) st') \<and>
        grown A own st bs own' st' (us @ (p, Idle) # vs) \<and> p + 4 * malloc_words nbytes \<le> first (alloct st') vs) \<or>
     (\<exists>st' own' bs'. malloc grant A nbytes st = Some (None, st') \<and> grown A own st bs own' st' bs' \<and> refused grant (nd st) (2 * nbytes + 4110))"
proof -
  let ?nw = "malloc_words nbytes"
  have u: "um32 (nbytes + 7) = nbytes + 7" using n by (intro um32_id) auto
  then show w: "?nw = (nbytes + 7) div 4" by (simp add: malloc_words_def)
  have "4 * ((nbytes + 7) div 4) + (nbytes + 7) mod 4 = nbytes + 7" "0 \<le> (nbytes + 7) mod 4" "(nbytes + 7) mod 4 < 4" by simp_all
  then have nw: "1 \<le> ?nw" "?nw \<le> 1073741312" "4 * ?nw \<le> nbytes + 7" unfolding w using n by linarith+
  then show "1 \<le> ?nw" by simp
  note AR = arenaD[OF ar]
  have "mem st A \<noteq> 0" using AR(1,4,5,6) by (cases bs) auto
  then have f: "first_time A st = st" by (simp add: first_time_def)
  obtain xs rest where P: "bs = xs @ rest" "allocp st = first (alloct st) rest"
  proof (cases "allocp st = alloct st")
    case True
    then show ?thesis using that[of bs "[]"] by simp
  next
    case False
    then have "allocp st \<in> starts bs" using AR(9) by simp
    from starts_split[OF this] obtain xs t ys where "bs = xs @ (allocp st, t) # ys" by blast
    then show ?thesis using that[of xs "(allocp st, t) # ys"] by simp
  qed
  let ?r = "malloc_loop grant A ?nw 0 (allocp st) st"
  have m: "malloc grant A nbytes st = (case ?r of None \<Rightarrow> None | Some (None, st) \<Rightarrow> Some (None, st)
         | Some (Some (p, q), st) \<Rightarrow> Some (Some (p + 4), take_block ?nw p q st))"
    unfolding malloc_def f Let_def by (rule refl)
  from loop_ok[OF nw(1,2) ar[unfolded P(1)] al, of grant, folded P(2)]
  show "(\<exists>p st' own' us vs. malloc grant A nbytes st = Some (Some (p + 4), take_block ?nw p (first (alloct st') vs) st') \<and>
        grown A own st bs own' st' (us @ (p, Idle) # vs) \<and> p + 4 * ?nw \<le> first (alloct st') vs) \<or>
     (\<exists>st' own' bs'. malloc grant A nbytes st = Some (None, st') \<and> grown A own st bs own' st' bs' \<and> refused grant (nd st) (2 * nbytes + 4110))"
  proof
    assume "placed A own st (xs @ rest) ?nw ?r"
    then obtain p st' own' us vs where "?r = Some (Some (p, first (alloct st') vs), st')"
      "grown A own st (xs @ rest) own' st' (us @ (p, Idle) # vs)" "p + 4 * ?nw \<le> first (alloct st') vs"
      unfolding placed_def by blast
    then show ?thesis unfolding m P(1) by auto
  next
    assume "denied grant A own st (xs @ rest) (8 * ?nw + 4096) ?r"
    then obtain st' own' bs' where d: "?r = Some (None, st')" "grown A own st (xs @ rest) own' st' bs'" "refused grant (nd st) (8 * ?nw + 4096)"
      unfolding denied_def by blast
    have "refused grant (nd st) (2 * nbytes + 4110)" using d(3) nw(3) unfolding refused_def by force
    then show ?thesis unfolding m P(1) using d(1,2) by auto
  qed
qed

lemma heap_repI: "arena A own st bs \<Longrightarrow> L = {x. (x - 4, Live) \<in> set bs} \<Longrightarrow> heap_rep A own st L"
  unfolding heap_rep_def by blast

lemma heap_start:
  assumes "heap_rep A own st L"
  obtains bs where "arena A own (first_time A st) bs" "L = {p. (p - 4, Live) \<in> set bs}" "nd (first_time A st) = nd st"
    "\<forall>a. a \<notin> own \<longrightarrow> mem (first_time A st) a = mem st a" "L \<noteq> {} \<longrightarrow> first_time A st = st"
    "\<forall>grant n. malloc grant A n (first_time A st) = malloc grant A n st"
proof -
  consider (old) bs where "arena A own st bs" "L = {p. (p - 4, Live) \<in> set bs}"
    | (new) "mem st A = 0" "0 < A" "4 dvd A" "A + 8 \<le> nd st" "nd st < 4294967296" "own = {A..<A + 8}" "L = {}"
    using assms unfolding heap_rep_def by blast
  then show ?thesis
  proof cases
    case old
    have "mem st A \<noteq> 0" using arenaD(1,4,5,6)[OF old(1)] by (cases bs) auto
    then have "first_time A st = st" by (simp add: first_time_def)
    then show ?thesis using that[of bs] old by simp
  next
    case new
    have A: "setbusy A = A + 1" "setbusy (A + 4) = A + 5" using new(3) by (auto simp: setbusy_def elim!: dvdE)
    let ?st = "first_time A st"
    have st: "?st = st\<lparr>mem := (mem st)(A := A + 5, A + 4 := A + 1), alloct := A + 4, allocp := A, allocend := A + 4\<rparr>"
      using new(1) A by (simp add: first_time_def poke_def)
    have ar: "arena A own ?st [(A, Gap)]" using new unfolding arena_def st by auto
    have "first_time A ?st = ?st" using new(2) unfolding st by (simp add: first_time_def)
    then have "malloc grant A n ?st = malloc grant A n st" for grant n by (simp add: malloc_def)
    moreover have "nd ?st = nd st" "\<forall>a. a \<notin> own \<longrightarrow> mem ?st a = mem st a" using new(6) unfolding st by auto
    ultimately show ?thesis using that[OF ar] new(7) by simp
  qed
qed

lemma kept_frame: "(\<And>x a. x \<in> L \<Longrightarrow> a \<in> insert (x - 4) (block_of st x) \<Longrightarrow> mem st' a = mem st a) \<Longrightarrow> kept L st st'"
  unfolding kept_def block_of_def by simp

lemma kept_trans: "kept L st st' \<Longrightarrow> kept L st' st'' \<Longrightarrow> kept L st st''"
  unfolding kept_def by metis

lemma take_kept:
  assumes ar: "arena A own st (us @ (p, Idle) # vs)" and q: "q = first (alloct st) vs" "p + 4 * nw \<le> q" and nw: "1 \<le> nw"
    and L: "L = {x. (x - 4, Live) \<in> set (us @ (p, Idle) # vs)}"
  shows "kept L st (take_block nw p q st)"
proof -
  let ?bs = "us @ (p, Idle) # vs" and ?st = "take_block nw p q st"
  note l = arenaD(1,7)[OF ar] and T = take_block_ok[OF ar q nw]
  have cp: "clearbusy (mem st p) = q" using linked_busy(2)[OF l] q(1) by simp
  have "mem ?st a = mem st a" if x: "(x, Live) \<in> set ?bs" and a: "a \<in> {x..<clearbusy (mem st x)}" for x a
  proof -
    have "{x..<clearbusy (mem st x)} \<inter> {p..<q} = {}"
    proof (cases "x = p")
      case True
      then show ?thesis using block_extent(5)[OF l, of p Idle p Live] block_extent(1)[OF l, of p Idle] x by auto
    next
      case False
      then show ?thesis using block_extent(6)[OF l, of x Live p Idle] x cp by auto
    qed
    moreover have "p \<in> {p..<q}" "p + 4 * nw < q \<longrightarrow> p + 4 * nw \<in> {p..<q}" using q(2) nw by auto
    ultimately have "a \<noteq> p" "a \<noteq> p + 4 * nw \<or> p + 4 * nw = q" using a q(2) by force+
    then show ?thesis using T(2) by blast
  qed
  moreover have "x \<in> {x..<clearbusy (mem st x)}" if "(x, Live) \<in> set ?bs" for x using block_extent(1)[OF l that] by simp
  ultimately show ?thesis unfolding kept_def block_of_def L by auto
qed

lemma owned_extent:
  assumes "arena A own st bs" "(p, Live) \<in> set bs"
  shows "{p..<clearbusy (mem st p)} \<subseteq> own"
proof -
  obtain xs ys where bs: "bs = xs @ (p, Live) # ys" using assms(2) by (auto simp: in_set_conv_decomp)
  show ?thesis using arenaD(1,2,7)[OF assms(1)] linked_busy(2)[of "mem st" "alloct st" xs "(p, Live)" ys]
    unfolding bs by (auto simp: owned_append)
qed

text \<open>All about a block that was just given out.\<close>

lemma taken_facts:
  assumes ar: "arena A own st bs" and L: "L = {x. (x - 4, Live) \<in> set bs}" and nw: "1 \<le> nw"
    and g: "grown A own st bs own' st1 (us @ (p, Idle) # vs)" and fit: "p + 4 * nw \<le> first (alloct st1) vs"
  defines "st' \<equiv> take_block nw p (first (alloct st1) vs) st1" and "bs' \<equiv> us @ taken nw p (first (alloct st1) vs) @ vs"
  shows "arena A own' st' bs'" "insert (p + 4) L = {x. (x - 4, Live) \<in> set bs'}" "(p, Live) \<in> set bs'" "4 dvd p"
    "clearbusy (mem st' p) = p + 4 * nw" "block_of st' (p + 4) \<subseteq> own'" "\<forall>x \<in> L. block_of st' x \<inter> block_of st' (p + 4) = {}"
    "kept L st st'" "p + 4 \<notin> L" "nd st' = nd st1" "a \<notin> own' \<Longrightarrow> mem st' a = mem st1 a"
proof -
  let ?q = "first (alloct st1) vs" and ?bs = "us @ (p, Idle) # vs"
  note G = grownD[OF g]
  note T = take_block_ok[OF G(1) refl fit nw, folded st'_def bs'_def]
  have L1: "L = {x. (x - 4, Live) \<in> set ?bs}" using G(6) unfolding L by blast
  show ar': "arena A own' st' bs'" by (rule T(1))
  show L2: "insert (p + 4) L = {x. (x - 4, Live) \<in> set bs'}" unfolding L1 bs'_def by (auto simp: taken_def)
  show pin: "(p, Live) \<in> set bs'" by (simp add: taken_def bs'_def)
  note l' = arenaD(1,7)[OF ar']
  show p4: "4 dvd p" using block_extent(3)[OF l' pin] .
  then show "clearbusy (mem st' p) = p + 4 * nw" using T(3) by (auto simp: clearbusy_def elim!: dvdE)
  show "block_of st' (p + 4) \<subseteq> own'" using owned_extent[OF ar' pin] by (simp add: block_of_def)
  have ne: "x - 4 \<noteq> p" if "x \<in> L" for x
  proof
    assume "x - 4 = p"
    then have "(p, Live) \<in> set ?bs" "(p, Idle) \<in> set ?bs" using that L1 by auto
    then show False using block_extent(1,5)[OF arenaD(1,7)[OF G(1)], of p Idle] by auto
  qed
  then show "p + 4 \<notin> L" by force
  show "\<forall>x \<in> L. block_of st' x \<inter> block_of st' (p + 4) = {}"
  proof
    fix x assume x: "x \<in> L"
    then have "(x - 4, Live) \<in> set bs'" using L2 by blast
    then show "block_of st' x \<inter> block_of st' (p + 4) = {}"
      using block_extent(6)[OF l', of "x - 4" Live p Live] pin ne[OF x] by (simp add: block_of_def)
  qed
  show "kept L st st'" using kept_trans[OF grown_kept[OF ar g, folded L] take_kept[OF G(1) refl fit nw L1]] by (simp add: st'_def)
  show "nd st' = nd st1" by (rule T(5))
  show "mem st' a = mem st1 a" if a: "a \<notin> own'"
  proof -
    have i: "{p..<?q} \<subseteq> own'" using arenaD(2)[OF G(1)] by (simp add: owned_append)
    have "p \<in> {p..<?q}" "p + 4 * nw < ?q \<longrightarrow> p + 4 * nw \<in> {p..<?q}" using fit nw by auto
    then have "a \<noteq> p" "p + 4 * nw < ?q \<longrightarrow> a \<noteq> p + 4 * nw" using a i by blast+
    then have "a \<noteq> p" "a \<noteq> p + 4 * nw \<or> p + 4 * nw = ?q" using fit by linarith+
    then show ?thesis using T(2) by blast
  qed
qed

lemma words_enough: "(nbytes :: int) + 4 \<le> 4 * ((nbytes + 7) div 4)"
proof -
  have "4 * ((nbytes + 7) div 4) + (nbytes + 7) mod 4 = nbytes + 7" "(nbytes + 7) mod 4 < 4" by simp_all
  then show ?thesis by linarith
qed


section \<open>Writing into a block\<close>







lemma free_arena:
  assumes "heap_rep A own st L" "p \<in> L"
  shows "\<exists>us vs. arena A own st (us @ (p - 4, Live) # vs) \<and> arena A own (free p st) (us @ (p - 4, Idle) # vs) \<and>
    L - {p} = {x. (x - 4, Live) \<in> set (us @ (p - 4, Idle) # vs)} \<and> kept (L - {p}) st (free p st) \<and>
    (\<forall>a. a \<noteq> p - 4 \<longrightarrow> mem (free p st) a = mem st a) \<and> nd (free p st) = nd st \<and> alloct (free p st) = alloct st"
proof -
  obtain bs where ar: "arena A own st bs" and L: "L = {p. (p - 4, Live) \<in> set bs}"
    using assms unfolding heap_rep_def by blast
  obtain us vs where bs: "bs = us @ (p - 4, Live) # vs" using assms(2) unfolding L by (auto simp: in_set_conv_decomp)
  have fp: "free (p - 4 + 4) st = free p st" by simp
  note R = free_ok[OF ar[unfolded bs], unfolded fp]
  note l = arenaD(1,7)[OF ar]
  have one: "(p - 4, Live) \<notin> set us \<union> set vs"
    using linked_split(1,3,4)[OF l(1)[unfolded bs]] by (force simp: starts_def)
  then have L': "L - {p} = {x. (x - 4, Live) \<in> set (us @ (p - 4, Idle) # vs)}" unfolding L bs by auto
  have "mem (free p st) a = mem st a" if x: "x \<in> L - {p}" and a: "a \<in> insert (x - 4) (block_of st x)" for x a
  proof -
    have "x - 4 \<noteq> p - 4" using x by auto
    moreover have "p - 4 \<notin> block_of st x"
      using block_extent(5)[OF l, of "x - 4" Live "p - 4" Live] x assms(2) unfolding L block_of_def by auto
    ultimately have "a \<noteq> p - 4" using a by auto
    then show ?thesis using R(2) by blast
  qed
  then have "kept (L - {p}) st (free p st)" by (rule kept_frame)
  then show ?thesis using ar[unfolded bs] R L' by blast
qed

section \<open>The properties\<close>

text \<open>A program just started, and the same one after \<^verbatim>\<open>malloc(10)\<close>.\<close>

definition new_heap :: heap where
  "new_heap = \<lparr>mem = \<lambda>_. 0, allocp = 0, alloct = 0, allocx = 0, allocend = 0, nd = 2048\<rparr>"

definition used_heap :: heap where
  "used_heap =
     \<lparr>mem = (\<lambda>_. 0)(1000 := 1005, 1004 := 2049, 2048 := 2065, 2064 := 3068, 3068 := 1001), allocp = 2064, alloct = 3068,
      allocx = 0, allocend = 2064, nd = 3072\<rparr>"

lemma new_heap_rep: "heap_rep 1000 {1000..<1008} new_heap {}"
  by (simp add: heap_rep_def new_heap_def)

lemma used_heap_rep: "heap_rep 1000 ({1000..<1008} \<union> {2048..<3072}) used_heap {2052}"
  by (rule heap_repI[of _ _ _ "[(1000, Gap), (1004, Gap), (2048, Live), (2064, Idle)]"])
     (auto simp: arena_def used_heap_def)

text \<open>C7: \<^verbatim>\<open>malloc\<close> always returns, and either gives a block of at least the bytes asked for, aligned, inside the
  memory the system granted and apart from every block the program holds, or \<^verbatim>\<open>NULL\<close>, which happens only when the system
  refused a break that the request needs; in either case the blocks that the program holds keep place, size and contents, and no
  memory that is not the allocator's is written. (Where the break is not a multiple of 4, requests of whole kilobytes less one word are left out.)\<close>

theorem malloc_gives_block:
  assumes "heap_rep A own st L" "0 \<le> nbytes" "nbytes \<le> 4294965244" "4 dvd nd st \<or> malloc_words nbytes mod 256 \<noteq> 0"
  shows "\<exists>r st' own'. malloc grant A nbytes st = Some (r, st') \<and> own \<subseteq> own' \<and> (\<forall>a \<in> own' - own. nd st \<le> a \<and> a < nd st') \<and>
    (\<forall>a. a \<notin> own' \<longrightarrow> mem st' a = mem st a) \<and> kept L st st' \<and> (4 dvd nd st \<longrightarrow> 4 dvd nd st') \<and>
    (case r of
       None \<Rightarrow> heap_rep A own' st' L \<and> refused grant (nd st) (2 * nbytes + 4110)
     | Some p \<Rightarrow> heap_rep A own' st' (insert p L) \<and> 4 dvd p \<and> p + nbytes \<le> clearbusy (mem st' (p - 4)) \<and>
         block_of st' p \<subseteq> own' \<and> (\<forall>x \<in> L. block_of st' x \<inter> block_of st' p = {}))"
proof -
  obtain bs where ar: "arena A own (first_time A st) bs" and L: "L = {p. (p - 4, Live) \<in> set bs}" and F: "nd (first_time A st) = nd st"
    "\<forall>a. a \<notin> own \<longrightarrow> mem (first_time A st) a = mem st a" "L \<noteq> {} \<longrightarrow> first_time A st = st"
    "\<forall>grant n. malloc grant A n (first_time A st) = malloc grant A n st"
    using heap_start[OF assms(1)] by blast
  let ?st = "first_time A st" and ?nw = "malloc_words nbytes"
  note M = malloc_arena[OF ar assms(2,3) assms(4)[folded F(1)]]
  have out: "mem st' a = mem st a" if "grown A own ?st bs own' st' bs'" "a \<notin> own'" for own' st' bs' a
  proof -
    have "a \<notin> own" using grownD(2)[OF that(1)] that(2) by blast
    moreover from this have "(a, Idle) \<notin> set bs" using idle_owned[OF ar, of a] by blast
    ultimately show ?thesis using grownD(8)[OF that(1)] that(2) F(2) by metis
  qed
  have keep: "kept L st st'" if "kept L ?st st'" for st' using that F(3) by (cases "L = {}") (auto simp: kept_def)
  from M(3)[of grant] consider
    (some) p st1 own' us vs where "malloc grant A nbytes ?st = Some (Some (p + 4), take_block ?nw p (first (alloct st1) vs) st1)"
      "grown A own ?st bs own' st1 (us @ (p, Idle) # vs)" "p + 4 * ?nw \<le> first (alloct st1) vs"
  | (none) st' own' bs' where "malloc grant A nbytes ?st = Some (None, st')" "grown A own ?st bs own' st' bs'" "refused grant (nd ?st) (2 * nbytes + 4110)"
    by blast
  then show ?thesis
  proof cases
    case none
    note G = grownD[OF none(2)]
    have "heap_rep A own' st' L" unfolding heap_rep_def L using G(1,6) by blast
    moreover have "\<forall>a \<in> own' - own. nd st \<le> a \<and> a < nd st'" using G(3) arenaD(13)[OF G(1)] F(1) by auto
    ultimately show ?thesis
      using none(1,3) F(1,4) G(2,10) out[OF none(2)] keep grown_kept[OF ar none(2)] L by (intro exI[of _ None] exI[of _ st'] exI[of _ own']) simp
  next
    case some
    let ?st' = "take_block ?nw p (first (alloct st1) vs) st1"
    note G = grownD[OF some(2)] and T = taken_facts[OF ar L M(2) some(2,3)]
    have "p + 4 + nbytes \<le> clearbusy (mem ?st' (p + 4 - 4))" using words_enough[of nbytes] T(5) unfolding M(1) by simp
    moreover have "heap_rep A own' ?st' (insert (p + 4) L)" unfolding heap_rep_def T(2) using T(1) by blast
    moreover have "mem ?st' a = mem st a" if a: "a \<notin> own'" for a using T(11)[OF a] out[OF some(2) a] by simp
    moreover have "\<forall>a \<in> own' - own. nd st \<le> a \<and> a < nd ?st'" using G(3) arenaD(13)[OF G(1)] F(1) T(10) by auto
    moreover have "malloc grant A nbytes st = Some (Some (p + 4), ?st')" using some(1) F(4) by simp
    moreover have "4 dvd nd st \<longrightarrow> 4 dvd nd ?st'" using G(10) F(1) T(10) by simp
    ultimately show ?thesis
      using G(2) T(4,6,7) keep[OF T(8)] by (intro exI[of _ "Some (p + 4)"] exI[of _ ?st'] exI[of _ own']) simp
  qed
qed

lemma malloc_gives_block_witness:
  "\<exists>r st' own'. malloc (\<lambda>b. b < 100000) 1000 10 new_heap = Some (r, st') \<and>
    (case r of None \<Rightarrow> refused (\<lambda>b. b < 100000) 2048 4130 | Some p \<Rightarrow> heap_rep 1000 own' st' {p} \<and> p + 10 \<le> clearbusy (mem st' (p - 4)))"
  using malloc_gives_block[OF new_heap_rep, of 10 "\<lambda>b. b < 100000"]
  by (fastforce simp: new_heap_def split: option.splits)

text \<open>C9: \<^verbatim>\<open>free\<close> takes a block that the program holds out of use and changes nothing but the word before it: all other blocks
  keep place, size and contents.\<close>

theorem free_releases:
  assumes "heap_rep A own st L" "p \<in> L"
  shows "heap_rep A own (free p st) (L - {p}) \<and> kept (L - {p}) st (free p st) \<and> (\<forall>a. a \<noteq> p - 4 \<longrightarrow> mem (free p st) a = mem st a) \<and>
    nd (free p st) = nd st"
  using free_arena[OF assms] unfolding heap_rep_def by blast

lemma free_releases_witness:
  "heap_rep 1000 ({1000..<1008} \<union> {2048..<3072}) (free 2052 used_heap) {}"
  using free_releases[OF used_heap_rep] by simp



section \<open>Requests that are not served rightly\<close>

text \<open>A break that is not a multiple of 4 leaves its correction \<^verbatim>\<open>incr\<close> behind for the second extension, which a request that fills
  whole kilobytes makes: the top of the arena is then not aligned, and its head reads as busy.\<close>

lemma stale_incr:
  "case malloc (\<lambda>b. b < 100000) 1000 1020 (new_heap\<lparr>nd := 2049\<rparr>) of
     Some (Some p, st) \<Rightarrow> alloct st mod 4 = 1 | _ \<Rightarrow> False"
  by code_simp

text \<open>The size is rounded up without a test for wrap-around: \<^verbatim>\<open>malloc(0xfffffffa)\<close> gives a block that is
  linked to itself, so that every later search ends in \<^verbatim>\<open>NULL\<close>.\<close>

lemma malloc_size_wraps:
  "case malloc (\<lambda>b. b < 100000) 1000 4294967290 used_heap of
     Some (Some p, st) \<Rightarrow> clearbusy (mem st (p - 4)) = p - 4 \<and>
       map_option fst (malloc (\<lambda>b. b < 100000) 1000 1 st) = Some None
   | _ \<Rightarrow> False"
  by code_simp

text \<open>\<^verbatim>\<open>calloc\<close> of 65536 by 65537 bytes gives a block of 65536.\<close>

lemma calloc_product_wraps: "calloc grant A 65536 65537 st = calloc grant A 65536 1 st"
  by (simp add: calloc_def um32_def)

text \<open>Apart from that \<^verbatim>\<open>calloc\<close> clears all words of the block.\<close>

lemma calloc_clears:
  assumes "0 \<le> num" "0 \<le> sz" "num * sz < 4294967296" "calloc grant A num sz st = Some (Some p, st')"
  shows "0 \<le> i \<Longrightarrow> 4 * i + 4 \<le> num * sz \<Longrightarrow> mem st' (p + 4 * i) = 0"
  using assms by (auto simp: calloc_def clear_bytes_def Let_def um32_id split: option.splits prod.splits)

end
