(* ===== verification/Slp.thy ===== *)
theory Slp
  imports Prelude
begin

text \<open>
  Sleeping and waking, \<^verbatim>\<open>os/slp.c\<close>, with the run queue (\<^verbatim>\<open>os/disp.c\<close>, \<^verbatim>\<open>os/swtch.c\<close>) and \<^verbatim>\<open>psignal\<close> (\<^verbatim>\<open>os/sig.c\<close>). Pointers to
  processes are indices into \<^verbatim>\<open>proc[]\<close>, channels are addresses, 0 for none; both kinds of queues are linked by \<^verbatim>\<open>p_link\<close>. The code
  runs at \<^verbatim>\<open>splhi\<close>, so each operation is one step; a process that calls \<^verbatim>\<open>swtch\<close> goes on in a later step. \<open>None\<close> as the
  answer of an operation means that it does not return: a loop runs off its queue, or the system panics.
\<close>

section \<open>State\<close>

datatype pstat = SNONE | SSLEEP | SRUN | SZOMB | SSTOP | SIDL | SXBRK

record proc =
  p_stat :: pstat
  p_pri :: int
  p_wchan :: nat
  p_link :: ptr
  p_load :: bool
  p_procio :: bool
  p_nwake :: bool
  p_prstop :: bool
  p_strc :: bool
  p_wted :: bool
  p_time :: int
  p_pgrp :: int
  p_sig :: u32
  p_hold :: u32

text \<open>\<open>cur\<close> is the process whose \<^verbatim>\<open>u\<close> area is mapped and runs, \<open>None\<close> while \<^verbatim>\<open>swtch\<close> idles.\<close>

record kern =
  procs :: "nat \<Rightarrow> proc"
  hsque :: "nat \<Rightarrow> ptr"
  runq :: ptr
  runout :: int
  runrun :: int
  curpri :: int
  curproc :: nat
  cur :: ptr

abbreviation PZERO :: int where "PZERO \<equiv> 25"
abbreviation TZERO :: int where "TZERO \<equiv> 10"
abbreviation PIDLE :: int where "PIDLE \<equiv> 127"

definition sqhash :: "nat \<Rightarrow> nat" where
  "sqhash chan = chan div 8 mod 64"

definition upd_proc :: "nat \<Rightarrow> (proc \<Rightarrow> proc) \<Rightarrow> kern \<Rightarrow> kern" where
  "upd_proc p f st = st\<lparr>procs := (procs st)(p := f (procs st p))\<rparr>"

text \<open>A pointer to a pointer in a sleep queue.\<close>

datatype qloc = QHead nat | QLink nat

primrec qref :: "qloc \<Rightarrow> kern \<Rightarrow> ptr" where
  "qref (QHead h) st = hsque st h"
| "qref (QLink p) st = p_link (procs st p)"

primrec qset :: "qloc \<Rightarrow> ptr \<Rightarrow> kern \<Rightarrow> kern" where
  "qset (QHead h) v st = st\<lparr>hsque := (hsque st)(h := v)\<rparr>"
| "qset (QLink p) v st = upd_proc p (\<lambda>x. x\<lparr>p_link := v\<rparr>) st"

section \<open>The run queue\<close>

definition setrq :: "nat \<Rightarrow> kern \<Rightarrow> kern" where
  "setrq p st = (upd_proc p (\<lambda>x. x\<lparr>p_link := runq st\<rparr>) st)\<lparr>runq := Some p\<rparr>"

text \<open>The scan of \<^verbatim>\<open>disp\<close>: the best process so far with the one before it, and its priority.\<close>

partial_function (option) disp_scan ::
    "kern \<Rightarrow> ptr \<Rightarrow> ptr \<Rightarrow> (nat \<times> ptr) option \<Rightarrow> int \<Rightarrow> ((nat \<times> ptr) option \<times> int) option" where
  "disp_scan st p q pp n =
     (case p of
        None \<Rightarrow> Some (pp, n)
      | Some i \<Rightarrow>
          let x = procs st i
          in if p_pri x > n \<or> \<not> p_load x \<or> p_procio x then disp_scan st (p_link x) (Some i) pp n
             else disp_scan st (p_link x) (Some i) (Some (i, q)) (p_pri x))"

definition disp :: "kern \<Rightarrow> (ptr \<times> kern) option" where
  "disp st =
     (case disp_scan st (runq st) None None 128 of
        None \<Rightarrow> None
      | Some (None, n) \<Rightarrow> Some (None, st)
      | Some (Some (p, q), n) \<Rightarrow>
          let st = (case q of
                      None \<Rightarrow> st\<lparr>runq := p_link (procs st p)\<rparr>
                    | Some q \<Rightarrow> upd_proc q (\<lambda>x. x\<lparr>p_link := p_link (procs st p)\<rparr>) st)
          in Some (Some p, st\<lparr>curpri := n, curproc := p\<rparr>))"

text \<open>One turn of the loop of \<^verbatim>\<open>swtch\<close>: the process found goes on, or the processor idles until the next turn.\<close>

definition swtch :: "kern \<Rightarrow> kern option" where
  "swtch st =
     (case disp (st\<lparr>runrun := 0\<rparr>) of
        None \<Rightarrow> None
      | Some (None, st) \<Rightarrow> Some (st\<lparr>curpri := PIDLE, curproc := 0, cur := None\<rparr>)
      | Some (Some p, st) \<Rightarrow> Some (st\<lparr>cur := Some p\<rparr>))"

definition qswtch :: "nat \<Rightarrow> kern \<Rightarrow> kern option" where
  "qswtch p st = swtch (setrq p st)"

section \<open>Pending signals\<close>

text \<open>The first of the signals \<open>i, i + 1, ...\<close>, \<open>k\<close> of them, that is set in the mask.\<close>

primrec fsig_from :: "nat \<Rightarrow> nat \<Rightarrow> u32 \<Rightarrow> nat" where
  "fsig_from 0 i n = 0"
| "fsig_from (Suc k) i n = (if n AND 1 = 1 then i else fsig_from k (Suc i) (drop_bit 1 n))"

definition fsig :: "proc \<Rightarrow> nat" where
  "fsig x = fsig_from 22 1 (p_sig x AND NOT (p_hold x))"

text \<open>Whether the signal \<open>n\<close> is taken; \<open>h\<close> is \<^verbatim>\<open>u.u_signal\<close>, with 0 for \<^verbatim>\<open>SIG_DFL\<close> and 1 for \<^verbatim>\<open>SIG_IGN\<close>. \<^verbatim>\<open>issig\<close> also frees the
  children that are dead when \<^verbatim>\<open>SIGCLD\<close> is ignored.\<close>

definition taken :: "(nat \<Rightarrow> nat) \<Rightarrow> nat \<Rightarrow> bool \<Rightarrow> bool" where
  "taken h n strc =
     (if n = 18 then h 17 \<noteq> 1 \<and> h 17 \<noteq> 0
      else if n = 19 then h 18 \<noteq> 0 \<and> h 18 \<noteq> 1
      else h (n - 1) \<noteq> 1 \<or> strc)"

partial_function (option) issig_loop :: "(nat \<Rightarrow> nat) \<Rightarrow> proc \<Rightarrow> (nat \<times> proc) option" where
  "issig_loop h x =
     (let n = fsig x
      in if n = 0 then Some (0, x)
         else if taken h n (p_strc x) then Some (n, x)
         else issig_loop h (x\<lparr>p_sig := p_sig x AND NOT (push_bit (n - 1) 1)\<rparr>))"

definition issig :: "(nat \<Rightarrow> nat) \<Rightarrow> proc \<Rightarrow> (nat \<times> proc) option" where
  "issig h x = (if p_sig x AND NOT (p_hold x) = 0 then Some (0, x) else issig_loop h x)"

text \<open>The test of \<^verbatim>\<open>sleep\<close>, before and after \<^verbatim>\<open>swtch\<close>.\<close>

definition disturbed :: "(nat \<Rightarrow> nat) \<Rightarrow> nat \<Rightarrow> kern \<Rightarrow> (bool \<times> kern) option" where
  "disturbed h rp st =
     (if p_prstop (procs st rp) then Some (True, st)
      else if p_sig (procs st rp) \<noteq> 0 then
        (case issig h (procs st rp) of
           None \<Rightarrow> None
         | Some (n, x) \<Rightarrow> Some (n \<noteq> 0, upd_proc rp (\<lambda>_. x) st))
      else Some (False, st))"

section \<open>Sleep queues\<close>

text \<open>\<^verbatim>\<open>sleep\<close> of process \<open>rp\<close> up to \<^verbatim>\<open>swtch\<close>, or to its end when a signal is pending; the flag tells whether the process went to sleep.\<close>

definition sleep :: "(nat \<Rightarrow> nat) \<Rightarrow> nat \<Rightarrow> nat \<Rightarrow> int \<Rightarrow> kern \<Rightarrow> (bool \<times> kern) option" where
  "sleep h rp chan pri st =
     (let q = QHead (sqhash chan);
          st = upd_proc rp (\<lambda>x. x\<lparr>p_stat := SSLEEP, p_wchan := chan, p_link := qref q st\<rparr>) st;
          st = qset q (Some rp) st;
          tmpdisp = pri mod 128;
          st = upd_proc rp (\<lambda>x. x\<lparr>p_time := min (p_time x) TZERO, p_pri := min (p_pri x) tmpdisp\<rparr>) st
      in if tmpdisp > PZERO then
           (case disturbed h rp st of
              None \<Rightarrow> None
            | Some (True, st) \<Rightarrow>
                let st = upd_proc rp (\<lambda>x. x\<lparr>p_wchan := 0, p_stat := SRUN\<rparr>) st
                in Some (False, qset q (p_link (procs st rp)) st)
            | Some (False, st) \<Rightarrow> Some (True, st))
         else Some (True, upd_proc rp (\<lambda>x. x\<lparr>p_nwake := True\<rparr>) st))"

text \<open>What follows \<^verbatim>\<open>swtch\<close>: the answer is 0, 1 for \<^verbatim>\<open>PCATCH\<close>, or \<open>None\<close> for the jump to \<^verbatim>\<open>u.u_qsav\<close>.\<close>

definition sleep_woken :: "(nat \<Rightarrow> nat) \<Rightarrow> nat \<Rightarrow> int \<Rightarrow> kern \<Rightarrow> (int option \<times> kern) option" where
  "sleep_woken h rp pri st =
     (if pri mod 128 > PZERO then
        (case disturbed h rp st of
           None \<Rightarrow> None
         | Some (True, st) \<Rightarrow> Some (if pri div 256 mod 2 = 1 then Some 1 else None, st)
         | Some (False, st) \<Rightarrow> Some (Some 0, st))
      else Some (Some 0, upd_proc rp (\<lambda>x. x\<lparr>p_nwake := False\<rparr>) st))"

partial_function (option) find_link :: "nat \<Rightarrow> qloc \<Rightarrow> kern \<Rightarrow> qloc option" where
  "find_link p q st =
     (case qref q st of
        None \<Rightarrow> None
      | Some x \<Rightarrow> if x = p then Some q else find_link p (QLink x) st)"

definition unsleep :: "nat \<Rightarrow> kern \<Rightarrow> kern option" where
  "unsleep p st =
     (if p_wchan (procs st p) \<noteq> 0 then
        (case find_link p (QHead (sqhash (p_wchan (procs st p)))) st of
           None \<Rightarrow> None
         | Some q \<Rightarrow> Some (upd_proc p (\<lambda>x. x\<lparr>p_wchan := 0\<rparr>) (qset q (p_link (procs st p)) st)))
      else Some st)"

text \<open>\<^verbatim>\<open>setrun\<close> but for its call of itself; the flag tells whether \<^verbatim>\<open>proc[0]\<close> is to be set running.\<close>

definition setrun_one :: "nat \<Rightarrow> kern \<Rightarrow> (bool \<times> kern) option" where
  "setrun_one p st =
     (let s = p_stat (procs st p)
      in if s = SRUN then Some (False, st)
         else
           case (if s = SSLEEP \<or> s = SSTOP then unsleep p st else Some st) of
             None \<Rightarrow> None
           | Some st \<Rightarrow>
               let st = setrq p (upd_proc p (\<lambda>x. x\<lparr>p_stat := SRUN\<rparr>) st)
               in if \<not> p_load (procs st p) then
                    let st = upd_proc p (\<lambda>x. x\<lparr>p_time := 0\<rparr>) st
                    in if runout st > 0 then Some (True, st\<lparr>runout := 0\<rparr>) else Some (False, st)
                  else if p_pri (procs st p) < curpri st then Some (False, st\<lparr>runrun := s8 (runrun st + 1)\<rparr>)
                  else Some (False, st))"

text \<open>\<^verbatim>\<open>runout\<close> is 0 in the inner call, which therefore makes no other.\<close>

definition setrun :: "nat \<Rightarrow> kern \<Rightarrow> kern option" where
  "setrun p st =
     (case setrun_one p st of
        None \<Rightarrow> None
      | Some (False, st) \<Rightarrow> Some st
      | Some (True, st) \<Rightarrow> map_option snd (setrun_one 0 st))"

text \<open>The loop of \<^verbatim>\<open>wakeup\<close>; the flag is \<^verbatim>\<open>runsched\<close>.\<close>

definition wake_one :: "nat \<Rightarrow> qloc \<Rightarrow> bool \<Rightarrow> kern \<Rightarrow> bool \<times> kern" where
  "wake_one p q runsched st =
     (let st = qset q (p_link (procs st p)) (upd_proc p (\<lambda>x. x\<lparr>p_wchan := 0\<rparr>) st)
      in if p_stat (procs st p) = SSLEEP then
           let st = setrq p (upd_proc p (\<lambda>x. x\<lparr>p_stat := SRUN\<rparr>) st)
           in if \<not> p_load (procs st p) then
                (runsched \<or> runout st > 0, upd_proc p (\<lambda>x. x\<lparr>p_time := 0\<rparr>) st)
              else (runsched, if p_pri (procs st p) < curpri st then st\<lparr>runrun := s8 (runrun st + 1)\<rparr> else st)
         else (runsched, st))"

partial_function (option) wakeup_loop :: "nat \<Rightarrow> qloc \<Rightarrow> bool \<Rightarrow> kern \<Rightarrow> (bool \<times> kern) option" where
  "wakeup_loop chan q runsched st =
     (case qref q st of
        None \<Rightarrow> Some (runsched, st)
      | Some p \<Rightarrow>
          if p_stat (procs st p) \<noteq> SSLEEP \<and> p_stat (procs st p) \<noteq> SSTOP then None
          else if p_wchan (procs st p) = chan then
            (case wake_one p q runsched st of (runsched, st) \<Rightarrow> wakeup_loop chan q runsched st)
          else wakeup_loop chan (QLink p) runsched st)"

definition wakeup :: "nat \<Rightarrow> kern \<Rightarrow> kern option" where
  "wakeup chan st =
     (case wakeup_loop chan (QHead (sqhash chan)) False st of
        None \<Rightarrow> None
      | Some (runsched, st) \<Rightarrow> if runsched then setrun 0 (st\<lparr>runout := 0\<rparr>) else Some st)"

section \<open>Signals and stops\<close>

definition psignal :: "nat \<Rightarrow> int \<Rightarrow> kern \<Rightarrow> kern option" where
  "psignal p sig st =
     (let s = sig - 1
      in if s < 0 \<or> s \<ge> 22 then Some st
         else
           let b = push_bit (nat s) 1;
               st = upd_proc p (\<lambda>x. x\<lparr>p_sig := p_sig x OR b\<rparr>) st;
               x = procs st p
           in if p_stat x = SSLEEP \<and> \<not> p_nwake x then
                if p_hold x AND b = 0 then setrun p st else Some st
              else if p_stat x = SSTOP then
                if sig = 9 then setrun p st
                else if p_wchan x \<noteq> 0 \<and> \<not> p_nwake x then unsleep p st
                else Some st
              else Some st)"

text \<open>\<^verbatim>\<open>signal\<close>, for the table of \<open>n\<close> processes.\<close>

primrec signal_from :: "nat \<Rightarrow> nat \<Rightarrow> int \<Rightarrow> int \<Rightarrow> kern \<Rightarrow> kern option" where
  "signal_from 0 p pgrp sig st = Some st"
| "signal_from (Suc k) p pgrp sig st =
     (if p_pgrp (procs st p) = pgrp then
        (case psignal p sig st of None \<Rightarrow> None | Some st \<Rightarrow> signal_from k (Suc p) pgrp sig st)
      else signal_from k (Suc p) pgrp sig st)"

definition signal :: "nat \<Rightarrow> int \<Rightarrow> int \<Rightarrow> kern \<Rightarrow> kern option" where
  "signal n pgrp sig st = (if pgrp = 0 then Some st else signal_from (n - 1) 1 pgrp sig st)"

text \<open>\<^verbatim>\<open>stop\<close> of a process whose parent is alive; \<open>pp\<close> and \<open>tr\<close> are the addresses of the parent and of the tracing inode.\<close>

definition stop :: "nat \<Rightarrow> nat \<Rightarrow> nat \<Rightarrow> kern \<Rightarrow> kern option" where
  "stop p pp tr st =
     (case wakeup pp (upd_proc p (\<lambda>x. x\<lparr>p_stat := SSTOP, p_wted := False\<rparr>) st) of
        None \<Rightarrow> None
      | Some st \<Rightarrow> if tr \<noteq> 0 then wakeup tr st else Some st)"

text \<open>The nice value that \<^verbatim>\<open>chgpri\<close> gives; \<open>su\<close> tells whether \<^verbatim>\<open>suser\<close> accepts the caller.\<close>

definition chgpri :: "bool \<Rightarrow> int \<Rightarrow> int \<Rightarrow> int" where
  "chgpri su pnice nice =
     (let nice = (if (nice < 0 \<or> nice > 40) \<and> \<not> su then 0 else nice);
          nice = nice + pnice;
          nice = (if nice \<ge> 40 then 39 else nice)
      in if nice < 0 then 0 else nice)"

declare disp_scan.simps [code] issig_loop.simps [code] find_link.simps [code] wakeup_loop.simps [code]

end
