(* ===== verification/Slp_Queue.thy ===== *)
theory Slp_Queue
  imports Slp
begin

text \<open>
  What the operations on the sleep queues and the run queue do to the two kinds of chains: \<open>queues\<close> and \<open>states\<close> are the invariant,
  each operation has one lemma that says that it returns, keeps the invariant, and which processes it moves.
\<close>

section \<open>Pending signals\<close>

abbreviation pend :: "proc \<Rightarrow> nat \<Rightarrow> bool" where
  "pend x n \<equiv> bit (p_sig x AND NOT (p_hold x)) (n - 1)"

lemma fsig_from_first:
  "0 < i \<Longrightarrow> (if \<exists>j<k. bit n j then i \<le> fsig_from k i n \<and> fsig_from k i n < i + k \<and> bit n (fsig_from k i n - i) \<and>
     (\<forall>j < fsig_from k i n - i. \<not> bit n j) else fsig_from k i n = 0)"
proof (induction k arbitrary: i n)
  case (Suc k)
  define d where "d = drop_bit 1 n"
  have f: "fsig_from (Suc k) i n = (if bit n 0 then i else fsig_from k (Suc i) d)"
    by (simp add: d_def and_one_eq bit_0 odd_iff_mod_2_eq_one)
  have bd: "bit d j \<longleftrightarrow> bit n (Suc j)" for j by (simp add: d_def bit_drop_bit_eq)
  have ex: "(\<exists>j<Suc k. bit n j) \<longleftrightarrow> bit n 0 \<or> (\<exists>j<k. bit d j)"
    unfolding bd by (metis less_Suc_eq_0_disj)
  show ?case
  proof (cases "bit n 0")
    case True
    then show ?thesis unfolding f using ex by simp
  next
    case False
    show ?thesis
    proof (cases "\<exists>j<k. bit d j")
      case no: False
      then show ?thesis using Suc.IH[of "Suc i" d] False ex f by simp
    next
      case True
      let ?f = "fsig_from k (Suc i) d"
      have I: "Suc i \<le> ?f" "?f < Suc i + k" "bit n (Suc (?f - Suc i))" "\<forall>j < ?f - Suc i. \<not> bit n (Suc j)"
        using Suc.IH[of "Suc i" d] True by (simp_all add: bd)
      have "Suc (?f - Suc i) = ?f - i" using I(1) by simp
      then have "bit n (?f - i)" using I(3) by simp
      moreover have "\<not> bit n j" if "j < ?f - i" for j
        using False I(1,4) that by (cases j) auto
      ultimately show ?thesis using I(1,2) False f ex True by simp
    qed
  qed
qed simp

lemma fsig_first:
  "if \<exists>n \<in> {1..22}. pend x n then fsig x \<in> {1..22} \<and> pend x (fsig x) \<and> (\<forall>n. 1 \<le> n \<and> n < fsig x \<longrightarrow> \<not> pend x n) else fsig x = 0"
proof -
  have ex: "(\<exists>n \<in> {1..22}. pend x n) \<longleftrightarrow> (\<exists>j<22. bit (p_sig x AND NOT (p_hold x)) j)"
  proof
    assume "\<exists>n \<in> {1..22}. pend x n"
    then obtain n where "1 \<le> n" "n \<le> 22" "pend x n" by auto
    then have "n - 1 < 22" by simp
    then show "\<exists>j<22. bit (p_sig x AND NOT (p_hold x)) j" using \<open>pend x n\<close> by blast
  next
    assume "\<exists>j<22. bit (p_sig x AND NOT (p_hold x)) j"
    then obtain j where "j < 22" "pend x (Suc j)" by auto
    then show "\<exists>n \<in> {1..22}. pend x n" by (intro bexI[of _ "Suc j"]) auto
  qed
  have F: "if \<exists>j<22. bit (p_sig x AND NOT (p_hold x)) j then 1 \<le> fsig x \<and> fsig x < 1 + 22 \<and> pend x (fsig x) \<and>
     (\<forall>j < fsig x - 1. \<not> bit (p_sig x AND NOT (p_hold x)) j) else fsig x = 0"
    using fsig_from_first[of 1 22 "p_sig x AND NOT (p_hold x)"] unfolding fsig_def by simp
  show ?thesis unfolding ex
  proof (cases "\<exists>j<22. bit (p_sig x AND NOT (p_hold x)) j")
    case True
    then have "1 \<le> fsig x" "fsig x < 1 + 22" "pend x (fsig x)" "\<forall>j < fsig x - 1. \<not> bit (p_sig x AND NOT (p_hold x)) j" using F by simp_all
    moreover have "\<forall>n. 1 \<le> n \<and> n < fsig x \<longrightarrow> \<not> pend x n"
    proof (intro allI impI)
      fix n
      assume "1 \<le> n \<and> n < fsig x"
      then have "n - 1 < fsig x - 1" by linarith
      then show "\<not> pend x n" using calculation(4) by blast
    qed
    ultimately show "if \<exists>j<22. bit (p_sig x AND NOT (p_hold x)) j then fsig x \<in> {1..22} \<and> pend x (fsig x) \<and> (\<forall>n. 1 \<le> n \<and> n < fsig x \<longrightarrow> \<not> pend x n) else fsig x = 0"
      using True by simp
  next
    case False
    have "fsig x = 0" using F unfolding if_not_P[OF False] .
    then show "if \<exists>j<22. bit (p_sig x AND NOT (p_hold x)) j then fsig x \<in> {1..22} \<and> pend x (fsig x) \<and> (\<forall>n. 1 \<le> n \<and> n < fsig x \<longrightarrow> \<not> pend x n) else fsig x = 0"
      unfolding if_not_P[OF False] .
  qed
qed

text \<open>\<^verbatim>\<open>issig\<close> returns, answers the first pending signal that is taken, and drops the pending ones before it.\<close>

definition issig_answer :: "(nat \<Rightarrow> nat) \<Rightarrow> proc \<Rightarrow> nat \<Rightarrow> bool" where
  "issig_answer h x n \<longleftrightarrow>
     (if \<exists>i \<in> {1..22}. pend x i \<and> taken h i (p_strc x)
      then n \<in> {1..22} \<and> pend x n \<and> taken h n (p_strc x) \<and> (\<forall>i. 1 \<le> i \<and> i < n \<longrightarrow> \<not> (pend x i \<and> taken h i (p_strc x)))
      else n = 0)"

lemma pend_clear:
  "1 \<le> m \<Longrightarrow> m \<le> 22 \<Longrightarrow> 1 \<le> n \<Longrightarrow> n \<le> 22 \<Longrightarrow> pend (x\<lparr>p_sig := p_sig x AND NOT (push_bit (m - 1) 1)\<rparr>) n \<longleftrightarrow> pend x n \<and> n \<noteq> m"
  by (auto simp: bit_and_iff bit_not_iff bit_exp_iff)

lemma issig_loop_ok: "\<exists>n s. issig_loop h x = Some (n, x\<lparr>p_sig := s\<rparr>) \<and> issig_answer h x n"
proof (induction "card {n \<in> {1..22}. pend x n}" arbitrary: x rule: less_induct)
  case less
  have e: "p_sig x = p_sig x" and x: "x = x\<lparr>p_sig := p_sig x\<rparr>" by simp_all
  show ?case
  proof (cases "fsig x = 0")
    case True
    then have "\<not> (\<exists>n \<in> {1..22}. pend x n)" using fsig_first[of x] by (metis atLeastAtMost_iff not_one_le_zero)
    then have "issig_answer h x 0" unfolding issig_answer_def by auto
    moreover have "issig_loop h x = Some (0, x)" using True by (subst issig_loop.simps) simp
    ultimately show ?thesis using x by metis
  next
    case False
    define n where "n = fsig x"
    have n: "1 \<le> n" "n \<le> 22" "pend x n" "\<forall>i. 1 \<le> i \<and> i < n \<longrightarrow> \<not> pend x i"
      using fsig_first[of x] False unfolding n_def by (auto split: if_splits)
    show ?thesis
    proof (cases "taken h n (p_strc x)")
      case True
      have "issig_answer h x n" unfolding issig_answer_def using n True by auto
      moreover have "issig_loop h x = Some (n, x)" using True False by (subst issig_loop.simps) (simp add: n_def Let_def)
      ultimately show ?thesis using x by metis
    next
      case nt: False
      let ?y = "x\<lparr>p_sig := p_sig x AND NOT (push_bit (n - 1) 1)\<rparr>"
      have pe: "pend ?y i \<longleftrightarrow> pend x i \<and> i \<noteq> n" if "i \<in> {1..22}" for i using pend_clear[of n i x] n(1,2) that by simp
      have "{i \<in> {1..22}. pend ?y i} = {i \<in> {1..22}. pend x i} - {n}" using pe by blast
      moreover have "n \<in> {i \<in> {1..22}. pend x i}" using n by simp
      ultimately have "card {i \<in> {1..22}. pend ?y i} < card {i \<in> {1..22}. pend x i}"
        by (metis (no_types, lifting) card_Diff1_less finite_atLeastAtMost finite_Collect_conjI finite_Collect_bounded_ex finite_subset mem_Collect_eq subsetI)
      then obtain m s where m: "issig_loop h ?y = Some (m, ?y\<lparr>p_sig := s\<rparr>)" "issig_answer h ?y m" using less by blast
      have l: "issig_loop h x = issig_loop h ?y" using nt False by (subst issig_loop.simps) (simp add: n_def Let_def)
      have "issig_answer h x m"
      proof (cases "\<exists>i \<in> {1..22}. pend x i \<and> taken h i (p_strc x)")
        case True
        then obtain i where i: "i \<in> {1..22}" "pend x i" "taken h i (p_strc x)" by blast
        then have "\<exists>i \<in> {1..22}. pend ?y i \<and> taken h i (p_strc ?y)" using pe[OF i(1)] nt by (intro bexI[OF _ i(1)]) auto
        then have M: "m \<in> {1..22}" "pend ?y m" "taken h m (p_strc x)" "\<forall>i. 1 \<le> i \<and> i < m \<longrightarrow> \<not> (pend ?y i \<and> taken h i (p_strc x))"
          using m(2) unfolding issig_answer_def by simp_all
        have "\<not> (pend x i \<and> taken h i (p_strc x))" if i: "1 \<le> i" "i < m" for i
          using M(1,4) pe[of i] i nt by auto
        then show ?thesis unfolding issig_answer_def using True M pe[OF M(1)] by simp
      next
        case False
        then have "\<not> (\<exists>i \<in> {1..22}. pend ?y i \<and> taken h i (p_strc ?y))" using pe by auto
        then show ?thesis using m(2) False unfolding issig_answer_def by presburger
      qed
      then show ?thesis using m(1) l by auto
    qed
  qed
qed

lemma issig_ok: "\<exists>n s. issig h x = Some (n, x\<lparr>p_sig := s\<rparr>) \<and> issig_answer h x n"
proof (cases "p_sig x AND NOT (p_hold x) = 0")
  case True
  then have "issig h x = Some (0, x\<lparr>p_sig := p_sig x\<rparr>)" "issig_answer h x 0" unfolding issig_def issig_answer_def by simp_all
  then show ?thesis by blast
qed (use issig_loop_ok in \<open>simp add: issig_def\<close>)

lemma disturbed_ok: "\<exists>b s. disturbed h rp st = Some (b, upd_proc rp (\<lambda>x. x\<lparr>p_sig := s\<rparr>) st)"
proof -
  have e: "st = upd_proc rp (\<lambda>x. x\<lparr>p_sig := p_sig (procs st rp)\<rparr>) st" by (simp add: upd_proc_def)
  obtain n s where "issig h (procs st rp) = Some (n, (procs st rp)\<lparr>p_sig := s\<rparr>)" using issig_ok by blast
  then have "p_sig (procs st rp) \<noteq> 0 \<and> \<not> p_prstop (procs st rp) \<Longrightarrow> ?thesis" by (auto simp: disturbed_def upd_proc_def)
  then show ?thesis using e unfolding disturbed_def by (cases "p_prstop (procs st rp)"; cases "p_sig (procs st rp) = 0") auto
qed

section \<open>The queues\<close>

abbreviation links :: "kern \<Rightarrow> nat \<Rightarrow> ptr" where
  "links st \<equiv> \<lambda>p. p_link (procs st p)"

abbreviation stat :: "kern \<Rightarrow> nat \<Rightarrow> pstat" where
  "stat st \<equiv> \<lambda>p. p_stat (procs st p)"

abbreviation wchan :: "kern \<Rightarrow> nat \<Rightarrow> nat" where
  "wchan st \<equiv> \<lambda>p. p_wchan (procs st p)"

text \<open>\<open>Q h\<close> are the processes of sleep queue \<open>h\<close>, \<open>R\<close> those of the run queue.\<close>

definition queues :: "kern \<Rightarrow> (nat \<Rightarrow> nat list) \<Rightarrow> nat list \<Rightarrow> bool" where
  "queues st Q R \<longleftrightarrow> (\<forall>h. chain (links st) (hsque st h) (Q h)) \<and> chain (links st) (runq st) R \<and>
     (\<forall>p h. p \<in> set (Q h) \<longleftrightarrow> wchan st p \<noteq> 0 \<and> h = sqhash (wchan st p)) \<and> (\<forall>p \<in> set R. wchan st p = 0)"

lemma queuesD:
  assumes "queues st Q R"
  shows "chain (links st) (hsque st h) (Q h)" "chain (links st) (runq st) R"
    "p \<in> set (Q h) \<longleftrightarrow> wchan st p \<noteq> 0 \<and> h = sqhash (wchan st p)" "p \<in> set R \<Longrightarrow> wchan st p = 0"
  using assms by (auto simp: queues_def)

text \<open>The states that go with them; \<open>c\<close> is the process that runs.\<close>

definition states :: "ptr \<Rightarrow> kern \<Rightarrow> nat list \<Rightarrow> bool" where
  "states c st R \<longleftrightarrow> (\<forall>p. p \<in> set R \<longleftrightarrow> stat st p = SRUN \<and> c \<noteq> Some p) \<and> (\<forall>p. wchan st p \<noteq> 0 \<longrightarrow> stat st p \<in> {SSLEEP, SSTOP}) \<and>
     (\<forall>p. stat st p = SSLEEP \<longrightarrow> wchan st p \<noteq> 0) \<and> (\<forall>p. c = Some p \<longrightarrow> stat st p = SRUN) \<and> stat st 0 \<in> {SSLEEP, SRUN, SSTOP}"

lemma statesD:
  assumes "states c st R"
  shows "p \<in> set R \<longleftrightarrow> stat st p = SRUN \<and> c \<noteq> Some p" "wchan st p \<noteq> 0 \<Longrightarrow> stat st p \<in> {SSLEEP, SSTOP}"
    "stat st p = SSLEEP \<Longrightarrow> wchan st p \<noteq> 0" "c = Some p \<Longrightarrow> stat st p = SRUN" "stat st 0 \<in> {SSLEEP, SRUN, SSTOP}"
  using assms unfolding states_def by - (elim conjE, erule (1) allE impE | simp)+

lemma upd_proc_simps [simp]:
  "procs (upd_proc p f st) x = (if x = p then f (procs st p) else procs st x)" "hsque (upd_proc p f st) = hsque st"
  "runq (upd_proc p f st) = runq st" "runout (upd_proc p f st) = runout st" "cur (upd_proc p f st) = cur st"
  "curpri (upd_proc p f st) = curpri st" "runrun (upd_proc p f st) = runrun st"
  by (auto simp: upd_proc_def)

lemma qset_simps [simp]:
  "p_wchan (procs (qset q v st) x) = p_wchan (procs st x)" "p_stat (procs (qset q v st) x) = p_stat (procs st x)" "runq (qset q v st) = runq st" "runout (qset q v st) = runout st"
  "cur (qset q v st) = cur st" "p_load (procs (qset q v st) x) = p_load (procs st x)" "p_pri (procs (qset q v st) x) = p_pri (procs st x)"
  "curpri (qset q v st) = curpri st"
  by (cases q; auto simp: fun_eq_iff)+

lemma setrq_simps [simp]:
  "p_wchan (procs (setrq p st) x) = p_wchan (procs st x)" "p_stat (procs (setrq p st) x) = p_stat (procs st x)" "runq (setrq p st) = Some p" "runout (setrq p st) = runout st"
  "cur (setrq p st) = cur st" "p_load (procs (setrq p st) x) = p_load (procs st x)" "hsque (setrq p st) = hsque st"
  by (auto simp: setrq_def fun_eq_iff)

text \<open>An update of fields that the queues do not read.\<close>

lemma queues_cong:
  assumes "\<And>p. links st' p = links st p" "\<And>p. wchan st' p = wchan st p" "hsque st' = hsque st" "runq st' = runq st"
  shows "queues st' Q R = queues st Q R"
  unfolding queues_def by (simp add: assms)

lemma states_cong:
  assumes "\<And>p. stat st' p = stat st p" "\<And>p. wchan st' p = wchan st p"
  shows "states c st' R = states c st R"
  unfolding states_def by (simp add: assms)

text \<open>The place in queue \<open>h\<close> behind the processes \<open>as\<close>.\<close>

definition place :: "nat \<Rightarrow> nat list \<Rightarrow> qloc" where
  "place h as = (if as = [] then QHead h else QLink (last as))"

lemma qref_place: "chain (links st) (hsque st h) (as @ bs) \<Longrightarrow> qref (place h as) st = (case bs of [] \<Rightarrow> None | b # _ \<Rightarrow> Some b)"
proof (induction as rule: rev_induct)
  case (snoc a as)
  then show ?case by (cases bs) (auto simp: place_def chain_simps)
qed (auto simp: place_def split: list.splits)

lemma queues_distinct: "queues st Q R \<Longrightarrow> distinct (Q h) \<and> distinct R"
  unfolding queues_def using chain_distinct by blast

text \<open>Taking a process out of its queue.\<close>

lemma queues_remove:
  assumes q: "queues st Q R" and h: "Q h = as @ p # bs"
  shows "queues (upd_proc p (\<lambda>x. x\<lparr>p_wchan := 0\<rparr>) (qset (place h as) (p_link (procs st p)) st)) (Q(h := as @ bs)) R"
    (is "queues ?st _ _")
proof -
  have C: "chain (links st) (hsque st h') (Q h')" for h' using q by (simp add: queues_def)
  have CR: "chain (links st) (runq st) R" and M: "p \<in> set (Q h) \<longleftrightarrow> wchan st p \<noteq> 0 \<and> h = sqhash (wchan st p)" 
    and W: "\<forall>p \<in> set R. wchan st p = 0" for p h using q by (auto simp: queues_def)
  have d: "distinct (as @ p # bs)" using queues_distinct[OF q, of h] h by simp
  have wp: "wchan st p \<noteq> 0" "h = sqhash (wchan st p)" using M[of p h] h by auto
  have la: "last as \<in> set (Q h)" if "as \<noteq> []" using that h by simp
  have lk: "links ?st = (if as = [] then links st else (links st)(last as := p_link (procs st p)))"
    by (auto simp: place_def fun_eq_iff)
  have hs: "hsque ?st h' = (if as = [] \<and> h' = h then p_link (procs st p) else hsque st h')" for h' by (auto simp: place_def)
  have ch: "chain (links ?st) (hsque ?st h) (as @ bs)"
  proof (cases "as = []")
    case True
    then show ?thesis using C[of h] h lk hs by (auto simp: chain_simps)
  next
    case False
    then show ?thesis using chain_remove[OF C[of h, unfolded h] False] lk hs by simp
  qed
  have other: "chain (links ?st) v xs = chain (links st) v xs" if "as \<noteq> [] \<Longrightarrow> last as \<notin> set xs" for v xs
    using that unfolding lk by (cases "as = []") (simp_all add: chain_simps)
  have "chain (links ?st) (hsque ?st h') (Q h')" if n: "h' \<noteq> h" for h'
  proof -
    have "last as \<notin> set (Q h')" if "as \<noteq> []" using la[OF that] M n by metis
    then show ?thesis using other C[of h'] hs n by simp
  qed
  moreover have "chain (links ?st) (runq ?st) R"
  proof -
    have "last as \<notin> set R" if "as \<noteq> []" using la[OF that] M W by metis
    then show ?thesis using other CR by simp
  qed
  moreover have "x \<in> set ((Q(h := as @ bs)) h') \<longleftrightarrow> wchan ?st x \<noteq> 0 \<and> h' = sqhash (wchan ?st x)" for x h'
  proof (cases "x = p")
    case True
    then show ?thesis using d M[of p h'] wp by auto
  next
    case False
    then show ?thesis using M[of x h'] h by auto
  qed
  moreover have "\<forall>x \<in> set R. wchan ?st x = 0" using W by simp
  ultimately show ?thesis unfolding queues_def using ch by simp
qed

lemma queues_setrq:
  assumes q: "queues st Q R" and p: "wchan st p = 0" "p \<notin> set R"
  shows "queues (setrq p st) Q (p # R)"
proof -
  have "p \<notin> set (Q h)" for h using q p(1) by (auto simp: queues_def)
  moreover have lk: "links (setrq p st) = (links st)(p := runq st)" by (auto simp: setrq_def fun_eq_iff)
  ultimately have "chain (links (setrq p st)) v (Q h) = chain (links st) v (Q h)" for v h unfolding lk by (simp add: chain_simps)
  moreover have "chain (links (setrq p st)) v R = chain (links st) v R" for v unfolding lk using p(2) by (simp add: chain_simps)
  ultimately show ?thesis using q p unfolding queues_def by (simp add: lk)
qed

lemma find_link_ok:
  assumes "chain (links st) (hsque st h) (as @ bs @ p # cs)" "p \<notin> set bs"
  shows "find_link p (place h as) st = Some (place h (as @ bs))"
  using assms
proof (induction bs arbitrary: as)
  case Nil
  then show ?case using qref_place[of st h as "p # cs"] by (subst find_link.simps) simp
next
  case (Cons b bs)
  have "find_link p (place h as) st = find_link p (place h (as @ [b])) st"
    using Cons.prems qref_place[of st h as "b # bs @ p # cs"] by (subst find_link.simps) (simp add: place_def)
  then show ?case using Cons.IH[of "as @ [b]"] Cons.prems by simp
qed

lemma unsleep_ok:
  assumes q: "queues st Q R"
  obtains st' Q' where "unsleep p st = Some st'" "queues st' Q' R" "\<And>x. stat st' x = stat st x"
    "\<And>x. wchan st' x = (if x = p then 0 else wchan st x)" "runout st' = runout st" "cur st' = cur st"
proof (cases "wchan st p = 0")
  case True
  then show ?thesis using that[of st Q] q by (auto simp: unsleep_def)
next
  case False
  let ?h = "sqhash (wchan st p)"
  have C: "chain (links st) (hsque st ?h) (Q ?h)" and "p \<in> set (Q ?h)" using q False by (auto simp: queues_def)
  then obtain as bs where h: "Q ?h = as @ p # bs" "p \<notin> set as" using split_list_first by fastforce
  have "find_link p (QHead ?h) st = Some (place ?h as)"
    using find_link_ok[of st ?h "[]" as p bs] C h by (simp add: place_def)
  then have "unsleep p st = Some (upd_proc p (\<lambda>x. x\<lparr>p_wchan := 0\<rparr>) (qset (place ?h as) (p_link (procs st p)) st))"
    using False by (simp add: unsleep_def)
  then show ?thesis by (rule that[OF _ queues_remove[OF q h(1)]]) (auto simp: fun_eq_iff)
qed

section \<open>Setting processes running\<close>

text \<open>A process joins the run queue; what is done to \<^verbatim>\<open>p_time\<close>, \<^verbatim>\<open>runrun\<close> and \<^verbatim>\<open>runout\<close> does not matter here.\<close>

lemma made_running:
  assumes q: "queues st Q R" and s: "\<forall>x. x \<noteq> p \<longrightarrow> (x \<in> set R \<longleftrightarrow> stat st x = SRUN \<and> c \<noteq> Some x)" "p \<notin> set R" "c \<noteq> Some p"
    "wchan st p = 0" "\<forall>x. x \<noteq> p \<longrightarrow> (wchan st x \<noteq> 0 \<longrightarrow> stat st x \<in> {SSLEEP, SSTOP}) \<and> (stat st x = SSLEEP \<longrightarrow> wchan st x \<noteq> 0)"
    "\<forall>x. c = Some x \<longrightarrow> stat st x = SRUN" "p = 0 \<or> stat st 0 \<in> {SSLEEP, SRUN, SSTOP}"
  defines "st' \<equiv> setrq p (upd_proc p (\<lambda>x. x\<lparr>p_stat := SRUN\<rparr>) st)"
  shows "queues st' Q (p # R)" "states c st' (p # R)" "stat st' x = (if x = p then SRUN else stat st x)" "wchan st' x = wchan st x"
proof -
  have "queues (upd_proc p (\<lambda>x. x\<lparr>p_stat := SRUN\<rparr>) st) Q R" using q by (subst queues_cong[of _ st]) auto
  then show "queues st' Q (p # R)" unfolding st'_def using s(2,4) by (intro queues_setrq) auto
  show "stat st' x = (if x = p then SRUN else stat st x)" "wchan st' x = wchan st x" by (simp_all add: st'_def)
  show "states c st' (p # R)" unfolding states_def using s by (auto simp: st'_def)
qed

lemma setrun_one_ok:
  assumes q: "queues st Q R" and s: "states c st R" and p: "stat st p \<in> {SSLEEP, SSTOP, SRUN}"
  obtains fl st' Q' R' where "setrun_one p st = Some (fl, st')" "queues st' Q' R'" "states c st' R'" "stat st' p = SRUN"
    "\<And>x. x \<noteq> p \<Longrightarrow> stat st' x = stat st x \<and> wchan st' x = wchan st x" "cur st' = cur st"
proof (cases "stat st p = SRUN")
  case True
  then show ?thesis using that[of False st Q R] q s by (simp add: setrun_one_def)
next
  case False
  obtain st1 Q' where U: "unsleep p st = Some st1" "queues st1 Q' R" "\<And>x. stat st1 x = stat st x"
    "\<And>x. wchan st1 x = (if x = p then 0 else wchan st x)" "runout st1 = runout st" "cur st1 = cur st"
    using unsleep_ok[OF q, of p] by metis
  let ?st = "setrq p (upd_proc p (\<lambda>x. x\<lparr>p_stat := SRUN\<rparr>) st1)"
  have c: "c \<noteq> Some p" "p \<notin> set R" using s False by (auto simp: states_def)
  have M: "queues ?st Q' (p # R)" "states c ?st (p # R)" "\<And>x. stat ?st x = (if x = p then SRUN else stat st x)"
    "\<And>x. wchan ?st x = (if x = p then 0 else wchan st x)"
    using made_running[of st1 Q' R p c] U(2-4) c s unfolding states_def by auto
  have r: "\<exists>fl st'. setrun_one p st = Some (fl, st') \<and> (\<forall>x. links st' x = links ?st x \<and> stat st' x = stat ?st x \<and> wchan st' x = wchan ?st x) \<and>
      hsque st' = hsque ?st \<and> runq st' = runq ?st \<and> cur st' = cur ?st"
    using p False U(1) by (auto simp: setrun_one_def Let_def)
  then obtain fl st' where S: "setrun_one p st = Some (fl, st')" "\<And>x. links st' x = links ?st x" "\<And>x. stat st' x = stat ?st x"
    "\<And>x. wchan st' x = wchan ?st x" "hsque st' = hsque ?st" "runq st' = runq ?st" "cur st' = cur ?st" by blast
  show ?thesis
  proof (rule that[OF S(1)])
    show "queues st' Q' (p # R)" using M(1) queues_cong[OF S(2,4,5,6)] by blast
    show "states c st' (p # R)" using M(2) states_cong[OF S(3,4)] by blast
  qed (use S(3,4,7) M(3,4) U(6) in auto)
qed

text \<open>\<open>moved st st' p\<close>: only \<open>p\<close>, and possibly the scheduler \<open>0\<close>, was set running.\<close>

definition others_kept :: "kern \<Rightarrow> kern \<Rightarrow> nat \<Rightarrow> bool" where
  "others_kept st st' p \<longleftrightarrow> (\<forall>x. x \<noteq> p \<and> x \<noteq> 0 \<longrightarrow> stat st' x = stat st x \<and> wchan st' x = wchan st x) \<and>
     (p \<noteq> 0 \<longrightarrow> stat st' 0 = stat st 0 \<and> wchan st' 0 = wchan st 0 \<or> stat st' 0 = SRUN)"

lemma setrun_ok:
  assumes q: "queues st Q R" and s: "states c st R" and p: "stat st p \<in> {SSLEEP, SSTOP, SRUN}"
  obtains st' Q' R' where "setrun p st = Some st'" "queues st' Q' R'" "states c st' R'" "stat st' p = SRUN" "others_kept st st' p" "cur st' = cur st"
proof -
  obtain fl st1 Q1 R1 where A: "setrun_one p st = Some (fl, st1)" "queues st1 Q1 R1" "states c st1 R1" "stat st1 p = SRUN"
    "\<And>x. x \<noteq> p \<Longrightarrow> stat st1 x = stat st x \<and> wchan st1 x = wchan st x" "cur st1 = cur st" using setrun_one_ok[OF assms] by metis
  show ?thesis
  proof (cases fl)
    case False
    then show ?thesis using that[of st1 Q1 R1] A by (auto simp: setrun_def others_kept_def)
  next
    case True
    have "stat st1 0 \<in> {SSLEEP, SSTOP, SRUN}" using A(3) by (auto simp: states_def)
    then obtain fl' st2 Q2 R2 where B: "setrun_one 0 st1 = Some (fl', st2)" "queues st2 Q2 R2" "states c st2 R2" "stat st2 0 = SRUN"
      "\<And>x. x \<noteq> 0 \<Longrightarrow> stat st2 x = stat st1 x \<and> wchan st2 x = wchan st1 x" "cur st2 = cur st1"
      using setrun_one_ok[OF A(2,3)] by metis
    have "stat st2 p = SRUN" using A(4) B(4,5) by (cases "p = 0") auto
    then show ?thesis using that[of st2 Q2 R2] A B True by (auto simp: setrun_def others_kept_def)
  qed
qed

section \<open>Waking up\<close>

lemma wake_one_ok:
  fixes rs :: bool
  assumes q: "queues st Q R" and s: "states c st R" and h: "Q h = as @ p # bs"
  defines "st' \<equiv> snd (wake_one p (place h as) rs st)"
  shows "queues st' (Q(h := as @ bs)) (if stat st p = SSLEEP then p # R else R)" "states c st' (if stat st p = SSLEEP then p # R else R)"
    "stat st' x = (if x = p \<and> stat st p = SSLEEP then SRUN else stat st x)" "wchan st' x = (if x = p then 0 else wchan st x)" "cur st' = cur st"
proof -
  let ?s1 = "qset (place h as) (p_link (procs st p)) (upd_proc p (\<lambda>x. x\<lparr>p_wchan := 0\<rparr>) st)"
  have e: "?s1 = upd_proc p (\<lambda>x. x\<lparr>p_wchan := 0\<rparr>) (qset (place h as) (p_link (procs st p)) st)"
    by (cases "place h as") (auto simp: upd_proc_def fun_eq_iff)
  have q1: "queues ?s1 (Q(h := as @ bs)) R" unfolding e by (rule queues_remove[OF q h])
  have p: "wchan st p \<noteq> 0" using queuesD(3)[OF q, of p h] h by simp
  have x1: "stat ?s1 x = stat st x" "wchan ?s1 x = (if x = p then 0 else wchan st x)" for x by auto
  have "stat st p \<noteq> SRUN" using statesD(2)[OF s p] by auto
  then have c: "c \<noteq> Some p" "p \<notin> set R" using statesD(4)[OF s, of p] statesD(1)[OF s, of p] by auto
  show "stat st' x = (if x = p \<and> stat st p = SSLEEP then SRUN else stat st x)" "wchan st' x = (if x = p then 0 else wchan st x)" "cur st' = cur st"
    by (auto simp: st'_def wake_one_def Let_def)
  show "queues st' (Q(h := as @ bs)) (if stat st p = SSLEEP then p # R else R)" "states c st' (if stat st p = SSLEEP then p # R else R)"
  proof -
    have "queues st' (Q(h := as @ bs)) (if stat st p = SSLEEP then p # R else R) \<and> states c st' (if stat st p = SSLEEP then p # R else R)"
    proof (cases "stat st p = SSLEEP")
      case False
      have "states c ?s1 R" unfolding states_def x1 using s False p unfolding states_def by auto
      then show ?thesis using False q1 by (simp add: st'_def wake_one_def Let_def)
    next
      case True
      let ?s2 = "setrq p (upd_proc p (\<lambda>x. x\<lparr>p_stat := SRUN\<rparr>) ?s1)"
      have M: "queues ?s2 (Q(h := as @ bs)) (p # R)" "states c ?s2 (p # R)"
        using made_running[OF q1, of p c] c s x1 unfolding states_def by auto
      have "links st' x = links ?s2 x" "stat st' x = stat ?s2 x" "wchan st' x = wchan ?s2 x" "hsque st' = hsque ?s2" "runq st' = runq ?s2" for x
        using True by (auto simp: st'_def wake_one_def Let_def)
      then show ?thesis using M True queues_cong[of st' ?s2] states_cong[of st' ?s2] by simp
    qed
    then show "queues st' (Q(h := as @ bs)) (if stat st p = SSLEEP then p # R else R)" "states c st' (if stat st p = SSLEEP then p # R else R)" by blast+
  qed
qed

definition woken :: "nat \<Rightarrow> kern \<Rightarrow> kern \<Rightarrow> nat \<Rightarrow> bool" where
  "woken chan st st' x \<longleftrightarrow>
     (if wchan st x = chan then wchan st' x = 0 \<and> stat st' x = (if stat st x = SSLEEP then SRUN else stat st x)
      else wchan st' x = wchan st x \<and> stat st' x = stat st x)"

lemma wakeup_loop_ok:
  assumes h: "h = sqhash chan" "chan \<noteq> 0"
  shows "queues st Q R \<Longrightarrow> states c st R \<Longrightarrow> Q h = as @ bs \<Longrightarrow> \<forall>x \<in> set as. wchan st x \<noteq> chan \<Longrightarrow>
    \<exists>fl st' Q' R'. wakeup_loop chan (place h as) rs st = Some (fl, st') \<and> queues st' Q' R' \<and> states c st' R' \<and>
      (\<forall>x. woken chan st st' x) \<and> cur st' = cur st"
proof (induction bs arbitrary: as st Q R rs)
  case Nil
  have "wchan st x \<noteq> chan" for x
  proof
    assume "wchan st x = chan"
    then have "x \<in> set (Q h)" using Nil.prems(1) h by (auto simp: queues_def)
    then show False using Nil.prems(3,4) \<open>wchan st x = chan\<close> by simp
  qed
  moreover have "wakeup_loop chan (place h as) rs st = Some (rs, st)"
    using qref_place[of st h as "[]"] queuesD(1)[OF Nil.prems(1), of h] Nil.prems(3) by (subst wakeup_loop.simps) simp
  ultimately show ?case using Nil.prems(1,2) by (auto simp: woken_def)
next
  case (Cons b bs)
  have C: "chain (links st) (hsque st h) (as @ b # bs)" using Cons.prems(1,3) by (metis queues_def)
  have b: "qref (place h as) st = Some b" using qref_place[OF C] by simp
  have "wchan st b \<noteq> 0" using queuesD(3)[OF Cons.prems(1), of b h] Cons.prems(3) by simp
  then have sb: "stat st b \<in> {SSLEEP, SSTOP}" using Cons.prems(2) by (auto simp: states_def)
  show ?case
  proof (cases "wchan st b = chan")
    case False
    have "wakeup_loop chan (place h as) rs st = wakeup_loop chan (place h (as @ [b])) rs st"
      using b sb False by (subst wakeup_loop.simps) (auto simp: place_def)
    then show ?thesis using Cons.IH[of st Q R "as @ [b]" rs] Cons.prems False by auto
  next
    case True
    obtain rs1 st1 where w: "wake_one b (place h as) rs st = (rs1, st1)" by (cases "wake_one b (place h as) rs st")
    note W = wake_one_ok[OF Cons.prems(1,2,3), of rs, unfolded w snd_conv]
    have l: "wakeup_loop chan (place h as) rs st = wakeup_loop chan (place h as) rs1 st1"
      using b sb True w by (subst wakeup_loop.simps) auto
    have "\<forall>x \<in> set as. wchan st1 x \<noteq> chan" using Cons.prems(4) h(2) by (simp add: W(4))
    from Cons.IH[OF W(1,2) _ this, of rs1] obtain fl st' Q' R' where
      I: "wakeup_loop chan (place h as) rs1 st1 = Some (fl, st')" "queues st' Q' R'" "states c st' R'" "\<forall>x. woken chan st1 st' x" "cur st' = cur st1"
      by auto
    have "woken chan st st' x" for x
      using I(4)[rule_format, of x] W(3,4)[of x] True h(2) by (auto simp: woken_def split: if_splits)
    then show ?thesis using l I W(5) by auto
  qed
qed

definition woken_all :: "nat \<Rightarrow> kern \<Rightarrow> kern \<Rightarrow> bool" where
  "woken_all chan st st' \<longleftrightarrow> (\<forall>x. woken chan st st' x \<or> x = 0 \<and> stat st' 0 = SRUN)"

lemma wakeup_ok:
  assumes q: "queues st Q R" and s: "states c st R" and "chan \<noteq> 0"
  obtains st' Q' R' where "wakeup chan st = Some st'" "queues st' Q' R'" "states c st' R'" "woken_all chan st st'" "cur st' = cur st"
proof -
  let ?h = "sqhash chan"
  have pl: "place ?h [] = QHead ?h" by (simp add: place_def)
  obtain fl st1 Q1 R1 where L: "wakeup_loop chan (QHead ?h) False st = Some (fl, st1)" "queues st1 Q1 R1" "states c st1 R1"
    "\<forall>x. woken chan st st1 x" "cur st1 = cur st"
    using wakeup_loop_ok[OF refl assms(3) q s, of "[]" "Q ?h" False] unfolding pl by auto
  show ?thesis
  proof (cases fl)
    case False
    then show ?thesis using that[of st1 Q1 R1] L by (simp add: wakeup_def woken_all_def)
  next
    case True
    let ?s = "st1\<lparr>runout := 0\<rparr>"
    have q: "queues ?s Q1 R1" using L(2) queues_cong[of ?s st1] by simp
    have s: "states c ?s R1" using L(3) states_cong[of ?s st1] by simp
    have "stat ?s 0 \<in> {SSLEEP, SSTOP, SRUN}" using statesD(5)[OF s] by auto
    from setrun_ok[OF q s this] obtain st2 Q2 R2 where B: "setrun 0 ?s = Some st2" "queues st2 Q2 R2" "states c st2 R2" "stat st2 0 = SRUN"
      "others_kept ?s st2 0" "cur st2 = cur ?s" by metis
    have "woken_all chan st st2" unfolding woken_all_def
    proof
      fix x
      show "woken chan st st2 x \<or> x = 0 \<and> stat st2 0 = SRUN"
        using L(4)[rule_format, of x] B(4,5) by (cases "x = 0") (simp_all add: woken_def others_kept_def)
    qed
    then show ?thesis using that[of st2 Q2 R2] B L True by (simp add: wakeup_def)
  qed
qed

section \<open>Signals and stops\<close>

lemma others_kept_same:
  "(\<And>x. stat st' x = stat st x) \<Longrightarrow> (\<And>x. x \<noteq> p \<Longrightarrow> wchan st' x = wchan st x) \<Longrightarrow> others_kept st st' p"
  by (simp add: others_kept_def)

lemma psignal_cases:
  fixes p sig st
  defines "st' \<equiv> upd_proc p (\<lambda>x. x\<lparr>p_sig := p_sig x OR push_bit (nat (sig - 1)) 1\<rparr>) st"
  obtains "psignal p sig st = Some st" | "psignal p sig st = Some st'"
    | "psignal p sig st = setrun p st'" "stat st p \<in> {SSLEEP, SSTOP}" | "psignal p sig st = unsleep p st'" "stat st p = SSTOP"
proof -
  have t: "p_stat (procs st' p) = stat st p" by (simp add: st'_def)
  have "psignal p sig st = Some st \<or> psignal p sig st = Some st' \<or> psignal p sig st = setrun p st' \<and> stat st p \<in> {SSLEEP, SSTOP} \<or>
    psignal p sig st = unsleep p st' \<and> stat st p = SSTOP"
    unfolding psignal_def Let_def st'_def[symmetric] t by (simp split: if_split)
  then show thesis using that by blast
qed

text \<open>Nothing but \<open>p\<close>, and possibly process 0, changes; \<open>p\<close> is not put to sleep.\<close>

lemma psignal_ok:
  assumes q: "queues st Q R" and s: "states c st R"
  shows "\<exists>st' Q' R'. psignal p sig st = Some st' \<and> queues st' Q' R' \<and> states c st' R' \<and> others_kept st st' p \<and>
    (stat st' p = SRUN \<or> stat st' p = stat st p) \<and> cur st' = cur st"
proof -
  let ?s = "upd_proc p (\<lambda>x. x\<lparr>p_sig := p_sig x OR push_bit (nat (sig - 1)) 1\<rparr>) st"
  have x: "links ?s x = links st x" "stat ?s x = stat st x" "wchan ?s x = wchan st x" for x by simp_all
  have q1: "queues ?s Q R" using q queues_cong[of ?s st, OF x(1,3)] by simp
  have s1: "states c ?s R" using s states_cong[of ?s st, OF x(2,3)] by blast
  have cu: "cur ?s = cur st" by simp
  show ?thesis
  proof (cases rule: psignal_cases[of p sig st])
    case 1
    then show ?thesis using q s others_kept_same[of st st] by blast
  next
    case 2
    then show ?thesis using q1 s1 others_kept_same[of ?s st, OF x(2,3)] x(2) cu by blast
  next
    case 3
    then have r: "stat ?s p \<in> {SSLEEP, SSTOP, SRUN}" unfolding x by auto
    obtain st' Q' R' where A: "setrun p ?s = Some st'" "queues st' Q' R'" "states c st' R'" "stat st' p = SRUN"
      "others_kept ?s st' p" "cur st' = cur ?s" by (rule setrun_ok[OF q1 s1 r])
    have "others_kept st st' p" using A(5) unfolding others_kept_def x .
    then show ?thesis using 3(1) A unfolding cu by metis
  next
    case 4
    obtain st' Q' where A: "unsleep p ?s = Some st'" "queues st' Q' R" "\<And>x. stat st' x = stat ?s x"
      "\<And>x. wchan st' x = (if x = p then 0 else wchan ?s x)" "runout st' = runout ?s" "cur st' = cur ?s"
      by (rule unsleep_ok[OF q1, of p]) (rule that; assumption)
    have w: "wchan st' x = (if x = p then 0 else wchan st x)" and t: "stat st' x = stat st x" for x unfolding A(3,4) x by simp_all
    have "states c st' R" unfolding states_def w t using statesD[OF s] 4(2) by auto
    moreover have "others_kept st st' p" by (rule others_kept_same) (simp_all only: w t if_False)
    ultimately show ?thesis using 4(1) A(1,2,6) t unfolding cu by metis
  qed
qed

lemma stop_ok:
  assumes q: "queues st Q R" and s: "states (Some p) st R" and "pp \<noteq> 0"
  shows "\<exists>st' Q' R'. stop p pp tr st = Some st' \<and> queues st' Q' R' \<and> states None st' R' \<and> cur st' = cur st"
proof -
  let ?s = "upd_proc p (\<lambda>x. x\<lparr>p_stat := SSTOP, p_wted := False\<rparr>) st"
  have q1: "queues ?s Q R" using q by (subst queues_cong[of _ st]) simp_all
  have pR: "p \<notin> set R" "stat st p = SRUN" using statesD(1,4)[OF s, of p] by auto
  have w: "wchan ?s x = wchan st x" and t: "stat ?s x = (if x = p then SSTOP else stat st x)" for x by simp_all
  have s1: "states None ?s R" unfolding states_def w t using statesD[OF s] pR by auto
  obtain st1 Q1 R1 where A: "wakeup pp ?s = Some st1" "queues st1 Q1 R1" "states None st1 R1" "woken_all pp ?s st1" "cur st1 = cur ?s"
    using wakeup_ok[OF q1 s1 assms(3)] by metis
  show ?thesis
  proof (cases "tr = 0")
    case True
    then have "stop p pp tr st = Some st1" using A(1) by (simp add: stop_def)
    moreover have "cur st1 = cur st" using A(5) by simp
    ultimately show ?thesis using A(2,3) by blast
  next
    case False
    obtain st2 Q2 R2 where B: "wakeup tr st1 = Some st2" "queues st2 Q2 R2" "states None st2 R2" "cur st2 = cur st1"
      using wakeup_ok[OF A(2,3) False] by metis
    have "stop p pp tr st = Some st2" using A(1) B(1) False by (simp add: stop_def)
    moreover have "cur st2 = cur st" using A(5) B(4) by simp
    ultimately show ?thesis using B(2,3) by blast
  qed
qed

lemma signal_from_ok:
  assumes "queues st Q R" "states c st R"
  shows "\<exists>st' Q' R'. signal_from k p pgrp sig st = Some st' \<and> queues st' Q' R' \<and> states c st' R' \<and> cur st' = cur st"
  using assms
proof (induction k arbitrary: p st Q R)
  case (Suc k)
  obtain st1 Q1 R1 where A: "psignal p sig st = Some st1" "queues st1 Q1 R1" "states c st1 R1" "cur st1 = cur st"
    using psignal_ok[OF Suc.prems] by blast
  show ?case
  proof (cases "p_pgrp (procs st p) = pgrp")
    case True
    then show ?thesis using Suc.IH[OF A(2,3), of "Suc p"] A(1,4) by auto
  next
    case False
    then show ?thesis using Suc.IH[OF Suc.prems, of "Suc p"] by simp
  qed
qed auto

lemma signal_ok:
  "queues st Q R \<Longrightarrow> states c st R \<Longrightarrow>
    \<exists>st' Q' R'. signal n pgrp sig st = Some st' \<and> queues st' Q' R' \<and> states c st' R' \<and> cur st' = cur st"
  unfolding signal_def using signal_from_ok[of st Q R c "n - 1" 1] by auto

lemma chgpri_range: "0 \<le> chgpri su pnice nice \<and> chgpri su pnice nice < 40"
  by (simp add: chgpri_def Let_def)

end
