(* ===== verification/Slp_Ok.thy ===== *)
theory Slp_Ok
  imports Slp_Queue
begin

text \<open>
  Processes that go to sleep and are switched to, the steps of the kernel as a relation, and what holds in every state it reaches.
\<close>

section \<open>Going to sleep\<close>

lemma queues_insert:
  assumes q: "queues st Q R" and p: "wchan st p = 0" "p \<notin> set R" and c: "chan \<noteq> 0" "h = sqhash chan"
    and l: "\<And>x. links st' x = (if x = p then hsque st h else links st x)" and hs: "hsque st' = (hsque st)(h := Some p)"
    and w: "\<And>x. wchan st' x = (if x = p then chan else wchan st x)" and r: "runq st' = runq st"
  shows "queues st' (Q(h := p # Q h)) R"
proof -
  have lk: "links st' = (links st)(p := hsque st h)" using l by auto
  have n: "p \<notin> set (Q g)" for g using queuesD(3)[OF q, of p g] p(1) by simp
  have C: "chain (links st') v (Q g) = chain (links st) v (Q g)" for v g unfolding lk using n by (simp add: chain_simps)
  have "chain (links st') (hsque st' g) ((Q(h := p # Q h)) g)" for g
    using queuesD(1)[OF q, of g] queuesD(1)[OF q, of h] C[of _ g] C[of _ h] by (cases "g = h") (simp_all add: hs lk)
  moreover have "chain (links st') (runq st') R" unfolding lk r using queuesD(2)[OF q] p(2) by (simp add: chain_simps)
  moreover have "x \<in> set ((Q(h := p # Q h)) g) \<longleftrightarrow> wchan st' x \<noteq> 0 \<and> g = sqhash (wchan st' x)" for x g
    unfolding w using queuesD(3)[OF q, of x g] c n[of g] by auto
  moreover have "\<forall>x \<in> set R. wchan st' x = 0" unfolding w using queuesD(4)[OF q] p(2) by auto
  ultimately show ?thesis unfolding queues_def by blast
qed

lemma queues_frame:
  assumes q: "queues st Q R" and p: "wchan st p = 0" "p \<notin> set R"
    and l: "\<And>x. x \<noteq> p \<Longrightarrow> links st' x = links st x" and hs: "hsque st' = hsque st" "runq st' = runq st" and w: "\<And>x. wchan st' x = wchan st x"
  shows "queues st' Q R"
proof -
  have n: "p \<notin> set (Q g)" for g using queuesD(3)[OF q, of p g] p(1) by simp
  have "chain (links st') v (Q g) = chain (links st) v (Q g)" for v g by (rule lseg_cong) (use n l in metis)
  moreover have "chain (links st') v R = chain (links st) v R" for v by (rule lseg_cong) (use p(2) l in metis)
  ultimately show ?thesis using q unfolding queues_def hs w by simp
qed

lemma sleep_ok:
  assumes q: "queues st Q R" and s: "states (Some rp) st R" and c: "chan \<noteq> 0"
  shows "\<exists>b st' Q'. sleep h rp chan pri st = Some (b, st') \<and> queues st' Q' R \<and> states (if b then None else Some rp) st' R \<and>
    (\<forall>x. x \<noteq> rp \<longrightarrow> stat st' x = stat st x \<and> wchan st' x = wchan st x) \<and>
    stat st' rp = (if b then SSLEEP else SRUN) \<and> wchan st' rp = (if b then chan else 0) \<and> cur st' = cur st"
proof -
  let ?h = "sqhash chan"
  have rp: "stat st rp = SRUN" "rp \<notin> set R" using statesD(1,4)[OF s, of rp] by auto
  then have w0: "wchan st rp = 0" using statesD(2)[OF s, of rp] by auto
  define s3 where "s3 = upd_proc rp (\<lambda>x. x\<lparr>p_time := min (p_time x) TZERO, p_pri := min (p_pri x) (pri mod 128)\<rparr>)
    (qset (QHead ?h) (Some rp) (upd_proc rp (\<lambda>x. x\<lparr>p_stat := SSLEEP, p_wchan := chan, p_link := qref (QHead ?h) st\<rparr>) st))"
  have s3: "links s3 x = (if x = rp then hsque st ?h else links st x)" "stat s3 x = (if x = rp then SSLEEP else stat st x)"
    "wchan s3 x = (if x = rp then chan else wchan st x)" "hsque s3 = (hsque st)(?h := Some rp)" "runq s3 = runq st" "cur s3 = cur st" for x
    by (auto simp: s3_def)
  let ?Q = "Q(?h := rp # Q ?h)"
  have asleep: "queues st' ?Q R \<and> states None st' R"
    if e: "\<And>x. links st' x = links s3 x" "\<And>x. stat st' x = stat s3 x" "\<And>x. wchan st' x = wchan s3 x" "hsque st' = hsque s3" "runq st' = runq s3" for st'
  proof
    show "queues st' ?Q R"
      by (rule queues_insert[OF q w0 rp(2) c refl]) (simp_all only: e s3)
    show "states None st' R" unfolding states_def e s3 using statesD[OF s] rp c by auto
  qed
  obtain b sg where d: "disturbed h rp s3 = Some (b, upd_proc rp (\<lambda>x. x\<lparr>p_sig := sg\<rparr>) s3)" using disturbed_ok by blast
  have S: "sleep h rp chan pri st =
      (if pri mod 128 > PZERO then
         (case disturbed h rp s3 of
            None \<Rightarrow> None
          | Some (True, st) \<Rightarrow>
              let st = upd_proc rp (\<lambda>x. x\<lparr>p_wchan := 0, p_stat := SRUN\<rparr>) st
              in Some (False, qset (QHead ?h) (p_link (procs st rp)) st)
          | Some (False, st) \<Rightarrow> Some (True, st))
       else Some (True, upd_proc rp (\<lambda>x. x\<lparr>p_nwake := True\<rparr>) s3))"
    unfolding sleep_def Let_def s3_def by simp
  show ?thesis
  proof (cases "pri mod 128 > PZERO \<and> b")
    case False
    define st' where "st' = (if pri mod 128 > PZERO then upd_proc rp (\<lambda>x. x\<lparr>p_sig := sg\<rparr>) s3 else upd_proc rp (\<lambda>x. x\<lparr>p_nwake := True\<rparr>) s3)"
    have e: "links st' x = links s3 x" "stat st' x = stat s3 x" "wchan st' x = wchan s3 x" "hsque st' = hsque s3" "runq st' = runq s3" "cur st' = cur s3" for x
      by (simp_all add: st'_def)
    have "sleep h rp chan pri st = Some (True, st')" unfolding S d st'_def using False by auto
    then show ?thesis using asleep[OF e(1-5)] e s3 by (intro exI[of _ True] exI[of _ st'] exI[of _ ?Q]) simp
  next
    case True
    define s5 where "s5 = upd_proc rp (\<lambda>x. x\<lparr>p_wchan := 0, p_stat := SRUN\<rparr>) (upd_proc rp (\<lambda>x. x\<lparr>p_sig := sg\<rparr>) s3)"
    define s6 where "s6 = qset (QHead ?h) (p_link (procs s5 rp)) s5"
    have e: "sleep h rp chan pri st = Some (False, s6)" unfolding S d using True by (simp add: s5_def s6_def Let_def)
    have x6: "stat s6 x = stat st x" "wchan s6 x = wchan st x" "hsque s6 = hsque st" "runq s6 = runq st" "cur s6 = cur st" for x
      using rp(1) w0 by (simp_all add: s6_def s5_def s3)
    have l6: "links s6 x = links st x" if "x \<noteq> rp" for x using that by (simp add: s6_def s5_def s3)
    have "queues s6 Q R" by (rule queues_frame[OF q w0 rp(2) l6 x6(3,4,2)])
    moreover have "states (Some rp) s6 R" using s states_cong[OF x6(1,2)] by blast
    ultimately show ?thesis using e x6 rp(1) w0 by (intro exI[of _ False] exI[of _ s6] exI[of _ Q]) simp
  qed
qed

section \<open>Choosing the next process\<close>

abbreviation ready :: "kern \<Rightarrow> nat \<Rightarrow> bool" where
  "ready st x \<equiv> p_load (procs st x) \<and> \<not> p_procio (procs st x) \<and> p_pri (procs st x) \<le> 128"

definition before :: "nat list \<Rightarrow> ptr" where
  "before us = (if us = [] then None else Some (last us))"

text \<open>The choice among the processes of the run queue: the best priority, and the one that has waited longest among equals.\<close>

definition chosen :: "kern \<Rightarrow> nat list \<Rightarrow> nat \<Rightarrow> nat list \<Rightarrow> bool" where
  "chosen st us i vs \<longleftrightarrow> ready st i \<and> (\<forall>x \<in> set us. ready st x \<longrightarrow> p_pri (procs st i) \<le> p_pri (procs st x)) \<and>
     (\<forall>x \<in> set vs. ready st x \<longrightarrow> p_pri (procs st i) < p_pri (procs st x))"

definition scanned :: "kern \<Rightarrow> nat list \<Rightarrow> (nat \<times> ptr) option \<Rightarrow> int \<Rightarrow> bool" where
  "scanned st as pp n \<longleftrightarrow>
     (case pp of
        None \<Rightarrow> n = 128 \<and> (\<forall>x \<in> set as. \<not> ready st x)
      | Some (i, q) \<Rightarrow> \<exists>us vs. as = us @ i # vs \<and> q = before us \<and> n = p_pri (procs st i) \<and> chosen st us i vs)"

lemma scanned_snoc_skip:
  assumes "scanned st as pp n" "p_pri (procs st i) > n \<or> \<not> p_load (procs st i) \<or> p_procio (procs st i)"
  shows "scanned st (as @ [i]) pp n"
proof (cases pp)
  case None
  then show ?thesis using assms by (auto simp: scanned_def)
next
  case (Some a)
  obtain j q where a: "a = (j, q)" by fastforce
  obtain us vs where "as = us @ j # vs" "q = before us" "n = p_pri (procs st j)" "chosen st us j vs"
    using assms(1) Some a by (auto simp: scanned_def)
  moreover then have "chosen st us j (vs @ [i])" using assms(2) by (auto simp: chosen_def)
  ultimately show ?thesis using Some a by (auto simp: scanned_def)
qed

lemma scanned_snoc_take:
  assumes "scanned st as pp n" "p_pri (procs st i) \<le> n" "p_load (procs st i)" "\<not> p_procio (procs st i)" 
  shows "scanned st (as @ [i]) (Some (i, before as)) (p_pri (procs st i))"
proof -
  have n: "n \<le> 128 \<and> (\<forall>x \<in> set as. ready st x \<longrightarrow> n \<le> p_pri (procs st x))" 
    using assms(1) by (fastforce simp: scanned_def chosen_def split: option.splits)
  then have "chosen st as i []" using assms(2-4) by (auto simp: chosen_def)
  then show ?thesis by (auto simp: scanned_def)
qed

lemma disp_scan_ok:
  "chain (links st) v bs \<Longrightarrow> scanned st as pp n \<Longrightarrow> \<exists>pp' n'. disp_scan st v (before as) pp n = Some (pp', n') \<and> scanned st (as @ bs) pp' n'"
proof (induction bs arbitrary: v as pp n)
  case Nil
  then show ?case by (subst disp_scan.simps) simp
next
  case (Cons b bs)
  have b: "v = Some b" "chain (links st) (p_link (procs st b)) bs" using Cons.prems(1) by simp_all
  have nb: "before (as @ [b]) = Some b" by (simp add: before_def)
  show ?case
  proof (cases "p_pri (procs st b) > n \<or> \<not> p_load (procs st b) \<or> p_procio (procs st b)")
    case True
    have "disp_scan st v (before as) pp n = disp_scan st (p_link (procs st b)) (before (as @ [b])) pp n"
      using True unfolding b(1) nb by (subst disp_scan.simps) (simp add: Let_def)
    then show ?thesis using Cons.IH[OF b(2) scanned_snoc_skip[OF Cons.prems(2) True]] by simp
  next
    case False
    have "disp_scan st v (before as) pp n =
      disp_scan st (p_link (procs st b)) (before (as @ [b])) (Some (b, before as)) (p_pri (procs st b))"
      using False unfolding b(1) nb by (subst disp_scan.simps) (simp add: Let_def)
    moreover have "scanned st (as @ [b]) (Some (b, before as)) (p_pri (procs st b))"
      using scanned_snoc_take[OF Cons.prems(2)] False by simp
    ultimately show ?thesis using Cons.IH[OF b(2)] by fastforce
  qed
qed

lemma queues_take:
  assumes q: "queues st Q (us @ p # vs)"
    and l: "\<And>x. links st' x = (if us \<noteq> [] \<and> x = last us then links st p else links st x)" and h: "hsque st' = hsque st"
    and w: "\<And>x. wchan st' x = wchan st x" and r: "runq st' = (if us = [] then links st p else runq st)"
  shows "queues st' Q (us @ vs)"
proof -
  have lk: "links st' = (if us = [] then links st else (links st)(last us := links st p))" using l by (cases "us = []") auto
  have "chain (links st') (runq st') (us @ vs)"
  proof (cases "us = []")
    case True
    then show ?thesis using queuesD(2)[OF q] by (simp add: lk r)
  next
    case False
    then show ?thesis using chain_remove[OF queuesD(2)[OF q] False] by (simp add: lk r)
  qed
  moreover have "chain (links st') (hsque st' g) (Q g)" for g
  proof (cases "us = []")
    case True
    then show ?thesis using queuesD(1)[OF q, of g] by (simp add: lk h)
  next
    case False
    then have "last us \<in> set (us @ p # vs)" by simp
    then have "last us \<notin> set (Q g)" using queuesD(4)[OF q, of "last us"] queuesD(3)[OF q, of "last us" g] by blast
    then show ?thesis using queuesD(1)[OF q, of g] False by (simp add: lk h chain_simps)
  qed
  moreover have "\<forall>x \<in> set (us @ vs). wchan st' x = 0" unfolding w using queuesD(4)[OF q] by auto
  ultimately show ?thesis unfolding queues_def w using queuesD(3)[OF q] by blast
qed

lemma disp_ok:
  assumes q: "queues st Q R"
  shows "disp st = Some (None, st) \<and> (\<forall>x \<in> set R. \<not> ready st x) \<or>
    (\<exists>us p vs st'. R = us @ p # vs \<and> chosen st us p vs \<and> disp st = Some (Some p, st') \<and> queues st' Q (us @ vs) \<and>
      (\<forall>x. stat st' x = stat st x \<and> wchan st' x = wchan st x) \<and> curpri st' = p_pri (procs st p) \<and> curproc st' = p)"
proof -
  have "scanned st [] None 128" by (simp add: scanned_def)
  from disp_scan_ok[OF queuesD(2)[OF q] this] obtain pp n where
    D: "disp_scan st (runq st) None None 128 = Some (pp, n)" "scanned st R pp n" by (auto simp: before_def)
  show ?thesis
  proof (cases pp)
    case None
    then show ?thesis using D by (simp add: disp_def scanned_def)
  next
    case (Some a)
    obtain p qq where a: "a = (p, qq)" by fastforce
    obtain us vs where R: "R = us @ p # vs" "qq = before us" "n = p_pri (procs st p)" "chosen st us p vs"
      using D(2) Some a by (auto simp: scanned_def)
    define st' where "st' = (case qq of None \<Rightarrow> st\<lparr>runq := p_link (procs st p)\<rparr>
                    | Some q \<Rightarrow> upd_proc q (\<lambda>x. x\<lparr>p_link := p_link (procs st p)\<rparr>) st)\<lparr>curpri := n, curproc := p\<rparr>"
    have e: "disp st = Some (Some p, st')" unfolding disp_def D(1) Some a st'_def by (simp add: Let_def)
    have x: "links st' x = (if us \<noteq> [] \<and> x = last us then links st p else links st x)" "hsque st' = hsque st" "wchan st' x = wchan st x"
      "runq st' = (if us = [] then links st p else runq st)" "stat st' x = stat st x" for x
      unfolding st'_def R(2) before_def by simp_all
    have "queues st' Q (us @ vs)" by (rule queues_take[OF q[unfolded R(1)] x(1,2,3,4)])
    moreover have "curpri st' = p_pri (procs st p)" "curproc st' = p" unfolding st'_def R(3) by simp_all
    ultimately show ?thesis using e R x by blast
  qed
qed

lemma swtch_ok:
  assumes q: "queues st Q R" and s: "states None st R"
  shows "\<exists>st' R'. swtch st = Some st' \<and> queues st' Q R' \<and> states (cur st') st' R' \<and> (\<forall>x. stat st' x = stat st x \<and> wchan st' x = wchan st x) \<and>
    (case cur st' of None \<Rightarrow> \<forall>x \<in> set R. \<not> ready st x | Some p \<Rightarrow> \<exists>us vs. R = us @ p # vs \<and> R' = us @ vs \<and> chosen st us p vs)"
proof -
  let ?s = "st\<lparr>runrun := 0\<rparr>"
  have q0: "queues ?s Q R" using q by (subst queues_cong[of _ st]) simp_all
  from disp_ok[OF q0] show ?thesis
  proof (elim disjE conjE exE)
    assume "disp ?s = Some (None, ?s)" "\<forall>x \<in> set R. \<not> ready ?s x"
    then have "swtch st = Some (?s\<lparr>curpri := PIDLE, curproc := 0, cur := None\<rparr>)" (is "_ = Some ?t") by (simp add: swtch_def)
    moreover have "queues ?t Q R" using q by (subst queues_cong[of _ st]) simp_all
    moreover have "states None ?t R" using s by (subst states_cong[of _ st]) simp_all
    ultimately show ?thesis using \<open>\<forall>x \<in> set R. \<not> ready ?s x\<close> by (intro exI[of _ ?t] exI[of _ R]) simp
  next
    fix us p vs st'
    assume A: "R = us @ p # vs" "chosen ?s us p vs" "disp ?s = Some (Some p, st')" "queues st' Q (us @ vs)"
      "\<forall>x. stat st' x = stat ?s x \<and> wchan st' x = wchan ?s x"
    let ?t = "st'\<lparr>cur := Some p\<rparr>"
    have x: "stat ?t x = stat st x" "wchan ?t x = wchan st x" for x using A(5) by simp_all
    have "swtch st = Some ?t" using A(3) by (simp add: swtch_def)
    moreover have "queues ?t Q (us @ vs)" using A(4) by (subst queues_cong[of _ st']) simp_all
    moreover have "states (Some p) ?t (us @ vs)"
    proof -
      have "distinct R" using queues_distinct[OF q] by blast
      then have "x \<in> set (us @ vs) \<longleftrightarrow> x \<in> set R \<and> x \<noteq> p" for x unfolding A(1) by auto
      moreover have "stat st p = SRUN" using statesD(1)[OF s, of p] A(1) by simp
      ultimately show ?thesis unfolding states_def x using statesD[OF s] by auto
    qed
    moreover have "chosen st us p vs" using A(2) by (simp add: chosen_def)
    ultimately show ?thesis using A(1) x by (intro exI[of _ ?t] exI[of _ "us @ vs"]) auto
  qed
qed

lemma qswtch_ok:
  assumes q: "queues st Q R" and s: "states (Some p) st R"
  shows "queues (setrq p st) Q (p # R)" "states None (setrq p st) (p # R)"
proof -
  have p: "stat st p = SRUN" "p \<notin> set R" using statesD(1,4)[OF s, of p] by auto
  then have w: "wchan st p = 0" using statesD(2)[OF s, of p] by auto
  show "queues (setrq p st) Q (p # R)" by (rule queues_setrq[OF q w p(2)])
  show "states None (setrq p st) (p # R)" unfolding states_def setrq_simps using statesD[OF s] p by auto
qed

section \<open>Steps of the kernel\<close>

text \<open>What happens between two moments at which interrupts are let through: the operations, forks, exits, and whatever the rest of
  the kernel does to the fields that the queues do not use.\<close>

inductive slp_step :: "kern \<Rightarrow> kern \<Rightarrow> bool" where
  step_sleep: "cur st = Some p \<Longrightarrow> chan \<noteq> 0 \<Longrightarrow> sleep h p chan pri st = Some (True, st1) \<Longrightarrow> swtch st1 = Some st' \<Longrightarrow> slp_step st st'"
| step_caught: "cur st = Some p \<Longrightarrow> chan \<noteq> 0 \<Longrightarrow> sleep h p chan pri st = Some (False, st') \<Longrightarrow> slp_step st st'"
| step_woken: "cur st = Some p \<Longrightarrow> sleep_woken h p pri st = Some (r, st') \<Longrightarrow> slp_step st st'"
| step_wakeup: "chan \<noteq> 0 \<Longrightarrow> wakeup chan st = Some st' \<Longrightarrow> slp_step st st'"
| step_signal: "psignal p sig st = Some st' \<Longrightarrow> slp_step st st'"
| step_stop: "cur st = Some p \<Longrightarrow> pp \<noteq> 0 \<Longrightarrow> stop p pp tr st = Some st1 \<Longrightarrow> swtch st1 = Some st' \<Longrightarrow> slp_step st st'"
| step_cont: "stat st p = SSTOP \<Longrightarrow> setrun p st = Some st' \<Longrightarrow> slp_step st st'"
| step_preempt: "cur st = Some p \<Longrightarrow> qswtch p st = Some st' \<Longrightarrow> slp_step st st'"
| step_idle: "cur st = None \<Longrightarrow> swtch st = Some st' \<Longrightarrow> slp_step st st'"
| step_fork: "stat st p = SNONE \<Longrightarrow> slp_step st (setrq p (upd_proc p (\<lambda>x. x\<lparr>p_stat := SRUN\<rparr>) st))"
| step_exit: "cur st = Some p \<Longrightarrow> p \<noteq> 0 \<Longrightarrow> swtch (upd_proc p (\<lambda>x. x\<lparr>p_stat := SZOMB\<rparr>) st) = Some st' \<Longrightarrow> slp_step st st'"
| step_reap: "stat st p = SZOMB \<Longrightarrow> slp_step st (upd_proc p (\<lambda>x. x\<lparr>p_stat := SNONE, p_wchan := 0\<rparr>) st)"
| step_other: "(\<And>x. links st' x = links st x) \<Longrightarrow> (\<And>x. stat st' x = stat st x) \<Longrightarrow> (\<And>x. wchan st' x = wchan st x) \<Longrightarrow>
    hsque st' = hsque st \<Longrightarrow> runq st' = runq st \<Longrightarrow> cur st' = cur st \<Longrightarrow> slp_step st st'"

definition slp_init :: "kern \<Rightarrow> bool" where
  "slp_init st \<longleftrightarrow> (\<forall>h. hsque st h = None) \<and> runq st = None \<and> cur st = Some 0 \<and> stat st 0 = SRUN \<and>
     (\<forall>x. wchan st x = 0) \<and> (\<forall>x. x \<noteq> 0 \<longrightarrow> stat st x = SNONE)"

inductive slp_reach :: "kern \<Rightarrow> bool" where
  reach_init: "slp_init st \<Longrightarrow> slp_reach st"
| reach_step: "slp_reach st \<Longrightarrow> slp_step st st' \<Longrightarrow> slp_reach st'"

definition slp_inv :: "kern \<Rightarrow> bool" where
  "slp_inv st \<longleftrightarrow> (\<exists>Q R. queues st Q R \<and> states (cur st) st R)"

lemma slp_invI: "queues st Q R \<Longrightarrow> states (cur st) st R \<Longrightarrow> slp_inv st"
  unfolding slp_inv_def by blast

lemma init_inv: "slp_init st \<Longrightarrow> slp_inv st"
proof -
  assume i: "slp_init st"
  then have t: "stat st x = (if x = 0 then SRUN else SNONE)" "wchan st x = 0" for x by (auto simp: slp_init_def)
  show ?thesis by (rule slp_invI[of _ "\<lambda>_. []" "[]"]; unfold queues_def states_def t) (use i in \<open>auto simp: slp_init_def\<close>)
qed

lemma swtch_inv: "queues st Q R \<Longrightarrow> states None st R \<Longrightarrow> swtch st = Some st' \<Longrightarrow> slp_inv st'"
  using swtch_ok[of st Q R] slp_invI by fastforce

lemma inv_step:
  assumes "slp_step st st'" "slp_inv st"
  shows "slp_inv st'"
proof -
  obtain Q R where q: "queues st Q R" and s: "states (cur st) st R" using assms(2) unfolding slp_inv_def by blast
  have i: "slp_inv st'" if "queues st' Q' R'" "states (cur st) st' R'" "cur st' = cur st" for Q' R'
    using slp_invI[OF that(1)] that(2,3) by simp
  show ?thesis using assms(1)
  proof cases
    case (step_sleep p chan h pri st1)
    then obtain Q' where "queues st1 Q' R" "states None st1 R" using sleep_ok[OF q, of p chan h pri] s by fastforce
    then show ?thesis using swtch_inv step_sleep(4) by blast
  next
    case (step_caught p chan h pri)
    then obtain Q' where "queues st' Q' R" "states (Some p) st' R" "cur st' = cur st" using sleep_ok[OF q, of p chan h pri] s by fastforce
    then show ?thesis using i step_caught(1) by metis
  next
    case (step_woken p h pri r)
    obtain b sg where d: "disturbed h p st = Some (b, upd_proc p (\<lambda>x. x\<lparr>p_sig := sg\<rparr>) st)" using disturbed_ok by blast
    have "st' = upd_proc p (\<lambda>x. x\<lparr>p_sig := sg\<rparr>) st \<or> st' = upd_proc p (\<lambda>x. x\<lparr>p_nwake := False\<rparr>) st"
      using step_woken(2) unfolding sleep_woken_def d by (auto split: if_splits bool.splits)
    then have x: "links st' x = links st x" "stat st' x = stat st x" "wchan st' x = wchan st x" "hsque st' = hsque st" "runq st' = runq st"
      "cur st' = cur st" for x by auto
    show ?thesis using i[of Q R] q s queues_cong[OF x(1,3,4,5)] states_cong[OF x(2,3)] x(6) by blast
  next
    case (step_wakeup chan)
    show ?thesis by (rule wakeup_ok[OF q s step_wakeup(1)]) (use step_wakeup(2) i in simp)
  next
    case (step_signal p sig)
    then show ?thesis using psignal_ok[OF q s, of p sig] i by fastforce
  next
    case (step_stop p pp tr st1)
    then obtain Q' R' where "queues st1 Q' R'" "states None st1 R'" using stop_ok[OF q, of p pp tr] s by fastforce
    then show ?thesis using swtch_inv step_stop(4) by blast
  next
    case (step_cont p)
    have "stat st p \<in> {SSLEEP, SSTOP, SRUN}" using step_cont(1) by simp
    then show ?thesis by (rule setrun_ok[OF q s]) (use step_cont(2) i in simp)
  next
    case (step_preempt p)
    then show ?thesis using qswtch_ok[OF q, of p] s swtch_inv by (simp add: qswtch_def)
  next
    case step_idle
    then show ?thesis using swtch_inv[OF q] s by simp
  next
    case (step_fork p)
    have w: "wchan st p = 0" using statesD(2)[OF s, of p] step_fork(2) by auto
    have c: "cur st \<noteq> Some p" "p \<notin> set R" using statesD(1,4)[OF s, of p] step_fork(2) by auto
    have "\<forall>x. x \<noteq> p \<longrightarrow> (x \<in> set R \<longleftrightarrow> stat st x = SRUN \<and> cur st \<noteq> Some x)" 
      "\<forall>x. x \<noteq> p \<longrightarrow> (wchan st x \<noteq> 0 \<longrightarrow> stat st x \<in> {SSLEEP, SSTOP}) \<and> (stat st x = SSLEEP \<longrightarrow> wchan st x \<noteq> 0)"
      "\<forall>x. cur st = Some x \<longrightarrow> stat st x = SRUN" "p = 0 \<or> stat st 0 \<in> {SSLEEP, SRUN, SSTOP}"
      using statesD[OF s] by blast+
    from made_running(1,2)[OF q this(1) c(2,1) w this(2-4)] show ?thesis unfolding step_fork(1) using slp_invI by simp
  next
    case (step_exit p)
    let ?s = "upd_proc p (\<lambda>x. x\<lparr>p_stat := SZOMB\<rparr>) st"
    have q1: "queues ?s Q R" using q by (subst queues_cong[of _ st]) simp_all
    have pR: "p \<notin> set R" "stat st p = SRUN" using statesD(1,4)[OF s, of p] step_exit(1) by auto
    have w0: "wchan st p = 0" using statesD(2)[OF s, of p] pR(2) by auto
    have w: "wchan ?s x = wchan st x" and t: "stat ?s x = (if x = p then SZOMB else stat st x)" for x by simp_all
    have "states None ?s R" unfolding states_def w t using statesD[OF s] pR w0 step_exit(1,2) by auto
    then show ?thesis using swtch_inv[OF q1] step_exit(3) by blast
  next
    case (step_reap p)
    have w0: "wchan st p = 0" using statesD(2)[OF s, of p] step_reap(2) by auto
    have p0: "p \<noteq> 0" using statesD(5)[OF s] step_reap(2) by (cases "p = 0") auto
    have x: "links st' x = links st x" "wchan st' x = wchan st x" "hsque st' = hsque st" "runq st' = runq st" "cur st' = cur st"
      "stat st' x = (if x = p then SNONE else stat st x)" for x using w0 by (simp_all add: step_reap(1))
    have "states (cur st) st' R" unfolding states_def x using statesD[OF s] step_reap(2) w0 p0 by auto
    then show ?thesis using i[of Q R] q queues_cong[OF x(1-4)] x(5) by blast
  next
    case step_other
    then show ?thesis using i[of Q R] q s queues_cong[of st' st Q R] states_cong[of st' st "cur st" R] by simp
  qed
qed

lemma reach_inv: "slp_reach st \<Longrightarrow> slp_inv st"
  by (induction rule: slp_reach.induct) (auto intro: init_inv inv_step)

section \<open>What the scheduler guarantees\<close>

text \<open>C10: in every state the kernel can reach, the run queue is a finite chain of exactly the runnable processes other than the one that runs,
  each sleep queue is a finite chain of exactly the processes that wait on a channel of its hash class, and every sleeping process
  waits on a channel: no process is lost, whatever the order of sleeps, wakeups, signals, stops, forks, exits and switches.\<close>

theorem no_process_lost:
  "slp_reach st \<Longrightarrow>
    (\<exists>R. chain (links st) (runq st) R \<and> distinct R \<and> set R = {x. stat st x = SRUN \<and> cur st \<noteq> Some x}) \<and>
    (\<forall>h. \<exists>L. chain (links st) (hsque st h) L \<and> distinct L \<and> set L = {x. wchan st x \<noteq> 0 \<and> sqhash (wchan st x) = h}) \<and>
    (\<forall>x. stat st x = SSLEEP \<longrightarrow> wchan st x \<noteq> 0) \<and> (\<forall>x. wchan st x \<noteq> 0 \<longrightarrow> stat st x \<in> {SSLEEP, SSTOP})"
proof -
  assume "slp_reach st"
  then obtain Q R where q: "queues st Q R" and s: "states (cur st) st R" using reach_inv unfolding slp_inv_def by blast
  have "\<exists>R. chain (links st) (runq st) R \<and> distinct R \<and> set R = {x. stat st x = SRUN \<and> cur st \<noteq> Some x}"
    using queuesD(2)[OF q] queues_distinct[OF q] statesD(1)[OF s] by (intro exI[of _ R]) auto
  moreover have "\<exists>L. chain (links st) (hsque st h) L \<and> distinct L \<and> set L = {x. wchan st x \<noteq> 0 \<and> sqhash (wchan st x) = h}" for h
    using queuesD(1,3)[OF q, where h = h] queues_distinct[OF q] by (intro exI[of _ "Q h"]) auto
  ultimately show ?thesis using statesD(2,3)[OF s] by blast
qed

text \<open>The states of the witnesses: process 0 runs, processes 1 to 3 wait to run.\<close>

definition proc_w :: "pstat \<Rightarrow> int \<Rightarrow> ptr \<Rightarrow> proc" where
  "proc_w s pri l = \<lparr>p_stat = s, p_pri = pri, p_wchan = 0, p_link = l, p_load = True, p_procio = False, p_nwake = False, p_prstop = False,
     p_strc = False, p_wted = False, p_time = 0, p_pgrp = 0, p_sig = 0, p_hold = 0\<rparr>"

definition boot_w :: kern where
  "boot_w = \<lparr>procs = (\<lambda>_. proc_w SNONE 60 None)(0 := proc_w SRUN 60 None), hsque = (\<lambda>_. None), runq = None, runout = 0, runrun = 0,
     curpri = 60, curproc = 0, cur = Some 0\<rparr>"

definition fork_w :: "nat \<Rightarrow> kern \<Rightarrow> kern" where
  "fork_w p st = setrq p (upd_proc p (\<lambda>x. x\<lparr>p_stat := SRUN\<rparr>) st)"

lemma reach_boot: "slp_reach boot_w"
  by (rule reach_init) (simp add: slp_init_def boot_w_def proc_w_def)

lemma reach_fork: "slp_reach (fork_w 2 (fork_w 1 boot_w))"
  unfolding fork_w_def
  by (rule reach_step[OF reach_step[OF reach_boot step_fork] step_fork]) (simp_all add: boot_w_def proc_w_def)

theorem no_process_lost_witness: "\<exists>R. chain (links (fork_w 2 (fork_w 1 boot_w))) (runq (fork_w 2 (fork_w 1 boot_w))) R \<and> set R = {1, 2}"
proof -
  have "\<exists>R. chain (links (fork_w 2 (fork_w 1 boot_w))) (runq (fork_w 2 (fork_w 1 boot_w))) R \<and>
      set R = {x. stat (fork_w 2 (fork_w 1 boot_w)) x = SRUN \<and> cur (fork_w 2 (fork_w 1 boot_w)) \<noteq> Some x}"
    using no_process_lost[OF reach_fork] by blast
  moreover have "{x. stat (fork_w 2 (fork_w 1 boot_w)) x = SRUN \<and> cur (fork_w 2 (fork_w 1 boot_w)) \<noteq> Some x} = {1, 2}"
    by (auto simp: fork_w_def boot_w_def proc_w_def setrq_def)
  ultimately show ?thesis by simp
qed

text \<open>C11: \<^verbatim>\<open>wakeup\<close> returns in every reachable state and sets running exactly the processes that sleep on the channel; a process that is
  stopped while it waits there only leaves the queue, every other one is left as it was, but for process 0, the swapper, which may be set running too.\<close>

theorem wakeup_exact:
  "slp_reach st \<Longrightarrow> chan \<noteq> 0 \<Longrightarrow> \<exists>st'. wakeup chan st = Some st' \<and> cur st' = cur st \<and>
    (\<forall>x. x \<noteq> 0 \<longrightarrow> (if wchan st x = chan then wchan st' x = 0 \<and> stat st' x = (if stat st x = SSLEEP then SRUN else SSTOP)
       else wchan st' x = wchan st x \<and> stat st' x = stat st x)) \<and>
    (stat st 0 = SSLEEP \<and> wchan st 0 = chan \<longrightarrow> stat st' 0 = SRUN) \<and> stat st' 0 \<in> {stat st 0, SRUN}"
proof -
  assume "slp_reach st" and c: "chan \<noteq> 0"
  then obtain Q R where q: "queues st Q R" and s: "states (cur st) st R" using reach_inv unfolding slp_inv_def by blast
  obtain st' Q' R' where W: "wakeup chan st = Some st'" "queues st' Q' R'" "states (cur st) st' R'" "woken_all chan st st'" "cur st' = cur st"
    by (rule wakeup_ok[OF q s c])
  have x: "woken chan st st' x \<or> x = 0 \<and> stat st' 0 = SRUN" for x using W(4) unfolding woken_all_def by blast
  have w: "stat st x = SSTOP" if "wchan st x = chan" "stat st x \<noteq> SSLEEP" for x using statesD(2)[OF s, of x] that c by simp
  have "\<forall>x. x \<noteq> 0 \<longrightarrow> (if wchan st x = chan then wchan st' x = 0 \<and> stat st' x = (if stat st x = SSLEEP then SRUN else SSTOP)
       else wchan st' x = wchan st x \<and> stat st' x = stat st x)" (is "\<forall>x. _ \<longrightarrow> ?W x")
  proof (intro allI impI)
    fix x :: nat
    assume "x \<noteq> 0"
    then have "woken chan st st' x" using x by blast
    then show "?W x" using w[of x] unfolding woken_def by (cases "wchan st x = chan"; cases "stat st x = SSLEEP") simp_all
  qed
  moreover have "stat st 0 = SSLEEP \<and> wchan st 0 = chan \<longrightarrow> stat st' 0 = SRUN" using x[of 0] by (auto simp: woken_def)
  moreover have "stat st' 0 \<in> {stat st 0, SRUN}" using x[of 0] by (auto simp: woken_def split: if_splits)
  ultimately show ?thesis using W(1,5) by blast
qed

text \<open>Process 1 sleeps on channel 8 and process 2 on 520, which has the same hash.\<close>

definition sleep_w :: "nat \<Rightarrow> nat \<Rightarrow> kern \<Rightarrow> kern option" where
  "sleep_w p chan st =
     (if cur st = Some p \<and> chan \<noteq> 0
      then (case sleep (\<lambda>_. 0) p chan 30 st of Some (True, st) \<Rightarrow> swtch st | _ \<Rightarrow> None) else None)"

definition sleepers_w :: "kern option" where
  "sleepers_w = Option.bind (Option.bind (qswtch 0 (fork_w 2 (fork_w 1 boot_w))) (sleep_w 1 8)) (sleep_w 2 520)"

lemma reach_sleep_w: "slp_reach st \<Longrightarrow> sleep_w p chan st = Some st' \<Longrightarrow> slp_reach st'"
proof -
  assume r: "slp_reach st" and w: "sleep_w p chan st = Some st'"
  then obtain st1 where "cur st = Some p" "chan \<noteq> 0" "sleep (\<lambda>_. 0) p chan 30 st = Some (True, st1)" "swtch st1 = Some st'"
    unfolding sleep_w_def by (auto split: if_splits option.splits prod.splits bool.splits)
  from reach_step[OF r step_sleep[OF this]] show ?thesis .
qed

lemma reach_sleepers: "sleepers_w = Some st \<Longrightarrow> slp_reach st"
proof -
  assume "sleepers_w = Some st"
  then obtain st1 st2 where w: "qswtch 0 (fork_w 2 (fork_w 1 boot_w)) = Some st1" "sleep_w 1 8 st1 = Some st2" "sleep_w 2 520 st2 = Some st"
    unfolding sleepers_w_def by (auto simp: bind_eq_Some_conv)
  have "cur (fork_w 2 (fork_w 1 boot_w)) = Some 0" by (simp add: fork_w_def boot_w_def)
  from reach_step[OF reach_fork step_preempt[OF this w(1)]] show ?thesis using reach_sleep_w w(2,3) by blast
qed

lemma sleepers_value: "map_option (\<lambda>st. (stat st 1, wchan st 1, stat st 2, wchan st 2)) sleepers_w = Some (SSLEEP, 8, SSLEEP, 520)"
  by code_simp

theorem wakeup_exact_witness:
  "\<exists>st st'. sleepers_w = Some st \<and> stat st 1 = SSLEEP \<and> wakeup 8 st = Some st' \<and> stat st' 1 = SRUN \<and> stat st' 2 = SSLEEP"
proof -
  obtain st where st: "sleepers_w = Some st" "stat st 1 = SSLEEP" "wchan st 1 = 8" "stat st 2 = SSLEEP" "wchan st 2 = 520"
    using sleepers_value by auto
  have c: "(8::nat) \<noteq> 0" by simp
  obtain st' where w: "wakeup 8 st = Some st'" and x: "\<forall>x. x \<noteq> 0 \<longrightarrow> (if wchan st x = 8 then wchan st' x = 0 \<and> stat st' x = (if stat st x = SSLEEP then SRUN else SSTOP)
       else wchan st' x = wchan st x \<and> stat st' x = stat st x)"
    using wakeup_exact[OF reach_sleepers[OF st(1)] c] by blast
  have "stat st' 1 = SRUN" "stat st' 2 = SSLEEP" using x[rule_format, of 1] x[rule_format, of 2] st(2-5) by simp_all
  then show ?thesis using st(1,2) w by blast
qed

text \<open>C12: a process that gives up the processor goes to the front of the run queue, and \<^verbatim>\<open>swtch\<close> then takes, among the processes that are
  in core and not held by I/O through \<^verbatim>\<open>/proc\<close>, one of the best priority, and among those the one at the end of the queue, which has
  waited longest; the others keep their order. It finds none only when there is none.\<close>

theorem switch_picks_best:
  "slp_reach st \<Longrightarrow> cur st = Some p \<Longrightarrow> chain (links st) (runq st) R \<Longrightarrow> \<exists>st'. qswtch p st = Some st' \<and>
    (case cur st' of
       None \<Rightarrow> \<forall>x \<in> set (p # R). \<not> ready st x
     | Some n \<Rightarrow> \<exists>us vs. p # R = us @ n # vs \<and> ready st n \<and> (\<forall>x \<in> set us. ready st x \<longrightarrow> p_pri (procs st n) \<le> p_pri (procs st x)) \<and>
         (\<forall>x \<in> set vs. ready st x \<longrightarrow> p_pri (procs st n) < p_pri (procs st x)) \<and> chain (links st') (runq st') (us @ vs))"
proof -
  assume "slp_reach st" and c: "cur st = Some p" and R: "chain (links st) (runq st) R"
  then obtain Q R' where q: "queues st Q R'" and s: "states (Some p) st R'" using reach_inv unfolding slp_inv_def by metis
  have [simp]: "R' = R" using chain_unique[OF queuesD(2)[OF q] R] .
  let ?s = "setrq p st"
  note s1 = qswtch_ok[OF q s]
  obtain st' R1 where W: "swtch ?s = Some st'" "queues st' Q R1" "case cur st' of None \<Rightarrow> \<forall>x \<in> set (p # R'). \<not> ready ?s x
      | Some n \<Rightarrow> \<exists>us vs. p # R' = us @ n # vs \<and> R1 = us @ vs \<and> chosen ?s us n vs"
    using swtch_ok[OF s1] by blast
  have x: "p_pri (procs ?s x) = p_pri (procs st x)" "p_load (procs ?s x) = p_load (procs st x)" "p_procio (procs ?s x) = p_procio (procs st x)" for x
    by (simp_all add: setrq_def)
  have "qswtch p st = Some st'" using W(1) by (simp add: qswtch_def)
  then show ?thesis using W(3) queuesD(2)[OF W(2)] unfolding chosen_def x by (intro exI[of _ st'] conjI) (auto split: option.splits)
qed

theorem switch_picks_best_witness:
  "\<exists>st'. qswtch 0 (fork_w 2 (fork_w 1 boot_w)) = Some st' \<and> cur st' = Some 1"
proof -
  let ?s = "fork_w 2 (fork_w 1 boot_w)"
  have c: "cur ?s = Some 0" "chain (links ?s) (runq ?s) [2, 1]" by (simp_all add: fork_w_def boot_w_def setrq_def proc_w_def)
  have r: "ready ?s x" "p_pri (procs ?s x) = 60" for x by (simp_all add: fork_w_def boot_w_def setrq_def proc_w_def)
  obtain st' where st': "qswtch 0 ?s = Some st'" "case cur st' of None \<Rightarrow> \<forall>x \<in> set [0, 2, 1]. \<not> ready ?s x
     | Some n \<Rightarrow> \<exists>us vs. [0, 2, 1] = us @ n # vs \<and> ready ?s n \<and> (\<forall>x \<in> set us. ready ?s x \<longrightarrow> p_pri (procs ?s n) \<le> p_pri (procs ?s x)) \<and>
         (\<forall>x \<in> set vs. ready ?s x \<longrightarrow> p_pri (procs ?s n) < p_pri (procs ?s x)) \<and> chain (links st') (runq st') (us @ vs)"
    using switch_picks_best[OF reach_fork c] by blast
  then obtain n us vs where n: "cur st' = Some n" "[0, 2, 1] = us @ n # vs" "\<forall>x \<in> set vs. False"
    using r by (auto split: option.splits)
  then have "n = 1" by (cases vs) (auto simp: Cons_eq_append_conv)
  then show ?thesis using st'(1) n(1) by blast
qed

text \<open>\<^verbatim>\<open>issig\<close> returns, whatever the signals, held signals and dispositions are; it answers the first pending signal that is neither
  held nor ignored, or 0 when there is none, and changes nothing of the process but the pending signals.\<close>

theorem issig_answers_first:
  "\<exists>n s. issig h x = Some (n, x\<lparr>p_sig := s\<rparr>) \<and>
    (if \<exists>i \<in> {1..22}. bit (p_sig x AND NOT (p_hold x)) (i - 1) \<and> taken h i (p_strc x)
     then n \<in> {1..22} \<and> bit (p_sig x AND NOT (p_hold x)) (n - 1) \<and> taken h n (p_strc x) \<and>
       (\<forall>i. 1 \<le> i \<and> i < n \<longrightarrow> \<not> (bit (p_sig x AND NOT (p_hold x)) (i - 1) \<and> taken h i (p_strc x)))
     else n = 0)"
  using issig_ok[of h x] unfolding issig_answer_def .

theorem issig_answers_first_witness:
  "\<exists>n s. issig (\<lambda>_. 0) ((proc_w SRUN 60 None)\<lparr>p_sig := 4\<rparr>) = Some (n, (proc_w SRUN 60 None)\<lparr>p_sig := s\<rparr>) \<and> n = 3"
proof -
  have e: "(proc_w SRUN 60 None)\<lparr>p_sig := 4, p_sig := s\<rparr> = (proc_w SRUN 60 None)\<lparr>p_sig := s\<rparr>" for s by simp
  have "issig (\<lambda>_. 0) ((proc_w SRUN 60 None)\<lparr>p_sig := 4\<rparr>) \<noteq> None \<and> map_option fst (issig (\<lambda>_. 0) ((proc_w SRUN 60 None)\<lparr>p_sig := 4\<rparr>)) = Some 3"
    by code_simp
  then show ?thesis using issig_answers_first[of "\<lambda>_. 0" "(proc_w SRUN 60 None)\<lparr>p_sig := 4\<rparr>"] unfolding e by auto
qed

end
