(* ===== verification/Bio.thy ===== *)
theory Bio
  imports Prelude
begin

text \<open>
  The buffer cache, \<^verbatim>\<open>os/bio.c\<close> and \<^verbatim>\<open>sys/buf.h\<close>. A pointer to a \<^verbatim>\<open>struct buf\<close> is the list header \<^verbatim>\<open>bfreelist\<close>, a hash header or
  a buffer of the pool; one map holds them all. A driver is the list of the buffers handed to it, \<open>iq\<close>, which it
  completes in any order. A routine that sleeps is cut there: it says on which channel it sleeps, and is called again when it is
  woken, since all sleeps are in loops. Interrupts come between these pieces. \<^verbatim>\<open>wakeup\<close> calls are logged in \<open>wakes\<close>.
\<close>

section \<open>State\<close>

datatype bptr = Free | Hbuf nat | Buf nat

datatype bflag = B_READ | B_DONE | B_ERROR | B_BUSY | B_WANTED | B_AGE | B_ASYNC | B_DELWRI | B_STALE

record 'd buf =
  b_flags :: "bflag set"
  b_forw :: bptr
  b_back :: bptr
  av_forw :: bptr
  av_back :: bptr
  b_dev :: int
  b_bcount :: int
  b_data :: 'd
  b_blkno :: int
  b_error :: nat
  b_resid :: int
  b_start :: int

datatype wchan = OnBuf bptr | OnAsync

record 'd bio =
  bufs :: "bptr \<Rightarrow> 'd buf"
  basyncnt :: int
  basynwait :: bool
  lbolt :: int
  wakes :: "wchan list"
  iq :: "nat list"
  disk :: "int \<times> int \<Rightarrow> 'd"

record conf =
  v_buf :: nat
  v_hmask :: nat
  bdevcnt :: nat
  bmajor :: "int \<Rightarrow> nat"

abbreviation NODEV :: int where "NODEV \<equiv> - 1"
abbreviation SBUFSIZE :: int where "SBUFSIZE \<equiv> 1024"

abbreviation flags :: "'d bio \<Rightarrow> bptr \<Rightarrow> bflag set" where
  "flags st p \<equiv> b_flags (bufs st p)"

definition upd_buf :: "bptr \<Rightarrow> ('d buf \<Rightarrow> 'd buf) \<Rightarrow> 'd bio \<Rightarrow> 'd bio" where
  "upd_buf p f st = st\<lparr>bufs := (bufs st)(p := f (bufs st p))\<rparr>"

definition set_flags :: "bptr \<Rightarrow> bflag set \<Rightarrow> 'd bio \<Rightarrow> 'd bio" where
  "set_flags p F st = upd_buf p (\<lambda>b. b\<lparr>b_flags := F\<rparr>) st"

definition wake :: "wchan \<Rightarrow> 'd bio \<Rightarrow> 'd bio" where
  "wake w st = st\<lparr>wakes := w # wakes st\<rparr>"

definition LTOPBLK :: "int \<Rightarrow> int \<Rightarrow> int" where
  "LTOPBLK blkno bsize = s32 (blkno * (bsize div 512))"

definition bhash :: "conf \<Rightarrow> int \<Rightarrow> int \<Rightarrow> nat" where
  "bhash c d b = nat ((d + b) AND int (v_hmask c))"

section \<open>Lists\<close>

definition notavail :: "bptr \<Rightarrow> 'd bio \<Rightarrow> 'd bio" where
  "notavail bp st =
     (let st = upd_buf (av_back (bufs st bp)) (\<lambda>b. b\<lparr>av_forw := av_forw (bufs st bp)\<rparr>) st;
          st = upd_buf (av_forw (bufs st bp)) (\<lambda>b. b\<lparr>av_back := av_back (bufs st bp)\<rparr>) st;
          st = set_flags bp (flags st bp \<union> {B_BUSY}) st
      in upd_buf Free (\<lambda>b. b\<lparr>b_bcount := b_bcount b - 1\<rparr>) st)"

definition put_front :: "bptr \<Rightarrow> 'd bio \<Rightarrow> 'd bio" where
  "put_front bp st =
     (let st = upd_buf (av_forw (bufs st Free)) (\<lambda>b. b\<lparr>av_back := bp\<rparr>) st;
          st = upd_buf bp (\<lambda>b. b\<lparr>av_forw := av_forw (bufs st Free)\<rparr>) st;
          st = upd_buf Free (\<lambda>b. b\<lparr>av_forw := bp\<rparr>) st
      in upd_buf bp (\<lambda>b. b\<lparr>av_back := Free\<rparr>) st)"

definition put_back :: "bptr \<Rightarrow> 'd bio \<Rightarrow> 'd bio" where
  "put_back bp st =
     (let st = upd_buf (av_back (bufs st Free)) (\<lambda>b. b\<lparr>av_forw := bp\<rparr>) st;
          st = upd_buf bp (\<lambda>b. b\<lparr>av_back := av_back (bufs st Free)\<rparr>) st;
          st = upd_buf Free (\<lambda>b. b\<lparr>av_back := bp\<rparr>) st
      in upd_buf bp (\<lambda>b. b\<lparr>av_forw := Free\<rparr>) st)"

definition brelse :: "bptr \<Rightarrow> 'd bio \<Rightarrow> 'd bio" where
  "brelse bp st =
     (let st = (if B_WANTED \<in> flags st bp then wake (OnBuf bp) st
                else if B_WANTED \<in> flags st Free then wake (OnBuf Free) (set_flags Free (flags st Free - {B_WANTED}) st)
                else st);
          st = (if B_ERROR \<in> flags st bp
                then upd_buf bp (\<lambda>b. b\<lparr>b_flags := b_flags b \<union> {B_STALE, B_AGE} - {B_ERROR, B_DELWRI}, b_error := 0\<rparr>) st
                else st);
          st = (if B_AGE \<in> flags st bp then put_front bp st else put_back bp st);
          st = set_flags bp (flags st bp - {B_WANTED, B_BUSY, B_ASYNC, B_AGE}) st
      in upd_buf Free (\<lambda>b. b\<lparr>b_bcount := b_bcount b + 1\<rparr>) st)"

text \<open>The move of a buffer from its device list to the front of the list of \<open>dp\<close>.\<close>

definition rehash :: "bptr \<Rightarrow> bptr \<Rightarrow> 'd bio \<Rightarrow> 'd bio" where
  "rehash bp dp st =
     (let st = upd_buf (b_back (bufs st bp)) (\<lambda>b. b\<lparr>b_forw := b_forw (bufs st bp)\<rparr>) st;
          st = upd_buf (b_forw (bufs st bp)) (\<lambda>b. b\<lparr>b_back := b_back (bufs st bp)\<rparr>) st;
          st = upd_buf bp (\<lambda>b. b\<lparr>b_forw := b_forw (bufs st dp)\<rparr>) st;
          st = upd_buf bp (\<lambda>b. b\<lparr>b_back := dp\<rparr>) st;
          st = upd_buf (b_forw (bufs st dp)) (\<lambda>b. b\<lparr>b_back := bp\<rparr>) st
      in upd_buf dp (\<lambda>b. b\<lparr>b_forw := bp\<rparr>) st)"

section \<open>Starting and ending transfers\<close>

text \<open>\<^verbatim>\<open>d_strategy\<close> of a driver.\<close>

definition strategy :: "bptr \<Rightarrow> 'd bio \<Rightarrow> 'd bio" where
  "strategy bp st = (case bp of Buf i \<Rightarrow> st\<lparr>iq := i # iq st\<rparr> | _ \<Rightarrow> st)"

text \<open>\<^verbatim>\<open>bwrite\<close> up to \<^verbatim>\<open>iowait\<close>; the flag tells whether the caller waits, and then releases the buffer.\<close>

definition bwrite :: "bptr \<Rightarrow> 'd bio \<Rightarrow> bool \<times> 'd bio" where
  "bwrite bp st =
     (let flag = flags st bp;
          st = strategy bp (set_flags bp (flag - {B_READ, B_DONE, B_ERROR, B_DELWRI}) st)
      in if B_ASYNC \<notin> flag then (True, st) else (False, st\<lparr>basyncnt := basyncnt st + 1\<rparr>))"

definition bdwrite :: "bptr \<Rightarrow> 'd bio \<Rightarrow> 'd bio" where
  "bdwrite bp st =
     (let st = (if B_DELWRI \<notin> flags st bp then upd_buf bp (\<lambda>b. b\<lparr>b_start := lbolt st\<rparr>) st else st);
          st = upd_buf bp (\<lambda>b. b\<lparr>b_flags := b_flags b \<union> {B_DELWRI, B_DONE}, b_resid := 0\<rparr>) st
      in brelse bp st)"

definition bawrite :: "bptr \<Rightarrow> 'd bio \<Rightarrow> bool \<times> 'd bio" where
  "bawrite bp st = bwrite bp (if b_bcount (bufs st Free) > 4 then set_flags bp (flags st bp \<union> {B_ASYNC}) st else st)"

definition iodone :: "bptr \<Rightarrow> 'd bio \<Rightarrow> 'd bio" where
  "iodone bp st =
     (let st = set_flags bp (flags st bp \<union> {B_DONE}) st
      in if B_ASYNC \<in> flags st bp then
           let st = (if B_READ \<notin> flags st bp then st\<lparr>basyncnt := basyncnt st - 1\<rparr> else st);
               st = (if basyncnt st = 0 \<and> basynwait st then wake OnAsync (st\<lparr>basynwait := False\<rparr>) else st)
           in brelse bp st
         else wake (OnBuf bp) (set_flags bp (flags st bp - {B_WANTED}) st))"

text \<open>\<^verbatim>\<open>iowait\<close> sleeps while this does not hold; then it hands the error to the user (5 is \<^verbatim>\<open>EIO\<close>).\<close>

definition io_over :: "bptr \<Rightarrow> 'd bio \<Rightarrow> bool" where
  "io_over bp st \<longleftrightarrow> B_DONE \<in> flags st bp"

definition geterror :: "bptr \<Rightarrow> 'd bio \<Rightarrow> nat option" where
  "geterror bp st =
     (if B_ERROR \<in> flags st bp then Some (if b_error (bufs st bp) = 0 then 5 else b_error (bufs st bp)) else None)"

text \<open>A driver ends a transfer with the error \<open>err\<close>, 0 if it went well.\<close>

definition complete :: "nat \<Rightarrow> nat \<Rightarrow> 'd bio \<Rightarrow> 'd bio" where
  "complete err i st =
     (let b = bufs st (Buf i);
          st = st\<lparr>iq := removeAll i (iq st)\<rparr>;
          st = (if err \<noteq> 0 then upd_buf (Buf i) (\<lambda>b. b\<lparr>b_flags := b_flags b \<union> {B_ERROR}, b_error := err\<rparr>) st
                else if B_READ \<in> b_flags b then upd_buf (Buf i) (\<lambda>x. x\<lparr>b_data := disk st (b_dev b, b_blkno b)\<rparr>) st
                else st\<lparr>disk := (disk st)((b_dev b, b_blkno b) := b_data b)\<rparr>)
      in iodone (Buf i) st)"

section \<open>Finding buffers\<close>

partial_function (option) hsearch :: "bptr \<Rightarrow> bptr \<Rightarrow> int \<Rightarrow> int \<Rightarrow> 'd bio \<Rightarrow> bptr option option" where
  "hsearch dp bp dev blkno st =
     (if bp = dp then Some None
      else if b_blkno (bufs st bp) = blkno \<and> b_dev (bufs st bp) = dev \<and> B_STALE \<notin> flags st bp then Some (Some bp)
      else hsearch dp (b_forw (bufs st bp)) dev blkno st)"

definition incore :: "conf \<Rightarrow> int \<Rightarrow> int \<Rightarrow> int \<Rightarrow> 'd bio \<Rightarrow> bptr option option" where
  "incore c dev blkno bsize st =
     (let blkno = LTOPBLK blkno bsize;
          dp = Hbuf (bhash c dev blkno)
      in hsearch dp (b_forw (bufs st dp)) dev blkno st)"

text \<open>One turn of the loop of \<^verbatim>\<open>getblk\<close>: it ends with a buffer, sleeps, or starts over after it wrote a delayed block.\<close>

datatype turn = Got bptr | Sleeps wchan | Again

definition getblk_turn :: "conf \<Rightarrow> int \<Rightarrow> int \<Rightarrow> int \<Rightarrow> 'd bio \<Rightarrow> (turn \<times> 'd bio) option" where
  "getblk_turn c dev blkno bsize st =
     (let dp = Hbuf (bhash c dev blkno)
      in case hsearch dp (b_forw (bufs st dp)) dev blkno st of
           None \<Rightarrow> None
         | Some (Some bp) \<Rightarrow>
             if B_BUSY \<in> flags st bp then Some (Sleeps (OnBuf bp), set_flags bp (flags st bp \<union> {B_WANTED}) st)
             else Some (Got bp, notavail bp st)
         | Some None \<Rightarrow>
             if av_forw (bufs st Free) = Free then Some (Sleeps (OnBuf Free), set_flags Free (flags st Free \<union> {B_WANTED}) st)
             else
               let bp = av_forw (bufs st Free);
                   st = notavail bp st
               in if B_DELWRI \<in> flags st bp then Some (Again, snd (bwrite bp (set_flags bp (flags st bp \<union> {B_ASYNC}) st)))
                  else
                    let st = rehash bp dp (set_flags bp {B_BUSY} st)
                    in Some (Got bp, upd_buf bp (\<lambda>b. b\<lparr>b_dev := dev, b_blkno := blkno, b_bcount := bsize, b_resid := 0\<rparr>) st))"

text \<open>The turns up to the next sleep.\<close>

partial_function (option) getblk_loop :: "conf \<Rightarrow> int \<Rightarrow> int \<Rightarrow> int \<Rightarrow> 'd bio \<Rightarrow> (turn \<times> 'd bio) option" where
  "getblk_loop c dev blkno bsize st =
     (case getblk_turn c dev blkno bsize st of
        None \<Rightarrow> None
      | Some (t, st) \<Rightarrow> if t = Again then getblk_loop c dev blkno bsize st else Some (t, st))"

definition getblk :: "conf \<Rightarrow> int \<Rightarrow> int \<Rightarrow> int \<Rightarrow> 'd bio \<Rightarrow> (turn \<times> 'd bio) option" where
  "getblk c dev blkno bsize st =
     (if bmajor c dev \<ge> bdevcnt c then None else getblk_loop c dev (LTOPBLK blkno bsize) bsize st)"

definition geteblk_turn :: "'d bio \<Rightarrow> turn \<times> 'd bio" where
  "geteblk_turn st =
     (if av_forw (bufs st Free) = Free then (Sleeps (OnBuf Free), set_flags Free (flags st Free \<union> {B_WANTED}) st)
      else
        let bp = av_forw (bufs st Free);
            st = notavail bp st
        in if B_DELWRI \<in> flags st bp then (Again, snd (bwrite bp (set_flags bp (flags st bp \<union> {B_ASYNC}) st)))
           else
             let st = rehash bp Free (set_flags bp {B_BUSY, B_AGE} st)
             in (Got bp, upd_buf bp (\<lambda>b. b\<lparr>b_dev := NODEV, b_bcount := SBUFSIZE, b_resid := 0\<rparr>) st))"

partial_function (option) geteblk :: "'d bio \<Rightarrow> (turn \<times> 'd bio) option" where
  "geteblk st = (case geteblk_turn st of (t, st) \<Rightarrow> if t = Again then geteblk st else Some (t, st))"

section \<open>Reading\<close>

definition start_read :: "bool \<Rightarrow> int \<Rightarrow> bptr \<Rightarrow> 'd bio \<Rightarrow> 'd bio" where
  "start_read async bsize bp st =
     strategy bp (upd_buf bp (\<lambda>b. b\<lparr>b_flags := b_flags b \<union> (if async then {B_READ, B_ASYNC} else {B_READ}), b_bcount := bsize\<rparr>) st)"

text \<open>\<^verbatim>\<open>bread\<close> up to \<^verbatim>\<open>iowait\<close>, which does not wait when the block is there.\<close>

definition bread :: "conf \<Rightarrow> int \<Rightarrow> int \<Rightarrow> int \<Rightarrow> 'd bio \<Rightarrow> (turn \<times> 'd bio) option" where
  "bread c dev blkno bsize st =
     (case getblk c dev blkno bsize st of
        Some (Got bp, st) \<Rightarrow> Some (Got bp, if B_DONE \<in> flags st bp then st else start_read False bsize bp st)
      | r \<Rightarrow> r)"

text \<open>\<^verbatim>\<open>breada\<close>: the block itself; which blocks are read ahead; and one of these.\<close>

definition breada_first :: "conf \<Rightarrow> int \<Rightarrow> int \<Rightarrow> int \<Rightarrow> 'd bio \<Rightarrow> (turn option \<times> 'd bio) option" where
  "breada_first c dev blkno bsize st =
     (case incore c dev blkno bsize st of
        None \<Rightarrow> None
      | Some (Some _) \<Rightarrow> Some (None, st)
      | Some None \<Rightarrow> map_option (\<lambda>(t, st). (Some t, st)) (bread c dev blkno bsize st))"

text \<open>The blocks before \<open>blkno + k\<close> that are not in core, down to \<open>blkno + 1\<close>: how many, and the first.\<close>

primrec ra_count :: "nat \<Rightarrow> conf \<Rightarrow> int \<Rightarrow> int \<Rightarrow> int \<Rightarrow> nat \<Rightarrow> 'd bio \<Rightarrow> (nat \<times> int) option" where
  "ra_count 0 c dev blkno bsize n st = Some (n, blkno + 1)"
| "ra_count (Suc k) c dev blkno bsize n st =
     (case incore c dev (blkno + int (Suc k)) bsize st of
        None \<Rightarrow> None
      | Some None \<Rightarrow> ra_count k c dev blkno bsize (Suc n) st
      | Some (Some _) \<Rightarrow> Some (n, blkno + int (Suc k) + 1))"

definition breada_plan :: "conf \<Rightarrow> int \<Rightarrow> int \<Rightarrow> u32 \<Rightarrow> int \<Rightarrow> 'd bio \<Rightarrow> (nat \<times> int) option" where
  "breada_plan c dev blkno rablkno bsize st =
     (if bit rablkno 31 then ra_count (unat (rablkno AND 0x7FFFFFFF)) c dev blkno bsize 0 st
      else if rablkno = 0 then Some (0, 0)
      else map_option (\<lambda>r. (if r = None then 1 else 0, sint rablkno)) (incore c dev (sint rablkno) bsize st))"

definition breada_one :: "conf \<Rightarrow> int \<Rightarrow> int \<Rightarrow> int \<Rightarrow> 'd bio \<Rightarrow> (turn option \<times> 'd bio) option" where
  "breada_one c dev rablkno bsize st =
     (if b_bcount (bufs st Free) > 1 then
        (case getblk c dev rablkno bsize st of
           None \<Rightarrow> None
         | Some (Got bp, st) \<Rightarrow> Some (None, if B_DONE \<in> flags st bp then brelse bp st else start_read True bsize bp st)
         | Some (t, st) \<Rightarrow> Some (Some t, st))
      else Some (None, st))"

section \<open>Flushing, closing, initialization\<close>

definition clrbuf :: "(int \<Rightarrow> 'd) \<Rightarrow> bptr \<Rightarrow> 'd bio \<Rightarrow> 'd bio" where
  "clrbuf zero bp st = upd_buf bp (\<lambda>b. b\<lparr>b_data := zero (b_bcount b), b_resid := 0\<rparr>) st"

text \<open>One scan of the available list, which writes the delayed blocks that \<open>P\<close> selects.\<close>

partial_function (option) flush_scan :: "('d buf \<Rightarrow> bool) \<Rightarrow> bptr \<Rightarrow> bool \<Rightarrow> 'd bio \<Rightarrow> (bool \<times> 'd bio) option" where
  "flush_scan P bp dirty st =
     (if bp = Free then Some (dirty, st)
      else
        let nbp = av_forw (bufs st bp)
        in if B_DELWRI \<in> flags st bp \<and> P (bufs st bp)
           then flush_scan P nbp True (snd (bwrite bp (notavail bp (set_flags bp (flags st bp \<union> {B_ASYNC}) st))))
           else flush_scan P nbp dirty st)"

partial_function (option) flush_loop :: "('d buf \<Rightarrow> bool) \<Rightarrow> 'd bio \<Rightarrow> 'd bio option" where
  "flush_loop P st =
     (case flush_scan P (av_forw (bufs st Free)) False st of
        None \<Rightarrow> None
      | Some (dirty, st) \<Rightarrow> if dirty then flush_loop P st else Some st)"

definition bflush :: "int \<Rightarrow> 'd bio \<Rightarrow> 'd bio option" where
  "bflush dev st = flush_loop (\<lambda>b. dev = NODEV \<or> dev = b_dev b) st"

text \<open>One round of \<^verbatim>\<open>bdflush\<close>, after \<^verbatim>\<open>sysupdate\<close>.\<close>

definition bdflush :: "int \<Rightarrow> 'd bio \<Rightarrow> 'd bio option" where
  "bdflush autoup st = flush_loop (\<lambda>b. lbolt st - b_start b \<ge> autoup) st"

text \<open>A turn of \<^verbatim>\<open>bdwait\<close>: it sleeps or is done.\<close>

definition bdwait :: "'d bio \<Rightarrow> wchan option \<times> 'd bio" where
  "bdwait st = (if basyncnt st \<noteq> 0 then (Some OnAsync, st\<lparr>basynwait := True\<rparr>) else (None, st))"

partial_function (option) inval_scan :: "int \<Rightarrow> bptr \<Rightarrow> bptr \<Rightarrow> 'd bio \<Rightarrow> 'd bio option" where
  "inval_scan dev dp bp st =
     (if bp = dp then Some st
      else
        let st = (if b_dev (bufs st bp) = dev then set_flags bp (flags st bp \<union> {B_STALE, B_AGE}) st else st)
        in inval_scan dev dp (b_forw (bufs st bp)) st)"

primrec inval_from :: "nat \<Rightarrow> nat \<Rightarrow> int \<Rightarrow> 'd bio \<Rightarrow> 'd bio option" where
  "inval_from 0 i dev st = Some st"
| "inval_from (Suc k) i dev st =
     (case inval_scan dev (Hbuf i) (b_forw (bufs st (Hbuf i))) st of
        None \<Rightarrow> None
      | Some st \<Rightarrow> inval_from k (Suc i) dev st)"

definition binval :: "conf \<Rightarrow> int \<Rightarrow> 'd bio \<Rightarrow> 'd bio option" where
  "binval c dev st = inval_from (Suc (v_hmask c)) 0 dev st"

definition link_free :: "bptr \<Rightarrow> 'd bio \<Rightarrow> 'd bio" where
  "link_free bp st =
     (let st = upd_buf bp (\<lambda>b. b\<lparr>b_dev := NODEV, b_back := Free, b_forw := b_forw (bufs st Free)\<rparr>) st;
          st = upd_buf (b_forw (bufs st Free)) (\<lambda>b. b\<lparr>b_back := bp\<rparr>) st;
          st = upd_buf Free (\<lambda>b. b\<lparr>b_forw := bp\<rparr>) st
      in upd_buf bp (\<lambda>b. b\<lparr>b_flags := {B_BUSY}, b_bcount := 0\<rparr>) st)"

primrec binit_from :: "nat \<Rightarrow> nat \<Rightarrow> 'd bio \<Rightarrow> 'd bio" where
  "binit_from 0 i st = st"
| "binit_from (Suc k) i st = binit_from k (Suc i) (brelse (Buf i) (link_free (Buf i) st))"

primrec hinit :: "nat \<Rightarrow> 'd bio \<Rightarrow> 'd bio" where
  "hinit 0 st = st"
| "hinit (Suc k) st = upd_buf (Hbuf k) (\<lambda>b. b\<lparr>b_forw := Hbuf k, b_back := Hbuf k\<rparr>) (hinit k st)"

definition binit :: "conf \<Rightarrow> 'd bio \<Rightarrow> 'd bio" where
  "binit c st =
     (let st = upd_buf Free (\<lambda>b. b\<lparr>b_forw := Free, b_back := Free, av_forw := Free, av_back := Free\<rparr>) st
      in hinit (Suc (v_hmask c)) (binit_from (v_buf c) 0 st))"

declare hsearch.simps [code] getblk_loop.simps [code] geteblk.simps [code] flush_scan.simps [code] flush_loop.simps [code]
  inval_scan.simps [code]

end
