(* ===== verification/Ring.thy ===== *)
theory Ring
  imports Prelude
begin

text \<open>
  Circular lists doubly linked through a header: their shape as a predicate over the list of their members, and what unlinking and
  the two insertions do to it.
\<close>

fun linked :: "('a \<Rightarrow> 'a) \<Rightarrow> ('a \<Rightarrow> 'a) \<Rightarrow> 'a list \<Rightarrow> bool" where
  "linked fw bk (a # b # xs) \<longleftrightarrow> fw a = b \<and> bk b = a \<and> linked fw bk (b # xs)"
| "linked fw bk _ \<longleftrightarrow> True"

definition ring :: "('a \<Rightarrow> 'a) \<Rightarrow> ('a \<Rightarrow> 'a) \<Rightarrow> 'a \<Rightarrow> 'a list \<Rightarrow> bool" where
  "ring fw bk h xs \<longleftrightarrow> distinct (h # xs) \<and> linked fw bk (h # xs @ [h])"

lemma dlink_append: "linked fw bk (xs @ a # ys) \<longleftrightarrow> linked fw bk (xs @ [a]) \<and> linked fw bk (a # ys)"
proof (induction xs)
  case (Cons x xs)
  then show ?case by (cases xs) auto
qed simp

lemma dlink_cong:
  assumes "\<And>x. x \<in> set (butlast xs) \<Longrightarrow> fw x = fw' x" "\<And>x. x \<in> set (tl xs) \<Longrightarrow> bk x = bk' x"
  shows "linked fw bk xs = linked fw' bk' xs"
  using assms by (induction xs rule: induct_list012) auto

lemma ring_cong:
  assumes "\<And>x. x \<in> set (h # xs) \<Longrightarrow> fw x = fw' x" "\<And>x. x \<in> set (h # xs) \<Longrightarrow> bk x = bk' x"
  shows "ring fw bk h xs = ring fw' bk' h xs"
proof -
  have "linked fw bk (h # xs @ [h]) = linked fw' bk' (h # xs @ [h])"
    by (rule dlink_cong) (use assms in auto)
  then show ?thesis by (simp add: ring_def)
qed

lemma ring_Nil [simp]: "ring fw bk h [] \<longleftrightarrow> fw h = h \<and> bk h = h"
  by (simp add: ring_def)

lemma ring_first: "ring fw bk h xs \<Longrightarrow> fw h = (case xs of [] \<Rightarrow> h | x # _ \<Rightarrow> x)"
  by (cases xs) (auto simp: ring_def)

lemma ring_last: "ring fw bk h xs \<Longrightarrow> bk h = last (h # xs)"
proof (cases xs rule: rev_cases)
  case (snoc ys y)
  assume "ring fw bk h xs"
  then have "linked fw bk ((h # ys) @ y # [h])" by (simp add: ring_def snoc)
  then show ?thesis using dlink_append[of fw bk "h # ys" y "[h]"] by (simp add: snoc)
qed (simp add: ring_def)

text \<open>The neighbours of a member.\<close>

lemma ring_around:
  assumes "ring fw bk h (us @ x # vs)"
  shows "bk x = last (h # us)" "fw x = hd (vs @ [h])" "fw (last (h # us)) = x" "bk (hd (vs @ [h])) = x"
proof -
  obtain ps p where p: "h # us = ps @ [p]" by (cases "h # us" rule: rev_cases) auto
  obtain s ss where s: "vs @ [h] = s # ss" by (cases "vs @ [h]") auto
  have "h # (us @ x # vs) @ [h] = (h # us) @ x # (vs @ [h])" by simp
  also have "\<dots> = ps @ p # x # s # ss" by (simp only: p s append_assoc append_Cons append_Nil)
  finally have "linked fw bk (ps @ p # x # s # ss)" using assms by (simp only: ring_def)
  then have "linked fw bk (p # x # s # ss)" using dlink_append[of fw bk ps p "x # s # ss"] by blast
  moreover have "last (h # us) = p" "hd (vs @ [h]) = s" by (simp_all only: p s last_snoc list.sel)
  ultimately show "bk x = last (h # us)" "fw x = hd (vs @ [h])" "fw (last (h # us)) = x" "bk (hd (vs @ [h])) = x" by simp_all
qed

lemma ring_remove:
  assumes r: "ring fw bk h (us @ x # vs)"
  shows "ring (fw(bk x := fw x)) (bk(fw x := bk x)) h (us @ vs)"
proof -
  obtain ps p where p: "h # us = ps @ [p]" by (cases "h # us" rule: rev_cases) auto
  obtain s ss where s: "vs @ [h] = s # ss" by (cases "vs @ [h]") auto
  have d: "distinct (h # us @ x # vs)" using r by (simp add: ring_def)
  have e: "h # (us @ x # vs) @ [h] = ps @ p # x # s # ss" "h # (us @ vs) @ [h] = ps @ p # s # ss"
  proof -
    have "h # (us @ x # vs) @ [h] = (h # us) @ x # (vs @ [h])" "h # (us @ vs) @ [h] = (h # us) @ (vs @ [h])" by simp_all
    then show "h # (us @ x # vs) @ [h] = ps @ p # x # s # ss" "h # (us @ vs) @ [h] = ps @ p # s # ss"
      by (simp_all only: p s append_assoc append_Cons append_Nil)
  qed
  have ls: "last (h # us) = p" "hd (vs @ [h]) = s" by (simp_all only: p s last_snoc list.sel)
  have bx: "bk x = p" "fw x = s" using ring_around(1,2)[OF r] ls by simp_all
  have L: "linked fw bk (ps @ [p])" "linked fw bk (s # ss)"
    using r e(1) dlink_append[of fw bk ps p "x # s # ss"] by (auto simp: ring_def)
  let ?f = "fw(p := s)" and ?b = "bk(s := p)"
  have pu: "p \<in> insert h (set us)" using arg_cong[OF p, of set] by auto
  have su: "s \<in> insert h (set vs)" using arg_cong[OF s, of set] by auto
  have "p \<notin> set ps" using d p by (metis append_Cons distinct_append distinct_append not_distinct_conv_prefix)
  moreover have "s \<notin> set (tl (ps @ [p]))"
  proof -
    have "tl (ps @ [p]) = us" using p by (metis list.sel(3))
    then show ?thesis using su d by auto
  qed
  ultimately have "linked ?f ?b (ps @ [p])" by (intro dlink_cong[THEN iffD1, OF _ _ L(1)]) auto
  moreover have "linked ?f ?b (s # ss)"
  proof -
    have "butlast (s # ss) = vs" using s by (metis butlast_snoc)
    then have "p \<notin> set (butlast (s # ss))" using pu d by auto
    moreover have "s \<notin> set (tl (s # ss))" using s d by (cases vs) auto
    ultimately show ?thesis by (intro dlink_cong[THEN iffD1, OF _ _ L(2)]) auto
  qed
  ultimately have "linked ?f ?b (ps @ p # s # ss)" using dlink_append[of ?f ?b ps p "s # ss"] by simp
  then show ?thesis using d unfolding ring_def e bx by simp
qed

lemma ring_insert:
  assumes r: "ring fw bk h (us @ vs)" and x: "x \<notin> set (h # us @ vs)"
  shows "ring (fw(x := hd (vs @ [h]), last (h # us) := x)) (bk(hd (vs @ [h]) := x, x := last (h # us))) h (us @ x # vs)"
proof -
  obtain ps p where p: "h # us = ps @ [p]" by (cases "h # us" rule: rev_cases) auto
  obtain s ss where s: "vs @ [h] = s # ss" by (cases "vs @ [h]") auto
  have d: "distinct (h # us @ vs)" using r by (simp add: ring_def)
  have e: "h # (us @ x # vs) @ [h] = ps @ p # x # s # ss" "h # (us @ vs) @ [h] = ps @ p # s # ss"
    using p s by (metis append_Cons append_Nil append_assoc)+
  have bx: "last (h # us) = p" "hd (vs @ [h]) = s" using p s by (metis last_snoc, metis list.sel(1))
  have L: "linked fw bk (ps @ [p])" "linked fw bk (s # ss)"
    using r e(2) dlink_append[of fw bk ps p "s # ss"] dlink_append[of fw bk "[p]" s ss] by (auto simp: ring_def)
  let ?f = "fw(x := s, p := x)" and ?b = "bk(s := x, x := p)"
  have pu: "p \<in> insert h (set us)" "set ps \<subseteq> insert h (set us)" using arg_cong[OF p, of set] by auto
  have su: "s \<in> insert h (set vs)" "set (s # ss) \<subseteq> insert h (set vs)" using arg_cong[OF s, of set] by auto
  have xp: "x \<noteq> p" "x \<noteq> s" "x \<notin> set ps" "x \<notin> set ss" using x pu su by auto
  have t: "tl (ps @ [p]) = us" using p by (metis list.sel(3))
  have b: "butlast (s # ss) = vs" using s by (metis butlast_snoc)
  have "p \<notin> set ps" using d p by (metis append_Cons distinct_append distinct_append not_distinct_conv_prefix)
  moreover have "s \<notin> set us" using su d by auto
  ultimately have "linked ?f ?b (ps @ [p])" by (intro dlink_cong[THEN iffD1, OF _ _ L(1)]) (use xp x t in auto)
  moreover have "linked ?f ?b (s # ss)"
  proof -
    have "p \<notin> set vs" using pu d by auto
    moreover have "s \<notin> set ss" using s d by (cases vs) auto
    ultimately show ?thesis by (intro dlink_cong[THEN iffD1, OF _ _ L(2)]) (use xp x b in auto)
  qed
  moreover have "linked ?f ?b [p, x, s]" using xp by simp
  ultimately have "linked ?f ?b (ps @ p # x # s # ss)" using dlink_append[of ?f ?b ps p "x # s # ss"] by simp
  then show ?thesis using d x unfolding ring_def e bx by auto
qed

lemma ring_front:
  assumes "ring fw bk h xs" "x \<notin> set (h # xs)"
  shows "ring (fw(x := fw h, h := x)) (bk(fw h := x, x := h)) h (x # xs)"
proof -
  have "fw h = hd (xs @ [h])" using ring_first[OF assms(1)] by (cases xs) auto
  then show ?thesis using ring_insert[of fw bk h "[]" xs x] assms by simp
qed

lemma ring_back:
  assumes "ring fw bk h xs" "x \<notin> set (h # xs)"
  shows "ring (fw(bk h := x, x := h)) (bk(x := bk h, h := x)) h (xs @ [x])"
proof -
  have l: "bk h = last (h # xs)" using ring_last[OF assms(1)] .
  then have "bk h \<in> set (h # xs)" by (metis last_in_set list.distinct(1))
  then have n: "x \<noteq> bk h" "x \<noteq> h" using assms(2) by auto
  have "ring (fw(x := h, bk h := x)) (bk(h := x, x := bk h)) h (xs @ [x])"
    using ring_insert[of fw bk h xs "[]" x] assms l by simp
  then show ?thesis using n by (simp add: fun_upd_twist)
qed

section \<open>Several lists over the same links\<close>

definition rings :: "('a \<Rightarrow> 'a) \<Rightarrow> ('a \<Rightarrow> 'a) \<Rightarrow> 'a set \<Rightarrow> ('a \<Rightarrow> 'a list) \<Rightarrow> bool" where
  "rings fw bk K L \<longleftrightarrow> (\<forall>h \<in> K. ring fw bk h (L h)) \<and>
     (\<forall>h \<in> K. \<forall>g \<in> K. h \<noteq> g \<longrightarrow> set (h # L h) \<inter> set (g # L g) = {})"

lemma ringsD:
  assumes "rings fw bk K L"
  shows "h \<in> K \<Longrightarrow> ring fw bk h (L h)" "h \<in> K \<Longrightarrow> g \<in> K \<Longrightarrow> h \<noteq> g \<Longrightarrow> x \<in> set (h # L h) \<Longrightarrow> x \<notin> set (g # L g)"
  using assms unfolding rings_def by blast+

lemma rings_cong:
  assumes "\<And>h x. h \<in> K \<Longrightarrow> x \<in> set (h # L h) \<Longrightarrow> fw x = fw' x \<and> bk x = bk' x"
  shows "rings fw bk K L = rings fw' bk' K L"
proof -
  have "ring fw bk h (L h) = ring fw' bk' h (L h)" if "h \<in> K" for h
    by (rule ring_cong) (use assms[OF that] in auto)
  then show ?thesis by (simp add: rings_def)
qed

lemma ring_neighbours:
  assumes "ring fw bk h (us @ x # vs)"
  shows "bk x \<in> set (h # us @ vs)" "fw x \<in> set (h # us @ vs)"
proof -
  have "last (h # us) \<in> set (h # us)" by (rule last_in_set) simp
  then show "bk x \<in> set (h # us @ vs)" using ring_around(1)[OF assms] by auto
  have "hd (vs @ [h]) \<in> set (vs @ [h])" by (rule hd_in_set) simp
  then show "fw x \<in> set (h # us @ vs)" using ring_around(2)[OF assms] by auto
qed

lemma rings_remove:
  assumes r: "rings fw bk K L" and h: "h \<in> K" "L h = us @ x # vs"
  shows "rings (fw(bk x := fw x)) (bk(fw x := bk x)) K (L(h := us @ vs))"
proof -
  have rh: "ring fw bk h (us @ x # vs)" using ringsD(1)[OF r h(1)] h(2) by simp
  have n: "bk x \<in> set (h # L h)" "fw x \<in> set (h # L h)" using ring_neighbours[OF rh] h(2) by auto
  have "ring (fw(bk x := fw x)) (bk(fw x := bk x)) g ((L(h := us @ vs)) g)" if g: "g \<in> K" for g
  proof (cases "g = h")
    case True
    then show ?thesis using ring_remove[OF rh] by simp
  next
    case False
    have "bk x \<notin> set (g # L g)" "fw x \<notin> set (g # L g)" using ringsD(2)[OF r h(1) g] n False by blast+
    then have "ring (fw(bk x := fw x)) (bk(fw x := bk x)) g (L g) = ring fw bk g (L g)" by (intro ring_cong) auto
    then show ?thesis using ringsD(1)[OF r g] False by simp
  qed
  moreover have "set (g # (L(h := us @ vs)) g) \<subseteq> set (g # L g)" for g using h(2) by auto
  ultimately show ?thesis using r unfolding rings_def by blast
qed

lemma rings_front:
  assumes r: "rings fw bk K L" and h: "h \<in> K" and x: "\<And>g. g \<in> K \<Longrightarrow> x \<notin> set (g # L g)"
  shows "rings (fw(x := fw h, h := x)) (bk(fw h := x, x := h)) K (L(h := x # L h))"
proof -
  have n: "fw h \<in> set (h # L h)" using ring_first[OF ringsD(1)[OF r h]] by (auto split: list.splits)
  have "ring (fw(x := fw h, h := x)) (bk(fw h := x, x := h)) g ((L(h := x # L h)) g)" if g: "g \<in> K" for g
  proof (cases "g = h")
    case True
    then show ?thesis using ring_front[OF ringsD(1)[OF r h] x[OF h]] by simp
  next
    case False
    have "h \<notin> set (g # L g)" "fw h \<notin> set (g # L g)" using ringsD(2)[OF r h g] n False by auto
    then have "ring (fw(x := fw h, h := x)) (bk(fw h := x, x := h)) g (L g) = ring fw bk g (L g)" using x[OF g] by (intro ring_cong) auto
    then show ?thesis using ringsD(1)[OF r g] False by simp
  qed
  moreover have "set (f # (L(h := x # L h)) f) \<inter> set (g # (L(h := x # L h)) g) = {}" if f: "f \<in> K" "g \<in> K" "f \<noteq> g" for f g
    using ringsD(2)[OF r f] x[OF f(1)] x[OF f(2)] f(3) by (auto split: if_splits)
  ultimately show ?thesis unfolding rings_def by blast
qed

end
