(* ===== verification/Bio_Lists.thy ===== *)
theory Bio_Lists
  imports Bio Ring
begin

text \<open>
  The lists of the buffer cache: the available list with the buffers that are not busy, oldest first, and the device lists.
\<close>

abbreviation avf :: "'d bio \<Rightarrow> bptr \<Rightarrow> bptr" where "avf st \<equiv> \<lambda>p. av_forw (bufs st p)"
abbreviation avb :: "'d bio \<Rightarrow> bptr \<Rightarrow> bptr" where "avb st \<equiv> \<lambda>p. av_back (bufs st p)"
abbreviation bfw :: "'d bio \<Rightarrow> bptr \<Rightarrow> bptr" where "bfw st \<equiv> \<lambda>p. b_forw (bufs st p)"
abbreviation bbk :: "'d bio \<Rightarrow> bptr \<Rightarrow> bptr" where "bbk st \<equiv> \<lambda>p. b_back (bufs st p)"

definition heads :: "conf \<Rightarrow> bptr set" where
  "heads c = insert Free (Hbuf ` {..v_hmask c})"

text \<open>\<open>A\<close> is the available list, \<open>D h\<close> the device list with header \<open>h\<close>.\<close>

definition lists :: "conf \<Rightarrow> 'd bio \<Rightarrow> nat list \<Rightarrow> (bptr \<Rightarrow> nat list) \<Rightarrow> bool" where
  "lists c st A D \<longleftrightarrow> ring (avf st) (avb st) Free (map Buf A) \<and> rings (bfw st) (bbk st) (heads c) (\<lambda>h. map Buf (D h)) \<and>
     b_bcount (bufs st Free) = int (length A)"

lemma listsD:
  assumes "lists c st A D"
  shows "ring (avf st) (avb st) Free (map Buf A)" "rings (bfw st) (bbk st) (heads c) (\<lambda>h. map Buf (D h))"
    "b_bcount (bufs st Free) = int (length A)"
  using assms by (simp_all add: lists_def)

lemma lists_cong:
  assumes "\<And>p. avf st' p = avf st p" "\<And>p. avb st' p = avb st p" "\<And>p. bfw st' p = bfw st p" "\<And>p. bbk st' p = bbk st p"
    "b_bcount (bufs st' Free) = b_bcount (bufs st Free)"
  shows "lists c st' A D = lists c st A D"
  unfolding lists_def by (simp add: assms)

lemma lists_distinct: "lists c st A D \<Longrightarrow> distinct A"
  by (auto simp: lists_def ring_def distinct_map)

section \<open>What the primitives do to each field\<close>

lemma upd_buf_simps [simp]:
  "bufs (upd_buf p f st) x = (if x = p then f (bufs st p) else bufs st x)" "basyncnt (upd_buf p f st) = basyncnt st"
  "basynwait (upd_buf p f st) = basynwait st" "iq (upd_buf p f st) = iq st" "disk (upd_buf p f st) = disk st" "lbolt (upd_buf p f st) = lbolt st"
  by (simp_all add: upd_buf_def)

lemma set_flags_simps [simp]:
  "bufs (set_flags p F st) x = (if x = p then (bufs st p)\<lparr>b_flags := F\<rparr> else bufs st x)" "basyncnt (set_flags p F st) = basyncnt st"
  "basynwait (set_flags p F st) = basynwait st" "iq (set_flags p F st) = iq st" "disk (set_flags p F st) = disk st" "lbolt (set_flags p F st) = lbolt st"
  by (simp_all add: set_flags_def)

lemma wake_simps [simp]:
  "bufs (wake w st) = bufs st" "basyncnt (wake w st) = basyncnt st" "basynwait (wake w st) = basynwait st" "iq (wake w st) = iq st"
  "disk (wake w st) = disk st" "lbolt (wake w st) = lbolt st"
  by (simp_all add: wake_def)

lemma strategy_simps [simp]:
  "bufs (strategy p st) = bufs st" "basyncnt (strategy p st) = basyncnt st" "basynwait (strategy p st) = basynwait st"
  "iq (strategy (Buf i) st) = i # iq st" "disk (strategy p st) = disk st" "lbolt (strategy p st) = lbolt st"
  by (auto simp: strategy_def split: bptr.split)

text \<open>The fields that concern the contents.\<close>

definition same_block :: "'d buf \<Rightarrow> 'd buf \<Rightarrow> bool" where
  "same_block x y \<longleftrightarrow> b_dev x = b_dev y \<and> b_blkno x = b_blkno y \<and> b_data x = b_data y"

definition same_rest :: "'d bio \<Rightarrow> 'd bio \<Rightarrow> bool" where
  "same_rest st' st \<longleftrightarrow> iq st' = iq st \<and> disk st' = disk st \<and> basyncnt st' = basyncnt st \<and> lbolt st' = lbolt st"

lemma notavail_effect:
  "flags (notavail p st) x = (if x = p then flags st p \<union> {B_BUSY} else flags st x)" "same_block (bufs (notavail p st) x) (bufs st x)"
  "same_rest (notavail p st) st" "bfw (notavail p st) x = bfw st x" "bbk (notavail p st) x = bbk st x"
  "avf (notavail p st) x = ((avf st)(avb st p := avf st p)) x" "avb (notavail p st) x = ((avb st)(avf st p := avb st p)) x"
  "b_bcount (bufs (notavail p st) Free) = b_bcount (bufs st Free) - 1"
  by (auto simp: notavail_def Let_def same_block_def same_rest_def)

lemma rehash_effect:
  "flags (rehash p d st) x = flags st x" "same_block (bufs (rehash p d st) x) (bufs st x)" "same_rest (rehash p d st) st"
  "avf (rehash p d st) x = avf st x" "avb (rehash p d st) x = avb st x" "b_bcount (bufs (rehash p d st) x) = b_bcount (bufs st x)"
  by (auto simp: rehash_def Let_def same_block_def same_rest_def)

lemma rehash_links:
  fixes p d st
  defines "f \<equiv> (bfw st)(bbk st p := bfw st p)" and "b \<equiv> (bbk st)(bfw st p := bbk st p)"
  assumes "f d \<noteq> p"
  shows "bfw (rehash p d st) = f(p := f d, d := p)" "bbk (rehash p d st) = b(f d := p, p := d)"
proof -
  define s1 where "s1 = upd_buf (bbk st p) (\<lambda>b. b\<lparr>b_forw := bfw st p\<rparr>) st"
  define s2 where "s2 = upd_buf (bfw s1 p) (\<lambda>b. b\<lparr>b_back := bbk s1 p\<rparr>) s1"
  have e: "bfw s1 = f" "bbk s1 = bbk st" "bfw s1 p = bfw st p" by (auto simp: s1_def f_def)
  then have x1: "b_back (bufs s1 x) = b_back (bufs st x)" "b_forw (bufs s1 p) = b_forw (bufs st p)" "b_forw (bufs s1 x) = f x" for x by (metis)+
  have e2: "b_forw (bufs s2 x) = f x" "b_back (bufs s2 x) = b x" for x using x1 by (auto simp: s2_def b_def)
  define s3 where "s3 = upd_buf p (\<lambda>b. b\<lparr>b_back := d\<rparr>) (upd_buf p (\<lambda>b. b\<lparr>b_forw := f d\<rparr>) s2)"
  have e3: "b_forw (bufs s3 x) = (f(p := f d)) x" "b_back (bufs s3 x) = (b(p := d)) x" for x using e2 by (auto simp: s3_def)
  have fd: "(f(p := f d)) d = f d" by auto
  have r: "rehash p d st = upd_buf d (\<lambda>b. b\<lparr>b_forw := p\<rparr>) (upd_buf (f d) (\<lambda>b. b\<lparr>b_back := p\<rparr>) s3)"
    unfolding rehash_def Let_def s1_def[symmetric] s2_def[symmetric] e2(1) s3_def[symmetric] e3(1) fd ..
  show "bfw (rehash p d st) = f(p := f d, d := p)" unfolding r by (rule ext) (simp add: e3(1))
  show "bbk (rehash p d st) = b(f d := p, p := d)" unfolding r using assms(3) by (intro ext) (simp add: e3(2))
qed

lemma put_front_effect:
  "flags (put_front p st) x = flags st x" "same_block (bufs (put_front p st) x) (bufs st x)" "same_rest (put_front p st) st"
  "bfw (put_front p st) x = bfw st x" "bbk (put_front p st) x = bbk st x" "b_bcount (bufs (put_front p st) x) = b_bcount (bufs st x)"
  by (simp_all add: put_front_def Let_def same_block_def same_rest_def)

lemma put_back_effect:
  "flags (put_back p st) x = flags st x" "same_block (bufs (put_back p st) x) (bufs st x)" "same_rest (put_back p st) st"
  "bfw (put_back p st) x = bfw st x" "bbk (put_back p st) x = bbk st x" "b_bcount (bufs (put_back p st) x) = b_bcount (bufs st x)"
  by (simp_all add: put_back_def Let_def same_block_def same_rest_def)

lemma put_front_links:
  "p \<noteq> Free \<Longrightarrow> avf (put_front p st) = (avf st)(p := avf st Free, Free := p)"
  "p \<noteq> Free \<Longrightarrow> avb (put_front p st) = (avb st)(avf st Free := p, p := Free)"
  by (auto simp: put_front_def Let_def fun_eq_iff)

lemma put_back_links:
  "p \<noteq> Free \<Longrightarrow> avf (put_back p st) = (avf st)(avb st Free := p, p := Free)"
  "p \<noteq> Free \<Longrightarrow> avb (put_back p st) = (avb st)(p := avb st Free, Free := p)"
  by (auto simp: put_back_def Let_def fun_eq_iff)

text \<open>\<^verbatim>\<open>brelse\<close> in two parts: what it does before it links the buffer in, and the rest.\<close>

definition brelse_pre :: "bptr \<Rightarrow> 'd bio \<Rightarrow> 'd bio" where
  "brelse_pre bp st =
     (let st = (if B_WANTED \<in> flags st bp then wake (OnBuf bp) st
                else if B_WANTED \<in> flags st Free then wake (OnBuf Free) (set_flags Free (flags st Free - {B_WANTED}) st)
                else st)
      in if B_ERROR \<in> flags st bp
         then upd_buf bp (\<lambda>b. b\<lparr>b_flags := b_flags b \<union> {B_STALE, B_AGE} - {B_ERROR, B_DELWRI}, b_error := 0\<rparr>) st
         else st)"

lemma brelse_pre_effect:
  assumes "p \<noteq> Free"
  shows "flags (brelse_pre p st) x =
      (if x = p then (if B_ERROR \<in> flags st p then flags st p \<union> {B_STALE, B_AGE} - {B_ERROR, B_DELWRI} else flags st p)
       else if x = Free then (if B_WANTED \<in> flags st p then flags st Free else flags st Free - {B_WANTED}) else flags st x)"
    "same_block (bufs (brelse_pre p st) x) (bufs st x)" "same_rest (brelse_pre p st) st" "bfw (brelse_pre p st) x = bfw st x" "bbk (brelse_pre p st) x = bbk st x"
    "b_bcount (bufs (brelse_pre p st) x) = b_bcount (bufs st x)" "avf (brelse_pre p st) x = avf st x" "avb (brelse_pre p st) x = avb st x"
  using assms by (simp_all add: brelse_pre_def Let_def same_block_def same_rest_def)

lemma brelse_post:
  "brelse p st =
    (let st = brelse_pre p st;
         st = (if B_AGE \<in> flags st p then put_front p st else put_back p st)
     in upd_buf Free (\<lambda>b. b\<lparr>b_bcount := b_bcount b + 1\<rparr>) (set_flags p (flags st p - {B_WANTED, B_BUSY, B_ASYNC, B_AGE}) st))"
  unfolding brelse_def brelse_pre_def Let_def ..

lemma same_block_trans: "same_block x y \<Longrightarrow> same_block y z \<Longrightarrow> same_block x z"
  by (simp add: same_block_def)

lemma same_rest_trans: "same_rest x y \<Longrightarrow> same_rest y z \<Longrightarrow> same_rest x z"
  by (simp add: same_rest_def)

lemma brelse_effect:
  assumes p: "p \<noteq> Free"
  shows "flags (brelse p st) x =
      (if x = p then (if B_ERROR \<in> flags st p then flags st p \<union> {B_STALE} - {B_ERROR, B_DELWRI} else flags st p) - {B_WANTED, B_BUSY, B_ASYNC, B_AGE}
       else if x = Free then (if B_WANTED \<in> flags st p then flags st Free else flags st Free - {B_WANTED}) else flags st x)"
    "same_block (bufs (brelse p st) x) (bufs st x)" "same_rest (brelse p st) st" "bfw (brelse p st) x = bfw st x" "bbk (brelse p st) x = bbk st x"
    "b_bcount (bufs (brelse p st) Free) = b_bcount (bufs st Free) + 1"
proof -
  define s1 where "s1 = brelse_pre p st"
  define s2 where "s2 = (if B_AGE \<in> flags s1 p then put_front p s1 else put_back p s1)"
  have e: "brelse p st = upd_buf Free (\<lambda>b. b\<lparr>b_bcount := b_bcount b + 1\<rparr>) (set_flags p (flags s2 p - {B_WANTED, B_BUSY, B_ASYNC, B_AGE}) s2)"
    unfolding brelse_post Let_def s1_def s2_def ..
  have s2: "flags s2 x = flags s1 x" "same_block (bufs s2 x) (bufs s1 x)" "same_rest s2 s1" "bfw s2 x = bfw s1 x" "bbk s2 x = bbk s1 x"
    "b_bcount (bufs s2 x) = b_bcount (bufs s1 x)" for x
    by (simp_all add: s2_def put_front_effect put_back_effect)
  note s1 = brelse_pre_effect[OF p, of st, folded s1_def]
  show "flags (brelse p st) x =
      (if x = p then (if B_ERROR \<in> flags st p then flags st p \<union> {B_STALE} - {B_ERROR, B_DELWRI} else flags st p) - {B_WANTED, B_BUSY, B_ASYNC, B_AGE}
       else if x = Free then (if B_WANTED \<in> flags st p then flags st Free else flags st Free - {B_WANTED}) else flags st x)"
    unfolding e using p by (auto simp: s2(1) s1(1))
  show "same_block (bufs (brelse p st) x) (bufs st x)"
    using same_block_trans[OF s2(2) s1(2)] unfolding e by (simp add: same_block_def)
  show "same_rest (brelse p st) st" using same_rest_trans[OF s2(3) s1(3)] unfolding e by (simp add: same_rest_def)
  show "bfw (brelse p st) x = bfw st x" "bbk (brelse p st) x = bbk st x" "b_bcount (bufs (brelse p st) Free) = b_bcount (bufs st Free) + 1"
    using p by (simp_all add: e s2(4-6) s1(4-6))
qed

lemma brelse_links:
  assumes p: "p \<noteq> Free"
  shows "avf (brelse p st) = (avf st)(p := avf st Free, Free := p) \<and> avb (brelse p st) = (avb st)(avf st Free := p, p := Free) \<or>
    avf (brelse p st) = (avf st)(avb st Free := p, p := Free) \<and> avb (brelse p st) = (avb st)(p := avb st Free, Free := p)"
proof -
  define s1 where "s1 = brelse_pre p st"
  define s2 where "s2 = (if B_AGE \<in> flags s1 p then put_front p s1 else put_back p s1)"
  have e: "avf (brelse p st) = avf s2" "avb (brelse p st) = avb s2"
    unfolding brelse_post Let_def s1_def s2_def by auto
  have s1: "avf s1 = avf st" "avb s1 = avb st" using brelse_pre_effect(7,8)[OF p, of st] by (auto simp: s1_def)
  then have s1x: "av_forw (bufs s1 x) = av_forw (bufs st x)" "av_back (bufs s1 x) = av_back (bufs st x)" for x by (simp_all add: fun_eq_iff)
  show ?thesis unfolding e s2_def using put_front_links[OF p, of s1] put_back_links[OF p, of s1] s1 s1x by simp
qed

section \<open>What they do to the lists\<close>

lemma notavail_lists:
  assumes l: "lists c st (us @ i # vs) D"
  shows "lists c (notavail (Buf i) st) (us @ vs) D"
proof -
  have "ring (avf st) (avb st) Free (map Buf us @ Buf i # map Buf vs)" using listsD(1)[OF l] by simp
  from ring_remove[OF this] have "ring (avf (notavail (Buf i) st)) (avb (notavail (Buf i) st)) Free (map Buf (us @ vs))"
    by (simp add: notavail_effect(6,7) fun_upd_def)
  then show ?thesis using listsD(2,3)[OF l] by (simp add: lists_def notavail_effect)
qed

lemma brelse_lists:
  assumes l: "lists c st A D" and i: "i \<notin> set A"
  obtains A' where "lists c (brelse (Buf i) st) A' D" "A' = i # A \<or> A' = A @ [i]"
proof -
  have x: "Buf i \<notin> set (Free # map Buf A)" using i by auto
  have e: "Buf i \<noteq> Free" by simp
  note R = ring_front[OF listsD(1)[OF l] x] ring_back[OF listsD(1)[OF l] x]
  have "ring (avf (brelse (Buf i) st)) (avb (brelse (Buf i) st)) Free (map Buf (i # A)) \<or>
    ring (avf (brelse (Buf i) st)) (avb (brelse (Buf i) st)) Free (map Buf (A @ [i]))"
    using brelse_links[OF e, of st] R by auto
  then have "lists c (brelse (Buf i) st) (i # A) D \<or> lists c (brelse (Buf i) st) (A @ [i]) D"
    using listsD(2,3)[OF l] by (auto simp: lists_def brelse_effect[OF e])
  then show thesis using that by blast
qed

lemma rehash_lists:
  assumes l: "lists c st A D" and g: "g \<in> heads c" "D g = us @ i # vs" and h: "h \<in> heads c"
    and o: "\<And>k. k \<in> heads c \<Longrightarrow> k \<noteq> g \<Longrightarrow> i \<notin> set (D k)"
  shows "lists c (rehash (Buf i) h st) A ((D(g := us @ vs))(h := i # (D(g := us @ vs)) h))"
proof -
  let ?L = "(\<lambda>h. map Buf (D h))(g := map Buf us @ map Buf vs)"
  have eL: "?L = (\<lambda>h. map Buf ((D(g := us @ vs)) h))" by auto
  have r: "rings (bfw st) (bbk st) (heads c) (\<lambda>h. map Buf (D h))" using listsD(2)[OF l] .
  have r1: "rings ((bfw st)(bbk st (Buf i) := bfw st (Buf i))) ((bbk st)(bfw st (Buf i) := bbk st (Buf i))) (heads c) ?L"
    by (rule rings_remove[OF r g(1)]) (simp add: g(2))
  have "distinct (map Buf (D g))" using ringsD(1)[OF r g(1)] by (auto simp: ring_def)
  then have "i \<notin> set us \<union> set vs" by (auto simp: g(2) distinct_map)
  then have x: "Buf i \<notin> set (k # ?L k)" if "k \<in> heads c" for k
    using o[OF that] that by (auto simp: heads_def)
  have n: "((bfw st)(bbk st (Buf i) := bfw st (Buf i))) h \<noteq> Buf i"
  proof -
    have "((bfw st)(bbk st (Buf i) := bfw st (Buf i))) h \<in> set (h # ?L h)"
      unfolding ring_first[OF ringsD(1)[OF r1 h]] by (cases "?L h") (simp_all only: list.case list.set_intros)
    then show ?thesis using x[OF h] by metis
  qed
  have "rings (bfw (rehash (Buf i) h st)) (bbk (rehash (Buf i) h st)) (heads c) (?L(h := Buf i # ?L h))"
    unfolding rehash_links[OF n] by (rule rings_front[OF r1 h x])
  moreover have "?L(h := Buf i # ?L h) = (\<lambda>k. map Buf (((D(g := us @ vs))(h := i # (D(g := us @ vs)) h)) k))" by auto
  ultimately show ?thesis using listsD(1,3)[OF l] by (simp add: lists_def rehash_effect)
qed

end
