(* ===== verification/Bio_Inv.thy ===== *)
theory Bio_Inv
  imports Bio_Lists
begin

text \<open>
  The invariant of the buffer cache and the contents of the devices as the rest of the kernel sees them through it.
\<close>

section \<open>The invariant\<close>

abbreviation block :: "'d bio \<Rightarrow> nat \<Rightarrow> int \<times> int" where
  "block st i \<equiv> (b_dev (bufs st (Buf i)), b_blkno (bufs st (Buf i)))"

abbreviation data :: "'d bio \<Rightarrow> nat \<Rightarrow> 'd" where
  "data st i \<equiv> b_data (bufs st (Buf i))"

abbreviation fl :: "'d bio \<Rightarrow> nat \<Rightarrow> bflag set" where
  "fl st i \<equiv> flags st (Buf i)"

definition home :: "conf \<Rightarrow> int \<times> int \<Rightarrow> bptr" where
  "home c b = (if fst b = NODEV then Free else Hbuf (bhash c (fst b) (snd b)))"

lemma bhash_le: "bhash c d b \<le> v_hmask c"
proof -
  have "(d + b) AND int (v_hmask c) \<le> int (v_hmask c)" by (rule AND_upper2) simp
  then show ?thesis by (simp only: bhash_def nat_le_iff)
qed

lemma home_heads: "home c b \<in> heads c"
  by (simp add: home_def heads_def bhash_le)

definition placed :: "conf \<Rightarrow> 'd bio \<Rightarrow> nat list \<Rightarrow> (bptr \<Rightarrow> nat list) \<Rightarrow> bool" where
  "placed c st A D \<longleftrightarrow> (\<forall>i. i \<in> set A \<longleftrightarrow> i < v_buf c \<and> B_BUSY \<notin> fl st i) \<and>
     (\<forall>h \<in> heads c. \<forall>i. i \<in> set (D h) \<longleftrightarrow> i < v_buf c \<and> home c (block st i) = h)"

text \<open>No two buffers hold the same block.\<close>

definition single :: "conf \<Rightarrow> 'd bio \<Rightarrow> bool" where
  "single c st \<longleftrightarrow> (\<forall>i j. i < v_buf c \<longrightarrow> j < v_buf c \<longrightarrow> B_STALE \<notin> fl st i \<longrightarrow> B_STALE \<notin> fl st j \<longrightarrow>
     fst (block st i) \<noteq> NODEV \<longrightarrow> block st i = block st j \<longrightarrow> i = j)"

definition flags_ok :: "bflag set \<Rightarrow> bool" where
  "flags_ok F \<longleftrightarrow> (B_BUSY \<notin> F \<longrightarrow> B_WANTED \<notin> F \<and> B_ASYNC \<notin> F \<and> B_ERROR \<notin> F) \<and> (B_STALE \<in> F \<longrightarrow> B_BUSY \<notin> F \<and> B_DELWRI \<notin> F) \<and>
     (B_DELWRI \<in> F \<longrightarrow> B_DONE \<in> F) \<and> (B_ERROR \<in> F \<longrightarrow> B_DONE \<in> F)"

definition async_writes :: "'d bio \<Rightarrow> nat" where
  "async_writes st = length (filter (\<lambda>i. B_ASYNC \<in> fl st i \<and> B_READ \<notin> fl st i) (iq st))"

definition tidy :: "conf \<Rightarrow> 'd bio \<Rightarrow> bool" where
  "tidy c st \<longleftrightarrow> (\<forall>i < v_buf c. flags_ok (fl st i) \<and> (B_DELWRI \<in> fl st i \<longrightarrow> fst (block st i) \<noteq> NODEV)) \<and> distinct (iq st) \<and>
     (\<forall>i \<in> set (iq st). i < v_buf c \<and> B_BUSY \<in> fl st i \<and> B_DONE \<notin> fl st i \<and> fst (block st i) \<noteq> NODEV) \<and> basyncnt st = int (async_writes st)"

text \<open>A buffer that is neither delayed nor being written agrees with the disk.\<close>

definition coherent :: "conf \<Rightarrow> 'd bio \<Rightarrow> bool" where
  "coherent c st \<longleftrightarrow> (\<forall>i < v_buf c. fst (block st i) \<noteq> NODEV \<longrightarrow> B_STALE \<notin> fl st i \<longrightarrow> B_ERROR \<notin> fl st i \<longrightarrow> B_DONE \<in> fl st i \<longrightarrow>
     B_DELWRI \<notin> fl st i \<longrightarrow> disk st (block st i) = data st i)"

definition cache :: "conf \<Rightarrow> 'd bio \<Rightarrow> nat list \<Rightarrow> (bptr \<Rightarrow> nat list) \<Rightarrow> bool" where
  "cache c st A D \<longleftrightarrow> lists c st A D \<and> placed c st A D \<and> single c st \<and> tidy c st \<and> coherent c st"

lemma cacheD:
  assumes "cache c st A D"
  shows "lists c st A D" "placed c st A D" "single c st" "tidy c st" "coherent c st"
  using assms by (simp_all add: cache_def)

lemma placedD:
  assumes "placed c st A D"
  shows "i \<in> set A \<longleftrightarrow> i < v_buf c \<and> B_BUSY \<notin> fl st i" "h \<in> heads c \<Longrightarrow> i \<in> set (D h) \<longleftrightarrow> i < v_buf c \<and> home c (block st i) = h"
  using assms by (auto simp: placed_def)

lemma tidyD:
  assumes "tidy c st"
  shows "i < v_buf c \<Longrightarrow> flags_ok (fl st i)" "distinct (iq st)" "i \<in> set (iq st) \<Longrightarrow> i < v_buf c"
    "i \<in> set (iq st) \<Longrightarrow> B_BUSY \<in> fl st i" "i \<in> set (iq st) \<Longrightarrow> B_DONE \<notin> fl st i" "basyncnt st = int (async_writes st)"
    "i \<in> set (iq st) \<Longrightarrow> fst (block st i) \<noteq> NODEV" "i < v_buf c \<Longrightarrow> B_DELWRI \<in> fl st i \<Longrightarrow> fst (block st i) \<noteq> NODEV"
  using assms by (auto simp: tidy_def)

lemma singleD:
  "single c st \<Longrightarrow> i < v_buf c \<Longrightarrow> j < v_buf c \<Longrightarrow> B_STALE \<notin> fl st i \<Longrightarrow> B_STALE \<notin> fl st j \<Longrightarrow>
    fst (block st i) \<noteq> NODEV \<Longrightarrow> block st i = block st j \<Longrightarrow> i = j"
  unfolding single_def by blast

lemma flags_okD:
  assumes "flags_ok F"
  shows "B_BUSY \<notin> F \<Longrightarrow> B_WANTED \<notin> F" "B_BUSY \<notin> F \<Longrightarrow> B_ASYNC \<notin> F" "B_BUSY \<notin> F \<Longrightarrow> B_ERROR \<notin> F" "B_BUSY \<in> F \<Longrightarrow> B_STALE \<notin> F"
    "B_DELWRI \<in> F \<Longrightarrow> B_STALE \<notin> F" "B_DELWRI \<in> F \<Longrightarrow> B_DONE \<in> F" "B_ERROR \<in> F \<Longrightarrow> B_DONE \<in> F"
  using assms by (auto simp: flags_ok_def)

section \<open>Contents\<close>

definition valid :: "'d bio \<Rightarrow> nat \<Rightarrow> bool" where
  "valid st i \<longleftrightarrow> fst (block st i) \<noteq> NODEV \<and> B_STALE \<notin> fl st i \<and> B_ERROR \<notin> fl st i \<and>
     (B_DONE \<in> fl st i \<or> i \<in> set (iq st) \<and> B_READ \<notin> fl st i)"

definition content :: "conf \<Rightarrow> 'd bio \<Rightarrow> int \<times> int \<Rightarrow> 'd" where
  "content c st x =
     (case find (\<lambda>i. valid st i \<and> block st i = x) [0..<v_buf c] of None \<Rightarrow> disk st x | Some i \<Rightarrow> data st i)"

lemma content_valid:
  assumes s: "single c st" and i: "i < v_buf c" "valid st i"
  shows "content c st (block st i) = data st i"
proof (cases "find (\<lambda>j. valid st j \<and> block st j = block st i) [0..<v_buf c]")
  case None
  then show ?thesis using i by (auto simp: find_None_iff)
next
  case (Some j)
  then have j: "j < v_buf c" "valid st j" "block st j = block st i" by (auto simp: find_Some_iff)
  have v: "B_STALE \<notin> fl st i" "B_STALE \<notin> fl st j" "fst (block st i) \<noteq> NODEV" using i(2) j(2) by (simp_all add: valid_def)
  have "i = j" by (rule singleD[OF s i(1) j(1) v j(3)[symmetric]])
  then show ?thesis using Some by (simp add: content_def)
qed

lemma content_disk:
  assumes "\<And>i. i < v_buf c \<Longrightarrow> valid st i \<Longrightarrow> block st i \<noteq> x"
  shows "content c st x = disk st x"
proof -
  have "find (\<lambda>j. valid st j \<and> block st j = x) [0..<v_buf c] = None" using assms by (auto simp: find_None_iff)
  then show ?thesis by (simp add: content_def)
qed

text \<open>A change of buffer \<open>i\<close> matters only for the blocks it holds before or after.\<close>

lemma content_off:
  assumes o: "\<And>j. j \<noteq> i \<Longrightarrow> valid st' j = valid st j \<and> block st' j = block st j \<and> data st' j = data st j"
    and x: "valid st i \<Longrightarrow> block st i \<noteq> x" "valid st' i \<Longrightarrow> block st' i \<noteq> x" and d: "disk st' x = disk st x"
  shows "content c st' x = content c st x"
proof -
  have e: "(\<lambda>j. valid st' j \<and> block st' j = x) = (\<lambda>j. valid st j \<and> block st j = x)"
  proof
    fix j
    show "(valid st' j \<and> block st' j = x) = (valid st j \<and> block st j = x)" using o[of j] x by (cases "j = i") auto
  qed
  show ?thesis
  proof (cases "find (\<lambda>j. valid st j \<and> block st j = x) [0..<v_buf c]")
    case None
    then show ?thesis by (simp add: content_def e d)
  next
    case (Some j)
    then have "j \<noteq> i" using x(1) by (auto simp: find_Some_iff)
    then show ?thesis using Some o[of j] by (simp add: content_def e)
  qed
qed

section \<open>Changes of one buffer\<close>

text \<open>Buffer \<open>i\<close> gets the flags \<open>F\<close> and perhaps other data, the disk may change at its block.\<close>

lemma cache_change:
  assumes s: "cache c st A D" and i: "i < v_buf c" and l: "lists c st' A' D"
    and fl: "\<And>j. fl st' j = (if j = i then F else fl st j)" and bl: "\<And>j. block st' j = block st j"
    and da: "\<And>j. j \<noteq> i \<Longrightarrow> data st' j = data st j"
    and A': "\<And>j. j \<in> set A' \<longleftrightarrow> (if j = i then B_BUSY \<notin> F else j \<in> set A)"
    and iq: "distinct (iq st')" "\<And>j. j \<in> set (iq st') \<longleftrightarrow> (if j = i then Q else j \<in> set (iq st))" "Q \<Longrightarrow> B_BUSY \<in> F \<and> B_DONE \<notin> F \<and> fst (block st i) \<noteq> NODEV"
    and F: "flags_ok F" "B_DELWRI \<in> F \<Longrightarrow> fst (block st i) \<noteq> NODEV" "B_STALE \<in> fl st i \<Longrightarrow> B_STALE \<in> F" and cnt: "basyncnt st' = int (async_writes st')"
    and coh: "fst (block st i) \<noteq> NODEV \<Longrightarrow> B_STALE \<notin> F \<Longrightarrow> B_ERROR \<notin> F \<Longrightarrow> B_DONE \<in> F \<Longrightarrow> B_DELWRI \<notin> F \<Longrightarrow> disk st' (block st i) = data st' i"
    and dk: "\<And>x. disk st' x \<noteq> disk st x \<Longrightarrow> x = block st i \<and> B_STALE \<notin> fl st i"
  shows "cache c st' A' D"
proof -
  note P = cacheD(2)[OF s] and S = cacheD(3)[OF s] and T = cacheD(4)[OF s] and C = cacheD(5)[OF s]
  have "placed c st' A' D" unfolding placed_def bl using placedD[OF P] i by (auto simp: A' fl)
  moreover have "single c st'" unfolding single_def bl
  proof (intro allI impI)
    fix p q
    assume a: "p < v_buf c" "q < v_buf c" "B_STALE \<notin> fl st' p" "B_STALE \<notin> fl st' q" "fst (block st p) \<noteq> NODEV" "block st p = block st q"
    have "B_STALE \<notin> fl st p" "B_STALE \<notin> fl st q" using a(3,4) F(3) unfolding fl by (metis (full_types))+
    then show "p = q" using singleD[OF S a(1,2)] a(5,6) by blast
  qed
  moreover have "tidy c st'" unfolding tidy_def
  proof (intro conjI)
    show "\<forall>j < v_buf c. flags_ok (fl st' j) \<and> (B_DELWRI \<in> fl st' j \<longrightarrow> fst (block st' j) \<noteq> NODEV)"
      unfolding bl using F(1,2) tidyD(1,8)[OF T] by (simp add: fl)
    show "\<forall>j \<in> set (iq st'). j < v_buf c \<and> B_BUSY \<in> fl st' j \<and> B_DONE \<notin> fl st' j \<and> fst (block st' j) \<noteq> NODEV"
      unfolding bl
    proof
      fix j
      assume "j \<in> set (iq st')"
      then show "j < v_buf c \<and> B_BUSY \<in> fl st' j \<and> B_DONE \<notin> fl st' j \<and> fst (block st j) \<noteq> NODEV"
        using iq(2)[of j] iq(3) i tidyD(3-5,7)[OF T, of j] fl[of j] by (cases "j = i") auto
    qed
  qed (use iq(1) cnt in auto)
  moreover have "coherent c st'" unfolding coherent_def bl
  proof (intro allI impI)
    fix j
    assume a: "j < v_buf c" "fst (block st j) \<noteq> NODEV" "B_STALE \<notin> fl st' j" "B_ERROR \<notin> fl st' j" "B_DONE \<in> fl st' j" "B_DELWRI \<notin> fl st' j"
    show "disk st' (block st j) = data st' j"
    proof (cases "j = i")
      case True
      then show ?thesis using coh a(2-) fl[of j] by simp
    next
      case False
      then have f: "fl st' j = fl st j" using fl[of j] by simp
      have "disk st (block st j) = data st j" using C a unfolding coherent_def f by blast
      moreover have "disk st' (block st j) = disk st (block st j)"
      proof (rule ccontr)
        assume "disk st' (block st j) \<noteq> disk st (block st j)"
        then have "block st j = block st i" "B_STALE \<notin> fl st i" using dk by blast+
        then show False using singleD[OF S a(1) i] a(2,3) False unfolding f by blast
      qed
      ultimately show ?thesis using da[OF False] by simp
    qed
  qed
  ultimately show ?thesis unfolding cache_def using l by blast
qed

end
