(* ===== verification/Bio_Ops.thy ===== *)
theory Bio_Ops
  imports Bio_Inv
begin

text \<open>Each operation keeps the invariant of the buffer cache; what it does to the contents.\<close>

lemma fields [simp]:
  "b_dev (bufs (notavail p st) x) = b_dev (bufs st x)" "b_blkno (bufs (notavail p st) x) = b_blkno (bufs st x)"
  "b_data (bufs (notavail p st) x) = b_data (bufs st x)" "iq (notavail p st) = iq st" "disk (notavail p st) = disk st"
  "basyncnt (notavail p st) = basyncnt st" "lbolt (notavail p st) = lbolt st"
  "b_dev (bufs (rehash p d st) x) = b_dev (bufs st x)" "b_blkno (bufs (rehash p d st) x) = b_blkno (bufs st x)"
  "b_data (bufs (rehash p d st) x) = b_data (bufs st x)" "iq (rehash p d st) = iq st" "disk (rehash p d st) = disk st"
  "basyncnt (rehash p d st) = basyncnt st" "lbolt (rehash p d st) = lbolt st"
  using notavail_effect(2,3) rehash_effect(2,3) unfolding same_block_def same_rest_def by blast+

lemma brelse_fields [simp]:
  "b_dev (bufs (brelse (Buf i) st) x) = b_dev (bufs st x)" "b_blkno (bufs (brelse (Buf i) st) x) = b_blkno (bufs st x)"
  "b_data (bufs (brelse (Buf i) st) x) = b_data (bufs st x)" "iq (brelse (Buf i) st) = iq st" "disk (brelse (Buf i) st) = disk st"
  "basyncnt (brelse (Buf i) st) = basyncnt st" "lbolt (brelse (Buf i) st) = lbolt st"
  using brelse_effect(2,3)[of "Buf i"] unfolding same_block_def same_rest_def by (blast intro: bptr.distinct)+

lemma fl_notavail [simp]: "fl (notavail (Buf i) st) j = (if j = i then fl st i \<union> {B_BUSY} else fl st j)"
  by (simp add: notavail_effect)

lemma fl_rehash [simp]: "flags (rehash p d st) x = flags st x"
  by (simp add: rehash_effect)

lemma async_writes_cong:
  assumes "iq st' = iq st" "\<And>j. j \<in> set (iq st) \<Longrightarrow> B_ASYNC \<in> fl st' j \<longleftrightarrow> B_ASYNC \<in> fl st j" "\<And>j. j \<in> set (iq st) \<Longrightarrow> B_READ \<in> fl st' j \<longleftrightarrow> B_READ \<in> fl st j"
  shows "async_writes st' = async_writes st"
  unfolding async_writes_def assms(1) using assms(2,3) by (intro arg_cong[where f = length] filter_cong) auto

lemma content_cong:
  assumes "\<And>j. valid st' j = valid st j" "\<And>j. block st' j = block st j" "\<And>j. data st' j = data st j" "\<And>x. disk st' x = disk st x"
  shows "content c st' = content c st"
proof
  fix x
  show "content c st' x = content c st x" unfolding content_def by (simp only: assms)
qed

text \<open>Changes that concern neither buffers nor disk.\<close>

lemma cache_same:
  assumes s: "cache c st A D" and l: "lists c st' A D"
    and e: "\<And>j. fl st' j = fl st j" "\<And>j. block st' j = block st j" "\<And>j. data st' j = data st j" "iq st' = iq st" "disk st' = disk st" "basyncnt st' = basyncnt st"
  shows "cache c st' A D" "content c st' = content c st"
proof -
  have "async_writes st' = async_writes st" by (rule async_writes_cong) (simp_all add: e)
  then show "cache c st' A D"
    using s l unfolding cache_def placed_def single_def tidy_def coherent_def by (simp only: e) blast
  have "valid st' = valid st" unfolding valid_def fun_eq_iff by (simp only: e) simp
  then show "content c st' = content c st" unfolding content_def fun_eq_iff by (simp only: e) simp
qed

section \<open>Marking and taking buffers\<close>

lemma mark_ok:
  assumes s: "cache c st A D" and i: "i < v_buf c" "B_BUSY \<in> fl st i" and x: "x = B_WANTED \<or> x = B_ASYNC \<and> i \<notin> set (iq st)"
  shows "cache c (set_flags (Buf i) (fl st i \<union> {x}) st) A D" "content c (set_flags (Buf i) (fl st i \<union> {x}) st) = content c st"
proof -
  let ?s = "set_flags (Buf i) (fl st i \<union> {x}) st"
  note T = cacheD(4)[OF s]
  have f: "fl ?s j = (if j = i then fl st i \<union> {x} else fl st j)" for j by simp
  have "flags_ok (fl st i \<union> {x})" using tidyD(1)[OF T i(1)] i(2) x unfolding flags_ok_def by auto
  moreover have "async_writes ?s = async_writes st" using x by (intro async_writes_cong) auto
  moreover have "lists c ?s A D" using cacheD(1)[OF s] by (subst lists_cong[of _ st]) auto
  ultimately show "cache c ?s A D"
  proof (intro cache_change[OF s i(1) _ f, where Q = "i \<in> set (iq st)"])
    assume "fst (block st i) \<noteq> NODEV" "B_STALE \<notin> fl st i \<union> {x}" "B_ERROR \<notin> fl st i \<union> {x}" "B_DONE \<in> fl st i \<union> {x}" "B_DELWRI \<notin> fl st i \<union> {x}"
    then show "disk ?s (block st i) = data ?s i" using cacheD(5)[OF s] i(1) x unfolding coherent_def by auto
  qed (use tidyD[OF T] i x placedD(1)[OF cacheD(2)[OF s]] in auto)
  have v: "valid ?s j = valid st j" for j using x by (cases "j = i") (auto simp: valid_def)
  show "content c ?s = content c st" by (rule content_cong[OF v]) auto
qed

lemma want_free_ok:
  assumes s: "cache c st A D"
  shows "cache c (set_flags Free F st) A D" "content c (set_flags Free F st) = content c st"
proof -
  have "lists c (set_flags Free F st) A D" using cacheD(1)[OF s] by (subst lists_cong[of _ st]) auto
  from cache_same[OF s this] show "cache c (set_flags Free F st) A D" "content c (set_flags Free F st) = content c st" by simp_all
qed

lemma grab_ok:
  assumes s: "cache c st (us @ i # vs) D" and st: "B_STALE \<notin> fl st i"
  shows "cache c (notavail (Buf i) st) (us @ vs) D" "content c (notavail (Buf i) st) = content c st"
proof -
  let ?s = "notavail (Buf i) st"
  note T = cacheD(4)[OF s] and P = placedD(1)[OF cacheD(2)[OF s]]
  have i: "i < v_buf c" "B_BUSY \<notin> fl st i" using P[of i] by auto
  have q: "i \<notin> set (iq st)" using tidyD(4)[OF T] i(2) by blast
  have d: "distinct (us @ i # vs)" using lists_distinct[OF cacheD(1)[OF s]] .
  have f: "fl ?s j = (if j = i then fl st i \<union> {B_BUSY} else fl st j)" for j by simp
  have F: "flags_ok (fl st i \<union> {B_BUSY})" using tidyD(1)[OF T i(1)] i(2) st unfolding flags_ok_def by auto
  have aw: "async_writes ?s = async_writes st" using q by (intro async_writes_cong) auto
  show "cache c ?s (us @ vs) D"
  proof (rule cache_change[OF s i(1) notavail_lists[OF cacheD(1)[OF s]] f, where Q = False])
    assume "fst (block st i) \<noteq> NODEV" "B_STALE \<notin> fl st i \<union> {B_BUSY}" "B_ERROR \<notin> fl st i \<union> {B_BUSY}" "B_DONE \<in> fl st i \<union> {B_BUSY}" "B_DELWRI \<notin> fl st i \<union> {B_BUSY}"
    then show "disk ?s (block st i) = data ?s i" using cacheD(5)[OF s] i(1) unfolding coherent_def by auto
  qed (use F aw d i st tidyD[OF T] q in auto)
  have v: "valid ?s j = valid st j" for j by (auto simp: valid_def)
  show "content c ?s = content c st" by (rule content_cong[OF v]) auto
qed

section \<open>Starting transfers\<close>

text \<open>The holder of a buffer stores into it.\<close>

definition store :: "nat \<Rightarrow> 'd \<Rightarrow> 'd bio \<Rightarrow> 'd bio" where
  "store i v st = upd_buf (Buf i) (\<lambda>b. b\<lparr>b_data := v\<rparr>) st"

definition held :: "conf \<Rightarrow> 'd bio \<Rightarrow> nat \<Rightarrow> bool" where
  "held c st i \<longleftrightarrow> i < v_buf c \<and> B_BUSY \<in> fl st i \<and> i \<notin> set (iq st)"

lemma content_put:
  assumes s: "single c st'" and i: "i < v_buf c" and o: "\<And>j. j \<noteq> i \<Longrightarrow> valid st' j = valid st j" "\<And>j. block st' j = block st j"
      "\<And>j. j \<noteq> i \<Longrightarrow> data st' j = data st j" "\<And>x. x \<noteq> block st i \<Longrightarrow> disk st' x = disk st x"
    and v: "valid st' i" "data st' i = v"
  shows "content c st' = (content c st)(block st i := v)"
proof
  fix x
  show "content c st' x = ((content c st)(block st i := v)) x"
  proof (cases "x = block st i")
    case True
    then show ?thesis using content_valid[OF s i] v o(2)[of i] by simp
  next
    case False
    have "valid st' i \<Longrightarrow> block st' i \<noteq> x" "valid st i \<Longrightarrow> block st i \<noteq> x" using False o(2)[of i] by auto
    moreover have "disk st' x = disk st x" using False o(4) by metis
    ultimately show ?thesis using content_off[of i st' st x c] o(1-3) False by auto
  qed
qed

lemma bwrite_ok:
  assumes s: "cache c st A D" and h: "held c st i" and dv: "fst (block st i) \<noteq> NODEV"
  shows "cache c (snd (bwrite (Buf i) (store i v st))) A D" "content c (snd (bwrite (Buf i) (store i v st))) = (content c st)(block st i := v)"
proof -
  let ?s = "snd (bwrite (Buf i) (store i v st))"
  let ?F = "fl st i - {B_READ, B_DONE, B_ERROR, B_DELWRI}"
  note T = cacheD(4)[OF s] and P = placedD(1)[OF cacheD(2)[OF s]]
  have i: "i < v_buf c" "B_BUSY \<in> fl st i" "i \<notin> set (iq st)" using h by (auto simp: held_def)
  have e: "bufs ?s (Buf j) = (if j = i then (bufs st (Buf i))\<lparr>b_data := v, b_flags := ?F\<rparr> else bufs st (Buf j))"
    "bufs ?s Free = bufs st Free" "bufs ?s (Hbuf k) = bufs st (Hbuf k)"
    "iq ?s = i # iq st" "disk ?s = disk st" for j k
    by (auto simp: bwrite_def Let_def store_def)
  have f: "fl ?s j = (if j = i then ?F else fl st j)" for j by (simp add: e)
  have "filter (\<lambda>j. B_ASYNC \<in> fl ?s j \<and> B_READ \<notin> fl ?s j) (iq st) = filter (\<lambda>j. B_ASYNC \<in> fl st j \<and> B_READ \<notin> fl st j) (iq st)"
    by (rule filter_cong[OF refl]) (use i(3) f in auto)
  then have "async_writes ?s = (if B_ASYNC \<in> fl st i then Suc (async_writes st) else async_writes st)"
    unfolding async_writes_def e(4) by (simp add: f)
  moreover have "basyncnt ?s = (if B_ASYNC \<in> fl st i then basyncnt st + 1 else basyncnt st)"
    by (simp add: bwrite_def Let_def store_def)
  ultimately have cnt: "basyncnt ?s = int (async_writes ?s)" using tidyD(6)[OF T] by simp
  have links: "avf ?s p = avf st p" "avb ?s p = avb st p" "bfw ?s p = bfw st p" "bbk ?s p = bbk st p" for p
    by (cases p; simp add: e)+
  have l: "lists c ?s A D" using cacheD(1)[OF s] lists_cong[OF links, of c A D] e(2) by simp
  have F: "flags_ok ?F" using tidyD(1)[OF T i(1)] i(2) unfolding flags_ok_def by auto
  show s': "cache c ?s A D"
    by (rule cache_change[OF s i(1) l f, where Q = True]) (use F cnt i dv tidyD[OF T] P flags_okD(4)[OF tidyD(1)[OF T i(1)]] e in auto)
  show "content c ?s = (content c st)(block st i := v)"
  proof (rule content_put[OF cacheD(3)[OF s'] i(1)])
    show "valid ?s i"
      using dv i(2) flags_okD(4)[OF tidyD(1)[OF T i(1)]] unfolding valid_def f e by auto
    show "valid ?s j = valid st j" if "j \<noteq> i" for j using that unfolding valid_def f e by simp
  qed (auto simp: e)
qed

text \<open>Storing what is there changes nothing, so the lemma holds for a write of the present data too.\<close>

lemma store_same: "store i (data st i) st = st"
  by (simp add: store_def upd_buf_def)

lemma put_same: "single c st \<Longrightarrow> i < v_buf c \<Longrightarrow> valid st i \<Longrightarrow> (content c st)(block st i := data st i) = content c st"
  using content_valid[of c st i] by auto

lemma start_read_ok:
  assumes s: "cache c st A D" and h: "held c st i" and dv: "fst (block st i) \<noteq> NODEV" and nd: "B_DONE \<notin> fl st i"
  shows "cache c (start_read async n (Buf i) st) A D" "content c (start_read async n (Buf i) st) = content c st"
proof -
  let ?s = "start_read async n (Buf i) st"
  let ?F = "fl st i \<union> (if async then {B_READ, B_ASYNC} else {B_READ})"
  note T = cacheD(4)[OF s] and P = placedD(1)[OF cacheD(2)[OF s]]
  have i: "i < v_buf c" "B_BUSY \<in> fl st i" "i \<notin> set (iq st)" using h by (auto simp: held_def)
  have e: "bufs ?s (Buf j) = (if j = i then (bufs st (Buf i))\<lparr>b_flags := ?F, b_bcount := n\<rparr> else bufs st (Buf j))"
    "bufs ?s Free = bufs st Free" "bufs ?s (Hbuf k) = bufs st (Hbuf k)" "iq ?s = i # iq st" "disk ?s = disk st" "basyncnt ?s = basyncnt st" for j k
    by (auto simp: start_read_def)
  have f: "fl ?s j = (if j = i then ?F else fl st j)" for j by (simp add: e)
  have "filter (\<lambda>j. B_ASYNC \<in> fl ?s j \<and> B_READ \<notin> fl ?s j) (iq st) = filter (\<lambda>j. B_ASYNC \<in> fl st j \<and> B_READ \<notin> fl st j) (iq st)"
    by (rule filter_cong[OF refl]) (use i(3) f in auto)
  then have cnt: "basyncnt ?s = int (async_writes ?s)" using tidyD(6)[OF T] by (simp add: async_writes_def e(4,6) f)
  have links: "avf ?s p = avf st p" "avb ?s p = avb st p" "bfw ?s p = bfw st p" "bbk ?s p = bbk st p" for p
    by (cases p; simp add: e)+
  have l: "lists c ?s A D" using cacheD(1)[OF s] lists_cong[OF links, of c A D] e(2) by simp
  have F: "flags_ok ?F" using tidyD(1)[OF T i(1)] i(2) unfolding flags_ok_def by auto
  have nf: "B_ERROR \<notin> fl st i" "B_DELWRI \<notin> fl st i" using flags_okD(6,7)[OF tidyD(1)[OF T i(1)]] nd by blast+
  show "cache c ?s A D"
    by (rule cache_change[OF s i(1) l f, where Q = True]) (use F cnt i nd dv tidyD[OF T] P e in \<open>auto split: if_splits\<close>)
  have v: "valid ?s j = valid st j" for j using nd i(3) unfolding valid_def f e by (cases "j = i") auto
  show "content c ?s = content c st" by (rule content_cong[OF v]) (auto simp: e)
qed

lemma store_invalid_ok:
  assumes s: "cache c st A D" and h: "held c st i" and nd: "B_DONE \<notin> fl st i"
  shows "cache c (store i v st) A D" "content c (store i v st) = content c st"
proof -
  let ?s = "store i v st"
  note T = cacheD(4)[OF s] and P = placedD(1)[OF cacheD(2)[OF s]]
  have i: "i < v_buf c" "B_BUSY \<in> fl st i" "i \<notin> set (iq st)" using h by (auto simp: held_def)
  have f: "fl ?s j = (if j = i then fl st i else fl st j)" for j by (simp add: store_def)
  have l: "lists c ?s A D" using cacheD(1)[OF s] by (subst lists_cong[of _ st]) (auto simp: store_def)
  have cnt: "basyncnt ?s = int (async_writes ?s)" using tidyD(6)[OF T] async_writes_cong[of ?s st] f by (simp add: store_def)
  show "cache c ?s A D"
    by (rule cache_change[OF s i(1) l f, where Q = False]) (use cnt i nd tidyD[OF T] P in \<open>auto simp: store_def\<close>)
  have v: "valid ?s j = valid st j" for j unfolding valid_def f by (simp add: store_def)
  have iv: "\<not> valid st i" using nd i(3) by (simp add: valid_def)
  show "content c ?s = content c st"
  proof
    fix x
    show "content c ?s x = content c st x" by (rule content_off[of i]) (use v iv in \<open>auto simp: store_def\<close>)
  qed
qed

section \<open>Releasing buffers\<close>

lemma brelse_ok:
  assumes s: "cache c st A D" and h: "held c st i"
  shows "\<exists>A'. cache c (brelse (Buf i) st) A' D" "content c (brelse (Buf i) st) = content c st"
proof -
  let ?s = "brelse (Buf i) st"
  let ?F = "(if B_ERROR \<in> fl st i then fl st i \<union> {B_STALE} - {B_ERROR, B_DELWRI} else fl st i) - {B_WANTED, B_BUSY, B_ASYNC, B_AGE}"
  note T = cacheD(4)[OF s] and P = placedD(1)[OF cacheD(2)[OF s]]
  have i: "i < v_buf c" "B_BUSY \<in> fl st i" "i \<notin> set (iq st)" using h by (auto simp: held_def)
  have f: "fl ?s j = (if j = i then ?F else fl st j)" for j using brelse_effect(1)[of "Buf i" st "Buf j"] by simp
  have iA: "i \<notin> set A" using P[of i] i(2) by simp
  obtain A' where l: "lists c ?s A' D" "A' = i # A \<or> A' = A @ [i]" by (rule brelse_lists[OF cacheD(1)[OF s] iA])
  have ns: "B_STALE \<notin> fl st i" using flags_okD(4)[OF tidyD(1)[OF T i(1)] i(2)] .
  have F: "flags_ok ?F" using tidyD(1)[OF T i(1)] i(2) ns unfolding flags_ok_def by auto
  have "async_writes ?s = async_writes st" by (rule async_writes_cong) (use f i(3) in auto)
  then have cnt: "basyncnt ?s = int (async_writes ?s)" using tidyD(6)[OF T] by simp
  have nb: "B_BUSY \<notin> ?F" by simp
  have coh: "disk ?s (block st i) = data ?s i"
    if "fst (block st i) \<noteq> NODEV" "B_STALE \<notin> ?F" "B_ERROR \<notin> ?F" "B_DONE \<in> ?F" "B_DELWRI \<notin> ?F"
  proof -
    have "B_ERROR \<notin> fl st i" "B_DONE \<in> fl st i" "B_DELWRI \<notin> fl st i" using that(2,4,5) by (auto split: if_splits)
    then show ?thesis using cacheD(5)[OF s] i(1) ns that(1) unfolding coherent_def by simp
  qed
  have "cache c ?s A' D"
    by (rule cache_change[OF s i(1) l(1) f, where Q = False]) (use F cnt i ns nb coh l(2) tidyD(2,8)[OF T] in \<open>auto split: if_splits\<close>)
  then show "\<exists>A'. cache c ?s A' D" by blast
  have v: "valid ?s j = valid st j" for j using ns i(3) unfolding valid_def f by (cases "j = i") auto
  show "content c ?s = content c st" by (rule content_cong[OF v]) auto
qed

text \<open>The delayed write: the buffer is marked, with the new data in it, then released.\<close>

definition delay :: "nat \<Rightarrow> 'd \<Rightarrow> 'd bio \<Rightarrow> 'd bio" where
  "delay i v st =
     (let st' = store i v st;
          st' = (if B_DELWRI \<notin> flags st' (Buf i) then upd_buf (Buf i) (\<lambda>b. b\<lparr>b_start := lbolt st'\<rparr>) st' else st')
      in upd_buf (Buf i) (\<lambda>b. b\<lparr>b_flags := b_flags b \<union> {B_DELWRI, B_DONE}, b_resid := 0\<rparr>) st')"

lemma bdwrite_delay: "bdwrite (Buf i) (store i v st) = brelse (Buf i) (delay i v st)"
  by (simp add: bdwrite_def delay_def Let_def)

lemma delay_ok:
  assumes s: "cache c st A D" and h: "held c st i" and dv: "fst (block st i) \<noteq> NODEV" and ne: "B_ERROR \<notin> fl st i"
  shows "cache c (delay i v st) A D" "content c (delay i v st) = (content c st)(block st i := v)" "held c (delay i v st) i"
proof -
  let ?s = "delay i v st"
  let ?F = "fl st i \<union> {B_DELWRI, B_DONE}"
  note T = cacheD(4)[OF s] and P = placedD(1)[OF cacheD(2)[OF s]]
  have i: "i < v_buf c" "B_BUSY \<in> fl st i" "i \<notin> set (iq st)" using h by (auto simp: held_def)
  have e: "fl ?s j = (if j = i then ?F else fl st j)" "block ?s j = block st j" "data ?s j = (if j = i then v else data st j)"
    "iq ?s = iq st" "disk ?s = disk st" "basyncnt ?s = basyncnt st" for j
    by (auto simp: delay_def store_def Let_def)
  have l: "lists c ?s A D" using cacheD(1)[OF s] by (subst lists_cong[of _ st]) (auto simp: delay_def store_def Let_def)
  have ns: "B_STALE \<notin> fl st i" using flags_okD(4)[OF tidyD(1)[OF T i(1)] i(2)] .
  have F: "flags_ok ?F" using tidyD(1)[OF T i(1)] i(2) ns unfolding flags_ok_def by auto
  have cnt: "basyncnt ?s = int (async_writes ?s)" using tidyD(6)[OF T] async_writes_cong[of ?s st] e by auto
  show s': "cache c ?s A D"
    by (rule cache_change[OF s i(1) l e(1), where Q = False]) (use F cnt i ns dv tidyD(2)[OF T] P e in auto)
  show "content c ?s = (content c st)(block st i := v)"
  proof (rule content_put[OF cacheD(3)[OF s'] i(1)])
    show "valid ?s i" using dv ns ne unfolding valid_def e by simp
    show "valid ?s j = valid st j" if "j \<noteq> i" for j using that unfolding valid_def e by simp
  qed (auto simp: e)
  show "held c ?s i" using i by (simp add: held_def e)
qed

lemma bdwrite_ok:
  assumes s: "cache c st A D" and h: "held c st i" and dv: "fst (block st i) \<noteq> NODEV" and ne: "B_ERROR \<notin> fl st i"
  shows "\<exists>A'. cache c (bdwrite (Buf i) (store i v st)) A' D" "content c (bdwrite (Buf i) (store i v st)) = (content c st)(block st i := v)"
  using brelse_ok[OF delay_ok(1,3)[OF assms]] delay_ok(2)[OF assms] unfolding bdwrite_delay by simp_all

lemma bawrite_ok:
  assumes s: "cache c st A D" and h: "held c st i" and dv: "fst (block st i) \<noteq> NODEV"
  shows "cache c (snd (bawrite (Buf i) (store i v st))) A D" "content c (snd (bawrite (Buf i) (store i v st))) = (content c st)(block st i := v)"
proof -
  let ?m = "set_flags (Buf i) (fl st i \<union> {B_ASYNC}) st"
  have i: "i < v_buf c" "B_BUSY \<in> fl st i" "i \<notin> set (iq st)" using h by (auto simp: held_def)
  have m: "cache c ?m A D" "content c ?m = content c st" using mark_ok[OF s i(1,2), of B_ASYNC] i(3) by auto
  have hm: "held c ?m i" "fst (block ?m i) \<noteq> NODEV" using i dv by (simp_all add: held_def)
  have pm: "block ?m i = block st i" by simp
  have e: "set_flags (Buf i) (fl (store i v st) i \<union> {B_ASYNC}) (store i v st) = store i v ?m"
  proof -
    have c: "upd_buf p f (upd_buf p g st) = upd_buf p (\<lambda>b. f (g b)) st" for p and f g :: "'a buf \<Rightarrow> 'a buf" by (simp add: upd_buf_def)
    have "(\<lambda>b :: 'a buf. b\<lparr>b_data := v, b_flags := F\<rparr>) = (\<lambda>b. b\<lparr>b_flags := F, b_data := v\<rparr>)" for F by (rule ext) simp
    then show ?thesis unfolding set_flags_def store_def c by simp
  qed
  show "cache c (snd (bawrite (Buf i) (store i v st))) A D" "content c (snd (bawrite (Buf i) (store i v st))) = (content c st)(block st i := v)"
    unfolding bawrite_def e using bwrite_ok[OF s h dv, of v] bwrite_ok[OF m(1) hm, of v] m(2) pm by simp_all
qed

section \<open>The end of a transfer\<close>

lemma filter_removeAll: "distinct xs \<Longrightarrow> x \<in> set xs \<Longrightarrow>
    length (filter P xs) = length (filter P (removeAll x xs)) + (if P x then 1 else 0)"
proof (induction xs)
  case (Cons y xs)
  then show ?case by (cases "y = x") (auto simp: removeAll_id)
qed simp

text \<open>The state before the buffer is released, or handed to the process that waits for it.\<close>

definition ended :: "nat \<Rightarrow> nat \<Rightarrow> 'd bio \<Rightarrow> 'd bio" where
  "ended err i st =
     (let b = bufs st (Buf i);
          st = st\<lparr>iq := removeAll i (iq st)\<rparr>;
          st = (if err \<noteq> 0 then upd_buf (Buf i) (\<lambda>b. b\<lparr>b_flags := b_flags b \<union> {B_ERROR}, b_error := err\<rparr>) st
                else if B_READ \<in> b_flags b then upd_buf (Buf i) (\<lambda>x. x\<lparr>b_data := disk st (b_dev b, b_blkno b)\<rparr>) st
                else st\<lparr>disk := (disk st)((b_dev b, b_blkno b) := b_data b)\<rparr>);
          st = set_flags (Buf i) (fl st i \<union> {B_DONE}) st
      in if B_ASYNC \<in> b_flags b then
           let st = (if B_READ \<notin> b_flags b then st\<lparr>basyncnt := basyncnt st - 1\<rparr> else st)
           in if basyncnt st = 0 \<and> basynwait st then wake OnAsync (st\<lparr>basynwait := False\<rparr>) else st
         else set_flags (Buf i) (fl st i - {B_WANTED}) st)"

lemma complete_ended:
  "complete err i st = (if B_ASYNC \<in> fl st i then brelse (Buf i) (ended err i st) else wake (OnBuf (Buf i)) (ended err i st))"
  by (auto simp: complete_def ended_def iodone_def Let_def)

lemma ended_ok:
  assumes s: "cache c st A D" and q: "i \<in> set (iq st)"
  shows "cache c (ended err i st) A D" "held c (ended err i st) i"
    "err = 0 \<or> B_READ \<in> fl st i \<Longrightarrow> content c (ended err i st) = content c st"
    "x \<noteq> block st i \<Longrightarrow> content c (ended err i st) x = content c st x"
proof -
  let ?s = "ended err i st"
  let ?F = "(fl st i \<union> (if err \<noteq> 0 then {B_ERROR} else {}) \<union> {B_DONE}) - (if B_ASYNC \<in> fl st i then {} else {B_WANTED})"
  let ?d = "if err = 0 \<and> B_READ \<notin> fl st i then (disk st)(block st i := data st i) else disk st"
  note T = cacheD(4)[OF s] and P = placedD(1)[OF cacheD(2)[OF s]]
  have i: "i < v_buf c" "B_BUSY \<in> fl st i" "B_DONE \<notin> fl st i" "fst (block st i) \<noteq> NODEV" using tidyD(3-5,7)[OF T q] by blast+
  note fo = flags_okD[OF tidyD(1)[OF T i(1)]]
  have n: "B_STALE \<notin> fl st i" "B_ERROR \<notin> fl st i" "B_DELWRI \<notin> fl st i" using fo(4,6,7) i(2,3) by blast+
  have e: "fl ?s j = (if j = i then ?F else fl st j)" "block ?s j = block st j"
    "data ?s j = (if j = i \<and> err = 0 \<and> B_READ \<in> fl st i then disk st (block st i) else data st j)"
    "iq ?s = removeAll i (iq st)" "disk ?s = ?d"
    "basyncnt ?s = basyncnt st - (if B_ASYNC \<in> fl st i \<and> B_READ \<notin> fl st i then 1 else 0)" for j
    by (auto simp: ended_def Let_def)
  have l: "lists c ?s A D" using cacheD(1)[OF s] by (subst lists_cong[of _ st]) (auto simp: ended_def Let_def)
  have "filter (\<lambda>j. B_ASYNC \<in> fl ?s j \<and> B_READ \<notin> fl ?s j) (removeAll i (iq st)) = filter (\<lambda>j. B_ASYNC \<in> fl st j \<and> B_READ \<notin> fl st j) (removeAll i (iq st))"
    by (rule filter_cong[OF refl]) (simp add: e(1))
  then have cnt: "basyncnt ?s = int (async_writes ?s)"
    using tidyD(6)[OF T] filter_removeAll[OF tidyD(2)[OF T] q, of "\<lambda>j. B_ASYNC \<in> fl st j \<and> B_READ \<notin> fl st j"]
    by (simp add: async_writes_def e(4,6))
  have F: "flags_ok ?F" using i(2) n unfolding flags_ok_def by auto
  have dk: "\<And>x. disk ?s x \<noteq> disk st x \<Longrightarrow> x = block st i \<and> B_STALE \<notin> fl st i" using n(1) unfolding e(5) by (auto split: if_splits)
  have coh: "disk ?s (block st i) = data ?s i" if "B_ERROR \<notin> ?F" using that unfolding e by (auto split: if_splits)
  show s': "cache c ?s A D"
  proof (rule cache_change[OF s i(1) l e(1,2), where Q = False])
    show "distinct (iq ?s)" "\<And>j. (j \<in> set (iq ?s)) = (if j = i then False else j \<in> set (iq st))" using tidyD(2)[OF T] by (auto simp: e(4) distinct_removeAll)
    show "\<And>j. j \<in> set A \<longleftrightarrow> (if j = i then B_BUSY \<notin> ?F else j \<in> set A)" using P[of i] i(2) by auto
  qed (use F cnt coh dk n i(4) in \<open>auto simp: e(3)\<close>)
  show "held c ?s i" using i(1,2) by (simp add: held_def e(1,4))
  have v: "valid ?s j = valid st j" if "j \<noteq> i" for j using that unfolding valid_def e(1,2,4) by simp
  show off: "content c ?s x = content c st x" if "x \<noteq> block st i" for x
    by (rule content_off[of i]) (use that v e(2,3,5) in auto)
  show "content c ?s = content c st" if "err = 0 \<or> B_READ \<in> fl st i"
  proof
    fix x
    show "content c ?s x = content c st x"
    proof (cases "x = block st i")
      case False
      then show ?thesis by (rule off)
    next
      case x: True
      show ?thesis
      proof (cases "B_READ \<in> fl st i")
        case True
        have none: "block st j \<noteq> x" if "j < v_buf c" "valid st j" for j
        proof
          assume b: "block st j = x"
          have "j = i" by (rule singleD[OF cacheD(3)[OF s] that(1) i(1)]) (use that(2) n(1) b x in \<open>auto simp: valid_def\<close>)
          then show False using that(2) True i(3) by (simp add: valid_def)
        qed
        then have c1: "content c st x = disk st x" by (rule content_disk)
        show ?thesis
        proof (cases "err = 0")
          case True
          then have "valid ?s i" using n(1,2) i(4) unfolding valid_def e(1,2) by auto
          then have "content c ?s (block ?s i) = data ?s i" by (rule content_valid[OF cacheD(3)[OF s'] i(1)])
          then show ?thesis unfolding e(2,3) using c1 x True \<open>B_READ \<in> fl st i\<close> by simp
        next
          case False
          have "\<not> valid ?s i" using False unfolding valid_def e(1) by simp
          then have "content c ?s x = disk ?s x" using none v by (intro content_disk) (metis e(2))
          then show ?thesis using c1 False by (simp add: e(5))
        qed
      next
        case False
        then have z: "err = 0" using that by simp
        have "valid st i" using n i(4) q False by (simp add: valid_def)
        then have "content c st (block st i) = data st i" by (rule content_valid[OF cacheD(3)[OF s] i(1)])
        moreover have "valid ?s i" using n(1,2) i(4) z unfolding valid_def e(1,2) by auto
        then have "content c ?s (block ?s i) = data ?s i" by (rule content_valid[OF cacheD(3)[OF s'] i(1)])
        ultimately show ?thesis unfolding e(2,3) using x False by simp
      qed
    qed
  qed
qed

lemma complete_ok:
  assumes s: "cache c st A D" and q: "i \<in> set (iq st)"
  shows "\<exists>A'. cache c (complete err i st) A' D"
    "err = 0 \<or> B_READ \<in> fl st i \<Longrightarrow> content c (complete err i st) = content c st"
    "x \<noteq> block st i \<Longrightarrow> content c (complete err i st) x = content c st x"
proof -
  note E = ended_ok[OF s q, where err = err]
  note R = brelse_ok[OF E(1,2)]
  have w: "cache c (wake w st') A' D' \<longleftrightarrow> cache c st' A' D'" for w and st' :: "'a bio" and A' D'
    by (simp add: cache_def lists_def placed_def single_def tidy_def coherent_def async_writes_def)
  have w2: "content c (wake w st') = content c st'" for w and st' :: "'a bio" by (rule content_cong) (simp_all add: valid_def)
  show "\<exists>A'. cache c (complete err i st) A' D" unfolding complete_ended using R(1) E(1) w by auto
  show "err = 0 \<or> B_READ \<in> fl st i \<Longrightarrow> content c (complete err i st) = content c st" unfolding complete_ended using E(3) R(2) w2 by auto
  show "x \<noteq> block st i \<Longrightarrow> content c (complete err i st) x = content c st x" unfolding complete_ended using E(4) R(2) w2 by auto
qed

end
