(* ===== verification/Bio_Get.thy ===== *)
theory Bio_Get
  imports Bio_Ops
begin

text \<open>Finding buffers and assigning them to blocks: \<^verbatim>\<open>getblk\<close>, \<^verbatim>\<open>geteblk\<close> and the reads on top of them.\<close>

section \<open>The search\<close>

abbreviation matches :: "'d bio \<Rightarrow> int \<times> int \<Rightarrow> nat \<Rightarrow> bool" where
  "matches st x j \<equiv> block st j = x \<and> B_STALE \<notin> fl st j"

lemma hsearch_from:
  assumes r: "ring (bfw st) (bbk st) h (map Buf L)"
  shows "L = us @ vs \<Longrightarrow> hsearch h (hd (map Buf vs @ [h])) dev blk st = Some (map_option Buf (find (matches st (dev, blk)) vs))"
proof (induction vs arbitrary: us)
  case Nil
  then show ?case by (subst hsearch.simps) simp
next
  case (Cons v vs)
  have "map Buf L = map Buf us @ Buf v # map Buf vs" using Cons.prems by simp
  then have n: "bfw st (Buf v) = hd (map Buf vs @ [h])" using ring_around(2)[of "bfw st" "bbk st" h "map Buf us" "Buf v" "map Buf vs"] r by simp
  have ne: "Buf v \<noteq> h" using r Cons.prems by (auto simp: ring_def)
  have "L = (us @ [v]) @ vs" using Cons.prems by simp
  note IH = Cons.IH[OF this]
  show ?case by (subst hsearch.simps) (use ne n IH in auto)
qed

lemma hsearch_ok:
  assumes "ring (bfw st) (bbk st) h (map Buf L)"
  shows "hsearch h (bfw st h) dev blk st = Some (map_option Buf (find (matches st (dev, blk)) L))"
proof -
  have "bfw st h = hd (map Buf L @ [h])" using ring_first[OF assms] by (cases L) auto
  then show ?thesis using hsearch_from[OF assms, of "[]" L] by simp
qed

text \<open>On the hash chain of a block: the buffer that holds it, if any does.\<close>

lemma hash_find:
  fixes blk :: int
  assumes s: "cache c st A D" and d: "dev \<noteq> NODEV"
  defines "h \<equiv> Hbuf (bhash c dev blk)"
  obtains (found) i where "hsearch h (bfw st h) dev blk st = Some (Some (Buf i))" "i < v_buf c" "block st i = (dev, blk)" "B_STALE \<notin> fl st i"
    | (none) "hsearch h (bfw st h) dev blk st = Some None" "\<And>j. j < v_buf c \<Longrightarrow> B_STALE \<notin> fl st j \<Longrightarrow> block st j \<noteq> (dev, blk)"
proof -
  have hh: "h = home c (dev, blk)" using d by (simp add: h_def home_def)
  then have hd: "h \<in> heads c" using home_heads by simp
  note H = hsearch_ok[OF ringsD(1)[OF listsD(2)[OF cacheD(1)[OF s]] hd], of dev blk]
  note P = placedD(2)[OF cacheD(2)[OF s] hd]
  show thesis
  proof (cases "find (matches st (dev, blk)) (D h)")
    case None
    have "block st j \<noteq> (dev, blk)" if "j < v_buf c" "B_STALE \<notin> fl st j" for j
    proof
      assume b: "block st j = (dev, blk)"
      then have "j \<in> set (D h)" using P[of j] that(1) hh by simp
      then show False using None b that(2) by (auto simp: find_None_iff)
    qed
    then show thesis using none H None by simp
  next
    case (Some i)
    then have "i \<in> set (D h)" "matches st (dev, blk) i" by (auto simp: find_Some_iff)
    then show thesis using found[of i] H Some P[of i] by auto
  qed
qed

section \<open>Writing a delayed block\<close>

lemma clean_ok:
  assumes s: "cache c st (us @ i # vs) D" and d: "B_DELWRI \<in> fl st i" and l: "lists c st' (us @ vs) D"
    and e: "\<And>j. fl st' j = (if j = i then (fl st i \<union> {B_BUSY, B_ASYNC}) - {B_READ, B_DONE, B_ERROR, B_DELWRI} else fl st j)"
      "\<And>j. block st' j = block st j" "\<And>j. data st' j = data st j" "iq st' = i # iq st" "disk st' = disk st" "basyncnt st' = basyncnt st + 1"
  shows "cache c st' (us @ vs) D" "content c st' = content c st"
proof -
  let ?F = "(fl st i \<union> {B_BUSY, B_ASYNC}) - {B_READ, B_DONE, B_ERROR, B_DELWRI}"
  note T = cacheD(4)[OF s] and P = placedD(1)[OF cacheD(2)[OF s]]
  have i: "i < v_buf c" "B_BUSY \<notin> fl st i" using P[of i] by auto
  have q: "i \<notin> set (iq st)" using tidyD(4)[OF T] i(2) by blast
  have ds: "distinct (us @ i # vs)" using lists_distinct[OF cacheD(1)[OF s]] .
  note fo = flags_okD[OF tidyD(1)[OF T i(1)]]
  have n: "B_STALE \<notin> fl st i" "B_DONE \<in> fl st i" "B_ERROR \<notin> fl st i" using fo(3,5,6) d i(2) by blast+
  have dv: "fst (block st i) \<noteq> NODEV" using tidyD(8)[OF T i(1) d] .
  have "filter (\<lambda>j. B_ASYNC \<in> fl st' j \<and> B_READ \<notin> fl st' j) (iq st) = filter (\<lambda>j. B_ASYNC \<in> fl st j \<and> B_READ \<notin> fl st j) (iq st)"
    by (rule filter_cong[OF refl]) (use q in \<open>auto simp: e(1)\<close>)
  then have "async_writes st' = Suc (async_writes st)" unfolding async_writes_def e(4) by (simp add: e(1))
  then have cnt: "basyncnt st' = int (async_writes st')" using tidyD(6)[OF T] e(6) by simp
  have F: "flags_ok ?F" using n unfolding flags_ok_def by auto
  show "cache c st' (us @ vs) D"
    by (rule cache_change[OF s i(1) l e(1), where Q = True]) (use F cnt n dv ds q tidyD(2)[OF T] e in auto)
  have v: "valid st' j = valid st j" for j using n dv unfolding valid_def e(1,2,4) by (cases "j = i") auto
  show "content c st' = content c st" by (rule content_cong[OF v]) (simp_all add: e)
qed

lemma clean_getblk:
  assumes s: "cache c st (us @ i # vs) D" and d: "B_DELWRI \<in> fl st i"
  defines "st' \<equiv> snd (bwrite (Buf i) (set_flags (Buf i) (fl (notavail (Buf i) st) i \<union> {B_ASYNC}) (notavail (Buf i) st)))"
  shows "cache c st' (us @ vs) D" "content c st' = content c st"
proof -
  have "lists c st' (us @ vs) D"
    using notavail_lists[OF cacheD(1)[OF s]] by (subst lists_cong[of _ "notavail (Buf i) st"]) (auto simp: st'_def bwrite_def Let_def)
  moreover have "fl st' j = (if j = i then (fl st i \<union> {B_BUSY, B_ASYNC}) - {B_READ, B_DONE, B_ERROR, B_DELWRI} else fl st j)"
    "block st' j = block st j" "data st' j = data st j" "iq st' = i # iq st" "disk st' = disk st" "basyncnt st' = basyncnt st + 1" for j
    by (auto simp: st'_def bwrite_def Let_def)
  ultimately show "cache c st' (us @ vs) D" "content c st' = content c st" by (rule clean_ok[OF s d])+
qed

lemma clean_flush:
  assumes s: "cache c st (us @ i # vs) D" and d: "B_DELWRI \<in> fl st i"
  defines "st' \<equiv> snd (bwrite (Buf i) (notavail (Buf i) (set_flags (Buf i) (fl st i \<union> {B_ASYNC}) st)))"
  shows "cache c st' (us @ vs) D" "content c st' = content c st"
proof -
  let ?m = "set_flags (Buf i) (fl st i \<union> {B_ASYNC}) st"
  have m: "lists c ?m (us @ i # vs) D" using cacheD(1)[OF s] by (subst lists_cong[of _ st]) auto
  have "lists c st' (us @ vs) D"
    using notavail_lists[OF m] by (subst lists_cong[of _ "notavail (Buf i) ?m"]) (auto simp: st'_def bwrite_def Let_def)
  moreover have "fl st' j = (if j = i then (fl st i \<union> {B_BUSY, B_ASYNC}) - {B_READ, B_DONE, B_ERROR, B_DELWRI} else fl st j)"
    "block st' j = block st j" "data st' j = data st j" "iq st' = i # iq st" "disk st' = disk st" "basyncnt st' = basyncnt st + 1" for j
    by (auto simp: st'_def bwrite_def Let_def)
  ultimately show "cache c st' (us @ vs) D" "content c st' = content c st" by (rule clean_ok[OF s d])+
qed

section \<open>Giving a buffer to another block\<close>

definition assign :: "nat \<Rightarrow> bptr \<Rightarrow> bflag set \<Rightarrow> ('d buf \<Rightarrow> 'd buf) \<Rightarrow> 'd bio \<Rightarrow> 'd bio" where
  "assign i h F f st = upd_buf (Buf i) f (rehash (Buf i) h (set_flags (Buf i) F (notavail (Buf i) st)))"

lemma rehash_home:
  assumes l: "lists c st A D" and P: "\<And>k j. k \<in> heads c \<Longrightarrow> j \<in> set (D k) \<longleftrightarrow> j < v_buf c \<and> home c (b j) = k"
    and i: "i < v_buf c" and h: "h \<in> heads c"
  obtains D' where "lists c (rehash (Buf i) h st) A D'" "\<And>k j. k \<in> heads c \<Longrightarrow> j \<in> set (D' k) \<longleftrightarrow> (if j = i then k = h else j \<in> set (D k))"
proof -
  let ?g = "home c (b i)"
  have gh: "?g \<in> heads c" by (rule home_heads)
  then have "i \<in> set (D ?g)" using P i by simp
  then obtain us vs where D: "D ?g = us @ i # vs" by (auto simp: in_set_conv_decomp)
  have "distinct (map Buf (D ?g))" using ringsD(1)[OF listsD(2)[OF l] gh] by (simp add: ring_def)
  then have d: "i \<notin> set us \<union> set vs" by (auto simp: D distinct_map)
  have o: "i \<notin> set (D k)" if "k \<in> heads c" "k \<noteq> ?g" for k using P[OF that(1), of i] that(2) by auto
  show thesis
  proof (rule that[OF rehash_lists[OF l gh D h o]])
    fix k j
    assume k: "k \<in> heads c"
    show "j \<in> set (((D(?g := us @ vs))(h := i # (D(?g := us @ vs)) h)) k) \<longleftrightarrow> (if j = i then k = h else j \<in> set (D k))"
      using d D o[OF k] o[OF h] by auto
  qed
qed

lemma assign_ok:
  assumes s: "cache c st (us @ i # vs) D" and nd: "B_DELWRI \<notin> fl st i" and F: "F = {B_BUSY} \<or> F = {B_BUSY, B_AGE}"
    and f: "\<And>b. b_flags (f b) = b_flags b" "\<And>b. b_data (f b) = b_data b" "b_dev (f (bufs (rehash (Buf i) h (set_flags (Buf i) F (notavail (Buf i) st))) (Buf i))) = fst x"
      "b_blkno (f (bufs (rehash (Buf i) h (set_flags (Buf i) F (notavail (Buf i) st))) (Buf i))) = snd x"
      "\<And>b. b_forw (f b) = b_forw b" "\<And>b. b_back (f b) = b_back b" "\<And>b. av_forw (f b) = av_forw b" "\<And>b. av_back (f b) = av_back b"
    and h: "h = home c x" and u: "\<And>j. fst x \<noteq> NODEV \<Longrightarrow> j < v_buf c \<Longrightarrow> B_STALE \<notin> fl st j \<Longrightarrow> block st j \<noteq> x"
  shows "\<exists>D'. cache c (assign i h F f st) (us @ vs) D'" "content c (assign i h F f st) = content c st" "held c (assign i h F f st) i"
    "block (assign i h F f st) i = x" "fl (assign i h F f st) i = F"
proof -
  define s1 where "s1 = set_flags (Buf i) F (notavail (Buf i) st)"
  define st' where "st' = assign i h F f st"
  have a: "st' = upd_buf (Buf i) f (rehash (Buf i) h s1)" by (simp add: st'_def assign_def s1_def)
  note T = cacheD(4)[OF s] and P = cacheD(2)[OF s] and S = cacheD(3)[OF s]
  have i: "i < v_buf c" "B_BUSY \<notin> fl st i" using placedD(1)[OF P, of i] by auto
  have q: "i \<notin> set (iq st)" using tidyD(4)[OF T] i(2) by blast
  have ds: "distinct (us @ i # vs)" using lists_distinct[OF cacheD(1)[OF s]] .
  have e: "fl st' j = (if j = i then F else fl st j)" "block st' j = (if j = i then x else block st j)" "data st' j = data st j" "iq st' = iq st"
    "disk st' = disk st" "basyncnt st' = basyncnt st" for j
    using f(1-4) by (auto simp: a s1_def)
  have "lists c s1 (us @ vs) D"
    using notavail_lists[OF cacheD(1)[OF s]] by (subst lists_cong[of _ "notavail (Buf i) st"]) (auto simp: s1_def)
  from rehash_home[OF this, of "block st" i h] obtain D' where
    D': "lists c (rehash (Buf i) h s1) (us @ vs) D'" "\<And>k j. k \<in> heads c \<Longrightarrow> j \<in> set (D' k) \<longleftrightarrow> (if j = i then k = h else j \<in> set (D k))"
    using placedD(2)[OF P] i(1) h home_heads by metis
  have l: "lists c st' (us @ vs) D'"
    using D'(1) by (subst lists_cong[of _ "rehash (Buf i) h s1"]) (auto simp: a f(5-8))
  have pl: "placed c st' (us @ vs) D'" unfolding placed_def
  proof (intro conjI allI ballI)
    fix j
    show "j \<in> set (us @ vs) \<longleftrightarrow> j < v_buf c \<and> B_BUSY \<notin> fl st' j" using placedD(1)[OF P, of j] ds F by (auto simp: e(1))
    fix k
    assume "k \<in> heads c"
    then show "j \<in> set (D' k) \<longleftrightarrow> j < v_buf c \<and> home c (block st' j) = k" using D'(2) placedD(2)[OF P, of k j] h i(1) by (auto simp: e(2))
  qed
  have sg: "single c st'" unfolding single_def
  proof (intro allI impI)
    fix p r
    assume z: "p < v_buf c" "r < v_buf c" "B_STALE \<notin> fl st' p" "B_STALE \<notin> fl st' r" "fst (block st' p) \<noteq> NODEV" "block st' p = block st' r"
    show "p = r"
    proof (cases "p = i \<or> r = i")
      case True
      then show ?thesis using u[of p] u[of r] z by (cases "p = i"; cases "r = i") (auto simp: e)
    next
      case False
      then show ?thesis using singleD[OF S z(1,2)] z(3-) by (simp add: e)
    qed
  qed
  have "async_writes st' = async_writes st" by (rule async_writes_cong) (use q in \<open>auto simp: e\<close>)
  then have td: "tidy c st'" unfolding tidy_def using tidyD[OF T] q F by (auto simp: e flags_ok_def)
  have ch: "coherent c st'" using cacheD(5)[OF s] F unfolding coherent_def e by auto
  show "\<exists>D'. cache c (assign i h F f st) (us @ vs) D'" using l pl sg td ch unfolding cache_def st'_def by blast
  show "held c (assign i h F f st) i" using F i(1) q unfolding held_def st'_def[symmetric] e by auto
  show "block (assign i h F f st) i = x" "fl (assign i h F f st) i = F" unfolding st'_def[symmetric] e by simp_all
  show "content c (assign i h F f st) = content c st" unfolding st'_def[symmetric]
  proof
    fix y
    have v: "valid st' j = valid st j" if "j \<noteq> i" for j using that unfolding valid_def e(1,2,4) by simp
    have nv: "\<not> valid st' i" using F q unfolding valid_def e(1,4) by auto
    show "content c st' y = content c st y"
    proof (cases "valid st i \<and> block st i = y")
      case False
      show ?thesis by (rule content_off[of i]) (use v nv False e in auto)
    next
      case True
      then have "content c st y = data st i" using content_valid[OF S i(1)] by metis
      moreover have "data st i = disk st y" using cacheD(5)[OF s] True i(1) q nd unfolding coherent_def valid_def by auto
      moreover have "content c st' y = disk st' y"
      proof (rule content_disk)
        fix j
        assume j: "j < v_buf c" "valid st' j"
        then have "j \<noteq> i" using nv by blast
        then show "block st' j \<noteq> y" using singleD[OF S i(1) j(1)] True j(2) v unfolding e(2) by (metis valid_def)
      qed
      ultimately show ?thesis by (simp add: e)
    qed
  qed
qed

section \<open>\<^verbatim>\<open>getblk\<close>\<close>

lemma av_first: "lists c st A D \<Longrightarrow> av_forw (bufs st Free) = (case A of [] \<Rightarrow> Free | i # _ \<Rightarrow> Buf i)"
proof -
  assume "lists c st A D"
  from ring_first[OF listsD(1)[OF this]] show ?thesis by (cases A) simp_all
qed

definition new_block :: "int \<Rightarrow> int \<Rightarrow> int \<Rightarrow> 'd buf \<Rightarrow> 'd buf" where
  "new_block dev blk n b = b\<lparr>b_dev := dev, b_blkno := blk, b_bcount := n, b_resid := 0\<rparr>"

text \<open>The outcomes of a turn, and what holds after each.\<close>

lemma getblk_turn_cases:
  fixes blk n :: int
  assumes s: "cache c st A D" and d: "dev \<noteq> NODEV"
  obtains (hit) i us vs where "i < v_buf c" "block st i = (dev, blk)" "B_STALE \<notin> fl st i" "B_BUSY \<notin> fl st i" "A = us @ i # vs"
      "getblk_turn c dev blk n st = Some (Got (Buf i), notavail (Buf i) st)"
    | (busy) i where "i < v_buf c" "block st i = (dev, blk)" "B_STALE \<notin> fl st i" "B_BUSY \<in> fl st i"
      "getblk_turn c dev blk n st = Some (Sleeps (OnBuf (Buf i)), set_flags (Buf i) (fl st i \<union> {B_WANTED}) st)"
    | (empty) "A = []" "\<And>j. j < v_buf c \<Longrightarrow> B_STALE \<notin> fl st j \<Longrightarrow> block st j \<noteq> (dev, blk)"
      "getblk_turn c dev blk n st = Some (Sleeps (OnBuf Free), set_flags Free (flags st Free \<union> {B_WANTED}) st)"
    | (delayed) i vs where "A = i # vs" "B_DELWRI \<in> fl st i" "\<And>j. j < v_buf c \<Longrightarrow> B_STALE \<notin> fl st j \<Longrightarrow> block st j \<noteq> (dev, blk)"
      "getblk_turn c dev blk n st = Some (Again, snd (bwrite (Buf i) (set_flags (Buf i) (fl (notavail (Buf i) st) i \<union> {B_ASYNC}) (notavail (Buf i) st))))"
    | (new) i vs where "A = i # vs" "B_DELWRI \<notin> fl st i" "\<And>j. j < v_buf c \<Longrightarrow> B_STALE \<notin> fl st j \<Longrightarrow> block st j \<noteq> (dev, blk)"
      "getblk_turn c dev blk n st = Some (Got (Buf i), assign i (Hbuf (bhash c dev blk)) {B_BUSY} (new_block dev blk n) st)"
proof (cases rule: hash_find[OF s d, of blk, case_names found none])
  case (found i)
  show thesis
  proof (cases "B_BUSY \<in> fl st i")
    case True
    show thesis by (rule busy[of i]) (use found True in \<open>simp_all add: getblk_turn_def Let_def\<close>)
  next
    case False
    then have "i \<in> set A" using placedD(1)[OF cacheD(2)[OF s], of i] found(2) by simp
    then obtain us vs where "A = us @ i # vs" by (auto simp: in_set_conv_decomp)
    then show thesis by (rule hit[of i us vs, rotated 4]) (use found False in \<open>simp_all add: getblk_turn_def Let_def\<close>)
  qed
next
  case none
  note av = av_first[OF cacheD(1)[OF s]]
  show thesis
  proof (cases A)
    case Nil
    show thesis by (rule empty[OF Nil none(2)]) (use none(1) av Nil in \<open>simp_all add: getblk_turn_def Let_def\<close>)
  next
    case (Cons i vs)
    show thesis
    proof (cases "B_DELWRI \<in> fl st i")
      case True
      show thesis by (rule delayed[OF Cons True none(2)]) (use none(1) av Cons True in \<open>simp_all add: getblk_turn_def Let_def\<close>)
    next
      case False
      show thesis
        by (rule new[OF Cons False none(2)]) (use none(1) av Cons False in \<open>simp_all add: getblk_turn_def Let_def assign_def new_block_def[abs_def]\<close>)
    qed
  qed
qed

text \<open>A turn keeps the invariant and the contents; a buffer it gives is held and carries the block.\<close>

definition got :: "conf \<Rightarrow> int \<times> int \<Rightarrow> turn \<Rightarrow> 'd bio \<Rightarrow> bool" where
  "got c x t st \<longleftrightarrow>
     (case t of
        Got bp \<Rightarrow> \<exists>i. bp = Buf i \<and> held c st i \<and> block st i = x \<and> B_ERROR \<notin> fl st i
      | Sleeps w \<Rightarrow> (\<exists>i < v_buf c. w = OnBuf (Buf i) \<and> block st i = x \<and> {B_BUSY, B_WANTED} \<subseteq> fl st i \<and> B_STALE \<notin> fl st i) \<or>
          w = OnBuf Free \<and> B_WANTED \<in> flags st Free \<and> (\<forall>i < v_buf c. B_BUSY \<in> fl st i)
      | Again \<Rightarrow> True)"

lemma getblk_turn_ok:
  assumes s: "cache c st A D" and d: "dev \<noteq> NODEV"
  shows "\<exists>t st' A' D'. getblk_turn c dev blk n st = Some (t, st') \<and> cache c st' A' D' \<and> content c st' = content c st \<and>
    got c (dev, blk) t st' \<and> (t = Again \<longrightarrow> length A' < length A)"
proof (cases rule: getblk_turn_cases[OF s d, of blk n, case_names hit busy empty delayed new])
  case (hit i us vs)
  note T = cacheD(4)[OF s]
  have q: "i \<notin> set (iq st)" using tidyD(4)[OF T] hit(4) by blast
  have "B_ERROR \<notin> fl st i" using flags_okD(3)[OF tidyD(1)[OF T hit(1)]] hit(4) by blast
  then have "got c (dev, blk) (Got (Buf i)) (notavail (Buf i) st)" using hit(1,2) q by (simp add: got_def held_def)
  then show ?thesis using hit(6) grab_ok[OF s[unfolded hit(5)] hit(3)] by blast
next
  case (busy i)
  have "got c (dev, blk) (Sleeps (OnBuf (Buf i))) (set_flags (Buf i) (fl st i \<union> {B_WANTED}) st)"
    using busy(1-4) by (auto simp: got_def)
  then show ?thesis using mark_ok[OF s busy(1,4), of B_WANTED] busy(5) by auto
next
  case empty
  have "B_BUSY \<in> fl st i" if "i < v_buf c" for i using placedD(1)[OF cacheD(2)[OF s], of i] empty(1) that by simp
  then have "got c (dev, blk) (Sleeps (OnBuf Free)) (set_flags Free (flags st Free \<union> {B_WANTED}) st)" by (simp add: got_def)
  then show ?thesis using want_free_ok[OF s] empty(3) by blast
next
  case (delayed i vs)
  have "cache c st ([] @ i # vs) D" using s delayed(1) by simp
  from clean_getblk[OF this delayed(2)] show ?thesis using delayed(1,4) by (auto simp: got_def)
next
  case (new i vs)
  have c: "cache c st ([] @ i # vs) D" using s new(1) by simp
  let ?s = "assign i (Hbuf (bhash c dev blk)) {B_BUSY} (new_block dev blk n) st"
  have h: "Hbuf (bhash c dev blk) = home c (dev, blk)" using d by (simp add: home_def)
  have a: "\<exists>D'. cache c ?s ([] @ vs) D'" "content c ?s = content c st" "held c ?s i" "block ?s i = (dev, blk)" "fl ?s i = {B_BUSY}"
    using assign_ok[OF c new(2), of "{B_BUSY}" "new_block dev blk n" "Hbuf (bhash c dev blk)" "(dev, blk)", OF _ _ _ _ _ _ _ _ _ h new(3)]
    by (simp_all add: new_block_def)
  then have "got c (dev, blk) (Got (Buf i)) ?s" by (simp add: got_def)
  then show ?thesis using new(4) a(1,2) by fastforce
qed

lemma getblk_loop_ok:
  assumes "cache c st A D" and d: "dev \<noteq> NODEV"
  shows "\<exists>t st' A' D'. getblk_loop c dev blk n st = Some (t, st') \<and> cache c st' A' D' \<and> content c st' = content c st \<and>
    got c (dev, blk) t st' \<and> t \<noteq> Again"
  using assms(1)
proof (induction "length A" arbitrary: st A D rule: less_induct)
  case less
  obtain t st1 A1 D1 where t: "getblk_turn c dev blk n st = Some (t, st1)" "cache c st1 A1 D1" "content c st1 = content c st"
    "got c (dev, blk) t st1" "t = Again \<longrightarrow> length A1 < length A" using getblk_turn_ok[OF less.prems d] by blast
  show ?case
  proof (cases "t = Again")
    case True
    then have "length A1 < length A" using t(5) by blast
    from less.hyps[OF this t(2)] show ?thesis using t(1,3) True by (subst getblk_loop.simps) simp
  next
    case False
    then show ?thesis using t by (subst getblk_loop.simps) auto
  qed
qed

lemma getblk_ok:
  assumes "cache c st A D" "dev \<noteq> NODEV" "bmajor c dev < bdevcnt c"
  shows "\<exists>t st' A' D'. getblk c dev blkno n st = Some (t, st') \<and> cache c st' A' D' \<and> content c st' = content c st \<and>
    got c (dev, LTOPBLK blkno n) t st' \<and> t \<noteq> Again"
  using getblk_loop_ok[OF assms(1,2)] assms(3) by (simp add: getblk_def)

end
