(* ===== verification/Bio_Flush.thy ===== *)
theory Bio_Flush
  imports Bio_Get
begin

text \<open>The other operations: empty buffers, reading and reading ahead, flushing, invalidation and initialization.\<close>

section \<open>Empty buffers\<close>

lemma geteblk_turn_ok:
  assumes s: "cache c st A D"
  shows "\<exists>t st' A' D'. geteblk_turn st = (t, st') \<and> cache c st' A' D' \<and> content c st' = content c st \<and>
    (\<forall>bp. t = Got bp \<longrightarrow> (\<exists>i. bp = Buf i \<and> held c st' i)) \<and> (t = Again \<longrightarrow> length A' < length A)"
proof (cases A)
  case Nil
  then have "geteblk_turn st = (Sleeps (OnBuf Free), set_flags Free (flags st Free \<union> {B_WANTED}) st)"
    using av_first[OF cacheD(1)[OF s]] by (simp add: geteblk_turn_def)
  then show ?thesis using want_free_ok[OF s] by auto
next
  case (Cons i vs)
  have av: "av_forw (bufs st Free) = Buf i" using av_first[OF cacheD(1)[OF s]] Cons by simp
  have c: "cache c st ([] @ i # vs) D" using s Cons by simp
  show ?thesis
  proof (cases "B_DELWRI \<in> fl st i")
    case True
    have "geteblk_turn st = (Again, snd (bwrite (Buf i) (set_flags (Buf i) (fl (notavail (Buf i) st) i \<union> {B_ASYNC}) (notavail (Buf i) st))))"
      using av True by (simp add: geteblk_turn_def Let_def)
    then show ?thesis using clean_getblk[OF c True] Cons by auto
  next
    case False
    define f :: "'a buf \<Rightarrow> 'a buf" where "f = (\<lambda>b. b\<lparr>b_dev := NODEV, b_bcount := SBUFSIZE, b_resid := 0\<rparr>)"
    have e: "geteblk_turn st = (Got (Buf i), assign i Free {B_BUSY, B_AGE} f st)"
      using av False by (simp add: geteblk_turn_def Let_def assign_def f_def)
    have h: "Free = home c (NODEV, b_blkno (bufs st (Buf i)))" by (simp add: home_def)
    have "\<exists>D'. cache c (assign i Free {B_BUSY, B_AGE} f st) ([] @ vs) D'" "content c (assign i Free {B_BUSY, B_AGE} f st) = content c st"
      "held c (assign i Free {B_BUSY, B_AGE} f st) i"
      using assign_ok[OF c False, of "{B_BUSY, B_AGE}" f Free "(NODEV, b_blkno (bufs st (Buf i)))", OF _ _ _ _ _ _ _ _ _ h]
      by (simp_all add: f_def)
    then show ?thesis using e by fastforce
  qed
qed

lemma geteblk_ok:
  assumes "cache c st A D"
  shows "\<exists>t st' A' D'. geteblk st = Some (t, st') \<and> cache c st' A' D' \<and> content c st' = content c st \<and>
    (\<forall>bp. t = Got bp \<longrightarrow> (\<exists>i. bp = Buf i \<and> held c st' i)) \<and> t \<noteq> Again"
  using assms
proof (induction "length A" arbitrary: st A D rule: less_induct)
  case less
  obtain t st1 A1 D1 where t: "geteblk_turn st = (t, st1)" "cache c st1 A1 D1" "content c st1 = content c st"
    "\<forall>bp. t = Got bp \<longrightarrow> (\<exists>i. bp = Buf i \<and> held c st1 i)" "t = Again \<longrightarrow> length A1 < length A" using geteblk_turn_ok[OF less.prems] by blast
  show ?case
  proof (cases "t = Again")
    case True
    then have "length A1 < length A" using t(5) by blast
    from less.hyps[OF this t(2)] show ?thesis using t(1,3) True by (subst geteblk.simps) simp
  next
    case False
    then show ?thesis using t by (subst geteblk.simps) auto
  qed
qed

section \<open>Reading\<close>

text \<open>The buffer of a read is held and has the block, or the block is on its way into it.\<close>

definition reads :: "conf \<Rightarrow> int \<times> int \<Rightarrow> turn \<Rightarrow> 'd bio \<Rightarrow> bool" where
  "reads c x t st \<longleftrightarrow> (\<forall>bp. t = Got bp \<longrightarrow> (\<exists>i. bp = Buf i \<and> block st i = x \<and>
     (held c st i \<and> B_DONE \<in> fl st i \<and> B_ERROR \<notin> fl st i \<or> i \<in> set (iq st) \<and> B_READ \<in> fl st i)))"

lemma start_read_fields:
  "block (start_read a n (Buf i) st) j = block st j" "iq (start_read a n (Buf i) st) = i # iq st" "B_READ \<in> fl (start_read a n (Buf i) st) i"
  by (auto simp: start_read_def)

lemma bread_ok:
  assumes s: "cache c st A D" and d: "dev \<noteq> NODEV" "bmajor c dev < bdevcnt c"
  shows "\<exists>t st' A' D'. bread c dev blkno n st = Some (t, st') \<and> cache c st' A' D' \<and> content c st' = content c st \<and>
    reads c (dev, LTOPBLK blkno n) t st' \<and> t \<noteq> Again"
proof -
  obtain t st1 A1 D1 where t: "getblk c dev blkno n st = Some (t, st1)" "cache c st1 A1 D1" "content c st1 = content c st"
    "got c (dev, LTOPBLK blkno n) t st1" "t \<noteq> Again" using getblk_ok[OF s d] by blast
  show ?thesis
  proof (cases t)
    case (Got bp)
    then obtain i where i: "bp = Buf i" "held c st1 i" "block st1 i = (dev, LTOPBLK blkno n)" "B_ERROR \<notin> fl st1 i" using t(4) by (auto simp: got_def)
    show ?thesis
    proof (cases "B_DONE \<in> fl st1 i")
      case True
      then show ?thesis using t Got i by (auto simp: bread_def reads_def)
    next
      case False
      have dv: "fst (block st1 i) \<noteq> NODEV" using i(3) d(1) by simp
      note R = start_read_ok[OF t(2) i(2) dv False, of False n]
      have e: "bread c dev blkno n st = Some (Got bp, start_read False n (Buf i) st1)" using t(1) Got i(1) False by (simp add: bread_def)
      have "reads c (dev, LTOPBLK blkno n) (Got bp) (start_read False n (Buf i) st1)"
        using i(1,3) start_read_fields[of False n i st1] by (auto simp: reads_def)
      then show ?thesis using e R t(3) by fastforce
    qed
  qed (use t in \<open>auto simp: bread_def reads_def\<close>)
qed

lemma incore_ok:
  assumes s: "cache c st A D" and d: "dev \<noteq> NODEV"
  shows "\<exists>r. incore c dev blkno n st = Some r"
  by (cases rule: hash_find[OF s d, of "LTOPBLK blkno n", case_names found none]) (auto simp: incore_def Let_def)

lemma breada_first_ok:
  assumes s: "cache c st A D" and d: "dev \<noteq> NODEV" "bmajor c dev < bdevcnt c"
  shows "\<exists>t st' A' D'. breada_first c dev blkno n st = Some (t, st') \<and> cache c st' A' D' \<and> content c st' = content c st"
proof -
  obtain r where r: "incore c dev blkno n st = Some r" using incore_ok[OF s d(1)] by blast
  show ?thesis
  proof (cases r)
    case None
    then show ?thesis using r bread_ok[OF s d, of blkno n] by (auto simp: breada_first_def)
  next
    case (Some a)
    then show ?thesis using r s by (auto simp: breada_first_def)
  qed
qed

lemma ra_count_ok:
  assumes s: "cache c st A D" and d: "dev \<noteq> NODEV"
  shows "\<exists>r. ra_count k c dev blkno n m st = Some r"
proof (induction k arbitrary: m)
  case (Suc k)
  obtain r where "incore c dev (blkno + int (Suc k)) n st = Some r" using incore_ok[OF s d] by blast
  then show ?case using Suc.IH by (cases r) auto
qed simp

lemma breada_plan_ok:
  assumes s: "cache c st A D" and d: "dev \<noteq> NODEV"
  shows "\<exists>r. breada_plan c dev blkno ra n st = Some r"
  using ra_count_ok[OF s d] incore_ok[OF s d] by (auto simp: breada_plan_def)

lemma breada_one_ok:
  assumes s: "cache c st A D" and d: "dev \<noteq> NODEV" "bmajor c dev < bdevcnt c"
  shows "\<exists>t st' A' D'. breada_one c dev blkno n st = Some (t, st') \<and> cache c st' A' D' \<and> content c st' = content c st"
proof (cases "b_bcount (bufs st Free) > 1")
  case False
  then show ?thesis using s by (auto simp: breada_one_def)
next
  case True
  obtain t st1 A1 D1 where t: "getblk c dev blkno n st = Some (t, st1)" "cache c st1 A1 D1" "content c st1 = content c st"
    "got c (dev, LTOPBLK blkno n) t st1" "t \<noteq> Again" using getblk_ok[OF s d] by blast
  show ?thesis
  proof (cases t)
    case (Got bp)
    then obtain i where i: "bp = Buf i" "held c st1 i" "block st1 i = (dev, LTOPBLK blkno n)" using t(4) by (auto simp: got_def)
    have dv: "fst (block st1 i) \<noteq> NODEV" using i(3) d(1) by simp
    show ?thesis
    proof (cases "B_DONE \<in> fl st1 i")
      case y: True
      then have "breada_one c dev blkno n st = Some (None, brelse (Buf i) st1)" using True t(1) Got i(1) by (simp add: breada_one_def)
      then show ?thesis using brelse_ok[OF t(2) i(2)] t(3) by fastforce
    next
      case False
      then have "breada_one c dev blkno n st = Some (None, start_read True n (Buf i) st1)" using True t(1) Got i(1) by (simp add: breada_one_def)
      then show ?thesis using start_read_ok[OF t(2) i(2) dv False] t(3) by fastforce
    qed
  qed (use t True in \<open>auto simp: breada_one_def\<close>)
qed

section \<open>Flushing\<close>

lemma flush_scan_ok:
  "cache c st (us @ vs) D \<Longrightarrow>
    \<exists>dirty' st' A'. flush_scan P (hd (map Buf vs @ [Free])) dirty st = Some (dirty', st') \<and> cache c st' A' D \<and> content c st' = content c st \<and>
      length A' \<le> length (us @ vs) \<and> (dirty' \<longrightarrow> dirty \<or> length A' < length (us @ vs)) \<and>
      (\<not> dirty' \<longrightarrow> \<not> dirty \<and> st' = st \<and> A' = us @ vs \<and> (\<forall>v \<in> set vs. \<not> (B_DELWRI \<in> fl st v \<and> P (bufs st (Buf v)))))"
proof (induction vs arbitrary: us st dirty)
  case Nil
  show ?case using Nil.prems by (subst flush_scan.simps) auto
next
  case (Cons v vs)
  have "ring (avf st) (avb st) Free (map Buf us @ Buf v # map Buf vs)" using listsD(1)[OF cacheD(1)[OF Cons.prems]] by simp
  then have n: "avf st (Buf v) = hd (map Buf vs @ [Free])" by (rule ring_around(2))
  show ?case
  proof (cases "B_DELWRI \<in> fl st v \<and> P (bufs st (Buf v))")
    case True
    let ?s = "snd (bwrite (Buf v) (notavail (Buf v) (set_flags (Buf v) (fl st v \<union> {B_ASYNC}) st)))"
    have C: "cache c ?s (us @ vs) D" "content c ?s = content c st" using clean_flush[OF Cons.prems] True by blast+
    have e: "flush_scan P (hd (map Buf (v # vs) @ [Free])) dirty st = flush_scan P (hd (map Buf vs @ [Free])) True ?s"
      using True n by (subst flush_scan.simps) (simp add: Let_def)
    obtain d' st' A' where I: "flush_scan P (hd (map Buf vs @ [Free])) True ?s = Some (d', st')" "cache c st' A' D" "content c st' = content c ?s"
      "length A' \<le> length (us @ vs)" "d'" using Cons.IH[OF C(1), of True] by blast
    have "flush_scan P (hd (map Buf (v # vs) @ [Free])) dirty st = Some (d', st')" using e I(1) by simp
    moreover have "length A' < length (us @ v # vs)" using I(4) by simp
    ultimately show ?thesis using I(2,3,5) C(2) by (intro exI[of _ d'] exI[of _ st'] exI[of _ A']) simp
  next
    case False
    have e: "flush_scan P (hd (map Buf (v # vs) @ [Free])) dirty st = flush_scan P (hd (map Buf vs @ [Free])) dirty st"
      using False n by (subst flush_scan.simps) (auto simp: Let_def)
    have C: "cache c st ((us @ [v]) @ vs) D" using Cons.prems by simp
    show ?thesis unfolding e using Cons.IH[OF C, of dirty] False by simp
  qed
qed

lemma flush_loop_ok:
  assumes "cache c st A D"
  shows "\<exists>st' A'. flush_loop P st = Some st' \<and> cache c st' A' D \<and> content c st' = content c st \<and>
    (\<forall>v \<in> set A'. \<not> (B_DELWRI \<in> fl st' v \<and> P (bufs st' (Buf v))))"
  using assms
proof (induction "length A" arbitrary: st A rule: less_induct)
  case less
  have a: "av_forw (bufs st Free) = hd (map Buf A @ [Free])" using av_first[OF cacheD(1)[OF less.prems]] by (cases A) simp_all
  have "cache c st ([] @ A) D" using less.prems by simp
  from flush_scan_ok[OF this, of P False] obtain dirty st1 A1 where
    S: "flush_scan P (av_forw (bufs st Free)) False st = Some (dirty, st1)" "cache c st1 A1 D" "content c st1 = content c st"
    "dirty \<longrightarrow> length A1 < length A" "\<not> dirty \<longrightarrow> st1 = st \<and> A1 = A \<and> (\<forall>v \<in> set A. \<not> (B_DELWRI \<in> fl st v \<and> P (bufs st (Buf v))))"
    unfolding a by auto
  show ?case
  proof (cases dirty)
    case True
    then have "length A1 < length A" using S(4) by blast
    from less.hyps[OF this S(2)] show ?thesis using S(1,3) True by (subst flush_loop.simps) simp
  next
    case False
    then show ?thesis using S by (subst flush_loop.simps) auto
  qed
qed

section \<open>Invalidation\<close>

definition idle :: "conf \<Rightarrow> int \<Rightarrow> 'd bio \<Rightarrow> bool" where
  "idle c dev st \<longleftrightarrow> (\<forall>i < v_buf c. b_dev (bufs st (Buf i)) = dev \<longrightarrow> B_BUSY \<notin> fl st i \<and> B_DELWRI \<notin> fl st i)"

lemma stale_ok:
  assumes s: "cache c st A D" and i: "i < v_buf c" and n: "B_BUSY \<notin> fl st i" "B_DELWRI \<notin> fl st i"
  defines "st' \<equiv> set_flags (Buf i) (fl st i \<union> {B_STALE, B_AGE}) st"
  shows "cache c st' A D" "content c st' = content c st"
proof -
  note T = cacheD(4)[OF s] and P = placedD(1)[OF cacheD(2)[OF s]]
  have q: "i \<notin> set (iq st)" using tidyD(4)[OF T] n(1) by blast
  have f: "fl st' j = (if j = i then fl st i \<union> {B_STALE, B_AGE} else fl st j)" for j by (simp add: st'_def)
  have l: "lists c st' A D" using cacheD(1)[OF s] by (subst lists_cong[of _ st]) (auto simp: st'_def)
  have F: "flags_ok (fl st i \<union> {B_STALE, B_AGE})" using tidyD(1)[OF T i] n unfolding flags_ok_def by auto
  have "async_writes st' = async_writes st" by (rule async_writes_cong) (use q f in \<open>auto simp: st'_def\<close>)
  then have cnt: "basyncnt st' = int (async_writes st')" using tidyD(6)[OF T] by (simp add: st'_def)
  show s': "cache c st' A D"
    by (rule cache_change[OF s i l f, where Q = False]) (use F cnt n q P i tidyD(2)[OF T] in \<open>auto simp: st'_def\<close>)
  show "content c st' = content c st"
  proof
    fix y
    have v: "valid st' j = valid st j" if "j \<noteq> i" for j using that unfolding valid_def f by (simp add: st'_def)
    have nv: "\<not> valid st' i" unfolding valid_def f by simp
    show "content c st' y = content c st y"
    proof (cases "valid st i \<and> block st i = y")
      case False
      show ?thesis by (rule content_off[of i]) (use v nv False in \<open>auto simp: st'_def\<close>)
    next
      case True
      then have "content c st y = data st i" using content_valid[OF cacheD(3)[OF s] i] by metis
      moreover have "data st i = disk st y" using cacheD(5)[OF s] True i q n(2) unfolding coherent_def valid_def by auto
      moreover have "content c st' y = disk st' y"
      proof (rule content_disk)
        fix j
        assume j: "j < v_buf c" "valid st' j"
        then have ji: "j \<noteq> i" using nv by blast
        then have vj: "valid st j" using j(2) v by blast
        have "block st j \<noteq> y"
        proof
          assume b: "block st j = y"
          have "j = i" by (rule singleD[OF cacheD(3)[OF s] j(1) i]) (use vj True b in \<open>auto simp: valid_def\<close>)
          then show False using ji by blast
        qed
        then show "block st' j \<noteq> y" using ji by (simp add: st'_def)
      qed
      ultimately show ?thesis by (simp add: st'_def)
    qed
  qed
qed

lemma idle_stale: "idle c dev st \<Longrightarrow> idle c dev (set_flags (Buf i) (fl st i \<union> {B_STALE, B_AGE}) st)"
  by (auto simp: idle_def)

lemma inval_scan_ok:
  assumes h: "h \<in> heads c"
  shows "cache c st A D \<Longrightarrow> idle c dev st \<Longrightarrow> D h = us @ vs \<Longrightarrow>
    \<exists>st'. inval_scan dev h (hd (map Buf vs @ [h])) st = Some st' \<and> cache c st' A D \<and> content c st' = content c st \<and> idle c dev st'"
proof (induction vs arbitrary: us st)
  case Nil
  then show ?case by (subst inval_scan.simps) simp
next
  case (Cons v vs)
  have r: "ring (bfw st) (bbk st) h (map Buf us @ Buf v # map Buf vs)" using ringsD(1)[OF listsD(2)[OF cacheD(1)[OF Cons.prems(1)]] h] Cons.prems(3) by simp
  have n: "bfw st (Buf v) = hd (map Buf vs @ [h])" by (rule ring_around(2)[OF r])
  have vh: "Buf v \<noteq> h" using r by (auto simp: ring_def)
  have v: "v < v_buf c" using placedD(2)[OF cacheD(2)[OF Cons.prems(1)] h, of v] Cons.prems(3) by simp
  let ?s = "if b_dev (bufs st (Buf v)) = dev then set_flags (Buf v) (fl st v \<union> {B_STALE, B_AGE}) st else st"
  have C: "cache c ?s A D" "content c ?s = content c st" "idle c dev ?s"
    using stale_ok[OF Cons.prems(1) v] Cons.prems(1,2) v idle_stale[OF Cons.prems(2)] by (auto simp: idle_def)
  have "inval_scan dev h (hd (map Buf (v # vs) @ [h])) st = inval_scan dev h (hd (map Buf vs @ [h])) ?s"
    using vh n by (subst inval_scan.simps) (simp add: Let_def)
  moreover have "D h = (us @ [v]) @ vs" using Cons.prems(3) by simp
  ultimately show ?case using Cons.IH[OF C(1,3)] C(2) by simp
qed

lemma binval_ok:
  assumes "cache c st A D" "idle c dev st"
  shows "\<exists>st'. binval c dev st = Some st' \<and> cache c st' A D \<and> content c st' = content c st"
proof -
  have "k + i \<le> Suc (v_hmask c) \<Longrightarrow> cache c st A D \<Longrightarrow> idle c dev st \<Longrightarrow>
      \<exists>st'. inval_from k i dev st = Some st' \<and> cache c st' A D \<and> content c st' = content c st" for k i st
  proof (induction k arbitrary: i st)
    case (Suc k)
    have h: "Hbuf i \<in> heads c" using Suc.prems(1) by (simp add: heads_def)
    have a: "bfw st (Hbuf i) = hd (map Buf (D (Hbuf i)) @ [Hbuf i])"
      using ring_first[OF ringsD(1)[OF listsD(2)[OF cacheD(1)[OF Suc.prems(2)]] h]] by (cases "D (Hbuf i)") simp_all
    obtain st1 where "inval_scan dev (Hbuf i) (b_forw (bufs st (Hbuf i))) st = Some st1" "cache c st1 A D" "content c st1 = content c st" "idle c dev st1"
      using inval_scan_ok[OF h Suc.prems(2,3), of "[]" "D (Hbuf i)"] a by auto
    then show ?case using Suc.IH[of "Suc i" st1] Suc.prems(1) by simp
  qed simp
  from this[of "Suc (v_hmask c)" 0] assms show ?thesis by (simp add: binval_def)
qed

end
