(* ===== verification/Bio_Ok.thy ===== *)
theory Bio_Ok
  imports Bio_Flush
begin

text \<open>
  The buffer cache as the kernel uses it: the states that its operations and the drivers reach, what holds in them, and that the cache is
  transparent: the contents of a device change only by writes, and readers see them.
\<close>

section \<open>Initialization\<close>

definition fresh :: "'d bio \<Rightarrow> bool" where
  "fresh st \<longleftrightarrow> basyncnt st = 0 \<and> iq st = [] \<and> b_bcount (bufs st Free) = 0 \<and> flags st Free = {}"

lemma link_free_effect:
  "flags (link_free (Buf i) st) x = (if x = Buf i then {B_BUSY} else flags st x)" "iq (link_free (Buf i) st) = iq st" "basyncnt (link_free (Buf i) st) = basyncnt st"
  "disk (link_free (Buf i) st) = disk st" "b_dev (bufs (link_free (Buf i) st) (Buf j)) = (if j = i then NODEV else b_dev (bufs st (Buf j)))"
  "b_bcount (bufs (link_free (Buf i) st) Free) = b_bcount (bufs st Free)" "avf (link_free (Buf i) st) x = avf st x" "avb (link_free (Buf i) st) x = avb st x"
  by (cases "bfw st Free = Buf j"; cases "j = i"; simp add: link_free_def Let_def)+

lemma link_free_links:
  "bfw (link_free (Buf i) st) = (bfw st)(Buf i := bfw st Free, Free := Buf i)"
  "bbk (link_free (Buf i) st) = ((bbk st)(Buf i := Free))(bfw st Free := Buf i)"
  by (auto simp: link_free_def Let_def fun_eq_iff)

text \<open>The state of the first loop of \<^verbatim>\<open>binit\<close> with the buffers below \<open>i\<close> linked in.\<close>

definition linked_in :: "nat \<Rightarrow> nat list \<Rightarrow> 'd bio \<Rightarrow> bool" where
  "linked_in i A st \<longleftrightarrow> ring (avf st) (avb st) Free (map Buf A) \<and> ring (bfw st) (bbk st) Free (map Buf (rev [0..<i])) \<and> set A = {..<i} \<and>
     b_bcount (bufs st Free) = int i \<and> (\<forall>j < i. fl st j = {} \<and> b_dev (bufs st (Buf j)) = NODEV) \<and> iq st = [] \<and> basyncnt st = 0"

lemma linked_inD:
  assumes "linked_in i A st"
  shows "ring (avf st) (avb st) Free (map Buf A)" "ring (bfw st) (bbk st) Free (map Buf (rev [0..<i]))" "set A = {..<i}"
    "b_bcount (bufs st Free) = int i" "j < i \<Longrightarrow> fl st j = {}" "j < i \<Longrightarrow> b_dev (bufs st (Buf j)) = NODEV" "iq st = []" "basyncnt st = 0"
  using assms unfolding linked_in_def by blast+

lemma binit_turn:
  assumes s: "linked_in i A st"
  shows "\<exists>A'. linked_in (Suc i) A' (brelse (Buf i) (link_free (Buf i) st))"
proof -
  let ?l = "link_free (Buf i) st"
  let ?s = "brelse (Buf i) ?l"
  have r: "ring (avf st) (avb st) Free (map Buf A)" "ring (bfw st) (bbk st) Free (map Buf (rev [0..<i]))" and A: "set A = {..<i}"
    by (rule linked_inD(1-3)[OF s])+
  have x: "Buf i \<notin> set (Free # map Buf A)" "Buf i \<notin> set (Free # map Buf (rev [0..<i]))" by (simp_all add: A image_iff)
  have l: "ring (avf ?l) (avb ?l) Free (map Buf A)" using r(1) by (simp add: link_free_effect(7,8))
  have ne: "Buf i \<noteq> Free" by simp
  have "ring (avf ?s) (avb ?s) Free (map Buf (i # A)) \<or> ring (avf ?s) (avb ?s) Free (map Buf (A @ [i]))"
    using brelse_links[OF ne, of ?l] ring_front[OF l x(1)] ring_back[OF l x(1)] by auto
  then obtain A' where A': "ring (avf ?s) (avb ?s) Free (map Buf A')" "set A' = insert i (set A)" by (metis list.set(2) set_rotate1 rotate1.simps(2))
  have "bfw st Free \<in> set (Free # map Buf (rev [0..<i]))"
    unfolding ring_first[OF r(2)] by (cases "map Buf (rev [0..<i])") (simp_all only: list.case list.set_intros)
  then have n: "bfw st Free \<noteq> Buf i" using x(2) by metis
  have "ring (bfw ?l) (bbk ?l) Free (Buf i # map Buf (rev [0..<i]))"
    unfolding link_free_links using ring_front[OF r(2) x(2)] n by (simp add: fun_upd_twist)
  then have "ring (bfw ?s) (bbk ?s) Free (map Buf (rev [0..<Suc i]))" by (simp add: brelse_effect(4,5)[OF ne])
  moreover have "\<forall>j < Suc i. fl ?s j = {} \<and> b_dev (bufs ?s (Buf j)) = NODEV"
    using linked_inD(5,6)[OF s] by (simp add: brelse_effect(1)[OF ne] link_free_effect less_Suc_eq)
  moreover have "b_bcount (bufs ?s Free) = int (Suc i)" "iq ?s = []" "basyncnt ?s = 0"
    using linked_inD(4,7,8)[OF s] by (simp_all add: brelse_effect(6)[OF ne] link_free_effect)
  moreover have "set A' = {..<Suc i}" using A'(2) A by auto
  ultimately show ?thesis using A'(1) unfolding linked_in_def by blast
qed

lemma binit_from_ok: "linked_in i A st \<Longrightarrow> \<exists>A'. linked_in (i + k) A' (binit_from k i st)"
proof (induction k arbitrary: i A st)
  case (Suc k)
  then show ?case using binit_turn[OF Suc.prems] by fastforce
qed auto

lemma hinit_effect:
  "bufs (hinit k st) (Buf i) = bufs st (Buf i)" "bufs (hinit k st) Free = bufs st Free" "iq (hinit k st) = iq st" "basyncnt (hinit k st) = basyncnt st"
  "disk (hinit k st) = disk st" "j < k \<Longrightarrow> bfw (hinit k st) (Hbuf j) = Hbuf j \<and> bbk (hinit k st) (Hbuf j) = Hbuf j"
  by (induction k) (auto simp: less_Suc_eq)

lemma hinit_ok:
  assumes "linked_in (v_buf c) A st"
  shows "cache c (hinit (Suc (v_hmask c)) st) A (\<lambda>h. if h = Free then rev [0..<v_buf c] else [])"
proof -
  let ?s = "hinit (Suc (v_hmask c)) st"
  let ?D = "\<lambda>h. if h = Free then rev [0..<v_buf c] else []"
  note L = linked_inD[OF assms]
  have "distinct A" using L(1) by (simp add: ring_def distinct_map)
  then have len: "length A = v_buf c" using L(3) distinct_card[of A] by simp
  have r1: "ring (avf ?s) (avb ?s) Free (map Buf A) = ring (avf st) (avb st) Free (map Buf A)" by (rule ring_cong) (auto simp: hinit_effect)
  have r2: "ring (bfw ?s) (bbk ?s) Free (map Buf (rev [0..<v_buf c])) = ring (bfw st) (bbk st) Free (map Buf (rev [0..<v_buf c]))" by (rule ring_cong) (auto simp: hinit_effect)
  have "rings (bfw ?s) (bbk ?s) (heads c) (\<lambda>h. map Buf (?D h))" unfolding rings_def
  proof (intro conjI ballI impI)
    fix h
    assume h: "h \<in> heads c"
    show "ring (bfw ?s) (bbk ?s) h (map Buf (?D h))"
    proof (cases "h = Free")
      case True
      then show ?thesis using r2 L(2) by simp
    next
      case False
      then obtain k where "h = Hbuf k" "k \<le> v_hmask c" using h by (auto simp: heads_def)
      then show ?thesis using hinit_effect(6)[of k "Suc (v_hmask c)" st] by simp
    qed
    fix g
    assume "g \<in> heads c" "h \<noteq> g"
    then show "set (h # map Buf (?D h)) \<inter> set (g # map Buf (?D g)) = {}" using h by (auto simp: heads_def)
  qed
  then have "lists c ?s A ?D" unfolding lists_def using r1 L(1,4) len by (simp only: hinit_effect)
  moreover have "placed c ?s A ?D" unfolding placed_def hinit_effect using L(3,5,6) by (auto simp: home_def)
  moreover have "single c ?s" "coherent c ?s" unfolding single_def coherent_def hinit_effect using L(6) by simp_all
  moreover have "tidy c ?s" unfolding tidy_def async_writes_def hinit_effect using L(5,7,8) by (simp add: flags_ok_def)
  ultimately show ?thesis by (simp add: cache_def)
qed

lemma binit_ok: "fresh st \<Longrightarrow> \<exists>A D. cache c (binit c st) A D"
proof -
  assume f: "fresh st"
  let ?s = "upd_buf Free (\<lambda>b. b\<lparr>b_forw := Free, b_back := Free, av_forw := Free, av_back := Free\<rparr>) st"
  have "linked_in 0 [] ?s" using f by (simp add: linked_in_def fresh_def)
  from binit_from_ok[OF this, of "v_buf c"] obtain A where "linked_in (v_buf c) A (binit_from (v_buf c) 0 ?s)" by auto
  from hinit_ok[OF this] show ?thesis unfolding binit_def Let_def by blast
qed

section \<open>Steps\<close>

text \<open>What a step does to the contents: nothing, a write of a block, or a block whose write failed. A holder puts data into a buffer that
  carries a valid block only together with the call that writes it.\<close>

datatype 'd event = Quiet | Wrote "int \<times> int" 'd | Lost "int \<times> int"

inductive bio_step :: "conf \<Rightarrow> 'd bio \<Rightarrow> 'd event \<Rightarrow> 'd bio \<Rightarrow> bool" for c where
  getblk: "dev \<noteq> NODEV \<Longrightarrow> getblk_turn c dev blk n st = Some (t, st') \<Longrightarrow> bio_step c st Quiet st'"
| geteblk: "geteblk_turn st = (t, st') \<Longrightarrow> bio_step c st Quiet st'"
| bread: "dev \<noteq> NODEV \<Longrightarrow> bmajor c dev < bdevcnt c \<Longrightarrow> bread c dev blk n st = Some (t, st') \<Longrightarrow> bio_step c st Quiet st'"
| breada_first: "dev \<noteq> NODEV \<Longrightarrow> bmajor c dev < bdevcnt c \<Longrightarrow> breada_first c dev blk n st = Some (u, st') \<Longrightarrow> bio_step c st Quiet st'"
| breada_one: "dev \<noteq> NODEV \<Longrightarrow> bmajor c dev < bdevcnt c \<Longrightarrow> breada_one c dev blk n st = Some (u, st') \<Longrightarrow> bio_step c st Quiet st'"
| start_read: "held c st i \<Longrightarrow> fst (block st i) \<noteq> NODEV \<Longrightarrow> B_DONE \<notin> fl st i \<Longrightarrow> bio_step c st Quiet (start_read async n (Buf i) st)"
| store: "held c st i \<Longrightarrow> B_DONE \<notin> fl st i \<Longrightarrow> bio_step c st Quiet (store i v st)"
| brelse: "held c st i \<Longrightarrow> bio_step c st Quiet (brelse (Buf i) st)"
| bwrite: "held c st i \<Longrightarrow> fst (block st i) \<noteq> NODEV \<Longrightarrow> bwrite (Buf i) (store i v st) = (w, st') \<Longrightarrow> bio_step c st (Wrote (block st i) v) st'"
| bawrite: "held c st i \<Longrightarrow> fst (block st i) \<noteq> NODEV \<Longrightarrow> bawrite (Buf i) (store i v st) = (w, st') \<Longrightarrow> bio_step c st (Wrote (block st i) v) st'"
| bdwrite: "held c st i \<Longrightarrow> fst (block st i) \<noteq> NODEV \<Longrightarrow> B_ERROR \<notin> fl st i \<Longrightarrow>
    bio_step c st (Wrote (block st i) v) (bdwrite (Buf i) (store i v st))"
| complete: "i \<in> set (iq st) \<Longrightarrow>
    bio_step c st (if err = 0 \<or> B_READ \<in> fl st i then Quiet else Lost (block st i)) (complete err i st)"
| bflush: "bflush dev st = Some st' \<Longrightarrow> bio_step c st Quiet st'"
| bdflush: "bdflush autoup st = Some st' \<Longrightarrow> bio_step c st Quiet st'"
| bdwait: "bdwait st = (u, st') \<Longrightarrow> bio_step c st Quiet st'"
| binval: "idle c dev st \<Longrightarrow> binval c dev st = Some st' \<Longrightarrow> bio_step c st Quiet st'"
| clock: "bio_step c st Quiet (st\<lparr>lbolt := t\<rparr>)"

inductive bio_reach :: "conf \<Rightarrow> 'd bio \<Rightarrow> bool" for c where
  init: "fresh st \<Longrightarrow> bio_reach c (binit c st)"
| step: "bio_reach c st \<Longrightarrow> bio_step c st ev st' \<Longrightarrow> bio_reach c st'"

definition after :: "'d event \<Rightarrow> (int \<times> int \<Rightarrow> 'd) \<Rightarrow> (int \<times> int \<Rightarrow> 'd) \<Rightarrow> bool" where
  "after ev m m' \<longleftrightarrow>
     (case ev of
        Quiet \<Rightarrow> m' = m
      | Wrote x v \<Rightarrow> m' = m(x := v)
      | Lost x \<Rightarrow> \<forall>y. y \<noteq> x \<longrightarrow> m' y = m y)"

lemma step_ok:
  assumes "bio_step c st ev st'" "cache c st A D"
  shows "(\<exists>A' D'. cache c st' A' D') \<and> after ev (content c st) (content c st')"
  using assms(1)
proof cases
  case (getblk dev blk n t)
  then show ?thesis using getblk_turn_ok[OF assms(2) getblk(2), of blk n] by (auto simp: after_def)
next
  case (geteblk t)
  then show ?thesis using geteblk_turn_ok[OF assms(2)] by (auto simp: after_def)
next
  case (bread dev blk n t)
  then show ?thesis using bread_ok[OF assms(2) bread(2,3), of blk n] by (auto simp: after_def)
next
  case (breada_first dev blk n u)
  then show ?thesis using breada_first_ok[OF assms(2) breada_first(2,3), of blk n] by (auto simp: after_def)
next
  case (breada_one dev blk n u)
  then show ?thesis using breada_one_ok[OF assms(2) breada_one(2,3), of blk n] by (auto simp: after_def)
next
  case (start_read i async n)
  then show ?thesis using start_read_ok[OF assms(2) start_read(3-5), of async n] by (auto simp: after_def)
next
  case (store i v)
  then show ?thesis using store_invalid_ok[OF assms(2) store(3,4), of v] by (auto simp: after_def)
next
  case (brelse i)
  then show ?thesis using brelse_ok[OF assms(2) brelse(3)] by (auto simp: after_def)
next
  case (bwrite i v w)
  then show ?thesis using bwrite_ok[OF assms(2) bwrite(2,3), of v] by (auto simp: after_def)
next
  case (bawrite i v w)
  then show ?thesis using bawrite_ok[OF assms(2) bawrite(2,3), of v] by (auto simp: after_def)
next
  case (bdwrite i v)
  then show ?thesis using bdwrite_ok[OF assms(2) bdwrite(3-5), of v] by (auto simp: after_def)
next
  case (complete i err)
  then show ?thesis using complete_ok[OF assms(2) complete(3), where err = err] by (auto simp: after_def)
next
  case (bflush dev)
  then show ?thesis using flush_loop_ok[OF assms(2), of "\<lambda>b. dev = NODEV \<or> dev = b_dev b"] by (auto simp: after_def bflush_def)
next
  case (bdflush autoup)
  then show ?thesis using flush_loop_ok[OF assms(2), of "\<lambda>b. lbolt st - b_start b \<ge> autoup"] by (auto simp: after_def bdflush_def)
next
  case (bdwait u)
  have "lists c st' A D" using cacheD(1)[OF assms(2)] bdwait(2) by (subst lists_cong[of _ st]) (auto simp: bdwait_def split: if_splits)
  then show ?thesis using cache_same[OF assms(2), of st'] bdwait by (fastforce simp: after_def bdwait_def split: if_splits)
next
  case (binval dev)
  then show ?thesis using binval_ok[OF assms(2) binval(2)] by (auto simp: after_def)
next
  case (clock t)
  have "lists c st' A D" using cacheD(1)[OF assms(2)] clock(2) by (subst lists_cong[of _ st]) auto
  then show ?thesis using cache_same[OF assms(2), of st'] clock by (fastforce simp: after_def)
qed

lemma reach_cache: "bio_reach c st \<Longrightarrow> \<exists>A D. cache c st A D"
proof (induction rule: bio_reach.induct)
  case (init st)
  then show ?case by (rule binit_ok)
next
  case (step st ev st')
  then show ?case using step_ok by blast
qed

section \<open>Properties\<close>

text \<open>C5: in every state that the operations and the drivers can reach, the available list is a ring of exactly the buffers that are not busy,
  with their number; every hash chain is a ring of exactly the buffers of its class; no two buffers hold the same block; and the
  count of asynchronous writes is exact.\<close>

theorem buffer_lists_sound:
  "bio_reach c st \<Longrightarrow>
    (\<exists>A. ring (avf st) (avb st) Free (map Buf A) \<and> set A = {i. i < v_buf c \<and> B_BUSY \<notin> fl st i} \<and> b_bcount (bufs st Free) = int (card (set A))) \<and>
    (\<forall>h \<le> v_hmask c. \<exists>L. ring (bfw st) (bbk st) (Hbuf h) (map Buf L) \<and>
       set L = {i. i < v_buf c \<and> b_dev (bufs st (Buf i)) \<noteq> NODEV \<and> bhash c (b_dev (bufs st (Buf i))) (b_blkno (bufs st (Buf i))) = h}) \<and>
    (\<forall>i < v_buf c. \<forall>j < v_buf c. B_STALE \<notin> fl st i \<and> B_STALE \<notin> fl st j \<and> b_dev (bufs st (Buf i)) \<noteq> NODEV \<and> block st i = block st j \<longrightarrow> i = j) \<and>
    basyncnt st = int (card {i \<in> set (iq st). B_ASYNC \<in> fl st i \<and> B_READ \<notin> fl st i})"
proof -
  assume "bio_reach c st"
  then obtain A D where s: "cache c st A D" using reach_cache by blast
  have A: "set A = {i. i < v_buf c \<and> B_BUSY \<notin> fl st i}" using placedD(1)[OF cacheD(2)[OF s]] by blast
  have n: "b_bcount (bufs st Free) = int (card (set A))"
    using listsD(3)[OF cacheD(1)[OF s]] distinct_card[OF lists_distinct[OF cacheD(1)[OF s]]] by simp
  have L: "\<exists>L. ring (bfw st) (bbk st) (Hbuf h) (map Buf L) \<and>
       set L = {i. i < v_buf c \<and> b_dev (bufs st (Buf i)) \<noteq> NODEV \<and> bhash c (b_dev (bufs st (Buf i))) (b_blkno (bufs st (Buf i))) = h}"
    if "h \<le> v_hmask c" for h
  proof -
    have h: "Hbuf h \<in> heads c" using that by (simp add: heads_def)
    have "home c (block st i) = Hbuf h \<longleftrightarrow> b_dev (bufs st (Buf i)) \<noteq> NODEV \<and> bhash c (b_dev (bufs st (Buf i))) (b_blkno (bufs st (Buf i))) = h" for i
      by (simp add: home_def)
    then have "set (D (Hbuf h)) = {i. i < v_buf c \<and> b_dev (bufs st (Buf i)) \<noteq> NODEV \<and> bhash c (b_dev (bufs st (Buf i))) (b_blkno (bufs st (Buf i))) = h}"
      using placedD(2)[OF cacheD(2)[OF s] h] by blast
    then show ?thesis using ringsD(1)[OF listsD(2)[OF cacheD(1)[OF s]] h] by blast
  qed
  have u: "i = j" if "i < v_buf c" "j < v_buf c" "B_STALE \<notin> fl st i \<and> B_STALE \<notin> fl st j \<and> b_dev (bufs st (Buf i)) \<noteq> NODEV \<and> block st i = block st j" for i j
  proof -
    have "B_STALE \<notin> fl st i" "B_STALE \<notin> fl st j" "fst (block st i) \<noteq> NODEV" "block st i = block st j" using that(3) by simp_all
    then show ?thesis by (rule singleD[OF cacheD(3)[OF s] that(1,2)])
  qed
  have "async_writes st = card (set (filter (\<lambda>i. B_ASYNC \<in> fl st i \<and> B_READ \<notin> fl st i) (iq st)))"
    unfolding async_writes_def by (rule distinct_card[symmetric], rule distinct_filter, rule tidyD(2)[OF cacheD(4)[OF s]])
  then have "async_writes st = card {i \<in> set (iq st). B_ASYNC \<in> fl st i \<and> B_READ \<notin> fl st i}" by (simp only: set_filter)
  then have k: "basyncnt st = int (card {i \<in> set (iq st). B_ASYNC \<in> fl st i \<and> B_READ \<notin> fl st i})" using tidyD(6)[OF cacheD(4)[OF s]] by simp
  show ?thesis
  proof (intro conjI exI[of _ A])
    show "\<forall>i < v_buf c. \<forall>j < v_buf c. B_STALE \<notin> fl st i \<and> B_STALE \<notin> fl st j \<and> b_dev (bufs st (Buf i)) \<noteq> NODEV \<and> block st i = block st j \<longrightarrow> i = j"
      by (intro allI impI) (rule u)
  qed (use listsD(1)[OF cacheD(1)[OF s]] A n L k in blast)+
qed

text \<open>The system of the witnesses: two buffers, one hash chain.\<close>

definition conf_w :: conf where
  "conf_w = \<lparr>v_buf = 2, v_hmask = 0, bdevcnt = 1, bmajor = (\<lambda>_. 0)\<rparr>"

definition fresh_w :: "nat bio" where
  "fresh_w = \<lparr>bufs = (\<lambda>_. \<lparr>b_flags = {}, b_forw = Free, b_back = Free, av_forw = Free, av_back = Free, b_dev = 0, b_bcount = 0, b_data = 0,
     b_blkno = 0, b_error = 0, b_resid = 0, b_start = 0\<rparr>), basyncnt = 0, basynwait = False, lbolt = 0, wakes = [], iq = [], disk = (\<lambda>_. 9)\<rparr>"

lemma reach_w: "bio_reach conf_w (binit conf_w fresh_w)"
  by (rule bio_reach.init) (simp add: fresh_def fresh_w_def)

theorem buffer_lists_sound_witness:
  "\<exists>A. ring (avf (binit conf_w fresh_w)) (avb (binit conf_w fresh_w)) Free (map Buf A) \<and> b_bcount (bufs (binit conf_w fresh_w) Free) = int (card (set A))"
  using buffer_lists_sound[OF reach_w] by blast






text \<open>C6: in every reachable state \<^verbatim>\<open>getblk\<close> of a device in the switch returns, without changing the contents of any block: with a busy buffer of its own
  for the block, which is not in transfer and not stale or in error; or it sleeps, but only on a busy buffer of that block, or for any buffer when all are
  busy, and with the flag set that makes \<^verbatim>\<open>brelse\<close> wake it.\<close>

theorem getblk_outcomes:
  "bio_reach c st \<Longrightarrow> dev \<noteq> NODEV \<Longrightarrow> bmajor c dev < bdevcnt c \<Longrightarrow>
    \<exists>t st'. getblk c dev blkno n st = Some (t, st') \<and> bio_reach c st' \<and> content c st' = content c st \<and>
     (case t of
        Got bp \<Rightarrow> \<exists>i. bp = Buf i \<and> held c st' i \<and> block st' i = (dev, LTOPBLK blkno n) \<and> B_STALE \<notin> fl st' i \<and> B_ERROR \<notin> fl st' i
      | Sleeps w \<Rightarrow> (\<exists>i < v_buf c. w = OnBuf (Buf i) \<and> block st' i = (dev, LTOPBLK blkno n) \<and> B_STALE \<notin> fl st' i \<and> {B_BUSY, B_WANTED} \<subseteq> fl st' i) \<or>
          w = OnBuf Free \<and> B_WANTED \<in> flags st' Free \<and> (\<forall>i < v_buf c. B_BUSY \<in> fl st' i)
      | Again \<Rightarrow> False)"
proof -
  assume r: "bio_reach c st" and d: "dev \<noteq> NODEV" "bmajor c dev < bdevcnt c"
  obtain A D where s: "cache c st A D" using reach_cache[OF r] by blast
  have loop: "\<exists>t st' A' D'. getblk_loop c dev blk n st = Some (t, st') \<and> bio_reach c st' \<and> cache c st' A' D' \<and> content c st' = content c st \<and>
      got c (dev, blk) t st' \<and> t \<noteq> Again" if "bio_reach c st" "cache c st A D" for blk st A D
    using that
  proof (induction "length A" arbitrary: st A D rule: less_induct)
    case less
    obtain t st1 A1 D1 where t: "getblk_turn c dev blk n st = Some (t, st1)" "cache c st1 A1 D1" "content c st1 = content c st"
      "got c (dev, blk) t st1" "t = Again \<longrightarrow> length A1 < length A" using getblk_turn_ok[OF less.prems(2) d(1)] by blast
    have r1: "bio_reach c st1" by (rule bio_reach.step[OF less.prems(1) bio_step.getblk[OF d(1) t(1)]])
    show ?case
    proof (cases "t = Again")
      case True
      then have "length A1 < length A" using t(5) by blast
      from less.hyps[OF this r1 t(2)] show ?thesis using t(1,3) True by (subst getblk_loop.simps) simp
    next
      case False
      then show ?thesis using t r1 by (subst getblk_loop.simps) auto
    qed
  qed
  obtain t st' A' D' where g: "getblk c dev blkno n st = Some (t, st')" "bio_reach c st'" "cache c st' A' D'" "content c st' = content c st"
    "got c (dev, LTOPBLK blkno n) t st'" "t \<noteq> Again" using loop[OF r s, of "LTOPBLK blkno n"] d(2) by (auto simp: getblk_def)
  have "B_STALE \<notin> fl st' i" if "held c st' i" for i
    using that flags_okD(4)[OF tidyD(1)[OF cacheD(4)[OF g(3)]]] by (simp add: held_def)
  then show ?thesis using g by (cases t) (auto simp: got_def)
qed

theorem getblk_outcomes_witness:
  "\<exists>t st'. getblk conf_w 0 5 1024 (binit conf_w fresh_w) = Some (t, st') \<and> bio_reach conf_w st'"
  using getblk_outcomes[OF reach_w, of 0 5 1024] by (auto simp: conf_w_def)

end
